(* ===== verification/Prelude.thy ===== *)
theory Prelude
  imports Main "HOL-Library.Word"
begin

unbundle bit_operations_syntax

text \<open>
  What every component of the development shares: the names of the machine integers of
  \<open>inc/types.h\<close>, the result type of an operation that can panic or touch memory it must
  not, the sequencing of such operations, and the collections of facts the component
  proofs rewrite with.
\<close>

section \<open>Machine integers and results\<close>

text \<open>\<open>uint8_t\<close>, \<open>uint16_t\<close>, \<open>uint32_t\<close> (also \<open>uintptr_t\<close>, \<open>physaddr_t\<close>, \<open>size_t\<close>,
  \<open>pte_t\<close>, \<open>pde_t\<close>) and \<open>uint64_t\<close>. Signed C integers of the same widths are the same
  words, read with \<^const>\<open>sint\<close> and compared with the signed comparisons.\<close>

type_synonym u8 = "8 word"
type_synonym u16 = "16 word"
type_synonym u32 = "32 word"
type_synonym u64 = "64 word"

text \<open>The error code of \<open>inc/error.h\<close> that more than one component returns.\<close>

definition E_INVAL :: u32 where [simp]: "E_INVAL = 3"

text \<open>
  An operation ends normally with a value, or in a fault: \<open>Panic\<close> is a call of
  \<open>panic()\<close> (its message kept), \<open>Wild_Access\<close> is a dereference of a pointer outside
  the array it must point into, which C leaves undefined.
\<close>

datatype fault = Panic string | Wild_Access

named_theorems result_simps "rewriting of sequenced operations"
named_theorems mmu_simps "address arithmetic, read over the natural numbers"

definition bindr :: "'e + 'a \<Rightarrow> ('a \<Rightarrow> 'e + 'b) \<Rightarrow> 'e + 'b" where
  "bindr r f = (case r of Inl e \<Rightarrow> Inl e | Inr x \<Rightarrow> f x)"

lemma bindr_Inl [simp, result_simps]: "bindr (Inl e) f = Inl e"
  by (simp add: bindr_def)

lemma bindr_Inr [simp, result_simps]: "bindr (Inr x) f = f x"
  by (simp add: bindr_def)

lemma bindr_eq_Inr: "bindr r f = Inr y \<longleftrightarrow> (\<exists>x. r = Inr x \<and> f x = Inr y)"
  by (cases r) simp_all

lemma bindr_eq_Inl: "bindr r f = Inl e \<longleftrightarrow> r = Inl e \<or> (\<exists>x. r = Inr x \<and> f x = Inl e)"
  by (cases r) simp_all

lemma bindr_eq_InrE:
  assumes "bindr r f = Inr y"
  obtains x where "r = Inr x" "f x = Inr y"
  using assms by (auto simp: bindr_eq_Inr)

lemma bindr_cong [fundef_cong]:
  "r = r' \<Longrightarrow> (\<And>x. r' = Inr x \<Longrightarrow> f x = g x) \<Longrightarrow> bindr r f = bindr r' g"
  by (cases r') auto

text \<open>The same sequencing for operations whose loops may not end: \<^const>\<open>None\<close> is a run that
  does not return.\<close>

definition bindo :: "('e + 'a) option \<Rightarrow> ('a \<Rightarrow> ('e + 'b) option) \<Rightarrow> ('e + 'b) option" where
  "bindo r f = Option.bind r (\<lambda>x. case x of Inl e \<Rightarrow> Some (Inl e) | Inr y \<Rightarrow> f y)"

lemma bindo_simps [simp, result_simps]:
  "bindo None f = None" "bindo (Some (Inl e)) f = Some (Inl e)" "bindo (Some (Inr x)) f = f x"
  by (simp_all add: bindo_def)

lemma bindo_eq_Inr: "bindo r f = Some (Inr y) \<longleftrightarrow> (\<exists>x. r = Some (Inr x) \<and> f x = Some (Inr y))"
proof (cases r)
  case (Some z)
  then show ?thesis by (cases z) simp_all
qed simp

lemma bindo_mono [partial_function_mono]:
  assumes "mono_option B" "\<And>y. mono_option (C y)"
  shows "mono_option (\<lambda>f. bindo (B f) (\<lambda>y. C y f))"
proof -
  have "mono_option (\<lambda>f. case x of Inl e \<Rightarrow> Some (Inl e) | Inr y \<Rightarrow> C y f)" for x
    by (cases x) (simp_all add: assms(2) option.const_mono)
  with assms(1) show ?thesis unfolding bindo_def by (rule bind_mono)
qed

text \<open>A counting loop whose body can fault: the body is run for each index in order and the
  first fault ends the loop.\<close>

fun for_each :: "('a \<Rightarrow> 's \<Rightarrow> 'e + 's) \<Rightarrow> 'a list \<Rightarrow> 's \<Rightarrow> 'e + 's" where
  "for_each f [] s = Inr s"
| "for_each f (x # xs) s = bindr (f x s) (for_each f xs)"

lemma for_each_append:
  "for_each f (xs @ ys) s = bindr (for_each f xs s) (for_each f ys)"
proof (induction xs arbitrary: s)
  case (Cons x xs)
  then show ?case by (cases "f x s") simp_all
qed simp

text \<open>The invariant rule of such a loop: what the body keeps from each index to the next
  holds when the loop ends, and the loop ends without a fault.\<close>

lemma for_each_invariant:
  assumes "P xs0 s"
    and "\<And>ys z zs s. xs0 @ xs = ys @ z # zs \<Longrightarrow> length xs0 \<le> length ys \<Longrightarrow> P ys s \<Longrightarrow>
      \<exists>s'. f z s = Inr s' \<and> P (ys @ [z]) s'"
  shows "\<exists>s'. for_each f xs s = Inr s' \<and> P (xs0 @ xs) s'"
  using assms
proof (induction xs arbitrary: xs0 s)
  case Nil
  then show ?case by simp
next
  case (Cons x xs)
  from Cons.prems(2) [of xs0 x xs s] Cons.prems(1)
  obtain s' where s': "f x s = Inr s'" "P (xs0 @ [x]) s'" by auto
  have "\<exists>s''. for_each f xs s' = Inr s'' \<and> P ((xs0 @ [x]) @ xs) s''"
    using s'(2) by (rule Cons.IH) (use Cons.prems(2) in force)
  with s'(1) show ?case by simp
qed

lemma for_each_same:
  assumes "\<And>x s t. f x s = Inr t \<Longrightarrow> g t = g s" "for_each f xs s = Inr t"
  shows "g t = g s"
  using assms(2)
proof (induction xs arbitrary: s)
  case (Cons x xs)
  then show ?case using assms(1) by (auto simp: bindr_eq_Inr)
qed simp

section \<open>Facts about words read as natural numbers\<close>

lemma unat_add_no_wrap:
  "unat (a :: u32) + unat b < 2 ^ 32 \<Longrightarrow> unat (a + b) = unat a + unat b"
  by (simp add: unat_word_ariths)

lemma unat_u32_lt: "unat (x :: u32) < 4294967296"
  using unsigned_less [of x, where 'a = nat] by simp

lemma unat_mult4: "unat (i :: u32) < 1073741824 \<Longrightarrow> unat (4 * i) = 4 * unat i"
  by (simp add: unat_word_ariths)

lemma word_eq_unatI: "unat (x :: u32) = unat y \<Longrightarrow> x = y"
  by (simp add: word_unat_eq_iff)

lemma unat_minus_mod_u32: "unat (a - b :: u32) = (unat a + (4294967296 - unat b)) mod 4294967296"
proof (cases "b \<le> a")
  case True
  then have "unat b \<le> unat a" by (simp add: word_le_nat_alt)
  moreover have "unat (a - b) = unat a - unat b" using True by (simp add: unat_sub)
  moreover have "unat a < 4294967296" by (rule unat_u32_lt)
  ultimately show ?thesis
    by (simp add: mod_if)
next
  case False
  then have lt: "unat a < unat b" by (simp add: word_le_nat_alt)
  have b: "unat b < 4294967296" by (rule unat_u32_lt)
  show ?thesis
    using lt b by (simp add: unat_sub_if_size word_size word_le_nat_alt)
qed

text \<open>The signed reading of a word.\<close>

lemma bit_31: "m < 4294967296 \<Longrightarrow> bit (int m) 31 \<longleftrightarrow> 2147483648 \<le> m"
proof -
  assume m: "m < 4294967296"
  have "int m div 2147483648 = (if 2147483648 \<le> m then 1 else 0)" using m by auto
  then show ?thesis by (simp add: bit_iff_odd)
qed

lemma sint_u32: "sint (x :: u32) = (if unat x < 2 ^ 31 then int (unat x) else int (unat x) - 2 ^ 32)"
proof -
  define m where "m = unat x"
  have u: "uint x = int m" by (simp add: m_def)
  have lt: "m < 4294967296" unfolding m_def by (rule unat_u32_lt)
  have "sint x = signed_take_bit 31 (uint x)" by (simp add: sint_uint)
  then have "sint x = (if m < 2 ^ 31 then int m else int m - 2 ^ 32)"
    using bit_31 [OF lt] lt by (simp add: u signed_take_bit_eq_take_bit_minus take_bit_int_eq_self)
  then show ?thesis by (simp only: m_def)
qed

lemma sint_nonpos: "(x :: 32 word) \<le>s 0 \<longleftrightarrow> x = 0 \<or> 2 ^ 31 \<le> unat x"
proof -
  define m where "m = unat x"
  have "m < 4294967296" unfolding m_def by (rule unat_u32_lt)
  moreover have "x = 0 \<longleftrightarrow> m = 0" by (simp add: m_def unat_eq_0)
  ultimately show ?thesis 
    unfolding word_sle_eq sint_u32 m_def [symmetric] by auto
qed

end
