(* ===== verification/Mmu.thy ===== *)
theory Mmu
  imports Prelude
begin

text \<open>
  Linear addresses and page-table entries: the macros of \<open>inc/mmu.h\<close>, the rounding
  macros of \<open>inc/types.h\<close>, the memory map of \<open>inc/memlayout.h\<close> and the
  kernel-address conversions of \<open>kern/pmap.h\<close> that need no state. Every macro has a
  reading over the natural numbers in the collection \<open>mmu_simps\<close>, so that later proofs
  about addresses are linear arithmetic with \<open>div\<close> and \<open>mod\<close>.
\<close>

section \<open>Constants\<close>

definition NPDENTRIES :: u32 where [simp]: "NPDENTRIES = 1024"
definition NPTENTRIES :: u32 where [simp]: "NPTENTRIES = 1024"
definition PGSIZE :: u32 where [simp]: "PGSIZE = 4096"
definition PGSHIFT :: nat where [simp]: "PGSHIFT = 12"
definition PTSIZE :: u32 where [simp]: "PTSIZE = PGSIZE * NPTENTRIES"
definition PTXSHIFT :: nat where [simp]: "PTXSHIFT = 12"
definition PDXSHIFT :: nat where [simp]: "PDXSHIFT = 22"

definition PTE_P :: u32 where [simp]: "PTE_P = 0x001"
definition PTE_W :: u32 where [simp]: "PTE_W = 0x002"
definition PTE_U :: u32 where [simp]: "PTE_U = 0x004"

definition KERNBASE :: u32 where [simp]: "KERNBASE = 0xF0000000"
definition IOPHYSMEM :: u32 where [simp]: "IOPHYSMEM = 0x0A0000"
definition EXTPHYSMEM :: u32 where [simp]: "EXTPHYSMEM = 0x100000"
definition KSTACKTOP :: u32 where [simp]: "KSTACKTOP = KERNBASE"
definition KSTKSIZE :: u32 where [simp]: "KSTKSIZE = 8 * PGSIZE"
definition MMIOLIM :: u32 where [simp]: "MMIOLIM = KSTACKTOP - PTSIZE"
definition MMIOBASE :: u32 where [simp]: "MMIOBASE = MMIOLIM - PTSIZE"
definition ULIM :: u32 where [simp]: "ULIM = MMIOBASE"
definition UVPT :: u32 where [simp]: "UVPT = ULIM - PTSIZE"
definition UPAGES :: u32 where [simp]: "UPAGES = UVPT - PTSIZE"
definition UENVS :: u32 where [simp]: "UENVS = UPAGES - PTSIZE"
definition UTOP :: u32 where [simp]: "UTOP = UENVS"
definition USTACKTOP :: u32 where [simp]: "USTACKTOP = UTOP - 2 * PGSIZE"
definition UTEXT :: u32 where [simp]: "UTEXT = 2 * PTSIZE"
definition USTABDATA :: u32 where [simp]: "USTABDATA = PTSIZE div 2"

section \<open>Address macros\<close>

definition PGNUM :: "u32 \<Rightarrow> u32" where
  "PGNUM la = drop_bit PTXSHIFT la"

definition PDX :: "u32 \<Rightarrow> u32" where
  "PDX la = drop_bit PDXSHIFT la AND 0x3FF"

definition PTX :: "u32 \<Rightarrow> u32" where
  "PTX la = drop_bit PTXSHIFT la AND 0x3FF"

definition PGOFF :: "u32 \<Rightarrow> u32" where
  "PGOFF la = la AND 0xFFF"

definition PGADDR :: "u32 \<Rightarrow> u32 \<Rightarrow> u32 \<Rightarrow> u32" where
  "PGADDR d t off = (push_bit PDXSHIFT d OR push_bit PTXSHIFT t) OR off"

definition PTE_ADDR :: "u32 \<Rightarrow> u32" where
  "PTE_ADDR pte = pte AND NOT 0xFFF"

definition ROUNDDOWN :: "u32 \<Rightarrow> u32 \<Rightarrow> u32" where
  "ROUNDDOWN a n = a - a mod n"

definition ROUNDUP :: "u32 \<Rightarrow> u32 \<Rightarrow> u32" where
  "ROUNDUP a n = ROUNDDOWN (a + n - 1) n"

section \<open>The macros over the natural numbers\<close>

lemma and_0x3FF: "(x :: u32) AND 0x3FF = take_bit 10 x"
  by (simp add: take_bit_eq_mask mask_eq_exp_minus_1)

lemma and_0xFFF: "(x :: u32) AND 0xFFF = take_bit 12 x"
  by (simp add: take_bit_eq_mask mask_eq_exp_minus_1)

lemma and_not_eq_minus: "(x :: u32) AND NOT m = x - (x AND m)"
proof -
  have "x - (x AND m) = x AND NOT (x AND m)"
    by (rule disjunctive_diff_eq_and_not) (simp add: bit_eq_iff bit_simps)
  also have "\<dots> = x AND NOT m"
    by (rule bit_eqI) (auto simp: bit_and_iff bit_or_iff bit_not_iff)
  finally show ?thesis by simp
qed

lemma and_not_0xFFF: "(x :: u32) AND NOT 0xFFF = x - take_bit 12 x"
  by (simp only: and_not_eq_minus and_0xFFF)

lemma unat_take_bit_u32: "unat (take_bit n (x :: u32)) = unat x mod 2 ^ n"
  by (simp only: unsigned_take_bit_eq) (simp add: take_bit_eq_mod)

lemma unat_drop_bit_u32: "unat (drop_bit n (x :: u32)) = unat x div 2 ^ n"
  by (simp only: unat_drop_bit_eq) (simp only: drop_bit_eq_div)

lemma unat_push_bit_u32:
  "unat (x :: u32) * 2 ^ n < 4294967296 \<Longrightarrow> unat (push_bit n x) = unat x * 2 ^ n"
  by (simp only: unsigned_push_bit_eq) (simp add: push_bit_eq_mult take_bit_eq_mod)

lemma unat_PGNUM [mmu_simps]: "unat (PGNUM la) = unat la div 4096"
  by (simp only: PGNUM_def PTXSHIFT_def unat_drop_bit_u32) simp

lemma unat_PDX [mmu_simps]: "unat (PDX la) = unat la div 4194304"
proof -
  have "unat la div 4194304 < 1024" using unat_u32_lt [of la] by linarith
  then show ?thesis
    by (simp only: PDX_def PDXSHIFT_def and_0x3FF unat_take_bit_u32 unat_drop_bit_u32) simp
qed

lemma unat_PTX [mmu_simps]: "unat (PTX la) = unat la div 4096 mod 1024"
  by (simp only: PTX_def PTXSHIFT_def and_0x3FF unat_take_bit_u32 unat_drop_bit_u32) simp

lemma unat_PGOFF [mmu_simps]: "unat (PGOFF la) = unat la mod 4096"
  by (simp only: PGOFF_def and_0xFFF unat_take_bit_u32) simp

lemma unat_PTE_ADDR [mmu_simps]: "unat (PTE_ADDR pte) = 4096 * (unat pte div 4096)"
proof -
  have "take_bit 12 pte \<le> pte"
    by (simp add: word_le_nat_alt unat_take_bit_u32)
  then have "unat (PTE_ADDR pte) = unat pte - unat pte mod 4096"
    by (simp only: PTE_ADDR_def and_not_0xFFF unat_sub unat_take_bit_u32) simp
  then show ?thesis by (simp add: minus_mod_eq_mult_div)
qed

lemma PDX_less: "unat (PDX la) < 1024"
  using unat_u32_lt [of la] by (simp add: unat_PDX)

lemma PTX_less: "unat (PTX la) < 1024"
  by (simp add: unat_PTX)

lemma or_eq_add_u32:
  "take_bit n (a :: u32) = 0 \<Longrightarrow> unat b < 2 ^ n \<Longrightarrow> a OR b = a + b"
proof -
  assume a: "take_bit n a = 0" and b: "unat b < 2 ^ n"
  have "take_bit n b = b"
    using b by (simp add: word_unat_eq_iff unat_take_bit_u32)
  moreover have "a AND take_bit n b = take_bit n a AND b"
    by (rule bit_eqI) (auto simp: bit_and_iff bit_take_bit_iff)
  ultimately have "a AND b = 0"
    using a by simp
  then show ?thesis by (simp add: disjunctive_add_eq_or)
qed

lemma unat_PGADDR:
  assumes "unat d < 1024" "unat t < 1024" "unat off < 4096"
  shows "unat (PGADDR d t off) = unat d * 4194304 + unat t * 4096 + unat off"
proof -
  have d: "unat (push_bit 22 d) = unat d * 4194304"
    using unat_push_bit_u32 [of d 22] assms(1) by simp
  have t: "unat (push_bit 12 t) = unat t * 4096"
    using unat_push_bit_u32 [of t 12] assms(2) by simp
  have 1: "push_bit 22 d OR push_bit 12 t = push_bit 22 d + push_bit 12 t"
    using assms(2) by (intro or_eq_add_u32 [of 22]) (simp_all add: t word_unat_eq_iff unat_take_bit_u32 d)
  have u1: "unat (push_bit 22 d OR push_bit 12 t) = unat d * 4194304 + unat t * 4096"
    unfolding 1 using assms d t by (subst unat_add_no_wrap) simp_all
  have 2: "(push_bit 22 d OR push_bit 12 t) OR off = (push_bit 22 d OR push_bit 12 t) + off"
    using assms(3) by (intro or_eq_add_u32 [of 12]) (simp_all only: word_unat_eq_iff unat_take_bit_u32 u1, simp_all)
  show ?thesis
    unfolding PGADDR_def PDXSHIFT_def PTXSHIFT_def 2 using assms u1
    by (subst unat_add_no_wrap) simp_all
qed

lemma unat_ROUNDDOWN [mmu_simps]: "unat (ROUNDDOWN a n) = unat a - unat a mod unat n"
  by (simp add: ROUNDDOWN_def unat_sub word_le_nat_alt unat_mod)

lemma unat_ROUNDUP [mmu_simps]:
  assumes "0 < n" "unat a + unat n \<le> 4294967296"
  shows "unat (ROUNDUP a n) = (unat a + unat n - 1) div unat n * unat n"
proof -
  have n: "0 < unat n" using assms(1) by (simp add: unat_gt_0 word_gt_0)
  have "a + n - 1 = a + (n - 1)" by simp
  moreover have "unat (n - 1) = unat n - 1"
    using n by (metis assms(1) unat_minus_one word_neq_0_conv)
  ultimately have "unat (a + n - 1) = unat a + unat n - 1"
    using assms(2) n by (simp only:) (subst unat_add_no_wrap, simp_all)
  then show ?thesis
    by (simp add: ROUNDUP_def unat_ROUNDDOWN minus_mod_eq_div_mult)
qed

lemma split_addr: "n div 4194304 * 4194304 + n div 4096 mod 1024 * 4096 + n mod 4096 = (n :: nat)"
proof -
  have "n div 4194304 = n div 4096 div 1024"
    using div_mult2_eq [of n 4096 1024] by simp
  moreover have "n div 4096 div 1024 * 1024 + n div 4096 mod 1024 = n div 4096"
    by (rule div_mult_mod_eq)
  moreover have "n div 4096 * 4096 + n mod 4096 = n" by (rule div_mult_mod_eq)
  ultimately show ?thesis by linarith
qed

lemma join_addr:
  assumes "t < 1024" "off < 4096"
  shows "(d * 4194304 + t * 4096 + off) div 4096 = d * 1024 + (t :: nat)"
    "(d * 4194304 + t * 4096 + off) mod 4096 = off"
    "(d * 4194304 + t * 4096 + off) div 4194304 = d"
proof -
  have e: "d * 4194304 + t * 4096 + off = off + (d * 1024 + t) * 4096" by simp
  show 1: "(d * 4194304 + t * 4096 + off) div 4096 = d * 1024 + t"
    unfolding e using assms(2) by (subst div_mult_self1) simp_all
  show "(d * 4194304 + t * 4096 + off) mod 4096 = off"
    unfolding e using assms(2) by (subst mod_mult_self1) simp
  show "(d * 4194304 + t * 4096 + off) div 4194304 = d"
    using div_mult2_eq [of "d * 4194304 + t * 4096 + off" 4096 1024] 1 assms(1) by simp
qed

lemma roundup_bounds:
  "x \<le> (x + 4095) div 4096 * 4096" "(x + 4095) div 4096 * 4096 < x + (4096 :: nat)"
proof -
  have "(x + 4095) div 4096 * 4096 + (x + 4095) mod 4096 = x + 4095" by (rule div_mult_mod_eq)
  moreover have "(x + 4095) mod 4096 < 4096" by simp
  ultimately show "x \<le> (x + 4095) div 4096 * 4096" "(x + 4095) div 4096 * 4096 < x + 4096"
    by linarith+
qed

lemma two_to_32 [simp]: "(4294967296 :: u32) = 0"
  by (rule word_eq_unatI) simp

section \<open>Properties\<close>

text \<open>A linear address is rebuilt by \<open>PGADDR\<close> from its directory index, its table
  index and its offset.\<close>

theorem PGADDR_roundtrip: "PGADDR (PDX la) (PTX la) (PGOFF la) = la"
proof -
  let ?n = "unat la"
  have "unat (PGOFF la) < 4096" by (simp add: unat_PGOFF)
  then have "unat (PGADDR (PDX la) (PTX la) (PGOFF la)) = ?n"
    by (simp only: unat_PGADDR PDX_less PTX_less) (simp only: mmu_simps split_addr)
  then show ?thesis by (rule word_eq_unatI)
qed

text \<open>\<open>PDX\<close>, \<open>PTX\<close> and \<open>PGOFF\<close> recover the parts an address was built from.\<close>

theorem PGADDR_parts:
  assumes "d < NPDENTRIES" "t < NPTENTRIES" "off < PGSIZE"
  shows "PDX (PGADDR d t off) = d \<and> PTX (PGADDR d t off) = t \<and> PGOFF (PGADDR d t off) = off"
proof -
  from assms have b: "unat d < 1024" "unat t < 1024" "unat off < 4096"
    by (simp_all add: word_less_nat_alt)
  then have "unat (PDX (PGADDR d t off)) = unat d" "unat (PTX (PGADDR d t off)) = unat t"
    "unat (PGOFF (PGADDR d t off)) = unat off"
    by (simp_all add: mmu_simps unat_PGADDR join_addr)
  then show ?thesis by (simp add: word_eq_unatI)
qed

theorem PGADDR_parts_witness: "PDX (PGADDR 3 5 7) = 3 \<and> PTX (PGADDR 3 5 7) = 5 \<and> PGOFF (PGADDR 3 5 7) = 7"
  by (rule PGADDR_parts) simp_all

text \<open>\<open>ROUNDUP\<close> gives the least multiple of \<open>n\<close> that is not below \<open>a\<close>, as long as
  \<open>a + n\<close> fits in the 32 bits of an address.\<close>

theorem ROUNDUP_least:
  assumes "0 < n" "unat a + unat n \<le> 2 ^ 32"
  shows "unat n dvd unat (ROUNDUP a n) \<and> a \<le> ROUNDUP a n \<and>
    (\<forall>m. unat n dvd m \<and> unat a \<le> m \<longrightarrow> unat (ROUNDUP a n) \<le> m)"
proof -
  let ?a = "unat a" and ?n = "unat n"
  have n: "0 < ?n" using assms(1) by (simp add: unat_gt_0 word_gt_0)
  have r: "unat (ROUNDUP a n) = (?a + ?n - 1) div ?n * ?n"
    using assms by (simp add: unat_ROUNDUP)
  have "?a + ?n - 1 < ((?a + ?n - 1) div ?n + 1) * ?n"
    using n by (metis Suc_eq_plus1 dividend_less_times_div mult.commute mult_Suc add.commute)
  then have le: "?a \<le> (?a + ?n - 1) div ?n * ?n"
    using n by simp
  have least: "(?a + ?n - 1) div ?n * ?n \<le> k * ?n" if "?a \<le> k * ?n" for k
  proof -
    have "?a + ?n - 1 < (k + 1) * ?n" using that n by simp
    then have "(?a + ?n - 1) div ?n < k + 1" using n by (simp add: less_mult_imp_div_less)
    then show ?thesis by simp
  qed
  show ?thesis
    using le least by (auto simp: r word_le_nat_alt dvd_def mult.commute)
qed

theorem ROUNDUP_least_witness: "unat (4096 :: u32) dvd unat (ROUNDUP 5000 4096) \<and> 5000 \<le> ROUNDUP 5000 4096"
  using ROUNDUP_least [of 4096 5000] by simp

end
