(* ===== verification/Memory.thy ===== *)
theory Memory
  imports Mmu
begin

text \<open>
  Byte-addressed memory with 32-bit little-endian words on top of it, and the block
  operations of \<open>lib/string.c\<close> (\<open>memset\<close>, \<open>memmove\<close>, \<open>memcpy\<close>; the others are in \<open>Strings\<close>)
  as the code compiles them, with the x86 string instructions \<open>rep stosb\<close>, \<open>rep stosl\<close>,
  \<open>rep movsb\<close> and \<open>rep movsl\<close> they are written in.

  The locale \<open>word_store\<close> is the interface the page tables use: a store of 32-bit words
  with a read-over-write law for aligned addresses. It is interpreted on \<open>load32\<close> and
  \<open>store32\<close>.
\<close>

section \<open>Words in byte memory\<close>

type_synonym memory = "u32 \<Rightarrow> u8"

definition load32 :: "memory \<Rightarrow> u32 \<Rightarrow> u32" where
  "load32 m a = ucast (m a) OR push_bit 8 (ucast (m (a + 1)))
     OR push_bit 16 (ucast (m (a + 2))) OR push_bit 24 (ucast (m (a + 3)))"

definition store32 :: "memory \<Rightarrow> u32 \<Rightarrow> u32 \<Rightarrow> memory" where
  "store32 m a v = m(a := ucast v, a + 1 := ucast (drop_bit 8 v),
     a + 2 := ucast (drop_bit 16 v), a + 3 := ucast (drop_bit 24 v))"

definition aligned4 :: "u32 \<Rightarrow> bool" where
  "aligned4 a \<longleftrightarrow> unat a mod 4 = 0"

lemma load32_bytes: "load32 m a = load32 m' a'"
  if "m a = m' a'" "m (a + 1) = m' (a' + 1)" "m (a + 2) = m' (a' + 2)" "m (a + 3) = m' (a' + 3)"
  using that by (simp add: load32_def)

lemma bytes_of_u32: "(ucast (ucast v :: u8) :: u32) OR push_bit 8 (ucast (ucast (drop_bit 8 v) :: u8))
    OR push_bit 16 (ucast (ucast (drop_bit 16 v) :: u8))
    OR push_bit 24 (ucast (ucast (drop_bit 24 v) :: u8)) = v"
proof (rule bit_word_eqI)
  fix n
  assume "n < LENGTH(32)"
  then have "n < 8 \<or> 8 \<le> n \<and> n < 16 \<or> 16 \<le> n \<and> n < 24 \<or> 24 \<le> n \<and> n < 32" by auto
  then show "bit ((ucast (ucast v :: u8) :: u32) OR push_bit 8 (ucast (ucast (drop_bit 8 v) :: u8))
    OR push_bit 16 (ucast (ucast (drop_bit 16 v) :: u8))
    OR push_bit 24 (ucast (ucast (drop_bit 24 v) :: u8))) n = bit v n"
    by (auto simp: bit_or_iff bit_push_bit_iff bit_ucast_iff bit_drop_bit_eq)
qed

lemma load32_store32_same [simp]: "load32 (store32 m a v) a = v"
  using bytes_of_u32 [of v] by (simp add: load32_def store32_def)

lemma byte_of_load32:
  "ucast (load32 m a) = m a" "ucast (drop_bit 8 (load32 m a)) = m (a + 1)"
  "ucast (drop_bit 16 (load32 m a)) = m (a + 2)" "ucast (drop_bit 24 (load32 m a)) = m (a + 3)"
  by (rule bit_word_eqI; auto simp: load32_def bit_or_iff bit_push_bit_iff bit_ucast_iff bit_drop_bit_eq
      dest: bit_imp_le_length)+

lemma store32_load32: "store32 m' a (load32 m b) =
    m'(a := m b, a + 1 := m (b + 1), a + 2 := m (b + 2), a + 3 := m (b + 3))"
  by (simp add: store32_def byte_of_load32)

lemma aligned4_offset:
  assumes "aligned4 a" "unat k < 4"
  shows "unat (a + k) = unat a + unat k"
proof -
  have "unat a < 4294967296" by (rule unat_u32_lt)
  with assms have "unat a + unat k < 2 ^ 32"
    unfolding aligned4_def by (simp, presburger)
  then show ?thesis by (rule unat_add_no_wrap)
qed

lemma aligned4_apart:
  assumes "aligned4 a" "aligned4 b" "a \<noteq> b" "unat i < 4" "unat j < 4"
  shows "a + i \<noteq> b + j"
proof
  assume "a + i = b + j"
  then have "unat a + unat i = unat b + unat j"
    using assms by (metis aligned4_offset)
  then have "unat a = unat b"
    using assms unfolding aligned4_def by presburger
  then have "a = b" by (rule word_eq_unatI)
  with assms show False by simp
qed

lemma store32_other:
  assumes "aligned4 a" "aligned4 b" "a \<noteq> b" "unat k < 4"
  shows "store32 m a v (b + k) = m (b + k)"
  using assms aligned4_apart [of b a k 0] aligned4_apart [of b a k 1]
    aligned4_apart [of b a k 2] aligned4_apart [of b a k 3]
  by (simp add: store32_def)

lemma load32_store32_other:
  assumes "aligned4 a" "aligned4 b" "a \<noteq> b"
  shows "load32 (store32 m a v) b = load32 m b"
  using store32_other [OF assms, of 0] store32_other [OF assms, of 1]
    store32_other [OF assms, of 2] store32_other [OF assms, of 3]
  by (simp add: load32_def)

section \<open>The interface of a word store\<close>

locale word_store =
  fixes ld :: "'m \<Rightarrow> u32 \<Rightarrow> u32"
    and st :: "'m \<Rightarrow> u32 \<Rightarrow> u32 \<Rightarrow> 'm"
    and ok :: "u32 \<Rightarrow> bool"
  assumes ld_st_same: "ld (st m a v) a = v"
    and ld_st_other: "ok a \<Longrightarrow> ok b \<Longrightarrow> a \<noteq> b \<Longrightarrow> ld (st m a v) b = ld m b"
begin

lemma ld_st: "ok a \<Longrightarrow> ok b \<Longrightarrow> ld (st m a v) b = (if a = b then v else ld m b)"
  by (simp add: ld_st_same ld_st_other)

lemma ld_st_st_same: "ld (st (st m a v) a w) a = w"
  by (rule ld_st_same)

lemma ld_st_commute:
  "ok a \<Longrightarrow> ok b \<Longrightarrow> ok c \<Longrightarrow> a \<noteq> b \<Longrightarrow>
     ld (st (st m a v) b w) c = ld (st (st m b w) a v) c"
  by (auto simp: ld_st)

lemma ld_unchanged: "ok a \<Longrightarrow> ok b \<Longrightarrow> ld m a = v \<Longrightarrow> ld (st m a v) b = ld m b"
  by (auto simp: ld_st)

end

interpretation kw: word_store load32 store32 aligned4
  by unfold_locales (simp_all add: load32_store32_other)

section \<open>memset\<close>

text \<open>\<open>rep stosb\<close> and \<open>rep stosl\<close> with the direction flag clear.\<close>

fun stosb :: "memory \<Rightarrow> u32 \<Rightarrow> u8 \<Rightarrow> nat \<Rightarrow> memory" where
  "stosb m di al 0 = m"
| "stosb m di al (Suc n) = stosb (m(di := al)) (di + 1) al n"

fun stosl :: "memory \<Rightarrow> u32 \<Rightarrow> u32 \<Rightarrow> nat \<Rightarrow> memory" where
  "stosl m di eax 0 = m"
| "stosl m di eax (Suc n) = stosl (store32 m di eax) (di + 4) eax n"

definition memset :: "memory \<Rightarrow> u32 \<Rightarrow> u32 \<Rightarrow> u32 \<Rightarrow> memory" where
  "memset m v c n =
     (if n = 0 then m
      else if v mod 4 = 0 \<and> n mod 4 = 0 then
        (let c = c AND 0xFF;
             c = ((push_bit 24 c OR push_bit 16 c) OR push_bit 8 c) OR c
         in stosl m v c (unat (n div 4)))
      else stosb m v (ucast c) (unat n))"

section \<open>memmove and memcpy\<close>

text \<open>\<open>rep movsb\<close> and \<open>rep movsl\<close>, upwards (direction flag clear) and downwards (set).\<close>

fun movsb_up :: "memory \<Rightarrow> u32 \<Rightarrow> u32 \<Rightarrow> nat \<Rightarrow> memory" where
  "movsb_up m di si 0 = m"
| "movsb_up m di si (Suc n) = movsb_up (m(di := m si)) (di + 1) (si + 1) n"

fun movsl_up :: "memory \<Rightarrow> u32 \<Rightarrow> u32 \<Rightarrow> nat \<Rightarrow> memory" where
  "movsl_up m di si 0 = m"
| "movsl_up m di si (Suc n) = movsl_up (store32 m di (load32 m si)) (di + 4) (si + 4) n"

fun movsb_down :: "memory \<Rightarrow> u32 \<Rightarrow> u32 \<Rightarrow> nat \<Rightarrow> memory" where
  "movsb_down m di si 0 = m"
| "movsb_down m di si (Suc n) = movsb_down (m(di := m si)) (di - 1) (si - 1) n"

fun movsl_down :: "memory \<Rightarrow> u32 \<Rightarrow> u32 \<Rightarrow> nat \<Rightarrow> memory" where
  "movsl_down m di si 0 = m"
| "movsl_down m di si (Suc n) = movsl_down (store32 m di (load32 m si)) (di - 4) (si - 4) n"

definition memmove :: "memory \<Rightarrow> u32 \<Rightarrow> u32 \<Rightarrow> u32 \<Rightarrow> memory" where
  "memmove m dst src n =
     (let s = src; d = dst in
      if s < d \<and> s + n > d then
        (let s = s + n; d = d + n in
         if s mod 4 = 0 \<and> d mod 4 = 0 \<and> n mod 4 = 0
         then movsl_down m (d - 4) (s - 4) (unat (n div 4))
         else movsb_down m (d - 1) (s - 1) (unat n))
      else
        (if s mod 4 = 0 \<and> d mod 4 = 0 \<and> n mod 4 = 0
         then movsl_up m d s (unat (n div 4))
         else movsb_up m d s (unat n)))"

definition memcpy :: "memory \<Rightarrow> u32 \<Rightarrow> u32 \<Rightarrow> u32 \<Rightarrow> memory" where
  "memcpy m dst src n = memmove m dst src n"

text \<open>The specification of a copy: every byte of the destination block gets the byte the
  source block held before the copy, and no other byte changes.\<close>

definition block_copy :: "memory \<Rightarrow> u32 \<Rightarrow> u32 \<Rightarrow> nat \<Rightarrow> memory" where
  "block_copy m d s n = (\<lambda>a. if unat (a - d) < n then m (s + (a - d)) else m a)"

definition block_fill :: "memory \<Rightarrow> u32 \<Rightarrow> u8 \<Rightarrow> nat \<Rightarrow> memory" where
  "block_fill m d c n = (\<lambda>a. if unat (a - d) < n then c else m a)"

section \<open>The block operations meet their specification\<close>

lemma unat_diff_eq_0: "unat (a - d :: u32) = 0 \<longleftrightarrow> a = d"
  by (simp add: unat_0_iff)

lemma unat_diff_shift:
  assumes "unat j \<le> unat (k :: u32)"
  shows "unat (k - j) = unat k - unat j"
  using assms by (simp add: unat_sub word_le_nat_alt)

lemma unat_diff_wrap:
  assumes "unat k < unat (j :: u32)"
  shows "unat (k - j) = 4294967296 + unat k - unat j"
proof -
  have "unat j < 4294967296" by (rule unat_u32_lt)
  with assms show ?thesis by (simp add: unat_minus_mod_u32)
qed

lemma unat_of_nat_u32: "n < 4294967296 \<Longrightarrow> unat (of_nat n :: u32) = n"
  by (simp add: unat_of_nat take_bit_eq_mod)

lemma stosb_fill: "stosb m d c n = block_fill m d c n"
proof (induction n arbitrary: m d)
  case 0
  then show ?case by (simp add: block_fill_def)
next
  case (Suc n)
  have "block_fill (m(d := c)) (d + 1) c n a = block_fill m d c (Suc n) a" for a
  proof (cases "a = d")
    case True
    then show ?thesis by (simp add: block_fill_def)
  next
    case False
    then have "unat (a - d) \<noteq> 0" by (simp only: unat_diff_eq_0 not_False_eq_True)
    then have "unat (a - (d + 1)) = unat (a - d) - 1"
      using unat_diff_shift [of 1 "a - d"] by (simp add: diff_diff_eq)
    with False \<open>unat (a - d) \<noteq> 0\<close> show ?thesis
      by (simp add: block_fill_def less_Suc_eq_le) linarith
  qed
  with Suc show ?case by (simp add: fun_eq_iff)
qed

text \<open>Storing a word of four equal bytes is four byte stores, so \<open>stosl\<close> fills as \<open>stosb\<close>
  does: the word-wide path of \<open>memset\<close> is an optimisation only.\<close>

definition four_bytes :: "u32 \<Rightarrow> u32" where
  "four_bytes c = ((push_bit 24 c OR push_bit 16 c) OR push_bit 8 c) OR c"

lemma bytes_of_four_bytes:
  assumes "b = (c AND 0xFF :: u32)"
  shows "(ucast (four_bytes b) :: u8) = ucast c"
    "(ucast (drop_bit 8 (four_bytes b)) :: u8) = ucast c"
    "(ucast (drop_bit 16 (four_bytes b)) :: u8) = ucast c"
    "(ucast (drop_bit 24 (four_bytes b)) :: u8) = ucast c"
proof -
  have b: "b = take_bit 8 c"
    using assms by (simp add: take_bit_eq_mask mask_eq_exp_minus_1)
  show "(ucast (four_bytes b) :: u8) = ucast c"
    "(ucast (drop_bit 8 (four_bytes b)) :: u8) = ucast c"
    "(ucast (drop_bit 16 (four_bytes b)) :: u8) = ucast c"
    "(ucast (drop_bit 24 (four_bytes b)) :: u8) = ucast c"
    by (rule bit_word_eqI; simp add: b four_bytes_def bit_or_iff bit_push_bit_iff bit_ucast_iff
        bit_drop_bit_eq bit_take_bit_iff)+
qed

lemma stosl_stosb: "stosl m d (four_bytes (c AND 0xFF)) n = stosb m d (ucast c) (4 * n)"
proof (induction n arbitrary: m d)
  case 0
  then show ?case by simp
next
  case (Suc n)
  have "4 * Suc n = Suc (Suc (Suc (Suc (4 * n))))" by simp
  moreover have "d + 1 + 1 = d + 2" "d + 2 + 1 = d + 3" "d + 3 + 1 = d + 4" by simp_all
  ultimately show ?case
    using Suc by (simp only: stosl.simps stosb.simps store32_def bytes_of_four_bytes [OF refl])
qed

lemma unat_mod4: "unat (n mod 4 :: u32) = unat n mod 4"
  by (simp add: unat_mod)

lemma mod4_eq_0_iff: "(n :: u32) mod 4 = 0 \<longleftrightarrow> unat n mod 4 = 0"
  by (metis unat_mod4 unat_0_iff)

lemma unat_div4: "n mod 4 = 0 \<Longrightarrow> 4 * unat (n div 4 :: u32) = unat n"
  by (simp add: mod4_eq_0_iff unat_div) presburger

lemma memset_fill: "memset m v c n = block_fill m v (ucast c) (unat n)"
proof (cases "v mod 4 = 0 \<and> n mod 4 = 0")
  case True
  then have "memset m v c n = stosl m v (four_bytes (c AND 0xFF)) (unat (n div 4))"
    by (cases "n = 0") (simp_all add: memset_def Let_def four_bytes_def)
  then show ?thesis using True by (simp only: stosl_stosb stosb_fill unat_div4)
next
  case False
  then show ?thesis by (auto simp: memset_def stosb_fill block_fill_def)
qed

lemma block_copy_0 [simp]: "block_copy m d s 0 = m"
  by (simp add: block_copy_def)

lemma block_copy_1: "block_copy m d s 1 = m(d := m s)"
  by (simp add: block_copy_def fun_eq_iff unat_diff_eq_0)

lemma block_copy_4: "block_copy m d s 4 = store32 m d (load32 m s)"
proof -
  have "unat (a - d) < 4 \<longleftrightarrow> a = d \<or> a = d + 1 \<or> a = d + 2 \<or> a = d + 3" for a
  proof -
    have "unat k < 4 \<longleftrightarrow> k = 0 \<or> k = 1 \<or> k = 2 \<or> k = (3 :: u32)" for k
      by (auto simp: word_unat_eq_iff)
    from this [of "a - d"] show ?thesis by (auto simp: algebra_simps)
  qed
  then show ?thesis
    by (auto simp: block_copy_def store32_load32 fun_eq_iff)
qed

lemma block_copy_up:
  assumes "j + n \<le> 4294967296" "j < 4294967296"
    and apart: "\<And>i. j \<le> unat i \<Longrightarrow> unat i < j + n \<Longrightarrow> j \<le> unat (s + i - d)"
  shows "block_copy (block_copy m d s j) (d + of_nat j) (s + of_nat j) n = block_copy m d s (j + n)"
proof
  fix a
  define k where "k = a - d"
  have a: "a = d + k" by (simp add: k_def)
  have j: "unat (of_nat j :: u32) = j" using assms(2) by (rule unat_of_nat_u32)
  have e: "a - (d + of_nat j) = k - of_nat j" by (simp add: k_def diff_diff_eq)
  show "block_copy (block_copy m d s j) (d + of_nat j) (s + of_nat j) n a = block_copy m d s (j + n) a"
  proof (cases "unat k < j")
    case True
    then have "unat (k - of_nat j) = 4294967296 + unat k - j"
      using unat_diff_wrap [of k "of_nat j"] j by simp
    then have "\<not> unat (k - of_nat j) < n" using assms(1) by linarith
    then show ?thesis
      using True by (simp add: block_copy_def e k_def [symmetric])
  next
    case False
    then have d: "unat (k - of_nat j) = unat k - j"
      using unat_diff_shift [of "of_nat j" k] j by simp
    show ?thesis
      using False d apart [of k]
      by (auto simp: block_copy_def e k_def [symmetric])
  qed
qed

lemma block_copy_down:
  assumes "n + j \<le> 4294967296" "n < 4294967296"
    and apart: "\<And>i. unat i < n \<Longrightarrow> j \<le> unat (s + i - (d + of_nat n))"
  shows "block_copy (block_copy m (d + of_nat n) (s + of_nat n) j) d s n = block_copy m d s (n + j)"
proof
  fix a
  define k where "k = a - d"
  have n: "unat (of_nat n :: u32) = n" using assms(2) by (rule unat_of_nat_u32)
  have e: "a - (d + of_nat n) = k - of_nat n" by (simp add: k_def diff_diff_eq)
  show "block_copy (block_copy m (d + of_nat n) (s + of_nat n) j) d s n a = block_copy m d s (n + j) a"
  proof (cases "unat k < n")
    case True
    then show ?thesis
      using apart [of k] by (auto simp: block_copy_def k_def [symmetric])
  next
    case False
    then have "unat (k - of_nat n) = unat k - n"
      using unat_diff_shift [of "of_nat n" k] n by simp
    then show ?thesis
      using False by (auto simp: block_copy_def e k_def [symmetric])
  qed
qed

text \<open>The four copy loops are instances of two generic ones that copy blocks of \<open>j\<close> bytes,
  lowest block first or highest block first.\<close>

fun copies_up :: "nat \<Rightarrow> memory \<Rightarrow> u32 \<Rightarrow> u32 \<Rightarrow> nat \<Rightarrow> memory" where
  "copies_up j m d s 0 = m"
| "copies_up j m d s (Suc n) =
     copies_up j (block_copy m d s j) (d + of_nat j) (s + of_nat j) n"

fun copies_down :: "nat \<Rightarrow> memory \<Rightarrow> u32 \<Rightarrow> u32 \<Rightarrow> nat \<Rightarrow> memory" where
  "copies_down j m d s 0 = m"
| "copies_down j m d s (Suc n) =
     copies_down j (block_copy m (d - of_nat j) (s - of_nat j) j) (d - of_nat j) (s - of_nat j) n"

lemma movsb_up_copies: "movsb_up m d s n = copies_up 1 m d s n"
  by (induction n arbitrary: m d s) (simp_all add: block_copy_1 [unfolded One_nat_def])

lemma movsl_up_copies: "movsl_up m d s n = copies_up 4 m d s n"
  by (induction n arbitrary: m d s) (simp_all add: block_copy_4)

lemma movsb_down_copies: "movsb_down m (d - 1) (s - 1) n = copies_down 1 m d s n"
proof (induction n arbitrary: m d s)
  case (Suc n)
  show ?case using Suc [of _ "d - 1" "s - 1"] by (simp add: block_copy_1 [unfolded One_nat_def] fun_upd_def)
qed simp

lemma movsl_down_copies: "movsl_down m (d - 4) (s - 4) n = copies_down 4 m d s n"
proof (induction n arbitrary: m d s)
  case (Suc n)
  show ?case using Suc [of _ "d - 4" "s - 4"] by (simp add: block_copy_4)
qed simp

lemma copies_up_copy:
  assumes "unat s + j * n \<le> 4294967296" "unat d + j * n \<le> 4294967296" "0 < j"
    "unat d \<le> unat s \<or> unat s + j * n \<le> unat d"
  shows "copies_up j m d s n = block_copy m d s (j * n)"
  using assms
proof (induction n arbitrary: m d s)
  case 0
  then show ?case by simp
next
  case (Suc n)
  show ?case
  proof (cases "n = 0")
    case True
    then show ?thesis by simp
  next
    case False
    then have jn: "0 < j * n" using Suc.prems(3) by simp
    have j: "j < 4294967296" using Suc.prems(1) jn unfolding mult_Suc_right by linarith
    have ej: "unat (of_nat j :: u32) = j" using j by (rule unat_of_nat_u32)
    have d: "unat (d + of_nat j) = unat d + j" and s: "unat (s + of_nat j) = unat s + j"
      using Suc.prems(1,2) jn ej unfolding mult_Suc_right
      by (subst unat_add_no_wrap; simp; linarith)+
    have "copies_up j (block_copy m d s j) (d + of_nat j) (s + of_nat j) n =
        block_copy (block_copy m d s j) (d + of_nat j) (s + of_nat j) (j * n)"
      using Suc.prems d s by (intro Suc.IH) (auto simp: algebra_simps)
    also have "\<dots> = block_copy m d s (j + j * n)"
    proof (rule block_copy_up)
      show "j + j * n \<le> 4294967296" using Suc.prems(1) by simp
      show "j < 4294967296" by (rule j)
      fix i :: u32
      assume i: "j \<le> unat i" "unat i < j + j * n"
      have si: "unat (s + i) = unat s + unat i"
        using Suc.prems(1) i by (intro unat_add_no_wrap) simp
      show "j \<le> unat (s + i - d)"
      proof (cases "unat d \<le> unat s")
        case True
        then show ?thesis using unat_diff_shift [of d "s + i"] si i by simp
      next
        case False
        then have "unat (s + i) < unat d" using Suc.prems(4) si i by auto
        then show ?thesis using unat_diff_wrap [of "s + i" d] Suc.prems(2) by simp
      qed
    qed
    finally show ?thesis by simp
  qed
qed

lemma copies_down_copy:
  assumes "unat s + j * n \<le> 4294967296" "unat d + j * n \<le> 4294967296" "unat s < unat d" "0 < j"
  shows "copies_down j m (d + of_nat (j * n)) (s + of_nat (j * n)) n = block_copy m d s (j * n)"
  using assms
proof (induction n arbitrary: m)
  case 0
  then show ?case by simp
next
  case (Suc n)
  have e: "x + of_nat (j * Suc n) - of_nat j = x + (of_nat (j * n) :: u32)" for x
    by (simp add: algebra_simps)
  have jn: "unat (of_nat (j * n) :: u32) = j * n"
    using Suc.prems by (intro unat_of_nat_u32) simp
  have "copies_down j m (d + of_nat (j * Suc n)) (s + of_nat (j * Suc n)) (Suc n) =
      copies_down j (block_copy m (d + of_nat (j * n)) (s + of_nat (j * n)) j)
        (d + of_nat (j * n)) (s + of_nat (j * n)) n"
    by (simp only: copies_down.simps e)
  also have "\<dots> = block_copy (block_copy m (d + of_nat (j * n)) (s + of_nat (j * n)) j) d s (j * n)"
    using Suc.prems by (intro Suc.IH) simp_all
  also have "\<dots> = block_copy m d s (j * n + j)"
  proof (rule block_copy_down)
    show "j * n + j \<le> 4294967296" "j * n < 4294967296" using Suc.prems by simp_all
    fix i :: u32
    assume i: "unat i < j * n"
    have si: "unat (s + i) = unat s + unat i"
      using Suc.prems(1) i by (intro unat_add_no_wrap) simp
    have dn: "unat (d + of_nat (j * n)) = unat d + j * n"
      using Suc.prems(2,4) jn by (subst unat_add_no_wrap) simp_all
    show "j \<le> unat (s + i - (d + of_nat (j * n)))"
      using unat_diff_wrap [of "s + i" "d + of_nat (j * n)"] si dn i Suc.prems by simp
  qed
  finally show ?case by (simp add: add.commute)
qed

lemma memmove_copy:
  assumes "unat dst + unat n \<le> 2 ^ 32" "unat src + unat n \<le> 2 ^ 32"
  shows "memmove m dst src n = block_copy m dst src (unat n)"
proof (cases "src < dst \<and> src + n > dst")
  case True
  then have lt: "unat src < unat dst" by (simp add: word_less_nat_alt)
  have "movsb_down m (dst + n - 1) (src + n - 1) (unat n) = block_copy m dst src (unat n)"
    using copies_down_copy [of src 1 "unat n" dst m] assms lt by (simp add: movsb_down_copies)
  moreover have "movsl_down m (dst + n - 4) (src + n - 4) (unat (n div 4)) = block_copy m dst src (unat n)"
    if "n mod 4 = 0"
    using copies_down_copy [of src 4 "unat (n div 4)" dst m] assms lt unat_div4 [OF that]
    by (simp add: movsl_down_copies del: of_nat_mult)
  ultimately show ?thesis using True by (simp add: memmove_def Let_def)
next
  case False
  have order: "unat dst \<le> unat src \<or> unat src + unat n \<le> unat dst"
  proof (rule ccontr)
    assume *: "\<not> ?thesis"
    then have "unat src + unat n < 4294967296" using assms by simp
    then have "unat (src + n) = unat src + unat n" by (simp add: unat_add_no_wrap)
    with * False show False by (simp add: word_less_nat_alt)
  qed
  have "movsb_up m dst src (unat n) = block_copy m dst src (unat n)"
    using copies_up_copy [of src 1 "unat n" dst m] assms order by (simp add: movsb_up_copies)
  moreover have "movsl_up m dst src (unat (n div 4)) = block_copy m dst src (unat n)" if "n mod 4 = 0"
    using copies_up_copy [of src 4 "unat (n div 4)" dst m] assms order unat_div4 [OF that]
    by (simp add: movsl_up_copies)
  ultimately show ?thesis using False by (auto simp: memmove_def Let_def)
qed

text \<open>\<open>memset\<close> sets exactly the \<open>n\<close> bytes from \<open>v\<close> on to the low byte of \<open>c\<close>, whether
  it took the word-wide path (\<open>stosl\<close>) or the byte path (\<open>stosb\<close>).\<close>

theorem memset_spec:
  "memset m v c n a = (if unat (a - v) < unat n then ucast c else m a)"
  by (simp add: memset_fill block_fill_def)

text \<open>\<open>memmove\<close> copies the source block as it was before the call, for blocks that do
  not wrap around the address space, overlapping or not, aligned or not: the direction
  test picks an order in which no byte is overwritten before it is read.\<close>

theorem memmove_spec:
  assumes "unat dst + unat n \<le> 2 ^ 32" "unat src + unat n \<le> 2 ^ 32"
  shows "memmove m dst src n a = (if unat (a - dst) < unat n then m (src + (a - dst)) else m a)"
  by (simp add: memmove_copy [OF assms] block_copy_def)

theorem memmove_spec_witness: "memmove (\<lambda>a. ucast a) 0x1004 0x1000 16 0x1008 = 4"
  using memmove_spec [of "0x1004" 16 "0x1000" "\<lambda>a. ucast a"] by simp

end
