(* ===== verification/Free_List.thy ===== *)
theory Free_List
  imports Prelude
begin

text \<open>
  Intrusive free lists. Two components of the kernel keep their free objects on a singly
  linked list threaded through an array: \<open>page_free_list\<close> through \<open>pages[].pp_link\<close>
  (\<open>kern/pmap.c\<close>) and \<open>env_free_list\<close> through \<open>envs[].env_link\<close> (\<open>kern/env.c\<close>). A pointer
  into the array is its index, \<open>NULL\<close> is \<^const>\<open>None\<close>.

  \<open>chain\<close> says which indices are on the list, in order. The locale \<open>free_list\<close> is the
  contract of the two operations, taking the first object and putting one back; the
  lemmas a client needs are proved once from it. The locale is interpreted on the page
  allocator and on the environment table where these are defined.
\<close>

section \<open>Linked chains through an array\<close>

fun chain :: "(nat \<Rightarrow> nat option) \<Rightarrow> nat option \<Rightarrow> nat list \<Rightarrow> bool" where
  "chain nxt p [] \<longleftrightarrow> p = None"
| "chain nxt p (x # xs) \<longleftrightarrow> p = Some x \<and> chain nxt (nxt x) xs"

lemma chain_None [simp]: "chain nxt None xs \<longleftrightarrow> xs = []"
  by (cases xs) auto

lemma chain_Some: "chain nxt (Some x) xs \<longleftrightarrow> (\<exists>ys. xs = x # ys \<and> chain nxt (nxt x) ys)"
  by (cases xs) auto

lemma chain_unique: "chain nxt p xs \<Longrightarrow> chain nxt p ys \<Longrightarrow> xs = ys"
proof (induction xs arbitrary: p ys)
  case (Cons x xs)
  then show ?case by (auto simp: chain_Some)
qed simp

lemma chain_cong: "(\<And>x. x \<in> set xs \<Longrightarrow> nxt x = nxt' x) \<Longrightarrow> chain nxt p xs = chain nxt' p xs"
  by (induction xs arbitrary: p) auto

lemma chain_suffix: "chain nxt p (ys @ x # zs) \<Longrightarrow> chain nxt (nxt x) zs"
  by (induction ys arbitrary: p) auto

lemma chain_head_notin: "chain nxt (nxt x) xs \<Longrightarrow> x \<notin> set xs"
proof
  assume c: "chain nxt (nxt x) xs" and "x \<in> set xs"
  then obtain ys zs where xs: "xs = ys @ x # zs" by (auto simp: in_set_conv_decomp)
  with c have "chain nxt (nxt x) zs" by (blast intro: chain_suffix)
  with c have "xs = zs" by (blast intro: chain_unique)
  with xs show False by simp
qed

lemma chain_distinct: "chain nxt p xs \<Longrightarrow> distinct xs"
  by (induction xs arbitrary: p) (auto dest: chain_head_notin)

section \<open>The contract of a free list\<close>

locale free_list =
  fixes head :: "'s \<Rightarrow> nat option"
    and link :: "'s \<Rightarrow> nat \<Rightarrow> nat option"
    and cap :: "'s \<Rightarrow> nat"
    and take :: "'s \<Rightarrow> (nat \<times> 's) option"
    and put :: "'s \<Rightarrow> nat \<Rightarrow> 's option"
  assumes take_head: "take s = Some (i, s') \<Longrightarrow> head s = Some i \<and> head s' = link s i"
    and take_link: "take s = Some (i, s') \<Longrightarrow> j \<noteq> i \<Longrightarrow> link s' j = link s j"
    and take_cap: "take s = Some (i, s') \<Longrightarrow> i < cap s \<and> cap s' = cap s"
    and put_head: "put s i = Some s' \<Longrightarrow> head s' = Some i \<and> link s' i = head s"
    and put_link: "put s i = Some s' \<Longrightarrow> j \<noteq> i \<Longrightarrow> link s' j = link s j"
    and put_cap: "put s i = Some s' \<Longrightarrow> i < cap s \<and> cap s' = cap s"
begin

definition free :: "'s \<Rightarrow> nat list \<Rightarrow> bool" where
  "free s xs \<longleftrightarrow> chain (link s) (head s) xs \<and> set xs \<subseteq> {..<cap s}"

lemma free_unique: "free s xs \<Longrightarrow> free s ys \<Longrightarrow> xs = ys"
  by (auto simp: free_def intro: chain_unique)

lemma free_distinct: "free s xs \<Longrightarrow> distinct xs"
  by (auto simp: free_def intro: chain_distinct)

lemma take_free: "take s = Some (i, s') \<Longrightarrow> free s xs \<Longrightarrow> \<exists>ys. xs = i # ys \<and> free s' ys"
proof -
  assume t: "take s = Some (i, s')" and f: "free s xs"
  from f take_head [OF t] obtain ys where xs: "xs = i # ys" "chain (link s) (link s i) ys"
    by (auto simp: free_def chain_Some)
  then have "i \<notin> set ys" by (blast dest: chain_head_notin)
  then have "chain (link s') (link s i) ys = chain (link s) (link s i) ys"
    by (intro chain_cong) (metis take_link [OF t])
  with xs f take_head [OF t] take_cap [OF t] show ?thesis
    by (auto simp: free_def)
qed

lemma put_free: "put s i = Some s' \<Longrightarrow> free s xs \<Longrightarrow> i \<notin> set xs \<Longrightarrow> free s' (i # xs)"
proof -
  assume p: "put s i = Some s'" and f: "free s xs" and i: "i \<notin> set xs"
  have "chain (link s') (head s) xs = chain (link s) (head s) xs"
    using i by (intro chain_cong) (metis put_link [OF p])
  with f put_head [OF p] put_cap [OF p] show ?thesis
    by (auto simp: free_def)
qed

lemma taken_not_free: "take s = Some (i, s') \<Longrightarrow> free s xs \<Longrightarrow> free s' ys \<Longrightarrow> i \<notin> set ys"
  by (metis take_free free_unique free_distinct distinct.simps(2))

lemma take_put: "take s = Some (i, s') \<Longrightarrow> put s' i = Some s'' \<Longrightarrow> free s xs \<Longrightarrow> free s'' xs"
  by (metis take_free free_distinct distinct.simps(2) put_free)

text \<open>Putting back an object that is already first on the list ties it to itself: the list
  is then no list of objects at all.\<close>

lemma double_put: "put s i = Some s' \<Longrightarrow> put s' i = Some s'' \<Longrightarrow> \<not> free s'' xs"
proof
  assume p: "put s i = Some s'" "put s' i = Some s''" and f: "free s'' xs"
  then have h: "head s'' = Some i" "link s'' i = Some i"
    using put_head [OF p(1)] put_head [OF p(2)] by simp_all
  from f have "chain (link s'') (head s'') xs" by (simp add: free_def)
  with h(1) have "\<exists>ys. chain (link s'') (link s'' i) ys"
    by (cases xs) auto
  then obtain ys where c: "chain (link s'') (link s'' i) ys" ..
  then have "i \<notin> set ys" by (rule chain_head_notin)
  moreover have "i \<in> set ys"
  proof (cases ys)
    case Nil
    with c have "link s'' i = None" by simp
    with h(2) show ?thesis by simp
  next
    case (Cons y zs)
    with c have "link s'' i = Some y" by simp
    with h(2) Cons show ?thesis by simp
  qed
  ultimately show False by simp
qed

end

end
