(* ===== verification/Pages.thy ===== *)
theory Pages
  imports Memory Free_List
begin

text \<open>
  The physical page allocator of \<open>kern/pmap.c\<close>: memory detection, the boot-time bump
  allocator \<open>boot_alloc\<close>, and the reference-counted pages on \<open>page_free_list\<close>
  (\<open>page_init\<close>, \<open>page_alloc\<close>, \<open>page_free\<close>, \<open>page_decref\<close>), with the address conversions
  of \<open>kern/pmap.h\<close>.

  The static variables of \<open>pmap.c\<close> are the record \<open>pmap_state\<close>. Physical memory is a
  byte memory indexed by physical address. The array \<open>pages\<close> is a list and a
  \<open>struct PageInfo *\<close> is an index into it, so \<open>pp - pages\<close> is the index itself. A kernel
  virtual address \<open>kva\<close> is dereferenced at physical address \<open>kva - KERNBASE\<close>, which is the
  mapping both \<open>entry_pgdir\<close> and \<open>kern_pgdir\<close> install for the kernel half.
\<close>

section \<open>State\<close>

record PageInfo =
  pp_link :: "nat option"
  pp_ref :: u16

record pmap_state =
  mem :: memory
  npages :: u32
  npages_basemem :: u32
  kern_pgdir :: u32
  pages :: "PageInfo list"
  page_free_list :: "nat option"
  nextfree :: u32
  user_mem_check_addr :: u32
  cr3 :: u32
  invlpg_log :: "u32 list"

definition kv2p :: "u32 \<Rightarrow> u32" where
  "kv2p kva = kva - KERNBASE"

definition kload :: "'z pmap_state_scheme \<Rightarrow> u32 \<Rightarrow> u32" where
  "kload s kva = load32 (mem s) (kv2p kva)"

definition kstore :: "'z pmap_state_scheme \<Rightarrow> u32 \<Rightarrow> u32 \<Rightarrow> 'z pmap_state_scheme" where
  "kstore s kva v = s\<lparr>mem := store32 (mem s) (kv2p kva) v\<rparr>"

section \<open>Address conversions (kern/pmap.h)\<close>

definition PADDR :: "u32 \<Rightarrow> fault + u32" where
  "PADDR kva = (if kva < KERNBASE then Inl (Panic ''PADDR called with invalid kva'')
     else Inr (kva - KERNBASE))"

definition KADDR :: "'z pmap_state_scheme \<Rightarrow> u32 \<Rightarrow> fault + u32" where
  "KADDR s pa = (if npages s \<le> PGNUM pa then Inl (Panic ''KADDR called with invalid pa'')
     else Inr (pa + KERNBASE))"

definition page2pa :: "nat \<Rightarrow> u32" where
  "page2pa pp = push_bit PGSHIFT (of_nat pp)"

definition pa2page :: "'z pmap_state_scheme \<Rightarrow> u32 \<Rightarrow> fault + nat" where
  "pa2page s pa = (if npages s \<le> PGNUM pa then Inl (Panic ''pa2page called with invalid pa'')
     else Inr (unat (PGNUM pa)))"

definition page2kva :: "'z pmap_state_scheme \<Rightarrow> nat \<Rightarrow> fault + u32" where
  "page2kva s pp = KADDR s (page2pa pp)"

section \<open>Memory detection\<close>

text \<open>The CMOS clock's registers (\<open>mc146818_read\<close>, \<open>kern/kclock.c\<close>) are hardware: they are
  the parameter \<open>cmos\<close>.\<close>

definition NVRAM_BASELO :: u32 where [simp]: "NVRAM_BASELO = 0xe + 7"
definition NVRAM_EXTLO :: u32 where [simp]: "NVRAM_EXTLO = 0xe + 9"
definition NVRAM_EXT16LO :: u32 where [simp]: "NVRAM_EXT16LO = 0xe + 38"

definition nvram_read :: "(u32 \<Rightarrow> u8) \<Rightarrow> u32 \<Rightarrow> u32" where
  "nvram_read cmos r = ucast (cmos r) OR push_bit 8 (ucast (cmos (r + 1)))"

text \<open>Total and base memory, in kilobytes.\<close>

definition memory_kb :: "(u32 \<Rightarrow> u8) \<Rightarrow> u32 \<times> u32" where
  "memory_kb cmos =
     (let basemem = nvram_read cmos NVRAM_BASELO;
          extmem = nvram_read cmos NVRAM_EXTLO;
          ext16mem = nvram_read cmos NVRAM_EXT16LO * 64;
          totalmem = (if ext16mem \<noteq> 0 then 16 * 1024 + ext16mem
                      else if extmem \<noteq> 0 then 1 * 1024 + extmem
                      else basemem)
      in (totalmem, basemem))"

definition i386_detect_memory ::
  "(u32 \<Rightarrow> u8) \<Rightarrow> 'z pmap_state_scheme \<Rightarrow> 'z pmap_state_scheme" where
  "i386_detect_memory cmos s =
     (let (totalmem, basemem) = memory_kb cmos
      in s\<lparr>npages := totalmem div (PGSIZE div 1024),
           npages_basemem := basemem div (PGSIZE div 1024)\<rparr>)"

section \<open>The boot-time allocator\<close>

text \<open>\<open>kend\<close> is the address of the linker symbol \<open>end\<close>; a \<open>NULL\<close> \<open>nextfree\<close> is 0.\<close>

definition boot_alloc ::
  "u32 \<Rightarrow> 'z pmap_state_scheme \<Rightarrow> u32 \<Rightarrow> fault + u32 \<times> 'z pmap_state_scheme" where
  "boot_alloc kend s n =
     (let s = (if nextfree s = 0 then s\<lparr>nextfree := ROUNDUP kend PGSIZE\<rparr> else s)
      in if n = 0 then Inr (nextfree s, s)
         else let result = nextfree s;
                  s = s\<lparr>nextfree := ROUNDUP (nextfree s + n) PGSIZE\<rparr>
              in if nextfree s > KERNBASE + npages s * PGSIZE
                 then Inl (Panic ''Out of memory.'')
                 else Inr (result, s))"

section \<open>The free list\<close>

definition set_page :: "nat \<Rightarrow> PageInfo \<Rightarrow> 'z pmap_state_scheme \<Rightarrow> fault + 'z pmap_state_scheme" where
  "set_page i p s = (if i < length (pages s) then Inr (s\<lparr>pages := (pages s)[i := p]\<rparr>)
     else Inl Wild_Access)"

text \<open>The body of the loop of \<open>page_init\<close> for index \<open>i\<close>: the I/O hole and the memory the
  kernel already uses are marked in use, every other page goes on the free list.\<close>

definition page_init_step ::
  "u32 \<Rightarrow> nat \<Rightarrow> 'z pmap_state_scheme \<Rightarrow> fault + 'z pmap_state_scheme" where
  "page_init_step kend i s =
     (if of_nat i \<ge> IOPHYSMEM div PGSIZE \<and> of_nat i < EXTPHYSMEM div PGSIZE then
        set_page i \<lparr>pp_link = None, pp_ref = 1\<rparr> s
      else bindr
        (if of_nat i \<ge> EXTPHYSMEM div PGSIZE then
           bindr (boot_alloc kend s 0)
             (\<lambda>(r, s). Inr (of_nat i < (r - KERNBASE) div PGSIZE, s))
         else Inr (False, s))
        (\<lambda>(used, s).
           if used then set_page i \<lparr>pp_link = None, pp_ref = 1\<rparr> s
           else bindr (set_page i \<lparr>pp_link = page_free_list s, pp_ref = 0\<rparr> s)
                  (\<lambda>s. Inr (s\<lparr>page_free_list := Some i\<rparr>))))"

definition page_init :: "u32 \<Rightarrow> 'z pmap_state_scheme \<Rightarrow> fault + 'z pmap_state_scheme" where
  "page_init kend s =
     bindr (set_page 0 \<lparr>pp_link = None, pp_ref = 1\<rparr> s)
       (\<lambda>s. for_each (page_init_step kend) [1..<unat (npages s)] s)"

definition ALLOC_ZERO :: u32 where [simp]: "ALLOC_ZERO = 1"

definition page_alloc ::
  "'z pmap_state_scheme \<Rightarrow> u32 \<Rightarrow> fault + nat option \<times> 'z pmap_state_scheme" where
  "page_alloc s alloc_flags =
     (case page_free_list s of
        None \<Rightarrow> Inr (None, s)
      | Some page \<Rightarrow>
          if \<not> page < length (pages s) then Inl Wild_Access
          else let s = s\<lparr>page_free_list := pp_link (pages s ! page)\<rparr>;
                   s = s\<lparr>pages := (pages s)[page := (pages s ! page)\<lparr>pp_link := None\<rparr>]\<rparr>
               in if alloc_flags AND ALLOC_ZERO \<noteq> 0
                  then bindr (page2kva s page)
                    (\<lambda>kva. Inr (Some page, s\<lparr>mem := memset (mem s) (kv2p kva) 0 PGSIZE\<rparr>))
                  else Inr (Some page, s))"

definition page_free ::
  "'z pmap_state_scheme \<Rightarrow> nat \<Rightarrow> fault + 'z pmap_state_scheme" where
  "page_free s pp =
     (if \<not> pp < length (pages s) then Inl Wild_Access
      else let s = s\<lparr>pages := (pages s)[pp := (pages s ! pp)\<lparr>pp_link := page_free_list s\<rparr>]\<rparr>
           in Inr (s\<lparr>page_free_list := Some pp\<rparr>))"

definition page_decref ::
  "'z pmap_state_scheme \<Rightarrow> nat \<Rightarrow> fault + 'z pmap_state_scheme" where
  "page_decref s pp =
     (if \<not> pp < length (pages s) then Inl Wild_Access
      else let ref = pp_ref (pages s ! pp) - 1;
               s = s\<lparr>pages := (pages s)[pp := (pages s ! pp)\<lparr>pp_ref := ref\<rparr>]\<rparr>
           in if ref = 0 then page_free s pp else Inr s)"

text \<open>\<open>pp->pp_ref++\<close>, as \<open>pgdir_walk\<close>, \<open>page_insert\<close> and \<open>env_setup_vm\<close> do it.\<close>

definition page_incref ::
  "'z pmap_state_scheme \<Rightarrow> nat \<Rightarrow> fault + 'z pmap_state_scheme" where
  "page_incref s pp =
     (if \<not> pp < length (pages s) then Inl Wild_Access
      else Inr (s\<lparr>pages := (pages s)[pp := (pages s ! pp)\<lparr>pp_ref := pp_ref (pages s ! pp) + 1\<rparr>]\<rparr>))"

section \<open>The free list of pages is a free list\<close>

definition page_link :: "'z pmap_state_scheme \<Rightarrow> nat \<Rightarrow> nat option" where
  "page_link s i = pp_link (pages s ! i)"

definition page_cap :: "'z pmap_state_scheme \<Rightarrow> nat" where
  "page_cap s = length (pages s)"

definition page_take ::
  "u32 \<Rightarrow> 'z pmap_state_scheme \<Rightarrow> (nat \<times> 'z pmap_state_scheme) option" where
  "page_take flags s = (case page_alloc s flags of Inr (Some i, s') \<Rightarrow> Some (i, s') | _ \<Rightarrow> None)"

definition page_put :: "'z pmap_state_scheme \<Rightarrow> nat \<Rightarrow> 'z pmap_state_scheme option" where
  "page_put s i = (case page_free s i of Inr s' \<Rightarrow> Some s' | _ \<Rightarrow> None)"

text \<open>\<open>free_pages s xs\<close>: the free list of \<open>s\<close> holds the pages \<open>xs\<close>, in this order.\<close>

definition free_pages :: "'z pmap_state_scheme \<Rightarrow> nat list \<Rightarrow> bool" where
  "free_pages s xs \<longleftrightarrow> chain (page_link s) (page_free_list s) xs \<and> set xs \<subseteq> {..<page_cap s}"

lemma page_take_eq:
  "page_take flags s = Some (i, s') \<longleftrightarrow> page_alloc s flags = Inr (Some i, s')"
  by (auto simp: page_take_def split: sum.splits prod.splits option.splits)

lemma page_put_eq: "page_put s i = Some s' \<longleftrightarrow> page_free s i = Inr s'"
  by (auto simp: page_put_def split: sum.splits)

text \<open>What a successful \<open>page_alloc\<close> does to the state, whatever the flags.\<close>

lemma page_alloc_SomeE:
  assumes "page_alloc s flags = Inr (Some i, s')"
  obtains m where "page_free_list s = Some i" "i < length (pages s)"
    "s' = s\<lparr>page_free_list := pp_link (pages s ! i),
             pages := (pages s)[i := (pages s ! i)\<lparr>pp_link := None\<rparr>], mem := m\<rparr>"
proof -
  from assms obtain m where "page_free_list s = Some i" "i < length (pages s)"
    "s' = s\<lparr>page_free_list := pp_link (pages s ! i),
             pages := (pages s)[i := (pages s ! i)\<lparr>pp_link := None\<rparr>]\<rparr>
     \<or> s' = s\<lparr>page_free_list := pp_link (pages s ! i),
             pages := (pages s)[i := (pages s ! i)\<lparr>pp_link := None\<rparr>], mem := m\<rparr>"
    by (auto simp: page_alloc_def Let_def bindr_eq_Inr split: option.splits if_splits)
  moreover have "s\<lparr>page_free_list := a, pages := b\<rparr> = s\<lparr>page_free_list := a, pages := b, mem := mem s\<rparr>" for a b
    by simp
  ultimately show thesis using that by metis
qed

interpretation pg: free_list page_free_list page_link page_cap "page_take flags" page_put for flags
proof unfold_locales
  fix s s' :: "'a pmap_state_scheme" and i j
  show "page_free_list s = Some i \<and> page_free_list s' = page_link s i" if "page_take flags s = Some (i, s')"
    using that by (auto simp: page_take_eq page_link_def elim!: page_alloc_SomeE)
  show "page_link s' j = page_link s j" if "page_take flags s = Some (i, s')" "j \<noteq> i"
    using that by (auto simp: page_take_eq page_link_def elim!: page_alloc_SomeE)
  show "i < page_cap s \<and> page_cap s' = page_cap s" if "page_take flags s = Some (i, s')"
    using that by (auto simp: page_take_eq page_cap_def elim!: page_alloc_SomeE)
  show "page_free_list s' = Some i \<and> page_link s' i = page_free_list s" if "page_put s i = Some s'"
    using that by (auto simp: page_put_eq page_free_def page_link_def Let_def split: if_splits)
  show "page_link s' j = page_link s j" if "page_put s i = Some s'" "j \<noteq> i"
    using that by (auto simp: page_put_eq page_free_def page_link_def Let_def split: if_splits)
  show "i < page_cap s \<and> page_cap s' = page_cap s" if "page_put s i = Some s'"
    using that by (auto simp: page_put_eq page_free_def page_cap_def Let_def split: if_splits)
qed

lemma free_pages_eq: "free_pages s xs \<longleftrightarrow> pg.free s xs"
  by (simp add: free_pages_def pg.free_def)

section \<open>Page numbers and physical addresses\<close>

text \<open>The machine has at most 2^20 pages of physical memory, and \<open>pages\<close> has one entry per
  page: what \<open>mem_init\<close> establishes and no operation changes.\<close>

definition pages_wf :: "'z pmap_state_scheme \<Rightarrow> bool" where
  "pages_wf s \<longleftrightarrow> length (pages s) = unat (npages s) \<and> unat (npages s) \<le> 0x100000"

lemma unat_page2pa: "pp < 0x100000 \<Longrightarrow> unat (page2pa pp) = 4096 * pp"
  using unat_push_bit_u32 [of "of_nat pp" 12]
  by (simp add: page2pa_def unat_of_nat_u32 mult.commute del: push_bit_of_nat)

lemma PGNUM_page2pa: "pp < 0x100000 \<Longrightarrow> unat (PGNUM (page2pa pp)) = pp"
  by (simp add: unat_PGNUM unat_page2pa)

lemma pages_wf_bound: "pages_wf s \<Longrightarrow> pp < length (pages s) \<Longrightarrow> pp < 0x100000 \<and> pp < unat (npages s)"
  by (auto simp: pages_wf_def)

lemma KADDR_page2pa:
  assumes "pages_wf s" "pp < length (pages s)"
  shows "KADDR s (page2pa pp) = Inr (page2pa pp + KERNBASE)"
  using pages_wf_bound [OF assms] by (simp add: KADDR_def word_le_nat_alt PGNUM_page2pa)

lemma pa2page_page2pa:
  assumes "pages_wf s" "pp < length (pages s)"
  shows "pa2page s (page2pa pp) = Inr pp"
  using pages_wf_bound [OF assms] by (simp add: pa2page_def word_le_nat_alt PGNUM_page2pa)

lemma page2pa_inject: "pp < 0x100000 \<Longrightarrow> qq < 0x100000 \<Longrightarrow> page2pa pp = page2pa qq \<longleftrightarrow> pp = qq"
  by (metis PGNUM_page2pa)

lemma kv2p_KADDR [simp]: "kv2p (pa + KERNBASE) = pa"
  by (simp add: kv2p_def)

section \<open>What the allocator guarantees\<close>

lemma page_alloc_empty: "page_free_list s = None \<Longrightarrow> page_alloc s flags = Inr (None, s)"
  by (simp add: page_alloc_def)

lemma page_alloc_nonempty:
  assumes "pages_wf s" "free_pages s (x # xs)"
  shows "page_alloc s flags = Inr (Some x,
    s\<lparr>page_free_list := pp_link (pages s ! x),
      pages := (pages s)[x := (pages s ! x)\<lparr>pp_link := None\<rparr>],
      mem := (if flags AND ALLOC_ZERO \<noteq> 0 then memset (mem s) (page2pa x) 0 PGSIZE else mem s)\<rparr>)"
proof -
  from assms(2) have x: "page_free_list s = Some x" "x < length (pages s)"
    by (auto simp: free_pages_def page_cap_def)
  let ?s = "s\<lparr>page_free_list := pp_link (pages s ! x), pages := (pages s)[x := (pages s ! x)\<lparr>pp_link := None\<rparr>]\<rparr>"
  have "pages_wf ?s" using assms(1) by (simp add: pages_wf_def)
  then have "KADDR ?s (page2pa x) = Inr (page2pa x + KERNBASE)"
    using x(2) by (intro KADDR_page2pa) simp_all
  then show ?thesis using x
    by (simp add: page_alloc_def Let_def page2kva_def kv2p_def)
qed

text \<open>\<open>page_alloc\<close> takes the first page of the free list: it returns the page, the list
  loses exactly that page, the page's link is cleared and no reference count changes. With
  \<open>ALLOC_ZERO\<close> the page's 4096 bytes are zero afterwards, and no byte outside the page
  changes in any case.\<close>

theorem page_alloc_spec:
  assumes "pages_wf s" "free_pages s (x # xs)"
  shows "\<exists>s'. page_alloc s flags = Inr (Some x, s') \<and> pages_wf s' \<and> free_pages s' xs \<and>
    pp_link (pages s' ! x) = None \<and> (\<forall>i. pp_ref (pages s' ! i) = pp_ref (pages s ! i)) \<and>
    (flags AND ALLOC_ZERO \<noteq> 0 \<longrightarrow> (\<forall>a. unat (a - page2pa x) < 4096 \<longrightarrow> mem s' a = 0)) \<and>
    (\<forall>a. 4096 \<le> unat (a - page2pa x) \<longrightarrow> mem s' a = mem s a)"
proof -
  obtain s' where s': "page_alloc s flags = Inr (Some x, s')" and
    e: "s' = s\<lparr>page_free_list := pp_link (pages s ! x),
      pages := (pages s)[x := (pages s ! x)\<lparr>pp_link := None\<rparr>],
      mem := (if flags AND ALLOC_ZERO \<noteq> 0 then memset (mem s) (page2pa x) 0 PGSIZE else mem s)\<rparr>"
    using page_alloc_nonempty [OF assms] by blast
  have x: "x < length (pages s)" using assms(2) by (auto simp: free_pages_def page_cap_def)
  have "page_take flags s = Some (x, s')" using s' by (simp add: page_take_eq)
  then have "free_pages s' xs" using assms(2) by (auto simp: free_pages_eq dest: pg.take_free)
  moreover have "pages_wf s'" using assms(1) by (simp add: e pages_wf_def)
  moreover have "pp_ref (pages s' ! i) = pp_ref (pages s ! i)" for i
    using x by (cases "i = x") (simp_all add: e)
  ultimately show ?thesis using s' x by (simp add: e memset_fill block_fill_def)
qed

definition small_pages :: pmap_state where
  "small_pages = \<lparr>mem = (\<lambda>_. 7), npages = 4, npages_basemem = 4, kern_pgdir = 0,
     pages = [\<lparr>pp_link = None, pp_ref = 1\<rparr>, \<lparr>pp_link = None, pp_ref = 0\<rparr>,
              \<lparr>pp_link = Some 1, pp_ref = 0\<rparr>, \<lparr>pp_link = None, pp_ref = 1\<rparr>],
     page_free_list = Some 2, nextfree = 0xF0003000, user_mem_check_addr = 0, cr3 = 0,
     invlpg_log = []\<rparr>"

lemma small_pages_ok: "pages_wf small_pages" "free_pages small_pages [2, 1]"
  by (simp_all add: small_pages_def pages_wf_def free_pages_def page_link_def page_cap_def)

theorem page_alloc_spec_witness:
  "\<exists>s'. page_alloc small_pages ALLOC_ZERO = Inr (Some 2, s') \<and> free_pages s' [1] \<and> mem s' 0x2005 = 0"
  using page_alloc_spec [OF small_pages_ok, of ALLOC_ZERO]
  by (auto simp: page2pa_def)

text \<open>\<open>page_free\<close> undoes \<open>page_alloc\<close>: allocating a page and freeing it gives back the
  free list as it was, in the same order, so the next \<open>page_alloc\<close> returns the same page.\<close>

theorem page_alloc_free:
  assumes "page_alloc s flags = Inr (Some x, s')" "page_free s' x = Inr s''" "free_pages s xs"
  shows "free_pages s'' xs"
  using assms pg.take_put [of flags s x s' s'' xs]
  by (simp add: page_take_eq page_put_eq free_pages_eq)

theorem page_alloc_free_witness:
  "\<exists>s' s''. page_alloc small_pages 0 = Inr (Some 2, s') \<and> page_free s' 2 = Inr s'' \<and> free_pages s'' [2, 1]"
proof -
  obtain s' where s': "page_alloc small_pages 0 = Inr (Some 2, s')" "pages_wf s'"
    using page_alloc_nonempty [OF small_pages_ok, of 0] small_pages_ok(1) by (auto simp: pages_wf_def)
  then have "2 < length (pages s')"
    by (auto simp: small_pages_def elim!: page_alloc_SomeE)
  then obtain s'' where s'': "page_free s' 2 = Inr s''" by (auto simp: page_free_def Let_def)
  with s' page_alloc_free [OF s'(1) s'' small_pages_ok(2)] show ?thesis by blast
qed

text \<open>\<open>page_free\<close> does not detect a double free: freeing the same page twice in a row
  succeeds and leaves a free list that is a cycle, on which no list of pages lies.\<close>

theorem page_double_free:
  assumes "page_free s x = Inr s'"
  shows "\<exists>s''. page_free s' x = Inr s'' \<and> pp_link (pages s'' ! x) = Some x \<and> (\<forall>xs. \<not> free_pages s'' xs)"
proof -
  from assms have x: "x < length (pages s)" and h: "page_free_list s' = Some x"
    and l: "length (pages s') = length (pages s)"
    by (auto simp: page_free_def Let_def split: if_splits)
  then obtain s'' where s'': "page_free s' x = Inr s''" "pp_link (pages s'' ! x) = page_free_list s'"
    by (auto simp: page_free_def Let_def)
  with assms have "\<not> free_pages s'' xs" for xs
    using pg.double_put [of s x s' s'' xs] by (simp add: page_put_eq free_pages_eq)
  with s'' h show ?thesis by auto
qed

theorem page_double_free_witness:
  "\<exists>s' s''. page_free small_pages 3 = Inr s' \<and> page_free s' 3 = Inr s'' \<and> (\<forall>xs. \<not> free_pages s'' xs)"
proof -
  obtain s' where "page_free small_pages 3 = Inr s'"
    by (auto simp: page_free_def Let_def small_pages_def)
  with page_double_free show ?thesis by blast
qed

text \<open>\<open>page_decref\<close> frees the page exactly when the count it decrements is 1; otherwise
  the free list stays as it is, and a count of 0 wraps to 65535 instead of freeing.\<close>

theorem page_decref_spec:
  assumes "free_pages s xs" "pp < length (pages s)" "pp \<notin> set xs"
  shows "\<exists>s'. page_decref s pp = Inr s' \<and> mem s' = mem s \<and>
    free_pages s' (if pp_ref (pages s ! pp) = 1 then pp # xs else xs) \<and>
    (\<forall>i. pp_ref (pages s' ! i) = (if i = pp then pp_ref (pages s ! pp) - 1 else pp_ref (pages s ! i)))"
proof -
  let ?s = "s\<lparr>pages := (pages s)[pp := (pages s ! pp)\<lparr>pp_ref := pp_ref (pages s ! pp) - 1\<rparr>]\<rparr>"
  have f: "free_pages ?s xs"
  proof -
    have "page_link ?s = page_link s"
      using assms(2) by (auto simp: page_link_def fun_eq_iff nth_list_update)
    then show ?thesis using assms(1) by (simp add: free_pages_def page_cap_def)
  qed
  show ?thesis
  proof (cases "pp_ref (pages s ! pp) = 1")
    case True
    obtain s' where s': "page_free ?s pp = Inr s'" using assms(2) by (simp add: page_free_def Let_def)
    then have "free_pages s' (pp # xs)"
      using f assms(3) pg.put_free [of ?s pp s' xs] by (simp add: page_put_eq free_pages_eq)
    moreover have "pp_ref (pages s' ! i) = (if i = pp then 0 else pp_ref (pages s ! i))" for i
      using s' assms(2) True by (auto simp: page_free_def Let_def)
    moreover have "mem s' = mem s"
      using s' assms(2) by (auto simp: page_free_def Let_def)
    ultimately show ?thesis using s' True assms(2) by (simp add: page_decref_def Let_def)
  next
    case False
    then have "page_decref s pp = Inr ?s" using assms(2) by (simp add: page_decref_def Let_def)
    with f False assms(2) show ?thesis by (simp add: nth_list_update)
  qed
qed

theorem page_decref_spec_witness:
  "\<exists>s'. page_decref small_pages 3 = Inr s' \<and> free_pages s' [3, 2, 1]"
  using page_decref_spec [OF small_pages_ok(2), of 3] by (auto simp: small_pages_def)

section \<open>The initial free list\<close>

text \<open>The pages \<open>page_init\<close> puts on the free list, for a kernel whose boot-time allocations
  end at \<open>nf\<close>: page 0, the I/O hole and the pages from the end of the hole to \<open>nf\<close> are
  not on it.\<close>

definition page_usable :: "u32 \<Rightarrow> nat \<Rightarrow> bool" where
  "page_usable nf i \<longleftrightarrow> 0 < i \<and> \<not> (160 \<le> i \<and> i < 256)
     \<and> \<not> (256 \<le> i \<and> i < unat ((nf - KERNBASE) div PGSIZE))"

definition page_init_inv :: "'z pmap_state_scheme \<Rightarrow> nat list \<Rightarrow> 'z pmap_state_scheme \<Rightarrow> bool" where
  "page_init_inv s0 done s \<longleftrightarrow>
     nextfree s = nextfree s0 \<and> npages s = npages s0 \<and> length (pages s) = length (pages s0) \<and>
     free_pages s (rev (filter (page_usable (nextfree s0)) done)) \<and>
     (\<forall>i \<in> set done. pp_ref (pages s ! i) = (if page_usable (nextfree s0) i then 0 else 1))"

lemma of_nat_le_u32: "i < 0x100000 \<Longrightarrow> (k :: u32) \<le> of_nat i \<longleftrightarrow> unat k \<le> i"
  "i < 0x100000 \<Longrightarrow> of_nat i < (k :: u32) \<longleftrightarrow> i < unat k"
  by (simp_all add: word_le_nat_alt word_less_nat_alt unat_of_nat_u32)

lemma page_init_step_eq:
  assumes "i < 0x100000" "0 < i" "nextfree s \<noteq> 0"
  shows "page_init_step kend i s =
    (if page_usable (nextfree s) i
     then bindr (set_page i \<lparr>pp_link = page_free_list s, pp_ref = 0\<rparr> s)
            (\<lambda>s. Inr (s\<lparr>page_free_list := Some i\<rparr>))
     else set_page i \<lparr>pp_link = None, pp_ref = 1\<rparr> s)"
  using assms
  by (auto simp: page_init_step_def page_usable_def boot_alloc_def of_nat_le_u32)

lemma page_init_step_inv:
  assumes inv: "page_init_inv s0 done s" and wf: "pages_wf s0" and nf: "nextfree s0 \<noteq> 0"
    and i: "0 < i" "i < length (pages s0)" "i \<notin> set done"
  shows "\<exists>s'. page_init_step kend i s = Inr s' \<and> page_init_inv s0 (done @ [i]) s'"
proof -
  have il: "i < length (pages s)" and nfs: "nextfree s = nextfree s0"
    and free: "free_pages s (rev (filter (page_usable (nextfree s0)) done))"
    using inv i by (simp_all add: page_init_inv_def)
  have ib: "i < 0x100000" using pages_wf_bound [OF wf i(2)] by simp
  have ni: "i \<notin> set (rev (filter (page_usable (nextfree s0)) done))" using i(3) by simp
  have same: "chain (page_link (s\<lparr>pages := (pages s)[i := q]\<rparr>)) p xs = chain (page_link s) p xs"
    if "i \<notin> set xs" for q p xs
    using that by (intro chain_cong) (simp add: page_link_def, metis nth_list_update_neq)
  show ?thesis
  proof (cases "page_usable (nextfree s0) i")
    case True
    let ?t = "s\<lparr>pages := (pages s)[i := \<lparr>pp_link = page_free_list s, pp_ref = 0\<rparr>]\<rparr>"
    have "page_init_step kend i s = Inr (?t\<lparr>page_free_list := Some i\<rparr>)"
      using True il nfs nf ib i(1) by (simp add: page_init_step_eq set_page_def)
    moreover have "page_link (?t\<lparr>page_free_list := Some i\<rparr>) = page_link ?t"
      by (simp add: page_link_def fun_eq_iff)
    then have "free_pages (?t\<lparr>page_free_list := Some i\<rparr>) (i # rev (filter (page_usable (nextfree s0)) done))"
      using free il same [OF ni, of "\<lparr>pp_link = page_free_list s, pp_ref = 0\<rparr>" "page_free_list s"]
      by (simp add: free_pages_def page_cap_def) (simp add: page_link_def)
    ultimately show ?thesis
      using inv il True i(3) by (auto simp: page_init_inv_def nth_list_update)
  next
    case False
    let ?t = "s\<lparr>pages := (pages s)[i := \<lparr>pp_link = None, pp_ref = 1\<rparr>]\<rparr>"
    have "page_init_step kend i s = Inr ?t"
      using False il nfs nf ib i(1) by (simp add: page_init_step_eq set_page_def)
    moreover have "free_pages ?t (rev (filter (page_usable (nextfree s0)) done))"
      using free same [OF ni] by (simp add: free_pages_def page_cap_def)
    ultimately show ?thesis
      using inv il False i(3) by (auto simp: page_init_inv_def nth_list_update)
  qed
qed

lemma page_init_inv_result:
  assumes wf: "pages_wf s" and "0 < unat (npages s)" "page_free_list s = None" "nextfree s \<noteq> 0"
  shows "\<exists>s'. page_init kend s = Inr s' \<and> page_init_inv s [0..<unat (npages s)] s'"
proof -
  let ?s = "s\<lparr>pages := (pages s)[0 := \<lparr>pp_link = None, pp_ref = 1\<rparr>]\<rparr>"
  have len: "length (pages s) = unat (npages s)" using wf by (simp add: pages_wf_def)
  have "page_init_inv s [0] ?s"
    using assms len by (simp add: page_init_inv_def page_usable_def free_pages_def)
  then have "\<exists>s'. for_each (page_init_step kend) [1..<unat (npages s)] ?s = Inr s' \<and>
      page_init_inv s ([0] @ [1..<unat (npages s)]) s'"
  proof (rule for_each_invariant)
    fix ys z zs t
    assume split: "[0] @ [1..<unat (npages s)] = ys @ z # zs" and ys: "length [0::nat] \<le> length ys"
      and inv: "page_init_inv s ys t"
    have up: "[0] @ [1..<unat (npages s)] = [0..<unat (npages s)]"
      using assms(2) by (simp add: upt_conv_Cons)
    have "z = ([0..<unat (npages s)]) ! length ys" "length ys < unat (npages s)"
      using split up by (metis nth_append_length, metis add_Suc_right length_append length_Cons
          length_upt less_add_Suc1 diff_zero)
    then have z: "0 < z" "z < length (pages s)" using ys len by (cases ys; simp)+
    have "distinct (ys @ z # zs)" using split up by (metis distinct_upt)
    then have "z \<notin> set ys" by simp
    with inv wf z assms(4) show "\<exists>s'. page_init_step kend z t = Inr s' \<and> page_init_inv s (ys @ [z]) s'"
      by (intro page_init_step_inv)
  qed
  moreover have "[0] @ [1..<unat (npages s)] = [0..<unat (npages s)]"
    using assms(2) by (simp add: upt_conv_Cons)
  moreover have "set_page 0 \<lparr>pp_link = None, pp_ref = 1\<rparr> s = Inr ?s"
    using assms(2) len by (simp add: set_page_def)
  ultimately show ?thesis by (simp add: page_init_def)
qed

text \<open>\<open>page_init\<close> builds the free list of exactly the usable pages, highest page first,
  and sets the reference count of these pages to 0 and of every other page to 1.\<close>

theorem page_init_free_list:
  assumes "pages_wf s" "0 < unat (npages s)" "page_free_list s = None" "nextfree s \<noteq> 0"
  shows "\<exists>s'. page_init kend s = Inr s' \<and> pages_wf s' \<and>
    free_pages s' (rev (filter (page_usable (nextfree s)) [0..<unat (npages s)])) \<and>
    (\<forall>i < unat (npages s). pp_ref (pages s' ! i) = (if page_usable (nextfree s) i then 0 else 1))"
proof -
  obtain s' where "page_init kend s = Inr s'" "page_init_inv s [0..<unat (npages s)] s'"
    using page_init_inv_result [OF assms] by blast
  with assms(1) show ?thesis
    by (auto simp: page_init_inv_def pages_wf_def)
qed

definition boot_pages :: pmap_state where
  "boot_pages = small_pages\<lparr>npages := 6, page_free_list := None,
     pages := replicate 6 \<lparr>pp_link = None, pp_ref = 0\<rparr>\<rparr>"

theorem page_init_free_list_witness:
  "\<exists>s'. page_init 0xF0002004 boot_pages = Inr s' \<and> free_pages s' [5, 4, 3, 2, 1]"
proof -
  have "rev (filter (page_usable (nextfree boot_pages)) [0..<unat (npages boot_pages)]) = [5, 4, 3, 2, 1]"
    by (simp add: boot_pages_def small_pages_def page_usable_def upt_rec)
  moreover have "pages_wf boot_pages" "0 < unat (npages boot_pages)" "page_free_list boot_pages = None"
    "nextfree boot_pages \<noteq> 0"
    by (simp_all add: boot_pages_def small_pages_def pages_wf_def)
  ultimately show ?thesis using page_init_free_list [of boot_pages "0xF0002004"] by auto
qed

text \<open>\<open>page_init\<close> does not look at \<open>npages_basemem\<close>: a page between the end of the
  detected base memory and the I/O hole ends up on the free list, so \<open>page_alloc\<close> can hand
  out a page that has no memory behind it. The comment of \<open>page_init\<close> promises that only
  \<open>[PGSIZE, npages_basemem * PGSIZE)\<close> is free below the hole.\<close>

theorem page_init_ignores_basemem:
  assumes "pages_wf s" "page_free_list s = None" "nextfree s \<noteq> 0"
    and "0 < i" "i < 160" "i < unat (npages s)" "unat (npages_basemem s) \<le> i"
  shows "\<exists>s' xs. page_init kend s = Inr s' \<and> free_pages s' xs \<and> i \<in> set xs"
proof -
  have "page_usable (nextfree s) i" using assms by (simp add: page_usable_def)
  then have "i \<in> set (rev (filter (page_usable (nextfree s)) [0..<unat (npages s)]))"
    using assms by simp
  moreover obtain s' where "page_init kend s = Inr s'" "page_init_inv s [0..<unat (npages s)] s'"
    using page_init_inv_result [OF assms(1) _ assms(2,3)] assms(6) by fastforce
  ultimately show ?thesis unfolding page_init_inv_def by blast
qed

theorem page_init_ignores_basemem_witness:
  "\<exists>s' xs. page_init 0xF0002004 boot_pages = Inr s' \<and> free_pages s' xs \<and> 5 \<in> set xs \<and>
     unat (npages_basemem boot_pages) \<le> 5"
  using page_init_ignores_basemem [of boot_pages 5 "0xF0002004"]
  by (simp add: boot_pages_def small_pages_def pages_wf_def)

text \<open>Consecutive blocks of \<open>boot_alloc\<close> are page-aligned and do not overlap: once
  \<open>nextfree\<close> is set, a call returns the old \<open>nextfree\<close>, the new one is page-aligned and not
  below the end of the block, and it is within the installed memory.\<close>

theorem boot_alloc_block:
  assumes "nextfree s \<noteq> 0" "unat (nextfree s) mod 4096 = 0" "n \<noteq> 0"
    and "unat (nextfree s) + unat n + 4096 \<le> 2 ^ 32"
    and "boot_alloc kend s n = Inr (r, s')"
  shows "r = nextfree s \<and> unat (nextfree s') mod 4096 = 0 \<and> unat r + unat n \<le> unat (nextfree s') \<and>
    unat (nextfree s') < unat r + unat n + 4096 \<and> nextfree s' \<le> KERNBASE + npages s * PGSIZE \<and>
    pages s' = pages s \<and> mem s' = mem s"
proof -
  have r: "r = nextfree s" and s': "s' = s\<lparr>nextfree := ROUNDUP (nextfree s + n) PGSIZE\<rparr>"
    and le: "nextfree s' \<le> KERNBASE + npages s * PGSIZE"
    using assms(1,3,5) by (auto simp: boot_alloc_def Let_def split: if_splits)
  have a: "unat (nextfree s + n) = unat (nextfree s) + unat n"
    using assms(4) by (intro unat_add_no_wrap) simp
  let ?x = "unat (nextfree s) + unat n"
  have up: "unat (nextfree s') = (?x + 4095) div 4096 * 4096"
    using assms(4) a by (simp add: s' unat_ROUNDUP)
  then have "unat (nextfree s') mod 4096 = 0" by simp
  with up roundup_bounds [of ?x] r le show ?thesis by (simp only: s') simp
qed

theorem boot_alloc_block_witness:
  "boot_alloc 0xF0002004 boot_pages 100 = Inr (0xF0003000, boot_pages\<lparr>nextfree := 0xF0004000\<rparr>) \<and>
   unat (0xF0003000 :: u32) + unat (100 :: u32) \<le> unat (0xF0004000 :: u32)"
proof -
  have e: "boot_alloc 0xF0002004 boot_pages 100 = Inr (0xF0003000, boot_pages\<lparr>nextfree := 0xF0004000\<rparr>)"
    by (simp add: boot_alloc_def boot_pages_def small_pages_def ROUNDUP_def ROUNDDOWN_def)
  have h: "nextfree boot_pages \<noteq> 0" "unat (nextfree boot_pages) mod 4096 = 0" "(100 :: u32) \<noteq> 0"
    "unat (nextfree boot_pages) + unat (100 :: u32) + 4096 \<le> 2 ^ 32"
    by (simp_all add: boot_pages_def small_pages_def)
  have "unat (0xF0003000 :: u32) + unat (100 :: u32) \<le> unat (0xF0004000 :: u32)"
    using boot_alloc_block [OF h e] by simp
  with e show ?thesis by blast
qed

text \<open>With 256 megabytes of memory or more the bound \<open>KERNBASE + npages * PGSIZE\<close> of
  \<open>boot_alloc\<close> wraps around: at exactly 256 megabytes it is 0 and every allocation panics,
  although the memory is there.\<close>

theorem boot_alloc_256MB_panics:
  assumes "npages s = 0x10000" "n \<noteq> 0" "nextfree s \<noteq> 0" "unat (nextfree s) + unat n + 4096 \<le> 2 ^ 32"
  shows "boot_alloc kend s n = Inl (Panic ''Out of memory.'')"
proof -
  have a: "unat (nextfree s + n) = unat (nextfree s) + unat n"
    using assms(4) by (intro unat_add_no_wrap) simp
  have "0 < unat (nextfree s)" using assms(3) by (simp add: unat_gt_0)
  then have "0 < unat (ROUNDUP (nextfree s + n) PGSIZE)"
    using assms(4) a by (subst unat_ROUNDUP) simp_all
  then have "0 < ROUNDUP (nextfree s + n) PGSIZE" by (simp add: word_less_nat_alt)
  then show ?thesis using assms(1-3) by (simp add: boot_alloc_def Let_def)
qed

theorem boot_alloc_256MB_panics_witness:
  "boot_alloc 0xF0002004 (boot_pages\<lparr>npages := 0x10000\<rparr>) 4096 = Inl (Panic ''Out of memory.'')"
  by (rule boot_alloc_256MB_panics) (simp_all add: boot_pages_def small_pages_def)

end
