(* ===== verification/Page_Table.thy ===== *)
theory Page_Table
  imports Pages
begin

text \<open>
  The two-level page tables of \<open>kern/pmap.c\<close>: \<open>pgdir_walk\<close>, \<open>boot_map_region\<close>,
  \<open>page_lookup\<close>, \<open>page_insert\<close>, \<open>page_remove\<close>, \<open>tlb_invalidate\<close> and the checker's own
  walk \<open>check_va2pa\<close>. A \<open>pde_t *\<close> or \<open>pte_t *\<close> is the kernel virtual address it holds, 0
  for \<open>NULL\<close>; \<open>pgdir + PDX(va)\<close> is pointer arithmetic on 4-byte entries.

  The abstract view of a page directory is the function from virtual addresses to page
  table entries (\<open>pt_entry\<close>); the main results say that \<open>page_insert\<close> and \<open>page_remove\<close>
  are updates of that function at one page and leave every other page alone.
\<close>

section \<open>Operations\<close>

definition NULL :: u32 where [simp]: "NULL = 0"
definition E_NO_MEM :: u32 where [simp]: "E_NO_MEM = 4"

definition pgdir_walk ::
  "'z pmap_state_scheme \<Rightarrow> u32 \<Rightarrow> u32 \<Rightarrow> bool \<Rightarrow> fault + u32 \<times> 'z pmap_state_scheme" where
  "pgdir_walk s pgdir va create =
     (let pt_addr = pgdir + 4 * PDX va in
      if kload s pt_addr AND PTE_P \<noteq> 0 then
        bindr (KADDR s (PTE_ADDR (kload s pt_addr))) (\<lambda>k. Inr (k + 4 * PTX va, s))
      else if \<not> create then Inr (NULL, s)
      else bindr (page_alloc s ALLOC_ZERO) (\<lambda>(new_pg, s).
        case new_pg of
          None \<Rightarrow> Inr (NULL, s)
        | Some pp \<Rightarrow>
            bindr (page_incref s pp) (\<lambda>s.
            let s = kstore s pt_addr (page2pa pp OR PTE_U OR PTE_W OR PTE_P) in
            bindr (KADDR s (PTE_ADDR (kload s pt_addr))) (\<lambda>k. Inr (k + 4 * PTX va, s)))))"

text \<open>The loop of \<open>boot_map_region\<close>. It runs forever when \<open>i\<close> wraps around before it
  reaches the size \<open>sz\<close>, so it is a partial function.\<close>

partial_function (option) boot_map_loop ::
  "u32 \<Rightarrow> u32 \<Rightarrow> u32 \<Rightarrow> u32 \<Rightarrow> u32 \<Rightarrow> u32 \<Rightarrow> 'z pmap_state_scheme \<Rightarrow>
     (fault + 'z pmap_state_scheme) option" where
  "boot_map_loop pgdir va sz pa perm i s =
     (if i < sz then
        (case pgdir_walk s pgdir (va + i) True of
           Inl e \<Rightarrow> Some (Inl e)
         | Inr (p, s) \<Rightarrow>
             if p = NULL then Some (Inl (Panic ''Mapping failed''))
             else boot_map_loop pgdir va sz pa perm (i + PGSIZE)
                    (kstore s p ((pa + i) OR perm OR PTE_P)))
      else Some (Inr s))"

definition boot_map_region ::
  "'z pmap_state_scheme \<Rightarrow> u32 \<Rightarrow> u32 \<Rightarrow> u32 \<Rightarrow> u32 \<Rightarrow> u32 \<Rightarrow>
     (fault + 'z pmap_state_scheme) option" where
  "boot_map_region s pgdir va sz pa perm = boot_map_loop pgdir va sz pa perm 0 s"

text \<open>\<open>page_lookup\<close> returns the page and, through \<open>pte_store\<close>, the address of its entry.\<close>

definition page_lookup ::
  "'z pmap_state_scheme \<Rightarrow> u32 \<Rightarrow> u32 \<Rightarrow> fault + (nat \<times> u32) option" where
  "page_lookup s pgdir va =
     bindr (pgdir_walk s pgdir va False) (\<lambda>(p, s).
       if p = NULL \<or> kload s p AND PTE_P = 0 then Inr None
       else bindr (pa2page s (PTE_ADDR (kload s p))) (\<lambda>pp. Inr (Some (pp, p))))"

definition tlb_invalidate ::
  "'z pmap_state_scheme \<Rightarrow> u32 \<Rightarrow> u32 \<Rightarrow> 'z pmap_state_scheme" where
  "tlb_invalidate s pgdir va = s\<lparr>invlpg_log := va # invlpg_log s\<rparr>"

definition page_remove ::
  "'z pmap_state_scheme \<Rightarrow> u32 \<Rightarrow> u32 \<Rightarrow> fault + 'z pmap_state_scheme" where
  "page_remove s pgdir va =
     bindr (page_lookup s pgdir va) (\<lambda>r.
       case r of
         None \<Rightarrow> Inr s
       | Some (pg, p) \<Rightarrow>
           bindr (page_decref s pg) (\<lambda>s. Inr (tlb_invalidate (kstore s p 0) pgdir va)))"

definition page_insert ::
  "'z pmap_state_scheme \<Rightarrow> u32 \<Rightarrow> nat \<Rightarrow> u32 \<Rightarrow> u32 \<Rightarrow> fault + u32 \<times> 'z pmap_state_scheme" where
  "page_insert s pgdir pp va perm =
     bindr (pgdir_walk s pgdir va True) (\<lambda>(p, s).
       if p = NULL then Inr (- E_NO_MEM, s)
       else bindr (page_incref s pp) (\<lambda>s.
            bindr (if kload s p AND PTE_P = 1 then page_remove s pgdir va else Inr s) (\<lambda>s.
            let s = kstore s p (page2pa pp OR perm OR PTE_P);
                s = kstore s (pgdir + 4 * PDX va) (kload s (pgdir + 4 * PDX va) OR perm)
            in Inr (0, s))))"

definition check_va2pa ::
  "'z pmap_state_scheme \<Rightarrow> u32 \<Rightarrow> u32 \<Rightarrow> fault + u32" where
  "check_va2pa s pgdir va =
     (let pgdir = pgdir + 4 * PDX va in
      if kload s pgdir AND PTE_P = 0 then Inr (NOT 0)
      else bindr (KADDR s (PTE_ADDR (kload s pgdir))) (\<lambda>p.
        if kload s (p + 4 * PTX va) AND PTE_P = 0 then Inr (NOT 0)
        else Inr (PTE_ADDR (kload s (p + 4 * PTX va)))))"

section \<open>Entries of a table\<close>

text \<open>Entry \<open>i\<close> of the table (or directory) held in page \<open>f\<close>.\<close>

definition entry_pa :: "nat \<Rightarrow> nat \<Rightarrow> u32" where
  "entry_pa f i = of_nat (4096 * f + 4 * i)"

definition entry :: "'z pmap_state_scheme \<Rightarrow> nat \<Rightarrow> nat \<Rightarrow> u32" where
  "entry s f i = load32 (mem s) (entry_pa f i)"

definition present :: "u32 \<Rightarrow> bool" where
  "present p \<longleftrightarrow> p AND PTE_P \<noteq> 0"

definition frame_of :: "u32 \<Rightarrow> nat" where
  "frame_of p = unat (PGNUM p)"

lemma unat_entry_pa: "f < 0x100000 \<Longrightarrow> i < 1024 \<Longrightarrow> unat (entry_pa f i) = 4096 * f + 4 * i"
  unfolding entry_pa_def by (rule unat_of_nat_u32) simp

lemma entry_pa_aligned: "f < 0x100000 \<Longrightarrow> i < 1024 \<Longrightarrow> aligned4 (entry_pa f i)"
  by (simp add: aligned4_def unat_entry_pa)

lemma entry_pa_inject:
  assumes "f < 0x100000" "i < 1024" "g < 0x100000" "j < 1024"
  shows "entry_pa f i = entry_pa g j \<longleftrightarrow> f = g \<and> i = j"
proof
  assume "entry_pa f i = entry_pa g j"
  then have e: "4096 * f + 4 * i = 4096 * g + 4 * j"
    using assms by (metis unat_entry_pa)
  then have "(4096 * f + 4 * i) div 4096 = (4096 * g + 4 * j) div 4096" by simp
  then have "f = g" using assms by simp
  with e show "f = g \<and> i = j" by simp
qed simp

lemma load32_entry:
  assumes "f < 0x100000" "i < 1024" "g < 0x100000" "j < 1024"
  shows "load32 (store32 m (entry_pa f i) v) (entry_pa g j) =
    (if f = g \<and> i = j then v else load32 m (entry_pa g j))"
  using assms by (simp add: kw.ld_st entry_pa_aligned entry_pa_inject)

lemma entry_pa_PDX: "f < 0x100000 \<Longrightarrow> page2pa f + 4 * PDX va = entry_pa f (unat (PDX va))"
proof (rule word_eq_unatI)
  assume f: "f < 0x100000"
  have "unat (4 * PDX va) = 4 * unat (PDX va)" using PDX_less [of va] by (intro unat_mult4) simp
  then show "unat (page2pa f + 4 * PDX va) = unat (entry_pa f (unat (PDX va)))"
    using f PDX_less [of va] by (subst unat_add_no_wrap) (simp_all add: unat_page2pa unat_entry_pa)
qed

lemma entry_pa_PTX: "f < 0x100000 \<Longrightarrow> page2pa f + 4 * PTX va = entry_pa f (unat (PTX va))"
proof (rule word_eq_unatI)
  assume f: "f < 0x100000"
  have "unat (4 * PTX va) = 4 * unat (PTX va)" using PTX_less [of va] by (intro unat_mult4) simp
  then show "unat (page2pa f + 4 * PTX va) = unat (entry_pa f (unat (PTX va)))"
    using f PTX_less [of va] by (subst unat_add_no_wrap) (simp_all add: unat_page2pa unat_entry_pa)
qed

lemma or_low:
  assumes "unat (a :: u32) < 4096" "unat b < 4096"
  shows "unat (a OR b) < 4096"
proof -
  have "take_bit 12 a = a" "take_bit 12 b = b"
    using assms by (simp_all add: word_unat_eq_iff unat_take_bit_u32)
  then have "take_bit 12 (a OR b) = a OR b" by (simp add: take_bit_or)
  moreover have "unat (take_bit 12 (a OR b)) < 4096" by (simp only: unat_take_bit_u32) simp
  ultimately show ?thesis by (simp only:)
qed

text \<open>An entry made of a page address and low bits gives the page address back.\<close>

lemma frame_of_less: "frame_of p < 0x100000"
  using unat_u32_lt [of p] by (simp add: frame_of_def unat_PGNUM)

lemma PTE_ADDR_frame: "PTE_ADDR p = page2pa (frame_of p)"
  by (rule word_eq_unatI) (simp add: unat_PTE_ADDR unat_page2pa frame_of_less, simp add: frame_of_def unat_PGNUM)

lemma PGNUM_PTE_ADDR: "PGNUM (PTE_ADDR p) = PGNUM p"
  by (rule word_eq_unatI) (simp add: unat_PGNUM unat_PTE_ADDR)

lemma page2pa_or_low:
  assumes "f < 0x100000" "unat w < 4096"
  shows "page2pa f OR w = page2pa f + w" "unat (page2pa f OR w) = 4096 * f + unat w"
proof -
  show e: "page2pa f OR w = page2pa f + w"
    using assms by (intro or_eq_add_u32 [of 12]) (simp_all add: word_unat_eq_iff unat_take_bit_u32 unat_page2pa)
  show "unat (page2pa f OR w) = 4096 * f + unat w"
    unfolding e using assms by (subst unat_add_no_wrap) (simp_all add: unat_page2pa)
qed

lemma frame_of_or_low: "f < 0x100000 \<Longrightarrow> unat w < 4096 \<Longrightarrow> frame_of (page2pa f OR w) = f"
  by (simp only: frame_of_def unat_PGNUM page2pa_or_low(2))

text \<open>Clearing a page clears the entries of the table in it and no others.\<close>

lemma page_byte:
  assumes "g < 0x100000" "x < 0x100000" "n < 4096"
  shows "unat (of_nat (4096 * g + n) - page2pa x) < 4096 \<longleftrightarrow> g = x"
proof -
  have u: "unat (of_nat (4096 * g + n) :: u32) = 4096 * g + n"
    using assms by (intro unat_of_nat_u32) simp
  show ?thesis
  proof (cases "4096 * x \<le> 4096 * g + n")
    case True
    then have "unat (of_nat (4096 * g + n) - page2pa x) = 4096 * g + n - 4096 * x"
      using u assms by (subst unat_diff_shift) (simp_all add: unat_page2pa)
    then show ?thesis using True assms by arith
  next
    case False
    then have "unat (of_nat (4096 * g + n) - page2pa x) = 4294967296 + (4096 * g + n) - 4096 * x"
      using u assms by (subst unat_diff_wrap) (simp_all add: unat_page2pa)
    then show ?thesis using False assms by arith
  qed
qed

lemma entry_pa_plus: "entry_pa g j + of_nat k = of_nat (4096 * g + (4 * j + k))"
  by (simp add: entry_pa_def)

lemma load32_zeroed_page:
  assumes "g < 0x100000" "j < 1024" "x < 0x100000"
  shows "load32 (memset m (page2pa x) 0 4096) (entry_pa g j) = (if g = x then 0 else load32 m (entry_pa g j))"
proof -
  have b: "memset m (page2pa x) 0 4096 (entry_pa g j + of_nat k) =
      (if g = x then 0 else m (entry_pa g j + of_nat k))" if "k < 4" for k
    using page_byte [of g x "4 * j + k"] assms that by (simp add: entry_pa_plus memset_fill block_fill_def del: of_nat_add of_nat_mult)
  show ?thesis
    using b [of 0] b [of 1] b [of 2] b [of 3] by (simp add: load32_def)
qed

section \<open>Well-formed page directories\<close>

text \<open>The slot of the directory that maps the page tables themselves (\<open>UVPT\<close>) refers back to
  the directory; every other slot holds a page table of its own.\<close>

definition slots :: "nat set" where
  "slots = {d. d < 1024 \<and> d \<noteq> unat (PDX UVPT)}"

definition pdx :: "u32 \<Rightarrow> nat" where "pdx va = unat (PDX va)"
definition ptx :: "u32 \<Rightarrow> nat" where "ptx va = unat (PTX va)"

definition pgdir_kva :: "nat \<Rightarrow> u32" where
  "pgdir_kva D = page2pa D + KERNBASE"

definition table_at :: "'z pmap_state_scheme \<Rightarrow> nat \<Rightarrow> nat \<Rightarrow> nat option" where
  "table_at s D d = (if present (entry s D d) then Some (frame_of (entry s D d)) else None)"

definition pt_entry :: "'z pmap_state_scheme \<Rightarrow> nat \<Rightarrow> u32 \<Rightarrow> u32" where
  "pt_entry s D va = (case table_at s D (pdx va) of None \<Rightarrow> 0 | Some f \<Rightarrow> entry s f (ptx va))"

text \<open>\<open>pt_wf s D xs\<close>: the page directory in page \<open>D\<close> is well formed in a state whose free
  list is \<open>xs\<close>. Its page tables are pages of the machine, all different, none of them the
  directory itself or free. At most 256 megabytes are mapped at \<open>KERNBASE\<close>
  (\<open>kern/pmap.h\<close>), so no kernel address of a page is \<open>NULL\<close>.\<close>

definition pt_wf :: "'z pmap_state_scheme \<Rightarrow> nat \<Rightarrow> nat list \<Rightarrow> bool" where
  "pt_wf s D xs \<longleftrightarrow>
     pages_wf s \<and> unat (npages s) \<le> 0x10000 \<and> free_pages s xs \<and>
     D < length (pages s) \<and> D \<notin> set xs \<and>
     (\<forall>d \<in> slots. \<forall>f. table_at s D d = Some f \<longrightarrow> f < length (pages s) \<and> f \<noteq> D \<and> f \<notin> set xs) \<and>
     (\<forall>d \<in> slots. \<forall>e \<in> slots. \<forall>f. table_at s D d = Some f \<longrightarrow> table_at s D e = Some f \<longrightarrow> d = e)"

lemma pdx_less [simp]: "pdx va < 1024" by (simp add: pdx_def PDX_less)
lemma ptx_less [simp]: "ptx va < 1024" by (simp add: ptx_def PTX_less)

lemma pt_wfD:
  assumes "pt_wf s D xs"
  shows "pages_wf s" "unat (npages s) \<le> 0x10000" "free_pages s xs" "D < length (pages s)" "D \<notin> set xs"
    "length (pages s) = unat (npages s)"
  using assms by (simp_all add: pt_wf_def pages_wf_def)

lemma pt_wf_bound: "pt_wf s D xs \<Longrightarrow> f < length (pages s) \<Longrightarrow> f < 0x10000 \<and> f < 0x100000"
  by (auto simp: pt_wf_def pages_wf_def)

lemma pt_wf_table:
  "pt_wf s D xs \<Longrightarrow> d \<in> slots \<Longrightarrow> table_at s D d = Some f \<Longrightarrow>
     f < length (pages s) \<and> f \<noteq> D \<and> f \<notin> set xs"
  by (simp add: pt_wf_def)

lemma pt_wf_inj:
  "pt_wf s D xs \<Longrightarrow> d \<in> slots \<Longrightarrow> e \<in> slots \<Longrightarrow> table_at s D d = Some f \<Longrightarrow>
     table_at s D e = Some f \<Longrightarrow> d = e"
  by (simp add: pt_wf_def)

lemma kload_dir: "D < 0x100000 \<Longrightarrow> kload s (pgdir_kva D + 4 * PDX va) = entry s D (pdx va)"
proof -
  assume "D < 0x100000"
  moreover have "kv2p (pgdir_kva D + 4 * PDX va) = page2pa D + 4 * PDX va"
    by (simp add: kv2p_def pgdir_kva_def)
  ultimately show ?thesis by (simp add: kload_def entry_def entry_pa_PDX pdx_def)
qed

lemma kstore_dir: "D < 0x100000 \<Longrightarrow> kstore s (pgdir_kva D + 4 * PDX va) v =
    s\<lparr>mem := store32 (mem s) (entry_pa D (pdx va)) v\<rparr>"
proof -
  assume "D < 0x100000"
  moreover have "kv2p (pgdir_kva D + 4 * PDX va) = page2pa D + 4 * PDX va"
    by (simp add: kv2p_def pgdir_kva_def)
  ultimately show ?thesis by (simp add: kstore_def entry_pa_PDX pdx_def)
qed

lemma kload_entry: "kload s (entry_pa f i + KERNBASE) = entry s f i"
  by (simp add: kload_def entry_def kv2p_def)

lemma kstore_entry: "kstore s (entry_pa f i + KERNBASE) v = s\<lparr>mem := store32 (mem s) (entry_pa f i) v\<rparr>"
  by (simp add: kstore_def kv2p_def)

lemma entry_store:
  assumes "f < 0x100000" "i < 1024" "g < 0x100000" "j < 1024"
  shows "entry (s\<lparr>mem := store32 m (entry_pa f i) v\<rparr>) g j =
    (if f = g \<and> i = j then v else load32 m (entry_pa g j))"
  using load32_entry [OF assms] by (simp add: entry_def)

lemma table_kva_nonnull: "f < 0x10000 \<Longrightarrow> i < 1024 \<Longrightarrow> entry_pa f i + KERNBASE \<noteq> 0"
proof
  assume f: "f < 0x10000" "i < 1024" and "entry_pa f i + KERNBASE = 0"
  then have "entry_pa f i = - KERNBASE" by (simp add: eq_neg_iff_add_eq_0)
  then have "unat (entry_pa f i) = 0x10000000" by simp
  with f show False by (simp add: unat_entry_pa)
qed

section \<open>What pgdir_walk does\<close>

lemma KADDR_table:
  assumes "pages_wf s" "f < length (pages s)" "frame_of p = f"
  shows "KADDR s (PTE_ADDR p) = Inr (page2pa f + KERNBASE)"
  using KADDR_page2pa [OF assms(1,2)] assms(3) by (simp add: PTE_ADDR_frame)

lemma walk_present:
  assumes "pages_wf s" "D < length (pages s)" "table_at s D (pdx va) = Some f" "f < length (pages s)"
  shows "pgdir_walk s (pgdir_kva D) va create = Inr (entry_pa f (ptx va) + KERNBASE, s)"
proof -
  have D: "D < 0x100000" "f < 0x100000" using assms by (auto simp: pages_wf_def)
  have p: "entry s D (pdx va) AND PTE_P \<noteq> 0" "frame_of (entry s D (pdx va)) = f"
    using assms(3) by (auto simp: table_at_def present_def split: if_splits)
  have "page2pa f + KERNBASE + 4 * PTX va = entry_pa f (ptx va) + KERNBASE"
    using entry_pa_PTX [OF D(2), of va] by (simp add: ptx_def algebra_simps)
  then show ?thesis
    using p KADDR_table [OF assms(1,4) p(2)]
    by (simp add: pgdir_walk_def Let_def kload_dir [OF D(1)])
qed

lemma walk_absent:
  assumes "pages_wf s" "D < length (pages s)" "table_at s D (pdx va) = None"
  shows "pgdir_walk s (pgdir_kva D) va False = Inr (NULL, s)"
    "page_free_list s = None \<Longrightarrow> pgdir_walk s (pgdir_kva D) va True = Inr (NULL, s)"
proof -
  have D: "D < 0x100000" using assms by (auto simp: pages_wf_def)
  have p: "entry s D (pdx va) AND PTE_P = 0"
    using assms(3) by (auto simp: table_at_def present_def split: if_splits)
  show "pgdir_walk s (pgdir_kva D) va False = Inr (NULL, s)"
    "page_free_list s = None \<Longrightarrow> pgdir_walk s (pgdir_kva D) va True = Inr (NULL, s)"
    using p by (simp_all add: pgdir_walk_def Let_def kload_dir [OF D] page_alloc_empty)
qed

text \<open>The directory entry of a new page table: present, writable, user.\<close>

definition new_pde :: "nat \<Rightarrow> u32" where
  "new_pde x = ((page2pa x OR PTE_U) OR PTE_W) OR PTE_P"

lemma new_pde_eq: "new_pde x = page2pa x OR 7"
  by (simp add: new_pde_def or.assoc)

lemma present_or [simp]: "present (p OR w) \<longleftrightarrow> present p \<or> present w"
  by (auto simp: present_def bit_eq_iff bit_simps)

lemma present_new_pde: "x < 0x100000 \<Longrightarrow> present (new_pde x) \<and> frame_of (new_pde x) = x"
  using frame_of_or_low [of x 7] by (simp add: new_pde_eq) (simp add: present_def)

definition new_table_state ::
  "'z pmap_state_scheme \<Rightarrow> nat \<Rightarrow> nat \<Rightarrow> nat \<Rightarrow> 'z pmap_state_scheme" where
  "new_table_state s D d x =
     s\<lparr>page_free_list := pp_link (pages s ! x),
       pages := (pages s)[x := (pages s ! x)\<lparr>pp_link := None, pp_ref := pp_ref (pages s ! x) + 1\<rparr>],
       mem := store32 (memset (mem s) (page2pa x) 0 PGSIZE) (entry_pa D d) (new_pde x)\<rparr>"

lemma walk_create:
  assumes "pages_wf s" "free_pages s (x # xs)" "D < length (pages s)" "table_at s D (pdx va) = None"
  shows "pgdir_walk s (pgdir_kva D) va True =
    Inr (entry_pa x (ptx va) + KERNBASE, new_table_state s D (pdx va) x)"
proof -
  have x: "x < length (pages s)" using assms(2) by (auto simp: free_pages_def page_cap_def)
  have D: "D < 0x100000" and xb: "x < 0x100000" using assms x by (auto simp: pages_wf_def)
  have p: "entry s D (pdx va) AND PTE_P = 0"
    using assms(4) by (auto simp: table_at_def present_def split: if_splits)
  let ?s = "new_table_state s D (pdx va) x"
  have "pages_wf ?s" "x < length (pages ?s)"
    using assms(1) x by (simp_all add: new_table_state_def pages_wf_def)
  then have K: "KADDR ?s (PTE_ADDR (new_pde x)) = Inr (page2pa x + KERNBASE)"
    using present_new_pde [OF xb] by (intro KADDR_table) auto
  have k: "page2pa x + KERNBASE + 4 * PTX va = entry_pa x (ptx va) + KERNBASE"
    using entry_pa_PTX [OF xb, of va] by (simp add: ptx_def algebra_simps)
  have l: "entry ?s D (pdx va) = new_pde x"
    by (simp add: new_table_state_def entry_def)
  show ?thesis
    using p x K k l
    by (simp add: pgdir_walk_def Let_def kload_dir [OF D] kstore_dir [OF D] page_incref_def
        page_alloc_nonempty [OF assms(1,2)] new_table_state_def new_pde_eq or.assoc)
qed

lemma slots_less: "d \<in> slots \<Longrightarrow> d < 1024"
  by (simp add: slots_def)

lemma new_table_entry:
  assumes "D < 0x100000" "x < 0x100000" "d < 1024" "g < 0x100000" "j < 1024"
  shows "entry (new_table_state s D d x) g j =
    (if g = D \<and> j = d then new_pde x else if g = x then 0 else entry s g j)"
  using assms by (auto simp: new_table_state_def entry_store load32_zeroed_page entry_def [of s])

lemma new_table_at:
  assumes "D < 0x100000" "x < 0x100000" "d < 1024" "D \<noteq> x" "e < 1024"
  shows "table_at (new_table_state s D d x) D e = (if e = d then Some x else table_at s D e)"
  using assms present_new_pde [OF assms(2)] by (simp add: table_at_def new_table_entry)

lemma free_pages_Cons:
  assumes "free_pages s (x # xs)"
  shows "page_free_list s = Some x" "x < length (pages s)" "x \<notin> set xs"
    "chain (page_link s) (pp_link (pages s ! x)) xs" "set xs \<subseteq> {..<length (pages s)}"
  using assms free_pages_eq [of s "x # xs"] pg.free_distinct [of s "x # xs"]
  by (auto simp: free_pages_def page_cap_def page_link_def)

lemma new_table_free:
  assumes "pages_wf s" "free_pages s (x # xs)"
  shows "free_pages (new_table_state s D d x) xs"
proof -
  note x = free_pages_Cons [OF assms(2)]
  have "chain (page_link (new_table_state s D d x)) p xs = chain (page_link s) p xs" for p
    using x(3) by (intro chain_cong) (simp add: new_table_state_def page_link_def, metis nth_list_update_neq)
  with x show ?thesis by (simp add: free_pages_def page_cap_def) (simp add: new_table_state_def)
qed

lemma new_table_wf:
  assumes wf: "pt_wf s D (x # xs)" and d: "d \<in> slots" and none: "table_at s D d = None"
  shows "pt_wf (new_table_state s D d x) D xs"
proof -
  let ?t = "new_table_state s D d x"
  have x: "x < length (pages s)" "x \<notin> set xs" "x < 0x100000"
    using free_pages_Cons [OF pt_wfD(3) [OF wf]] pt_wf_bound [OF wf, of x] by auto
  have D: "D < 0x100000" "D \<noteq> x" "D < length (pages s)"
    using pt_wf_bound [OF wf pt_wfD(4) [OF wf]] pt_wfD(4,5) [OF wf] by auto
  have ta: "table_at ?t D e = (if e = d then Some x else table_at s D e)" if "e \<in> slots" for e
    using D x slots_less [OF that] slots_less [OF d] by (simp add: new_table_at)
  have old: "table_at s D e = Some f \<Longrightarrow> e \<in> slots \<Longrightarrow>
      f < length (pages s) \<and> f \<noteq> D \<and> f \<noteq> x \<and> f \<notin> set xs" for e f
    using pt_wf_table [OF wf, of e f] by simp
  have "pages_wf ?t" using pt_wfD(1) [OF wf] by (simp add: new_table_state_def pages_wf_def)
  moreover have "free_pages ?t xs" using pt_wfD(1,3) [OF wf] by (rule new_table_free)
  moreover have "length (pages ?t) = length (pages s)" "npages ?t = npages s"
    by (simp_all add: new_table_state_def)
  moreover have "f < length (pages s) \<and> f \<noteq> D \<and> f \<notin> set xs"
    if "e \<in> slots" "table_at ?t D e = Some f" for e f
    using that old [of e f] x D by (auto simp: ta split: if_splits)
  moreover have "e = e'" if "e \<in> slots" "e' \<in> slots" "table_at ?t D e = Some f" "table_at ?t D e' = Some f" for e e' f
    using that old [of e f] old [of e' f] pt_wf_inj [OF wf, of e e' f]
    by (auto simp: ta split: if_splits)
  ultimately show ?thesis
    using pt_wfD [OF wf] by (simp add: pt_wf_def)
qed

text \<open>The walk with \<open>create\<close> set, in one lemma: it finds or makes the table of \<open>va\<close>, and the
  address space it leaves has the same entry for every page. The state changes only when
  a table was missing.\<close>

lemma pt_entry_other_table:
  assumes wf: "pt_wf s D (x # xs)" and d: "pdx va \<in> slots" and none: "table_at s D (pdx va) = None"
    and d': "pdx va' \<in> slots"
  shows "pt_entry (new_table_state s D (pdx va) x) D va' = pt_entry s D va'"
proof -
  have x: "x < 0x100000" "D \<noteq> x" "D < 0x100000"
    using pt_wfD(3,4,5) [OF wf] pt_wf_bound [OF wf, of x] pt_wf_bound [OF wf, of D]
    by (auto simp: free_pages_def page_cap_def)
  show ?thesis
  proof (cases "pdx va' = pdx va")
    case True
    then show ?thesis using x none by (simp add: pt_entry_def new_table_at new_table_entry)
  next
    case False
    then have t: "table_at (new_table_state s D (pdx va) x) D (pdx va') = table_at s D (pdx va')"
      using x by (simp add: new_table_at)
    show ?thesis
    proof (cases "table_at s D (pdx va')")
      case None
      then show ?thesis using t by (simp add: pt_entry_def)
    next
      case (Some f)
      then have "f \<noteq> D" "f \<noteq> x" "f < 0x100000"
        using pt_wf_table [OF wf d' Some] pt_wf_bound [OF wf, of f] by auto
      then show ?thesis using t Some x by (simp add: pt_entry_def new_table_entry)
    qed
  qed
qed

section \<open>Stores into a well-formed directory\<close>

definition tables :: "'z pmap_state_scheme \<Rightarrow> nat \<Rightarrow> nat set" where
  "tables s D = {f. \<exists>d \<in> slots. table_at s D d = Some f}"

definition same_page :: "u32 \<Rightarrow> u32 \<Rightarrow> bool" where
  "same_page va va' \<longleftrightarrow> PGNUM va = PGNUM va'"

lemma same_page_refl [simp]: "same_page va va"
  by (simp add: same_page_def)

lemma same_page_iff: "same_page va va' \<longleftrightarrow> pdx va' = pdx va \<and> ptx va' = ptx va"
proof -
  have e: "unat v div 4096 = unat v div 4096 div 1024 * 1024 + unat v div 4096 mod 1024"
    "unat v div 4194304 = unat v div 4096 div 1024" for v :: u32
    using div_mult2_eq [of "unat v" 4096 1024] by simp_all
  have "same_page va va' \<longleftrightarrow> unat va div 4096 = unat va' div 4096"
    by (simp add: same_page_def word_unat_eq_iff unat_PGNUM)
  moreover have "pdx va' = pdx va \<and> ptx va' = ptx va \<longleftrightarrow>
      unat va div 4096 div 1024 = unat va' div 4096 div 1024 \<and> unat va div 4096 mod 1024 = unat va' div 4096 mod 1024"
    by (auto simp: pdx_def ptx_def mmu_simps e(2))
  ultimately show ?thesis using e(1) by metis
qed

lemma pt_entry_same_page: "same_page va va' \<Longrightarrow> pt_entry s D va = pt_entry s D va'"
  unfolding same_page_iff pt_entry_def by (elim conjE) (simp only:)

lemma page2pa_of_nat: "page2pa f = of_nat (4096 * f)"
  by (simp add: page2pa_def push_bit_eq_mult del: push_bit_of_nat)

lemma dir_kva:
  "kload s (pgdir_kva D + 4 * of_nat d) = entry s D d"
  "kstore s (pgdir_kva D + 4 * of_nat d) v = s\<lparr>mem := store32 (mem s) (entry_pa D d) v\<rparr>"
proof -
  have "pgdir_kva D + 4 * of_nat d = entry_pa D d + KERNBASE"
    by (simp add: pgdir_kva_def page2pa_of_nat entry_pa_def)
  then show "kload s (pgdir_kva D + 4 * of_nat d) = entry s D d"
    "kstore s (pgdir_kva D + 4 * of_nat d) v = s\<lparr>mem := store32 (mem s) (entry_pa D d) v\<rparr>"
    by (simp_all only: kload_entry kstore_entry)
qed

text \<open>A state with the same pages, free list and directory is as well formed.\<close>

lemma pt_wf_dir:
  assumes wf: "pt_wf s D xs" and ta: "\<And>e. e < 1024 \<Longrightarrow> table_at t D e = table_at s D e"
    and t: "pages t = pages s" "npages t = npages s" "page_free_list t = page_free_list s"
  shows "pt_wf t D xs"
proof -
  have "page_link t = page_link s" using t by (simp add: page_link_def fun_eq_iff)
  then have "free_pages t xs \<longleftrightarrow> free_pages s xs" using t by (simp add: free_pages_def page_cap_def)
  moreover have "table_at t D e = table_at s D e" if "e \<in> slots" for e
    using that by (simp add: ta slots_less)
  ultimately show ?thesis using wf t unfolding pt_wf_def pages_wf_def by auto
qed

text \<open>Storing into a page table changes the entry of one page.\<close>

lemma leaf_store:
  assumes wf: "pt_wf s D xs" and d: "pdx va \<in> slots" and f: "table_at s D (pdx va) = Some f"
    and t: "t = s\<lparr>mem := store32 (mem s) (entry_pa f (ptx va)) v\<rparr>"
  shows "e < 1024 \<Longrightarrow> table_at t D e = table_at s D e"
    and "pt_wf t D xs"
    and "pdx va' \<in> slots \<Longrightarrow> pt_entry t D va' = (if same_page va va' then v else pt_entry s D va')"
proof -
  have b: "f < 0x100000" "D < 0x100000" "f \<noteq> D"
    using pt_wf_table [OF wf d f] pt_wf_bound [OF wf, of f] pt_wf_bound [OF wf pt_wfD(4) [OF wf]] by auto
  have dir: "entry t D e = entry s D e" if "e < 1024" for e
    using b that by (simp add: t entry_store) (simp add: entry_def)
  then show ta: "table_at t D e = table_at s D e" if "e < 1024" for e
    using that by (simp add: table_at_def)
  show "pt_wf t D xs" using wf ta by (rule pt_wf_dir) (simp_all add: t)
  show "pt_entry t D va' = (if same_page va va' then v else pt_entry s D va')" if d': "pdx va' \<in> slots"
  proof (cases "table_at s D (pdx va')")
    case None
    with f have "pdx va' \<noteq> pdx va" by auto
    with None show ?thesis by (simp add: pt_entry_def ta same_page_iff)
  next
    case (Some g)
    then have g: "g < 0x100000"
      using pt_wf_table [OF wf d' Some] pt_wf_bound [OF wf, of g] by auto
    have "f = g \<longleftrightarrow> pdx va' = pdx va"
      using pt_wf_inj [OF wf d d' f] Some f by auto
    then show ?thesis
      using Some b g by (simp add: pt_entry_def ta same_page_iff) (auto simp: t entry_store, simp_all add: entry_def)
  qed
qed

lemma frame_of_or: "unat w < 4096 \<Longrightarrow> frame_of (p OR w) = frame_of p"
proof -
  assume "unat w < 4096"
  then have "unat (drop_bit 12 w) = 0" by (simp add: unat_drop_bit_u32 del: drop_bit_eq_div)
  then have "drop_bit 12 w = 0" by (simp only: unat_0_iff)
  then show ?thesis by (simp only: frame_of_def PGNUM_def PTXSHIFT_def drop_bit_or) simp
qed

text \<open>Adding permission bits to a present directory entry changes no table.\<close>

lemma dir_store:
  assumes wf: "pt_wf s D xs" and d: "d < 1024" and p: "present (entry s D d)" and w: "unat w < 4096"
    and t: "t = s\<lparr>mem := store32 (mem s) (entry_pa D d) (entry s D d OR w)\<rparr>"
  shows "pt_wf t D xs"
    and "pdx va \<in> slots \<Longrightarrow> pt_entry t D va = pt_entry s D va"
    and "e < 1024 \<Longrightarrow> table_at t D e = table_at s D e"
proof -
  have D: "D < 0x100000" using pt_wf_bound [OF wf pt_wfD(4) [OF wf]] by simp
  have dir: "entry t D e = (if e = d then entry s D d OR w else entry s D e)" if "e < 1024" for e
    using D d that by (simp add: t entry_store) (simp add: entry_def)
  show ta: "table_at t D e = table_at s D e" if "e < 1024" for e
    using that p by (simp add: table_at_def dir frame_of_or [OF w])
  show "pt_wf t D xs" using wf ta by (rule pt_wf_dir) (simp_all add: t)
  show "pt_entry t D va = pt_entry s D va" if d': "pdx va \<in> slots"
  proof (cases "table_at s D (pdx va)")
    case (Some g)
    then have "g < 0x100000" "g \<noteq> D"
      using pt_wf_table [OF wf d' Some] pt_wf_bound [OF wf, of g] by auto
    then show ?thesis
      using Some D d by (simp add: pt_entry_def ta) (simp add: t entry_store, simp add: entry_def)
  qed (simp add: pt_entry_def ta)
qed

text \<open>Operations on the page array alone keep the directory and its entries.\<close>

lemma pt_entry_mem: "mem t = mem s \<Longrightarrow> pt_entry t D va = pt_entry s D va"
  by (simp add: pt_entry_def table_at_def entry_def)

lemma table_at_mem: "mem t = mem s \<Longrightarrow> table_at t D d = table_at s D d"
  by (simp add: table_at_def entry_def)

lemma tlb_invalidate_simps [simp]:
  "pt_entry (tlb_invalidate s p v) D va = pt_entry s D va"
  "table_at (tlb_invalidate s p v) D d = table_at s D d"
  "pages (tlb_invalidate s p v) = pages s" "npages (tlb_invalidate s p v) = npages s"
  "page_free_list (tlb_invalidate s p v) = page_free_list s"
  by (simp_all add: tlb_invalidate_def pt_entry_def table_at_def entry_def)

lemma pt_wf_pages:
  assumes "pt_wf s D xs" "mem t = mem s" "npages t = npages s" "length (pages t) = length (pages s)"
    "free_pages t ys" "D \<notin> set ys" "set ys \<inter> tables s D = {}"
  shows "pt_wf t D ys"
  using assms by (auto simp: pt_wf_def pages_wf_def table_at_mem [OF assms(2)] tables_def)

section \<open>Looking up, removing and inserting a page\<close>

lemma present_0 [simp]: "\<not> present 0"
  by (simp add: present_def)

lemma present_pt_entryE:
  assumes "present (pt_entry s D va)"
  obtains f where "table_at s D (pdx va) = Some f" "pt_entry s D va = entry s f (ptx va)"
  using assms by (auto simp: pt_entry_def split: option.splits)

text \<open>What \<open>page_lookup\<close> finds: the page of the entry, if the entry is present.\<close>

lemma page_lookup_eq:
  assumes wf: "pt_wf s D xs" and d: "pdx va \<in> slots"
  shows "page_lookup s (pgdir_kva D) va =
    (if present (pt_entry s D va)
     then bindr (pa2page s (PTE_ADDR (pt_entry s D va)))
       (\<lambda>pp. Inr (Some (pp, entry_pa (the (table_at s D (pdx va))) (ptx va) + KERNBASE)))
     else Inr None)"
proof (cases "table_at s D (pdx va)")
  case None
  then show ?thesis
    using walk_absent(1) [OF pt_wfD(1,4) [OF wf] None]
    by (simp add: page_lookup_def pt_entry_def)
next
  case (Some f)
  then have f: "f < length (pages s)" "f < 0x10000"
    using pt_wf_table [OF wf d Some] pt_wf_bound [OF wf, of f] by auto
  have "entry_pa f (ptx va) + KERNBASE \<noteq> 0"
    using f(2) by (rule table_kva_nonnull) simp
  then show ?thesis
    using Some walk_present [OF pt_wfD(1,4) [OF wf] Some f(1), of False]
    by (simp add: page_lookup_def pt_entry_def present_def kload_entry del: KERNBASE_def)
qed

text \<open>The page mapped at \<open>va\<close>, if there is one, is a page of the machine that is neither free
  nor part of the page tables: what the kernel must keep for unmapping to be sound.\<close>

definition removable :: "'z pmap_state_scheme \<Rightarrow> nat \<Rightarrow> nat list \<Rightarrow> u32 \<Rightarrow> bool" where
  "removable s D xs va \<longleftrightarrow> (present (pt_entry s D va) \<longrightarrow>
     (let g = frame_of (pt_entry s D va)
      in g < length (pages s) \<and> g \<notin> set xs \<and> g \<noteq> D \<and> g \<notin> tables s D))"

lemma page_decref_eq:
  assumes "free_pages s xs" "g < length (pages s)" "g \<notin> set xs"
  shows "\<exists>t. page_decref s g = Inr t \<and> mem t = mem s \<and> npages t = npages s \<and>
    length (pages t) = length (pages s) \<and> kern_pgdir t = kern_pgdir s \<and>
    free_pages t (if pp_ref (pages s ! g) = 1 then g # xs else xs) \<and>
    (\<forall>i. pp_ref (pages t ! i) = pp_ref (pages s ! i) - of_bool (i = g))"
proof -
  let ?s = "s\<lparr>pages := (pages s)[g := (pages s ! g)\<lparr>pp_ref := pp_ref (pages s ! g) - 1\<rparr>]\<rparr>"
  have f: "free_pages ?s xs"
  proof -
    have "page_link ?s = page_link s"
      using assms(2) by (auto simp: page_link_def fun_eq_iff nth_list_update)
    then show ?thesis using assms(1) by (simp add: free_pages_def page_cap_def)
  qed
  show ?thesis
  proof (cases "pp_ref (pages s ! g) = 1")
    case True
    obtain t where t: "page_free ?s g = Inr t" using assms(2) by (simp add: page_free_def Let_def)
    then have "free_pages t (g # xs)"
      using f assms(3) pg.put_free [of ?s g t xs] by (simp add: page_put_eq free_pages_eq)
    with t True assms(2) show ?thesis
      by (simp add: page_decref_def Let_def) (auto simp: page_free_def Let_def nth_list_update)
  next
    case False
    with f assms(2) show ?thesis by (auto simp: page_decref_def Let_def nth_list_update)
  qed
qed

lemma page_remove_absent:
  assumes "pt_wf s D xs" "pdx va \<in> slots" "\<not> present (pt_entry s D va)"
  shows "page_remove s (pgdir_kva D) va = Inr s"
  using assms by (simp add: page_remove_def page_lookup_eq)

lemma page_remove_present:
  assumes wf: "pt_wf s D xs" and d: "pdx va \<in> slots" and p: "present (pt_entry s D va)"
    and rem: "removable s D xs va" and g: "g = frame_of (pt_entry s D va)"
    and ys: "ys = (if pp_ref (pages s ! g) = 1 then g # xs else xs)"
  shows "\<exists>t. page_remove s (pgdir_kva D) va = Inr t \<and> pt_wf t D ys \<and>
    (\<forall>va'. pdx va' \<in> slots \<longrightarrow> pt_entry t D va' = (if same_page va va' then 0 else pt_entry s D va')) \<and>
    (\<forall>e < 1024. table_at t D e = table_at s D e) \<and>
    (\<forall>i. pp_ref (pages t ! i) = pp_ref (pages s ! i) - of_bool (i = g)) \<and>
    length (pages t) = length (pages s) \<and> va \<in> set (invlpg_log t)"
proof -
  obtain f where f: "table_at s D (pdx va) = Some f" using p by (rule present_pt_entryE)
  have gl: "g < length (pages s)" "g \<notin> set xs" "g \<noteq> D" "g \<notin> tables s D"
    using rem p by (simp_all add: removable_def Let_def g)
  have lk: "page_lookup s (pgdir_kva D) va = Inr (Some (g, entry_pa f (ptx va) + KERNBASE))"
    using page_lookup_eq [OF wf d] p f pa2page_page2pa [OF pt_wfD(1) [OF wf] gl(1)]
    by (simp add: PTE_ADDR_frame g)
  obtain t where t: "page_decref s g = Inr t" "mem t = mem s" "npages t = npages s"
    "length (pages t) = length (pages s)" "free_pages t ys"
    "\<forall>i. pp_ref (pages t ! i) = pp_ref (pages s ! i) - of_bool (i = g)"
    using page_decref_eq [OF pt_wfD(3) [OF wf] gl(1,2)] unfolding ys by blast
  have nd: "D \<notin> set ys" "set ys \<inter> tables s D = {}"
    using gl pt_wfD(5) [OF wf] pt_wf_table [OF wf] by (auto simp: ys tables_def split: if_splits)
  have wft: "pt_wf t D ys" by (rule pt_wf_pages [OF wf t(2-5) nd])
  have ft: "table_at t D (pdx va) = Some f" using f by (simp add: table_at_mem [OF t(2)])
  let ?u = "t\<lparr>mem := store32 (mem t) (entry_pa f (ptx va)) 0\<rparr>"
  note st = leaf_store [OF wft d ft, of ?u 0, OF refl]
  let ?v = "tlb_invalidate ?u (pgdir_kva D) va"
  have "page_remove s (pgdir_kva D) va = Inr ?v"
    using lk t(1) by (simp add: page_remove_def kstore_entry del: KERNBASE_def)
  moreover have "pt_wf ?v D ys"
    using st(2) by (rule pt_wf_dir) simp_all
  moreover have "pt_entry ?v D va' = (if same_page va va' then 0 else pt_entry s D va')"
    if "pdx va' \<in> slots" for va'
    using st(3) [OF that] by (simp add: pt_entry_mem [OF t(2)])
  moreover have "table_at ?v D e = table_at s D e" if "e < 1024" for e
    using st(1) [OF that] by (simp add: table_at_mem [OF t(2)])
  ultimately show ?thesis using t(4,6) by (auto simp: tlb_invalidate_def)
qed

lemma page_incref_eq:
  assumes "pp < length (pages s)"
  shows "\<exists>t. page_incref s pp = Inr t \<and> mem t = mem s \<and> npages t = npages s \<and>
    length (pages t) = length (pages s) \<and> page_free_list t = page_free_list s \<and>
    page_link t = page_link s \<and>
    (\<forall>i. pp_ref (pages t ! i) = pp_ref (pages s ! i) + of_bool (i = pp))"
  using assms by (auto simp: page_incref_def page_link_def fun_eq_iff nth_list_update)

lemma present_iff_1: "present p \<longleftrightarrow> p AND PTE_P = 1"
  by (simp add: present_def) (metis and_one_eq not_mod_2_eq_0_eq_1)

text \<open>The part of \<open>page_insert\<close> after a successful walk.\<close>

definition insert_rest ::
  "u32 \<Rightarrow> nat \<Rightarrow> u32 \<Rightarrow> u32 \<Rightarrow> u32 \<Rightarrow> 'z pmap_state_scheme \<Rightarrow> fault + u32 \<times> 'z pmap_state_scheme" where
  "insert_rest pgdir pp va perm p s =
     bindr (page_incref s pp) (\<lambda>s.
     bindr (if kload s p AND PTE_P = 1 then page_remove s pgdir va else Inr s) (\<lambda>s.
     let s = kstore s p (page2pa pp OR perm OR PTE_P);
         s = kstore s (pgdir + 4 * PDX va) (kload s (pgdir + 4 * PDX va) OR perm)
     in Inr (0, s)))"

lemma page_insert_rest: "page_insert s pgdir pp va perm =
    bindr (pgdir_walk s pgdir va True) (\<lambda>(p, s).
      if p = NULL then Inr (- E_NO_MEM, s) else insert_rest pgdir pp va perm p s)"
  unfolding page_insert_def insert_rest_def by (rule refl)

text \<open>The free list and the reference counts after mapping \<open>pp\<close> at \<open>va\<close>.\<close>

definition freed_by_insert :: "'z pmap_state_scheme \<Rightarrow> nat \<Rightarrow> nat \<Rightarrow> u32 \<Rightarrow> nat list \<Rightarrow> nat list" where
  "freed_by_insert s D pp va xs =
     (let old = pt_entry s D va; g = frame_of old
      in if present old \<and> pp_ref (pages s ! g) + of_bool (g = pp) = 1 then g # xs else xs)"

definition ref_after_insert :: "'z pmap_state_scheme \<Rightarrow> nat \<Rightarrow> nat \<Rightarrow> u32 \<Rightarrow> nat \<Rightarrow> u16" where
  "ref_after_insert s D pp va i =
     (let old = pt_entry s D va
      in pp_ref (pages s ! i) + of_bool (i = pp) - of_bool (present old \<and> i = frame_of old))"

lemma insert_rest_maps:
  assumes wf: "pt_wf s D xs" and d: "pdx va \<in> slots" and f: "table_at s D (pdx va) = Some f"
    and pp: "pp < length (pages s)" and perm: "unat perm < 4096" and rem: "removable s D xs va"
  shows "\<exists>t. insert_rest (pgdir_kva D) pp va perm (entry_pa f (ptx va) + KERNBASE) s = Inr (0, t) \<and>
    pt_wf t D (freed_by_insert s D pp va xs) \<and>
    (\<forall>va'. pdx va' \<in> slots \<longrightarrow> pt_entry t D va' =
       (if same_page va va' then page2pa pp OR perm OR PTE_P else pt_entry s D va')) \<and>
    (\<forall>e < 1024. table_at t D e = table_at s D e) \<and>
    (\<forall>i. pp_ref (pages t ! i) = ref_after_insert s D pp va i) \<and> length (pages t) = length (pages s)"
proof -
  let ?p = "entry_pa f (ptx va) + KERNBASE" and ?dir = "pgdir_kva D"
  let ?w = "page2pa pp OR perm OR PTE_P"
  obtain s1 where s1: "page_incref s pp = Inr s1" "mem s1 = mem s" "npages s1 = npages s"
    "length (pages s1) = length (pages s)" "page_free_list s1 = page_free_list s" "page_link s1 = page_link s"
    "\<And>i. pp_ref (pages s1 ! i) = pp_ref (pages s ! i) + of_bool (i = pp)"
    using page_incref_eq [OF pp] by blast
  have fp: "free_pages s1 xs" using pt_wfD(3) [OF wf] s1(4-6) by (simp add: free_pages_def page_cap_def)
  have wf1: "pt_wf s1 D xs"
    using pt_wfD(5) [OF wf] pt_wf_table [OF wf]
    by (intro pt_wf_pages [OF wf s1(2-4) fp]) (auto simp: tables_def)
  note e1 = pt_entry_mem [OF s1(2)] and t1 = table_at_mem [OF s1(2)]
  have rem1: "removable s1 D xs va"
    using rem by (simp add: removable_def e1 s1(4) tables_def t1)
  have old: "kload s1 ?p = pt_entry s D va"
    using f e1 [of D va] by (simp add: kload_entry pt_entry_def t1 del: KERNBASE_def)
  obtain s2 where s2: "(if kload s1 ?p AND PTE_P = 1 then page_remove s1 ?dir va else Inr s1) = Inr s2"
      "pt_wf s2 D (freed_by_insert s D pp va xs)" "length (pages s2) = length (pages s)"
      "\<And>va'. pdx va' \<in> slots \<Longrightarrow> \<not> same_page va va' \<Longrightarrow> pt_entry s2 D va' = pt_entry s D va'"
      "\<And>e. e < 1024 \<Longrightarrow> table_at s2 D e = table_at s D e"
      "\<And>i. pp_ref (pages s2 ! i) = ref_after_insert s D pp va i"
  proof (cases "present (pt_entry s D va)")
    case True
    let ?g = "frame_of (pt_entry s D va)"
    have p1: "present (pt_entry s1 D va)" using True by (simp add: e1)
    have ys: "freed_by_insert s D pp va xs = (if pp_ref (pages s1 ! ?g) = 1 then ?g # xs else xs)"
      using True by (simp add: freed_by_insert_def Let_def s1(7))
    have r: "ref_after_insert s D pp va i = pp_ref (pages s1 ! i) - of_bool (i = ?g)" for i
      using True by (simp add: ref_after_insert_def Let_def s1(7))
    obtain t where "page_remove s1 ?dir va = Inr t" "pt_wf t D (freed_by_insert s D pp va xs)"
      "\<forall>va'. pdx va' \<in> slots \<longrightarrow> pt_entry t D va' = (if same_page va va' then 0 else pt_entry s1 D va')"
      "\<forall>e < 1024. table_at t D e = table_at s1 D e" "length (pages t) = length (pages s1)"
      "\<forall>i. pp_ref (pages t ! i) = ref_after_insert s D pp va i"
      using page_remove_present [OF wf1 d p1 rem1, of ?g] unfolding ys r e1 by blast
    then show thesis
      using True that [of t] old present_iff_1 s1(4) by (simp add: e1 t1)
  next
    case False
    then have "freed_by_insert s D pp va xs = xs" "ref_after_insert s D pp va i = pp_ref (pages s1 ! i)" for i
      by (simp_all add: freed_by_insert_def ref_after_insert_def Let_def s1(7))
    then show thesis
      using False that [of s1] wf1 old present_iff_1 s1(4) by (simp add: e1 t1)
  qed
  have f2: "table_at s2 D (pdx va) = Some f" using s2(5) f by simp
  let ?s3 = "s2\<lparr>mem := store32 (mem s2) (entry_pa f (ptx va)) ?w\<rparr>"
  note st3 = leaf_store [OF s2(2) d f2, of ?s3 ?w, OF refl]
  have D: "D < 0x100000" using pt_wf_bound [OF wf pt_wfD(4) [OF wf]] by simp
  have p3: "present (entry ?s3 D (pdx va))"
    using st3(1) [of "pdx va"] f2 by (auto simp: table_at_def split: if_splits)
  let ?s4 = "?s3\<lparr>mem := store32 (mem ?s3) (entry_pa D (pdx va)) (entry ?s3 D (pdx va) OR perm)\<rparr>"
  note st4 = dir_store [OF st3(2) _ p3 perm, of ?s4, OF _ refl]
  have "insert_rest ?dir pp va perm ?p s = Inr (0, ?s4)"
    using s1(1) s2(1)
    by (simp add: insert_rest_def Let_def kstore_entry kstore_dir [OF D] kload_dir [OF D] del: KERNBASE_def)
  moreover have "pt_entry ?s4 D va' = (if same_page va va' then ?w else pt_entry s D va')" if "pdx va' \<in> slots" for va'
    using st4(2) [of va'] st3(3) [of va'] s2(4) [of va'] that by simp
  moreover have "table_at ?s4 D e = table_at s D e" if "e < 1024" for e
    using st4(3) [OF _ that] st3(1) [OF that] s2(5) [OF that] by simp
  ultimately show ?thesis using st4(1) s2(3,6) by auto
qed

section \<open>What mapping and unmapping guarantee\<close>

lemma check_va2pa_eq:
  assumes wf: "pt_wf s D xs" and d: "pdx va \<in> slots"
  shows "check_va2pa s (pgdir_kva D) va =
    Inr (if present (pt_entry s D va) then PTE_ADDR (pt_entry s D va) else NOT 0)"
proof -
  have D: "D < 0x100000" using pt_wf_bound [OF wf pt_wfD(4) [OF wf]] by simp
  show ?thesis
  proof (cases "table_at s D (pdx va)")
    case None
    then show ?thesis
      by (auto simp: check_va2pa_def Let_def kload_dir [OF D] pt_entry_def table_at_def present_def
          split: if_splits)
  next
    case (Some f)
    then have f: "f < length (pages s)" "f < 0x100000"
      using pt_wf_table [OF wf d Some] pt_wf_bound [OF wf, of f] by auto
    have p: "entry s D (pdx va) AND PTE_P \<noteq> 0" "frame_of (entry s D (pdx va)) = f"
      using Some by (auto simp: table_at_def present_def split: if_splits)
    have "page2pa f + KERNBASE + 4 * PTX va = entry_pa f (ptx va) + KERNBASE"
      using entry_pa_PTX [OF f(2), of va] by (simp add: ptx_def algebra_simps)
    then have "kload s (page2pa f + KERNBASE + 4 * PTX va) = entry s f (ptx va)"
      by (simp only: kload_entry)
    then show ?thesis
      using p KADDR_table [OF pt_wfD(1) [OF wf] f(1) p(2)] Some
      by (simp add: check_va2pa_def Let_def kload_dir [OF D] pt_entry_def present_def
          del: KERNBASE_def)
  qed
qed

lemma page_insert_update:
  assumes wf: "pt_wf s D xs" and d: "pdx va \<in> slots" and pp: "pp < length (pages s)"
    and perm: "unat perm < 4096" and rem: "removable s D xs va"
    and mem: "table_at s D (pdx va) \<noteq> None \<or> xs \<noteq> []"
  shows "\<exists>t. page_insert s (pgdir_kva D) pp va perm = Inr (0, t) \<and>
    pt_wf t D (if table_at s D (pdx va) = None then tl xs else freed_by_insert s D pp va xs) \<and>
    (\<forall>va'. pdx va' \<in> slots \<longrightarrow> pt_entry t D va' =
       (if same_page va va' then page2pa pp OR perm OR PTE_P else pt_entry s D va')) \<and>
    (\<forall>e < 1024. table_at t D e =
       (if e = pdx va \<and> table_at s D e = None then Some (hd xs) else table_at s D e)) \<and>
    (\<forall>i. pp_ref (pages t ! i) = ref_after_insert s D pp va i +
       of_bool (table_at s D (pdx va) = None \<and> i = hd xs)) \<and> length (pages t) = length (pages s)"
proof (cases "table_at s D (pdx va)")
  case (Some f)
  then have f: "f < length (pages s)" "f < 0x10000"
    using pt_wf_table [OF wf d Some] pt_wf_bound [OF wf, of f] by auto
  then show ?thesis
    using insert_rest_maps [OF wf d Some pp perm rem] Some table_kva_nonnull [OF f(2), of "ptx va"]
      walk_present [OF pt_wfD(1,4) [OF wf] Some f(1), of True]
    by (auto simp: page_insert_rest simp del: KERNBASE_def)
next
  case None
  with mem obtain x ys where xs: "xs = x # ys" by (cases xs) auto
  note wfx = wf [unfolded xs]
  note x = free_pages_Cons [OF pt_wfD(3) [OF wfx]]
  have b: "x < 0x10000" "x < 0x100000" "D < 0x100000" "D \<noteq> x"
    using pt_wf_bound [OF wf x(2)] pt_wf_bound [OF wf pt_wfD(4) [OF wf]] pt_wfD(5) [OF wfx] by auto
  let ?t = "new_table_state s D (pdx va) x"
  have old: "pt_entry s D va = 0" using None by (simp add: pt_entry_def)
  have wft: "pt_wf ?t D ys" by (rule new_table_wf [OF wfx d None])
  have ft: "table_at ?t D (pdx va) = Some x" using b by (simp add: new_table_at)
  have ent: "pt_entry ?t D va' = pt_entry s D va'" if "pdx va' \<in> slots" for va'
    by (rule pt_entry_other_table [OF wfx d None that])
  have remt: "removable ?t D ys va" using ent [OF d] old by (simp add: removable_def)
  have len: "length (pages ?t) = length (pages s)" by (simp add: new_table_state_def)
  have ref: "ref_after_insert ?t D pp va i =
      ref_after_insert s D pp va i + of_bool (i = x)" for i
    using ent [OF d] old x(2) by (simp add: ref_after_insert_def Let_def) (simp add: new_table_state_def nth_list_update)
  have fr: "freed_by_insert ?t D pp va ys = ys" using ent [OF d] old by (simp add: freed_by_insert_def)
  obtain u where u: "insert_rest (pgdir_kva D) pp va perm (entry_pa x (ptx va) + KERNBASE) ?t = Inr (0, u)"
    "pt_wf u D ys"
    "\<And>va'. pdx va' \<in> slots \<Longrightarrow> pt_entry u D va' =
       (if same_page va va' then page2pa pp OR perm OR PTE_P else pt_entry ?t D va')"
    "\<And>e. e < 1024 \<Longrightarrow> table_at u D e = table_at ?t D e"
    "\<And>i. pp_ref (pages u ! i) = ref_after_insert s D pp va i + of_bool (i = x)" "length (pages u) = length (pages s)"
    using insert_rest_maps [OF wft d ft _ perm remt, of pp] pp len unfolding ref fr by auto
  have "page_insert s (pgdir_kva D) pp va perm = Inr (0, u)"
    using u(1) walk_create [OF pt_wfD(1,3) [OF wfx] pt_wfD(4) [OF wf] None] table_kva_nonnull [OF b(1), of "ptx va"]
    by (simp add: page_insert_rest del: KERNBASE_def)
  moreover have "table_at u D e = (if e = pdx va \<and> table_at s D e = None then Some (hd xs) else table_at s D e)"
    if "e < 1024" for e
    using u(4) [OF that] that b None xs by (simp add: new_table_at)
  ultimately show ?thesis using u ent None xs by auto
qed

text \<open>C6: \<open>page_insert\<close> is an update of the address space at one page. When a page table for
  \<open>va\<close> exists or can be allocated, it succeeds; the entry of \<open>va\<close> is then the page's address
  with \<open>perm | PTE_P\<close>, the entry of every address on another page is what it was (in user
  space and in the kernel half alike), and the directory stays well formed, with one new page
  table when none was there. The counts say
  that \<open>pp\<close> gained a reference, the page mapped there before lost one (re-inserting the
  same page leaves its count as it was) and a new page table has one; a page whose count
  became 0 is back on the free list.\<close>

theorem page_insert_maps:
  assumes wf: "pt_wf s D xs" and d: "pdx va \<in> slots" and pp: "pp < length (pages s)"
    and perm: "unat perm < 4096" and rem: "removable s D xs va"
    and mem: "table_at s D (pdx va) \<noteq> None \<or> xs \<noteq> []"
  shows "\<exists>t. page_insert s (pgdir_kva D) pp va perm = Inr (0, t) \<and>
    pt_wf t D (if table_at s D (pdx va) = None then tl xs else freed_by_insert s D pp va xs) \<and>
    (\<forall>va'. pdx va' \<in> slots \<longrightarrow> pt_entry t D va' =
       (if same_page va va' then page2pa pp OR perm OR PTE_P else pt_entry s D va')) \<and>
    (\<forall>e < 1024. table_at t D e =
       (if e = pdx va \<and> table_at s D e = None then Some (hd xs) else table_at s D e)) \<and>
    (\<forall>i. pp_ref (pages t ! i) = ref_after_insert s D pp va i +
       of_bool (table_at s D (pdx va) = None \<and> i = hd xs)) \<and> length (pages t) = length (pages s)"
  using assms by (rule page_insert_update)

text \<open>A machine of four pages for the witnesses: page 3 holds an empty directory, pages 2 and
  1 are free, page 0 is in use.\<close>

definition demo :: pmap_state where
  "demo = small_pages\<lparr>mem := (\<lambda>_. 0)\<rparr>"

lemma demo_entry: "entry demo f i = 0"
  by (simp add: demo_def entry_def load32_def)

lemma demo_wf: "pt_wf demo 3 [2, 1]"
proof -
  have "table_at demo 3 d = None" for d by (simp add: table_at_def demo_entry)
  then show ?thesis
    using small_pages_ok by (simp add: pt_wf_def demo_def small_pages_def pages_wf_def free_pages_def
        page_link_def page_cap_def)
qed

lemma demo_va: "pdx 0x800000 \<in> slots"
  by (simp add: pdx_def slots_def unat_PDX)

lemma demo_removable: "removable demo 3 xs va"
  by (simp add: removable_def pt_entry_def table_at_def demo_entry)

theorem page_insert_maps_witness:
  "\<exists>t. page_insert demo (pgdir_kva 3) 0 0x800000 (PTE_U OR PTE_W) = Inr (0, t) \<and> pt_wf t 3 [1] \<and>
     pt_entry t 3 0x800000 = 7 \<and> pp_ref (pages t ! 0) = 2 \<and> pp_ref (pages t ! 2) = 1"
proof -
  have n: "table_at demo 3 d = None" for d by (simp add: table_at_def demo_entry)
  have p: "0 < length (pages demo)" "unat (PTE_U OR PTE_W) < 4096" by (simp_all add: demo_def small_pages_def)
  obtain t where t: "page_insert demo (pgdir_kva 3) 0 0x800000 (PTE_U OR PTE_W) = Inr (0, t)"
    "pt_wf t 3 (tl [2, 1])"
    "\<forall>va'. pdx va' \<in> slots \<longrightarrow> pt_entry t 3 va' =
       (if same_page 0x800000 va' then page2pa 0 OR (PTE_U OR PTE_W) OR PTE_P else pt_entry demo 3 va')"
    "\<forall>i. pp_ref (pages t ! i) = ref_after_insert demo 3 0 0x800000 i + of_bool (i = hd [2, 1])"
    using page_insert_maps [OF demo_wf demo_va p demo_removable] unfolding n by auto
  moreover have "pt_entry t 3 0x800000 = 7"
    using t(3) demo_va by (simp add: page2pa_def)
  moreover have "ref_after_insert demo 3 0 0x800000 i = pp_ref (pages demo ! i) + of_bool (i = 0)" for i
    by (simp add: ref_after_insert_def pt_entry_def n)
  ultimately show ?thesis
    by (intro exI [of _ t]) (simp add: demo_def small_pages_def)
qed

text \<open>C37: Without a page table for \<open>va\<close> and without a free page, \<open>page_insert\<close> returns
  \<open>-E_NO_MEM\<close> and changes nothing, not even the page's reference count.\<close>

theorem page_insert_no_mem:
  assumes "pt_wf s D []" "table_at s D (pdx va) = None"
  shows "page_insert s (pgdir_kva D) pp va perm = Inr (- E_NO_MEM, s)"
proof -
  have "page_free_list s = None" using pt_wfD(3) [OF assms(1)] by (simp add: free_pages_def)
  then show ?thesis
    using walk_absent(2) [OF pt_wfD(1,4) [OF assms(1)] assms(2)] by (simp add: page_insert_rest)
qed

definition demo_full :: pmap_state where
  "demo_full = demo\<lparr>page_free_list := None\<rparr>"

lemma demo_full_wf: "pt_wf demo_full 3 []" "table_at demo_full 3 d = None"
proof -
  have e: "entry demo_full f i = 0" for f i
    by (simp add: demo_full_def demo_def entry_def load32_def)
  then show n: "table_at demo_full 3 d = None" for d by (simp add: table_at_def)
  then show "pt_wf demo_full 3 []"
    by (simp add: pt_wf_def) (simp add: demo_full_def demo_def small_pages_def pages_wf_def free_pages_def)
qed

theorem page_insert_no_mem_witness:
  "page_insert demo_full (pgdir_kva 3) 0 0x800000 PTE_W = Inr (- E_NO_MEM, demo_full)"
  by (rule page_insert_no_mem) (rule demo_full_wf)+

text \<open>A page is found where it was mapped: after a successful \<open>page_insert\<close>,
  \<open>page_lookup\<close> returns the page and \<open>check_va2pa\<close> its physical address, for every address
  on the page.\<close>

theorem page_insert_lookup:
  assumes wf: "pt_wf s D xs" and d: "pdx va \<in> slots" and pp: "pp < length (pages s)"
    and perm: "unat perm < 4096" and rem: "removable s D xs va"
    and mem: "table_at s D (pdx va) \<noteq> None \<or> xs \<noteq> []" and va': "same_page va va'"
  shows "\<exists>t p. page_insert s (pgdir_kva D) pp va perm = Inr (0, t) \<and>
    page_lookup t (pgdir_kva D) va' = Inr (Some (pp, p)) \<and>
    kload t p = page2pa pp OR perm OR PTE_P \<and>
    check_va2pa t (pgdir_kva D) va' = Inr (page2pa pp)"
proof -
  obtain t ys where t: "page_insert s (pgdir_kva D) pp va perm = Inr (0, t)" "pt_wf t D ys"
    "\<forall>va'. pdx va' \<in> slots \<longrightarrow> pt_entry t D va' =
       (if same_page va va' then page2pa pp OR perm OR PTE_P else pt_entry s D va')"
    "length (pages t) = length (pages s)"
    using page_insert_update [OF assms(1-6)] by blast
  have d': "pdx va' \<in> slots" using va' d by (simp add: same_page_iff)
  have e: "pt_entry t D va' = page2pa pp OR perm OR PTE_P" using t(3) d' va' by simp
  have p: "present (pt_entry t D va')" by (simp add: e) (simp add: present_def)
  have ppb: "pp < 0x100000" using pt_wf_bound [OF wf pp] by simp
  have fr: "frame_of (pt_entry t D va') = pp"
    unfolding e using ppb by (rule frame_of_or_low) (rule or_low [OF perm], simp)
  have "pa2page t (page2pa pp) = Inr pp"
    using pt_wfD(1) [OF t(2)] t(4) pp by (intro pa2page_page2pa) simp_all
  then have lk: "page_lookup t (pgdir_kva D) va' =
      Inr (Some (pp, entry_pa (the (table_at t D (pdx va'))) (ptx va') + KERNBASE))"
    using page_lookup_eq [OF t(2) d'] p by (simp add: PTE_ADDR_frame fr)
  moreover have "kload t (entry_pa (the (table_at t D (pdx va'))) (ptx va') + KERNBASE) = pt_entry t D va'"
    using p by (auto simp: kload_entry simp del: KERNBASE_def elim: present_pt_entryE)
  moreover have "check_va2pa t (pgdir_kva D) va' = Inr (page2pa pp)"
    using check_va2pa_eq [OF t(2) d'] p by (simp add: PTE_ADDR_frame fr)
  ultimately show ?thesis using t(1) e by auto
qed

theorem page_insert_lookup_witness:
  "\<exists>t p. page_insert demo (pgdir_kva 3) 0 0x800000 PTE_U = Inr (0, t) \<and>
     page_lookup t (pgdir_kva 3) 0x800123 = Inr (Some (0, p)) \<and> kload t p = 5"
proof -
  have "0 < length (pages demo)" "same_page 0x800000 0x800123"
    by (simp_all add: demo_def small_pages_def same_page_def PGNUM_def)
  from page_insert_lookup [OF demo_wf demo_va this(1) _ demo_removable _ this(2), of PTE_U]
  show ?thesis by (auto simp: page2pa_def)
qed

text \<open>C14: \<open>page_remove\<close> unmaps exactly one page: nothing happens when no page is mapped at
  \<open>va\<close>; otherwise its entry becomes 0, the TLB entry of \<open>va\<close> is invalidated, the page loses
  one reference and goes back to the free list when that was the last one, and every other
  page stays mapped as it was.\<close>

theorem page_remove_unmaps:
  assumes wf: "pt_wf s D xs" and d: "pdx va \<in> slots" and rem: "removable s D xs va"
  shows "\<exists>t. page_remove s (pgdir_kva D) va = Inr t \<and>
    (\<not> present (pt_entry s D va) \<longrightarrow> t = s) \<and>
    (present (pt_entry s D va) \<longrightarrow>
      pt_entry t D va = 0 \<and> va \<in> set (invlpg_log t) \<and>
      (let g = frame_of (pt_entry s D va) in
        pp_ref (pages t ! g) = pp_ref (pages s ! g) - 1 \<and>
        pt_wf t D (if pp_ref (pages s ! g) = 1 then g # xs else xs))) \<and>
    (\<forall>va'. pdx va' \<in> slots \<longrightarrow> \<not> same_page va va' \<longrightarrow> pt_entry t D va' = pt_entry s D va')"
proof (cases "present (pt_entry s D va)")
  case True
  then show ?thesis
    using page_remove_present [OF wf d True rem refl refl] d by (auto simp: Let_def)
next
  case False
  then show ?thesis using page_remove_absent [OF wf d False] by auto
qed

text \<open>The same machine with page 1 mapped at \<open>0x800000\<close> through a table in page 2.\<close>

definition demo_mapped :: pmap_state where
  "demo_mapped = demo\<lparr>mem := store32 (store32 (\<lambda>_. 0) (entry_pa 3 2) 0x2007) (entry_pa 2 0) 0x1007,
     page_free_list := None, pages := replicate 4 \<lparr>pp_link = None, pp_ref = 1\<rparr>\<rparr>"

lemma demo_mapped_entry:
  assumes "f < 0x100000" "i < 1024"
  shows "entry demo_mapped f i = (if f = 2 \<and> i = 0 then 0x1007 else if f = 3 \<and> i = 2 then 0x2007 else 0)"
proof -
  have "load32 (\<lambda>_. 0) a = 0" for a by (simp add: load32_def)
  then show ?thesis using assms by (auto simp: demo_mapped_def entry_def load32_entry)
qed

lemma demo_mapped_table: "d < 1024 \<Longrightarrow> table_at demo_mapped 3 d = (if d = 2 then Some 2 else None)"
  by (simp add: table_at_def demo_mapped_entry) (simp add: present_def frame_of_def PGNUM_def)

lemma demo_mapped_wf: "pt_wf demo_mapped 3 []"
  by (simp add: pt_wf_def slots_less demo_mapped_table)
    (simp add: demo_mapped_def demo_def small_pages_def pages_wf_def free_pages_def)

lemma demo_mapped_pt: "pt_entry demo_mapped 3 0x800000 = 0x1007"
  by (simp add: pt_entry_def demo_mapped_table demo_mapped_entry) (simp add: pdx_def ptx_def mmu_simps)

lemma demo_mapped_removable: "removable demo_mapped 3 [] 0x800000"
proof -
  have "tables demo_mapped 3 \<subseteq> {2}"
    by (auto simp: tables_def demo_mapped_table slots_less split: if_splits)
  moreover have "frame_of 0x1007 = 1" "length (pages demo_mapped) = 4"
    by (simp_all add: frame_of_def PGNUM_def demo_mapped_def)
  ultimately show ?thesis by (auto simp: removable_def demo_mapped_pt)
qed

theorem page_remove_unmaps_witness:
  "\<exists>t. page_remove demo_mapped (pgdir_kva 3) 0x800000 = Inr t \<and> pt_entry t 3 0x800000 = 0 \<and>
     pp_ref (pages t ! 1) = 0 \<and> pt_wf t 3 [1]"
proof -
  have "present (0x1007 :: u32)" "frame_of 0x1007 = 1" "pp_ref (pages demo_mapped ! 1) = 1"
    by (simp_all add: present_def frame_of_def PGNUM_def demo_mapped_def)
  with page_remove_unmaps [OF demo_mapped_wf demo_va demo_mapped_removable]
  show ?thesis by (auto simp: demo_mapped_pt Let_def)
qed

end
