(* ===== verification/Frame.thy ===== *)
theory Frame
  imports Page_Table
begin

text \<open>
  The frame of the page operations: which parts of the state no operation of \<open>kern/pmap.c\<close>
  on pages and page tables touches. The environment code relies on it for the fields it
  adds to the state.
\<close>

section \<open>What the page operations leave alone\<close>

text \<open>Everything but memory, the page array, the free list and the TLB, in particular every
  field a component adds to the state.\<close>

definition same_rest :: "'z pmap_state_scheme \<Rightarrow> 'z pmap_state_scheme \<Rightarrow> bool" where
  "same_rest s t \<longleftrightarrow> pmap_state.more t = pmap_state.more s \<and> npages t = npages s \<and>
     npages_basemem t = npages_basemem s \<and> kern_pgdir t = kern_pgdir s \<and> nextfree t = nextfree s \<and>
     user_mem_check_addr t = user_mem_check_addr s \<and> cr3 t = cr3 s \<and>
     length (pages t) = length (pages s)"

lemma same_rest_refl [simp]: "same_rest s s"
  by (simp add: same_rest_def)

lemma same_rest_trans [trans]: "same_rest s t \<Longrightarrow> same_rest t u \<Longrightarrow> same_rest s u"
  by (simp add: same_rest_def)

lemma same_rest_updates [simp]:
  "same_rest s (t\<lparr>mem := m\<rparr>) \<longleftrightarrow> same_rest s t"
  "same_rest s (t\<lparr>page_free_list := p\<rparr>) \<longleftrightarrow> same_rest s t"
  "same_rest s (t\<lparr>pages := (pages t)[i := q]\<rparr>) \<longleftrightarrow> same_rest s t"
  "same_rest (s\<lparr>pages := (pages s)[i := q]\<rparr>) t \<longleftrightarrow> same_rest s t"
  "same_rest s (kstore t a v) \<longleftrightarrow> same_rest s t"
  "same_rest s (tlb_invalidate t a v) \<longleftrightarrow> same_rest s t"
  by (simp_all add: same_rest_def kstore_def tlb_invalidate_def)

lemma page_incref_rest: "page_incref s i = Inr t \<Longrightarrow> same_rest s t"
  by (auto simp: page_incref_def split: if_splits)

lemma page_free_rest: "page_free s i = Inr t \<Longrightarrow> same_rest s t"
  by (auto simp: page_free_def Let_def split: if_splits)

lemma page_decref_rest: "page_decref s i = Inr t \<Longrightarrow> same_rest s t"
  by (auto simp: page_decref_def Let_def split: if_splits dest!: page_free_rest)

lemma page_alloc_rest: "page_alloc s f = Inr (r, t) \<Longrightarrow> same_rest s t"
  by (cases r) (auto simp: page_alloc_def same_rest_def Let_def bindr_eq_Inr split: option.splits if_splits)

lemma pgdir_walk_rest: "pgdir_walk s d va c = Inr (p, t) \<Longrightarrow> same_rest s t"
  by (auto simp: pgdir_walk_def Let_def bindr_eq_Inr split: if_splits option.splits
      dest!: page_alloc_rest page_incref_rest; blast intro: same_rest_trans)

lemma page_remove_rest: "page_remove s d va = Inr t \<Longrightarrow> same_rest s t"
  by (auto simp: page_remove_def bindr_eq_Inr split: option.splits dest!: page_decref_rest)

lemma page_insert_rest_same: "page_insert s d pp va perm = Inr (r, t) \<Longrightarrow> same_rest s t"
  by (auto simp: page_insert_def Let_def bindr_eq_Inr split: if_splits
      dest!: pgdir_walk_rest page_incref_rest page_remove_rest; blast intro: same_rest_trans)

text \<open>An entry depends on the memory of its own page only.\<close>

lemma entry_frame:
  assumes "\<And>a. unat a div 4096 = g \<Longrightarrow> mem t a = mem s a" "g < 0x100000" "j < 1024"
  shows "entry t g j = entry s g j"
proof -
  have "mem t (entry_pa g j + of_nat k) = mem s (entry_pa g j + of_nat k)" if "k < 4" for k
  proof -
    have l: "4 * j + k < 4096" using assms that by simp
    then have "unat (of_nat (4096 * g + (4 * j + k)) :: u32) = 4096 * g + (4 * j + k)"
      using assms(2) by (intro unat_of_nat_u32) simp
    then have "unat (entry_pa g j + of_nat k) div 4096 = g" using l unfolding entry_pa_plus by simp
    then show ?thesis by (rule assms(1))
  qed
  from this [of 0] this [of 1] this [of 2] this [of 3] show ?thesis by (simp add: entry_def load32_def)
qed

end
