(* ===== verification/Descriptors.thy ===== *)
theory Descriptors
  imports Mmu
begin

text \<open>
  Segment and gate descriptors: the bit-field structures and initialiser macros of
  \<open>inc/mmu.h\<close>, the global descriptor table of \<open>kern/env.c\<close>, and the interrupt descriptor
  table and task state segment that \<open>trap_init\<close> and \<open>trap_init_percpu\<close> of \<open>kern/trap.c\<close>
  set up. A bit field is the word of its width, so an initialiser truncates as C does.

  The lemmas read a descriptor back the way the processor does and show that the macros
  encode what they are given; the properties say which interrupt vectors are installed and
  which of them user code may invoke.
\<close>

section \<open>Segment descriptors\<close>

record Segdesc =
  sd_lim_15_0 :: "16 word"
  sd_base_15_0 :: "16 word"
  sd_base_23_16 :: "8 word"
  sd_type :: "4 word"
  sd_s :: "1 word"
  sd_dpl :: "2 word"
  sd_p :: "1 word"
  sd_lim_19_16 :: "4 word"
  sd_avl :: "1 word"
  sd_rsv1 :: "1 word"
  sd_db :: "1 word"
  sd_g :: "1 word"
  sd_base_31_24 :: "8 word"

definition SEG_NULL :: Segdesc where
  "SEG_NULL = \<lparr>sd_lim_15_0 = 0, sd_base_15_0 = 0, sd_base_23_16 = 0, sd_type = 0, sd_s = 0,
     sd_dpl = 0, sd_p = 0, sd_lim_19_16 = 0, sd_avl = 0, sd_rsv1 = 0, sd_db = 0, sd_g = 0,
     sd_base_31_24 = 0\<rparr>"

definition SEG_FAULT :: Segdesc where
  "SEG_FAULT = \<lparr>sd_lim_15_0 = 0, sd_base_15_0 = 0, sd_base_23_16 = 0, sd_type = 0, sd_s = 1,
     sd_dpl = 0, sd_p = 1, sd_lim_19_16 = 0, sd_avl = 0, sd_rsv1 = 0, sd_db = 1, sd_g = 0,
     sd_base_31_24 = 0\<rparr>"

definition SEG :: "u32 \<Rightarrow> u32 \<Rightarrow> u32 \<Rightarrow> u32 \<Rightarrow> Segdesc" where
  "SEG type' base lim dpl =
     \<lparr>sd_lim_15_0 = ucast (drop_bit 12 lim AND 0xffff), sd_base_15_0 = ucast (base AND 0xffff),
      sd_base_23_16 = ucast (drop_bit 16 base AND 0xff), sd_type = ucast type', sd_s = 1,
      sd_dpl = ucast dpl, sd_p = 1, sd_lim_19_16 = ucast (drop_bit 28 lim), sd_avl = 0,
      sd_rsv1 = 0, sd_db = 1, sd_g = 1, sd_base_31_24 = ucast (drop_bit 24 base)\<rparr>"

definition SEG16 :: "u32 \<Rightarrow> u32 \<Rightarrow> u32 \<Rightarrow> u32 \<Rightarrow> Segdesc" where
  "SEG16 type' base lim dpl =
     \<lparr>sd_lim_15_0 = ucast (lim AND 0xffff), sd_base_15_0 = ucast (base AND 0xffff),
      sd_base_23_16 = ucast (drop_bit 16 base AND 0xff), sd_type = ucast type', sd_s = 1,
      sd_dpl = ucast dpl, sd_p = 1, sd_lim_19_16 = ucast (drop_bit 16 lim), sd_avl = 0,
      sd_rsv1 = 0, sd_db = 1, sd_g = 0, sd_base_31_24 = ucast (drop_bit 24 base)\<rparr>"

definition STA_X :: u32 where [simp]: "STA_X = 0x8"
definition STA_W :: u32 where [simp]: "STA_W = 0x2"
definition STA_R :: u32 where [simp]: "STA_R = 0x2"
definition STS_T32A :: u32 where [simp]: "STS_T32A = 0x9"
definition STS_IG32 :: u32 where [simp]: "STS_IG32 = 0xE"
definition STS_TG32 :: u32 where [simp]: "STS_TG32 = 0xF"

definition GD_KT :: u32 where [simp]: "GD_KT = 0x08"
definition GD_KD :: u32 where [simp]: "GD_KD = 0x10"
definition GD_UT :: u32 where [simp]: "GD_UT = 0x18"
definition GD_UD :: u32 where [simp]: "GD_UD = 0x20"
definition GD_TSS0 :: u32 where [simp]: "GD_TSS0 = 0x28"

text \<open>The table of \<open>kern/env.c\<close>, before \<open>trap_init_percpu\<close> fills its last slot.\<close>

definition gdt_init :: "Segdesc list" where
  "gdt_init = (replicate 6 SEG_NULL)
     [unat (drop_bit 3 GD_KT) := SEG (STA_X OR STA_R) 0 0xffffffff 0,
      unat (drop_bit 3 GD_KD) := SEG STA_W 0 0xffffffff 0,
      unat (drop_bit 3 GD_UT) := SEG (STA_X OR STA_R) 0 0xffffffff 3,
      unat (drop_bit 3 GD_UD) := SEG STA_W 0 0xffffffff 3,
      unat (drop_bit 3 GD_TSS0) := SEG_NULL]"

section \<open>Gate descriptors\<close>

record Gatedesc =
  gd_off_15_0 :: "16 word"
  gd_sel :: "16 word"
  gd_args :: "5 word"
  gd_rsv1 :: "3 word"
  gd_type :: "4 word"
  gd_s :: "1 word"
  gd_dpl :: "2 word"
  gd_p :: "1 word"
  gd_off_31_16 :: "16 word"

definition SETGATE :: "bool \<Rightarrow> u32 \<Rightarrow> u32 \<Rightarrow> u32 \<Rightarrow> Gatedesc" where
  "SETGATE istrap sel off dpl =
     \<lparr>gd_off_15_0 = ucast (off AND 0xffff), gd_sel = ucast sel, gd_args = 0, gd_rsv1 = 0,
      gd_type = ucast (if istrap then STS_TG32 else STS_IG32), gd_s = 0, gd_dpl = ucast dpl,
      gd_p = 1, gd_off_31_16 = ucast (drop_bit 16 off)\<rparr>"

text \<open>The zero entry of \<open>idt[256] = { { 0 } }\<close>.\<close>

definition gate_zero :: Gatedesc where
  "gate_zero = \<lparr>gd_off_15_0 = 0, gd_sel = 0, gd_args = 0, gd_rsv1 = 0, gd_type = 0, gd_s = 0,
     gd_dpl = 0, gd_p = 0, gd_off_31_16 = 0\<rparr>"

section \<open>Reading a descriptor as the processor does\<close>

definition seg_base :: "Segdesc \<Rightarrow> u32" where
  "seg_base d = ucast (sd_base_15_0 d) OR push_bit 16 (ucast (sd_base_23_16 d)) OR
     push_bit 24 (ucast (sd_base_31_24 d))"

definition seg_raw_limit :: "Segdesc \<Rightarrow> u32" where
  "seg_raw_limit d = ucast (sd_lim_15_0 d) OR push_bit 16 (ucast (sd_lim_19_16 d))"

text \<open>With the granularity bit set the limit counts 4-kilobyte units and its low twelve bits
  are ones.\<close>

definition seg_limit :: "Segdesc \<Rightarrow> u32" where
  "seg_limit d = (if sd_g d = 1 then push_bit 12 (seg_raw_limit d) OR 0xfff else seg_raw_limit d)"

definition gate_offset :: "Gatedesc \<Rightarrow> u32" where
  "gate_offset g = ucast (gd_off_15_0 g) OR push_bit 16 (ucast (gd_off_31_16 g))"

lemma mask_bits: "(0xffff :: u32) = mask 16" "(0xff :: u32) = mask 8" "(0xfff :: u32) = mask 12"
  by (simp_all add: mask_eq_exp_minus_1)

lemma join_base:
  "(ucast (ucast (x AND 0xffff) :: 16 word) :: u32) OR
     push_bit 16 (ucast (ucast (drop_bit 16 x AND 0xff) :: 8 word)) OR
     push_bit 24 (ucast (ucast (drop_bit 24 x) :: 8 word)) = x"
  unfolding mask_bits
proof (rule bit_word_eqI)
  show "bit ((ucast (ucast (x AND mask 16) :: 16 word) :: u32) OR
     push_bit 16 (ucast (ucast (drop_bit 16 x AND mask 8) :: 8 word)) OR
     push_bit 24 (ucast (ucast (drop_bit 24 x) :: 8 word))) n \<longleftrightarrow> bit x n" if "n < LENGTH(32)" for n
    using that by (cases "n < 24") (auto simp: bit_simps)
qed

lemma join_offset:
  "(ucast (ucast (x AND 0xffff) :: 16 word) :: u32) OR
     push_bit 16 (ucast (ucast (drop_bit 16 x) :: 16 word)) = x"
  unfolding mask_bits by (rule bit_eqI) (auto simp: bit_simps)

lemma SEG_base: "seg_base (SEG t b l d) = b" "seg_base (SEG16 t b l d) = b"
  by (simp_all add: seg_base_def SEG_def SEG16_def join_base)

lemma SEG_limit: "seg_limit (SEG t b l d) = l OR 0xfff"
proof (rule bit_word_eqI)
  show "bit (seg_limit (SEG t b l d)) n \<longleftrightarrow> bit (l OR 0xfff) n" if "n < LENGTH(32)" for n
    unfolding seg_limit_def seg_raw_limit_def SEG_def mask_bits
    using that by (cases "n < 28") (auto simp: bit_simps)
qed

lemma SEG16_limit: "l < 0x100000 \<Longrightarrow> seg_limit (SEG16 t b l d) = l"
proof -
  assume "l < 0x100000"
  then have "take_bit 20 l = l"
    by (simp add: word_unat_eq_iff unat_take_bit_u32 word_less_nat_alt)
  then have "bit l n \<Longrightarrow> n - 16 < 4" for n
    using bit_take_bit_iff [of 20 l n] by auto
  then show ?thesis
    unfolding seg_limit_def seg_raw_limit_def SEG16_def mask_bits
    by simp (rule bit_eqI, auto simp: bit_simps)
qed

lemma SETGATE_offset [simp]: "gate_offset (SETGATE t sel off dpl) = off"
  by (simp add: gate_offset_def SETGATE_def join_offset)

section \<open>The interrupt table and the task state\<close>

record Taskstate =
  ts_link :: u32
  ts_esp0 :: u32
  ts_ss0 :: u16
  ts_esp1 :: u32
  ts_ss1 :: u16
  ts_esp2 :: u32
  ts_ss2 :: u16
  ts_cr3 :: u32
  ts_eip :: u32
  ts_eflags :: u32
  ts_eax :: u32
  ts_ecx :: u32
  ts_edx :: u32
  ts_ebx :: u32
  ts_esp :: u32
  ts_ebp :: u32
  ts_esi :: u32
  ts_edi :: u32
  ts_es :: u16
  ts_cs :: u16
  ts_ss :: u16
  ts_ds :: u16
  ts_fs :: u16
  ts_gs :: u16
  ts_ldt :: u16
  ts_t :: u16
  ts_iomb :: u16

text \<open>\<open>sizeof(struct Taskstate)\<close>: 26 words of 4 bytes.\<close>

definition sizeof_Taskstate :: u32 where [simp]: "sizeof_Taskstate = 104"

text \<open>The tables of \<open>kern/trap.c\<close> and \<open>kern/env.c\<close>, with the registers of the processor that
  point to them. A pseudo descriptor is its limit and base.\<close>

record tables_state =
  gdt :: "Segdesc list"
  idt :: "Gatedesc list"
  ts :: Taskstate
  gdtr :: "u16 \<times> u32"
  idtr :: "u16 \<times> u32"
  tr :: u16
  ldtr :: u16
  seg_gs :: u16
  seg_fs :: u16
  seg_es :: u16
  seg_ds :: u16
  seg_ss :: u16
  seg_cs :: u16

text \<open>\<open>lgdt\<close>, the five segment loads, the far jump that loads \<open>%cs\<close> and \<open>lldt\<close>. The address
  \<open>gdt_addr\<close> of the table is chosen by the linker.\<close>

definition env_init_percpu :: "u32 \<Rightarrow> 'z tables_state_scheme \<Rightarrow> 'z tables_state_scheme" where
  "env_init_percpu gdt_addr s =
     s\<lparr>gdtr := (of_nat (8 * length (gdt s)) - 1, gdt_addr),
       seg_gs := ucast (GD_UD OR 3), seg_fs := ucast (GD_UD OR 3),
       seg_es := ucast GD_KD, seg_ds := ucast GD_KD, seg_ss := ucast GD_KD,
       seg_cs := ucast GD_KT, ldtr := 0\<rparr>"

definition trap_init_percpu :: "u32 \<Rightarrow> u32 \<Rightarrow> 'z tables_state_scheme \<Rightarrow> 'z tables_state_scheme" where
  "trap_init_percpu ts_addr idt_addr s =
     (let s = s\<lparr>ts := (ts s)\<lparr>ts_esp0 := KSTACKTOP, ts_ss0 := ucast GD_KD,
                ts_iomb := ucast sizeof_Taskstate\<rparr>\<rparr>;
          s = s\<lparr>gdt := (gdt s)[unat (drop_bit 3 GD_TSS0) :=
                SEG16 STS_T32A ts_addr (sizeof_Taskstate - 1) 0]\<rparr>;
          s = s\<lparr>gdt := (gdt s)[unat (drop_bit 3 GD_TSS0) :=
                (gdt s ! unat (drop_bit 3 GD_TSS0))\<lparr>sd_s := 0\<rparr>]\<rparr>
      in s\<lparr>tr := ucast GD_TSS0, idtr := (of_nat (8 * length (idt s)) - 1, idt_addr)\<rparr>)"

definition T_NMI :: nat where [simp]: "T_NMI = 2"
definition T_BRKPT :: nat where [simp]: "T_BRKPT = 3"
definition T_PGFLT :: nat where [simp]: "T_PGFLT = 14"
definition T_SYSCALL :: nat where [simp]: "T_SYSCALL = 48"
definition T_ALIGN :: nat where [simp]: "T_ALIGN = 17"
definition T_MCHK :: nat where [simp]: "T_MCHK = 18"
definition T_SIMDERR :: nat where [simp]: "T_SIMDERR = 19"

text \<open>One round of the loop of \<open>trap_init\<close>; \<open>vectors\<close> are the entry points of
  \<open>kern/trapentry.S\<close>.\<close>

definition trap_init_step :: "(nat \<Rightarrow> u32) \<Rightarrow> 'z tables_state_scheme \<Rightarrow> nat \<Rightarrow> 'z tables_state_scheme" where
  "trap_init_step vectors s i =
     (if i = T_BRKPT then s\<lparr>idt := (idt s)[i := SETGATE False GD_KT (vectors i) 3]\<rparr>
      else if i \<noteq> 2 \<and> i \<noteq> 15 then s\<lparr>idt := (idt s)[i := SETGATE False GD_KT (vectors i) 0]\<rparr>
      else s)"

definition trap_init :: "(nat \<Rightarrow> u32) \<Rightarrow> u32 \<Rightarrow> u32 \<Rightarrow> 'z tables_state_scheme \<Rightarrow> 'z tables_state_scheme" where
  "trap_init vectors ts_addr idt_addr s =
     (let s = foldl (trap_init_step vectors) s [0..<17];
          s = s\<lparr>idt := (idt s)[48 := SETGATE False GD_KT (vectors 48) 3]\<rparr>
      in trap_init_percpu ts_addr idt_addr s)"

section \<open>What trap_init installs\<close>

lemma trap_init_step_idt: "idt (trap_init_step vectors s i) =
    (if i = 2 \<or> i = 15 then idt s
     else (idt s)[i := SETGATE False GD_KT (vectors i) (if i = T_BRKPT then 3 else 0)])"
  by (simp add: trap_init_step_def)

lemma idt_fold: "length (idt s) = 256 \<Longrightarrow> n \<le> 256 \<Longrightarrow> v < 256 \<Longrightarrow>
    length (idt (foldl (trap_init_step vectors) s [0..<n])) = 256 \<and>
    idt (foldl (trap_init_step vectors) s [0..<n]) ! v =
      (if v < n \<and> v \<noteq> 2 \<and> v \<noteq> 15 then SETGATE False GD_KT (vectors v) (if v = T_BRKPT then 3 else 0)
       else idt s ! v)"
proof (induction n)
  case (Suc n)
  let ?f = "foldl (trap_init_step vectors) s [0..<n]"
  have IH: "length (idt ?f) = 256" "idt ?f ! v =
      (if v < n \<and> v \<noteq> 2 \<and> v \<noteq> 15 then SETGATE False GD_KT (vectors v) (if v = T_BRKPT then 3 else 0)
       else idt s ! v)"
    using Suc by simp_all
  have f: "foldl (trap_init_step vectors) s [0..<Suc n] = trap_init_step vectors ?f n" by simp
  show ?case
    unfolding f trap_init_step_idt using IH Suc.prems
    by (cases "v = n") (simp_all add: less_Suc_eq)
qed simp

lemma trap_init_idt: "idt (trap_init vectors ta ia s) =
    (idt (foldl (trap_init_step vectors) s [0..<17]))[48 := SETGATE False GD_KT (vectors 48) 3]"
  by (simp add: trap_init_def trap_init_percpu_def Let_def del: upt_rec_numeral)

definition installed :: "nat \<Rightarrow> bool" where
  "installed v \<longleftrightarrow> v < 17 \<and> v \<noteq> 2 \<and> v \<noteq> 15 \<or> v = T_SYSCALL"

lemma trap_init_nth:
  assumes "length (idt s) = 256" "v < 256"
  shows "idt (trap_init vectors ta ia s) ! v =
    (if installed v then SETGATE False GD_KT (vectors v) (if v = T_BRKPT \<or> v = T_SYSCALL then 3 else 0)
     else idt s ! v)"
  using idt_fold [OF assms(1) _ assms(2), of 17 vectors] assms
  by (auto simp: trap_init_idt nth_list_update installed_def simp del: upt_rec_numeral)

text \<open>After \<open>trap_init\<close> exactly the vectors 0 to 16 except 2 and 15, and the system call
  vector, are present. A present gate is an interrupt gate into the kernel's code segment,
  leads to the handler of its own number, and can be invoked by user code (its privilege
  level is 3) only for the breakpoint and the system call; every other slot is as it was.\<close>

theorem trap_init_gates:
  assumes "length (idt s) = 256" "v < 256"
  shows "idt (trap_init vectors ta ia s) ! v =
    (if installed v then SETGATE False GD_KT (vectors v) (if v = T_BRKPT \<or> v = T_SYSCALL then 3 else 0)
     else idt s ! v)"
  using assms by (rule trap_init_nth)

definition ts_zero :: Taskstate where
  "ts_zero = \<lparr>ts_link = 0, ts_esp0 = 0, ts_ss0 = 0, ts_esp1 = 0, ts_ss1 = 0, ts_esp2 = 0,
     ts_ss2 = 0, ts_cr3 = 0, ts_eip = 0, ts_eflags = 0, ts_eax = 0, ts_ecx = 0, ts_edx = 0,
     ts_ebx = 0, ts_esp = 0, ts_ebp = 0, ts_esi = 0, ts_edi = 0, ts_es = 0, ts_cs = 0,
     ts_ss = 0, ts_ds = 0, ts_fs = 0, ts_gs = 0, ts_ldt = 0, ts_t = 0, ts_iomb = 0\<rparr>"

text \<open>The static initial values of the tables.\<close>

definition boot_tables :: tables_state where
  "boot_tables = \<lparr>gdt = gdt_init, idt = replicate 256 gate_zero, ts = ts_zero,
     gdtr = (0, 0), idtr = (0, 0), tr = 0, ldtr = 0, seg_gs = 0, seg_fs = 0, seg_es = 0,
     seg_ds = 0, seg_ss = 0, seg_cs = 0\<rparr>"

lemma boot_idt: "length (idt boot_tables) = 256" "v < 256 \<Longrightarrow> idt boot_tables ! v = gate_zero"
  by (simp_all add: boot_tables_def)

definition demo_vectors :: "nat \<Rightarrow> u32" where
  "demo_vectors v = 0xF0104000 + 8 * of_nat v"

theorem trap_init_gates_witness:
  "gd_dpl (idt (trap_init demo_vectors 0xF0180000 0xF0190000 boot_tables) ! 48) = 3 \<and>
   gd_dpl (idt (trap_init demo_vectors 0xF0180000 0xF0190000 boot_tables) ! 13) = 0 \<and>
   gate_offset (idt (trap_init demo_vectors 0xF0180000 0xF0190000 boot_tables) ! 13) = 0xF0104068"
  using trap_init_gates [OF boot_idt(1), of 48 demo_vectors "0xF0180000" "0xF0190000"]
    trap_init_gates [OF boot_idt(1), of 13 demo_vectors "0xF0180000" "0xF0190000"]
  by (simp add: installed_def demo_vectors_def) (simp add: SETGATE_def)

text \<open>The exceptions 17 (alignment check), 18 (machine check) and 19 (SIMD floating
  point), which \<open>inc/trap.h\<close> and \<open>trapname\<close> know, have no gate after \<open>trap_init\<close>: such
  an exception becomes a double fault instead of reaching \<open>trap\<close>.\<close>

theorem trap_init_misses:
  assumes "v \<in> {T_ALIGN, T_MCHK, T_SIMDERR, T_NMI}"
  shows "gd_p (idt (trap_init vectors ta ia boot_tables) ! v) = 0"
proof -
  have "v < 256" "\<not> installed v" using assms by (auto simp: installed_def)
  then show ?thesis
    by (simp add: trap_init_nth [OF boot_idt(1)] boot_idt(2) gate_zero_def)
qed

theorem trap_init_misses_witness:
  "gd_p (idt (trap_init (\<lambda>v. 0xF0104000) 0xF0180000 0xF0190000 boot_tables) ! 17) = 0"
  by (rule trap_init_misses) simp

lemma trap_init_fold_gdt: "gdt (foldl (trap_init_step vectors) s xs) = gdt s"
proof (induction xs arbitrary: s)
  case (Cons x xs)
  then show ?case by (simp add: trap_init_step_def)
qed simp

lemma trap_init_gdt: "gdt (trap_init vectors ta ia s) =
    (gdt s)[5 := SEG16 STS_T32A ta 103 0, 5 := (((gdt s)[5 := SEG16 STS_T32A ta 103 0]) ! 5)\<lparr>sd_s := 0\<rparr>]"
  by (simp add: trap_init_def trap_init_percpu_def Let_def trap_init_fold_gdt drop_bit_eq_div
      del: upt_rec_numeral)

lemma GD_slots: "unat (drop_bit 3 GD_KT) = 1" "unat (drop_bit 3 GD_KD) = 2" "unat (drop_bit 3 GD_UT) = 3"
  "unat (drop_bit 3 GD_UD) = 4" "unat (drop_bit 3 GD_TSS0) = 5"
  by (simp_all add: drop_bit_eq_div)

lemma list_update_6: "[a, b, c, d, e, f][1 := v, 2 := w, 3 := x, 4 := y, 5 := z] = [a, v, w, x, y, z]"
  by (simp add: numeral_eq_Suc)

lemma list_update_last_6: "[a, b, c, d, e, f][5 := x, 5 := g ([a, b, c, d, e, f][5 := x] ! 5)] = [a, b, c, d, e, g x]"
  by (simp add: numeral_eq_Suc)

lemma nth_6: "[a, b, c, d, e, f] ! 1 = b" "[a, b, c, d, e, f] ! 2 = c" "[a, b, c, d, e, f] ! 3 = d"
  "[a, b, c, d, e, f] ! 4 = e" "[a, b, c, d, e, f] ! 5 = f"
  by (simp_all add: numeral_eq_Suc)

lemma boot_gdt: "gdt boot_tables = [SEG_NULL, SEG (STA_X OR STA_R) 0 0xffffffff 0, SEG STA_W 0 0xffffffff 0,
    SEG (STA_X OR STA_R) 0 0xffffffff 3, SEG STA_W 0 0xffffffff 3, SEG_NULL]"
proof -
  have "replicate 6 SEG_NULL = [SEG_NULL, SEG_NULL, SEG_NULL, SEG_NULL, SEG_NULL, SEG_NULL]"
    by (simp add: numeral_eq_Suc)
  then show ?thesis unfolding boot_tables_def gdt_init_def GD_slots by (simp only: list_update_6 tables_state.simps)
qed

lemma seg_base_sd_s [simp]: "seg_base (d\<lparr>sd_s := b\<rparr>) = seg_base d" "seg_limit (d\<lparr>sd_s := b\<rparr>) = seg_limit d"
  by (simp_all add: seg_base_def seg_limit_def seg_raw_limit_def)

lemma SEG_dpl: "sd_dpl (SEG t b l d) = ucast d"
  by (simp add: SEG_def)

lemma trap_init_ts: "ts_esp0 (ts (trap_init vectors ta ia s)) = KSTACKTOP"
  by (simp add: trap_init_def trap_init_percpu_def Let_def del: upt_rec_numeral)

text \<open>The segment macros encode what they are given: the processor reads back the base
  and, counted in pages, the limit of \<open>SEG\<close>, so the four kernel and user segments of
  \<open>gdt\<close> are flat; and the task state descriptor that \<open>trap_init_percpu\<close> builds with
  \<open>SEG16\<close> is a present system segment of privilege 0 over exactly the task state, whose
  kernel stack is at \<open>KSTACKTOP\<close>.\<close>

theorem gdt_segments:
  "map seg_base (take 5 (gdt (trap_init vectors ta ia boot_tables))) = [0, 0, 0, 0, 0] \<and>
   map seg_limit (take 5 (gdt (trap_init vectors ta ia boot_tables))) =
     [0, 0xffffffff, 0xffffffff, 0xffffffff, 0xffffffff] \<and>
   map sd_dpl (take 5 (gdt (trap_init vectors ta ia boot_tables))) = [0, 0, 0, 3, 3] \<and>
   (let d = gdt (trap_init vectors ta ia boot_tables) ! 5 in
      seg_base d = ta \<and> seg_limit d = sizeof_Taskstate - 1 \<and> sd_s d = 0 \<and> sd_p d = 1 \<and>
      sd_dpl d = 0 \<and> sd_type d = 9) \<and>
   ts_esp0 (ts (trap_init vectors ta ia boot_tables)) = KSTACKTOP"
proof -
  let ?g = "gdt (trap_init vectors ta ia boot_tables)"
  have g: "?g = [SEG_NULL, SEG (STA_X OR STA_R) 0 0xffffffff 0, SEG STA_W 0 0xffffffff 0,
    SEG (STA_X OR STA_R) 0 0xffffffff 3, SEG STA_W 0 0xffffffff 3, (SEG16 STS_T32A ta 103 0)\<lparr>sd_s := 0\<rparr>]"
    unfolding trap_init_gdt boot_gdt by (simp only: list_update_last_6)
  have f: "(0xffffffff :: u32) OR 0xfff = 0xffffffff" by simp
  have 5: "?g ! 5 = (SEG16 STS_T32A ta 103 0)\<lparr>sd_s := 0\<rparr>" unfolding g nth_6 by (rule refl)
  have t: "take 5 ?g = [SEG_NULL, SEG (STA_X OR STA_R) 0 0xffffffff 0, SEG STA_W 0 0xffffffff 0,
    SEG (STA_X OR STA_R) 0 0xffffffff 3, SEG STA_W 0 0xffffffff 3]"
    unfolding g by (simp add: numeral_eq_Suc)
  have n: "seg_base SEG_NULL = 0" "seg_limit SEG_NULL = 0" "sd_dpl SEG_NULL = 0"
    by (simp_all add: SEG_NULL_def seg_base_def seg_limit_def seg_raw_limit_def)
  show ?thesis
    unfolding t 5 using f by (simp add: SEG_base SEG_limit SEG_dpl SEG16_limit trap_init_ts n)
      (simp add: SEG16_def)
qed

end
