(* ===== verification/Env.thy ===== *)
theory Env
  imports Frame Descriptors
begin

text \<open>
  Environments (\<open>kern/env.c\<close>, \<open>inc/env.h\<close>): the table \<open>envs\<close>, its free list, the
  allocation of environment ids and address spaces, and the switch to an environment. The
  state extends the one of \<open>kern/pmap.c\<close>. A \<open>struct Env *\<close> is an index into \<open>envs\<close>,
  \<open>NULL\<close> is \<^const>\<open>None\<close>. Calls of \<open>cprintf\<close> are recorded, newest first, with their format
  and arguments.

  Loading a program and freeing an environment are in \<open>Env_Load\<close> and \<open>Env_Free\<close>.
\<close>

section \<open>State\<close>

record PushRegs =
  reg_edi :: u32
  reg_esi :: u32
  reg_ebp :: u32
  reg_oesp :: u32
  reg_ebx :: u32
  reg_edx :: u32
  reg_ecx :: u32
  reg_eax :: u32

text \<open>The padding fields are left out: nothing reads them.\<close>

record Trapframe =
  tf_regs :: PushRegs
  tf_es :: u16
  tf_ds :: u16
  tf_trapno :: u32
  tf_err :: u32
  tf_eip :: u32
  tf_cs :: u16
  tf_eflags :: u32
  tf_esp :: u32
  tf_ss :: u16

definition regs_zero :: PushRegs where
  "regs_zero = \<lparr>reg_edi = 0, reg_esi = 0, reg_ebp = 0, reg_oesp = 0, reg_ebx = 0, reg_edx = 0,
     reg_ecx = 0, reg_eax = 0\<rparr>"

definition tf_zero :: Trapframe where
  "tf_zero = \<lparr>tf_regs = regs_zero, tf_es = 0, tf_ds = 0, tf_trapno = 0, tf_err = 0, tf_eip = 0,
     tf_cs = 0, tf_eflags = 0, tf_esp = 0, tf_ss = 0\<rparr>"

definition ENV_FREE :: u32 where [simp]: "ENV_FREE = 0"
definition ENV_DYING :: u32 where [simp]: "ENV_DYING = 1"
definition ENV_RUNNABLE :: u32 where [simp]: "ENV_RUNNABLE = 2"
definition ENV_RUNNING :: u32 where [simp]: "ENV_RUNNING = 3"
definition ENV_NOT_RUNNABLE :: u32 where [simp]: "ENV_NOT_RUNNABLE = 4"
definition ENV_TYPE_USER :: u32 where [simp]: "ENV_TYPE_USER = 0"

definition LOG2NENV :: nat where [simp]: "LOG2NENV = 10"
definition NENV :: u32 where [simp]: "NENV = 1024"
definition ENVX :: "u32 \<Rightarrow> u32" where "ENVX envid = envid AND (NENV - 1)"
definition ENVGENSHIFT :: nat where [simp]: "ENVGENSHIFT = 12"

definition E_BAD_ENV :: u32 where [simp]: "E_BAD_ENV = 2"
definition E_NO_FREE_ENV :: u32 where [simp]: "E_NO_FREE_ENV = 5"

record Env =
  env_tf :: Trapframe
  env_link :: "nat option"
  env_id :: u32
  env_parent_id :: u32
  env_type :: u32
  env_status :: u32
  env_runs :: u32
  env_pgdir :: u32

definition sizeof_Env :: u32 where [simp]: "sizeof_Env = 96"

text \<open>An argument of a \<open>%s\<close> conversion is recorded as the text it stands for.\<close>

datatype cprintf_arg = Num u32 | Str string

datatype message = Message string "cprintf_arg list"

record env_state = pmap_state +
  envs :: "Env list"
  curenv :: "nat option"
  env_free_list :: "nat option"
  cpu_tables :: tables_state
  console :: "message list"

definition cprintf_args ::
  "string \<Rightarrow> cprintf_arg list \<Rightarrow> 'z env_state_scheme \<Rightarrow> 'z env_state_scheme" where
  "cprintf_args fmt args s = s\<lparr>console := Message fmt args # console s\<rparr>"

definition cprintf :: "string \<Rightarrow> u32 list \<Rightarrow> 'z env_state_scheme \<Rightarrow> 'z env_state_scheme" where
  "cprintf fmt args s = s\<lparr>console := Message fmt (map Num args) # console s\<rparr>"

definition nl :: string where [simp]: "nl = [CHR 0x0A]"

text \<open>A write through an environment pointer.\<close>

definition upd_env :: "nat \<Rightarrow> (Env \<Rightarrow> Env) \<Rightarrow> 'z env_state_scheme \<Rightarrow> fault + 'z env_state_scheme" where
  "upd_env i f s = (if i < length (envs s) then Inr (s\<lparr>envs := (envs s)[i := f (envs s ! i)]\<rparr>)
     else Inl Wild_Access)"

text \<open>\<open>curenv ? curenv->env_id : 0\<close>\<close>

definition curenv_id :: "'z env_state_scheme \<Rightarrow> u32" where
  "curenv_id s = (case curenv s of None \<Rightarrow> 0 | Some c \<Rightarrow> env_id (envs s ! c))"

section \<open>Operations\<close>

text \<open>\<open>envid2env\<close> returns its result and what it stores in \<open>*env_store\<close>.\<close>

definition envid2env ::
  "'z env_state_scheme \<Rightarrow> u32 \<Rightarrow> bool \<Rightarrow> fault + u32 \<times> nat option" where
  "envid2env s envid checkperm =
     (if envid = 0 then Inr (0, curenv s)
      else let e = unat (ENVX envid) in
        if \<not> e < length (envs s) then Inl Wild_Access
        else if env_status (envs s ! e) = ENV_FREE \<or> env_id (envs s ! e) \<noteq> envid
        then Inr (- E_BAD_ENV, None)
        else if checkperm \<and> Some e \<noteq> curenv s then
          (case curenv s of
             None \<Rightarrow> Inl Wild_Access
           | Some c \<Rightarrow>
               if env_parent_id (envs s ! e) \<noteq> env_id (envs s ! c) then Inr (- E_BAD_ENV, None)
               else Inr (0, Some e))
        else Inr (0, Some e))"

definition env_init_step :: "nat \<Rightarrow> 'z env_state_scheme \<Rightarrow> fault + 'z env_state_scheme" where
  "env_init_step i s =
     bindr (upd_env i (\<lambda>e. e\<lparr>env_id := 0, env_link := env_free_list s\<rparr>) s)
       (\<lambda>s. Inr (s\<lparr>env_free_list := Some i\<rparr>))"

definition env_init :: "u32 \<Rightarrow> 'z env_state_scheme \<Rightarrow> fault + 'z env_state_scheme" where
  "env_init gdt_addr s =
     bindr (for_each env_init_step (rev [0..<unat NENV]) s)
       (\<lambda>s. Inr (s\<lparr>cpu_tables := env_init_percpu gdt_addr (cpu_tables s)\<rparr>))"

definition env_setup_vm :: "'z env_state_scheme \<Rightarrow> nat \<Rightarrow> fault + u32 \<times> 'z env_state_scheme" where
  "env_setup_vm s e =
     bindr (page_alloc s ALLOC_ZERO) (\<lambda>(p, s).
       case p of
         None \<Rightarrow> Inr (- E_NO_MEM, s)
       | Some p \<Rightarrow>
           bindr (page_incref s p) (\<lambda>s.
           bindr (page2kva s p) (\<lambda>pgdir.
           bindr (upd_env e (\<lambda>e. e\<lparr>env_pgdir := pgdir\<rparr>) s) (\<lambda>s.
           let s = s\<lparr>mem := memcpy (mem s) (kv2p pgdir) (kv2p (kern_pgdir s)) PGSIZE\<rparr> in
           bindr (PADDR pgdir) (\<lambda>pa.
             Inr (0, kstore s (pgdir + 4 * PDX UVPT) (pa OR PTE_P OR PTE_U)))))))"

definition next_env_id :: "u32 \<Rightarrow> nat \<Rightarrow> u32" where
  "next_env_id old i =
     (let generation = (old + push_bit ENVGENSHIFT 1) AND NOT (NENV - 1);
          generation = (if generation \<le>s 0 then push_bit ENVGENSHIFT 1 else generation)
      in generation OR of_nat i)"

definition new_env_tf :: Trapframe where
  "new_env_tf = tf_zero\<lparr>tf_ds := ucast (GD_UD OR 3), tf_es := ucast (GD_UD OR 3),
     tf_ss := ucast (GD_UD OR 3), tf_esp := USTACKTOP, tf_cs := ucast (GD_UT OR 3)\<rparr>"

text \<open>\<open>env_alloc\<close> returns its result and what it stores in \<open>*newenv_store\<close>, if it does.\<close>

definition env_alloc ::
  "'z env_state_scheme \<Rightarrow> u32 \<Rightarrow> fault + (u32 \<times> nat option) \<times> 'z env_state_scheme" where
  "env_alloc s parent_id =
     (case env_free_list s of
        None \<Rightarrow> Inr ((- E_NO_FREE_ENV, None), s)
      | Some e \<Rightarrow>
          bindr (env_setup_vm s e) (\<lambda>(r, s).
          if r <s 0 then Inr ((r, None), s)
          else
            bindr (upd_env e (\<lambda>v. v\<lparr>env_id := next_env_id (env_id v) e, env_parent_id := parent_id,
                env_type := ENV_TYPE_USER, env_status := ENV_RUNNABLE, env_runs := 0,
                env_tf := new_env_tf\<rparr>) s) (\<lambda>s.
            let s = s\<lparr>env_free_list := env_link (envs s ! e)\<rparr>
            in Inr ((0, Some e), cprintf (''[%08x] new env %08x'' @ nl) [curenv_id s, env_id (envs s ! e)] s))))"

text \<open>The last lines of \<open>env_free\<close>, which put the environment back.\<close>

definition env_put :: "'z env_state_scheme \<Rightarrow> nat \<Rightarrow> fault + 'z env_state_scheme" where
  "env_put s e =
     bindr (upd_env e (\<lambda>v. v\<lparr>env_status := ENV_FREE, env_link := env_free_list s\<rparr>) s)
       (\<lambda>s. Inr (s\<lparr>env_free_list := Some e\<rparr>))"

text \<open>\<open>env_run\<close> does not return: the result is the state in which the processor leaves the
  kernel, with the trap frame \<open>env_pop_tf\<close> restores.\<close>

definition env_run :: "'z env_state_scheme \<Rightarrow> nat \<Rightarrow> fault + Trapframe \<times> 'z env_state_scheme" where
  "env_run s e =
     bindr (if curenv s \<noteq> Some e then
              bindr (upd_env e (\<lambda>v. v\<lparr>env_status := ENV_RUNNING, env_runs := env_runs v + 1\<rparr>)
                       (s\<lparr>curenv := Some e\<rparr>)) (\<lambda>s.
              bindr (PADDR (env_pgdir (envs s ! e))) (\<lambda>pa. Inr (s\<lparr>cr3 := pa\<rparr>)))
            else Inr s) (\<lambda>s.
     if e < length (envs s) then Inr (env_tf (envs s ! e), s) else Inl Wild_Access)"

section \<open>Frames\<close>

lemma env_same_rest:
  assumes "same_rest s t"
  shows "envs t = envs s" "curenv t = curenv s" "env_free_list t = env_free_list s"
    "cpu_tables t = cpu_tables s" "console t = console s"
  using assms by (cases s; cases t; simp add: same_rest_def)+

lemma upd_env_eq: "upd_env i f s = Inr t \<longleftrightarrow> i < length (envs s) \<and> t = s\<lparr>envs := (envs s)[i := f (envs s ! i)]\<rparr>"
  by (auto simp: upd_env_def)

text \<open>What a successful \<open>env_setup_vm\<close> does outside memory.\<close>

lemma env_setup_vm_cases:
  assumes "env_setup_vm s e = Inr (r, t)"
  shows "r = - E_NO_MEM \<and> t = s \<and> page_free_list s = None \<or>
    r = 0 \<and> e < length (envs s) \<and> (\<exists>p. envs t = (envs s)[e := (envs s ! e)\<lparr>env_pgdir := p\<rparr>]) \<and>
    env_free_list t = env_free_list s \<and> curenv t = curenv s \<and> cpu_tables t = cpu_tables s \<and> console t = console s"
proof -
  obtain p s1 where a: "page_alloc s ALLOC_ZERO = Inr (p, s1)"
    using assms by (auto simp: env_setup_vm_def bindr_eq_Inr)
  show ?thesis
  proof (cases p)
    case None
    then have "s1 = s" "page_free_list s = None"
      using a by (auto simp: page_alloc_def Let_def bindr_eq_Inr split: option.splits if_splits)
    then show ?thesis using assms a None by (simp add: env_setup_vm_def)
  next
    case (Some x)
    with assms a obtain s2 k where s2: "page_incref s1 x = Inr s2" "e < length (envs s2)" "r = 0"
      "envs t = (envs s2)[e := (envs s2 ! e)\<lparr>env_pgdir := k\<rparr>]" "env_free_list t = env_free_list s2"
      "curenv t = curenv s2" "cpu_tables t = cpu_tables s2" "console t = console s2"
      by (auto simp: env_setup_vm_def bindr_eq_Inr upd_env_eq Let_def kstore_def)
    have "same_rest s s2" using a s2(1) by (blast intro: same_rest_trans page_alloc_rest page_incref_rest)
    then show ?thesis using s2 by (auto simp: env_same_rest)
  qed
qed

lemma neg_errors [simp]: "- 4 <s (0 :: u32)" "- 5 <s (0 :: u32)" "- 2 <s (0 :: u32)" "- 6 <s (0 :: u32)"
  by (simp_all add: word_sless_alt)

lemma env_alloc_SomeE:
  assumes "env_alloc s parent = Inr ((r, Some i), t)"
  obtains p where "r = 0" "env_free_list s = Some i" "i < length (envs s)"
    "envs t = (envs s)[i := (envs s ! i)\<lparr>env_pgdir := p, env_id := next_env_id (env_id (envs s ! i)) i,
       env_parent_id := parent, env_type := ENV_TYPE_USER, env_status := ENV_RUNNABLE, env_runs := 0,
       env_tf := new_env_tf\<rparr>]"
    "env_free_list t = env_link (envs s ! i)" "curenv t = curenv s"
proof -
  obtain r1 s1 where a: "env_free_list s = Some i" "env_setup_vm s i = Inr (r1, s1)" "\<not> r1 <s 0"
    using assms by (auto simp: env_alloc_def Let_def bindr_eq_Inr split: option.splits if_splits)
  note c = env_setup_vm_cases [OF a(2)]
  with a(3) obtain p where "r1 = 0" "i < length (envs s)"
    "envs s1 = (envs s)[i := (envs s ! i)\<lparr>env_pgdir := p\<rparr>]" "env_free_list s1 = env_free_list s"
    "curenv s1 = curenv s" by auto
  then show thesis
    using assms a that by (auto simp: env_alloc_def upd_env_eq bindr_eq_Inr Let_def cprintf_def)
qed

section \<open>The free list of environments is a free list\<close>

definition env_next :: "'z env_state_scheme \<Rightarrow> nat \<Rightarrow> nat option" where
  "env_next s i = env_link (envs s ! i)"

definition env_cap :: "'z env_state_scheme \<Rightarrow> nat" where
  "env_cap s = length (envs s)"

definition env_take :: "u32 \<Rightarrow> 'z env_state_scheme \<Rightarrow> (nat \<times> 'z env_state_scheme) option" where
  "env_take parent s = (case env_alloc s parent of Inr ((_, Some i), t) \<Rightarrow> Some (i, t) | _ \<Rightarrow> None)"

definition env_give :: "'z env_state_scheme \<Rightarrow> nat \<Rightarrow> 'z env_state_scheme option" where
  "env_give s i = (case env_put s i of Inr t \<Rightarrow> Some t | _ \<Rightarrow> None)"

definition free_envs :: "'z env_state_scheme \<Rightarrow> nat list \<Rightarrow> bool" where
  "free_envs s xs \<longleftrightarrow> chain (env_next s) (env_free_list s) xs \<and> set xs \<subseteq> {..<env_cap s}"

lemma env_take_eq: "env_take parent s = Some (i, t) \<longleftrightarrow> (\<exists>r. env_alloc s parent = Inr ((r, Some i), t))"
  by (auto simp: env_take_def split: sum.splits prod.splits option.splits)

lemma env_give_eq: "env_give s i = Some t \<longleftrightarrow> env_put s i = Inr t"
  by (auto simp: env_give_def split: sum.splits)

lemma env_put_eq: "env_put s i = Inr t \<longleftrightarrow> i < length (envs s) \<and>
    t = s\<lparr>envs := (envs s)[i := (envs s ! i)\<lparr>env_status := ENV_FREE, env_link := env_free_list s\<rparr>],
      env_free_list := Some i\<rparr>"
  by (auto simp: env_put_def bindr_eq_Inr upd_env_eq)

interpretation el: free_list env_free_list env_next env_cap "env_take parent" env_give for parent
proof unfold_locales
  fix s t :: "'a env_state_scheme" and i j
  show "env_free_list s = Some i \<and> env_free_list t = env_next s i" if "env_take parent s = Some (i, t)"
    using that by (auto simp: env_take_eq env_next_def elim!: env_alloc_SomeE)
  show "env_next t j = env_next s j" if "env_take parent s = Some (i, t)" "j \<noteq> i"
    using that by (auto simp: env_take_eq env_next_def elim!: env_alloc_SomeE)
  show "i < env_cap s \<and> env_cap t = env_cap s" if "env_take parent s = Some (i, t)"
    using that by (auto simp: env_take_eq env_cap_def elim!: env_alloc_SomeE)
  show "env_free_list t = Some i \<and> env_next t i = env_free_list s" if "env_give s i = Some t"
    using that by (auto simp: env_give_eq env_put_eq env_next_def)
  show "env_next t j = env_next s j" if "env_give s i = Some t" "j \<noteq> i"
    using that by (auto simp: env_give_eq env_put_eq env_next_def)
  show "i < env_cap s \<and> env_cap t = env_cap s" if "env_give s i = Some t"
    using that by (auto simp: env_give_eq env_put_eq env_cap_def)
qed

lemma free_envs_eq: "free_envs s xs \<longleftrightarrow> el.free s xs"
  by (simp add: free_envs_def el.free_def)

end
