(* ===== verification/Boot_Map.thy ===== *)
theory Boot_Map
  imports Frame
begin

text \<open>
  The static mappings of \<open>kern/pmap.c\<close>: what the loop of \<open>boot_map_region\<close> leaves in the
  page directory, and that it ends. The loop itself is in \<open>Page_Table\<close>.
\<close>

section \<open>What stays the same\<close>

lemma store32_frame:
  assumes "f < 0x100000" "i < 1024" "unat a div 4096 \<noteq> f"
  shows "store32 m (entry_pa f i) v a = m a"
proof -
  have "a \<noteq> entry_pa f i + of_nat k" if "k < 4" for k
  proof
    assume a: "a = entry_pa f i + of_nat k"
    have l: "4 * i + k < 4096" using assms(2) that by simp
    then have "unat a = 4096 * f + (4 * i + k)"
      using assms(1) unfolding a entry_pa_plus by (intro unat_of_nat_u32) simp
    with l assms(3) show False by simp
  qed
  from this [of 0] this [of 1] this [of 2] this [of 3] show ?thesis by (simp add: store32_def)
qed

lemma outside_page:
  assumes "x < 0x100000" "unat a div 4096 \<noteq> x"
  shows "\<not> unat (a - page2pa x) < 4096"
proof -
  have v: "unat a < 4294967296" by (rule unat_u32_lt)
  then have g: "unat a div 4096 < 0x100000" by simp
  have "a = of_nat (4096 * (unat a div 4096) + unat a mod 4096)" by (simp del: of_nat_add of_nat_mult)
  then show ?thesis using page_byte [OF g assms(1), of "unat a mod 4096"] assms(2) by simp
qed

lemma memset_in_page:
  assumes "x < 0x100000" "unat a div 4096 \<noteq> x" "unat n \<le> 4096"
  shows "memset m (page2pa x) c n a = m a"
  using outside_page [OF assms(1,2)] assms(3) by (simp add: memset_fill block_fill_def)

lemma zeroed_frame: "x < 0x100000 \<Longrightarrow> unat a div 4096 \<noteq> x \<Longrightarrow> memset m (page2pa x) 0 4096 a = m a"
  by (rule memset_in_page) simp_all

text \<open>From a state with the free list \<open>xs\<close> to one with \<open>ys\<close>: pages were taken from the front of the list and
  used for tables, and nothing else happened to pages and memory.\<close>

definition kept :: "'z pmap_state_scheme \<Rightarrow> 'z pmap_state_scheme \<Rightarrow> nat \<Rightarrow> nat list \<Rightarrow> nat list \<Rightarrow> bool" where
  "kept s t D xs ys \<longleftrightarrow> (\<exists>k. ys = drop k xs) \<and> (\<forall>g \<in> set ys. pages t ! g = pages s ! g) \<and>
     tables t D \<subseteq> tables s D \<union> set xs \<and>
     (\<forall>a. unat a div 4096 \<notin> insert D (tables s D \<union> set xs) \<longrightarrow> mem t a = mem s a)"

lemma kept_refl: "kept s s D xs xs"
  by (auto simp: kept_def intro: exI [of _ 0])

lemma kept_subset: "kept s t D xs ys \<Longrightarrow> set ys \<subseteq> set xs"
  by (auto simp: kept_def dest: in_set_dropD)

lemma kept_trans:
  assumes a: "kept s t D xs ys" and b: "kept t u D ys zs"
  shows "kept s u D xs zs"
proof -
  have sub: "set ys \<subseteq> set xs" "set zs \<subseteq> set ys" using a b by (simp_all add: kept_subset)
  obtain j k where "ys = drop j xs" "zs = drop k ys" using a b unfolding kept_def by blast
  then have "\<exists>k. zs = drop k xs" by auto
  moreover have "pages u ! g = pages s ! g" if "g \<in> set zs" for g
    using a b that subsetD [OF sub(2) that] by (simp add: kept_def)
  moreover have ta: "tables t D \<subseteq> tables s D \<union> set xs" "tables u D \<subseteq> tables t D \<union> set ys"
    using a b by (simp_all add: kept_def)
  moreover have "tables u D \<subseteq> tables s D \<union> set xs" using sub(1) ta by blast
  moreover have "mem u x = mem s x" if "unat x div 4096 \<notin> insert D (tables s D \<union> set xs)" for x
  proof -
    have "unat x div 4096 \<notin> insert D (tables t D \<union> set ys)" using that sub(1) ta(1) by auto
    then show ?thesis using a b that by (simp add: kept_def)
  qed
  ultimately show ?thesis by (simp add: kept_def)
qed

section \<open>One round of the loop\<close>

text \<open>\<open>pgdir_walk\<close> with \<open>create\<close> set finds the table of \<open>va\<close> or takes one from the free list;
  no entry of the address space changes.\<close>

lemma walk_any:
  assumes wf: "pt_wf s D xs" and d: "pdx va \<in> slots" and mem: "table_at s D (pdx va) \<noteq> None \<or> xs \<noteq> []"
  obtains f t where "pgdir_walk s (pgdir_kva D) va True = Inr (entry_pa f (ptx va) + KERNBASE, t)"
    "pt_wf t D (if table_at s D (pdx va) = None then tl xs else xs)" "table_at t D (pdx va) = Some f"
    "f < 0x10000" "\<And>e. e \<in> slots \<Longrightarrow> e \<noteq> pdx va \<Longrightarrow> table_at t D e = table_at s D e"
    "\<And>va'. pdx va' \<in> slots \<Longrightarrow> pt_entry t D va' = pt_entry s D va'"
    "\<And>e. e < 1024 \<Longrightarrow> entry t D e = (if e = pdx va \<and> table_at s D (pdx va) = None then new_pde f else entry s D e)"
    "same_rest s t" "kept s t D xs (if table_at s D (pdx va) = None then tl xs else xs)"
proof (cases "table_at s D (pdx va)")
  case (Some f)
  then have f: "f < length (pages s)" "f < 0x10000"
    using pt_wf_table [OF wf d Some] pt_wf_bound [OF wf, of f] by auto
  show thesis
    by (rule that [of f s]) (use walk_present [OF pt_wfD(1,4) [OF wf] Some f(1), of True] wf Some f kept_refl in simp_all)
next
  case None
  with mem obtain x ys where xs: "xs = x # ys" by (cases xs) auto
  note wfx = wf [unfolded xs]
  note x = free_pages_Cons [OF pt_wfD(3) [OF wfx]]
  have b: "x < 0x10000" "x < 0x100000" "D < 0x100000" "D \<noteq> x"
    using pt_wf_bound [OF wf x(2)] pt_wf_bound [OF wf pt_wfD(4) [OF wf]] pt_wfD(5) [OF wfx] by auto
  let ?t = "new_table_state s D (pdx va) x"
  show thesis
  proof (rule that [of x ?t])
    show "pgdir_walk s (pgdir_kva D) va True = Inr (entry_pa x (ptx va) + KERNBASE, ?t)"
      by (rule walk_create [OF pt_wfD(1,3) [OF wfx] pt_wfD(4) [OF wf] None])
    show "pt_wf ?t D (if table_at s D (pdx va) = None then tl xs else xs)"
      using new_table_wf [OF wfx d None] None xs by simp
    show "table_at ?t D (pdx va) = Some x" using b by (simp add: new_table_at)
    show "x < 0x10000" by (rule b(1))
    show "table_at ?t D e = table_at s D e" if "e \<in> slots" "e \<noteq> pdx va" for e
      using b that by (simp add: new_table_at slots_less)
    show "pt_entry ?t D va' = pt_entry s D va'" if "pdx va' \<in> slots" for va'
      by (rule pt_entry_other_table [OF wfx d None that])
    show "entry ?t D e = (if e = pdx va \<and> table_at s D (pdx va) = None then new_pde x else entry s D e)"
      if "e < 1024" for e using b None that by (simp add: new_table_entry)
    show "same_rest s ?t" by (simp add: new_table_state_def same_rest_def)
    have "tables ?t D \<subseteq> tables s D \<union> set xs"
      using b xs by (auto simp: tables_def new_table_at slots_less split: if_splits)
    moreover have "mem ?t a = mem s a" if "unat a div 4096 \<notin> insert D (tables s D \<union> set xs)" for a
      using that b xs by (simp add: new_table_state_def store32_frame zeroed_frame)
    moreover have "pages ?t ! g = pages s ! g" if "g \<in> set ys" for g
    proof -
      have "x \<noteq> g" using that x(3) by auto
      then show ?thesis by (simp add: new_table_state_def)
    qed
    moreover have "\<exists>k. ys = drop k xs" by (rule exI [of _ 1]) (simp add: xs)
    ultimately show "kept s ?t D xs (if table_at s D (pdx va) = None then tl xs else xs)"
      by (simp add: kept_def None xs)
  qed
qed

text \<open>The address of page \<open>i\<close> of a region.\<close>

definition nth_page :: "u32 \<Rightarrow> nat \<Rightarrow> u32" where
  "nth_page va i = va + of_nat (4096 * i)"

lemma nth_page_0 [simp]: "nth_page va 0 = va"
  by (simp add: nth_page_def)

lemma unat_nth_page:
  assumes "unat va + 4096 * n \<le> 2 ^ 32" "i < n"
  shows "unat (nth_page va i) = unat va + 4096 * i"
  using assms unfolding nth_page_def
  by (subst unat_add_no_wrap) (simp_all add: unat_of_nat_u32 del: of_nat_mult)

lemma nth_pages_apart:
  assumes "unat va + 4096 * n \<le> 2 ^ 32" "i < n" "j < n" "i \<noteq> j"
  shows "\<not> same_page (nth_page va i) (nth_page va j)"
proof
  assume "same_page (nth_page va i) (nth_page va j)"
  then have "(unat va + 4096 * i) div 4096 = (unat va + 4096 * j) div 4096"
    using assms by (simp add: same_page_def word_unat_eq_iff unat_PGNUM unat_nth_page [OF assms(1)])
  with assms(4) show False by simp
qed

text \<open>The page tables a region still needs.\<close>

definition missing :: "'z pmap_state_scheme \<Rightarrow> nat \<Rightarrow> u32 \<Rightarrow> nat \<Rightarrow> nat \<Rightarrow> nat set" where
  "missing s D va k n = {d. \<exists>i. k \<le> i \<and> i < n \<and> d = pdx (nth_page va i) \<and> table_at s D d = None}"

lemma finite_missing: "finite (missing s D va k n)"
proof -
  have "missing s D va k n \<subseteq> (\<lambda>i. pdx (nth_page va i)) ` {..<n}"
    by (auto simp: missing_def)
  then show ?thesis by (rule finite_subset) simp
qed

text \<open>The loop from page \<open>k\<close> on, with \<open>n\<close> pages in all.\<close>

definition region_slots :: "u32 \<Rightarrow> nat \<Rightarrow> bool" where
  "region_slots va n \<longleftrightarrow> (\<forall>i < n. pdx (nth_page va i) \<in> slots)"

definition mapped_from :: "'z pmap_state_scheme \<Rightarrow> 'z pmap_state_scheme \<Rightarrow> nat \<Rightarrow> u32 \<Rightarrow> nat \<Rightarrow> nat \<Rightarrow> u32 \<Rightarrow> u32 \<Rightarrow> bool" where
  "mapped_from s t D va k n pa perm \<longleftrightarrow>
     (\<forall>i. k \<le> i \<and> i < n \<longrightarrow> pt_entry t D (nth_page va i) = nth_page pa i OR perm OR PTE_P) \<and>
     (\<forall>va'. pdx va' \<in> slots \<and> (\<forall>i. k \<le> i \<and> i < n \<longrightarrow> \<not> same_page (nth_page va i) va') \<longrightarrow>
        pt_entry t D va' = pt_entry s D va')"

text \<open>What a region does to the directory itself: a slot of the region without a table gets a new
  one, the others stay.\<close>

definition dir_grown :: "'z pmap_state_scheme \<Rightarrow> 'z pmap_state_scheme \<Rightarrow> nat \<Rightarrow> nat set \<Rightarrow> bool" where
  "dir_grown s t D S \<longleftrightarrow> (\<forall>e < 1024.
     if e \<in> S \<and> table_at s D e = None then \<exists>f < 0x100000. entry t D e = new_pde f
     else entry t D e = entry s D e)"

lemma dir_grown_table:
  assumes "dir_grown s t D S" "e < 1024"
  shows "table_at t D e = None \<longleftrightarrow> table_at s D e = None \<and> e \<notin> S"
  using assms present_new_pde by (fastforce simp: dir_grown_def table_at_def split: if_splits)

lemma dir_grown_refl: "dir_grown s s D {}"
  by (simp add: dir_grown_def)

lemma dir_grown_trans:
  assumes "dir_grown s t D S" "dir_grown t u D T"
  shows "dir_grown s u D (S \<union> T)"
  unfolding dir_grown_def
proof (intro allI impI)
  fix e :: nat assume e: "e < 1024"
  note n = dir_grown_table [OF assms(1) e]
  show "if e \<in> S \<union> T \<and> table_at s D e = None then \<exists>f < 0x100000. entry u D e = new_pde f
     else entry u D e = entry s D e"
    using assms [unfolded dir_grown_def, rule_format, OF e] n by (auto split: if_splits)
qed

definition slots_of :: "u32 \<Rightarrow> nat \<Rightarrow> nat \<Rightarrow> nat set" where
  "slots_of va k n = {pdx (nth_page va i) | i. k \<le> i \<and> i < n}"

lemma slots_of_Suc: "k < n \<Longrightarrow> slots_of va k n = insert (pdx (nth_page va k)) (slots_of va (Suc k) n)"
  by (auto simp: slots_of_def) (metis Suc_leI le_neq_implies_less)

lemma missing_slots_of: "missing s D va k n = {d \<in> slots_of va k n. table_at s D d = None}"
  by (auto simp: missing_def slots_of_def)

lemma boot_map_loop_from:
  assumes "pt_wf s D xs" "region_slots va n" "k \<le> n" "unat va + 4096 * n \<le> 2 ^ 32" "n < 0x100000"
    and "card (missing s D va k n) \<le> length xs"
  shows "\<exists>t ys. boot_map_loop (pgdir_kva D) va (of_nat (4096 * n)) pa perm (of_nat (4096 * k)) s = Some (Inr t) \<and>
    pt_wf t D ys \<and> mapped_from s t D va k n pa perm \<and>
    length ys + card (missing s D va k n) = length xs \<and> dir_grown s t D (slots_of va k n) \<and> same_rest s t \<and>
    kept s t D xs ys"
  using assms
proof (induction "n - k" arbitrary: k s xs)
  case 0
  then have "k = n" by simp
  moreover from this have "slots_of va k n = {}" by (simp add: slots_of_def)
  ultimately show ?case
    using 0 dir_grown_refl [of s D] kept_refl [of s D xs]
    by (subst boot_map_loop.simps) (auto simp: mapped_from_def missing_slots_of intro!: exI [of _ xs])
next
  case (Suc m)
  then have k: "k < n" by simp
  let ?va = "nth_page va k"
  have u: "unat (of_nat (4096 * i) :: u32) = 4096 * i" if "i \<le> n" for i
    using that Suc.prems(5) by (intro unat_of_nat_u32) simp
  have lt: "(of_nat (4096 * k) :: u32) < of_nat (4096 * n)"
    unfolding word_less_nat_alt using u [of k] u [of n] k by linarith
  have d: "pdx ?va \<in> slots" using Suc.prems(2) k by (simp add: region_slots_def)
  have mem: "table_at s D (pdx ?va) \<noteq> None \<or> xs \<noteq> []"
  proof (rule ccontr)
    assume n: "\<not> ?thesis"
    then have "pdx ?va \<in> missing s D va k n" using k by (auto simp: missing_def)
    then have "0 < card (missing s D va k n)" using finite_missing card_gt_0_iff by blast
    with n Suc.prems(6) show False by simp
  qed
  obtain f t where w: "pgdir_walk s (pgdir_kva D) ?va True = Inr (entry_pa f (ptx ?va) + KERNBASE, t)"
    "pt_wf t D (if table_at s D (pdx ?va) = None then tl xs else xs)" "table_at t D (pdx ?va) = Some f"
    "f < 0x10000" "\<And>e. e \<in> slots \<Longrightarrow> e \<noteq> pdx ?va \<Longrightarrow> table_at t D e = table_at s D e"
    "\<And>va'. pdx va' \<in> slots \<Longrightarrow> pt_entry t D va' = pt_entry s D va'"
    "\<And>e. e < 1024 \<Longrightarrow> entry t D e = (if e = pdx ?va \<and> table_at s D (pdx ?va) = None then new_pde f else entry s D e)"
    "same_rest s t" "kept s t D xs (if table_at s D (pdx ?va) = None then tl xs else xs)"
    using walk_any [OF Suc.prems(1) d mem] by blast
  let ?ys = "if table_at s D (pdx ?va) = None then tl xs else xs"
  let ?w = "nth_page pa k OR perm OR PTE_P"
  let ?u = "t\<lparr>mem := store32 (mem t) (entry_pa f (ptx ?va)) ?w\<rparr>"
  note st = leaf_store [OF w(2) d w(3), of ?u ?w, OF refl]
  have tu: "table_at ?u D e = (if e = pdx ?va then Some f else table_at s D e)" if "e \<in> slots" for e
  proof (cases "e = pdx ?va")
    case True
    show ?thesis unfolding True st(1) [OF pdx_less] w(3) by simp
  next
    case False
    show ?thesis unfolding st(1) [OF slots_less [OF that]] w(5) [OF that False] using False by simp
  qed
  have fD: "f \<noteq> D" "f < 0x100000" "D < 0x100000"
    using pt_wf_table [OF w(2) d w(3)] w(4) pt_wf_bound [OF w(2) pt_wfD(4) [OF w(2)]] by auto
  have "kept t ?u D ?ys ?ys"
  proof -
    have "f \<in> tables t D" using d w(3) by (auto simp: tables_def)
    moreover have "tables ?u D = tables t D" using st(1) slots_less by (auto simp: tables_def)
    ultimately show ?thesis
      using fD by (auto simp: kept_def intro: exI [of _ 0] intro!: store32_frame)
  qed
  then have ku: "kept s ?u D xs ?ys" by (rule kept_trans [OF w(9)])
  have "entry ?u D e = entry t D e" if "e < 1024" for e
    using fD that by (simp add: entry_store) (simp add: entry_def)
  then have g: "dir_grown s ?u D {pdx ?va}"
    using w(6,7) fD by (auto simp: dir_grown_def split: if_splits)
  have same: "missing ?u D va (Suc k) n = missing s D va k n - {pdx ?va}"
  proof -
    have "slots_of va (Suc k) n \<subseteq> slots" using Suc.prems(2) by (auto simp: slots_of_def region_slots_def)
    then have "table_at ?u D e = None \<longleftrightarrow> table_at s D e = None \<and> e \<noteq> pdx ?va" if "e \<in> slots_of va (Suc k) n" for e
      using that tu [of e] by (auto split: if_splits)
    then show ?thesis using slots_of_Suc [OF k, of va] by (auto simp: missing_slots_of)
  qed
  have len: "card (missing ?u D va (Suc k) n) + (if table_at s D (pdx ?va) = None then 1 else 0) =
      card (missing s D va k n)"
  proof (cases "table_at s D (pdx ?va) = None")
    case True
    then have "pdx ?va \<in> missing s D va k n" using k by (auto simp: missing_def)
    from card.remove [OF finite_missing this] show ?thesis unfolding same if_P [OF True] by linarith
  next
    case False
    then have "pdx ?va \<notin> missing s D va k n" by (auto simp: missing_def)
    then show ?thesis unfolding same using False by simp
  qed
  then have "card (missing ?u D va (Suc k) n) \<le> length ?ys"
    using Suc.prems(6) by (auto split: if_splits)
  note IH = Suc.hyps(1) [OF _ st(2) Suc.prems(2) _ Suc.prems(4,5) this]
  have "m = n - Suc k" "Suc k \<le> n" using Suc.hyps(2) k by simp_all
  with IH obtain v zs where v:
    "boot_map_loop (pgdir_kva D) va (of_nat (4096 * n)) pa perm (of_nat (4096 * Suc k)) ?u = Some (Inr v)"
    "pt_wf v D zs" "mapped_from ?u v D va (Suc k) n pa perm"
    "length zs + card (missing ?u D va (Suc k) n) = length ?ys" "dir_grown ?u v D (slots_of va (Suc k) n)" "same_rest ?u v"
    "kept ?u v D ?ys zs"
    by blast
  have nx: "of_nat (4096 * k) + PGSIZE = of_nat (4096 * Suc k)" by simp
  have "dir_grown s v D (slots_of va k n)"
    using dir_grown_trans [OF g v(5)] by (simp add: slots_of_Suc [OF k])
  moreover have "length zs + card (missing s D va k n) = length xs"
    using v(4) len mem by (cases xs) (auto split: if_splits)
  moreover have "same_rest s v" using w(8) v(6) by (simp add: same_rest_def)
  moreover have "kept s v D xs zs" by (rule kept_trans [OF ku v(7)])
  moreover have "boot_map_loop (pgdir_kva D) va (of_nat (4096 * n)) pa perm (of_nat (4096 * k)) s = Some (Inr v)"
    using v(1) lt w(1) table_kva_nonnull [OF w(4), of "ptx ?va"]
    by (subst boot_map_loop.simps)
      (simp add: nx kstore_entry nth_page_def [symmetric] del: KERNBASE_def PGSIZE_def of_nat_mult of_nat_Suc)
  moreover have "mapped_from s v D va k n pa perm"
    unfolding mapped_from_def
  proof (intro conjI allI impI)
    fix i assume i: "k \<le> i \<and> i < n"
    show "pt_entry v D (nth_page va i) = nth_page pa i OR perm OR PTE_P"
    proof (cases "i = k")
      case True
      have "pt_entry v D ?va = pt_entry ?u D ?va"
        using v(3) d nth_pages_apart [OF Suc.prems(4)] k by (auto simp: mapped_from_def)
      with True st(3) [OF d] show ?thesis by simp
    next
      case False
      with i v(3) show ?thesis by (simp add: mapped_from_def)
    qed
  next
    fix va' assume a: "pdx va' \<in> slots \<and> (\<forall>i. k \<le> i \<and> i < n \<longrightarrow> \<not> same_page (nth_page va i) va')"
    then have "pt_entry v D va' = pt_entry ?u D va'" using v(3) by (simp add: mapped_from_def)
    with a k st(3) [of va'] w(6) [of va'] show "pt_entry v D va' = pt_entry s D va'" by simp
  qed
  ultimately show ?case using v(2) by blast
qed

section \<open>The static mappings\<close>

lemma boot_map_region_spec:
  assumes "pt_wf s D xs" "region_slots va n" "unat va + 4096 * n \<le> 2 ^ 32" "n < 0x100000"
    and "card (missing s D va 0 n) \<le> length xs"
  obtains t ys where "boot_map_region s (pgdir_kva D) va (of_nat (4096 * n)) pa perm = Some (Inr t)" "pt_wf t D ys"
    "\<And>i. i < n \<Longrightarrow> pt_entry t D (nth_page va i) = nth_page pa i OR perm OR PTE_P"
    "\<And>va'. pdx va' \<in> slots \<Longrightarrow> \<forall>i < n. \<not> same_page (nth_page va i) va' \<Longrightarrow> pt_entry t D va' = pt_entry s D va'"
    "length ys + card (missing s D va 0 n) = length xs" "dir_grown s t D (slots_of va 0 n)" "same_rest s t"
    "kept s t D xs ys"
  using boot_map_loop_from [of s D xs va n 0 pa perm] assms
  unfolding boot_map_region_def mapped_from_def by (auto simp del: of_nat_mult)

text \<open>\<open>boot_map_region\<close> ends and maps every page of its region to the corresponding
  physical page with \<open>perm|PTE_P\<close>, and no other page, given enough free pages for the page
  tables that are missing.\<close>

theorem boot_map_region_maps:
  assumes "pt_wf s D xs" "region_slots va n" "unat va + 4096 * n \<le> 2 ^ 32" "n < 0x100000"
    and "card (missing s D va 0 n) \<le> length xs"
  shows "\<exists>t ys. boot_map_region s (pgdir_kva D) va (of_nat (4096 * n)) pa perm = Some (Inr t) \<and> pt_wf t D ys \<and>
    (\<forall>i < n. pt_entry t D (nth_page va i) = nth_page pa i OR perm OR PTE_P) \<and>
    (\<forall>va'. pdx va' \<in> slots \<and> (\<forall>i < n. \<not> same_page (nth_page va i) va') \<longrightarrow>
       pt_entry t D va' = pt_entry s D va')"
  by (rule boot_map_region_spec [OF assms, of pa perm]) blast

theorem boot_map_region_maps_witness:
  "\<exists>t. boot_map_region demo (pgdir_kva 3) 0xEFFF8000 0x2000 0x10D000 PTE_W = Some (Inr t) \<and>
     pt_entry t 3 0xEFFF9000 = 0x10E003"
proof -
  have p: "nth_page va 0 = va" "nth_page va 1 = va + 4096" for va :: u32 by (simp_all add: nth_page_def)
  have less2: "(\<forall>i < 2. P i) \<longleftrightarrow> P 0 \<and> P (1 :: nat)" for P
    by (auto simp: less_2_cases_iff)
  have r: "region_slots 0xEFFF8000 2"
    by (simp add: region_slots_def less2 p del: One_nat_def) (simp add: pdx_def slots_def unat_PDX)
  have "pdx 0xEFFF9000 = pdx 0xEFFF8000" by (simp add: pdx_def unat_PDX)
  then have "pdx (nth_page 0xEFFF8000 i) = pdx 0xEFFF8000" if "i < 2" for i
    using that p less_2_cases [OF that] by auto
  then have "missing demo 3 0xEFFF8000 0 2 \<subseteq> {pdx 0xEFFF8000}"
    unfolding missing_def by blast
  from card_mono [OF _ this] have c: "card (missing demo 3 0xEFFF8000 0 2) \<le> length [2 :: nat, 1]"
    by simp
  obtain t where "boot_map_region demo (pgdir_kva 3) 0xEFFF8000 (of_nat (4096 * 2)) 0x10D000 PTE_W = Some (Inr t)"
    "\<forall>i < 2. pt_entry t 3 (nth_page 0xEFFF8000 i) = nth_page 0x10D000 i OR PTE_W OR PTE_P"
    using boot_map_region_maps [OF demo_wf r _ _ c, of "0x10D000" PTE_W] by auto
  then show ?thesis by (auto simp: less2 p simp del: One_nat_def)
qed

end
