(* ===== verification/Kern_Map.thy ===== *)
theory Kern_Map
  imports Env Boot_Map
begin

text \<open>
  The kernel's address space: the mappings \<open>mem_init\<close> of \<open>kern/pmap.c\<close> installs in \<open>kern_pgdir\<close> and
  the check \<open>check_kern_pgdir\<close> it runs on them. The main results say which entry every address of
  the kernel's address space has afterwards, and that the check succeeds exactly on page
  directories with the mappings it is written for.
\<close>

section \<open>Operations\<close>

definition assert_that :: "bool \<Rightarrow> string \<Rightarrow> 's \<Rightarrow> fault + 's" where
  "assert_that b what s = (if b then Inr s else Inl (Panic (''assertion failed: '' @ what)))"

text \<open>The part of \<open>mem_init\<close> that sets up virtual memory. \<open>pages\<close>, \<open>envs\<close> and \<open>bootstack\<close> are the
  kernel addresses of the arrays and of the boot stack.\<close>

definition map_kernel ::
  "u32 \<Rightarrow> u32 \<Rightarrow> u32 \<Rightarrow> 'z pmap_state_scheme \<Rightarrow> (fault + 'z pmap_state_scheme) option" where
  "map_kernel pages_kva envs_kva bootstack s =
     bindo (Some (PADDR pages_kva)) (\<lambda>pa.
     bindo (boot_map_region s (kern_pgdir s) UPAGES PTSIZE pa PTE_U) (\<lambda>s.
     bindo (Some (PADDR envs_kva)) (\<lambda>pa.
     bindo (boot_map_region s (kern_pgdir s) UENVS PTSIZE pa PTE_U) (\<lambda>s.
     bindo (Some (PADDR bootstack)) (\<lambda>pa.
     bindo (boot_map_region s (kern_pgdir s) (KSTACKTOP - KSTKSIZE) KSTKSIZE pa PTE_W) (\<lambda>s.
     boot_map_region s (kern_pgdir s) KERNBASE (- KERNBASE) 0 PTE_W))))))"

text \<open>The four loops of \<open>check_kern_pgdir\<close> over the pages of a region: the \<open>n\<close> bytes at \<open>va\<close> must
  be mapped at \<open>pa\<close>.\<close>

partial_function (option) check_region ::
  "'z pmap_state_scheme \<Rightarrow> string \<Rightarrow> u32 \<Rightarrow> u32 \<Rightarrow> fault + u32 \<Rightarrow> u32 \<Rightarrow> u32 \<Rightarrow> (fault + 'z pmap_state_scheme) option" where
  "check_region s what pgdir va pa n i =
     (if i < n then
        bindo (Some (check_va2pa s pgdir (va + i))) (\<lambda>r.
        bindo (Some pa) (\<lambda>a.
        bindo (Some (assert_that (r = a + i) what s)) (\<lambda>s.
        check_region s what pgdir va pa n (i + PGSIZE))))
      else Some (Inr s))"

definition sizeof_PageInfo :: u32 where [simp]: "sizeof_PageInfo = 8"

text \<open>The last loop: which directory entries are present.\<close>

definition check_pde :: "u32 \<Rightarrow> nat \<Rightarrow> 'z pmap_state_scheme \<Rightarrow> fault + 'z pmap_state_scheme" where
  "check_pde pgdir i s =
     (let pde = kload s (pgdir + 4 * of_nat i) in
      if of_nat i = PDX UVPT \<or> of_nat i = PDX (KSTACKTOP - 1) \<or> of_nat i = PDX UPAGES \<or> of_nat i = PDX UENVS
      then assert_that (pde AND PTE_P \<noteq> 0) ''pgdir[i] & PTE_P'' s
      else if of_nat i \<ge> PDX KERNBASE then
        bindr (assert_that (pde AND PTE_P \<noteq> 0) ''pgdir[i] & PTE_P'' s)
          (assert_that (pde AND PTE_W \<noteq> 0) ''pgdir[i] & PTE_W'')
      else assert_that (pde = 0) ''pgdir[i] == 0'' s)"

definition check_kern_pgdir ::
  "u32 \<Rightarrow> u32 \<Rightarrow> u32 \<Rightarrow> 'z env_state_scheme \<Rightarrow> (fault + 'z env_state_scheme) option" where
  "check_kern_pgdir pages_kva envs_kva bootstack s =
     (let pgdir = kern_pgdir s in
      bindo (check_region s ''check_va2pa(pgdir, UPAGES + i) == PADDR(pages) + i'' pgdir UPAGES (PADDR pages_kva)
        (ROUNDUP (npages s * sizeof_PageInfo) PGSIZE) 0) (\<lambda>s.
      bindo (check_region s ''check_va2pa(pgdir, UENVS + i) == PADDR(envs) + i'' pgdir UENVS (PADDR envs_kva)
        (ROUNDUP (NENV * sizeof_Env) PGSIZE) 0) (\<lambda>s.
      bindo (check_region s ''check_va2pa(pgdir, KERNBASE + i) == i'' pgdir KERNBASE (Inr 0) (npages s * PGSIZE) 0) (\<lambda>s.
      bindo (check_region s ''check_va2pa(pgdir, KSTACKTOP - KSTKSIZE + i) == PADDR(bootstack) + i'' pgdir
        (KSTACKTOP - KSTKSIZE) (PADDR bootstack) KSTKSIZE 0) (\<lambda>s.
      bindo (Some (check_va2pa s pgdir (KSTACKTOP - PTSIZE))) (\<lambda>r.
      bindo (Some (assert_that (r = NOT 0) ''check_va2pa(pgdir, KSTACKTOP - PTSIZE) == ~0'' s)) (\<lambda>s.
      bindo (Some (for_each (check_pde pgdir) [0..<unat NPDENTRIES] s)) (\<lambda>s.
      Some (Inr (cprintf (''check_kern_pgdir() succeeded!'' @ nl) [] s))))))))))"

section \<open>One region\<close>

lemma pdx_nth_page:
  assumes "unat va + 4096 * n \<le> 2 ^ 32" "i < n"
  shows "pdx (nth_page va i) = (unat va + 4096 * i) div 4194304"
  using unat_nth_page [OF assms] by (simp add: pdx_def unat_PDX)

lemma slots_of_range:
  assumes "unat va = 4096 * b" "0 < n" "b + n \<le> 0x100000"
  shows "slots_of va 0 n = {b div 1024 .. (b + n - 1) div 1024}"
proof -
  have w: "unat va + 4096 * n \<le> 2 ^ 32" using assms by simp
  have e: "pdx (nth_page va i) = (b + i) div 1024" if "i < n" for i
    using div_mult_mult1 [of 4096 "b + i" 1024] by (simp add: pdx_nth_page [OF w that] assms(1) add_mult_distrib2)
  show ?thesis
  proof (intro set_eqI iffI)
    fix d assume "d \<in> slots_of va 0 n"
    then obtain i where "i < n" "d = (b + i) div 1024" using e by (auto simp: slots_of_def)
    then show "d \<in> {b div 1024 .. (b + n - 1) div 1024}" by (simp add: div_le_mono)
  next
    fix d assume d: "d \<in> {b div 1024 .. (b + n - 1) div 1024}"
    let ?i = "1024 * d - b"
    have le: "1024 * d \<le> b + n - 1" using d by (metis atLeastAtMost_iff div_times_less_eq_dividend le_trans mult.commute mult_le_mono2)
    then have i: "?i < n" using assms(2) by linarith
    have "(b + ?i) div 1024 = d"
    proof (cases "b \<le> 1024 * d")
      case False
      then have "d \<le> b div 1024" by (simp add: less_eq_div_iff_mult_less_eq)
      then have "d = b div 1024" using d by simp
      then show ?thesis using False by simp
    qed simp
    then show "d \<in> slots_of va 0 n" using i e unfolding slots_of_def by (metis (mono_tags, lifting) le0 mem_Collect_eq)
  qed
qed

text \<open>The pages of a region, by address.\<close>

lemma region_page:
  assumes "unat va = 4096 * b" "b + n \<le> 0x100000" "i < n"
  shows "same_page (nth_page va i) a \<longleftrightarrow> unat a div 4096 = b + i"
    and "unat a div 4096 = b + i \<Longrightarrow> nth_page pa i = pa + (ROUNDDOWN a PGSIZE - va)"
proof -
  have w: "unat va + 4096 * n \<le> 2 ^ 32" using assms by simp
  have u: "unat (nth_page va i) = 4096 * (b + i)" using unat_nth_page [OF w assms(3)] assms(1) by simp
  show "same_page (nth_page va i) a \<longleftrightarrow> unat a div 4096 = b + i"
    by (auto simp: same_page_def word_unat_eq_iff unat_PGNUM u)
  assume a: "unat a div 4096 = b + i"
  have "unat a - unat a mod 4096 = 4096 * (b + i)" using a minus_mod_eq_mult_div [of "unat a" 4096] by simp
  then have "ROUNDDOWN a PGSIZE = nth_page va i"
    by (intro word_eq_unatI) (simp add: unat_ROUNDDOWN u)
  then show "nth_page pa i = pa + (ROUNDDOWN a PGSIZE - va)" by (simp add: nth_page_def)
qed

definition in_region :: "u32 \<Rightarrow> nat \<Rightarrow> u32 \<Rightarrow> bool" where
  "in_region va n a \<longleftrightarrow> unat va \<le> unat a \<and> unat a < unat va + 4096 * n"

lemma in_region_page:
  "unat va = 4096 * b \<Longrightarrow> in_region va n a \<longleftrightarrow> (\<exists>i < n. unat a div 4096 = b + i)"
proof
  assume v: "unat va = 4096 * b" and "in_region va n a"
  then have "unat a div 4096 - b < n \<and> unat a div 4096 = b + (unat a div 4096 - b)"
    unfolding in_region_def by auto
  then show "\<exists>i < n. unat a div 4096 = b + i" by blast
next
  assume v: "unat va = 4096 * b" and "\<exists>i < n. unat a div 4096 = b + i"
  then obtain i where i: "i < n" "unat a div 4096 = b + i" by blast
  then have "4096 * (b + i) \<le> unat a \<and> unat a < 4096 * (b + i) + 4096"
    using div_mult_mod_eq [of "unat a" 4096] mod_less_divisor [of 4096 "unat a"] by simp
  with i(1) v show "in_region va n a" by (simp add: in_region_def)
qed

lemma boot_map_region_layout:
  assumes wf: "pt_wf s D xs" and va: "unat va = 4096 * b" "0 < n" "b + n \<le> 0x100000" "n < 0x100000"
    and S: "S = {b div 1024 .. (b + n - 1) div 1024}" "S \<subseteq> slots" "\<And>d. d \<in> S \<Longrightarrow> table_at s D d = None"
    and free: "card S \<le> length xs"
  obtains t ys where "boot_map_region s (pgdir_kva D) va (of_nat (4096 * n)) pa perm = Some (Inr t)" "pt_wf t D ys"
    "\<And>a. pdx a \<in> slots \<Longrightarrow> pt_entry t D a =
      (if in_region va n a then (pa + (ROUNDDOWN a PGSIZE - va)) OR perm OR PTE_P else pt_entry s D a)"
    "length ys + card S = length xs" "dir_grown s t D S" "same_rest s t" "kept s t D xs ys"
proof -
  have sl: "slots_of va 0 n = S" using slots_of_range [OF va(1-3)] S(1) by simp
  then have mi: "missing s D va 0 n = S" using S(3) by (auto simp: missing_slots_of)
  have r: "region_slots va n" using sl S(2) by (auto simp: region_slots_def slots_of_def)
  have w: "unat va + 4096 * n \<le> 2 ^ 32" using va by simp
  have free': "card (missing s D va 0 n) \<le> length xs" unfolding mi by (rule free)
  obtain t ys where t: "boot_map_region s (pgdir_kva D) va (of_nat (4096 * n)) pa perm = Some (Inr t)" "pt_wf t D ys"
    "\<And>i. i < n \<Longrightarrow> pt_entry t D (nth_page va i) = nth_page pa i OR perm OR PTE_P"
    "\<And>va'. pdx va' \<in> slots \<Longrightarrow> \<forall>i < n. \<not> same_page (nth_page va i) va' \<Longrightarrow> pt_entry t D va' = pt_entry s D va'"
    "length ys + card (missing s D va 0 n) = length xs" "dir_grown s t D (slots_of va 0 n)" "same_rest s t"
    "kept s t D xs ys"
    using boot_map_region_spec [OF wf r w va(4) free', of pa perm] by metis
  have "pt_entry t D a =
      (if in_region va n a then (pa + (ROUNDDOWN a PGSIZE - va)) OR perm OR PTE_P else pt_entry s D a)"
    if "pdx a \<in> slots" for a
  proof (cases "in_region va n a")
    case True
    then obtain i where i: "i < n" "unat a div 4096 = b + i" using in_region_page [OF va(1)] by blast
    note p = region_page [OF va(1,3) i(1), of a]
    have "pt_entry t D (nth_page va i) = pt_entry t D a" using p(1) i(2) by (intro pt_entry_same_page) simp
    then show ?thesis using t(3) [OF i(1)] p(2) [OF i(2), of pa] True by simp
  next
    case False
    then have "\<forall>i < n. \<not> same_page (nth_page va i) a"
      using in_region_page [OF va(1)] region_page(1) [OF va(1,3)] by blast
    then show ?thesis using t(4) [OF that] False by simp
  qed
  from that [OF t(1,2) this] t(5-8) show thesis unfolding mi sl by blast
qed

section \<open>The layout of the kernel's address space\<close>

text \<open>The entry of every address, as \<open>inc/memlayout.h\<close> draws it: the arrays \<open>pages\<close> and \<open>envs\<close> for the
  user to read, the kernel stack above its guard pages, and all of physical memory.\<close>

definition kern_layout :: "u32 \<Rightarrow> u32 \<Rightarrow> u32 \<Rightarrow> u32 \<Rightarrow> u32" where
  "kern_layout pages_pa envs_pa stack_pa a =
     (let page = ROUNDDOWN a PGSIZE in
      if KERNBASE \<le> a then (page - KERNBASE) OR PTE_W OR PTE_P
      else if KSTACKTOP - KSTKSIZE \<le> a then (stack_pa + (page - (KSTACKTOP - KSTKSIZE))) OR PTE_W OR PTE_P
      else if UPAGES \<le> a \<and> a < UPAGES + PTSIZE then (pages_pa + (page - UPAGES)) OR PTE_U OR PTE_P
      else if UENVS \<le> a \<and> a < UENVS + PTSIZE then (envs_pa + (page - UENVS)) OR PTE_U OR PTE_P
      else 0)"

text \<open>The directory \<open>mem_init\<close> starts from: it maps itself at \<open>UVPT\<close> and nothing else.\<close>

definition fresh_pgdir :: "'z pmap_state_scheme \<Rightarrow> nat \<Rightarrow> bool" where
  "fresh_pgdir s D \<longleftrightarrow> kern_pgdir s = pgdir_kva D \<and>
     (\<forall>d < 1024. entry s D d = (if d = pdx UVPT then page2pa D OR PTE_U OR PTE_P else 0))"

lemma layout_regions:
  "in_region KERNBASE 65536 a \<longleftrightarrow> KERNBASE \<le> a"
  "in_region (KSTACKTOP - KSTKSIZE) 8 a \<longleftrightarrow> KSTACKTOP - KSTKSIZE \<le> a \<and> \<not> KERNBASE \<le> a"
  "in_region UPAGES 1024 a \<longleftrightarrow> UPAGES \<le> a \<and> a < UPAGES + PTSIZE"
  "in_region UENVS 1024 a \<longleftrightarrow> UENVS \<le> a \<and> a < UENVS + PTSIZE"
  using unat_u32_lt [of a] by (auto simp: in_region_def word_le_nat_alt word_less_nat_alt)

lemma pdx_UVPT [simp]: "pdx 0xEF400000 = 957" by (simp add: pdx_def unat_PDX)

lemma slots_957: "d \<in> slots \<longleftrightarrow> d < 1024 \<and> d \<noteq> 957"
  using pdx_UVPT by (simp add: slots_def pdx_def del: pdx_UVPT)

lemma map_kernel_spec:
  assumes wf: "pt_wf s D xs" and fresh: "fresh_pgdir s D" and free: "67 \<le> length xs"
    and kva: "KERNBASE \<le> p" "KERNBASE \<le> e" "KERNBASE \<le> b"
  obtains t ys where "map_kernel p e b s = Some (Inr t)" "pt_wf t D ys" "length ys + 67 = length xs"
    "\<And>a. pdx a \<in> slots \<Longrightarrow> pt_entry t D a = kern_layout (p - KERNBASE) (e - KERNBASE) (b - KERNBASE) a"
    "dir_grown s t D ({955, 956, 959} \<union> {960..1023})" "same_rest s t" "kept s t D xs ys"
proof -
  have none: "table_at s D d = None" if "d \<in> slots" for d
    using fresh that by (simp add: fresh_pgdir_def slots_957 table_at_def)
  have zero: "pt_entry s D a = 0" if "pdx a \<in> slots" for a
    using none [OF that] by (simp add: pt_entry_def)
  have pa: "PADDR k = Inr (k - KERNBASE)" if "KERNBASE \<le> k" for k
    using that by (simp add: PADDR_def not_less [symmetric])
  have tab: "table_at t D d = None" if "dir_grown s t D S" "d \<in> slots" "d \<notin> S" for t S d
    using dir_grown_table [OF that(1)] that none [of d] by (simp add: slots_957)
  obtain s1 x1 where s1: "boot_map_region s (pgdir_kva D) UPAGES PTSIZE (p - KERNBASE) PTE_U = Some (Inr s1)"
    "pt_wf s1 D x1" "\<And>a. pdx a \<in> slots \<Longrightarrow> pt_entry s1 D a = (if in_region UPAGES 1024 a
       then (p - KERNBASE + (ROUNDDOWN a PGSIZE - UPAGES)) OR PTE_U OR PTE_P else pt_entry s D a)"
    "length x1 + card {956 :: nat} = length xs" "dir_grown s s1 D {956}" "same_rest s s1" "kept s s1 D xs x1"
  proof (rule boot_map_region_layout [OF wf, of UPAGES 978944 1024 "{956}" "p - KERNBASE" PTE_U])
    show "table_at s D d = None" if "d \<in> {956}" for d using that by (intro none) (simp add: slots_957)
  qed (use free in \<open>simp_all add: slots_957\<close>)
  obtain s2 x2 where s2: "boot_map_region s1 (pgdir_kva D) UENVS PTSIZE (e - KERNBASE) PTE_U = Some (Inr s2)"
    "pt_wf s2 D x2" "\<And>a. pdx a \<in> slots \<Longrightarrow> pt_entry s2 D a = (if in_region UENVS 1024 a
       then (e - KERNBASE + (ROUNDDOWN a PGSIZE - UENVS)) OR PTE_U OR PTE_P else pt_entry s1 D a)"
    "length x2 + card {955 :: nat} = length x1" "dir_grown s1 s2 D {955}" "same_rest s1 s2" "kept s1 s2 D x1 x2"
  proof (rule boot_map_region_layout [OF s1(2), of UENVS 977920 1024 "{955}" "e - KERNBASE" PTE_U])
    show "table_at s1 D d = None" if "d \<in> {955}" for d using that by (intro tab [OF s1(5)]) (simp_all add: slots_957)
  qed (use free s1(4) in \<open>simp_all add: slots_957\<close>)
  note g2 = dir_grown_trans [OF s1(5) s2(5)]
  obtain s3 x3 where s3: "boot_map_region s2 (pgdir_kva D) (KSTACKTOP - KSTKSIZE) KSTKSIZE (b - KERNBASE) PTE_W = Some (Inr s3)"
    "pt_wf s3 D x3" "\<And>a. pdx a \<in> slots \<Longrightarrow> pt_entry s3 D a = (if in_region (KSTACKTOP - KSTKSIZE) 8 a
       then (b - KERNBASE + (ROUNDDOWN a PGSIZE - (KSTACKTOP - KSTKSIZE))) OR PTE_W OR PTE_P else pt_entry s2 D a)"
    "length x3 + card {959 :: nat} = length x2" "dir_grown s2 s3 D {959}" "same_rest s2 s3" "kept s2 s3 D x2 x3"
  proof (rule boot_map_region_layout [OF s2(2), of "KSTACKTOP - KSTKSIZE" 983032 8 "{959}" "b - KERNBASE" PTE_W])
    show "table_at s2 D d = None" if "d \<in> {959}" for d using that by (intro tab [OF g2]) (simp_all add: slots_957)
  qed (use free s1(4) s2(4) in \<open>simp_all add: slots_957\<close>)
  note g3 = dir_grown_trans [OF g2 s3(5)]
  obtain s4 x4 where s4: "boot_map_region s3 (pgdir_kva D) KERNBASE (of_nat (4096 * 65536)) 0 PTE_W = Some (Inr s4)"
    "pt_wf s4 D x4" "\<And>a. pdx a \<in> slots \<Longrightarrow> pt_entry s4 D a = (if in_region KERNBASE 65536 a
       then (0 + (ROUNDDOWN a PGSIZE - KERNBASE)) OR PTE_W OR PTE_P else pt_entry s3 D a)"
    "length x4 + card {960 .. 1023 :: nat} = length x3" "dir_grown s3 s4 D {960..1023}" "same_rest s3 s4" "kept s3 s4 D x3 x4"
  proof (rule boot_map_region_layout [OF s3(2), of KERNBASE 983040 65536 "{960..1023}" 0 PTE_W])
    show "table_at s3 D d = None" if "d \<in> {960..1023}" for d using that by (intro tab [OF g3]) (simp_all add: slots_957)
    show "{960..1023} \<subseteq> slots" by (auto simp: slots_957)
  qed (use free s1(4) s2(4) s3(4) in simp_all)
  have k: "kern_pgdir s = pgdir_kva D" "kern_pgdir s1 = pgdir_kva D" "kern_pgdir s2 = pgdir_kva D" "kern_pgdir s3 = pgdir_kva D"
    using fresh s1(6) s2(6) s3(6) by (simp_all add: fresh_pgdir_def same_rest_def)
  have n: "- KERNBASE = of_nat (4096 * 65536)" by simp
  have run: "map_kernel p e b s = Some (Inr s4)"
    unfolding map_kernel_def n pa [OF kva(1)] pa [OF kva(2)] pa [OF kva(3)] k(1) bindo_simps s1(1) k(2) s2(1) k(3) s3(1) k(4)
    by (rule s4(1))
  have len: "length x4 + 67 = length xs" using s1(4) s2(4) s3(4) s4(4) by simp
  have lay: "pt_entry s4 D a = kern_layout (p - KERNBASE) (e - KERNBASE) (b - KERNBASE) a" if "pdx a \<in> slots" for a
    unfolding s4(3) [OF that] s3(3) [OF that] s2(3) [OF that] s1(3) [OF that] zero [OF that] layout_regions kern_layout_def Let_def
    by (simp add: word_le_nat_alt word_less_nat_alt)
  have "{956} \<union> {955} \<union> {959} \<union> {960..1023} = {955, 956, 959} \<union> {960..1023 :: nat}" by auto
  with dir_grown_trans [OF g3 s4(5)] have dir: "dir_grown s s4 D ({955, 956, 959} \<union> {960..1023})" by (simp only:)
  have rest: "same_rest s s4" using s1(6) s2(6) s3(6) s4(6) by (simp add: same_rest_def)
  have "kept s s4 D xs x4" by (rule kept_trans [OF kept_trans [OF kept_trans [OF s1(7) s2(7)] s3(7)] s4(7)])
  from that [OF run s4(2) len lay dir rest this] show thesis .
qed

section \<open>What check_kern_pgdir checks\<close>

definition page_mapped :: "'z pmap_state_scheme \<Rightarrow> nat \<Rightarrow> u32 \<Rightarrow> u32 \<Rightarrow> bool" where
  "page_mapped s D va pa \<longleftrightarrow> present (pt_entry s D va) \<and> PTE_ADDR (pt_entry s D va) = pa"

definition region_mapped :: "'z pmap_state_scheme \<Rightarrow> nat \<Rightarrow> u32 \<Rightarrow> u32 \<Rightarrow> nat \<Rightarrow> bool" where
  "region_mapped s D va pa n \<longleftrightarrow> (\<forall>i < n. page_mapped s D (nth_page va i) (nth_page pa i))"

lemma PTE_ADDR_not_ones: "PTE_ADDR w \<noteq> NOT 0"
proof
  assume "PTE_ADDR w = NOT 0"
  then have "bit (w AND NOT 0xFFF) 0 = bit (NOT 0 :: u32) 0" by (simp only: PTE_ADDR_def)
  then show False by (simp add: bit_and_iff bit_not_iff)
qed

lemma nth_page_not_ones: "unat a mod 4096 = 0 \<Longrightarrow> nth_page a i \<noteq> NOT 0"
proof
  assume a: "unat a mod 4096 = 0" and n: "nth_page a i = NOT 0"
  have "4096 * (unat a div 4096) = unat a" using a div_mult_mod_eq [of "unat a" 4096] by simp
  moreover have "a = of_nat (unat a)" by simp
  ultimately have "a = of_nat (4096 * (unat a div 4096))" by metis
  then have "nth_page a i = of_nat (4096 * (unat a div 4096 + i))"
    unfolding nth_page_def by (metis add_mult_distrib2 of_nat_add)
  also have "\<dots> = push_bit 12 (of_nat (unat a div 4096 + i))"
    by (simp only: push_bit_eq_mult of_nat_mult) (simp add: mult.commute)
  finally have "bit (push_bit 12 (of_nat (unat a div 4096 + i) :: u32)) 0 = bit (NOT 0 :: u32) 0" using n by simp
  then show False by (simp add: bit_push_bit_iff)
qed

lemma check_region_from:
  assumes wf: "pt_wf s D xs" and sl: "region_slots va n" and n: "n < 0x100000" and a: "unat a mod 4096 = 0"
    and k: "k \<le> n"
  shows "check_region s what (pgdir_kva D) va (Inr a) (of_nat (4096 * n)) (of_nat (4096 * k)) = Some
    (if \<forall>i. k \<le> i \<and> i < n \<longrightarrow> page_mapped s D (nth_page va i) (nth_page a i) then Inr s
     else Inl (Panic (''assertion failed: '' @ what)))"
  using k
proof (induction "n - k" arbitrary: k)
  case 0
  then have "k = n" by simp
  then show ?case by (subst check_region.simps) auto
next
  case (Suc m)
  then have kn: "k < n" by simp
  have u: "unat (of_nat (4096 * i) :: u32) = 4096 * i" if "i \<le> n" for i
    using that n by (intro unat_of_nat_u32) simp
  have lt: "(of_nat (4096 * k) :: u32) < of_nat (4096 * n)"
    unfolding word_less_nat_alt using u [of k] u [of n] kn by linarith
  have nx: "of_nat (4096 * k) + PGSIZE = of_nat (4096 * Suc k)" by simp
  have pg: "va + of_nat (4096 * k) = nth_page va k" "a + of_nat (4096 * k) = nth_page a k" by (simp_all add: nth_page_def)
  have d: "pdx (nth_page va k) \<in> slots" using sl kn by (simp add: region_slots_def)
  have r: "((if present (pt_entry s D (nth_page va k)) then PTE_ADDR (pt_entry s D (nth_page va k)) else NOT 0) = nth_page a k)
      = page_mapped s D (nth_page va k) (nth_page a k)"
    using nth_page_not_ones [OF a, of k] by (auto simp: page_mapped_def)
  have "m = n - Suc k" "Suc k \<le> n" using Suc.hyps(2) kn by simp_all
  note IH = Suc.hyps(1) [OF this]
  have step: "check_region s what (pgdir_kva D) va (Inr a) (of_nat (4096 * n)) (of_nat (4096 * k)) =
      (if page_mapped s D (nth_page va k) (nth_page a k)
       then check_region s what (pgdir_kva D) va (Inr a) (of_nat (4096 * n)) (of_nat (4096 * Suc k))
       else Some (Inl (Panic (''assertion failed: '' @ what))))"
    by (subst check_region.simps)
      (simp only: lt if_True pg check_va2pa_eq [OF wf d] bindo_simps assert_that_def r nx split: if_splits, simp)
  have "(\<forall>i. k \<le> i \<and> i < n \<longrightarrow> Q i) \<longleftrightarrow> Q k \<and> (\<forall>i. Suc k \<le> i \<and> i < n \<longrightarrow> Q i)" for Q
    using kn by (metis Suc_leD Suc_leI le_neq_implies_less order.refl)
  then show ?case unfolding step IH by simp
qed

lemma check_region_eq:
  assumes "pt_wf s D xs" "region_slots va n" "n < 0x100000" "unat a mod 4096 = 0"
  shows "check_region s what (pgdir_kva D) va (Inr a) (of_nat (4096 * n)) 0 = Some
    (if region_mapped s D va a n then Inr s else Inl (Panic (''assertion failed: '' @ what)))"
  using check_region_from [OF assms, of 0 what] by (simp add: region_mapped_def)

text \<open>What the last loop asks of the directory entry of slot \<open>d\<close>.\<close>

definition pde_ok :: "nat \<Rightarrow> u32 \<Rightarrow> bool" where
  "pde_ok d pde \<longleftrightarrow>
     (if d \<in> {955, 956, 957, 959} then present pde
      else if 960 \<le> d then present pde \<and> pde AND PTE_W \<noteq> 0 else pde = 0)"

lemma check_pde_ok:
  assumes "d < 1024"
  shows "pde_ok d (entry s D d) \<Longrightarrow> check_pde (pgdir_kva D) d s = Inr s"
    and "\<not> pde_ok d (entry s D d) \<Longrightarrow> \<exists>m. check_pde (pgdir_kva D) d s = Inl (Panic m)"
proof -
  have i: "of_nat d = (w :: u32) \<longleftrightarrow> d = unat w" "w \<le> (of_nat d :: u32) \<longleftrightarrow> unat w \<le> d" for w
  proof -
    have "unat (of_nat d :: u32) = d" using assms by (intro unat_of_nat_u32) simp
    then show "of_nat d = (w :: u32) \<longleftrightarrow> d = unat w" "w \<le> (of_nat d :: u32) \<longleftrightarrow> unat w \<le> d"
      by (auto simp: word_unat_eq_iff word_le_nat_alt)
  qed
  have c: "unat (PDX UVPT) = 957" "unat (PDX (KSTACKTOP - 1)) = 959" "unat (PDX UPAGES) = 956" "unat (PDX UENVS) = 955"
    "unat (PDX KERNBASE) = 960" by (simp_all add: unat_PDX)
  show "pde_ok d (entry s D d) \<Longrightarrow> check_pde (pgdir_kva D) d s = Inr s"
    "\<not> pde_ok d (entry s D d) \<Longrightarrow> \<exists>m. check_pde (pgdir_kva D) d s = Inl (Panic m)"
    unfolding check_pde_def Let_def dir_kva i c
    by (auto simp: pde_ok_def assert_that_def present_def split: if_splits)
qed

lemma check_pdes:
  assumes "\<forall>d \<in> set ds. d < 1024"
  shows "if \<forall>d \<in> set ds. pde_ok d (entry s D d) then for_each (check_pde (pgdir_kva D)) ds s = Inr s
    else \<exists>m. for_each (check_pde (pgdir_kva D)) ds s = Inl (Panic m)"
  using assms
proof (induction ds)
  case (Cons d ds)
  then show ?case
    using check_pde_ok [of d s D] by (cases "pde_ok d (entry s D d)") (auto split: if_splits)
qed simp

text \<open>The mappings a page directory must have to pass the check.\<close>

definition kern_checked :: "u32 \<Rightarrow> u32 \<Rightarrow> u32 \<Rightarrow> 'z pmap_state_scheme \<Rightarrow> nat \<Rightarrow> bool" where
  "kern_checked p e b s D \<longleftrightarrow>
     region_mapped s D UPAGES (p - KERNBASE) ((unat (npages s) + 511) div 512) \<and>
     region_mapped s D UENVS (e - KERNBASE) 24 \<and>
     region_mapped s D KERNBASE 0 (unat (npages s)) \<and>
     region_mapped s D (KSTACKTOP - KSTKSIZE) (b - KERNBASE) 8 \<and>
     \<not> present (pt_entry s D (KSTACKTOP - PTSIZE)) \<and>
     (\<forall>d < 1024. pde_ok d (entry s D d))"

lemma region_slots_range:
  assumes "unat va = 4096 * b" "b + n \<le> 0x100000" "957 < b div 1024 \<or> b + n \<le> 979968"
  shows "region_slots va n"
proof (cases "n = 0")
  case False
  then have "slots_of va 0 n = {b div 1024 .. (b + n - 1) div 1024}" using slots_of_range [OF assms(1) _ assms(2)] by simp
  moreover have "(b + n - 1) div 1024 < 1024" using assms(2) False by (simp add: less_mult_imp_div_less)
  moreover have "957 < b div 1024 \<or> (b + n - 1) div 1024 < 957"
    using assms(3) False by (auto intro: less_mult_imp_div_less)
  ultimately have "slots_of va 0 n \<subseteq> slots" by (auto simp: slots_957)
  then show ?thesis by (auto simp: region_slots_def slots_of_def)
qed (simp add: region_slots_def)

lemma pages_array_size:
  assumes "unat (n :: u32) \<le> 0x10000"
  shows "ROUNDUP (n * sizeof_PageInfo) PGSIZE = of_nat (4096 * ((unat n + 511) div 512))"
proof (rule word_eq_unatI)
  have m: "unat (n * 8) = 8 * unat n" using assms by (simp add: unat_word_ariths)
  have "(8 * unat n + 4095) div 4096 = (8 * unat n + 4095) div 8 div 512" by (simp only: div_mult2_eq [symmetric]) simp
  also have "(8 * unat n + 4095) div 8 = unat n + 511" by simp
  finally have e: "(8 * unat n + 4095) div 4096 * 4096 = 4096 * ((unat n + 511) div 512)" by simp
  have "(unat n + 511) div 512 \<le> (0x10000 + 511) div 512" using assms by (intro div_le_mono) simp
  then have u: "unat (of_nat (4096 * ((unat n + 511) div 512)) :: u32) = 4096 * ((unat n + 511) div 512)"
    by (intro unat_of_nat_u32) simp
  have "unat (ROUNDUP (n * 8) 4096) = (8 * unat n + 4095) div 4096 * 4096"
    using m assms by (subst unat_ROUNDUP) simp_all
  then show "unat (ROUNDUP (n * sizeof_PageInfo) PGSIZE) = unat (of_nat (4096 * ((unat n + 511) div 512)) :: u32)"
    by (simp only: u e sizeof_PageInfo_def PGSIZE_def)
qed

lemma envs_array_size: "ROUNDUP (NENV * sizeof_Env) PGSIZE = of_nat (4096 * 24)"
  by (simp add: ROUNDUP_def ROUNDDOWN_def)

lemma check_kern_pgdir_spec:
  assumes wf: "pt_wf s D xs" and D: "kern_pgdir s = pgdir_kva D"
    and kva: "KERNBASE \<le> p" "KERNBASE \<le> e" "KERNBASE \<le> b"
    and al: "unat (p - KERNBASE) mod 4096 = 0" "unat (e - KERNBASE) mod 4096 = 0" "unat (b - KERNBASE) mod 4096 = 0"
  shows "if kern_checked p e b s D then check_kern_pgdir p e b s = Some (Inr (cprintf (''check_kern_pgdir() succeeded!'' @ nl) [] s))
    else \<exists>m. check_kern_pgdir p e b s = Some (Inl (Panic m))"
proof -
  let ?n = "unat (npages s)" and ?k = "(unat (npages s) + 511) div 512"
  have n: "?n \<le> 0x10000" using wf by (simp add: pt_wf_def)
  then have k: "?k \<le> 128" using div_le_mono [of "?n + 511" "0x10000 + 511" 512] by simp
  have pa: "PADDR v = Inr (v - KERNBASE)" if "KERNBASE \<le> v" for v
    using that by (simp add: PADDR_def not_less [symmetric])
  have np: "npages s * PGSIZE = of_nat (4096 * ?n)" by simp
  have ks: "KSTKSIZE = of_nat (4096 * 8)" by simp
  have r: "region_slots UPAGES ?k" "region_slots UENVS 24" "region_slots KERNBASE ?n" "region_slots (KSTACKTOP - KSTKSIZE) 8"
    using k n
    by (intro region_slots_range [of _ 978944] region_slots_range [of _ 977920] region_slots_range [of _ 983040]
        region_slots_range [of _ 983032]; simp)+
  have g: "pdx (KSTACKTOP - PTSIZE) \<in> slots" by (simp add: slots_957 pdx_def unat_PDX)
  have lt: "?k < 0x100000" "(24 :: nat) < 0x100000" "?n < 0x100000" "(8 :: nat) < 0x100000" using k n by simp_all
  have z: "unat (0 :: u32) mod 4096 = 0" by simp
  have ds: "if \<forall>d < 1024. pde_ok d (entry s D d) then for_each (check_pde (pgdir_kva D)) [0..<unat NPDENTRIES] s = Inr s
      else \<exists>m. for_each (check_pde (pgdir_kva D)) [0..<unat NPDENTRIES] s = Inl (Panic m)"
  proof -
    have a: "(\<forall>d \<in> set [0..<unat NPDENTRIES]. Q d) \<longleftrightarrow> (\<forall>d < 1024. Q d)" for Q by auto
    have "\<forall>d \<in> set [0..<unat NPDENTRIES]. d < 1024" by simp
    from check_pdes [OF this, of s D] show ?thesis unfolding a .
  qed
  note eqs = check_region_eq [OF wf r(1) lt(1) al(1)] check_region_eq [OF wf r(2) lt(2) al(2)]
    check_region_eq [OF wf r(3) lt(3) z, folded np] check_region_eq [OF wf r(4) lt(4) al(3), folded ks] check_va2pa_eq [OF wf g]
  have e: "check_kern_pgdir p e b s = (if region_mapped s D UPAGES (p - KERNBASE) ?k then
      if region_mapped s D UENVS (e - KERNBASE) 24 then
      if region_mapped s D KERNBASE 0 ?n then
      if region_mapped s D (KSTACKTOP - KSTKSIZE) (b - KERNBASE) 8 then
      if \<not> present (pt_entry s D (KSTACKTOP - PTSIZE)) then
        bindo (Some (for_each (check_pde (pgdir_kva D)) [0..<unat NPDENTRIES] s))
          (\<lambda>s. Some (Inr (cprintf (''check_kern_pgdir() succeeded!'' @ nl) [] s)))
      else Some (Inl (Panic (''assertion failed: '' @ ''check_va2pa(pgdir, KSTACKTOP - PTSIZE) == ~0'')))
      else Some (Inl (Panic (''assertion failed: '' @ ''check_va2pa(pgdir, KSTACKTOP - KSTKSIZE + i) == PADDR(bootstack) + i'')))
      else Some (Inl (Panic (''assertion failed: '' @ ''check_va2pa(pgdir, KERNBASE + i) == i'')))
      else Some (Inl (Panic (''assertion failed: '' @ ''check_va2pa(pgdir, UENVS + i) == PADDR(envs) + i'')))
      else Some (Inl (Panic (''assertion failed: '' @ ''check_va2pa(pgdir, UPAGES + i) == PADDR(pages) + i''))))"
    unfolding check_kern_pgdir_def Let_def D pa [OF kva(1)] pa [OF kva(2)] pa [OF kva(3)] pages_array_size [OF n] envs_array_size
    by (cases "region_mapped s D UPAGES (p - KERNBASE) ?k"; cases "region_mapped s D UENVS (e - KERNBASE) 24";
        cases "region_mapped s D KERNBASE 0 ?n"; cases "region_mapped s D (KSTACKTOP - KSTKSIZE) (b - KERNBASE) 8";
        cases "present (pt_entry s D (KSTACKTOP - PTSIZE))")
      (simp_all only: eqs bindo_simps PTE_ADDR_not_ones assert_that_def if_True if_False simp_thms)
  show ?thesis unfolding kern_checked_def e using ds by (auto split: if_splits)
qed

lemma nth_page_aligned: "unat a mod 4096 = 0 \<Longrightarrow> unat (nth_page a i) mod 4096 = 0"
proof -
  assume a: "unat a mod 4096 = 0"
  have "unat (nth_page a i) = (unat a + 4096 * i) mod 4294967296"
    unfolding nth_page_def unat_word_ariths unat_of_nat by (simp add: mod_add_right_eq del: of_nat_mult)
  then have "unat (nth_page a i) mod 4096 = (unat a + 4096 * i) mod 4096"
    by (simp add: mod_mod_cancel)
  then show ?thesis using a by simp
qed

lemma PTE_ADDR_or_low: "unat x mod 4096 = 0 \<Longrightarrow> unat w < 4096 \<Longrightarrow> PTE_ADDR (x OR w) = x"
proof -
  assume x: "unat x mod 4096 = 0" and w: "unat w < 4096"
  have "PTE_ADDR (x OR w) = PTE_ADDR x" by (simp only: PTE_ADDR_frame frame_of_or [OF w])
  also have "\<dots> = x" by (rule word_eq_unatI) (use x div_mult_mod_eq [of "unat x" 4096] in \<open>simp add: unat_PTE_ADDR\<close>)
  finally show ?thesis .
qed

lemma region_mappedI:
  assumes va: "unat va = 4096 * b" "b + n \<le> 0x100000" and pa: "unat pa mod 4096 = 0"
    and w: "unat w < 4096" "present w" and sl: "region_slots va n"
    and e: "\<And>a. pdx a \<in> slots \<Longrightarrow> in_region va n a \<Longrightarrow> pt_entry t D a = (pa + (ROUNDDOWN a PGSIZE - va)) OR w"
  shows "region_mapped t D va pa n"
  unfolding region_mapped_def
proof (intro allI impI)
  fix i assume i: "i < n"
  let ?a = "nth_page va i"
  have d: "unat ?a div 4096 = b + i" using region_page(1) [OF va i, of ?a] by simp
  then have "in_region va n ?a" using in_region_page [OF va(1)] i by blast
  moreover have "pdx ?a \<in> slots" using sl i by (simp add: region_slots_def)
  ultimately have "pt_entry t D ?a = nth_page pa i OR w"
    using e region_page(2) [OF va i d, of pa] by simp
  then show "page_mapped t D ?a (nth_page pa i)"
    using w by (simp add: page_mapped_def PTE_ADDR_or_low nth_page_aligned pa)
qed

lemma region_mapped_less: "region_mapped t D va pa n \<Longrightarrow> m \<le> n \<Longrightarrow> region_mapped t D va pa m"
  by (simp add: region_mapped_def)

text \<open>The layout passes the check.\<close>

lemma layout_checked:
  assumes lay: "\<And>a. pdx a \<in> slots \<Longrightarrow> pt_entry t D a = kern_layout (p - KERNBASE) (e - KERNBASE) (b - KERNBASE) a"
    and al: "unat (p - KERNBASE) mod 4096 = 0" "unat (e - KERNBASE) mod 4096 = 0" "unat (b - KERNBASE) mod 4096 = 0"
    and n: "unat (npages t) \<le> 0x10000"
    and pde: "\<And>d. d < 1024 \<Longrightarrow> pde_ok d (entry t D d)"
  shows "kern_checked p e b t D"
proof -
  have "(unat (npages t) + 511) div 512 \<le> 1024" using div_le_mono [of "unat (npages t) + 511" "0x10000 + 511" 512] n by simp
  moreover have "region_mapped t D UPAGES (p - KERNBASE) 1024"
    by (rule region_mappedI [of _ 978944 _ _ "PTE_U OR PTE_P"])
      (use lay al layout_regions in \<open>simp_all add: kern_layout_def Let_def region_slots_range [of _ 978944] or.assoc word_le_nat_alt word_less_nat_alt present_def\<close>)
  ultimately have "region_mapped t D UPAGES (p - KERNBASE) ((unat (npages t) + 511) div 512)"
    by (rule region_mapped_less [rotated])
  moreover have "region_mapped t D UENVS (e - KERNBASE) 1024"
    by (rule region_mappedI [of _ 977920 _ _ "PTE_U OR PTE_P"])
      (use lay al layout_regions in \<open>simp_all add: kern_layout_def Let_def region_slots_range [of _ 977920] or.assoc word_le_nat_alt word_less_nat_alt present_def\<close>)
  then have "region_mapped t D UENVS (e - KERNBASE) 24" by (rule region_mapped_less) simp
  moreover have "region_mapped t D (KSTACKTOP - KSTKSIZE) (b - KERNBASE) 8"
    by (rule region_mappedI [of _ 983032 _ _ "PTE_W OR PTE_P"])
      (use lay al layout_regions in \<open>simp_all add: kern_layout_def Let_def region_slots_range [of _ 983032] or.assoc word_le_nat_alt word_less_nat_alt present_def\<close>)
  moreover have "region_mapped t D KERNBASE 0 65536"
    by (rule region_mappedI [of _ 983040 _ _ "PTE_W OR PTE_P"])
      (use lay al layout_regions in \<open>simp_all add: kern_layout_def Let_def region_slots_range [of _ 983040] or.assoc word_le_nat_alt word_less_nat_alt present_def\<close>)
  then have "region_mapped t D KERNBASE 0 (unat (npages t))" by (rule region_mapped_less) (use n in simp)
  moreover have "pdx (KSTACKTOP - PTSIZE) \<in> slots" by (simp add: slots_957 pdx_def unat_PDX)
  then have "\<not> present (pt_entry t D (KSTACKTOP - PTSIZE))" using lay by (simp add: kern_layout_def Let_def)
  ultimately show ?thesis using pde by (simp add: kern_checked_def)
qed
lemma grown_pde_ok:
  assumes "fresh_pgdir s D" "dir_grown s t D ({955, 956, 959} \<union> {960..1023})" "d < 1024"
  shows "pde_ok d (entry t D d)"
proof -
  have new: "present (new_pde f) \<and> new_pde f AND PTE_W \<noteq> 0" if "f < 0x100000" for f
  proof -
    have "bit (new_pde f AND PTE_W) 1" by (simp add: new_pde_eq bit_and_iff bit_or_iff)
    then show ?thesis using present_new_pde [OF that] by (metis bit_0_eq bot_apply bot_bool_def)
  qed
  have s: "entry s D d = (if d = 957 then page2pa D OR PTE_U OR PTE_P else 0)"
    using assms(1,3) by (simp add: fresh_pgdir_def)
  let ?S = "{955, 956, 959} \<union> {960..1023}"
  have g: "if d \<in> ?S \<and> table_at s D d = None then \<exists>f < 0x100000. entry t D d = new_pde f else entry t D d = entry s D d"
    using assms(2) [unfolded dir_grown_def] assms(3) by blast
  show ?thesis
  proof (cases "d \<in> ?S")
    case True
    then have "table_at s D d = None" using s by (auto simp: table_at_def)
    then obtain f where "f < 0x100000" "entry t D d = new_pde f"
      using g True by (simp only: simp_thms if_True) blast
    then show ?thesis using new True by (auto simp: pde_ok_def)
  next
    case False
    then have "entry t D d = entry s D d" using g by (simp only: simp_thms if_False)
    moreover have "present 5" by (simp add: present_def)
    ultimately show ?thesis using s False assms(3) by (auto simp: pde_ok_def)
  qed
qed

section \<open>The kernel's address space\<close>

lemma map_kernel_checked:
  assumes "pt_wf s D xs" "fresh_pgdir s D" "67 \<le> length xs" "KERNBASE \<le> p" "KERNBASE \<le> e" "KERNBASE \<le> b"
    and "unat (p - KERNBASE) mod 4096 = 0" "unat (e - KERNBASE) mod 4096 = 0" "unat (b - KERNBASE) mod 4096 = 0"
  shows "\<exists>t ys. map_kernel p e b s = Some (Inr t) \<and> pt_wf t D ys \<and> length ys + 67 = length xs \<and>
    (\<forall>a. pdx a \<in> slots \<longrightarrow> pt_entry t D a = kern_layout (p - KERNBASE) (e - KERNBASE) (b - KERNBASE) a) \<and>
    check_kern_pgdir p e b t = Some (Inr (cprintf (''check_kern_pgdir() succeeded!'' @ nl) [] t))"
proof -
  obtain t ys where t: "map_kernel p e b s = Some (Inr t)" "pt_wf t D ys" "length ys + 67 = length xs"
    "\<And>a. pdx a \<in> slots \<Longrightarrow> pt_entry t D a = kern_layout (p - KERNBASE) (e - KERNBASE) (b - KERNBASE) a"
    "dir_grown s t D ({955, 956, 959} \<union> {960..1023})" "same_rest s t"
    using map_kernel_spec [OF assms(1-6)] by metis
  have "unat (npages t) \<le> 0x10000" using t(2) by (simp add: pt_wf_def)
  then have "kern_checked p e b t D"
    using layout_checked [OF t(4) assms(7-9)] grown_pde_ok [OF assms(2) t(5)] by blast
  moreover have "kern_pgdir t = pgdir_kva D" using assms(2) t(6) by (simp add: fresh_pgdir_def same_rest_def)
  ultimately have "check_kern_pgdir p e b t = Some (Inr (cprintf (''check_kern_pgdir() succeeded!'' @ nl) [] t))"
    using check_kern_pgdir_spec [OF t(2) _ assms(4-9)] by simp
  with t(1-4) show ?thesis by blast
qed

text \<open>The mappings of \<open>mem_init\<close>: from a page directory that maps nothing but itself, with 67 free
  pages for page tables, they are installed without a panic, the address space has exactly the
  layout of \<open>inc/memlayout.h\<close>, exactly 67 pages are used, and \<open>check_kern_pgdir\<close> succeeds.\<close>

theorem map_kernel_layout:
  assumes "pt_wf s D xs" "fresh_pgdir s D" "67 \<le> length xs" "KERNBASE \<le> p" "KERNBASE \<le> e" "KERNBASE \<le> b"
    and "unat (p - KERNBASE) mod 4096 = 0" "unat (e - KERNBASE) mod 4096 = 0" "unat (b - KERNBASE) mod 4096 = 0"
  shows "\<exists>t ys. map_kernel p e b s = Some (Inr t) \<and> pt_wf t D ys \<and> length ys + 67 = length xs \<and>
    (\<forall>a. pdx a \<in> slots \<longrightarrow> pt_entry t D a = kern_layout (p - KERNBASE) (e - KERNBASE) (b - KERNBASE) a) \<and>
    check_kern_pgdir p e b t = Some (Inr (cprintf (''check_kern_pgdir() succeeded!'' @ nl) [] t))"
  by (rule map_kernel_checked [OF assms])

text \<open>\<open>check_kern_pgdir\<close> ends, and succeeds exactly on page directories that map the arrays, the
  kernel stack but not its guard, all of memory, and the right directory slots.\<close>

theorem check_kern_pgdir_correct:
  assumes "pt_wf s D xs" "kern_pgdir s = pgdir_kva D" "KERNBASE \<le> p" "KERNBASE \<le> e" "KERNBASE \<le> b"
    and "unat (p - KERNBASE) mod 4096 = 0" "unat (e - KERNBASE) mod 4096 = 0" "unat (b - KERNBASE) mod 4096 = 0"
  shows "(check_kern_pgdir p e b s = Some (Inr (cprintf (''check_kern_pgdir() succeeded!'' @ nl) [] s)) \<longleftrightarrow>
      kern_checked p e b s D) \<and>
    (\<not> kern_checked p e b s D \<longrightarrow> (\<exists>m. check_kern_pgdir p e b s = Some (Inl (Panic m))))"
  using check_kern_pgdir_spec [OF assms] by (auto split: if_splits)

text \<open>A machine with 80 pages after \<open>page_init\<close>: pages 0 to 69 are free, the directory is in page 75.\<close>

definition boot_machine :: env_state where
  "boot_machine = \<lparr>mem = store32 (\<lambda>_. 0) (entry_pa 75 957) (page2pa 75 OR PTE_U OR PTE_P),
     npages = 80, npages_basemem = 80, kern_pgdir = pgdir_kva 75,
     pages = map (\<lambda>i. \<lparr>pp_link = if 0 < i \<and> i < 70 then Some (i - 1) else None, pp_ref = 0\<rparr>) [0..<80],
     page_free_list = Some 69, nextfree = 0xF004C000, user_mem_check_addr = 0, cr3 = 0, invlpg_log = [],
     envs = [], curenv = None, env_free_list = None, cpu_tables = boot_tables, console = []\<rparr>"

lemma chain_down: "(\<And>i. i \<le> n \<Longrightarrow> nxt i = (if i = 0 then None else Some (i - 1))) \<Longrightarrow> chain nxt (Some n) (rev [0..<Suc n])"
  by (induction n) simp_all

lemma boot_machine_wf: "pt_wf boot_machine 75 (rev [0..<70])" "fresh_pgdir boot_machine 75"
proof -
  have z: "load32 (\<lambda>_. 0) a = 0" for a by (simp add: load32_def)
  have e: "entry boot_machine 75 d = (if d = 957 then page2pa 75 OR PTE_U OR PTE_P else 0)" if "d < 1024" for d
    using that by (auto simp: boot_machine_def entry_def load32_entry z)
  then show "fresh_pgdir boot_machine 75" by (simp add: fresh_pgdir_def boot_machine_def)
  have none: "table_at boot_machine 75 d = None" if "d \<in> slots" for d
    using e that by (simp add: slots_957 table_at_def)
  have "chain (page_link boot_machine) (Some 69) (rev [0..<Suc 69])"
    by (rule chain_down) (simp add: page_link_def boot_machine_def del: upt_Suc)
  then have "free_pages boot_machine (rev [0..<70])"
    by (auto simp: free_pages_def page_cap_def boot_machine_def simp del: upt_Suc)
  moreover have "pages_wf boot_machine" "length (pages boot_machine) = 80"
    by (simp_all add: pages_wf_def boot_machine_def del: upt_Suc)
  ultimately show "pt_wf boot_machine 75 (rev [0..<70])"
    using none by (simp add: pt_wf_def) (simp add: boot_machine_def)
qed

theorem map_kernel_layout_witness:
  "\<exists>t. map_kernel 0xF0050000 0xF0060000 0xF0010000 boot_machine = Some (Inr t) \<and>
     pt_entry t 75 0xEFFF8123 = 0x10003 \<and> pt_entry t 75 0xEFFF7FFF = 0 \<and> pt_entry t 75 0xEF001000 = 0x51005 \<and>
     check_kern_pgdir 0xF0050000 0xF0060000 0xF0010000 t = Some (Inr (cprintf (''check_kern_pgdir() succeeded!'' @ nl) [] t))"
proof -
  have s: "pdx 0xEFFF8123 \<in> slots" "pdx 0xEFFF7FFF \<in> slots" "pdx 0xEF001000 \<in> slots"
    by (simp_all add: slots_957 pdx_def unat_PDX)
  have "67 \<le> length (rev [0..<70])" by simp
  from map_kernel_layout [OF boot_machine_wf this, of "0xF0050000" "0xF0060000" "0xF0010000"]
  obtain t where "map_kernel 0xF0050000 0xF0060000 0xF0010000 boot_machine = Some (Inr t)"
    "\<forall>a. pdx a \<in> slots \<longrightarrow> pt_entry t 75 a = kern_layout 0x50000 0x60000 0x10000 a"
    "check_kern_pgdir 0xF0050000 0xF0060000 0xF0010000 t = Some (Inr (cprintf (''check_kern_pgdir() succeeded!'' @ nl) [] t))"
    by auto
  then show ?thesis using s by (auto simp: kern_layout_def ROUNDDOWN_def)
qed

theorem check_kern_pgdir_correct_witness:
  "\<exists>m. check_kern_pgdir 0xF0050000 0xF0060000 0xF0010000 boot_machine = Some (Inl (Panic m))"
proof -
  have "table_at boot_machine 75 d = None" if "d \<in> slots" for d
    using that boot_machine_wf(2) by (simp add: slots_957 table_at_def fresh_pgdir_def)
  moreover have "pdx UENVS \<in> slots" by (simp add: slots_957 pdx_def unat_PDX)
  ultimately have "\<not> page_mapped boot_machine 75 (nth_page UENVS 0) w" for w
    by (simp add: page_mapped_def pt_entry_def)
  then have "\<not> region_mapped boot_machine 75 UENVS (0xF0060000 - KERNBASE) 24"
    unfolding region_mapped_def by (meson zero_less_numeral)
  then have "\<not> kern_checked 0xF0050000 0xF0060000 0xF0010000 boot_machine 75" by (simp add: kern_checked_def)
  moreover have "kern_pgdir boot_machine = pgdir_kva 75" by (simp add: boot_machine_def)
  ultimately show ?thesis
    using check_kern_pgdir_correct [OF boot_machine_wf(1), of "0xF0050000" "0xF0060000" "0xF0010000"] by simp
qed

end
