(* ===== verification/Mem_Init.thy ===== *)
theory Mem_Init
  imports Kern_Map
begin

text \<open>
  The first half of \<open>mem_init\<close> of \<open>kern/pmap.c\<close>: from the sizes the clock chip reports to the first
  free list. Its result is shown to be what the second half (\<open>Kern_Map\<close>) starts from, so that the
  two together give the kernel's address space.

  The self tests between the halves are in \<open>Mem_Start\<close>, which has all of \<open>mem_init\<close>.
\<close>

section \<open>The boot-time data structures\<close>

text \<open>The message of \<open>i386_detect_memory\<close>.\<close>

definition report_memory :: "(u32 \<Rightarrow> u8) \<Rightarrow> 'z env_state_scheme \<Rightarrow> 'z env_state_scheme" where
  "report_memory cmos s = (let (totalmem, basemem) = memory_kb cmos in
     cprintf (''Physical memory: %uK available, base = %uK, extended = %uK'' @ nl) [totalmem, basemem, totalmem - basemem] s)"

text \<open>\<open>boot_alloc\<close> does not clear what it returns: \<open>old_pages\<close> and \<open>old_envs\<close> are what the memory of the
  arrays happens to hold. The result is the kernel addresses of the two arrays and the state.\<close>

definition mem_init_alloc ::
  "(u32 \<Rightarrow> u8) \<Rightarrow> u32 \<Rightarrow> (nat \<Rightarrow> PageInfo) \<Rightarrow> (nat \<Rightarrow> Env) \<Rightarrow> 'z env_state_scheme \<Rightarrow>
     fault + u32 \<times> u32 \<times> 'z env_state_scheme" where
  "mem_init_alloc cmos kend old_pages old_envs s =
     (let s = report_memory cmos (i386_detect_memory cmos s) in
      bindr (boot_alloc kend s PGSIZE) (\<lambda>(pgdir, s).
      let s = s\<lparr>kern_pgdir := pgdir\<rparr>;
          s = s\<lparr>mem := memset (mem s) (kv2p (kern_pgdir s)) 0 PGSIZE\<rparr> in
      bindr (PADDR (kern_pgdir s)) (\<lambda>pa.
      let s = kstore s (kern_pgdir s + 4 * PDX UVPT) (pa OR PTE_U OR PTE_P) in
      bindr (boot_alloc kend s (sizeof_PageInfo * npages s)) (\<lambda>(pages_kva, s).
      let s = s\<lparr>pages := map old_pages [0..<unat (npages s)]\<rparr> in
      bindr (boot_alloc kend s (sizeof_Env * NENV)) (\<lambda>(envs_kva, s).
      let s = s\<lparr>envs := map old_envs [0..<unat NENV]\<rparr> in
      bindr (page_init kend s) (\<lambda>s. Inr (pages_kva, envs_kva, s)))))))"

section \<open>Where the structures lie\<close>

text \<open>Page \<open>k\<close> of physical memory, as a kernel address.\<close>

definition kpage :: "nat \<Rightarrow> u32" where
  "kpage k = KERNBASE + of_nat (4096 * k)"

lemma unat_kpage: "k < 0x10000 \<Longrightarrow> unat (kpage k) = 0xF0000000 + 4096 * k"
  unfolding kpage_def by (subst unat_add_no_wrap) (simp_all add: unat_of_nat_u32 del: of_nat_mult)

lemma kpage_pgdir: "kpage k = pgdir_kva k"
  by (simp add: kpage_def pgdir_kva_def page2pa_of_nat)

lemma kpage_above: "k < 0x10000 \<Longrightarrow> KERNBASE \<le> kpage k" "k < 0x10000 \<Longrightarrow> unat (kpage k - KERNBASE) mod 4096 = 0"
proof -
  assume k: "k < 0x10000"
  then show "KERNBASE \<le> kpage k" by (simp add: word_le_nat_alt unat_kpage)
  have "kpage k - KERNBASE = of_nat (4096 * k)" by (simp add: kpage_def)
  then have "unat (kpage k - KERNBASE) = 4096 * k" using k unat_of_nat_u32 [of "4096 * k"] by simp
  then show "unat (kpage k - KERNBASE) mod 4096 = 0" by simp
qed

lemma kpage_nonzero: "k < 0x10000 \<Longrightarrow> kpage k \<noteq> 0"
  using unat_kpage [of k] by (auto simp: unat_eq_0 [symmetric])

lemma kpage_roundup:
  assumes "k < 0x10000" "0 < unat n" "4096 * k + unat n \<le> 0xFFFF000"
  shows "ROUNDUP (kpage k + n) PGSIZE = kpage (k + (unat n + 4095) div 4096)"
proof (rule word_eq_unatI)
  have a: "unat (kpage k + n) = 0xF0000000 + 4096 * k + unat n"
    using assms unat_kpage [OF assms(1)] by (subst unat_add_no_wrap) simp_all
  have "(unat n + 4095) div 4096 \<le> (0xFFFF000 - 4096 * k + 4095) div 4096" using assms by (intro div_le_mono) simp
  also have "\<dots> < 0x10000 - k" using assms by linarith
  finally have b: "k + (unat n + 4095) div 4096 < 0x10000" by simp
  have "unat (ROUNDUP (kpage k + n) PGSIZE) = (0xF0000000 + 4096 * k + unat n + 4095) div 4096 * 4096"
    using a assms(3) by (subst unat_ROUNDUP) simp_all
  also have "0xF0000000 + 4096 * k + unat n + 4095 = (unat n + 4095) + (983040 + k) * 4096" by simp
  also have "((unat n + 4095) + (983040 + k) * 4096) div 4096 = (983040 + k) + (unat n + 4095) div 4096" by simp
  finally show "unat (ROUNDUP (kpage k + n) PGSIZE) = unat (kpage (k + (unat n + 4095) div 4096))"
    unfolding unat_kpage [OF b] by simp
qed

text \<open>One allocation: the next free page moves on, and it must stay inside the memory.\<close>

lemma boot_alloc_kpage:
  assumes "nextfree s = kpage k" "0 < unat n" "k + (unat n + 4095) div 4096 \<le> unat (npages s)" "unat (npages s) < 0x10000"
  shows "boot_alloc kend s n = Inr (kpage k, s\<lparr>nextfree := kpage (k + (unat n + 4095) div 4096)\<rparr>)"
proof -
  let ?k = "k + (unat n + 4095) div 4096"
  have k: "k < 0x10000" "?k < 0x10000" using assms by simp_all
  have "unat n \<le> (unat n + 4095) div 4096 * 4096" by linarith
  then have sz: "4096 * k + unat n \<le> 0xFFFF000" using assms(3,4) by simp
  have lim: "unat (KERNBASE + npages s * PGSIZE) = 0xF0000000 + 4096 * unat (npages s)"
  proof -
    have "unat (npages s * 4096) = 4096 * unat (npages s)" using assms(4) by (simp add: unat_word_ariths)
    then show ?thesis using assms(4) by (subst unat_add_no_wrap) simp_all
  qed
  have "\<not> kpage ?k > KERNBASE + npages s * PGSIZE"
    unfolding word_less_nat_alt lim unat_kpage [OF k(2)] using assms(3) by simp
  moreover have "n \<noteq> 0" using assms(2) by auto
  ultimately show ?thesis
    using kpage_nonzero [OF k(1)] by (simp add: boot_alloc_def assms(1) kpage_roundup [OF k(1) assms(2) sz] del: KERNBASE_def PGSIZE_def)
qed

lemma page_init_keeps:
  assumes "page_init kend s = Inr t" "nextfree s \<noteq> 0"
  shows "mem t = mem s \<and> kern_pgdir t = kern_pgdir s \<and> pmap_state.more t = pmap_state.more s"
proof -
  let ?g = "\<lambda>t. (mem t, kern_pgdir t, pmap_state.more t)"
  have "?g t = ?g s" if "page_init_step kend i s = Inr t" for i t and s :: "'a pmap_state_scheme"
    using that by (auto simp: page_init_step_def set_page_def boot_alloc_def Let_def bindr_eq_Inr split: if_splits)
  from for_each_same [of "page_init_step kend", OF this] assms show ?thesis
    by (fastforce simp: page_init_def set_page_def bindr_eq_Inr split: if_splits)
qed

section \<open>The state the first half leaves\<close>

text \<open>What \<open>mem_init\<close> has nothing to do with: everything behind the fields of memory management, but for
  \<open>envs\<close> and the messages.\<close>

definition same_machine :: "'z env_state_scheme \<Rightarrow> 'z env_state_scheme \<Rightarrow> bool" where
  "same_machine s t \<longleftrightarrow> curenv t = curenv s \<and> env_free_list t = env_free_list s \<and> cpu_tables t = cpu_tables s \<and>
     env_state.more t = env_state.more s"

lemma same_machine_more: "pmap_state.more t = pmap_state.more s \<Longrightarrow> same_machine s t \<and> envs t = envs s \<and> console t = console s"
  by (cases s; cases t) (simp add: same_machine_def)

lemma same_machine_trans [trans]: "same_machine s t \<Longrightarrow> same_machine t u \<Longrightarrow> same_machine s u"
  by (simp add: same_machine_def)

lemma usable_pages:
  assumes "160 \<le> n"
  shows "159 \<le> length (filter (page_usable nf) [0..<n])"
proof -
  have "[0..<n] = [0..<1] @ [1..<160] @ [160..<n]"
    using assms upt_add_eq_append [of 0 1 "n - 1"] upt_add_eq_append [of 1 160 "n - 160"] by simp
  moreover have "filter (page_usable nf) [1..<160] = [1..<160]"
    by (rule filter_True) (simp add: page_usable_def)
  ultimately show ?thesis by (simp del: upt_Suc)
qed

text \<open>The number of pages the array \<open>pages\<close> takes, and the page behind the two arrays of a kernel
  that ends before page \<open>k\<close>.\<close>

definition array_pages :: "nat \<Rightarrow> nat" where
  "array_pages n = (8 * n + 4095) div 4096"

definition first_free :: "nat \<Rightarrow> nat \<Rightarrow> nat" where
  "first_free k n = k + 1 + array_pages n + 24"

lemma mem_init_alloc_spec:
  fixes cmos kend s
  defines "n \<equiv> unat (npages (i386_detect_memory cmos s))"
  assumes boot: "nextfree s = 0" "page_free_list s = None" "ROUNDUP kend PGSIZE = kpage k"
    and k: "256 \<le> k" "first_free k n \<le> n" "n < 0x10000"
  obtains t where
    "mem_init_alloc cmos kend old_pages old_envs s = Inr (kpage (k + 1), kpage (k + 1 + array_pages n), t)"
    "pt_wf t k (rev (filter (page_usable (kpage (first_free k n))) [0..<n]))" "fresh_pgdir t k" "unat (npages t) = n"
    "nextfree t = kpage (first_free k n)" "\<And>g. page_usable (kpage (first_free k n)) g \<Longrightarrow> g < n \<Longrightarrow> pp_ref (pages t ! g) = 0"
    "\<And>a. unat a div 4096 \<noteq> k \<Longrightarrow> mem t a = mem s a" "envs t = map old_envs [0..<1024]" "same_machine s t" "console t = console (report_memory cmos s)"
proof -
  define s0 where "s0 = report_memory cmos (i386_detect_memory cmos s)"
  define s1 where "s1 = s0\<lparr>nextfree := kpage (k + 1)\<rparr>"
  define s2 where "s2 = s1\<lparr>kern_pgdir := kpage k\<rparr>"
  define s3 where "s3 = s2\<lparr>mem := memset (mem s2) (kv2p (kern_pgdir s2)) 0 PGSIZE\<rparr>"
  define s4 where "s4 = kstore s3 (kern_pgdir s3 + 4 * PDX UVPT) (page2pa k OR PTE_U OR PTE_P)"
  define s5 where "s5 = s4\<lparr>nextfree := kpage (k + 1 + array_pages n)\<rparr>"
  define s6 where "s6 = s5\<lparr>pages := map old_pages [0..<unat (npages s5)]\<rparr>"
  define s7 where "s7 = s6\<lparr>nextfree := kpage (first_free k n)\<rparr>"
  define s8 where "s8 = s7\<lparr>envs := map old_envs [0..<unat NENV]\<rparr>"
  note defs = s8_def s7_def s6_def s5_def s4_def s3_def s2_def s1_def
  have s0: "nextfree s0 = 0" "mem s0 = mem s" "page_free_list s0 = None" "unat (npages s0) = n"
    using boot by (simp_all add: s0_def n_def i386_detect_memory_def report_memory_def cprintf_def split: prod.split)
  have kb: "k < 0x10000" "k < 0x100000" "first_free k n < 0x10000" "k + 1 + array_pages n + 24 \<le> n"
    "k + 1 + array_pages n \<le> n" "k + 1 \<le> n"
    using k by (simp_all add: first_free_def)
  have np: "npages s4 = npages s0" "npages s6 = npages s0" "npages s8 = npages s0"
    "nextfree s4 = kpage (k + 1)" "nextfree s6 = kpage (k + 1 + array_pages n)" "nextfree s8 = kpage (first_free k n)"
    by (simp_all add: defs kstore_def)
  have "boot_alloc kend s0 PGSIZE = boot_alloc kend (s0\<lparr>nextfree := kpage k\<rparr>) PGSIZE"
    using kpage_nonzero [OF kb(1)] by (simp add: boot_alloc_def s0 boot(3) [simplified])
  then have b1: "boot_alloc kend s0 PGSIZE = Inr (kpage k, s1)"
    using boot_alloc_kpage [of "s0\<lparr>nextfree := kpage k\<rparr>" k PGSIZE kend] kb(6) k(3) s0 by (simp add: s1_def)
  have "unat (sizeof_PageInfo * npages s4) = 8 * n"
    using k(3) s0 by (simp add: np unat_word_ariths)
  then have b2: "boot_alloc kend s4 (sizeof_PageInfo * npages s4) = Inr (kpage (k + 1), s5)"
    using boot_alloc_kpage [of s4 "k + 1" "sizeof_PageInfo * npages s4" kend] kb(5) k s0 np
    by (simp add: array_pages_def s5_def)
  have e: "k + 1 + array_pages n + (unat (sizeof_Env * NENV) + 4095) div 4096 = first_free k n"
    by (simp add: first_free_def)
  have b3: "boot_alloc kend s6 (sizeof_Env * NENV) = Inr (kpage (k + 1 + array_pages n), s7)"
    unfolding s7_def
    by (rule boot_alloc_kpage [of s6 "k + 1 + array_pages n" "sizeof_Env * NENV" kend, unfolded e])
      (use k s0 np in simp_all)
  have kv: "kv2p (kpage k) = page2pa k" "PADDR (kpage k) = Inr (page2pa k)"
    using kpage_above(1) [OF kb(1)] by (simp_all add: kv2p_def PADDR_def kpage_pgdir pgdir_kva_def not_less [symmetric])
  have pa: "PADDR (kern_pgdir s3) = Inr (page2pa k)" by (simp add: kv defs)
  have m8: "mem s8 = store32 (memset (mem s) (page2pa k) 0 4096) (entry_pa k 957) (page2pa k OR PTE_U OR PTE_P)"
    using kstore_dir [OF kb(2), of s3 UVPT "page2pa k OR PTE_U OR PTE_P"] by (simp add: defs kpage_pgdir kv [unfolded kpage_pgdir] s0)
  have wf8: "pages_wf s8" "page_free_list s8 = None" "nextfree s8 \<noteq> 0" "0 < unat (npages s8)" "kern_pgdir s8 = kpage k"
    using s0 np k(3) kb(6) kpage_nonzero [OF kb(3)] by (simp_all add: pages_wf_def) (simp_all add: defs kstore_def s0)
  obtain t where t: "page_init kend s8 = Inr t" "page_init_inv s8 [0..<unat (npages s8)] t"
    using page_init_inv_result [OF wf8(1,4,2,3)] by blast
  have inv: "nextfree t = kpage (first_free k n)" "unat (npages t) = n" "length (pages t) = n"
    "free_pages t (rev (filter (page_usable (kpage (first_free k n))) [0..<n]))"
    using t(2) np s0 wf8(1) by (simp_all add: page_init_inv_def pages_wf_def)
  have keep: "mem t = mem s8" "kern_pgdir t = kpage k" "pmap_state.more t = pmap_state.more s8"
    using page_init_keeps [OF t(1) wf8(3)] wf8(5) by simp_all
  have rf: "pp_ref (pages t ! g) = 0" if "page_usable (kpage (first_free k n)) g" "g < n" for g
    using t(2) np s0 that by (simp add: page_init_inv_def)
  have fr: "mem t a = mem s a" if "unat a div 4096 \<noteq> k" for a
    using kb(2) that by (simp add: keep m8 store32_frame zeroed_frame)
  have "same_machine s s8" "envs s8 = map old_envs [0..<1024]" "console s8 = console (report_memory cmos s)"
    by (simp_all add: same_machine_def defs kstore_def s0_def i386_detect_memory_def report_memory_def cprintf_def split: prod.split)
  then have em: "same_machine s t" "envs t = map old_envs [0..<1024]" "console t = console (report_memory cmos s)"
    using same_machine_more [OF keep(3)] same_machine_trans by (blast, simp_all)
  have "mem_init_alloc cmos kend old_pages old_envs s = Inr (kpage (k + 1), kpage (k + 1 + array_pages n), t)"
    unfolding mem_init_alloc_def Let_def s0_def [symmetric] b1 bindr_Inr prod.case s2_def [symmetric] s3_def [symmetric] pa
      s4_def [symmetric] b2 s6_def [symmetric] b3 s8_def [symmetric] t(1) ..
  moreover have "entry t k e = (if e = 957 then page2pa k OR PTE_U OR PTE_P else 0)" if "e < 1024" for e
    using kb(2) that by (simp add: entry_def keep m8 load32_entry load32_zeroed_page)
  then have fresh: "fresh_pgdir t k" using keep(2) by (simp add: fresh_pgdir_def kpage_pgdir)
  moreover have "pt_wf t k (rev (filter (page_usable (kpage (first_free k n))) [0..<n]))"
  proof -
    have none: "table_at t k e = None" if "e \<in> slots" for e
      using fresh that by (simp add: fresh_pgdir_def slots_957 table_at_def)
    have "kpage (first_free k n) - KERNBASE = of_nat (4096 * first_free k n)" by (simp add: kpage_def)
    then have "unat ((kpage (first_free k n) - KERNBASE) div PGSIZE) = first_free k n"
      using unat_of_nat_u32 [of "4096 * first_free k n"] kb(3) by (simp add: unat_div)
    then have "\<not> page_usable (kpage (first_free k n)) k" using k(1) by (simp add: page_usable_def first_free_def)
    then show ?thesis
      using inv none kb k unfolding pt_wf_def pages_wf_def by auto
  qed
  ultimately show thesis using that [OF _ _ _ inv(2,1) rf fr em(2,1,3)] by blast
qed

section \<open>From the clock chip to the kernel's address space\<close>

text \<open>On a machine of at least \<open>first_free k n\<close> and fewer than \<open>0x10000\<close> pages the first half of
  \<open>mem_init\<close> succeeds. The page directory, the arrays \<open>pages\<close> and \<open>envs\<close> lie one behind the other
  behind the kernel, none of their pages, no page of the kernel, of the I/O hole and not page 0
  is free, and every other page is.\<close>

theorem mem_init_alloc_boots:
  fixes s :: "'z env_state_scheme"
  assumes "nextfree s = 0" "page_free_list s = None" "ROUNDUP kend PGSIZE = kpage k" "256 \<le> k"
    and n: "n = unat (npages (i386_detect_memory cmos s))" "first_free k n \<le> n" "n < 0x10000"
  shows "\<exists>t xs. mem_init_alloc cmos kend old_pages old_envs s = Inr (kpage (k + 1), kpage (k + 1 + array_pages n), t) \<and>
    pt_wf t k xs \<and> fresh_pgdir t k \<and>
    set xs = {i. 0 < i \<and> i < 160 \<or> first_free k n \<le> i \<and> i < n}"
proof -
  let ?F = "first_free k n"
  obtain t where t: "mem_init_alloc cmos kend old_pages old_envs s = Inr (kpage (k + 1), kpage (k + 1 + array_pages n), t)"
    "pt_wf t k (rev (filter (page_usable (kpage ?F)) [0..<n]))" "fresh_pgdir t k"
    using mem_init_alloc_spec [OF assms(1-4), of cmos] n by metis
  have "kpage ?F - KERNBASE = of_nat (4096 * ?F)" by (simp add: kpage_def)
  then have u: "unat ((kpage ?F - KERNBASE) div PGSIZE) = ?F"
    using unat_of_nat_u32 [of "4096 * ?F"] n by (simp add: unat_div)
  have "256 \<le> ?F" using assms(4) by (simp add: first_free_def)
  then have "set (rev (filter (page_usable (kpage ?F)) [0..<n])) = {i. 0 < i \<and> i < 160 \<or> ?F \<le> i \<and> i < n}"
    using n(2) unfolding page_usable_def u by auto
  with t show ?thesis by blast
qed

text \<open>The two halves of \<open>mem_init\<close>, one after the other, lead from the BIOS state to the address
  space of \<open>inc/memlayout.h\<close>, and the kernel's own check of it succeeds.\<close>

theorem mem_init_layout:
  fixes s :: "'z env_state_scheme"
  assumes "nextfree s = 0" "page_free_list s = None" "ROUNDUP kend PGSIZE = kpage k" "256 \<le> k"
    and n: "n = unat (npages (i386_detect_memory cmos s))" "first_free k n \<le> n" "n < 0x10000"
    and b: "KERNBASE \<le> b" "unat (b - KERNBASE) mod 4096 = 0"
  shows "\<exists>p e t u. mem_init_alloc cmos kend old_pages old_envs s = Inr (p, e, t) \<and> map_kernel p e b t = Some (Inr u) \<and>
    (\<forall>a. pdx a \<in> slots \<longrightarrow> pt_entry u k a = kern_layout (page2pa (k + 1)) (page2pa (k + 1 + array_pages n)) (b - KERNBASE) a) \<and>
    check_kern_pgdir p e b u = Some (Inr (cprintf (''check_kern_pgdir() succeeded!'' @ nl) [] u))"
proof -
  let ?F = "first_free k n" and ?p = "kpage (k + 1)" and ?e = "kpage (k + 1 + array_pages n)"
  let ?xs = "rev (filter (page_usable (kpage ?F)) [0..<n])"
  obtain t where t: "mem_init_alloc cmos kend old_pages old_envs s = Inr (?p, ?e, t)" "pt_wf t k ?xs" "fresh_pgdir t k"
    using mem_init_alloc_spec [OF assms(1-4), of cmos] n by metis
  have small: "k + 1 < 0x10000" "k + 1 + array_pages n < 0x10000" using n by (simp_all add: first_free_def)
  have "160 \<le> n" using assms(4) n by (simp add: first_free_def)
  then have len: "67 \<le> length ?xs" using usable_pages [of n "kpage ?F"] by simp
  note k = kpage_above(1) [OF small(1)] kpage_above(1) [OF small(2)] kpage_above(2) [OF small(1)] kpage_above(2) [OF small(2)]
  obtain u ys where u: "map_kernel ?p ?e b t = Some (Inr u)" "pt_wf u k ys"
    "\<And>a. pdx a \<in> slots \<Longrightarrow> pt_entry u k a = kern_layout (?p - KERNBASE) (?e - KERNBASE) (b - KERNBASE) a"
    "check_kern_pgdir ?p ?e b u = Some (Inr (cprintf (''check_kern_pgdir() succeeded!'' @ nl) [] u))"
    using map_kernel_checked [OF t(2,3) len k(1,2) b(1) k(3,4) b(2)] by metis
  have "kpage i - KERNBASE = page2pa i" for i by (simp add: kpage_pgdir pgdir_kva_def)
  with t(1) u show ?thesis by metis
qed

text \<open>A machine with 4 megabytes and a kernel that ends at \<open>0xF0110004\<close>.\<close>

definition cmos_4MB :: "u32 \<Rightarrow> u8" where
  "cmos_4MB r = (if r = 0x18 then 0x0C else 0)"

definition bios_machine :: env_state where
  "bios_machine = boot_machine\<lparr>nextfree := 0, page_free_list := None\<rparr>"

lemma bios_machine_boots:
  "nextfree bios_machine = 0" "page_free_list bios_machine = None" "ROUNDUP 0xF0110004 PGSIZE = kpage 273"
  "unat (npages (i386_detect_memory cmos_4MB bios_machine)) = 1024" "first_free 273 1024 = 300"
  by (simp_all add: bios_machine_def ROUNDUP_def ROUNDDOWN_def kpage_def i386_detect_memory_def memory_kb_def nvram_read_def cmos_4MB_def
      first_free_def array_pages_def)

theorem mem_init_alloc_boots_witness:
  "\<forall>old_pages old_envs. \<exists>t xs. mem_init_alloc cmos_4MB 0xF0110004 old_pages old_envs bios_machine = Inr (0xF0112000, 0xF0114000, t) \<and>
     set xs = {i. 0 < i \<and> i < 160 \<or> 300 \<le> i \<and> i < 1024} \<and> free_pages t xs"
proof (intro allI)
  fix old_pages old_envs
  have e: "kpage (273 + 1) = 0xF0112000" "kpage (273 + 1 + array_pages 1024) = 0xF0114000"
    by (simp_all add: kpage_def array_pages_def)
  have h: "(256 :: nat) \<le> 273" "first_free 273 1024 \<le> 1024" "(1024 :: nat) < 0x10000"
    by (simp_all add: bios_machine_boots(5))
  from mem_init_alloc_boots [OF bios_machine_boots(1,2,3) h(1) bios_machine_boots(4) [symmetric] h(2,3),
      of old_pages old_envs, unfolded e bios_machine_boots(5)]
  show "\<exists>t xs. mem_init_alloc cmos_4MB 0xF0110004 old_pages old_envs bios_machine = Inr (0xF0112000, 0xF0114000, t) \<and>
     set xs = {i. 0 < i \<and> i < 160 \<or> 300 \<le> i \<and> i < 1024} \<and> free_pages t xs"
    using pt_wfD(3) by blast
qed

theorem mem_init_layout_witness:
  "\<forall>old_pages old_envs. \<exists>p e t u. mem_init_alloc cmos_4MB 0xF0110004 old_pages old_envs bios_machine = Inr (p, e, t) \<and>
     map_kernel p e 0xF0108000 t = Some (Inr u) \<and> pt_entry u 273 0xF0000ABC = 3 \<and> pt_entry u 273 0xEF000000 = 0x112005"
proof (intro allI)
  fix old_pages old_envs
  have s: "pdx 0xF0000ABC \<in> slots" "pdx 0xEF000000 \<in> slots"
    by (simp_all add: slots_957 pdx_def unat_PDX)
  obtain p e t u where "mem_init_alloc cmos_4MB 0xF0110004 old_pages old_envs bios_machine = Inr (p, e, t)"
    "map_kernel p e 0xF0108000 t = Some (Inr u)"
    "\<forall>a. pdx a \<in> slots \<longrightarrow> pt_entry u 273 a = kern_layout (page2pa 274) (page2pa (274 + array_pages 1024)) (0xF0108000 - KERNBASE) a"
    using mem_init_layout [OF bios_machine_boots(1,2,3), of 1024 cmos_4MB "0xF0108000" old_pages old_envs] bios_machine_boots(4,5)
    by auto
  then show "\<exists>p e t u. mem_init_alloc cmos_4MB 0xF0110004 old_pages old_envs bios_machine = Inr (p, e, t) \<and>
     map_kernel p e 0xF0108000 t = Some (Inr u) \<and> pt_entry u 273 0xF0000ABC = 3 \<and> pt_entry u 273 0xEF000000 = 0x112005"
    using s by (auto simp: kern_layout_def ROUNDDOWN_def page2pa_def)
qed

end
