(* ===== verification/Check_Free.thy ===== *)
theory Check_Free
  imports Kern_Map
begin

text \<open>
  The self tests of the page allocator in \<open>kern/pmap.c\<close>: \<open>check_page_free_list\<close>, which also sorts the
  free list, and \<open>check_page_alloc\<close>. A test that fails is a panic. Shown here: the sort is a stable
  partition of the list, the first test accepts exactly the free lists it describes, and the
  second leaves the free list as it found it.
\<close>

section \<open>Sorting the free list\<close>

text \<open>Where \<open>tp[0]\<close> and \<open>tp[1]\<close> point to: a local variable (\<open>pp1\<close> is 0, \<open>pp2\<close> is 1) or the link of a
  page.\<close>

datatype link_ref = Local nat | Link_of nat

definition store_link ::
  "link_ref \<Rightarrow> nat option \<Rightarrow> (nat \<Rightarrow> nat option) \<Rightarrow> 'z pmap_state_scheme \<Rightarrow>
     fault + (nat \<Rightarrow> nat option) \<times> 'z pmap_state_scheme" where
  "store_link r v locals s =
     (case r of
        Local k \<Rightarrow> Inr (locals(k := v), s)
      | Link_of i \<Rightarrow> bindr (set_page i ((pages s ! i)\<lparr>pp_link := v\<rparr>) s) (\<lambda>s. Inr (locals, s)))"

text \<open>The loop moves each page to the end of one of two lists: \<open>tp[k]\<close> is the place where the next
  element of list \<open>k\<close> is to be linked.\<close>

partial_function (option) split_list_loop ::
  "u32 \<Rightarrow> nat option \<Rightarrow> (nat \<Rightarrow> link_ref) \<Rightarrow> (nat \<Rightarrow> nat option) \<Rightarrow> 'z pmap_state_scheme \<Rightarrow>
     (fault + (nat \<Rightarrow> link_ref) \<times> (nat \<Rightarrow> nat option) \<times> 'z pmap_state_scheme) option" where
  "split_list_loop pdx_limit pp tp locals s =
     (case pp of
        None \<Rightarrow> Some (Inr (tp, locals, s))
      | Some p \<Rightarrow>
          let pagetype = (if PDX (page2pa p) \<ge> pdx_limit then 1 else 0) in
          bindo (Some (store_link (tp pagetype) (Some p) locals s)) (\<lambda>(locals, s).
            if \<not> p < length (pages s) then Some (Inl Wild_Access)
            else split_list_loop pdx_limit (pp_link (pages s ! p)) (tp(pagetype := Link_of p)) locals s))"

text \<open>\<open>junk\<close> is what the uninitialised variables \<open>pp1\<close> and \<open>pp2\<close> hold.\<close>

definition sort_free_list ::
  "(nat \<Rightarrow> nat option) \<Rightarrow> u32 \<Rightarrow> 'z pmap_state_scheme \<Rightarrow> (fault + 'z pmap_state_scheme) option" where
  "sort_free_list junk pdx_limit s =
     bindo (split_list_loop pdx_limit (page_free_list s) Local junk s) (\<lambda>(tp, locals, s).
     bindo (Some (store_link (tp 1) None locals s)) (\<lambda>(locals, s).
     bindo (Some (store_link (tp 0) (locals 1) locals s)) (\<lambda>(locals, s).
     Some (Inr (s\<lparr>page_free_list := locals 0\<rparr>)))))"

section \<open>The test of the free list\<close>

text \<open>A loop \<open>for (pp = page_free_list; pp; pp = pp->pp_link)\<close> over a body that can fault.\<close>

partial_function (option) for_pages ::
  "(nat \<Rightarrow> 'a \<Rightarrow> 'z pmap_state_scheme \<Rightarrow> fault + 'a \<times> 'z pmap_state_scheme) \<Rightarrow> nat option \<Rightarrow> 'a \<Rightarrow> 'z pmap_state_scheme \<Rightarrow>
     (fault + 'a \<times> 'z pmap_state_scheme) option" where
  "for_pages body pp a s =
     (case pp of
        None \<Rightarrow> Some (Inr (a, s))
      | Some p \<Rightarrow>
          bindo (Some (body p a s)) (\<lambda>(a, s).
            if \<not> p < length (pages s) then Some (Inl Wild_Access)
            else for_pages body (pp_link (pages s ! p)) a s))"

text \<open>The body that spoils the pages that may be used: their first 128 bytes become \<open>0x97\<close>.\<close>

definition spoil_page :: "u32 \<Rightarrow> nat \<Rightarrow> unit \<Rightarrow> 'z pmap_state_scheme \<Rightarrow> fault + unit \<times> 'z pmap_state_scheme" where
  "spoil_page pdx_limit p u s =
     (if PDX (page2pa p) < pdx_limit
      then bindr (page2kva s p) (\<lambda>kva. Inr ((), s\<lparr>mem := memset (mem s) (kv2p kva) 0x97 128\<rparr>))
      else Inr ((), s))"

text \<open>The body that looks at a page; the two counters are those of pages below and above
  \<open>EXTPHYSMEM\<close>. A page is an index, so the alignment of \<open>pp\<close> is not in question.\<close>

definition check_free_page ::
  "u32 \<Rightarrow> nat \<Rightarrow> u32 \<times> u32 \<Rightarrow> 'z pmap_state_scheme \<Rightarrow> fault + (u32 \<times> u32) \<times> 'z pmap_state_scheme" where
  "check_free_page first_free_page p n s =
     bindr (assert_that (p < unat (npages s)) ''pp < pages + npages'' s) (\<lambda>s.
     bindr (assert_that (page2pa p \<noteq> 0) ''page2pa(pp) != 0'' s) (\<lambda>s.
     bindr (assert_that (page2pa p \<noteq> IOPHYSMEM) ''page2pa(pp) != IOPHYSMEM'' s) (\<lambda>s.
     bindr (assert_that (page2pa p \<noteq> EXTPHYSMEM - PGSIZE) ''page2pa(pp) != EXTPHYSMEM - PGSIZE'' s) (\<lambda>s.
     bindr (assert_that (page2pa p \<noteq> EXTPHYSMEM) ''page2pa(pp) != EXTPHYSMEM'' s) (\<lambda>s.
     bindr (if page2pa p < EXTPHYSMEM then Inr True
            else bindr (page2kva s p) (\<lambda>kva. Inr (first_free_page \<le> kva))) (\<lambda>b.
     bindr (assert_that b ''page2pa(pp) < EXTPHYSMEM || (char *) page2kva(pp) >= first_free_page'' s) (\<lambda>s.
     case n of (base, ext) \<Rightarrow>
       Inr (if page2pa p < EXTPHYSMEM then (base + 1, ext) else (base, ext + 1), s))))))))"

text \<open>\<open>check_page_free_list\<close> after the sort.\<close>

definition check_sorted :: "u32 \<Rightarrow> u32 \<Rightarrow> 'z env_state_scheme \<Rightarrow> (fault + 'z env_state_scheme) option" where
  "check_sorted kend lim s =
     bindo (for_pages (spoil_page lim) (page_free_list s) () s) (\<lambda>(_, s).
     bindo (Some (boot_alloc kend s 0)) (\<lambda>(first_free_page, s).
     bindo (for_pages (check_free_page first_free_page) (page_free_list s) (0, 0) s) (\<lambda>((base, ext), s).
     bindo (Some (assert_that (0 <s base) ''nfree_basemem > 0'' s)) (\<lambda>s.
     bindo (Some (assert_that (0 <s ext) ''nfree_extmem > 0'' s)) (\<lambda>s.
     Some (Inr (cprintf (''check_page_free_list() succeeded!'' @ nl) [] s)))))))"

definition check_page_free_list ::
  "u32 \<Rightarrow> (nat \<Rightarrow> nat option) \<Rightarrow> bool \<Rightarrow> 'z env_state_scheme \<Rightarrow> (fault + 'z env_state_scheme) option" where
  "check_page_free_list kend junk only_low_memory s =
     (let pdx_limit = (if only_low_memory then 1 else NPDENTRIES) in
      if page_free_list s = None then Some (Inl (Panic (CHR 0x27 # ''page_free_list'' @ CHR 0x27 # '' is a null pointer!'')))
      else
        bindo (if only_low_memory then sort_free_list junk pdx_limit s else Some (Inr s)) (\<lambda>s.
        check_sorted kend pdx_limit s))"

section \<open>The test of the allocator\<close>

text \<open>\<open>assert((p = page_alloc(flags)))\<close> and \<open>assert(!page_alloc(0))\<close>. The pointers it yields are not
  \<open>NULL\<close>, so the assertions \<open>assert(pp0)\<close> and the like hold by their type.\<close>

definition assert_alloc :: "string \<Rightarrow> u32 \<Rightarrow> 'z pmap_state_scheme \<Rightarrow> fault + nat \<times> 'z pmap_state_scheme" where
  "assert_alloc what flags s =
     bindr (page_alloc s flags) (\<lambda>(r, s).
       case r of None \<Rightarrow> Inl (Panic (''assertion failed: '' @ what)) | Some p \<Rightarrow> Inr (p, s))"

definition assert_no_alloc :: "'z pmap_state_scheme \<Rightarrow> fault + 'z pmap_state_scheme" where
  "assert_no_alloc s = bindr (page_alloc s 0) (\<lambda>(r, s). assert_that (r = None) ''!page_alloc(0)'' s)"

definition alloc_three :: "'z pmap_state_scheme \<Rightarrow> fault + (nat \<times> nat \<times> nat) \<times> 'z pmap_state_scheme" where
  "alloc_three s =
     bindr (assert_alloc ''(pp0 = page_alloc(0))'' 0 s) (\<lambda>(pp0, s).
     bindr (assert_alloc ''(pp1 = page_alloc(0))'' 0 s) (\<lambda>(pp1, s).
     bindr (assert_alloc ''(pp2 = page_alloc(0))'' 0 s) (\<lambda>(pp2, s).
     bindr (assert_that (pp1 \<noteq> pp0) ''pp1 && pp1 != pp0'' s) (\<lambda>s.
     bindr (assert_that (pp2 \<noteq> pp1 \<and> pp2 \<noteq> pp0) ''pp2 && pp2 != pp1 && pp2 != pp0'' s) (\<lambda>s.
     Inr ((pp0, pp1, pp2), s))))))"

definition free_three :: "nat \<Rightarrow> nat \<Rightarrow> nat \<Rightarrow> 'z pmap_state_scheme \<Rightarrow> fault + 'z pmap_state_scheme" where
  "free_three pp0 pp1 pp2 s =
     bindr (page_free s pp0) (\<lambda>s. bindr (page_free s pp1) (\<lambda>s. page_free s pp2))"

text \<open>The part of \<open>check_page_alloc\<close> between the two counts of the free list.\<close>

definition check_alloc_steps :: "'z pmap_state_scheme \<Rightarrow> fault + 'z pmap_state_scheme" where
  "check_alloc_steps s =
     bindr (alloc_three s) (\<lambda>((pp0, pp1, pp2), s).
     bindr (assert_that (page2pa pp0 < npages s * PGSIZE) ''page2pa(pp0) < npages*PGSIZE'' s) (\<lambda>s.
     bindr (assert_that (page2pa pp1 < npages s * PGSIZE) ''page2pa(pp1) < npages*PGSIZE'' s) (\<lambda>s.
     bindr (assert_that (page2pa pp2 < npages s * PGSIZE) ''page2pa(pp2) < npages*PGSIZE'' s) (\<lambda>s.
     let fl = page_free_list s; s = s\<lparr>page_free_list := None\<rparr> in
     bindr (assert_no_alloc s) (\<lambda>s.
     bindr (free_three pp0 pp1 pp2 s) (\<lambda>s.
     bindr (alloc_three s) (\<lambda>((pp0, pp1, pp2), s).
     bindr (assert_no_alloc s) (\<lambda>s.
     bindr (page2kva s pp0) (\<lambda>kva.
     let s = s\<lparr>mem := memset (mem s) (kv2p kva) 1 PGSIZE\<rparr> in
     bindr (page_free s pp0) (\<lambda>s.
     bindr (assert_alloc ''(pp = page_alloc(ALLOC_ZERO))'' ALLOC_ZERO s) (\<lambda>(pp, s).
     bindr (assert_that (pp0 = pp) ''pp && pp0 == pp'' s) (\<lambda>s.
     bindr (page2kva s pp) (\<lambda>c.
     bindr (for_each (\<lambda>i s. assert_that (mem s (kv2p c + of_nat i) = 0) ''c[i] == 0'' s) [0..<unat PGSIZE] s) (\<lambda>s.
     free_three pp0 pp1 pp2 (s\<lparr>page_free_list := fl\<rparr>)))))))))))))))"

text \<open>\<open>pages_kva\<close> is the value of the pointer \<open>pages\<close>.\<close>

definition check_page_alloc :: "u32 \<Rightarrow> 'z env_state_scheme \<Rightarrow> (fault + 'z env_state_scheme) option" where
  "check_page_alloc pages_kva s =
     (if pages_kva = 0 then Some (Inl (Panic (CHR 0x27 # ''pages'' @ CHR 0x27 # '' is a null pointer!'')))
      else
        bindo (for_pages (\<lambda>p n s. Inr (n + 1, s)) (page_free_list s) (0 :: u32) s) (\<lambda>(nfree, s).
        bindo (Some (check_alloc_steps s)) (\<lambda>s.
        bindo (for_pages (\<lambda>p n s. Inr (n - 1, s)) (page_free_list s) nfree s) (\<lambda>(nfree, s).
        bindo (Some (assert_that (nfree = 0) ''nfree == 0'' s)) (\<lambda>s.
        Some (Inr (cprintf (''check_page_alloc() succeeded!'' @ nl) [] s)))))))"

section \<open>The links of the pages\<close>

text \<open>The state \<open>s\<close> with other links, another head of the free list and another memory.\<close>

definition with_links ::
  "'z pmap_state_scheme \<Rightarrow> nat option \<Rightarrow> (nat \<Rightarrow> nat option) \<Rightarrow> memory \<Rightarrow> 'z pmap_state_scheme" where
  "with_links s h l m = s\<lparr>page_free_list := h, mem := m,
     pages := map (\<lambda>i. (pages s ! i)\<lparr>pp_link := l i\<rparr>) [0..<length (pages s)]\<rparr>"

lemma with_links_same: "with_links s (page_free_list s) (page_link s) (mem s) = s"
proof -
  have "map (\<lambda>i. (pages s ! i)\<lparr>pp_link := page_link s i\<rparr>) [0..<length (pages s)] = pages s"
    by (rule nth_equalityI) (simp_all add: page_link_def)
  then show ?thesis by (simp add: with_links_def)
qed

lemma with_links_fields [simp]:
  "page_free_list (with_links s h l m) = h" "mem (with_links s h l m) = m" "npages (with_links s h l m) = npages s"
  "length (pages (with_links s h l m)) = length (pages s)"
  "i < length (pages s) \<Longrightarrow> pages (with_links s h l m) ! i = (pages s ! i)\<lparr>pp_link := l i\<rparr>"
  "(with_links s h l m)\<lparr>page_free_list := h'\<rparr> = with_links s h' l m"
  "(with_links s h l m)\<lparr>mem := m'\<rparr> = with_links s h l m'"
  "nextfree (with_links s h l m) = nextfree s"
  "page2kva (with_links s h l m) p = page2kva s p"
  by (simp_all add: with_links_def page2kva_def KADDR_def)

lemma with_links_mem: "with_links s (page_free_list s) (page_link s) m = s\<lparr>mem := m\<rparr>"
  by (metis with_links_fields(7) with_links_same)

lemma with_links_upd:
  "i < length (pages s) \<Longrightarrow>
   (pages (with_links s h l m))[i := (pages s ! i)\<lparr>pp_link := v\<rparr>] = pages (with_links s h (l(i := v)) m)"
  by (rule nth_equalityI) (auto simp: nth_list_update with_links_def)

lemma with_links_pages [simp]:
  "(with_links s h l m)\<lparr>pages := pages (with_links s h' l' m')\<rparr> = with_links s h l' m"
  by (simp add: with_links_def)

lemma set_page_links [simp]:
  "i < length (pages s) \<Longrightarrow> set_page i ((pages s ! i)\<lparr>pp_link := v\<rparr>) (with_links s h l m) = Inr (with_links s h (l(i := v)) m)"
  by (simp add: set_page_def with_links_upd)

lemma page_free_links [simp]:
  "i < length (pages s) \<Longrightarrow> page_free (with_links s h l m) i = Inr (with_links s (Some i) (l(i := h)) m)"
  by (simp add: page_free_def Let_def with_links_upd)

lemma page_alloc_links [simp]:
  "page_alloc (with_links s None l m) flags = Inr (None, with_links s None l m)"
  "i < length (pages s) \<Longrightarrow> page_alloc (with_links s (Some i) l m) 0 = Inr (Some i, with_links s (l i) (l(i := None)) m)"
  "i < length (pages s) \<Longrightarrow> page2kva s i = Inr kva \<Longrightarrow> page_alloc (with_links s (Some i) l m) 1 =
     Inr (Some i, with_links s (l i) (l(i := None)) (memset m (kv2p kva) 0 PGSIZE))"
  by (simp_all add: page_alloc_def Let_def with_links_upd)

text \<open>A loop over the free list is a loop over the list it holds, if its body changes no link.\<close>

lemma for_pages_chain:
  assumes "chain (page_link s) pp xs" "set xs \<subseteq> {..<length (pages s)}"
    and "\<And>x a s a' t. x \<in> set xs \<Longrightarrow> body x a s = Inr (a', t) \<Longrightarrow> pages t = pages s"
  shows "for_pages body pp a s = Some (for_each (\<lambda>x (a, s). body x a s) xs (a, s))"
  using assms
proof (induction xs arbitrary: pp a s)
  case Nil
  then show ?case by (subst for_pages.simps) simp
next
  case (Cons x xs)
  then have pp: "pp = Some x" "chain (page_link s) (page_link s x) xs" "x < length (pages s)" by auto
  show ?case
  proof (cases "body x a s")
    case (Inr r)
    obtain a' t where r: "r = (a', t)" by (cases r)
    have t: "pages t = pages s" by (rule Cons.prems(3) [OF _ Inr [unfolded r]]) simp
    then have link: "page_link t = page_link s" by (simp add: page_link_def fun_eq_iff)
    have "for_pages body (page_link s x) a' t = Some (for_each (\<lambda>x (a, s). body x a s) xs (a', t))"
      by (rule Cons.IH) (use pp link t Cons.prems(2) in simp_all, rule Cons.prems(3), simp_all)
    with pp t Inr r show ?thesis
      by (subst for_pages.simps) (simp add: page_link_def)
  qed (use pp in \<open>subst for_pages.simps, simp\<close>)
qed

lemma free_pages_loop:
  assumes "free_pages s xs" "\<And>x a s a' t. x \<in> set xs \<Longrightarrow> body x a s = Inr (a', t) \<Longrightarrow> pages t = pages s"
  shows "for_pages body (page_free_list s) a s = Some (for_each (\<lambda>x (a, s). body x a s) xs (a, s))"
  using assms by (intro for_pages_chain) (auto simp: free_pages_def page_cap_def)

lemma free_pages_fold:
  assumes "free_pages s xs"
  shows "for_pages (\<lambda>p n s. Inr (f p n, s)) (page_free_list s) n s = Some (Inr (fold f xs n, s))"
proof -
  have "for_each (\<lambda>x (a, s). Inr (f x a, s)) ys (a, s) = Inr (fold f ys a, s)" for ys a by (induction ys arbitrary: a) simp_all
  then show ?thesis using free_pages_loop [OF assms, of "\<lambda>p n s. Inr (f p n, s)"] by simp
qed

lemma free_pages_mem: "free_pages (s\<lparr>mem := m\<rparr>) xs \<longleftrightarrow> free_pages s xs"
proof -
  have "page_link (s\<lparr>mem := m\<rparr>) = page_link s" by (simp add: page_link_def fun_eq_iff)
  then show ?thesis by (simp add: free_pages_def page_cap_def)
qed

lemma free_pages_distinct: "free_pages s xs \<Longrightarrow> distinct xs"
  by (auto simp: free_pages_def intro: chain_distinct)

lemma for_each_assert: "(\<And>x. x \<in> set xs \<Longrightarrow> P x s) \<Longrightarrow> for_each (\<lambda>x s. assert_that (P x s) what s) xs s = Inr s"
  by (induction xs) (simp_all add: assert_that_def)

section \<open>The test of the allocator leaves everything as it was\<close>

lemma page_below:
  assumes "pages_wf s" "p < length (pages s)"
  shows "page2kva s p = Inr (page2pa p + KERNBASE)" "unat (npages s) < 0x100000 \<Longrightarrow> page2pa p < npages s * PGSIZE"
proof -
  show "page2kva s p = Inr (page2pa p + KERNBASE)" using KADDR_page2pa [OF assms] by (simp add: page2kva_def)
  assume "unat (npages s) < 0x100000"
  then have "unat (npages s * PGSIZE) = 4096 * unat (npages s)" by (simp add: unat_word_ariths)
  with pages_wf_bound [OF assms] show "page2pa p < npages s * PGSIZE"
    by (simp add: word_less_nat_alt unat_page2pa)
qed

lemma alloc_three_links:
  assumes "a < length (pages s)" "b < length (pages s)" "c < length (pages s)" "distinct [a, b, c]"
    and "l a = Some b" "l b = Some c"
  shows "alloc_three (with_links s (Some a) l m) =
    Inr ((a, b, c), with_links s (l c) (l(a := None, b := None, c := None)) m)"
  using assms by (simp add: alloc_three_def assert_alloc_def assert_that_def)

lemma free_three_links:
  assumes "a < length (pages s)" "b < length (pages s)" "c < length (pages s)"
  shows "free_three a b c (with_links s h l m) = Inr (with_links s (Some c) (l(a := h, b := Some a, c := Some b)) m)"
  using assms by (simp add: free_three_def)

lemma check_alloc_steps_links:
  assumes wf: "pages_wf s" "unat (npages s) < 0x100000" and abc: "a < length (pages s)" "b < length (pages s)" "c < length (pages s)"
    and d: "distinct [a, b, c]" and l: "l a = Some b" "l b = Some c"
  shows "check_alloc_steps (with_links s (Some a) l m) =
    Inr (with_links s (Some a) l (memset (memset m (page2pa c) 1 PGSIZE) (page2pa c) 0 PGSIZE))"
proof -
  note below = page_below(2) [OF wf(1) _ wf(2)]
  define m1 where "m1 = memset m (page2pa c) 1 PGSIZE"
  define m2 where "m2 = memset m1 (page2pa c) 0 PGSIZE"
  define l1 where "l1 = l(a := None, b := None, c := None)"
  define l2 where "l2 = l1(a := None, b := Some a, c := Some b)"
  have l2: "l2 c = Some b" "l2 b = Some a" "l2 a = None" "distinct [c, b, a]" using d by (simp_all add: l2_def)
  have s1: "alloc_three (with_links s (Some a) l m) = Inr ((a, b, c), with_links s (l c) l1 m)"
    unfolding l1_def by (rule alloc_three_links [OF abc d l])
  have s2: "free_three a b c (with_links s None l1 m) = Inr (with_links s (Some c) l2 m)"
    unfolding l2_def by (rule free_three_links [OF abc])
  have s3: "alloc_three (with_links s (Some c) l2 m) = Inr ((c, b, a), with_links s None (l2(c := None, b := None, a := None)) m)"
    using alloc_three_links [OF abc(3,2,1) l2(4) l2(1,2), of m] by (simp only: l2(3))
  let ?l3 = "l2(c := None, b := None, a := None)"
  have s4: "free_three c b a (with_links s (l c) ?l3 m2) = Inr (with_links s (Some a) l m2)"
  proof -
    have "?l3(c := l c, b := Some c, a := Some b) = l" using l d by (auto simp: l2_def l1_def fun_eq_iff)
    then show ?thesis by (simp only: free_three_links [OF abc(3,2,1)])
  qed
  have "m2 (page2pa c + of_nat i) = 0" if "i < 4096" for i
    using that unat_of_nat_u32 [of i] by (simp add: m2_def memset_fill block_fill_def)
  then have z: "for_each (\<lambda>i s. assert_that (mem s (page2pa c + of_nat i) = 0) ''c[i] == 0'' s) [0..<4096] (with_links s None (?l3(c := None)) m2)
      = Inr (with_links s None (?l3(c := None)) m2)"
    by (intro for_each_assert) simp
  have kv: "kv2p (page2pa c + 4026531840) = page2pa c" using kv2p_KADDR [of "page2pa c"] by simp
  show ?thesis
    using s1 s2 s3 s4 z abc d below [OF abc(1)] below [OF abc(2)] below [OF abc(3)] page_below(1) [OF wf(1) abc(3)]
    unfolding m2_def m1_def
    by (simp add: check_alloc_steps_def assert_alloc_def assert_no_alloc_def assert_that_def Let_def kv)
qed

lemma memset_again: "memset (memset m v c n) v d n = memset m v d n"
  by (auto simp: memset_fill block_fill_def fun_eq_iff)

lemma check_page_alloc_eq:
  assumes "pages_wf s" "unat (npages s) < 0x100000" "free_pages s (a # b # c # rest)" "pages_kva \<noteq> 0"
  shows "check_page_alloc pages_kva s = Some (Inr (cprintf (''check_page_alloc() succeeded!'' @ nl) []
    (s\<lparr>mem := memset (mem s) (page2pa c) 0 PGSIZE\<rparr>)))"
proof -
  let ?xs = "a # b # c # rest" and ?t = "s\<lparr>mem := memset (mem s) (page2pa c) 0 PGSIZE\<rparr>"
  have "distinct ?xs" using assms(3) by (rule free_pages_distinct)
  have f: "page_free_list s = Some a" "page_link s a = Some b" "page_link s b = Some c"
    "a < length (pages s)" "b < length (pages s)" "c < length (pages s)"
    using assms(3) by (auto simp: free_pages_def page_cap_def)
  from check_alloc_steps_links [OF assms(1,2) f(4-6) _ f(2,3), of "mem s"] \<open>distinct ?xs\<close>
  have "check_alloc_steps (with_links s (page_free_list s) (page_link s) (mem s)) =
      Inr (with_links s (page_free_list s) (page_link s) (memset (mem s) (page2pa c) 0 PGSIZE))"
    by (simp add: f(1) memset_again)
  then have steps: "check_alloc_steps s = Inr ?t"
    unfolding with_links_mem by simp
  have count: "fold (\<lambda>p n. n + 1) xs n = n + of_nat (length xs)" "fold (\<lambda>p n. n - 1) xs n = n - of_nat (length xs)"
    for xs :: "nat list" and n :: u32
    by (induction xs arbitrary: n) simp_all
  have t: "free_pages ?t ?xs" using assms(3) by (simp add: free_pages_mem)
  show ?thesis
    unfolding check_page_alloc_def free_pages_fold [OF assms(3)] steps
    using assms(4) free_pages_fold [OF t, of "\<lambda>p n. n - 1 :: u32"]
    by (simp add: assert_that_def count steps del: list.size of_nat_Suc fold.simps)
qed

lemma check_page_alloc_short:
  assumes "free_pages s xs" "length xs < 3" "pages_kva \<noteq> 0"
  shows "\<exists>msg. check_page_alloc pages_kva s = Some (Inl (Panic msg))"
proof -
  have "\<exists>msg. check_alloc_steps s = Inl (Panic msg)"
  proof -
    note l = with_links_same [of s, symmetric]
    consider "xs = []" | a where "xs = [a]" | a b where "xs = [a, b]"
      using assms(2) by (auto simp: numeral_3_eq_3 less_Suc_eq length_Suc_conv)
    then show ?thesis
    proof cases
      case 1
      with assms(1) show ?thesis
        by (simp add: check_alloc_steps_def alloc_three_def assert_alloc_def free_pages_def page_alloc_def)
    next
      case (2 a)
      with assms(1) have f: "page_free_list s = Some a" "page_link s a = None" "a < length (pages s)"
        by (auto simp: free_pages_def page_cap_def)
      show ?thesis
        by (subst l) (simp add: check_alloc_steps_def alloc_three_def assert_alloc_def f)
    next
      case (3 a b)
      with assms(1) have f: "page_free_list s = Some a" "page_link s a = Some b" "page_link s b = None"
        "a < length (pages s)" "b < length (pages s)" "a \<noteq> b"
        by (auto simp: free_pages_def page_cap_def)
      show ?thesis
        by (subst l) (simp add: check_alloc_steps_def alloc_three_def assert_alloc_def f)
    qed
  qed
  then show ?thesis
    using assms(3) unfolding check_page_alloc_def free_pages_fold [OF assms(1)]
    by (cases "check_alloc_steps s") (auto simp del: fold.simps)
qed

section \<open>The sort is a stable partition\<close>

text \<open>\<open>seg l ys\<close>: each page of \<open>ys\<close> links to the next.\<close>

fun seg :: "(nat \<Rightarrow> nat option) \<Rightarrow> nat list \<Rightarrow> bool" where
  "seg l (x # y # ys) \<longleftrightarrow> l x = Some y \<and> seg l (y # ys)"
| "seg l _ \<longleftrightarrow> True"

lemma seg_snoc: "seg l (ys @ [p]) \<longleftrightarrow> seg l ys \<and> (ys \<noteq> [] \<longrightarrow> l (last ys) = Some p)"
  by (induction l ys rule: seg.induct) auto

lemma seg_other: "x \<notin> set ys \<Longrightarrow> seg (l(x := v)) ys \<longleftrightarrow> seg l ys"
  by (induction l ys rule: seg.induct) auto

lemma seg_last: "distinct ys \<Longrightarrow> ys \<noteq> [] \<Longrightarrow> seg (l(last ys := v)) ys \<longleftrightarrow> seg l ys"
  by (induction l ys rule: seg.induct) auto

lemma seg_chain: "seg l ys \<Longrightarrow> ys \<noteq> [] \<Longrightarrow> chain l (l (last ys)) zs \<Longrightarrow> chain l (Some (hd ys)) (ys @ zs)"
  by (induction l ys rule: seg.induct) auto

definition side :: "u32 \<Rightarrow> nat \<Rightarrow> nat" where
  "side lim p = (if PDX (page2pa p) \<ge> lim then 1 else 0)"

definition part :: "u32 \<Rightarrow> nat \<Rightarrow> nat list \<Rightarrow> nat list" where
  "part lim k ys = filter (\<lambda>p. side lim p = k) ys"

text \<open>After the pages \<open>ys\<close>: each side is a linked segment that starts at its variable, and \<open>tp\<close> points
  to its end.\<close>

definition parted :: "u32 \<Rightarrow> nat list \<Rightarrow> (nat \<Rightarrow> link_ref) \<Rightarrow> (nat \<Rightarrow> nat option) \<Rightarrow> (nat \<Rightarrow> nat option) \<Rightarrow> bool" where
  "parted lim ys tp locals l \<longleftrightarrow> (\<forall>k. seg l (part lim k ys) \<and>
     tp k = (if part lim k ys = [] then Local k else Link_of (last (part lim k ys))) \<and>
     (part lim k ys \<noteq> [] \<longrightarrow> locals k = Some (hd (part lim k ys))))"

lemma part_snoc: "part lim k (ys @ [p]) = (if side lim p = k then part lim k ys @ [p] else part lim k ys)"
  by (simp add: part_def)

lemma part_set: "set (part lim k ys) \<subseteq> set ys" "distinct ys \<Longrightarrow> distinct (part lim k ys)"
  by (auto simp: part_def)

text \<open>Linking \<open>p\<close> in at the end of its side.\<close>

lemma parted_step:
  assumes "parted lim ys tp locals l" "distinct (ys @ [p])" "set ys \<subseteq> {..<length (pages s)}"
  obtains locals' l' where
    "store_link (tp (side lim p)) (Some p) locals (with_links s h l m) = Inr (locals', with_links s h l' m)"
    "parted lim (ys @ [p]) (tp(side lim p := Link_of p)) locals' l'" "\<And>x. x \<notin> set ys \<Longrightarrow> l' x = l x"
proof (cases "part lim (side lim p) ys = []")
  case True
  then have tp: "tp (side lim p) = Local (side lim p)" using assms(1) by (simp add: parted_def)
  have "parted lim (ys @ [p]) (tp(side lim p := Link_of p)) (locals(side lim p := Some p)) l"
    using assms(1) True by (auto simp: parted_def part_snoc seg_snoc)
  then show ?thesis using that [of "locals(side lim p := Some p)" l] tp by (simp add: store_link_def)
next
  case False
  let ?k = "side lim p" let ?q = "last (part lim ?k ys)"
  have tp: "tp ?k = Link_of ?q" using assms(1) False by (simp add: parted_def)
  have q: "?q \<in> set ys" "side lim ?q = ?k" using last_in_set [OF False] by (auto simp: part_def)
  then have ql: "?q < length (pages s)" using assms(3) by auto
  have "store_link (tp ?k) (Some p) locals (with_links s h l m) = Inr (locals, with_links s h (l(?q := Some p)) m)"
    using ql set_page_links [OF ql, of "Some p" h l m] by (simp add: tp store_link_def)
  moreover have "parted lim (ys @ [p]) (tp(?k := Link_of p)) locals (l(?q := Some p))"
    unfolding parted_def
  proof
    fix k
    have "seg (l(?q := Some p)) (part lim k ys) \<longleftrightarrow> seg l (part lim k ys)"
    proof (cases "k = ?k")
      case True
      then show ?thesis using seg_last [of "part lim ?k ys"] part_set(2) [of ys lim ?k] assms(2) False by simp
    next
      case other: False
      then have "?q \<notin> set (part lim k ys)" using q(2) by (auto simp: part_def)
      then show ?thesis by (rule seg_other)
    qed
    with assms(1) False show "seg (l(?q := Some p)) (part lim k (ys @ [p])) \<and>
        (tp(?k := Link_of p)) k = (if part lim k (ys @ [p]) = [] then Local k else Link_of (last (part lim k (ys @ [p])))) \<and>
        (part lim k (ys @ [p]) \<noteq> [] \<longrightarrow> locals k = Some (hd (part lim k (ys @ [p]))))"
      by (auto simp: parted_def part_snoc seg_snoc)
  qed
  moreover have "(l(?q := Some p)) x = l x" if "x \<notin> set ys" for x using that q(1) by auto
  ultimately show ?thesis using that by blast
qed

lemma split_list_loop_parts:
  assumes "chain l pp zs" "distinct (ys @ zs)" "set (ys @ zs) \<subseteq> {..<length (pages s)}" "parted lim ys tp locals l"
  shows "\<exists>tp' locals' l'. split_list_loop lim pp tp locals (with_links s h l m) = Some (Inr (tp', locals', with_links s h l' m)) \<and>
    parted lim (ys @ zs) tp' locals' l' \<and> (\<forall>x. x \<notin> set (ys @ zs) \<longrightarrow> l' x = l x)"
  using assms
proof (induction zs arbitrary: pp l ys tp locals)
  case Nil
  then show ?case by (subst split_list_loop.simps) auto
next
  case (Cons p zs)
  then have pp: "pp = Some p" "chain l (l p) zs" by auto
  have d: "distinct (ys @ [p])" "set ys \<subseteq> {..<length (pages s)}" "p < length (pages s)" using Cons.prems by auto
  obtain locals' l' where s1: "store_link (tp (side lim p)) (Some p) locals (with_links s h l m) = Inr (locals', with_links s h l' m)"
    "parted lim (ys @ [p]) (tp(side lim p := Link_of p)) locals' l'" "\<And>x. x \<notin> set ys \<Longrightarrow> l' x = l x"
    using parted_step [OF Cons.prems(4) d(1,2)] by blast
  have "chain l' (l' p) zs = chain l (l p) zs"
  proof -
    have "l' p = l p" using s1(3) Cons.prems(2) by simp
    moreover have "chain l' (l p) zs = chain l (l p) zs"
      by (rule chain_cong) (rule s1(3), use Cons.prems(2) in auto)
    ultimately show ?thesis by simp
  qed
  then have "chain l' (l' p) zs" using pp(2) by simp
  from Cons.IH [OF this _ _ s1(2)] Cons.prems(2,3)
  obtain tp' locals'' l'' where
    "split_list_loop lim (l' p) (tp(side lim p := Link_of p)) locals' (with_links s h l' m) = Some (Inr (tp', locals'', with_links s h l'' m))"
    "parted lim (ys @ p # zs) tp' locals'' l''" "\<forall>x. x \<notin> set (ys @ p # zs) \<longrightarrow> l'' x = l' x" by (auto simp del: fun_upd_apply)
  moreover have "l' x = l x" if "x \<notin> set (ys @ p # zs)" for x using s1(3) that by simp
  ultimately show ?case
    using s1(1) d(3) by (intro exI [of _ tp'] exI [of _ locals''] exI [of _ l''], subst split_list_loop.simps)
      (simp add: pp(1) side_def [symmetric])
qed

text \<open>Joining two segments: the end of the second gets the null pointer, the end of the first the head
  of the second.\<close>

definition head_of :: "nat list \<Rightarrow> nat option" where
  "head_of xs = (case xs of [] \<Rightarrow> None | x # _ \<Rightarrow> Some x)"

definition end_link :: "(nat \<Rightarrow> nat option) \<Rightarrow> nat list \<Rightarrow> nat option \<Rightarrow> nat \<Rightarrow> nat option" where
  "end_link l ys v = (if ys = [] then l else l(last ys := v))"

lemma head_of_simps [simp]: "head_of [] = None" "head_of (x # xs) = Some x" "ys \<noteq> [] \<Longrightarrow> head_of (ys @ zs) = Some (hd ys)"
  by (simp_all add: head_of_def) (cases ys; simp)

lemma end_link_other: "x \<notin> set ys \<Longrightarrow> end_link l ys v x = l x"
  by (auto simp: end_link_def)

lemma end_link_seg:
  assumes "seg l zs" "distinct zs" "ys = zs \<or> set ys \<inter> set zs = {}"
  shows "seg (end_link l ys v) zs"
proof (cases "ys = [] \<or> ys = zs")
  case True
  then show ?thesis using assms seg_last [of zs l v] by (auto simp: end_link_def)
next
  case False
  then have "last ys \<notin> set zs" using assms(3) last_in_set [of ys] by blast
  then show ?thesis using assms(1) seg_other by (simp add: end_link_def)
qed

lemma end_link_chain:
  assumes "seg l ys" "distinct ys" "chain (end_link l ys (head_of zs)) (head_of zs) zs"
  shows "chain (end_link l ys (head_of zs)) (head_of (ys @ zs)) (ys @ zs)"
proof (cases "ys = []")
  case False
  have "chain (end_link l ys (head_of zs)) (end_link l ys (head_of zs) (last ys)) zs"
    using assms(3) False by (simp add: end_link_def)
  from seg_chain [OF _ False this] end_link_seg [OF assms(1,2), of ys] show ?thesis by (simp add: False)
qed (use assms in simp)

lemma join_chain:
  assumes "seg l A" "seg l B" "distinct A" "distinct B" "set A \<inter> set B = {}"
  shows "chain (end_link (end_link l B None) A (head_of B)) (head_of (A @ B)) (A @ B)"
proof (rule end_link_chain)
  show "seg (end_link l B None) A" using end_link_seg [OF assms(1,3), of B] assms(5) by blast
  have "chain (end_link l B None) (head_of B) B"
    using end_link_chain [of l B "[]"] assms(2,4) by (simp add: chain_None)
  moreover have "end_link (end_link l B None) A (head_of B) x = end_link l B None x" if "x \<in> set B" for x
    by (rule end_link_other) (use that assms(5) in blast)
  ultimately show "chain (end_link (end_link l B None) A (head_of B)) (head_of B) B"
    by (metis chain_cong)
qed (rule assms)

lemma store_end:
  assumes "r = (if ys = [] then Local k else Link_of (last ys))" "set ys \<subseteq> {..<length (pages s)}"
  shows "store_link r v locals (with_links s h l m) =
    Inr (if ys = [] then locals(k := v) else locals, with_links s h (end_link l ys v) m)"
proof (cases "ys = []")
  case False
  then have "last ys < length (pages s)" using assms(2) last_in_set [of ys] by blast
  then show ?thesis using assms(1) False by (simp add: store_link_def end_link_def)
qed (simp add: assms store_link_def end_link_def)

text \<open>The whole sort: the free list is first the pages below the limit, then the others, each in their
  old order; only links of free pages change.\<close>

lemma sort_free_list_parts:
  fixes lim xs
  defines "ys \<equiv> part lim 0 xs @ part lim 1 xs"
  assumes "free_pages s xs"
  shows "\<exists>l. sort_free_list junk lim s = Some (Inr (with_links s (head_of ys) l (mem s))) \<and>
    free_pages (with_links s (head_of ys) l (mem s)) ys \<and> (\<forall>x. x \<notin> set xs \<longrightarrow> l x = page_link s x)"
proof -
  define A B where AB: "A = part lim 0 xs" "B = part lim 1 xs"
  have ys: "ys = A @ B" by (simp add: ys_def AB)
  have f: "chain (page_link s) (page_free_list s) xs" "distinct ([] @ xs)" "set ([] @ xs) \<subseteq> {..<length (pages s)}"
    using assms(2) free_pages_distinct [OF assms(2)] by (simp_all add: free_pages_def page_cap_def)
  have "parted lim [] Local junk (page_link s)" by (simp add: parted_def part_def)
  from split_list_loop_parts [OF f this, of "page_free_list s" "mem s", unfolded with_links_same append_Nil]
  obtain tp locals l where loop: "split_list_loop lim (page_free_list s) Local junk s = Some (Inr (tp, locals, with_links s (page_free_list s) l (mem s)))"
    and p: "parted lim xs tp locals l" and out: "\<forall>x. x \<notin> set xs \<longrightarrow> l x = page_link s x" by auto
  have d: "seg l A" "seg l B" "distinct A" "distinct B" "set A \<inter> set B = {}"
    using f(2) p by (auto simp: part_def AB parted_def)
  have sub: "set A \<subseteq> set xs" "set B \<subseteq> set xs" using part_set(1) by (simp_all add: AB)
  then have inx: "set A \<subseteq> {..<length (pages s)}" "set B \<subseteq> {..<length (pages s)}" using f(3) by auto
  define l2 where "l2 = end_link (end_link l B None) A (head_of B)"
  define la where "la = (if B = [] then locals(1 := None) else locals)"
  define lb where "lb = (if A = [] then la(0 := head_of B) else la)"
  have tp: "tp 0 = (if A = [] then Local 0 else Link_of (last A))" "tp 1 = (if B = [] then Local 1 else Link_of (last B))"
    and hd: "A \<noteq> [] \<Longrightarrow> locals 0 = Some (hd A)" "B \<noteq> [] \<Longrightarrow> locals 1 = Some (hd B)"
    using p by (auto simp: parted_def AB)
  have "la 1 = head_of B" using hd(2) by (cases B) (simp_all add: la_def)
  moreover have "lb 0 = head_of ys" using hd(1) by (cases A) (simp_all add: lb_def la_def ys)
  ultimately have "sort_free_list junk lim s = Some (Inr (with_links s (head_of ys) l2 (mem s)))"
    using loop store_end [OF tp(2) inx(2), of None locals "page_free_list s" l "mem s"]
      store_end [OF tp(1) inx(1), of "head_of B" la "page_free_list s" "end_link l B None" "mem s"]
    by (simp add: sort_free_list_def la_def [symmetric] lb_def [symmetric] l2_def [symmetric])
  moreover have "free_pages (with_links s (head_of ys) l2 (mem s)) ys"
  proof -
    have "chain l2 (head_of ys) ys" using join_chain [OF d] by (simp add: l2_def ys)
    moreover have "set ys \<subseteq> {..<length (pages s)}" using inx by (simp add: ys)
    moreover have "chain (page_link (with_links s (head_of ys) l2 (mem s))) (head_of ys) ys = chain l2 (head_of ys) ys"
      by (rule chain_cong) (use calculation(2) in \<open>auto simp: page_link_def\<close>)
    ultimately show ?thesis by (simp add: free_pages_def page_cap_def)
  qed
  moreover have "l2 x = page_link s x" if "x \<notin> set xs" for x
  proof -
    have "x \<notin> set A" "x \<notin> set B" using that sub by auto
    then show ?thesis using that out by (simp add: l2_def end_link_other)
  qed
  ultimately show ?thesis by blast
qed

section \<open>What the test of the free list accepts\<close>

definition spoiled :: "nat set \<Rightarrow> memory \<Rightarrow> memory" where
  "spoiled P m = (\<lambda>a. if \<exists>p \<in> P. unat (a - page2pa p) < 128 then 0x97 else m a)"

lemma spoiled_insert: "spoiled P (memset m (page2pa p) 0x97 128) = spoiled (insert p P) m"
  by (auto simp: spoiled_def memset_fill block_fill_def fun_eq_iff)

lemma spoil_loop:
  assumes "pages_wf s" "set xs \<subseteq> {..<length (pages s)}"
  shows "for_each (\<lambda>p (a, s). spoil_page lim p a s) xs ((), s\<lparr>mem := m\<rparr>) =
    Inr ((), s\<lparr>mem := spoiled {p \<in> set xs. PDX (page2pa p) < lim} m\<rparr>)"
  using assms(2)
proof (induction xs arbitrary: m)
  case Nil
  then show ?case by (simp add: spoiled_def)
next
  case (Cons p xs)
  have wf: "pages_wf (s\<lparr>mem := m\<rparr>)" using assms(1) by (simp add: pages_wf_def)
  have "page2kva (s\<lparr>mem := m\<rparr>) p = Inr (page2pa p + KERNBASE)" using page_below(1) [OF wf, of p] Cons.prems by simp
  then have "spoil_page lim p () (s\<lparr>mem := m\<rparr>) =
      Inr ((), s\<lparr>mem := (if PDX (page2pa p) < lim then memset m (page2pa p) 0x97 128 else m)\<rparr>)"
    by (simp add: spoil_page_def kv2p_KADDR [simplified])
  moreover have "{q \<in> set (p # xs). PDX (page2pa q) < lim} =
      (if PDX (page2pa p) < lim then insert p {q \<in> set xs. PDX (page2pa q) < lim} else {q \<in> set xs. PDX (page2pa q) < lim})"
    by auto
  ultimately show ?case using Cons by (simp add: spoiled_insert)
qed

text \<open>The pages the test allows on the free list, for a kernel that ends at \<open>nf\<close>.\<close>

definition free_page_ok :: "u32 \<Rightarrow> nat \<Rightarrow> bool" where
  "free_page_ok nf p \<longleftrightarrow> p \<notin> {0, 160, 255, 256} \<and> (p < 256 \<or> nf \<le> page2pa p + KERNBASE)"

lemma page2pa_tests:
  assumes "p < 0x100000"
  shows "page2pa p = 0 \<longleftrightarrow> p = 0" "page2pa p = IOPHYSMEM \<longleftrightarrow> p = 160" "page2pa p = EXTPHYSMEM - PGSIZE \<longleftrightarrow> p = 255"
    "page2pa p = EXTPHYSMEM \<longleftrightarrow> p = 256" "page2pa p < EXTPHYSMEM \<longleftrightarrow> p < 256"
  using unat_page2pa [OF assms] by (auto simp: word_unat_eq_iff word_less_nat_alt)

lemma check_free_page_eq:
  assumes "pages_wf s" "p < length (pages s)"
  shows "if free_page_ok nf p
    then check_free_page nf p (base, ext) s = Inr (if p < 256 then (base + 1, ext) else (base, ext + 1), s)
    else \<exists>msg. check_free_page nf p (base, ext) s = Inl (Panic msg)"
proof -
  have p: "p < unat (npages s)" "p < 0x100000" using pages_wf_bound [OF assms] by simp_all
  note t = page2pa_tests [OF p(2)] page_below(1) [OF assms]
  consider "p \<in> {0, 160, 255, 256}" | "p \<notin> {0, 160, 255, 256}" "p < 256" | "p \<notin> {0, 160, 255, 256}" "\<not> p < 256" by blast
  then show ?thesis
    unfolding check_free_page_def t using p(1) by cases (auto simp: free_page_ok_def assert_that_def page_below(1) [OF assms])
qed

lemma check_loop:
  assumes "pages_wf s" "set xs \<subseteq> {..<length (pages s)}"
  shows "if \<forall>p \<in> set xs. free_page_ok nf p
    then for_each (\<lambda>p (a, s). check_free_page nf p a s) xs ((base, ext), s) =
      Inr ((base + of_nat (length (filter (\<lambda>p. p < 256) xs)), ext + of_nat (length (filter (\<lambda>p. \<not> p < 256) xs))), s)
    else \<exists>msg. for_each (\<lambda>p (a, s). check_free_page nf p a s) xs ((base, ext), s) = Inl (Panic msg)"
  using assms(2)
proof (induction xs arbitrary: base ext)
  case (Cons p xs)
  show ?case
  proof (cases "free_page_ok nf p")
    case True
    let ?b = "if p < 256 then base + 1 else base" and ?e = "if p < 256 then ext else ext + 1"
    have "check_free_page nf p (base, ext) s = Inr ((?b, ?e), s)"
      using check_free_page_eq [OF assms(1), of p nf base ext] True Cons.prems by simp
    with Cons.IH [of ?b ?e] Cons.prems True show ?thesis by (auto simp: algebra_simps)
  next
    case False
    then show ?thesis using check_free_page_eq [OF assms(1), of p nf base ext] Cons.prems by auto
  qed
qed simp

text \<open>The free lists the test accepts.\<close>

definition free_list_ok :: "u32 \<Rightarrow> nat list \<Rightarrow> bool" where
  "free_list_ok nf xs \<longleftrightarrow> (\<forall>p \<in> set xs. free_page_ok nf p) \<and> (\<exists>p \<in> set xs. p < 256) \<and> (\<exists>p \<in> set xs. 256 \<le> p)"

lemma positive_count: "n \<le> 0x100000 \<Longrightarrow> (0 :: u32) <s of_nat n \<longleftrightarrow> 0 < n"
  using unat_of_nat_u32 [of n] by (simp add: word_sless_alt sint_u32)

lemma test_bodies_pages:
  "spoil_page lim p u s = Inr (v, t) \<Longrightarrow> pages t = pages s"
  "check_free_page nf p n s = Inr (v', t) \<Longrightarrow> pages t = pages s"
  by (auto simp: spoil_page_def check_free_page_def bindr_eq_Inr assert_that_def split: if_splits prod.splits)

lemma check_sorted_eq:
  assumes wf: "pages_wf s" and free: "free_pages s ys" and nf: "nextfree s \<noteq> 0"
  shows "if free_list_ok (nextfree s) ys
    then check_sorted kend lim s = Some (Inr (cprintf (''check_page_free_list() succeeded!'' @ nl) []
      (s\<lparr>mem := spoiled {p \<in> set ys. PDX (page2pa p) < lim} (mem s)\<rparr>)))
    else \<exists>msg. check_sorted kend lim s = Some (Inl (Panic msg))"
proof -
  define nf where "nf = nextfree s"
  let ?t = "s\<lparr>mem := spoiled {p \<in> set ys. PDX (page2pa p) < lim} (mem s)\<rparr>"
  have sub: "set ys \<subseteq> {..<length (pages s)}" using free by (simp add: free_pages_def page_cap_def)
  have "length ys = card (set ys)" using free_pages_distinct [OF free] by (simp add: distinct_card)
  also have "\<dots> \<le> length (pages s)" using card_mono [OF _ sub] by simp
  finally have "length ys \<le> 0x100000" using wf by (simp add: pages_wf_def)
  then have len: "length (filter P ys) \<le> 0x100000" for P using length_filter_le [of P ys] by linarith
  have spoil: "for_pages (spoil_page lim) (page_free_list s) () s = Some (Inr ((), ?t))"
  proof -
    have "for_pages (spoil_page lim) (page_free_list s) () s = Some (for_each (\<lambda>p (a, s). spoil_page lim p a s) ys ((), s))"
      by (rule free_pages_loop [OF free]) (erule test_bodies_pages)
    then show ?thesis using spoil_loop [OF wf sub, of lim "mem s"] by simp
  qed
  have alloc: "boot_alloc kend ?t 0 = Inr (nf, ?t)" using nf by (simp add: boot_alloc_def nf_def)
  have t: "free_pages ?t ys" "pages_wf ?t" "set ys \<subseteq> {..<length (pages ?t)}"
    using free wf sub by (simp_all add: free_pages_mem pages_wf_def)
  have check: "for_pages (check_free_page (nf)) (page_free_list ?t) (0, 0) ?t =
      Some (for_each (\<lambda>p (a, s). check_free_page (nf) p a s) ys ((0, 0), ?t))"
    by (rule free_pages_loop [OF t(1)]) (erule test_bodies_pages)
  note unf = check_sorted_def spoil bindo_simps prod.case alloc check
  let ?lo = "filter (\<lambda>p. p < 256) ys" and ?hi = "filter (\<lambda>p. \<not> p < 256) ys"
  note loop = check_loop [OF t(2,3), of "nf" 0 0]
  show ?thesis
  proof (cases "\<forall>p \<in> set ys. free_page_ok (nf) p")
    case True
    then have "for_each (\<lambda>p (a, s). check_free_page (nf) p a s) ys ((0, 0), ?t) =
        Inr ((of_nat (length ?lo), of_nat (length ?hi)), ?t)" using loop by simp
    note u = unf this positive_count [OF len]
    have lo: "0 < length ?lo \<longleftrightarrow> (\<exists>p \<in> set ys. p < 256)" by (auto simp: filter_empty_conv)
    have hi: "0 < length ?hi \<longleftrightarrow> (\<exists>p \<in> set ys. 256 \<le> p)" by (auto simp: filter_empty_conv not_less)
    have "free_list_ok (nf) ys \<longleftrightarrow> 0 < length ?lo \<and> 0 < length ?hi"
      using True unfolding lo hi by (simp add: free_list_ok_def)
    then show ?thesis unfolding u assert_that_def by (cases "0 < length ?lo"; cases "0 < length ?hi") (simp_all add: nf_def)
  next
    case False
    then obtain msg where m: "for_each (\<lambda>p (a, s). check_free_page (nf) p a s) ys ((0, 0), ?t) = Inl (Panic msg)"
      using loop by (auto split: if_splits)
    have "\<not> free_list_ok nf ys" using False by (simp add: free_list_ok_def)
    then show ?thesis unfolding unf m by (simp add: nf_def)
  qed
qed

text \<open>The order the test leaves: the pages of the first 4 megabytes first, if asked for.\<close>

definition low_first :: "bool \<Rightarrow> nat list \<Rightarrow> nat list" where
  "low_first only_low xs = (if only_low then filter (\<lambda>p. p < 1024) xs @ filter (\<lambda>p. \<not> p < 1024) xs else xs)"

lemma set_low_first [simp]: "set (low_first b xs) = set xs"
  by (auto simp: low_first_def)

lemma free_list_ok_low_first: "free_list_ok nf (low_first b xs) = free_list_ok nf xs"
  by (simp add: free_list_ok_def)

lemma pdx_limit:
  assumes "p < 0x100000"
  shows "PDX (page2pa p) < 1 \<longleftrightarrow> p < 1024" "PDX (page2pa p) < NPDENTRIES"
  using assms unat_page2pa [OF assms] by (simp_all add: word_less_nat_alt unat_PDX div_eq_0_iff)

lemma part_low_first:
  assumes "set xs \<subseteq> {..<0x100000}"
  shows "part 1 0 xs @ part 1 1 xs = low_first True xs"
proof -
  have "side 1 p = (if p < 1024 then 0 else 1)" if "p \<in> set xs" for p
    using pdx_limit(1) [of p] assms that unfolding side_def linorder_not_less [symmetric] by auto
  then have "part 1 0 xs = filter (\<lambda>p. p < 1024) xs" "part 1 1 xs = filter (\<lambda>p. \<not> p < 1024) xs"
    unfolding part_def by (auto intro!: filter_cong split: if_splits)
  then show ?thesis by (simp add: low_first_def)
qed

lemma check_page_free_list_spec:
  assumes wf: "pages_wf s" and free: "free_pages s xs" and nf: "nextfree s \<noteq> 0"
  shows "if xs \<noteq> [] \<and> free_list_ok (nextfree s) xs
    then \<exists>l. check_page_free_list kend junk low s = Some (Inr (cprintf (''check_page_free_list() succeeded!'' @ nl) []
        (with_links s (head_of (low_first low xs)) l (spoiled {p \<in> set xs. low \<longrightarrow> p < 1024} (mem s))))) \<and>
      free_pages (with_links s (head_of (low_first low xs)) l (spoiled {p \<in> set xs. low \<longrightarrow> p < 1024} (mem s))) (low_first low xs) \<and>
      (\<forall>x. x \<notin> set xs \<longrightarrow> l x = page_link s x)
    else \<exists>msg. check_page_free_list kend junk low s = Some (Inl (Panic msg))"
proof (cases "xs = []")
  case True
  then show ?thesis using free by (simp add: check_page_free_list_def free_pages_def)
next
  case False
  have head: "page_free_list s = head_of xs" using free False by (cases xs) (auto simp: free_pages_def)
  then have nonempty: "page_free_list s \<noteq> None" using False by (cases xs) simp_all
  have bound: "p < 0x100000" if "p \<in> set xs" for p
    using free that pages_wf_bound [OF wf, of p] by (auto simp: free_pages_def page_cap_def)
  let ?lim = "if low then 1 else NPDENTRIES :: u32" and ?ys = "low_first low xs"
  have lim: "{p \<in> set xs. PDX (page2pa p) < ?lim} = {p \<in> set xs. low \<longrightarrow> p < 1024}"
    using pdx_limit bound by auto
  obtain l where l: "(if low then sort_free_list junk ?lim s else Some (Inr s)) = Some (Inr (with_links s (head_of ?ys) l (mem s)))"
    "free_pages (with_links s (head_of ?ys) l (mem s)) ?ys" "\<forall>x. x \<notin> set xs \<longrightarrow> l x = page_link s x"
  proof (cases low)
    case True
    have "part 1 0 xs @ part 1 1 xs = ?ys" using part_low_first [of xs] bound True by (auto simp del: filter.simps)
    with sort_free_list_parts [OF free, of junk 1] True that show thesis by auto
  next
    case False
    have "with_links s (head_of ?ys) (page_link s) (mem s) = s" "?ys = xs"
      using False with_links_same [of s] by (simp_all add: low_first_def head)
    with that [of "page_link s"] free False show thesis by simp
  qed
  let ?u = "with_links s (head_of ?ys) l (mem s)"
  have wu: "pages_wf ?u" "nextfree ?u = nextfree s" using wf by (simp_all add: pages_wf_def)
  have "check_page_free_list kend junk low s = check_sorted kend ?lim ?u"
    unfolding check_page_free_list_def Let_def l(1) bindo_simps using nonempty by (simp only: if_False)
  moreover have "free_pages (with_links s (head_of ?ys) l m) ?ys" for m
    using l(2) free_pages_mem [of m ?u ?ys] by simp
  ultimately show ?thesis
    using check_sorted_eq [OF wu(1) l(2), of kend ?lim] nf l(3) False
    unfolding wu(2) set_low_first free_list_ok_low_first lim
    by (cases "free_list_ok (nextfree s) xs") (auto intro!: exI [of _ l])
qed

section \<open>What the tests show\<close>

text \<open>C26: \<open>check_page_free_list\<close> ends. It succeeds exactly on non-empty free lists without page 0, the first
  page of the I/O hole, the pages on both sides of its end and pages of the kernel, that have
  pages below and above the hole; anything else is a panic. With \<open>only_low_memory\<close> it leaves the
  same pages on the list, those of the first 4 megabytes first, both parts in their old order.
  Memory changes only in the first 128 bytes of free pages.\<close>

theorem check_page_free_list_correct:
  assumes "pages_wf s" "free_pages s xs" "nextfree s \<noteq> 0"
  shows "if xs \<noteq> [] \<and> free_list_ok (nextfree s) xs
    then \<exists>t. check_page_free_list kend junk low s = Some (Inr (cprintf (''check_page_free_list() succeeded!'' @ nl) [] t)) \<and>
      free_pages t (if low then filter (\<lambda>p. p < 1024) xs @ filter (\<lambda>p. \<not> p < 1024) xs else xs) \<and>
      (\<forall>i < length (pages s). pp_ref (pages t ! i) = pp_ref (pages s ! i)) \<and>
      mem t = spoiled {p \<in> set xs. low \<longrightarrow> p < 1024} (mem s)
    else \<exists>msg. check_page_free_list kend junk low s = Some (Inl (Panic msg))"
proof (cases "xs \<noteq> [] \<and> free_list_ok (nextfree s) xs")
  case True
  let ?m = "spoiled {p \<in> set xs. low \<longrightarrow> p < 1024} (mem s)"
  obtain l where "check_page_free_list kend junk low s = Some (Inr (cprintf (''check_page_free_list() succeeded!'' @ nl) []
      (with_links s (head_of (low_first low xs)) l ?m)))"
    "free_pages (with_links s (head_of (low_first low xs)) l ?m) (low_first low xs)"
    using check_page_free_list_spec [OF assms, of kend junk low] True by auto
  with True show ?thesis
    by (auto simp: low_first_def [abs_def] intro!: exI [of _ "with_links s (head_of (low_first low xs)) l ?m"])
next
  case False
  then show ?thesis using check_page_free_list_spec [OF assms, of kend junk low] by auto
qed

definition tested_machine :: env_state where
  "tested_machine = boot_machine\<lparr>npages := 1400, nextfree := 0xF0110000, page_free_list := Some 1,
     pages := map (\<lambda>i. \<lparr>pp_link = if i = 1 then Some 1300 else if i = 1300 then Some 300 else if i = 300 then Some 2 else None,
       pp_ref = 0\<rparr>) [0..<1400]\<rparr>"

lemma tested_machine_ok: "pages_wf tested_machine" "free_pages tested_machine [1, 1300, 300, 2]" "nextfree tested_machine = 0xF0110000"
  by (simp_all add: tested_machine_def pages_wf_def free_pages_def page_link_def page_cap_def del: upt_Suc)

theorem check_page_free_list_correct_witness:
  "\<exists>t. check_page_free_list 0xF0101234 (\<lambda>_. None) True tested_machine =
      Some (Inr (cprintf (''check_page_free_list() succeeded!'' @ nl) [] t)) \<and> free_pages t [1, 300, 2, 1300]"
proof -
  have "free_list_ok 0xF0110000 [1, 1300, 300, 2]"
    by (simp add: free_list_ok_def free_page_ok_def page2pa_def)
  with check_page_free_list_correct [OF tested_machine_ok(1,2), of "0xF0101234" "\<lambda>_. None" True] show ?thesis
    by (auto simp: tested_machine_ok(3))
qed

text \<open>\<open>check_page_alloc\<close> ends. With at least three free pages it succeeds and leaves the free list, all
  links and all reference counts as they were; only the third free page has been cleared. With
  fewer pages it is a panic.\<close>

theorem check_page_alloc_restores:
  assumes "pages_wf s" "unat (npages s) < 0x100000" "free_pages s xs" "pages_kva \<noteq> 0"
  shows "(3 \<le> length xs \<longrightarrow> check_page_alloc pages_kva s =
      Some (Inr (cprintf (''check_page_alloc() succeeded!'' @ nl) [] (s\<lparr>mem := memset (mem s) (page2pa (xs ! 2)) 0 PGSIZE\<rparr>)))) \<and>
    (length xs < 3 \<longrightarrow> (\<exists>msg. check_page_alloc pages_kva s = Some (Inl (Panic msg))))"
proof -
  have "\<exists>a b c rest. xs = a # b # c # rest" if "3 \<le> length xs"
    using that by (auto simp: numeral_3_eq_3 Suc_le_length_iff)
  then show ?thesis using check_page_alloc_eq [OF assms(1,2) _ assms(4)] check_page_alloc_short [OF assms(3) _ assms(4)] assms(3)
    by fastforce
qed

theorem check_page_alloc_restores_witness:
  "check_page_alloc 0xF0112000 tested_machine = Some (Inr (cprintf (''check_page_alloc() succeeded!'' @ nl) []
     (tested_machine\<lparr>mem := memset (mem tested_machine) 0x12C000 0 PGSIZE\<rparr>)))"
proof -
  have "unat (npages tested_machine) < 0x100000" by (simp add: tested_machine_def)
  from check_page_alloc_restores [OF tested_machine_ok(1) this tested_machine_ok(2), of "0xF0112000"]
  show ?thesis by (simp add: page2pa_def)
qed

end
