(* ===== verification/Env_Vm.thy ===== *)
theory Env_Vm
  imports Env
begin

text \<open>
  The address space of a new environment (\<open>env_setup_vm\<close>, \<open>kern/env.c\<close>): its page directory
  is a copy of the kernel's, except that the slot at \<open>UVPT\<close> refers to the directory itself.
\<close>

section \<open>Copying a page directory\<close>

lemma load32_copied_page:
  assumes "g < 0x100000" "j < 1024" "x < 0x100000" "k < 0x100000"
  shows "load32 (memcpy m (page2pa x) (page2pa k) 4096) (entry_pa g j) =
    load32 m (entry_pa (if g = x then k else g) j)"
proof -
  have c: "memcpy m (page2pa x) (page2pa k) 4096 = block_copy m (page2pa x) (page2pa k) 4096"
    using assms unfolding memcpy_def by (subst memmove_copy) (simp_all add: unat_page2pa)
  have b: "memcpy m (page2pa x) (page2pa k) 4096 (entry_pa g j + of_nat i) =
      m (entry_pa (if g = x then k else g) j + of_nat i)" if "i < 4" for i
  proof (cases "g = x")
    case True
    have "page2pa k + (of_nat (4096 * x + (4 * j + i)) - page2pa x) = of_nat (4096 * k + (4 * j + i))"
      by (simp add: page2pa_of_nat)
    then show ?thesis
      using True page_byte [of g x "4 * j + i"] assms that
      by (simp add: c block_copy_def entry_pa_plus del: of_nat_add of_nat_mult)
  next
    case False
    then show ?thesis
      using page_byte [of g x "4 * j + i"] assms that
      by (simp add: c block_copy_def entry_pa_plus del: of_nat_add of_nat_mult)
  qed
  show ?thesis
    using b [of 0] b [of 1] b [of 2] b [of 3] by (simp add: load32_def)
qed

text \<open>Memory after \<open>env_setup_vm\<close>: page \<open>x\<close> was cleared, then overwritten with page \<open>K\<close>,
  then its \<open>UVPT\<close> slot was set.\<close>

definition uvpt_pde :: "nat \<Rightarrow> u32" where
  "uvpt_pde x = (page2pa x OR PTE_P) OR PTE_U"

definition vm_mem :: "memory \<Rightarrow> nat \<Rightarrow> nat \<Rightarrow> memory" where
  "vm_mem m x K = store32 (memcpy (memset m (page2pa x) 0 4096) (page2pa x) (page2pa K) 4096)
     (entry_pa x (pdx UVPT)) (uvpt_pde x)"

lemma vm_mem_entry:
  assumes "g < 0x100000" "j < 1024" "x < 0x100000" "K < 0x100000" "K \<noteq> x"
  shows "load32 (vm_mem m x K) (entry_pa g j) =
    (if g = x then if j = pdx UVPT then uvpt_pde x else load32 m (entry_pa K j)
     else load32 m (entry_pa g j))"
  unfolding vm_mem_def using assms
  by (auto simp: load32_entry load32_copied_page load32_zeroed_page simp del: UVPT_def)

lemma pgdir_kva_ge: "x < 0x10000 \<Longrightarrow> \<not> pgdir_kva x < KERNBASE"
  by (simp add: pgdir_kva_def word_less_nat_alt unat_page2pa unat_word_ariths)

lemma env_setup_vm_eq:
  assumes wf: "pages_wf s" "unat (npages s) \<le> 0x10000" and fr: "free_pages s (x # xs)"
    and e: "e < length (envs s)" and K: "kern_pgdir s = pgdir_kva K"
  shows "env_setup_vm s e = Inr (0, s\<lparr>page_free_list := pp_link (pages s ! x),
    pages := (pages s)[x := (pages s ! x)\<lparr>pp_link := None, pp_ref := pp_ref (pages s ! x) + 1\<rparr>],
    mem := vm_mem (mem s) x K,
    envs := (envs s)[e := (envs s ! e)\<lparr>env_pgdir := pgdir_kva x\<rparr>]\<rparr>)"
proof -
  have x: "x < length (pages s)" using fr by (auto simp: free_pages_def page_cap_def)
  then have xb: "x < 0x10000" "x < 0x100000" using wf by (auto simp: pages_wf_def)
  let ?s1 = "s\<lparr>page_free_list := pp_link (pages s ! x),
    pages := (pages s)[x := (pages s ! x)\<lparr>pp_link := None\<rparr>], mem := memset (mem s) (page2pa x) 0 PGSIZE\<rparr>"
  have a: "page_alloc s ALLOC_ZERO = Inr (Some x, ?s1)"
    using page_alloc_nonempty [OF wf(1) fr, of ALLOC_ZERO] by simp
  let ?s2 = "?s1\<lparr>pages := (pages ?s1)[x := (pages ?s1 ! x)\<lparr>pp_ref := pp_ref (pages s ! x) + 1\<rparr>]\<rparr>"
  have b: "page_incref ?s1 x = Inr ?s2" using x by (simp add: page_incref_def)
  have c: "page2kva ?s2 x = Inr (pgdir_kva x)"
    using KADDR_page2pa [of ?s2 x] wf x by (simp add: page2kva_def pgdir_kva_def pages_wf_def)
  have d: "PADDR (pgdir_kva x) = Inr (page2pa x)"
    using pgdir_kva_ge [OF xb(1)] by (simp add: PADDR_def pgdir_kva_def)
  have k: "kv2p (pgdir_kva f) = page2pa f" for f by (simp add: kv2p_def pgdir_kva_def)
  have u: "page2pa x OR PTE_P OR PTE_U = uvpt_pde x" by (simp add: uvpt_pde_def or.assoc)
  show ?thesis
    unfolding env_setup_vm_def a using b c d e x
    by (simp add: upd_env_def K k u kstore_dir [OF xb(2)] vm_mem_def del: UVPT_def PTE_P_def PTE_U_def)
qed

section \<open>The new address space\<close>

text \<open>The state after \<open>env_setup_vm\<close> took page \<open>x\<close> for the directory.\<close>

definition vm_state :: "'z env_state_scheme \<Rightarrow> nat \<Rightarrow> nat \<Rightarrow> nat \<Rightarrow> 'z env_state_scheme" where
  "vm_state s e x K = s\<lparr>page_free_list := pp_link (pages s ! x),
    pages := (pages s)[x := (pages s ! x)\<lparr>pp_link := None, pp_ref := pp_ref (pages s ! x) + 1\<rparr>],
    mem := vm_mem (mem s) x K,
    envs := (envs s)[e := (envs s ! e)\<lparr>env_pgdir := pgdir_kva x\<rparr>]\<rparr>"

lemma slots_not_uvpt: "d \<in> slots \<Longrightarrow> d \<noteq> pdx UVPT \<and> d < 1024"
  by (simp add: slots_def pdx_def)

lemma vm_state_tables:
  assumes wf: "pt_wf s K (x # xs)" and d: "d \<in> slots" and D: "D = x \<or> D = K"
  shows "table_at (vm_state s e x K) D d = table_at s K d"
proof -
  have x: "x < length (pages s)" "K \<noteq> x"
    using free_pages_Cons(2) [OF pt_wfD(3) [OF wf]] pt_wfD(5) [OF wf] by auto
  have b: "x < 0x100000" "K < 0x100000" "d < 1024" "d \<noteq> pdx UVPT"
    using pt_wf_bound [OF wf x(1)] pt_wf_bound [OF wf pt_wfD(4) [OF wf]] slots_not_uvpt [OF d] by auto
  then have "entry (vm_state s e x K) D d = entry s K d"
    using D x(2) by (auto simp: entry_def vm_state_def vm_mem_entry simp del: UVPT_def)
  then show ?thesis by (simp add: table_at_def)
qed

lemma vm_state_free:
  assumes "free_pages s (x # xs)"
  shows "free_pages (vm_state s e x K) xs"
proof -
  note x = free_pages_Cons [OF assms]
  have "chain (page_link (vm_state s e x K)) p xs = chain (page_link s) p xs" for p
    using x(3) by (intro chain_cong) (simp add: vm_state_def page_link_def, metis nth_list_update_neq)
  with x show ?thesis by (simp add: free_pages_def page_cap_def) (simp add: vm_state_def)
qed

lemma vm_state_wf:
  assumes wf: "pt_wf s K (x # xs)" and D: "D = x \<or> D = K"
  shows "pt_wf (vm_state s e x K) D xs"
proof -
  note x = free_pages_Cons [OF pt_wfD(3) [OF wf]]
  have ta: "table_at (vm_state s e x K) D d = table_at s K d" if "d \<in> slots" for d
    using vm_state_tables [OF wf that D] .
  have "f < length (pages s) \<and> f \<noteq> D \<and> f \<notin> set xs" if "d \<in> slots" "table_at s K d = Some f" for d f
    using pt_wf_table [OF wf that] D by auto
  moreover have "D < length (pages s)" "D \<notin> set xs" using D x pt_wfD(4,5) [OF wf] by auto
  moreover have "length (pages (vm_state s e x K)) = length (pages s)" "npages (vm_state s e x K) = npages s"
    by (simp_all add: vm_state_def)
  moreover have "pages_wf (vm_state s e x K)" using pt_wfD(1) [OF wf] by (simp add: vm_state_def pages_wf_def)
  ultimately show ?thesis
    using pt_wfD(2) [OF wf] vm_state_free [OF pt_wfD(3) [OF wf]] pt_wf_inj [OF wf]
    unfolding pt_wf_def by (auto simp: ta)
qed

lemma vm_state_pt_entry:
  assumes wf: "pt_wf s K (x # xs)" and d: "pdx va \<in> slots" and D: "D = x \<or> D = K"
  shows "pt_entry (vm_state s e x K) D va = pt_entry s K va"
proof (cases "table_at s K (pdx va)")
  case None
  then show ?thesis using vm_state_tables [OF wf d D] by (simp add: pt_entry_def)
next
  case (Some f)
  have x: "x < length (pages s)" "K \<noteq> x"
    using free_pages_Cons(2) [OF pt_wfD(3) [OF wf]] pt_wfD(5) [OF wf] by auto
  have b: "x < 0x100000" "K < 0x100000"
    using pt_wf_bound [OF wf x(1)] pt_wf_bound [OF wf pt_wfD(4) [OF wf]] by auto
  have "f < 0x100000" "f \<noteq> x"
    using pt_wf_table [OF wf d Some] pt_wf_bound [OF wf, of f] by auto
  then have "entry (vm_state s e x K) f (ptx va) = entry s f (ptx va)"
    using b x(2) by (simp add: entry_def vm_state_def vm_mem_entry)
  then show ?thesis using Some vm_state_tables [OF wf d D] by (simp add: pt_entry_def)
qed

text \<open>The slot at \<open>UVPT\<close>.\<close>

lemma vm_state_uvpt:
  assumes b: "x < 0x100000" "K < 0x100000" and x: "K \<noteq> x"
  shows "entry (vm_state s e x K) x (pdx UVPT) = page2pa x OR 5" "frame_of (page2pa x OR 5) = x" "(page2pa x OR 5) AND 2 = 0"
proof -
  show "entry (vm_state s e x K) x (pdx UVPT) = page2pa x OR 5"
    using b x pdx_less [of UVPT] by (simp add: entry_def vm_state_def vm_mem_entry uvpt_pde_def or.assoc del: UVPT_def)
  have "unat (5 :: u32) < 4096" by simp
  from page2pa_or_low(1) [OF b(1) this] frame_of_or_low [OF b(1) this]
  show "frame_of (page2pa x OR 5) = x" by simp
  have "take_bit 12 (page2pa x) = 0"
    using b(1) by (simp add: word_unat_eq_iff unat_take_bit_u32 unat_page2pa)
  then have "\<not> bit (page2pa x) 1" using bit_take_bit_iff [of 12 "page2pa x" 1] by simp
  then show "(page2pa x OR 5) AND 2 = 0"
  proof (intro bit_word_eqI)
    fix n assume "n < LENGTH(32)"
    have "(2 :: u32) = push_bit 1 1" by simp
    then have "bit (2 :: u32) n \<longleftrightarrow> n = 1" by (simp only: bit_simps) auto
    moreover have "\<not> bit (5 :: u32) 1" by simp
    ultimately show "bit ((page2pa x OR 5) AND 2) n \<longleftrightarrow> bit (0 :: u32) n"
      using \<open>\<not> bit (page2pa x) 1\<close> by (auto simp: bit_and_iff bit_or_iff)
  qed
qed

text \<open>C17: \<open>env_setup_vm\<close> gives the environment a directory of its own, in a fresh page with one
  reference, that maps every page as \<open>kern_pgdir\<close> does and keeps the kernel's mappings
  intact. Its \<open>UVPT\<close> slot refers to the directory itself, present and readable by the user
  but not writable, so that user code can read its page tables but not change them.\<close>

theorem env_setup_vm_address_space:
  assumes wf: "pt_wf s K (x # xs)" and e: "e < length (envs s)" and K: "kern_pgdir s = pgdir_kva K"
  shows "\<exists>t. env_setup_vm s e = Inr (0, t) \<and> env_pgdir (envs t ! e) = pgdir_kva x \<and>
    pt_wf t x xs \<and> pt_wf t K xs \<and> pp_ref (pages t ! x) = pp_ref (pages s ! x) + 1 \<and>
    (\<forall>va. pdx va \<in> slots \<longrightarrow> pt_entry t x va = pt_entry s K va \<and> pt_entry t K va = pt_entry s K va) \<and>
    entry t x (pdx UVPT) = page2pa x OR PTE_P OR PTE_U \<and> frame_of (entry t x (pdx UVPT)) = x \<and>
    entry t x (pdx UVPT) AND PTE_W = 0"
proof -
  have x: "x < length (pages s)" "K \<noteq> x"
    using free_pages_Cons(2) [OF pt_wfD(3) [OF wf]] pt_wfD(5) [OF wf] by auto
  have b: "x < 0x100000" "K < 0x100000"
    using pt_wf_bound [OF wf x(1)] pt_wf_bound [OF wf pt_wfD(4) [OF wf]] by auto
  have r: "env_setup_vm s e = Inr (0, vm_state s e x K)"
    using env_setup_vm_eq [OF pt_wfD(1,2,3) [OF wf] e K] by (simp add: vm_state_def)
  note u = vm_state_uvpt(1) [OF b x(2), of s e] vm_state_uvpt(2,3) [OF b x(2)]
  show ?thesis
    using r vm_state_wf [OF wf, of x e] vm_state_wf [OF wf, of K e] vm_state_pt_entry [OF wf] u e x(1)
    by (simp add: or.assoc del: UVPT_def) (simp add: vm_state_def)
qed

section \<open>Machines for the witnesses\<close>

definition env_zero :: Env where
  "env_zero = \<lparr>env_tf = tf_zero, env_link = None, env_id = 0, env_parent_id = 0, env_type = 0,
     env_status = ENV_FREE, env_runs = 0, env_pgdir = 0\<rparr>"

text \<open>Two environments for the witnesses: 3 is running, 4 is its child; all others are free
  and on the free list in order from 5 on.\<close>

definition demo_envs :: env_state where
  "demo_envs = pmap_state.extend demo_mapped
     \<lparr>envs = (replicate 1024 env_zero)
        [3 := env_zero\<lparr>env_id := 0x1003, env_status := ENV_RUNNING, env_pgdir := pgdir_kva 3\<rparr>,
         4 := env_zero\<lparr>env_id := 0x2004, env_parent_id := 0x1003, env_status := ENV_RUNNABLE\<rparr>],
      curenv = Some 3, env_free_list = Some 5, cpu_tables = boot_tables, console = []\<rparr>"

lemma demo_envs_sel [simp]:
  "curenv demo_envs = Some 3" "env_free_list demo_envs = Some 5" "length (envs demo_envs) = 1024"
  by (simp_all add: demo_envs_def pmap_state.extend_def)

lemma demo_envs_nth: "i < 1024 \<Longrightarrow> envs demo_envs ! i =
    (if i = 3 then env_zero\<lparr>env_id := 0x1003, env_status := ENV_RUNNING, env_pgdir := pgdir_kva 3\<rparr>
     else if i = 4 then env_zero\<lparr>env_id := 0x2004, env_parent_id := 0x1003, env_status := ENV_RUNNABLE\<rparr>
     else env_zero)"
  by (simp add: demo_envs_def pmap_state.extend_def nth_list_update)

text \<open>The same environments over a machine with two free pages and a kernel directory.\<close>

definition demo_kernel :: env_state where
  "demo_kernel = pmap_state.extend (demo\<lparr>kern_pgdir := pgdir_kva 3\<rparr>) (pmap_state.more demo_envs)"

lemma demo_kernel_sel: "envs demo_kernel = envs demo_envs" "curenv demo_kernel = Some 3"
  "env_free_list demo_kernel = Some 5"
  by (simp_all add: demo_kernel_def demo_envs_def pmap_state.defs)

lemma demo_kernel_pmap: "pages demo_kernel = pages demo" "npages demo_kernel = npages demo"
  "mem demo_kernel = mem demo" "page_free_list demo_kernel = page_free_list demo"
  by (simp_all add: demo_kernel_def demo_envs_def pmap_state.defs)

lemma demo_kernel_wf: "pt_wf demo_kernel 3 [2, 1]" "kern_pgdir demo_kernel = pgdir_kva 3"
proof -
  have "entry demo_kernel f i = 0" for f i
    using demo_entry [of f i] by (simp add: entry_def demo_kernel_pmap)
  then have "table_at demo_kernel 3 d = None" for d by (simp add: table_at_def)
  then show "pt_wf demo_kernel 3 [2, 1]"
    using demo_wf by (simp add: pt_wf_def demo_kernel_pmap pages_wf_def free_pages_def page_link_def page_cap_def)
  show "kern_pgdir demo_kernel = pgdir_kva 3"
    by (simp add: demo_kernel_def demo_envs_def pmap_state.defs)
qed

theorem env_setup_vm_address_space_witness:
  "\<exists>t. env_setup_vm demo_kernel 5 = Inr (0, t) \<and> pt_wf t 2 [1] \<and> entry t 2 (pdx UVPT) = 0x2005"
proof -
  have "5 < length (envs demo_kernel)" by (simp add: demo_kernel_sel)
  from env_setup_vm_address_space [OF demo_kernel_wf(1) this demo_kernel_wf(2)]
  show ?thesis by (auto simp: page2pa_def)
qed

end
