(* ===== verification/Env_Ids.thy ===== *)
theory Env_Ids
  imports Env_Vm
begin

text \<open>
  Environment ids (\<open>kern/env.c\<close>): what \<open>env_init\<close> sets up, how \<open>env_alloc\<close> numbers
  environments, that \<open>envid2env\<close> finds exactly the live environment an id names and rejects
  the id of one that is gone, and what \<open>env_run\<close> does to the state.
\<close>

section \<open>Arithmetic of environment ids\<close>

lemma unat_ENVX: "unat (ENVX eid) = unat eid mod 1024"
proof -
  have "(1023 :: u32) = mask 10" by (simp add: mask_eq_exp_minus_1)
  then have "ENVX eid = take_bit 10 eid" by (simp add: ENVX_def take_bit_eq_mask)
  then show ?thesis by (simp add: unat_take_bit_u32)
qed

lemma unat_clear_10: "unat (x AND NOT 1023 :: u32) = unat x div 1024 * 1024"
proof -
  have "(1023 :: u32) = mask 10" by (simp add: mask_eq_exp_minus_1)
  then have "x AND NOT 1023 = x - take_bit 10 x"
    by (simp only: and_not_eq_minus) (simp add: take_bit_eq_mask)
  moreover have "take_bit 10 x \<le> x" by (simp add: word_le_nat_alt unat_take_bit_u32)
  ultimately show ?thesis by (simp add: unat_sub unat_take_bit_u32 minus_mod_eq_div_mult)
qed

definition generation_of :: "nat \<Rightarrow> nat" where
  "generation_of old = (let g = (old + 4096) div 1024 * 1024 in if g < 2 ^ 31 then g else 4096)"

text \<open>The id given to environment \<open>i\<close> when its last id was \<open>old\<close>, over the natural numbers.\<close>

lemma unat_next_env_id:
  assumes "unat old < 2 ^ 31" "i < 1024"
  shows "unat (next_env_id old i) = generation_of (unat old) + i"
proof -
  let ?g = "(old + 4096) AND NOT 1023"
  have a: "unat (old + 4096) = unat old + 4096"
    using assms(1) by (subst unat_add_no_wrap) simp_all
  have g: "unat ?g = (unat old + 4096) div 1024 * 1024" by (simp only: unat_clear_10 a)
  have ge: "4096 \<le> (unat old + 4096) div 1024 * 1024" by simp
  then have "?g \<noteq> 0" using g by auto
  then have s: "?g \<le>s 0 \<longleftrightarrow> \<not> (unat old + 4096) div 1024 * 1024 < 2 ^ 31"
    by (simp only: sint_nonpos g linorder_not_less) simp
  let ?h = "if ?g \<le>s 0 then 4096 else ?g"
  have h: "unat ?h = generation_of (unat old)"
    using s g by (simp add: generation_of_def)
  have m: "generation_of (unat old) mod 1024 = 0" "generation_of (unat old) < 2 ^ 31"
    by (simp_all add: generation_of_def Let_def)
  have i: "unat (of_nat i :: u32) = i" using assms(2) by (intro unat_of_nat_u32) simp
  have "next_env_id old i = ?h OR of_nat i"
    by (simp add: next_env_id_def Let_def push_bit_eq_mult)
  also have "\<dots> = ?h + of_nat i"
    using m h i assms(2) by (intro or_eq_add_u32 [of 10]) (simp_all add: word_unat_eq_iff unat_take_bit_u32 del: unat_of_nat)
  also have "unat \<dots> = unat ?h + i"
    using h m i assms(2) by (subst unat_add_no_wrap) (simp_all del: unat_of_nat)
  finally show ?thesis using h by simp
qed

lemma generation_of_bounds:
  "4096 \<le> generation_of old" "generation_of old mod 1024 = 0" "generation_of old + 1024 \<le> 2 ^ 31"
proof -
  have "(old + 4096) div 1024 < 2097152" if "(old + 4096) div 1024 * 1024 < 2 ^ 31"
    using that by simp
  then have "(old + 4096) div 1024 * 1024 + 1024 \<le> 2 ^ 31" if "(old + 4096) div 1024 * 1024 < 2 ^ 31"
    using that by simp
  then show "4096 \<le> generation_of old" "generation_of old mod 1024 = 0" "generation_of old + 1024 \<le> 2 ^ 31"
    by (auto simp: generation_of_def Let_def)
qed

lemma generation_of_fresh: "old < 2 ^ 31 \<Longrightarrow> generation_of old \<noteq> old div 1024 * 1024"
  by (auto simp: generation_of_def Let_def)

text \<open>An id is positive, carries its index, and differs from the id the slot had before.\<close>

lemma next_env_id_props:
  assumes "unat old < 2 ^ 31" "i < 1024"
  shows "0 <s next_env_id old i" "unat (ENVX (next_env_id old i)) = i" "next_env_id old i \<noteq> 0"
    "unat (next_env_id old i) < 2 ^ 31" "next_env_id old i \<noteq> old"
proof -
  note u = unat_next_env_id [OF assms] and g = generation_of_bounds [of "unat old"]
  show ge: "unat (next_env_id old i) < 2 ^ 31" using u g(3) assms(2) by simp
  have pos: "0 < unat (next_env_id old i)" using u g(1) by simp
  then show "next_env_id old i \<noteq> 0" by (auto simp: unat_gt_0)
  show "0 <s next_env_id old i" using ge pos by (simp only: word_sless_alt sint_u32 [of "next_env_id old i"] if_True sint_0 of_nat_0_less_iff)
  have "(generation_of (unat old) + i) mod 1024 = i"
    using g(2) assms(2) by (metis mod_add_left_eq add_0 mod_less)
  then show "unat (ENVX (next_env_id old i)) = i" by (simp only: unat_ENVX u)
  show "next_env_id old i \<noteq> old"
  proof
    assume e: "next_env_id old i = old"
    have "(generation_of (unat old) + i) div 1024 * 1024 = generation_of (unat old)"
      using g(2) assms(2) by (auto elim!: dvdE simp: mod_eq_0_iff_dvd)
    with generation_of_fresh [OF assms(1)] u e show False by simp
  qed
qed

section \<open>Ids in the table\<close>

definition live :: "'z env_state_scheme \<Rightarrow> nat \<Rightarrow> bool" where
  "live s i \<longleftrightarrow> i < length (envs s) \<and> env_status (envs s ! i) \<noteq> ENV_FREE"

text \<open>Every environment that is not free has an id that carries its index; an id a slot ever
  had is not negative.\<close>

definition ids_wf :: "'z env_state_scheme \<Rightarrow> bool" where
  "ids_wf s \<longleftrightarrow> length (envs s) = 1024 \<and>
     (\<forall>i < 1024. unat (env_id (envs s ! i)) < 2 ^ 31 \<and>
       (live s i \<longrightarrow> env_id (envs s ! i) \<noteq> 0 \<and> unat (ENVX (env_id (envs s ! i))) = i))"

lemma ENVX_less: "unat (ENVX eid) < 1024"
  by (simp add: unat_ENVX)

lemma live_id_unique:
  "ids_wf s \<Longrightarrow> live s i \<Longrightarrow> env_id (envs s ! i) = eid \<Longrightarrow> i = unat (ENVX eid)"
  by (auto simp: ids_wf_def live_def)

definition may_manage :: "'z env_state_scheme \<Rightarrow> nat \<Rightarrow> nat \<Rightarrow> bool" where
  "may_manage s c i \<longleftrightarrow> i = c \<or> env_parent_id (envs s ! i) = env_id (envs s ! c)"

lemma if_and: "(if b \<and> c then x else y) = (if b then if c then x else y else y)"
  by simp

lemma envid2env_eq:
  assumes "ids_wf s" "envid \<noteq> 0" "cp \<longrightarrow> curenv s = Some c"
  shows "envid2env s envid cp =
    (let i = unat (ENVX envid)
     in if live s i \<and> env_id (envs s ! i) = envid \<and> (cp \<longrightarrow> may_manage s c i) then Inr (0, Some i)
        else Inr (- E_BAD_ENV, None))"
proof -
  define e where "e = unat (ENVX envid)"
  have b: "e < length (envs s)" using assms(1) ENVX_less [of envid] by (simp add: ids_wf_def e_def)
  have nf: "live s e \<longleftrightarrow> env_status (envs s ! e) \<noteq> ENV_FREE" using b by (simp add: live_def)
  have "envid2env s envid cp =
      (if \<not> live s e \<or> env_id (envs s ! e) \<noteq> envid then Inr (- E_BAD_ENV, None)
       else if cp \<and> \<not> may_manage s c e then Inr (- E_BAD_ENV, None) else Inr (0, Some e))"
  proof (cases cp)
    case True
    with assms(3) have c: "curenv s = Some c" by blast
    show ?thesis
      unfolding envid2env_def Let_def e_def [symmetric] if_not_P [OF assms(2)] may_manage_def nf
      using b True by (simp only: c if_False simp_thms option.case option.inject de_Morgan_disj if_and)
  next
    case False
    then show ?thesis
      unfolding envid2env_def Let_def e_def [symmetric] if_not_P [OF assms(2)] nf
      using b by (simp only: if_False simp_thms)
  qed
  then show ?thesis unfolding e_def [symmetric] Let_def by (auto simp only: split: if_split)
qed

lemma lookup_iff:
  assumes "R = (if P k then Inr (0, Some k) else Inr (b, None))" "\<And>i. P i \<Longrightarrow> i = k"
  shows "(R = Inr (0, Some i) \<longleftrightarrow> P i) \<and> (R = Inr (b, None) \<longleftrightarrow> \<not> (\<exists>i. P i))"
  using assms by (metis sum.inject(2) prod.inject option.inject option.distinct(1))

text \<open>C16: \<open>envid2env\<close> is sound and complete: for a non-zero id it returns environment \<open>i\<close>
  exactly when \<open>i\<close> is live and has that id and, with \<open>checkperm\<close>, is the caller or a child
  of the caller; otherwise it returns \<open>-E_BAD_ENV\<close> and stores \<open>NULL\<close>.\<close>

theorem envid2env_correct:
  assumes "ids_wf s" "envid \<noteq> 0" "curenv s = Some c"
  shows "(envid2env s envid cp = Inr (0, Some i) \<longleftrightarrow>
      live s i \<and> env_id (envs s ! i) = envid \<and> (cp \<longrightarrow> may_manage s c i)) \<and>
    (envid2env s envid cp = Inr (- E_BAD_ENV, None) \<longleftrightarrow>
      \<not> (\<exists>i. live s i \<and> env_id (envs s ! i) = envid \<and> (cp \<longrightarrow> may_manage s c i)))"
proof -
  let ?i = "unat (ENVX envid)"
  let ?P = "\<lambda>i. live s i \<and> env_id (envs s ! i) = envid \<and> (cp \<longrightarrow> may_manage s c i)"
  have e: "envid2env s envid cp = (if ?P ?i then Inr (0, Some ?i) else Inr (- E_BAD_ENV, None))"
    using envid2env_eq [OF assms(1,2), of cp c] assms(3) by (simp only: Let_def) blast
  have u: "i = ?i" if "?P i" for i
    using live_id_unique [OF assms(1)] that by blast
  from lookup_iff [of _ ?P, OF e u] show ?thesis .
qed

lemma demo_envs_live: "live demo_envs i \<longleftrightarrow> i = 3 \<or> i = 4"
  by (cases "i < 1024") (auto simp: live_def demo_envs_nth env_zero_def)

lemma demo_envs_wf: "ids_wf demo_envs"
  by (auto simp: ids_wf_def demo_envs_live demo_envs_nth unat_ENVX) (auto simp: env_zero_def)

theorem envid2env_correct_witness:
  "envid2env demo_envs 0x2004 True = Inr (0, Some 4) \<and>
   envid2env demo_envs 0x3004 True = Inr (- E_BAD_ENV, None)"
proof -
  have "envid2env demo_envs 0x2004 True = Inr (0, Some 4)"
    using envid2env_correct [OF demo_envs_wf _ demo_envs_sel(1), of "0x2004" True 4]
    by (simp add: demo_envs_live demo_envs_nth may_manage_def)
  moreover have "\<not> (\<exists>i. live demo_envs i \<and> env_id (envs demo_envs ! i) = 0x3004)"
    by (auto simp: demo_envs_live demo_envs_nth)
  then have "envid2env demo_envs 0x3004 True = Inr (- E_BAD_ENV, None)"
    using envid2env_correct [OF demo_envs_wf _ demo_envs_sel(1), of "0x3004" True] by auto
  ultimately show ?thesis ..
qed

section \<open>Setting up the table\<close>

definition init_inv :: "'z env_state_scheme \<Rightarrow> nat list \<Rightarrow> 'z env_state_scheme \<Rightarrow> bool" where
  "init_inv s ys t \<longleftrightarrow> free_envs t (rev ys) \<and> length (envs t) = length (envs s) \<and>
     (\<forall>i \<in> set ys. env_id (envs t ! i) = 0) \<and>
     (\<forall>i < length (envs s). env_status (envs t ! i) = env_status (envs s ! i))"

lemma env_init_step_inv:
  assumes "init_inv s ys t" "i \<notin> set ys" "i < length (envs s)"
  shows "\<exists>u. env_init_step i t = Inr u \<and> init_inv s (ys @ [i]) u"
proof -
  let ?u = "t\<lparr>envs := (envs t)[i := (envs t ! i)\<lparr>env_id := 0, env_link := env_free_list t\<rparr>],
    env_free_list := Some i\<rparr>"
  have len: "length (envs t) = length (envs s)" and f: "free_envs t (rev ys)"
    using assms(1) by (simp_all add: init_inv_def)
  have "chain (env_next ?u) p (rev ys) = chain (env_next t) p (rev ys)" for p
    using assms(2) by (intro chain_cong) (simp add: env_next_def, metis nth_list_update_neq)
  then have "free_envs ?u (i # rev ys)"
    using f assms(3) len by (simp add: free_envs_def env_cap_def) (simp add: env_next_def)
  moreover have "env_init_step i t = Inr ?u"
    using assms(3) len by (simp add: env_init_step_def upd_env_def)
  ultimately show ?thesis
    using assms len by (auto simp: init_inv_def nth_list_update)
qed

text \<open>\<open>env_init\<close> puts all environments on the free list in the order of the array, so that
  the first \<open>env_alloc\<close> returns \<open>envs[0]\<close>, and sets every id to 0. It does not mark them
  free, as its comment says: every status is what it was.\<close>

theorem env_init_order:
  assumes "length (envs s) = 1024" "env_free_list s = None"
  shows "\<exists>t. env_init gdt_addr s = Inr t \<and> free_envs t [0..<1024] \<and>
    (\<forall>i < 1024. env_id (envs t ! i) = 0 \<and> env_status (envs t ! i) = env_status (envs s ! i))"
proof -
  have "init_inv s [] s" using assms by (simp add: init_inv_def free_envs_def)
  then have "\<exists>u. for_each env_init_step (rev [0..<1024]) s = Inr u \<and> init_inv s ([] @ rev [0..<1024]) u"
  proof (rule for_each_invariant)
    fix ys z zs t
    assume split: "[] @ rev [0..<1024] = ys @ z # zs" and inv: "init_inv s ys t"
    have "distinct (ys @ z # zs)" "set (ys @ z # zs) = {0..<1024}"
      using split by (metis append_Nil distinct_rev distinct_upt, metis append_Nil set_rev set_upt)
    then have "z \<notin> set ys" "z < length (envs s)" using assms(1) by auto
    with inv show "\<exists>u. env_init_step z t = Inr u \<and> init_inv s (ys @ [z]) u"
      by (rule env_init_step_inv)
  qed
  then obtain u where u: "for_each env_init_step (rev [0..<1024]) s = Inr u" "init_inv s (rev [0..<1024]) u"
    by auto
  let ?t = "u\<lparr>cpu_tables := env_init_percpu gdt_addr (cpu_tables u)\<rparr>"
  have "env_next ?t = env_next u" by (simp add: env_next_def fun_eq_iff)
  then have "free_envs ?t [0..<1024]"
    using u(2) by (auto simp: init_inv_def free_envs_def env_cap_def simp del: upt_rec_numeral)
  then show ?thesis
    using u assms by (auto simp: env_init_def init_inv_def simp del: upt_rec_numeral)
qed

theorem env_init_order_witness:
  "\<exists>t. env_init 0xF011B300 (demo_envs\<lparr>env_free_list := None\<rparr>) = Inr t \<and> free_envs t [0..<1024] \<and>
     env_status (envs t ! 4) = ENV_RUNNABLE"
  using env_init_order [of "demo_envs\<lparr>env_free_list := None\<rparr>" "0xF011B300"]
  by (auto simp: demo_envs_nth simp del: upt_rec_numeral intro: exI)

section \<open>Allocating and running an environment\<close>

lemma env_alloc_ids_wf:
  assumes "ids_wf s" "env_alloc s parent = Inr ((r, Some i), t)"
  shows "ids_wf t"
proof -
  obtain p where a: "i < length (envs s)"
    "envs t = (envs s)[i := (envs s ! i)\<lparr>env_pgdir := p, env_id := next_env_id (env_id (envs s ! i)) i,
       env_parent_id := parent, env_type := ENV_TYPE_USER, env_status := ENV_RUNNABLE, env_runs := 0,
       env_tf := new_env_tf\<rparr>]"
    using env_alloc_SomeE [OF assms(2)] by metis
  have "unat (env_id (envs s ! i)) < 2 ^ 31" "i < 1024" using assms(1) a(1) by (auto simp: ids_wf_def)
  note n = next_env_id_props [OF this]
  have len: "length (envs t) = 1024" using assms(1) a by (simp add: ids_wf_def)
  have "unat (env_id (envs t ! j)) < 2 ^ 31 \<and>
      (live t j \<longrightarrow> env_id (envs t ! j) \<noteq> 0 \<and> unat (ENVX (env_id (envs t ! j))) = j)" if j: "j < 1024" for j
  proof (cases "j = i")
    case True
    with a n show ?thesis by simp
  next
    case False
    then have "envs t ! j = envs s ! j" using a(2) by simp
    moreover from this have "live t j \<longleftrightarrow> live s j" using a by (simp add: live_def)
    ultimately show ?thesis using assms(1) j by (auto simp: ids_wf_def)
  qed
  with len show ?thesis by (simp add: ids_wf_def)
qed

text \<open>C29: a successful \<open>env_alloc\<close> takes the first free environment and numbers it so that ids
  stay sound: the new id is positive, carries the index, and differs from every live id and
  from the last id of the same slot. The environment is runnable, starts in user mode with
  cleared registers, and no other environment changes.\<close>

theorem env_alloc_fresh_id:
  assumes wf: "ids_wf s" and a: "env_alloc s parent = Inr ((r, Some i), t)" and fr: "free_envs s (i # xs)"
    and new: "nid = env_id (envs t ! i)" and nl: "\<not> live s i"
  shows "r = 0 \<and> ids_wf t \<and> free_envs t xs \<and> live t i \<and>
    0 <s nid \<and> unat (ENVX nid) = i \<and> nid \<noteq> env_id (envs s ! i) \<and>
    (\<forall>j. live s j \<longrightarrow> env_id (envs s ! j) \<noteq> nid) \<and>
    env_status (envs t ! i) = ENV_RUNNABLE \<and> env_parent_id (envs t ! i) = parent \<and>
    env_tf (envs t ! i) = new_env_tf \<and> (\<forall>j. j \<noteq> i \<longrightarrow> envs t ! j = envs s ! j)"
proof -
  obtain p where e: "r = 0" "i < length (envs s)"
    "envs t = (envs s)[i := (envs s ! i)\<lparr>env_pgdir := p, env_id := next_env_id (env_id (envs s ! i)) i,
       env_parent_id := parent, env_type := ENV_TYPE_USER, env_status := ENV_RUNNABLE, env_runs := 0,
       env_tf := new_env_tf\<rparr>]"
    using env_alloc_SomeE [OF a] by metis
  have b: "unat (env_id (envs s ! i)) < 2 ^ 31" "i < 1024" using wf e(2) by (auto simp: ids_wf_def)
  note n = next_env_id_props [OF b]
  have nid: "nid = next_env_id (env_id (envs s ! i)) i" using e(2,3) new by simp
  have "free_envs t xs"
    using a fr el.take_free [of parent s i t "i # xs"] by (auto simp: env_take_eq free_envs_eq)
  moreover have "env_id (envs s ! j) \<noteq> nid" if "live s j" for j
    using live_id_unique [OF wf that, of nid] n(2) nl that nid by auto
  ultimately show ?thesis
    using env_alloc_ids_wf [OF wf a] e n by (simp add: nid live_def)
qed

lemma env_alloc_succeeds:
  assumes "pages_wf s" "unat (npages s) \<le> 0x10000" "free_pages s (x # xs)" "kern_pgdir s = pgdir_kva K"
    and "env_free_list s = Some e" "e < length (envs s)"
  shows "\<exists>t. env_alloc s parent = Inr ((0, Some e), t)"
  using env_setup_vm_eq [OF assms(1-3,6,4)] assms(5,6)
  by (simp add: env_alloc_def upd_env_def Let_def)

lemma demo_kernel_ids: "ids_wf demo_kernel" "live demo_kernel i \<longleftrightarrow> i = 3 \<or> i = 4"
  using demo_envs_wf demo_envs_live [of i] by (simp_all add: ids_wf_def live_def demo_kernel_sel)

lemma demo_kernel_alloc:
  assumes "env_free_list s = Some e" "e < length (envs s)" "same_rest demo_kernel (s\<lparr>envs := envs demo_kernel, env_free_list := Some 5\<rparr>)"
    "pages s = pages demo_kernel" "page_free_list s = page_free_list demo_kernel"
  shows "\<exists>t. env_alloc s parent = Inr ((0, Some e), t)"
proof (rule env_alloc_succeeds)
  show "pages_wf s" "unat (npages s) \<le> 0x10000" "kern_pgdir s = pgdir_kva 3"
    using demo_kernel_wf(1) pt_wfD(1,2) [OF demo_kernel_wf(1)] demo_kernel_wf(2) assms(3,4)
    by (simp_all add: pages_wf_def same_rest_def)
  have "page_link s = page_link demo_kernel" using assms(4) by (simp add: page_link_def fun_eq_iff)
  then show "free_pages s (2 # [1])"
    using pt_wfD(3) [OF demo_kernel_wf(1)] assms(4,5) by (simp add: free_pages_def page_cap_def)
qed (use assms in simp_all)

theorem env_alloc_fresh_id_witness:
  "\<exists>t. env_alloc demo_kernel 0x1003 = Inr ((0, Some 5), t) \<and> ids_wf t \<and> free_envs t [] \<and>
     env_id (envs t ! 5) \<noteq> 0x1003 \<and> env_parent_id (envs t ! 5) = 0x1003"
proof -
  have h: "env_free_list demo_kernel = Some 5" "5 < length (envs demo_kernel)" by (simp_all add: demo_kernel_sel)
  obtain t where t: "env_alloc demo_kernel 0x1003 = Inr ((0, Some 5), t)"
    using demo_kernel_alloc [OF h, of "0x1003"] by (auto simp: same_rest_def demo_kernel_def demo_envs_def pmap_state.defs)
  have f: "free_envs demo_kernel [5]"
    by (simp add: free_envs_def env_cap_def env_next_def demo_kernel_sel demo_envs_nth env_zero_def)
  have nl: "\<not> live demo_kernel 5" by (simp add: demo_kernel_ids(2))
  have "live demo_kernel 3" "env_id (envs demo_kernel ! 3) = 0x1003"
    by (simp_all add: demo_kernel_ids(2) demo_kernel_sel demo_envs_nth)
  with env_alloc_fresh_id [OF demo_kernel_ids(1) t f refl nl] t show ?thesis by metis
qed

text \<open>C38: \<open>env_alloc\<close> reports exhaustion and changes nothing: \<open>-E_NO_FREE_ENV\<close> when no
  environment is free, \<open>-E_NO_MEM\<close> when no page is left for the page directory. The
  environment it looked at is still first on the free list.\<close>

theorem env_alloc_errors:
  assumes "env_free_list s = None \<or> page_free_list s = None"
  shows "env_alloc s parent =
    Inr ((if env_free_list s = None then - E_NO_FREE_ENV else - E_NO_MEM, None), s)"
  using assms by (cases "env_free_list s") (simp_all add: env_alloc_def env_setup_vm_def page_alloc_empty)

theorem env_alloc_errors_witness:
  "env_alloc demo_envs 0x1003 = Inr ((- E_NO_MEM, None), demo_envs)"
  using env_alloc_errors [of demo_envs "0x1003"]
  by (simp add: demo_envs_def demo_mapped_def demo_def small_pages_def pmap_state.defs env_state.defs)

text \<open>Ids are not reused: once an environment has been freed, its id is rejected, and it
  is still rejected after \<open>env_alloc\<close> has given the same slot to a new environment.\<close>

theorem stale_id_rejected:
  assumes wf: "ids_wf s" and i: "live s i" and old: "old = env_id (envs s ! i)"
    and p: "env_put s i = Inr t" and a: "env_alloc t parent = Inr ((r, Some j), u)"
  shows "j = i \<and> envid2env t old False = Inr (- E_BAD_ENV, None) \<and>
    envid2env u old False = Inr (- E_BAD_ENV, None)"
proof -
  have t: "i < length (envs s)" "t = s\<lparr>envs := (envs s)[i := (envs s ! i)\<lparr>env_status := ENV_FREE,
      env_link := env_free_list s\<rparr>], env_free_list := Some i\<rparr>"
    using p by (auto simp: env_put_eq)
  have ids: "env_id (envs t ! k) = env_id (envs s ! k)" "live t k \<longleftrightarrow> live s k \<and> k \<noteq> i" for k
    using t(1) by (auto simp: t(2) live_def nth_list_update)
  have wft: "ids_wf t" using wf unfolding ids_wf_def ids by (simp add: t(2))
  have o: "old \<noteq> 0" "unat (ENVX old) = i" using wf i old by (auto simp: ids_wf_def live_def)
  obtain q where e: "env_free_list t = Some j" "j < length (envs t)"
    "envs u = (envs t)[j := (envs t ! j)\<lparr>env_pgdir := q, env_id := next_env_id (env_id (envs t ! j)) j,
       env_parent_id := parent, env_type := ENV_TYPE_USER, env_status := ENV_RUNNABLE, env_runs := 0,
       env_tf := new_env_tf\<rparr>]"
    using env_alloc_SomeE [OF a] by metis
  then have j: "j = i" by (simp add: t(2))
  have "unat (env_id (envs t ! i)) < 2 ^ 31" "i < 1024" using wft e(2) j by (auto simp: ids_wf_def)
  then have "env_id (envs u ! i) \<noteq> old"
    using next_env_id_props(5) [of "env_id (envs t ! i)" i] e(2,3) j old ids(1) [of i] by simp
  moreover have "envid2env t old False = Inr (- E_BAD_ENV, None)"
    using envid2env_eq [OF wft o(1), of False] ids(2) [of i] o(2) by simp
  moreover have "envid2env u old False = Inr (- E_BAD_ENV, None)" if "env_id (envs u ! i) \<noteq> old"
    using envid2env_eq [OF env_alloc_ids_wf [OF wft a] o(1), of False] that o(2) by simp
  ultimately show ?thesis using j by blast
qed

theorem stale_id_rejected_witness:
  "\<exists>t u. env_put demo_kernel 4 = Inr t \<and> env_alloc t 0 = Inr ((0, Some 4), u) \<and>
     envid2env u 0x2004 False = Inr (- E_BAD_ENV, None)"
proof -
  let ?t = "demo_kernel\<lparr>envs := (envs demo_kernel)[4 := (envs demo_kernel ! 4)\<lparr>env_status := ENV_FREE,
      env_link := env_free_list demo_kernel\<rparr>], env_free_list := Some 4\<rparr>"
  have p: "env_put demo_kernel 4 = Inr ?t" by (simp add: env_put_eq demo_kernel_sel)
  have h: "env_free_list ?t = Some 4" "4 < length (envs ?t)" by (simp_all add: demo_kernel_sel)
  obtain u where u: "env_alloc ?t 0 = Inr ((0, Some 4), u)"
    using demo_kernel_alloc [OF h, of 0] by (auto simp: same_rest_def demo_kernel_def demo_envs_def pmap_state.defs)
  have l: "live demo_kernel 4" by (simp add: demo_kernel_ids(2))
  have o: "0x2004 = env_id (envs demo_kernel ! 4)" by (simp add: demo_kernel_sel demo_envs_nth)
  from stale_id_rejected [OF demo_kernel_ids(1) l o p u] p u show ?thesis by blast
qed

text \<open>\<open>env_run\<close> enters the environment with its saved registers. On a switch it makes the
  environment current and running, counts the run and loads its page directory; entering
  the current environment again changes nothing. The environment that ran before is not
  set back to \<open>ENV_RUNNABLE\<close>, as step 1 of the comment asks: no other environment changes.\<close>

theorem env_run_switches:
  assumes "e < length (envs s)" "KERNBASE \<le> env_pgdir (envs s ! e)"
  shows "\<exists>t. env_run s e = Inr (env_tf (envs s ! e), t) \<and> curenv t = Some e \<and>
    (curenv s = Some e \<longrightarrow> t = s) \<and>
    (curenv s \<noteq> Some e \<longrightarrow> cr3 t = env_pgdir (envs s ! e) - KERNBASE \<and>
       env_status (envs t ! e) = ENV_RUNNING \<and> env_runs (envs t ! e) = env_runs (envs s ! e) + 1) \<and>
    (\<forall>j. j \<noteq> e \<longrightarrow> envs t ! j = envs s ! j)"
proof (cases "curenv s = Some e")
  case True
  with assms show ?thesis by (simp add: env_run_def)
next
  case False
  with assms show ?thesis
    by (simp add: env_run_def upd_env_def PADDR_def linorder_not_less [symmetric] del: KERNBASE_def)
qed

theorem env_run_switches_witness:
  "\<exists>t. env_run (demo_envs\<lparr>curenv := Some 4\<rparr>) 3 = Inr (tf_zero, t) \<and> curenv t = Some 3 \<and> cr3 t = 0x3000"
proof -
  have "KERNBASE \<le> env_pgdir (envs (demo_envs\<lparr>curenv := Some 4\<rparr>) ! 3)"
    "env_pgdir (envs (demo_envs\<lparr>curenv := Some 4\<rparr>) ! 3) - KERNBASE = 0x3000"
    "env_tf (envs (demo_envs\<lparr>curenv := Some 4\<rparr>) ! 3) = tf_zero"
    by (simp_all add: demo_envs_nth env_zero_def pgdir_kva_def page2pa_def)
  with env_run_switches [of 3 "demo_envs\<lparr>curenv := Some 4\<rparr>"] show ?thesis by auto
qed

end
