(* ===== verification/Env_Load.thy ===== *)
theory Env_Load
  imports Env_Ids Boot_Map
begin

text \<open>
  Loading a program (\<open>region_alloc\<close>, \<open>load_icode\<close>, \<open>env_create\<close> of \<open>kern/env.c\<close>).
  \<open>load_icode\<close> writes through the virtual addresses of the environment, so this theory also
  has the translation the processor does with the page directory in \<open>%cr3\<close>. The kernel
  half is the fixed mapping of \<open>KERNBASE\<close>; a write needs the writable bit at both levels,
  since the kernel sets \<open>CR0_WP\<close>; a miss is a page fault in the kernel, which
  \<open>page_fault_handler\<close> turns into a panic. \<open>memset\<close> and \<open>memcpy\<close> are done byte by byte.
\<close>

section \<open>Allocating a region\<close>

partial_function (option) region_alloc_loop ::
  "nat \<Rightarrow> u32 \<Rightarrow> u32 \<Rightarrow> 'z env_state_scheme \<Rightarrow> (fault + 'z env_state_scheme) option" where
  "region_alloc_loop e end' addr s =
     (if addr < end' then
        bindo (Some (page_alloc s 0)) (\<lambda>(pg, s).
          case pg of
            None \<Rightarrow> Some (Inl (Panic ''region_alloc failed''))
          | Some pp \<Rightarrow>
              bindo (Some (if e < length (envs s)
                           then page_insert s (env_pgdir (envs s ! e)) pp addr (PTE_W OR PTE_U)
                           else Inl Wild_Access)) (\<lambda>(r, s).
              region_alloc_loop e end' (addr + PGSIZE) s))
      else Some (Inr s))"

definition region_alloc ::
  "'z env_state_scheme \<Rightarrow> nat \<Rightarrow> u32 \<Rightarrow> u32 \<Rightarrow> (fault + 'z env_state_scheme) option" where
  "region_alloc s e va len = region_alloc_loop e (ROUNDUP (va + len) PGSIZE) (ROUNDDOWN va PGSIZE) s"

section \<open>Memory through the page directory\<close>

definition translate :: "'z pmap_state_scheme \<Rightarrow> bool \<Rightarrow> u32 \<Rightarrow> u32 option" where
  "translate s write va =
     (if va \<ge> KERNBASE then Some (va - KERNBASE)
      else let pde = load32 (mem s) (cr3 s + 4 * PDX va) in
        if pde AND PTE_P = 0 \<or> write \<and> pde AND PTE_W = 0 then None
        else let pte = load32 (mem s) (PTE_ADDR pde + 4 * PTX va) in
          if pte AND PTE_P = 0 \<or> write \<and> pte AND PTE_W = 0 then None
          else Some (PTE_ADDR pte OR PGOFF va))"

definition vload :: "'z pmap_state_scheme \<Rightarrow> u32 \<Rightarrow> fault + u8" where
  "vload s va = (case translate s False va of
     None \<Rightarrow> Inl (Panic ''kernel-mode page fault'') | Some pa \<Rightarrow> Inr (mem s pa))"

definition vstore :: "u32 \<Rightarrow> u8 \<Rightarrow> 'z pmap_state_scheme \<Rightarrow> fault + 'z pmap_state_scheme" where
  "vstore va b s = (case translate s True va of
     None \<Rightarrow> Inl (Panic ''kernel-mode page fault'') | Some pa \<Rightarrow> Inr (s\<lparr>mem := (mem s)(pa := b)\<rparr>))"

definition vmemset :: "'z pmap_state_scheme \<Rightarrow> u32 \<Rightarrow> u8 \<Rightarrow> u32 \<Rightarrow> fault + 'z pmap_state_scheme" where
  "vmemset s va c n = for_each (\<lambda>i. vstore (va + of_nat i) c) [0..<unat n] s"

definition vmemcpy :: "'z pmap_state_scheme \<Rightarrow> u32 \<Rightarrow> u32 \<Rightarrow> u32 \<Rightarrow> fault + 'z pmap_state_scheme" where
  "vmemcpy s dst src n =
     for_each (\<lambda>i s. bindr (vload s (src + of_nat i)) (\<lambda>b. vstore (dst + of_nat i) b s))
       (if src < dst \<and> src + n > dst then rev [0..<unat n] else [0..<unat n]) s"

section \<open>Loading an ELF image\<close>

definition ELF_MAGIC :: u32 where [simp]: "ELF_MAGIC = 0x464C457F"

text \<open>The fields of \<open>struct Elf\<close> and \<open>struct Proghdr\<close> (\<open>inc/elf.h\<close>), read from the image in
  kernel memory.\<close>

definition e_magic :: "'z pmap_state_scheme \<Rightarrow> u32 \<Rightarrow> u32" where "e_magic s elf = kload s elf"
definition e_entry :: "'z pmap_state_scheme \<Rightarrow> u32 \<Rightarrow> u32" where "e_entry s elf = kload s (elf + 24)"
definition e_phoff :: "'z pmap_state_scheme \<Rightarrow> u32 \<Rightarrow> u32" where "e_phoff s elf = kload s (elf + 28)"
definition e_phnum :: "'z pmap_state_scheme \<Rightarrow> u32 \<Rightarrow> u16" where "e_phnum s elf = ucast (kload s (elf + 44))"
definition p_offset :: "'z pmap_state_scheme \<Rightarrow> u32 \<Rightarrow> u32" where "p_offset s ph = kload s (ph + 4)"
definition p_va :: "'z pmap_state_scheme \<Rightarrow> u32 \<Rightarrow> u32" where "p_va s ph = kload s (ph + 8)"
definition p_filesz :: "'z pmap_state_scheme \<Rightarrow> u32 \<Rightarrow> u32" where "p_filesz s ph = kload s (ph + 16)"
definition p_memsz :: "'z pmap_state_scheme \<Rightarrow> u32 \<Rightarrow> u32" where "p_memsz s ph = kload s (ph + 20)"
definition sizeof_Proghdr :: u32 where [simp]: "sizeof_Proghdr = 32"

definition load_segment ::
  "nat \<Rightarrow> u32 \<Rightarrow> u32 \<Rightarrow> 'z env_state_scheme \<Rightarrow> (fault + 'z env_state_scheme) option" where
  "load_segment e binary ph s =
     bindo (region_alloc s e (p_va s ph) (p_memsz s ph)) (\<lambda>s.
     bindo (Some (vmemset s (p_va s ph) 0 (p_memsz s ph))) (\<lambda>s.
     Some (vmemcpy s (p_va s ph) (binary + p_offset s ph) (p_filesz s ph))))"

partial_function (option) load_segments ::
  "nat \<Rightarrow> u32 \<Rightarrow> u32 \<Rightarrow> u32 \<Rightarrow> 'z env_state_scheme \<Rightarrow> (fault + 'z env_state_scheme) option" where
  "load_segments e binary eph ph s =
     (if ph < eph then
        bindo (load_segment e binary ph s) (\<lambda>s. load_segments e binary eph (ph + sizeof_Proghdr) s)
      else Some (Inr s))"

definition load_icode ::
  "'z env_state_scheme \<Rightarrow> nat \<Rightarrow> u32 \<Rightarrow> (fault + 'z env_state_scheme) option" where
  "load_icode s e binary =
     (if \<not> e < length (envs s) then Some (Inl Wild_Access)
      else if e_magic s binary \<noteq> ELF_MAGIC then Some (Inl (Panic ''binary bad ELF''))
      else
        let ph = binary + e_phoff s binary;
            eph = ph + sizeof_Proghdr * ucast (e_phnum s binary) in
        bindo (Some (PADDR (env_pgdir (envs s ! e)))) (\<lambda>pa.
        bindo (load_segments e binary eph ph (s\<lparr>cr3 := pa\<rparr>)) (\<lambda>s.
        bindo (Some (upd_env e (\<lambda>v. v\<lparr>env_tf := (env_tf v)\<lparr>tf_eip := e_entry s binary\<rparr>\<rparr>) s)) (\<lambda>s.
        bindo (Some (PADDR (kern_pgdir s))) (\<lambda>pa.
        region_alloc (s\<lparr>cr3 := pa\<rparr>) e (USTACKTOP - PGSIZE) PGSIZE)))))"

text \<open>\<open>env_create\<close> drops the result of \<open>env_alloc\<close> and its argument \<open>type\<close>: when no environment
  is allocated it goes on with an uninitialised pointer.\<close>

definition env_create ::
  "'z env_state_scheme \<Rightarrow> u32 \<Rightarrow> u32 \<Rightarrow> (fault + 'z env_state_scheme) option" where
  "env_create s binary type' =
     bindo (Some (env_alloc s 0)) (\<lambda>((r, p), s).
       case p of None \<Rightarrow> Some (Inl Wild_Access) | Some e \<Rightarrow> load_icode s e binary)"

section \<open>What region_alloc maps\<close>

lemma page_alloc_plain:
  assumes wf: "pt_wf s D (x # xs)"
  shows "\<exists>t. page_alloc s 0 = Inr (Some x, t) \<and> pt_wf t D xs \<and> mem t = mem s \<and> same_rest s t \<and>
    x < length (pages s)"
proof -
  note x = free_pages_Cons [OF pt_wfD(3) [OF wf]]
  let ?t = "s\<lparr>page_free_list := pp_link (pages s ! x), pages := (pages s)[x := (pages s ! x)\<lparr>pp_link := None\<rparr>]\<rparr>"
  have a: "page_alloc s 0 = Inr (Some x, ?t)"
    using page_alloc_nonempty [OF pt_wfD(1,3) [OF wf], of 0] by simp
  have "chain (page_link ?t) p xs = chain (page_link s) p xs" for p
    using x(3) by (intro chain_cong) (simp add: page_link_def, metis nth_list_update_neq)
  then have f: "free_pages ?t xs" using x(4,5) by (simp add: free_pages_def page_cap_def)
  have "D \<notin> set xs" "set xs \<inter> tables s D = {}"
    using pt_wfD(5) [OF wf] pt_wf_table [OF wf] by (auto simp: tables_def)
  with f have "pt_wf ?t D xs" by (intro pt_wf_pages [OF wf]) simp_all
  with a x(2) show ?thesis by (auto simp: same_rest_def)
qed

definition region_pte :: "nat \<Rightarrow> u32" where
  "region_pte f = page2pa f OR (PTE_W OR PTE_U) OR PTE_P"

text \<open>Pages \<open>k\<close> to \<open>n\<close> of a region are mapped to distinct pages taken from the free list,
  everything else is mapped as before.\<close>

definition fresh_from :: "'z pmap_state_scheme \<Rightarrow> 'y pmap_state_scheme \<Rightarrow> nat \<Rightarrow> u32 \<Rightarrow> nat \<Rightarrow> nat \<Rightarrow> nat list \<Rightarrow> (nat \<Rightarrow> nat) \<Rightarrow> bool" where
  "fresh_from s t D va k n xs f \<longleftrightarrow>
     (\<forall>i. k \<le> i \<and> i < n \<longrightarrow> f i \<in> set xs \<and> pt_entry t D (nth_page va i) = region_pte (f i)) \<and>
     inj_on f {k..<n} \<and>
     (\<forall>va'. pdx va' \<in> slots \<and> (\<forall>i. k \<le> i \<and> i < n \<longrightarrow> \<not> same_page (nth_page va i) va') \<longrightarrow>
        pt_entry t D va' = pt_entry s D va')"

text \<open>One round: a page is taken from the free list and mapped at an unmapped address.\<close>

lemma region_round:
  assumes wf: "pt_wf s D (x # xs)" and d: "pdx va \<in> slots" and np: "\<not> present (pt_entry s D va)"
    and mem: "table_at s D (pdx va) \<noteq> None \<or> xs \<noteq> []"
  shows "\<exists>t u. page_alloc s 0 = Inr (Some x, t) \<and>
    page_insert t (pgdir_kva D) x va (PTE_W OR PTE_U) = Inr (0, u) \<and> same_rest s t \<and> same_rest s u \<and>
    pt_wf u D (if table_at s D (pdx va) = None then tl xs else xs) \<and>
    (\<forall>e < 1024. table_at u D e = (if e = pdx va \<and> table_at s D e = None then Some (hd xs) else table_at s D e)) \<and>
    (\<forall>va'. pdx va' \<in> slots \<longrightarrow> pt_entry u D va' = (if same_page va va' then region_pte x else pt_entry s D va'))"
proof -
  obtain t where t: "page_alloc s 0 = Inr (Some x, t)" "pt_wf t D xs" "mem t = mem s" "same_rest s t"
    "x < length (pages s)"
    using page_alloc_plain [OF wf] by blast
  have same: "pt_entry t D v = pt_entry s D v" "table_at t D e = table_at s D e" for v e
    using pt_entry_mem [OF t(3)] table_at_mem [OF t(3)] by simp_all
  have x: "x < length (pages t)" using t(4,5) by (simp add: same_rest_def)
  have perm: "unat (PTE_W OR PTE_U) < 4096" by simp
  have rem: "removable t D xs va" using np by (simp add: removable_def same)
  have m: "table_at t D (pdx va) \<noteq> None \<or> xs \<noteq> []" using mem by (simp add: same)
  have fr: "freed_by_insert t D x va xs = xs" using np by (simp add: freed_by_insert_def same)
  obtain u where u: "page_insert t (pgdir_kva D) x va (PTE_W OR PTE_U) = Inr (0, u)"
    "pt_wf u D (if table_at t D (pdx va) = None then tl xs else xs)"
    "\<forall>va'. pdx va' \<in> slots \<longrightarrow> pt_entry u D va' =
       (if same_page va va' then page2pa x OR (PTE_W OR PTE_U) OR PTE_P else pt_entry t D va')"
    "\<forall>e < 1024. table_at u D e =
       (if e = pdx va \<and> table_at t D e = None then Some (hd xs) else table_at t D e)"
    using page_insert_update [OF t(2) d x perm rem m] unfolding fr by blast
  have "same_rest s u" using t(4) page_insert_rest_same [OF u(1)] by (rule same_rest_trans)
  with t(1,4) u show ?thesis unfolding same region_pte_def by blast
qed

lemma missing_next:
  assumes k: "k < n" and slots: "region_slots va n" and d: "d0 = pdx (nth_page va k)"
    and ta: "\<And>e. e < 1024 \<Longrightarrow> table_at u D e = (if e = d0 \<and> table_at s D e = None then Some g else table_at s D e)"
  shows "card (missing u D va (Suc k) n) + of_bool (table_at s D d0 = None) \<le> card (missing s D va k n)"
proof -
  have sub: "missing u D va (Suc k) n \<subseteq> missing s D va k n - (if table_at s D d0 = None then {d0} else {})"
  proof
    fix e assume "e \<in> missing u D va (Suc k) n"
    then obtain i where i: "Suc k \<le> i" "i < n" "e = pdx (nth_page va i)" "table_at u D e = None"
      by (auto simp: missing_def)
    have "e < 1024" using i(3) by simp
    then have "table_at s D e = None" "e = d0 \<longrightarrow> table_at s D d0 \<noteq> None"
      using i(4) ta [of e] by (auto split: if_splits)
    moreover have "k \<le> i" using i(1) by simp
    ultimately show "e \<in> missing s D va k n - (if table_at s D d0 = None then {d0} else {})"
      using i(2,3) by (auto simp: missing_def)
  qed
  show ?thesis
  proof (cases "table_at s D d0 = None")
    case True
    then have m: "d0 \<in> missing s D va k n" using k d by (auto simp: missing_def)
    have "card (missing u D va (Suc k) n) \<le> card (missing s D va k n - {d0})"
      using sub True finite_missing by (intro card_mono) auto
    moreover have "card (missing s D va k n - {d0}) < card (missing s D va k n)"
      using m finite_missing by (rule card_Diff1_less [rotated])
    ultimately show ?thesis using True by simp
  next
    case False
    have "card (missing u D va (Suc k) n) \<le> card (missing s D va k n)"
      using sub False finite_missing by (intro card_mono) auto
    with False show ?thesis by auto
  qed
qed

text \<open>\<open>Q\<close> is any property of the rounds: \<open>Q i s xs\<close> holds before round \<open>i\<close>, with the free list \<open>xs\<close>.\<close>

definition round_keeps :: "nat \<Rightarrow> u32 \<Rightarrow> nat \<Rightarrow> (nat \<Rightarrow> 'z pmap_state_scheme \<Rightarrow> nat list \<Rightarrow> bool) \<Rightarrow> bool" where
  "round_keeps D va n Q \<longleftrightarrow> (\<forall>i s x ys t u.
     i < n \<and> pt_wf s D (x # ys) \<and> \<not> present (pt_entry s D (nth_page va i)) \<and>
     (table_at s D (pdx (nth_page va i)) \<noteq> None \<or> ys \<noteq> []) \<and> Q i s (x # ys) \<and>
     page_alloc s 0 = Inr (Some x, t) \<and> page_insert t (pgdir_kva D) x (nth_page va i) (PTE_W OR PTE_U) = Inr (0, u) \<longrightarrow>
     Q (Suc i) u (if table_at s D (pdx (nth_page va i)) = None then tl ys else ys))"

lemma region_alloc_loop_from:
  assumes "pt_wf s D xs" "region_slots va n" "k \<le> n" "unat va + 4096 * n < 2 ^ 32"
    and "card (missing s D va k n) + (n - k) \<le> length xs"
    and "\<And>i. k \<le> i \<Longrightarrow> i < n \<Longrightarrow> \<not> present (pt_entry s D (nth_page va i))"
    and "e < length (envs s)" "env_pgdir (envs s ! e) = pgdir_kva D"
    and "Q k s xs" and keeps: "round_keeps D va n Q"
  shows "\<exists>t ys f. region_alloc_loop e (nth_page va n) (nth_page va k) s = Some (Inr t) \<and>
    pt_wf t D ys \<and> set ys \<subseteq> set xs \<and> fresh_from s t D va k n xs f \<and> same_rest s t \<and> Q n t ys"
  using assms(1-9)
proof (induction "n - k" arbitrary: k s xs)
  case 0
  then have "k = n" by simp
  with 0 have "region_alloc_loop e (nth_page va n) (nth_page va k) s = Some (Inr s) \<and>
      fresh_from s s D va k n xs (\<lambda>i. i)"
    by (subst region_alloc_loop.simps) (auto simp: fresh_from_def)
  with 0 show ?case by (intro exI [of _ s] exI [of _ xs] exI [of _ "\<lambda>i. i"]) simp
next
  case (Suc m)
  then have k: "k < n" by simp
  let ?va = "nth_page va k"
  have le: "unat va + 4096 * Suc n \<le> 2 ^ 32 \<or> unat va + 4096 * n < 2 ^ 32" using Suc.prems(4) by simp
  have u: "unat (nth_page va i) = unat va + 4096 * i" if "i \<le> n" for i
    using that Suc.prems(4) unfolding nth_page_def
    by (subst unat_add_no_wrap) (simp_all add: unat_of_nat_u32 del: of_nat_mult)
  have lt: "?va < nth_page va n" using u [of k] u [of n] k by (simp add: word_less_nat_alt)
  have d: "pdx ?va \<in> slots" using Suc.prems(2) k by (simp add: region_slots_def)
  obtain x ys where xs: "xs = x # ys" using Suc.prems(5) k by (cases xs) auto
  have mm: "table_at s D (pdx ?va) = None \<Longrightarrow> 0 < card (missing s D va k n)"
    using k finite_missing by (auto simp: card_gt_0_iff missing_def)
  then have mem: "table_at s D (pdx ?va) \<noteq> None \<or> ys \<noteq> []"
    using Suc.prems(5) k xs by (cases "table_at s D (pdx ?va)"; cases ys) auto
  have np: "\<not> present (pt_entry s D ?va)" using Suc.prems(6) [of k] k by simp
  note wfx = Suc.prems(1) [unfolded xs]
  obtain t v where r: "page_alloc s 0 = Inr (Some x, t)"
    "page_insert t (pgdir_kva D) x ?va (PTE_W OR PTE_U) = Inr (0, v)" "same_rest s t" "same_rest s v"
    "pt_wf v D (if table_at s D (pdx ?va) = None then tl ys else ys)"
    "\<forall>e < 1024. table_at v D e = (if e = pdx ?va \<and> table_at s D e = None then Some (hd ys) else table_at s D e)"
    "\<forall>va'. pdx va' \<in> slots \<longrightarrow> pt_entry v D va' = (if same_page ?va va' then region_pte x else pt_entry s D va')"
    using region_round [OF wfx d np mem] by blast
  let ?zs = "if table_at s D (pdx ?va) = None then tl ys else ys"
  have zs: "set ?zs \<subseteq> set ys" by (auto dest: list.set_sel(2) split: if_splits) (metis list.set_sel(2) tl_Nil)
  have x: "x \<notin> set ys" using free_pages_Cons(3) [OF pt_wfD(3) [OF wfx]] .
  have c: "card (missing v D va (Suc k) n) + of_bool (table_at s D (pdx ?va) = None) \<le> card (missing s D va k n)"
    using missing_next [OF k Suc.prems(2) refl, of v D s "hd ys"] r(6) by blast
  have cnt: "card (missing v D va (Suc k) n) + (n - Suc k) \<le> length ?zs"
    using c Suc.prems(5) k xs by (auto split: if_splits)
  have np': "\<not> present (pt_entry v D (nth_page va i))" if "Suc k \<le> i" "i < n" for i
    using r(7) Suc.prems(2,6) that nth_pages_apart [of va n k i] Suc.prems(4) k by (auto simp: region_slots_def)
  have ev: "e < length (envs v)" "env_pgdir (envs v ! e) = pgdir_kva D"
    "e < length (envs t)" "env_pgdir (envs t ! e) = pgdir_kva D"
    using Suc.prems(7,8) r(3,4) by (simp_all add: env_same_rest)
  have "m = n - Suc k" "Suc k \<le> n" using Suc.hyps(2) k by simp_all
  moreover have "Q (Suc k) v ?zs"
    using keeps k wfx np mem r(1,2) Suc.prems(9) xs unfolding round_keeps_def by blast
  ultimately obtain w ws f where w: "region_alloc_loop e (nth_page va n) (nth_page va (Suc k)) v = Some (Inr w)"
    "pt_wf w D ws" "set ws \<subseteq> set ?zs" "fresh_from v w D va (Suc k) n ?zs f" "same_rest v w" "Q n w ws"
    using Suc.hyps(1) [OF _ r(5) Suc.prems(2) _ Suc.prems(4) cnt np' ev(1,2)] by blast
  have fi: "f i \<in> set ys" if "Suc k \<le> i" "i < n" for i
    using w(4) zs that unfolding fresh_from_def by blast
  have nx: "?va + PGSIZE = nth_page va (Suc k)" by (simp add: nth_page_def)
  have "region_alloc_loop e (nth_page va n) ?va s = Some (Inr w)"
    using w(1) lt r(1,2) ev by (subst region_alloc_loop.simps) (simp add: nx del: PGSIZE_def)
  moreover have "fresh_from s w D va k n xs (f(k := x))"
    unfolding fresh_from_def
  proof (intro conjI allI impI)
    fix i assume i: "k \<le> i \<and> i < n"
    show "(f(k := x)) i \<in> set xs" using fi [of i] i xs by (cases "i = k") auto
    show "pt_entry w D (nth_page va i) = region_pte ((f(k := x)) i)"
    proof (cases "i = k")
      case True
      have "pt_entry w D ?va = pt_entry v D ?va"
        using w(4) d nth_pages_apart [of va n] Suc.prems(4) k by (auto simp: fresh_from_def)
      with True r(7) d show ?thesis by simp
    qed (use w(4) i in \<open>simp add: fresh_from_def\<close>)
  next
    have "{k..<n} = insert k {Suc k..<n}" using k by auto
    moreover have "inj_on f {Suc k..<n}" "x \<notin> f ` {Suc k..<n}"
      using w(4) fi x by (auto simp: fresh_from_def)
    ultimately show "inj_on (f(k := x)) {k..<n}"
      by (auto simp: inj_on_def)
  next
    fix va' assume a: "pdx va' \<in> slots \<and> (\<forall>i. k \<le> i \<and> i < n \<longrightarrow> \<not> same_page (nth_page va i) va')"
    then have "pt_entry w D va' = pt_entry v D va'" using w(4) by (simp add: fresh_from_def)
    with a k r(7) show "pt_entry w D va' = pt_entry s D va'" by simp
  qed
  moreover have "same_rest s w" using r(4) w(5) by (rule same_rest_trans)
  moreover have "set ws \<subseteq> set xs" using w(3) zs xs by auto
  ultimately show ?case using w(2,6) by blast
qed

text \<open>The pages a region touches.\<close>

definition region_pages :: "u32 \<Rightarrow> u32 \<Rightarrow> nat" where
  "region_pages va len = (unat va + unat len + 4095) div 4096 - unat va div 4096"

lemma pages_between: "p \<le> q \<Longrightarrow> p * 4096 + 4096 * (q - p) = q * (4096 :: nat)"
  by simp

lemma region_ends:
  assumes "unat va + unat len + 4095 < 2 ^ 32"
  shows "ROUNDUP (va + len) PGSIZE = nth_page (ROUNDDOWN va PGSIZE) (region_pages va len)"
    "unat (ROUNDDOWN va PGSIZE) + 4096 * region_pages va len < 2 ^ 32"
proof -
  have a: "unat (va + len) = unat va + unat len" using assms by (intro unat_add_no_wrap) simp
  have d: "unat (ROUNDDOWN va PGSIZE) = unat va div 4096 * 4096"
    by (simp add: unat_ROUNDDOWN minus_mod_eq_div_mult)
  have up: "unat (ROUNDUP (va + len) PGSIZE) = (unat va + unat len + 4095) div 4096 * 4096"
    using assms by (simp add: unat_ROUNDUP a)
  have le: "unat va div 4096 \<le> (unat va + unat len + 4095) div 4096" by (simp add: div_le_mono)
  have sum: "unat va div 4096 * 4096 + 4096 * region_pages va len = (unat va + unat len + 4095) div 4096 * 4096"
    unfolding region_pages_def using le by (rule pages_between)
  show lt: "unat (ROUNDDOWN va PGSIZE) + 4096 * region_pages va len < 2 ^ 32"
    unfolding d sum using assms by simp
  show "ROUNDUP (va + len) PGSIZE = nth_page (ROUNDDOWN va PGSIZE) (region_pages va len)"
  proof (rule word_eq_unatI)
    have "unat (nth_page (ROUNDDOWN va PGSIZE) (region_pages va len)) =
        unat (ROUNDDOWN va PGSIZE) + 4096 * region_pages va len"
      using lt unfolding nth_page_def
      by (subst unat_add_no_wrap) (simp_all add: unat_of_nat_u32 del: of_nat_mult)
    then show "unat (ROUNDUP (va + len) PGSIZE) = unat (nth_page (ROUNDDOWN va PGSIZE) (region_pages va len))"
      unfolding up d sum by simp
  qed
qed

lemma region_alloc_run:
  assumes wf: "pt_wf s D xs" and e: "e < length (envs s)" "env_pgdir (envs s ! e) = pgdir_kva D"
    and nw: "unat va + unat len + 4095 < 2 ^ 32" and b: "b = ROUNDDOWN va PGSIZE" and n: "n = region_pages va len"
    and slots: "region_slots b n" and mem: "card (missing s D b 0 n) + n \<le> length xs"
    and new: "\<And>i. i < n \<Longrightarrow> \<not> present (pt_entry s D (nth_page b i))"
    and Q: "Q 0 s xs" "round_keeps D b n Q"
  shows "\<exists>t ys f. region_alloc s e va len = Some (Inr t) \<and> pt_wf t D ys \<and> set ys \<subseteq> set xs \<and>
    fresh_from s t D b 0 n xs f \<and> same_rest s t \<and> Q n t ys"
proof -
  note re = region_ends [OF nw, folded b n]
  have m: "card (missing s D b 0 n) + (n - 0) \<le> length xs" using mem by simp
  obtain t ys f where t: "region_alloc_loop e (nth_page b n) (nth_page b 0) s = Some (Inr t)"
    "pt_wf t D ys" "set ys \<subseteq> set xs" "fresh_from s t D b 0 n xs f" "same_rest s t" "Q n t ys"
    using region_alloc_loop_from [OF wf slots _ re(2) m _ e Q] new by blast
  have "region_alloc s e va len = Some (Inr t)"
    using t(1) unfolding region_alloc_def re(1) b [symmetric] by simp
  with t(2-6) show ?thesis by blast
qed

section \<open>Properties\<close>

text \<open>\<open>region_alloc\<close> backs a region of unmapped pages: given enough free pages for it and
  for the page tables it needs, every page that \<open>[va, va + len)\<close> touches is mapped, writable
  by the user, to a page of its own from the free list, and no other mapping changes.\<close>

theorem region_alloc_maps:
  assumes wf: "pt_wf s D xs" and e: "e < length (envs s)" "env_pgdir (envs s ! e) = pgdir_kva D"
    and nw: "unat va + unat len + 4095 < 2 ^ 32" and b: "b = ROUNDDOWN va PGSIZE" and n: "n = region_pages va len"
    and slots: "region_slots b n" and mem: "card (missing s D b 0 n) + n \<le> length xs"
    and new: "\<And>i. i < n \<Longrightarrow> \<not> present (pt_entry s D (nth_page b i))"
  shows "\<exists>t ys f. region_alloc s e va len = Some (Inr t) \<and> pt_wf t D ys \<and>
    (\<forall>i < n. f i \<in> set xs \<and> pt_entry t D (nth_page b i) = page2pa (f i) OR (PTE_W OR PTE_U) OR PTE_P) \<and>
    inj_on f {..<n} \<and>
    (\<forall>va'. pdx va' \<in> slots \<and> (\<forall>i < n. \<not> same_page (nth_page b i) va') \<longrightarrow>
       pt_entry t D va' = pt_entry s D va')"
proof -
  obtain t ys f where "region_alloc s e va len = Some (Inr t)" "pt_wf t D ys" "fresh_from s t D b 0 n xs f"
    using region_alloc_run [OF wf e nw b n slots mem, where Q = "\<lambda>_ _ _. True"] new by (auto simp: round_keeps_def)
  then show ?thesis
    by (auto simp: fresh_from_def region_pte_def lessThan_atLeast0 intro!: exI [of _ t] exI [of _ f])
qed

theorem region_alloc_maps_witness:
  "\<exists>t f. region_alloc (demo_kernel) 3 0x800010 0x20 = Some (Inr t) \<and>
     pt_entry t 3 0x800000 = page2pa f OR 7 \<and> f \<in> {1, 2}"
proof -
  have e: "3 < length (envs demo_kernel)" "env_pgdir (envs demo_kernel ! 3) = pgdir_kva 3"
    by (simp_all add: demo_kernel_sel demo_envs_nth)
  have n: "1 = region_pages 0x800010 0x20" "0x800000 = ROUNDDOWN 0x800010 PGSIZE"
    by (simp_all add: region_pages_def ROUNDDOWN_def)
  have slots: "region_slots 0x800000 1" using demo_va by (simp add: region_slots_def)
  have z: "pt_entry demo_kernel 3 va = 0" for va
    using demo_entry by (simp add: pt_entry_def table_at_def entry_def demo_kernel_pmap)
  have "missing demo_kernel 3 0x800000 0 1 \<subseteq> {pdx 0x800000}" by (auto simp: missing_def)
  from card_mono [OF _ this] have m: "card (missing demo_kernel 3 0x800000 0 1) + 1 \<le> length [2 :: nat, 1]"
    by simp
  from region_alloc_maps [OF demo_kernel_wf(1) e _ n(2,1) slots m] z
  show ?thesis by (auto simp: or.assoc)
qed

text \<open>\<open>region_alloc\<close> does not look at the result of \<open>page_insert\<close>. When the last free page
  goes to the region and none is left for the page table, it returns normally: the page is
  neither mapped nor free any more, and the region is still unmapped, although the comment
  promises a panic if any allocation fails.\<close>

theorem region_alloc_ignores_failure:
  assumes wf: "pt_wf s D [x]" and e: "e < length (envs s)" "env_pgdir (envs s ! e) = pgdir_kva D"
    and d: "pdx va \<in> slots" "table_at s D (pdx va) = None"
    and va: "unat va mod 4096 = 0" "unat va + 8192 < 2 ^ 32"
  shows "\<exists>t. region_alloc s e va PGSIZE = Some (Inr t) \<and> pt_wf t D [] \<and> \<not> present (pt_entry t D va)"
proof -
  obtain t where t: "page_alloc s 0 = Inr (Some x, t)" "pt_wf t D []" "mem t = mem s" "same_rest s t"
    using page_alloc_plain [OF wf] by blast
  have n: "table_at t D (pdx va) = None" using d by (simp add: table_at_mem [OF t(3)])
  have "page_free_list t = None" using pt_wfD(3) [OF t(2)] by (simp add: free_pages_def)
  then have i: "page_insert t (pgdir_kva D) x va perm = Inr (- E_NO_MEM, t)" for perm
    using walk_absent(2) [OF pt_wfD(1,4) [OF t(2)] n] by (simp add: page_insert_rest)
  have et: "e < length (envs t)" "env_pgdir (envs t ! e) = pgdir_kva D" using e t(4) by (simp_all add: env_same_rest)
  have r: "ROUNDDOWN va PGSIZE = va" using va by (intro word_eq_unatI) (simp add: unat_ROUNDDOWN)
  have "(unat va + 4096 + 4095) div 4096 * 4096 = unat va + 4096"
    using va(1) by (auto elim!: dvdE simp: mod_eq_0_iff_dvd)
  moreover have v: "unat (va + 4096) = unat va + 4096" using va(2) by (subst unat_add_no_wrap) simp_all
  ultimately have up: "ROUNDUP (va + PGSIZE) PGSIZE = va + 4096"
    using va(2) by (intro word_eq_unatI) (simp add: unat_ROUNDUP)
  have lt: "va < va + 4096" using v by (simp add: word_less_nat_alt)
  have "region_alloc s e va PGSIZE = region_alloc_loop e (va + 4096) (va + 4096) t"
    unfolding region_alloc_def r up using lt t(1) i et
    by (subst region_alloc_loop.simps) simp
  also have "\<dots> = Some (Inr t)" by (subst region_alloc_loop.simps) simp
  finally show ?thesis using t(2) n by (auto simp: pt_entry_def)
qed

theorem region_alloc_ignores_failure_witness:
  "\<exists>t. region_alloc (demo_kernel\<lparr>page_free_list := Some 1\<rparr>) 3 0x800000 PGSIZE = Some (Inr t) \<and>
     \<not> present (pt_entry t 3 0x800000)"
proof -
  let ?s = "demo_kernel\<lparr>page_free_list := Some 1\<rparr>"
  have "table_at ?s 3 d = None" for d
    using demo_entry by (simp add: table_at_def entry_def demo_kernel_pmap)
  moreover from this have "pt_wf ?s 3 [1]"
    by (simp add: pt_wf_def demo_kernel_pmap)
      (simp add: demo_kernel_pmap demo_def small_pages_def pages_wf_def free_pages_def page_link_def page_cap_def)
  moreover have "3 < length (envs ?s)" "env_pgdir (envs ?s ! 3) = pgdir_kva 3"
    by (simp_all add: demo_kernel_sel demo_envs_nth)
  ultimately show ?thesis using region_alloc_ignores_failure [OF _ _ _ demo_va] by fastforce
qed

end
