(* ===== verification/Check_Page.thy ===== *)
theory Check_Page
  imports Check_Free Env_Load
begin

text \<open>
  The self tests of the page tables in \<open>kern/pmap.c\<close>: \<open>check_page\<close>, which \<open>mem_init\<close> runs before it maps the
  kernel, and \<open>check_page_installed_pgdir\<close>, which it runs afterwards. Every \<open>assert\<close> is a step that
  may panic. Shown here: on a machine with an empty directory and three free pages the first
  test succeeds, and leaves everything as it was but for the order of the three pages on the free
  list and the contents of one of them.
\<close>

section \<open>Steps of the tests\<close>

text \<open>\<open>assert(page_insert(kern_pgdir, pp, va, perm) == 0)\<close> and its failing counterpart.\<close>

definition assert_insert :: "string \<Rightarrow> nat \<Rightarrow> u32 \<Rightarrow> u32 \<Rightarrow> 'z pmap_state_scheme \<Rightarrow> fault + 'z pmap_state_scheme" where
  "assert_insert what pp va perm s =
     bindr (page_insert s (kern_pgdir s) pp va perm) (\<lambda>(r, s). assert_that (r = 0) what s)"

definition assert_insert_fails :: "string \<Rightarrow> nat \<Rightarrow> u32 \<Rightarrow> u32 \<Rightarrow> 'z pmap_state_scheme \<Rightarrow> fault + 'z pmap_state_scheme" where
  "assert_insert_fails what pp va perm s =
     bindr (page_insert s (kern_pgdir s) pp va perm) (\<lambda>(r, s). assert_that (r <s 0) what s)"

text \<open>\<open>assert(check_va2pa(kern_pgdir, va) == pa)\<close>.\<close>

definition assert_va2pa :: "string \<Rightarrow> u32 \<Rightarrow> u32 \<Rightarrow> 'z pmap_state_scheme \<Rightarrow> fault + 'z pmap_state_scheme" where
  "assert_va2pa what va pa s = bindr (check_va2pa s (kern_pgdir s) va) (\<lambda>r. assert_that (r = pa) what s)"

text \<open>An assertion on \<open>pp->pp_ref\<close>, and \<open>pp->pp_ref = r\<close>.\<close>

definition assert_ref :: "string \<Rightarrow> nat \<Rightarrow> (u16 \<Rightarrow> bool) \<Rightarrow> 'z pmap_state_scheme \<Rightarrow> fault + 'z pmap_state_scheme" where
  "assert_ref what pp ok s = (if \<not> pp < length (pages s) then Inl Wild_Access
     else assert_that (ok (pp_ref (pages s ! pp))) what s)"

definition assert_unlinked :: "string \<Rightarrow> nat \<Rightarrow> 'z pmap_state_scheme \<Rightarrow> fault + 'z pmap_state_scheme" where
  "assert_unlinked what pp s = (if \<not> pp < length (pages s) then Inl Wild_Access
     else assert_that (pp_link (pages s ! pp) = None) what s)"

definition set_ref :: "nat \<Rightarrow> u16 \<Rightarrow> 'z pmap_state_scheme \<Rightarrow> fault + 'z pmap_state_scheme" where
  "set_ref pp r s = (if \<not> pp < length (pages s) then Inl Wild_Access
     else Inr (s\<lparr>pages := (pages s)[pp := (pages s ! pp)\<lparr>pp_ref := r\<rparr>]\<rparr>))"

text \<open>An assertion on \<open>*pgdir_walk(kern_pgdir, va, 0)\<close>.\<close>

definition assert_pte :: "string \<Rightarrow> u32 \<Rightarrow> (u32 \<Rightarrow> bool) \<Rightarrow> 'z pmap_state_scheme \<Rightarrow> fault + 'z pmap_state_scheme" where
  "assert_pte what va ok s =
     bindr (pgdir_walk s (kern_pgdir s) va False) (\<lambda>(p, s). assert_that (ok (kload s p)) what s)"

text \<open>\<open>assert((pp = page_alloc(0)) && pp == p)\<close>.\<close>

definition assert_alloc_is :: "string \<Rightarrow> nat \<Rightarrow> 'z pmap_state_scheme \<Rightarrow> fault + 'z pmap_state_scheme" where
  "assert_alloc_is what p s = bindr (page_alloc s 0) (\<lambda>(r, s). assert_that (r = Some p) what s)"

text \<open>The steps of a list, one after the other.\<close>

definition run_steps :: "('s \<Rightarrow> fault + 's) list \<Rightarrow> 's \<Rightarrow> fault + 's" where
  "run_steps steps s = for_each (\<lambda>f. f) steps s"

section \<open>The test of an uninstalled directory\<close>

text \<open>Without free memory no page table can be had; with one free page the first two pages of memory can
  be mapped.\<close>

definition check_page_map :: "nat \<Rightarrow> nat \<Rightarrow> nat \<Rightarrow> 'z pmap_state_scheme \<Rightarrow> fault + 'z pmap_state_scheme" where
  "check_page_map pp0 pp1 pp2 = run_steps
    [assert_no_alloc,
     (\<lambda>s. bindr (page_lookup s (kern_pgdir s) 0) (\<lambda>r. assert_that (r = None) ''page_lookup(kern_pgdir, (void *) 0x0, &ptep) == NULL'' s)),
     assert_insert_fails ''page_insert(kern_pgdir, pp1, 0x0, PTE_W) < 0'' pp1 0 PTE_W,
     (\<lambda>s. page_free s pp0),
     assert_insert ''page_insert(kern_pgdir, pp1, 0x0, PTE_W) == 0'' pp1 0 PTE_W,
     (\<lambda>s. assert_that (PTE_ADDR (kload s (kern_pgdir s)) = page2pa pp0) ''PTE_ADDR(kern_pgdir[0]) == page2pa(pp0)'' s),
     assert_va2pa ''check_va2pa(kern_pgdir, 0x0) == page2pa(pp1)'' 0 (page2pa pp1),
     assert_ref ''pp1->pp_ref == 1'' pp1 (\<lambda>r. r = 1),
     assert_ref ''pp0->pp_ref == 1'' pp0 (\<lambda>r. r = 1),
     assert_insert ''page_insert(kern_pgdir, pp2, (void*) PGSIZE, PTE_W) == 0'' pp2 PGSIZE PTE_W,
     assert_va2pa ''check_va2pa(kern_pgdir, PGSIZE) == page2pa(pp2)'' PGSIZE (page2pa pp2),
     assert_ref ''pp2->pp_ref == 1'' pp2 (\<lambda>r. r = 1),
     assert_no_alloc,
     assert_insert ''page_insert(kern_pgdir, pp2, (void*) PGSIZE, PTE_W) == 0'' pp2 PGSIZE PTE_W,
     assert_va2pa ''check_va2pa(kern_pgdir, PGSIZE) == page2pa(pp2)'' PGSIZE (page2pa pp2),
     assert_ref ''pp2->pp_ref == 1'' pp2 (\<lambda>r. r = 1),
     assert_no_alloc]"

text \<open>\<open>pgdir_walk\<close> finds the entry, and \<open>page_insert\<close> changes its permissions.\<close>

definition check_page_perms :: "nat \<Rightarrow> nat \<Rightarrow> 'z pmap_state_scheme \<Rightarrow> fault + 'z pmap_state_scheme" where
  "check_page_perms pp0 pp2 = run_steps
    [(\<lambda>s. bindr (KADDR s (PTE_ADDR (kload s (kern_pgdir s + 4 * PDX PGSIZE)))) (\<lambda>ptep.
       bindr (pgdir_walk s (kern_pgdir s) PGSIZE False) (\<lambda>(p, s).
       assert_that (p = ptep + 4 * PTX PGSIZE) ''pgdir_walk(kern_pgdir, (void*)PGSIZE, 0) == ptep+PTX(PGSIZE)'' s))),
     assert_insert ''page_insert(kern_pgdir, pp2, (void*) PGSIZE, PTE_W|PTE_U) == 0'' pp2 PGSIZE (PTE_W OR PTE_U),
     assert_va2pa ''check_va2pa(kern_pgdir, PGSIZE) == page2pa(pp2)'' PGSIZE (page2pa pp2),
     assert_ref ''pp2->pp_ref == 1'' pp2 (\<lambda>r. r = 1),
     assert_pte ''*pgdir_walk(kern_pgdir, (void*) PGSIZE, 0) & PTE_U'' PGSIZE (\<lambda>e. e AND PTE_U \<noteq> 0),
     (\<lambda>s. assert_that (kload s (kern_pgdir s) AND PTE_U \<noteq> 0) ''kern_pgdir[0] & PTE_U'' s),
     assert_insert ''page_insert(kern_pgdir, pp2, (void*) PGSIZE, PTE_W) == 0'' pp2 PGSIZE PTE_W,
     assert_pte ''*pgdir_walk(kern_pgdir, (void*) PGSIZE, 0) & PTE_W'' PGSIZE (\<lambda>e. e AND PTE_W \<noteq> 0),
     assert_pte ''!(*pgdir_walk(kern_pgdir, (void*) PGSIZE, 0) & PTE_U)'' PGSIZE (\<lambda>e. e AND PTE_U = 0),
     assert_insert_fails ''page_insert(kern_pgdir, pp0, (void*) PTSIZE, PTE_W) < 0'' pp0 PTSIZE PTE_W]"

text \<open>A page that is replaced loses its reference and is free again.\<close>

definition check_page_replace :: "nat \<Rightarrow> nat \<Rightarrow> 'z pmap_state_scheme \<Rightarrow> fault + 'z pmap_state_scheme" where
  "check_page_replace pp1 pp2 = run_steps
    [assert_insert ''page_insert(kern_pgdir, pp1, (void*) PGSIZE, PTE_W) == 0'' pp1 PGSIZE PTE_W,
     assert_pte ''!(*pgdir_walk(kern_pgdir, (void*) PGSIZE, 0) & PTE_U)'' PGSIZE (\<lambda>e. e AND PTE_U = 0),
     assert_va2pa ''check_va2pa(kern_pgdir, 0) == page2pa(pp1)'' 0 (page2pa pp1),
     assert_va2pa ''check_va2pa(kern_pgdir, PGSIZE) == page2pa(pp1)'' PGSIZE (page2pa pp1),
     assert_ref ''pp1->pp_ref == 2'' pp1 (\<lambda>r. r = 2),
     assert_ref ''pp2->pp_ref == 0'' pp2 (\<lambda>r. r = 0),
     assert_alloc_is ''(pp = page_alloc(0)) && pp == pp2'' pp2]"

text \<open>So does a page that is unmapped, but not before its last mapping has gone.\<close>

definition check_page_unmap :: "nat \<Rightarrow> nat \<Rightarrow> 'z pmap_state_scheme \<Rightarrow> fault + 'z pmap_state_scheme" where
  "check_page_unmap pp1 pp2 = run_steps
    [(\<lambda>s. page_remove s (kern_pgdir s) 0),
     assert_va2pa ''check_va2pa(kern_pgdir, 0x0) == ~0'' 0 (NOT 0),
     assert_va2pa ''check_va2pa(kern_pgdir, PGSIZE) == page2pa(pp1)'' PGSIZE (page2pa pp1),
     assert_ref ''pp1->pp_ref == 1'' pp1 (\<lambda>r. r = 1),
     assert_ref ''pp2->pp_ref == 0'' pp2 (\<lambda>r. r = 0),
     assert_insert ''page_insert(kern_pgdir, pp1, (void*) PGSIZE, 0) == 0'' pp1 PGSIZE 0,
     assert_ref ''pp1->pp_ref'' pp1 (\<lambda>r. r \<noteq> 0),
     assert_unlinked ''pp1->pp_link == NULL'' pp1,
     (\<lambda>s. page_remove s (kern_pgdir s) PGSIZE),
     assert_va2pa ''check_va2pa(kern_pgdir, 0x0) == ~0'' 0 (NOT 0),
     assert_va2pa ''check_va2pa(kern_pgdir, PGSIZE) == ~0'' PGSIZE (NOT 0),
     assert_ref ''pp1->pp_ref == 0'' pp1 (\<lambda>r. r = 0),
     assert_ref ''pp2->pp_ref == 0'' pp2 (\<lambda>r. r = 0),
     assert_alloc_is ''(pp = page_alloc(0)) && pp == pp1'' pp1,
     assert_no_alloc]"

text \<open>\<open>forcibly take pp0 back\<close>.\<close>

definition take_back :: "nat \<Rightarrow> 'z pmap_state_scheme \<Rightarrow> fault + 'z pmap_state_scheme" where
  "take_back pp0 = run_steps
    [(\<lambda>s. assert_that (PTE_ADDR (kload s (kern_pgdir s)) = page2pa pp0) ''PTE_ADDR(kern_pgdir[0]) == page2pa(pp0)'' s),
     (\<lambda>s. Inr (kstore s (kern_pgdir s) 0)),
     assert_ref ''pp0->pp_ref == 1'' pp0 (\<lambda>r. r = 1),
     set_ref pp0 0]"

text \<open>The arithmetic of \<open>pgdir_walk\<close>, and that a new page table is cleared.\<close>

definition check_page_walk :: "nat \<Rightarrow> 'z pmap_state_scheme \<Rightarrow> fault + 'z pmap_state_scheme" where
  "check_page_walk pp0 s =
     bindr (page_free s pp0) (\<lambda>s.
     let va = PGSIZE * NPDENTRIES + PGSIZE in
     bindr (pgdir_walk s (kern_pgdir s) va True) (\<lambda>(ptep, s).
     bindr (KADDR s (PTE_ADDR (kload s (kern_pgdir s + 4 * PDX va)))) (\<lambda>ptep1.
     bindr (assert_that (ptep = ptep1 + 4 * PTX va) ''ptep == ptep1 + PTX(va)'' s) (\<lambda>s.
     let s = kstore s (kern_pgdir s + 4 * PDX va) 0 in
     set_ref pp0 0 s))))"

definition check_page_zeroed :: "nat \<Rightarrow> 'z pmap_state_scheme \<Rightarrow> fault + 'z pmap_state_scheme" where
  "check_page_zeroed pp0 s =
     bindr (page2kva s pp0) (\<lambda>kva.
     let s = s\<lparr>mem := memset (mem s) (kv2p kva) 0xFF PGSIZE\<rparr> in
     bindr (page_free s pp0) (\<lambda>s.
     bindr (pgdir_walk s (kern_pgdir s) 0 True) (\<lambda>(p, s).
     bindr (page2kva s pp0) (\<lambda>ptep.
     bindr (for_each (\<lambda>i s. assert_that (kload s (ptep + 4 * of_nat i) AND PTE_P = 0) ''(ptep[i] & PTE_P) == 0'' s) [0..<1024] s) (\<lambda>s.
     let s = kstore s (kern_pgdir s) 0 in
     set_ref pp0 0 s)))))"

definition check_page :: "'z env_state_scheme \<Rightarrow> fault + 'z env_state_scheme" where
  "check_page s =
     bindr (alloc_three s) (\<lambda>((pp0, pp1, pp2), s).
     let fl = page_free_list s; s = s\<lparr>page_free_list := None\<rparr> in
     bindr (check_page_map pp0 pp1 pp2 s) (\<lambda>s.
     bindr (check_page_perms pp0 pp2 s) (\<lambda>s.
     bindr (check_page_replace pp1 pp2 s) (\<lambda>s.
     bindr (check_page_unmap pp1 pp2 s) (\<lambda>s.
     bindr (take_back pp0 s) (\<lambda>s.
     bindr (check_page_walk pp0 s) (\<lambda>s.
     bindr (check_page_zeroed pp0 s) (\<lambda>s.
     bindr (free_three pp0 pp1 pp2 (s\<lparr>page_free_list := fl\<rparr>)) (\<lambda>s.
     Inr (cprintf (''check_page() succeeded!'' @ nl) [] s))))))))))"

section \<open>The test of the installed directory\<close>

text \<open>A word at a virtual address whose four bytes are in one page, read and written by the kernel.\<close>

definition word_at :: "'z pmap_state_scheme \<Rightarrow> u32 \<Rightarrow> fault + u32" where
  "word_at s va = (case translate s False va of
     None \<Rightarrow> Inl (Panic ''kernel-mode page fault'') | Some pa \<Rightarrow> Inr (load32 (mem s) pa))"

definition put_word :: "u32 \<Rightarrow> u32 \<Rightarrow> 'z pmap_state_scheme \<Rightarrow> fault + 'z pmap_state_scheme" where
  "put_word va w s = (case translate s True va of
     None \<Rightarrow> Inl (Panic ''kernel-mode page fault'') | Some pa \<Rightarrow> Inr (s\<lparr>mem := store32 (mem s) pa w\<rparr>))"

text \<open>\<open>memset(page2kva(pp), c, PGSIZE)\<close>, and calls of \<open>page_insert\<close> whose result is not looked at.\<close>

definition fill_page :: "nat \<Rightarrow> u32 \<Rightarrow> 'z pmap_state_scheme \<Rightarrow> fault + 'z pmap_state_scheme" where
  "fill_page pp c s = bindr (page2kva s pp) (\<lambda>kva. Inr (s\<lparr>mem := memset (mem s) (kv2p kva) c PGSIZE\<rparr>))"

definition insert_page :: "nat \<Rightarrow> u32 \<Rightarrow> u32 \<Rightarrow> 'z pmap_state_scheme \<Rightarrow> fault + 'z pmap_state_scheme" where
  "insert_page pp va perm s = bindr (page_insert s (kern_pgdir s) pp va perm) (\<lambda>(r, s). Inr s)"

definition check_installed_steps :: "nat \<Rightarrow> nat \<Rightarrow> nat \<Rightarrow> 'z pmap_state_scheme \<Rightarrow> fault + 'z pmap_state_scheme" where
  "check_installed_steps pp0 pp1 pp2 = run_steps
    [(\<lambda>s. page_free s pp0), fill_page pp1 1, fill_page pp2 2,
     insert_page pp1 PGSIZE PTE_W,
     assert_ref ''pp1->pp_ref == 1'' pp1 (\<lambda>r. r = 1),
     (\<lambda>s. bindr (word_at s PGSIZE) (\<lambda>w. assert_that (w = 0x01010101) ''*(uint32_t *)PGSIZE == 0x01010101U'' s)),
     insert_page pp2 PGSIZE PTE_W,
     (\<lambda>s. bindr (word_at s PGSIZE) (\<lambda>w. assert_that (w = 0x02020202) ''*(uint32_t *)PGSIZE == 0x02020202U'' s)),
     assert_ref ''pp2->pp_ref == 1'' pp2 (\<lambda>r. r = 1),
     assert_ref ''pp1->pp_ref == 0'' pp1 (\<lambda>r. r = 0),
     put_word PGSIZE 0x03030303,
     (\<lambda>s. bindr (page2kva s pp2) (\<lambda>kva. assert_that (kload s kva = 0x03030303) ''*(uint32_t *)page2kva(pp2) == 0x03030303U'' s)),
     (\<lambda>s. page_remove s (kern_pgdir s) PGSIZE),
     assert_ref ''pp2->pp_ref == 0'' pp2 (\<lambda>r. r = 0),
     take_back pp0,
     (\<lambda>s. page_free s pp0)]"

definition check_page_installed_pgdir :: "'z env_state_scheme \<Rightarrow> fault + 'z env_state_scheme" where
  "check_page_installed_pgdir s =
     bindr (assert_alloc ''(pp0 = page_alloc(0))'' 0 s) (\<lambda>(pp0, s).
     bindr (assert_alloc ''(pp1 = page_alloc(0))'' 0 s) (\<lambda>(pp1, s).
     bindr (assert_alloc ''(pp2 = page_alloc(0))'' 0 s) (\<lambda>(pp2, s).
     bindr (check_installed_steps pp0 pp1 pp2 s) (\<lambda>s.
     Inr (cprintf (''check_page_installed_pgdir() succeeded!'' @ nl) [] s)))))"

section \<open>Memory as tables\<close>

text \<open>The page \<open>f\<close> with the words \<open>e\<close> in it.\<close>

definition tab :: "nat \<Rightarrow> (nat \<Rightarrow> u32) \<Rightarrow> memory \<Rightarrow> memory" where
  "tab f e m = (\<lambda>a. if unat a div 4096 = f then ucast (drop_bit (8 * (unat a mod 4)) (e (unat a mod 4096 div 4))) else m a)"

lemma entry_byte:
  assumes "g < 0x100000" "j < 1024" "k < 4"
  shows "unat (entry_pa g j + of_nat k) = 4096 * g + (4 * j + k)" "unat (entry_pa g j + of_nat k) div 4096 = g"
    "unat (entry_pa g j + of_nat k) mod 4096 div 4 = j" "unat (entry_pa g j + of_nat k) mod 4 = k"
proof -
  have l: "4 * j + k < 4096" using assms(2,3) by simp
  show u: "unat (entry_pa g j + of_nat k) = 4096 * g + (4 * j + k)"
    unfolding entry_pa_plus using assms(1) l by (intro unat_of_nat_u32) simp
  show "unat (entry_pa g j + of_nat k) div 4096 = g" unfolding u using l by simp
  have "(4096 * g + (4 * j + k)) mod 4096 = 4 * j + k" using l by simp
  then show "unat (entry_pa g j + of_nat k) mod 4096 div 4 = j" unfolding u using assms(3) by simp
  have "4096 * g + (4 * j + k) = 4 * (1024 * g + j) + k" by simp
  then show "unat (entry_pa g j + of_nat k) mod 4 = k" unfolding u using assms(3) by (metis mod_mult_self4 mod_less)
qed

lemma load_tab:
  assumes "g < 0x100000" "j < 1024"
  shows "load32 (tab f e m) (entry_pa g j) = (if g = f then e j else load32 m (entry_pa g j))"
proof -
  have b: "tab f e m (entry_pa g j + of_nat k) =
      (if g = f then ucast (drop_bit (8 * k) (e j)) else m (entry_pa g j + of_nat k))" if "k < 4" for k
    using entry_byte(2-4) [OF assms that] by (simp only: tab_def)
  show ?thesis
    using b [of 0] b [of 1] b [of 2] b [of 3] bytes_of_u32 [of "e j"] by (simp add: load32_def)
qed

text \<open>Memories with the same words are equal.\<close>

lemma memory_eqI:
  assumes "\<And>g j. g < 0x100000 \<Longrightarrow> j < 1024 \<Longrightarrow> load32 m (entry_pa g j) = load32 m' (entry_pa g j)"
  shows "m = m'"
proof (rule ext)
  fix a :: u32
  define g where "g = unat a div 4096"
  define j where "j = unat a mod 4096 div 4"
  define k where "k = unat a mod 4"
  have b: "g < 0x100000" "j < 1024" "k < 4" using unat_u32_lt [of a] by (simp_all add: g_def j_def k_def)
  have "unat a mod 4096 mod 4 = k" unfolding k_def by (rule mod_mod_cancel) simp
  then have "unat a mod 4096 = 4 * j + k" using mult_div_mod_eq [of 4 "unat a mod 4096"] by (simp add: j_def)
  then have "unat a = 4096 * g + (4 * j + k)" using mult_div_mod_eq [of 4096 "unat a"] by (simp add: g_def)
  then have a: "a = entry_pa g j + of_nat k" using entry_byte(1) [OF b] by (metis word_eq_unatI)
  note w = byte_of_load32 [where m = m and a = "entry_pa g j", unfolded assms [OF b(1,2)] byte_of_load32]
  consider "k = 0" | "k = 1" | "k = 2" | "k = 3" using b(3) by linarith
  then show "m a = m' a" by cases (simp_all add: a w)
qed

lemma load_memset_page:
  assumes "g < 0x100000" "j < 1024" "x < 0x100000"
  shows "load32 (memset m (page2pa x) c 4096) (entry_pa g j) = (if g = x then load32 (\<lambda>_. ucast c) 0 else load32 m (entry_pa g j))"
proof -
  have b: "memset m (page2pa x) c 4096 (entry_pa g j + of_nat k) = (if g = x then ucast c else m (entry_pa g j + of_nat k))" if "k < 4" for k
    using page_byte [of g x "4 * j + k"] assms that by (simp add: entry_pa_plus memset_fill block_fill_def del: of_nat_add of_nat_mult)
  show ?thesis using b [of 0] b [of 1] b [of 2] b [of 3] by (simp add: load32_def)
qed

lemma tab_update:
  assumes "f < 0x100000" "i < 1024"
  shows "store32 (tab f e m) (entry_pa f i) v = tab f (e(i := v)) m"
    "g < 0x100000 \<Longrightarrow> g \<noteq> f \<Longrightarrow> store32 (tab g e m) (entry_pa f i) v = tab g e (store32 m (entry_pa f i) v)"
    "memset (tab f e m) (page2pa f) c 4096 = tab f (\<lambda>_. load32 (\<lambda>_. ucast c) 0) m"
    "g < 0x100000 \<Longrightarrow> g \<noteq> f \<Longrightarrow> memset (tab g e m) (page2pa f) c 4096 = tab g e (memset m (page2pa f) c 4096)"
  using assms by (intro memory_eqI; auto simp: load32_entry load_tab load_memset_page)+

lemma tab_same: "f < 0x100000 \<Longrightarrow> (\<And>i. i < 1024 \<Longrightarrow> e i = load32 m (entry_pa f i)) \<Longrightarrow> tab f e m = m"
  by (intro memory_eqI) (simp add: load_tab)

section \<open>The state of a test\<close>

text \<open>The directory is page \<open>D\<close> and holds \<open>dir\<close>, page \<open>a\<close> holds \<open>e\<close>, and the page infos are \<open>P\<close>.\<close>

definition tst :: "'z pmap_state_scheme \<Rightarrow> nat \<Rightarrow> nat \<Rightarrow> (nat \<Rightarrow> u32) \<Rightarrow> (nat \<Rightarrow> u32) \<Rightarrow> (nat \<Rightarrow> PageInfo) \<Rightarrow> nat option \<Rightarrow>
    memory \<Rightarrow> u32 list \<Rightarrow> 'z pmap_state_scheme" where
  "tst s D a dir e P L m v = s\<lparr>mem := tab D dir (tab a e m), pages := map P [0..<length (pages s)],
     page_free_list := L, invlpg_log := v\<rparr>"

lemma tst_fields [simp]:
  "pages (tst s D a dir e P L m v) = map P [0..<length (pages s)]" "npages (tst s D a dir e P L m v) = npages s"
  "page_free_list (tst s D a dir e P L m v) = L" "kern_pgdir (tst s D a dir e P L m v) = kern_pgdir s"
  "mem (tst s D a dir e P L m v) = tab D dir (tab a e m)"
  "(tst s D a dir e P L m v)\<lparr>page_free_list := L'\<rparr> = tst s D a dir e P L' m v"
  by (simp_all add: tst_def)

lemma map_upt_update: "(map P [0..<n])[i := x] = map (P(i := x)) [0..<n]"
  by (intro nth_equalityI) (auto simp: nth_list_update)

lemma tst_pages [simp]:
  "i < length (pages s) \<Longrightarrow> (tst s D a dir e P L m v)\<lparr>pages := (map P [0..<length (pages s)])[i := x]\<rparr> = tst s D a dir e (P(i := x)) L m v"
  by (simp add: tst_def map_upt_update)

definition test_ok :: "'z pmap_state_scheme \<Rightarrow> nat \<Rightarrow> nat \<Rightarrow> bool" where
  "test_ok s D a \<longleftrightarrow> pages_wf s \<and> unat (npages s) < 0x10000 \<and> D < length (pages s) \<and> a < length (pages s) \<and> D \<noteq> a \<and> kern_pgdir s = pgdir_kva D"

lemma test_okD:
  assumes "test_ok s D a"
  shows "pages_wf s" "D < length (pages s)" "a < length (pages s)" "D \<noteq> a" "kern_pgdir s = pgdir_kva D"
    "D < 0x100000" "a < 0x100000" "a < 0x10000"
  using assms by (auto simp: test_ok_def pages_wf_def)

lemma tst_wf [simp]: "test_ok s D a \<Longrightarrow> pages_wf (tst s D a dir e P L m v)"
  by (simp add: test_ok_def pages_wf_def)

lemma tst_entries:
  assumes "test_ok s D a" "i < 1024"
  shows "entry (tst s D a dir e P L m v) D i = dir i" "entry (tst s D a dir e P L m v) a i = e i"
  using test_okD [OF assms(1)] assms(2) by (simp_all add: entry_def load_tab)

text \<open>Loads and stores of the kernel.\<close>

lemma kva_dir: "pgdir_kva D + 4 * of_nat i = entry_pa D i + KERNBASE"
  by (simp add: pgdir_kva_def page2pa_of_nat entry_pa_def)

lemma kva_table: "page2pa a + KERNBASE + 4 * of_nat i = entry_pa a i + KERNBASE"
  using kva_dir [of a i] by (simp only: pgdir_kva_def)

lemma tst_load:
  assumes "test_ok s D a" "i < 1024"
  shows "kload (tst s D a dir e P L m v) (entry_pa D i + KERNBASE) = dir i"
    "kload (tst s D a dir e P L m v) (entry_pa a i + KERNBASE) = e i"
  using tst_entries [OF assms] by (simp_all only: kload_entry)

lemma tst_store:
  assumes "test_ok s D a" "i < 1024"
  shows "kstore (tst s D a dir e P L m v) (entry_pa D i + KERNBASE) x = tst s D a (dir(i := x)) e P L m v"
    "kstore (tst s D a dir e P L m v) (entry_pa a i + KERNBASE) x = tst s D a dir (e(i := x)) P L m v"
  using test_okD [OF assms(1)] assms(2)
  by (simp_all only: kstore_entry tst_fields) (simp_all add: tst_def tab_update)

lemma tst_dir:
  assumes "test_ok s D a"
  shows "kload (tst s D a dir e P L m v) (pgdir_kva D + 4 * PDX va) = dir (pdx va)"
    "kstore (tst s D a dir e P L m v) (pgdir_kva D + 4 * PDX va) x = tst s D a (dir(pdx va := x)) e P L m v"
proof -
  have "PDX va = of_nat (pdx va)" by (simp add: pdx_def)
  then have "pgdir_kva D + 4 * PDX va = entry_pa D (pdx va) + KERNBASE" using kva_dir by metis
  then show "kload (tst s D a dir e P L m v) (pgdir_kva D + 4 * PDX va) = dir (pdx va)"
    "kstore (tst s D a dir e P L m v) (pgdir_kva D + 4 * PDX va) x = tst s D a (dir(pdx va := x)) e P L m v"
    using tst_load(1) [OF assms pdx_less] tst_store(1) [OF assms pdx_less] by simp_all
qed

lemma tst_memset:
  assumes "test_ok s D a"
  shows "(tst s D a dir e P L m v)\<lparr>mem := memset (tab D dir (tab a e m)) (page2pa a) c 4096\<rparr> =
    tst s D a dir (\<lambda>_. load32 (\<lambda>_. ucast c) 0) P L m v"
  using test_okD [OF assms] by (simp add: tst_def tab_update(3,4) [of a 0])

section \<open>The page allocator\<close>

lemma tst_alloc:
  assumes "test_ok s D a"
  shows "page_alloc (tst s D a dir e P None m v) f = Inr (None, tst s D a dir e P None m v)"
    "x < length (pages s) \<Longrightarrow> page_alloc (tst s D a dir e P (Some x) m v) 0 =
      Inr (Some x, tst s D a dir e (P(x := (P x)\<lparr>pp_link := None\<rparr>)) (pp_link (P x)) m v)"
    "page_alloc (tst s D a dir e P (Some a) m v) ALLOC_ZERO =
      Inr (Some a, tst s D a dir (\<lambda>_. 0) (P(a := (P a)\<lparr>pp_link := None\<rparr>)) (pp_link (P a)) m v)"
proof -
  note a = test_okD [OF assms]
  show "page_alloc (tst s D a dir e P None m v) f = Inr (None, tst s D a dir e P None m v)"
    by (simp add: page_alloc_def)
  show "page_alloc (tst s D a dir e P (Some x) m v) 0 =
      Inr (Some x, tst s D a dir e (P(x := (P x)\<lparr>pp_link := None\<rparr>)) (pp_link (P x)) m v)" if "x < length (pages s)"
    using that by (simp add: page_alloc_def Let_def)
  have "page2kva (tst s D a dir e P L m v) a = Inr (page2pa a + KERNBASE)" for P L
    using KADDR_page2pa [OF tst_wf [OF assms]] a(3) by (simp add: page2kva_def)
  then show "page_alloc (tst s D a dir e P (Some a) m v) ALLOC_ZERO =
      Inr (Some a, tst s D a dir (\<lambda>_. 0) (P(a := (P a)\<lparr>pp_link := None\<rparr>)) (pp_link (P a)) m v)"
    using a(3) by (simp add: page_alloc_def Let_def tst_memset [OF assms] load32_def del: KERNBASE_def)
qed

lemma tst_free:
  "x < length (pages s) \<Longrightarrow> page_free (tst s D a dir e P L m v) x = Inr (tst s D a dir e (P(x := (P x)\<lparr>pp_link := L\<rparr>)) (Some x) m v)"
  by (simp add: page_free_def Let_def)

lemma tst_incref:
  "x < length (pages s) \<Longrightarrow> page_incref (tst s D a dir e P L m v) x = Inr (tst s D a dir e (P(x := (P x)\<lparr>pp_ref := pp_ref (P x) + 1\<rparr>)) L m v)"
  by (simp add: page_incref_def)

text \<open>Dropping a reference, on the page infos and the free list.\<close>

definition drop_ref :: "nat \<Rightarrow> (nat \<Rightarrow> PageInfo) \<times> nat option \<Rightarrow> (nat \<Rightarrow> PageInfo) \<times> nat option" where
  "drop_ref g = (\<lambda>(P, L). if pp_ref (P g) - 1 = 0 then (P(g := (P g)\<lparr>pp_ref := 0, pp_link := L\<rparr>), Some g)
     else (P(g := (P g)\<lparr>pp_ref := pp_ref (P g) - 1\<rparr>), L))"

lemma tst_decref:
  "g < length (pages s) \<Longrightarrow> page_decref (tst s D a dir e P L m v) g =
    Inr (tst s D a dir e (fst (drop_ref g (P, L))) (snd (drop_ref g (P, L))) m v)"
  by (simp add: page_decref_def Let_def tst_free drop_ref_def)

section \<open>The page tables\<close>

lemma tst_table:
  assumes "test_ok s D a" "present (dir (pdx va))" "frame_of (dir (pdx va)) = a"
  shows "table_at (tst s D a dir e P L m v) D (pdx va) = Some a"
  using assms by (simp add: table_at_def tst_entries)

lemma tst_walk:
  assumes ok: "test_ok s D a"
  shows "present (dir (pdx va)) \<Longrightarrow> frame_of (dir (pdx va)) = a \<Longrightarrow>
      pgdir_walk (tst s D a dir e P L m v) (pgdir_kva D) va create = Inr (entry_pa a (ptx va) + KERNBASE, tst s D a dir e P L m v)"
    "\<not> present (dir (pdx va)) \<Longrightarrow> pgdir_walk (tst s D a dir e P L m v) (pgdir_kva D) va False = Inr (NULL, tst s D a dir e P L m v)"
    "\<not> present (dir (pdx va)) \<Longrightarrow> pgdir_walk (tst s D a dir e P None m v) (pgdir_kva D) va True = Inr (NULL, tst s D a dir e P None m v)"
    "\<not> present (dir (pdx va)) \<Longrightarrow> pgdir_walk (tst s D a dir e P (Some a) m v) (pgdir_kva D) va True =
      Inr (entry_pa a (ptx va) + KERNBASE, tst s D a (dir(pdx va := new_pde a)) (\<lambda>_. 0)
        (P(a := (P a)\<lparr>pp_link := None, pp_ref := pp_ref (P a) + 1\<rparr>)) (pp_link (P a)) m v)"
proof -
  note a = test_okD [OF ok]
  have none: "table_at (tst s D a dir e P L m v) D (pdx va) = None" if "\<not> present (dir (pdx va))" for L
    using that by (simp add: table_at_def tst_entries [OF ok])
  show "present (dir (pdx va)) \<Longrightarrow> frame_of (dir (pdx va)) = a \<Longrightarrow>
      pgdir_walk (tst s D a dir e P L m v) (pgdir_kva D) va create = Inr (entry_pa a (ptx va) + KERNBASE, tst s D a dir e P L m v)"
    by (rule walk_present [OF tst_wf [OF ok] _ tst_table [OF ok]]) (use a in simp_all)
  show "\<not> present (dir (pdx va)) \<Longrightarrow> pgdir_walk (tst s D a dir e P L m v) (pgdir_kva D) va False = Inr (NULL, tst s D a dir e P L m v)"
    "\<not> present (dir (pdx va)) \<Longrightarrow> pgdir_walk (tst s D a dir e P None m v) (pgdir_kva D) va True = Inr (NULL, tst s D a dir e P None m v)"
    using walk_absent [OF tst_wf [OF ok] _ none] a(2) by simp_all
  assume np: "\<not> present (dir (pdx va))"
  then have p: "dir (pdx va) AND PTE_P = 0" by (simp add: present_def)
  let ?P = "P(a := (P a)\<lparr>pp_link := None, pp_ref := pp_ref (P a) + 1\<rparr>)"
  let ?t = "tst s D a (dir(pdx va := new_pde a)) (\<lambda>_. 0) ?P (pp_link (P a)) m v"
  have "KADDR ?t (PTE_ADDR (new_pde a)) = Inr (page2pa a + KERNBASE)"
    using a present_new_pde [OF a(7)] by (intro KADDR_table) (simp_all add: tst_wf [OF ok])
  moreover have "page2pa a + KERNBASE + 4 * PTX va = entry_pa a (ptx va) + KERNBASE"
    using entry_pa_PTX [OF a(7), of va] by (simp add: ptx_def algebra_simps)
  ultimately show "pgdir_walk (tst s D a dir e P (Some a) m v) (pgdir_kva D) va True = Inr (entry_pa a (ptx va) + KERNBASE, ?t)"
    using p a(3) tst_alloc(3) [OF ok, of dir e P m v]
    by (simp add: pgdir_walk_def Let_def tst_dir [OF ok] tst_incref new_pde_eq or.assoc del: KERNBASE_def)
qed

lemma entry_kva_nonnull: "test_ok s D a \<Longrightarrow> i < 1024 \<Longrightarrow> entry_pa a i + KERNBASE \<noteq> 0"
  using test_okD(8) table_kva_nonnull by blast

lemma tst_lookup:
  assumes ok: "test_ok s D a"
  shows "present (dir (pdx va)) \<Longrightarrow> frame_of (dir (pdx va)) = a \<Longrightarrow> (present (e (ptx va)) \<longrightarrow> frame_of (e (ptx va)) < length (pages s)) \<Longrightarrow>
      page_lookup (tst s D a dir e P L m v) (pgdir_kva D) va =
        Inr (if present (e (ptx va)) then Some (frame_of (e (ptx va)), entry_pa a (ptx va) + KERNBASE) else None)"
    "\<not> present (dir (pdx va)) \<Longrightarrow> page_lookup (tst s D a dir e P L m v) (pgdir_kva D) va = Inr None"
proof -
  show "\<not> present (dir (pdx va)) \<Longrightarrow> page_lookup (tst s D a dir e P L m v) (pgdir_kva D) va = Inr None"
    by (simp add: page_lookup_def tst_walk [OF ok])
  have nn: "entry_pa a (ptx va) + KERNBASE \<noteq> NULL" using entry_kva_nonnull [OF ok ptx_less [of va]] by simp
  assume d: "present (dir (pdx va))" "frame_of (dir (pdx va)) = a" and f: "present (e (ptx va)) \<longrightarrow> frame_of (e (ptx va)) < length (pages s)"
  have "pa2page (tst s D a dir e P L m v) (PTE_ADDR (e (ptx va))) = Inr (frame_of (e (ptx va)))" if "present (e (ptx va))"
    using pa2page_page2pa [OF tst_wf [OF ok]] f that by (simp add: PTE_ADDR_frame)
  then show "page_lookup (tst s D a dir e P L m v) (pgdir_kva D) va =
      Inr (if present (e (ptx va)) then Some (frame_of (e (ptx va)), entry_pa a (ptx va) + KERNBASE) else None)"
    using nn d by (simp only: page_lookup_def tst_walk(1) [OF ok] bindr_Inr prod.case tst_load(2) [OF ok ptx_less] simp_thms if_False)
      (simp add: present_def)
qed

lemma tst_remove:
  assumes ok: "test_ok s D a" and d: "present (dir (pdx va))" "frame_of (dir (pdx va)) = a"
    and f: "present (e (ptx va)) \<longrightarrow> frame_of (e (ptx va)) < length (pages s)"
  shows "page_remove (tst s D a dir e P L m v) (pgdir_kva D) va =
    Inr (if present (e (ptx va))
      then tst s D a dir (e(ptx va := 0)) (fst (drop_ref (frame_of (e (ptx va))) (P, L))) (snd (drop_ref (frame_of (e (ptx va))) (P, L))) m (va # v)
      else tst s D a dir e P L m v)"
proof -
  have inv: "tlb_invalidate (tst s D a dir e P L m v) p va = tst s D a dir e P L m (va # v)" for e P L p
    by (simp add: tlb_invalidate_def tst_def)
  show ?thesis
    using tst_lookup(1) [where dir = dir and va = va and e = e and P = P and L = L and m = m and v = v, OF ok d f] f
    by (simp add: page_remove_def tst_decref tst_store(2) [OF ok ptx_less] inv del: KERNBASE_def)
qed

text \<open>The page infos and the free list after mapping page \<open>x\<close> over the entry \<open>old\<close>.\<close>

definition swap_ref :: "nat \<Rightarrow> u32 \<Rightarrow> (nat \<Rightarrow> PageInfo) \<times> nat option \<Rightarrow> (nat \<Rightarrow> PageInfo) \<times> nat option" where
  "swap_ref x old = (\<lambda>(P, L). let P = P(x := (P x)\<lparr>pp_ref := pp_ref (P x) + 1\<rparr>) in
     if present old then drop_ref (frame_of old) (P, L) else (P, L))"

lemma tst_insert_rest:
  assumes ok: "test_ok s D a" and d: "present (dir (pdx va))" "frame_of (dir (pdx va)) = a"
    and f: "present (e (ptx va)) \<longrightarrow> frame_of (e (ptx va)) < length (pages s)" and x: "x < length (pages s)"
  shows "insert_rest (pgdir_kva D) x va perm (entry_pa a (ptx va) + KERNBASE) (tst s D a dir e P L m v) =
    Inr (0, tst s D a (dir(pdx va := dir (pdx va) OR perm)) (e(ptx va := page2pa x OR perm OR PTE_P))
      (fst (swap_ref x (e (ptx va)) (P, L))) (snd (swap_ref x (e (ptx va)) (P, L))) m
      (if present (e (ptx va)) then va # v else v))"
proof -
  let ?P = "P(x := (P x)\<lparr>pp_ref := pp_ref (P x) + 1\<rparr>)"
  have rm: "page_remove (tst s D a dir e ?P L m v) (pgdir_kva D) va =
    (if present (e (ptx va))
      then Inr (tst s D a dir (e(ptx va := 0)) (fst (drop_ref (frame_of (e (ptx va))) (?P, L))) (snd (drop_ref (frame_of (e (ptx va))) (?P, L))) m (va # v))
      else Inr (tst s D a dir e ?P L m v))"
    using tst_remove [where dir = dir and va = va and e = e and P = ?P and L = L and m = m and v = v, OF ok d] f by (cases "present (e (ptx va))") simp_all
  show ?thesis
    unfolding insert_rest_def tst_incref [OF x] bindr_Inr tst_load(2) [OF ok ptx_less] present_iff_1 [symmetric]
    by (cases "present (e (ptx va))")
      (simp_all add: rm Let_def tst_store(2) [OF ok ptx_less] tst_dir [OF ok] swap_ref_def del: KERNBASE_def)
qed

lemma tst_insert:
  assumes ok: "test_ok s D a" and x: "x < length (pages s)"
  shows "present (dir (pdx va)) \<Longrightarrow> frame_of (dir (pdx va)) = a \<Longrightarrow> (present (e (ptx va)) \<longrightarrow> frame_of (e (ptx va)) < length (pages s)) \<Longrightarrow>
      page_insert (tst s D a dir e P L m v) (pgdir_kva D) x va perm =
      Inr (0, tst s D a (dir(pdx va := dir (pdx va) OR perm)) (e(ptx va := page2pa x OR perm OR PTE_P))
        (fst (swap_ref x (e (ptx va)) (P, L))) (snd (swap_ref x (e (ptx va)) (P, L))) m
        (if present (e (ptx va)) then va # v else v))"
    "\<not> present (dir (pdx va)) \<Longrightarrow> page_insert (tst s D a dir e P None m v) (pgdir_kva D) x va perm =
      Inr (- E_NO_MEM, tst s D a dir e P None m v)"
    "\<not> present (dir (pdx va)) \<Longrightarrow> x \<noteq> a \<Longrightarrow> page_insert (tst s D a dir e P (Some a) m v) (pgdir_kva D) x va perm =
      Inr (0, tst s D a (dir(pdx va := new_pde a OR perm)) ((\<lambda>_. 0)(ptx va := page2pa x OR perm OR PTE_P))
        (P(a := (P a)\<lparr>pp_link := None, pp_ref := pp_ref (P a) + 1\<rparr>, x := (P x)\<lparr>pp_ref := pp_ref (P x) + 1\<rparr>)) (pp_link (P a)) m v)"
proof -
  note nn = entry_kva_nonnull [OF ok ptx_less [of va]]
  show "present (dir (pdx va)) \<Longrightarrow> frame_of (dir (pdx va)) = a \<Longrightarrow> (present (e (ptx va)) \<longrightarrow> frame_of (e (ptx va)) < length (pages s)) \<Longrightarrow>
      page_insert (tst s D a dir e P L m v) (pgdir_kva D) x va perm =
      Inr (0, tst s D a (dir(pdx va := dir (pdx va) OR perm)) (e(ptx va := page2pa x OR perm OR PTE_P))
        (fst (swap_ref x (e (ptx va)) (P, L))) (snd (swap_ref x (e (ptx va)) (P, L))) m
        (if present (e (ptx va)) then va # v else v))"
    using tst_insert_rest [OF ok _ _ _ x] nn
    by (simp only: page_insert_rest tst_walk(1) [OF ok] bindr_Inr prod.case NULL_def if_False simp_thms)
  assume np: "\<not> present (dir (pdx va))"
  then show "page_insert (tst s D a dir e P None m v) (pgdir_kva D) x va perm = Inr (- E_NO_MEM, tst s D a dir e P None m v)"
    by (simp only: page_insert_rest tst_walk(3) [OF ok] bindr_Inr prod.case if_True simp_thms)
  assume "x \<noteq> a"
  then show "page_insert (tst s D a dir e P (Some a) m v) (pgdir_kva D) x va perm =
      Inr (0, tst s D a (dir(pdx va := new_pde a OR perm)) ((\<lambda>_. 0)(ptx va := page2pa x OR perm OR PTE_P))
        (P(a := (P a)\<lparr>pp_link := None, pp_ref := pp_ref (P a) + 1\<rparr>, x := (P x)\<lparr>pp_ref := pp_ref (P x) + 1\<rparr>)) (pp_link (P a)) m v)"
    using tst_insert_rest [OF ok, of "dir(pdx va := new_pde a)" va "\<lambda>_. 0" x perm] x nn present_new_pde [OF test_okD(7) [OF ok]]
    unfolding page_insert_rest tst_walk(4) [where dir = dir and va = va, OF ok np] bindr_Inr prod.case by (simp add: swap_ref_def del: KERNBASE_def)
qed

lemma tst_va2pa:
  assumes ok: "test_ok s D a"
  shows "present (dir (pdx va)) \<Longrightarrow> frame_of (dir (pdx va)) = a \<Longrightarrow> check_va2pa (tst s D a dir e P L m v) (pgdir_kva D) va =
      Inr (if present (e (ptx va)) then PTE_ADDR (e (ptx va)) else NOT 0)"
proof -
  note a = test_okD [OF ok]
  assume d: "present (dir (pdx va))" "frame_of (dir (pdx va)) = a"
  then have K: "KADDR (tst s D a dir e P L m v) (PTE_ADDR (dir (pdx va))) = Inr (page2pa a + KERNBASE)"
    using a by (intro KADDR_table) (simp_all add: tst_wf [OF ok])
  have "page2pa a + KERNBASE + 4 * PTX va = entry_pa a (ptx va) + KERNBASE"
    using kva_table [of a "ptx va"] by (simp add: ptx_def)
  then show ?thesis
    using d(1) K tst_load(2) [OF ok ptx_less [of va], of dir e P L m v]
    by (simp only: check_va2pa_def Let_def tst_dir [OF ok] bindr_Inr) (simp add: present_def)
qed

section \<open>Three pages\<close>

definition trio :: "'z pmap_state_scheme \<Rightarrow> nat \<Rightarrow> nat \<Rightarrow> nat \<Rightarrow> nat \<Rightarrow> bool" where
  "trio s D a b c \<longleftrightarrow> test_ok s D a \<and> b < length (pages s) \<and> c < length (pages s) \<and> distinct [a, b, c]"

lemma trioD:
  assumes "trio s D a b c"
  shows "test_ok s D a" "b < length (pages s)" "c < length (pages s)" "a \<noteq> b" "b \<noteq> a" "a \<noteq> c" "c \<noteq> a" "b \<noteq> c" "c \<noteq> b"
    "a < length (pages s)" "kern_pgdir s = pgdir_kva D" "a < 0x100000" "b < 0x100000" "c < 0x100000"
  using assms pages_wf_bound by (auto simp: trio_def test_ok_def)

text \<open>Their page infos, and a page table with two entries.\<close>

definition info :: "(nat \<Rightarrow> PageInfo) \<Rightarrow> nat \<Rightarrow> nat \<Rightarrow> nat \<Rightarrow> PageInfo \<Rightarrow> PageInfo \<Rightarrow> PageInfo \<Rightarrow> nat \<Rightarrow> PageInfo" where
  "info P a b c A B C = P(a := A, b := B, c := C)"

lemma info_simps:
  assumes "trio s D a b c"
  shows "info P a b c A B C a = A" "info P a b c A B C b = B" "info P a b c A B C c = C"
    "(info P a b c A B C)(a := X) = info P a b c X B C" "(info P a b c A B C)(b := X) = info P a b c A X C"
    "(info P a b c A B C)(c := X) = info P a b c A B X"
  using trioD [OF assms] by (auto simp: info_def)

definition two :: "u32 \<Rightarrow> u32 \<Rightarrow> nat \<Rightarrow> u32" where
  "two x y = (\<lambda>_. 0)(0 := x, 1 := y)"

lemma two_simps:
  "two x y 0 = x" "two x y (Suc 0) = y" "(two x y)(0 := z) = two z y" "(two x y)(Suc 0 := z) = two x z" "(\<lambda>_. 0)(0 := x) = two x 0"
  "(\<lambda>_. 0)(Suc 0 := x) = two 0 x"
  by (auto simp: two_def)

lemma two_zero: "two 0 0 = (\<lambda>_. 0)"
  by (simp add: two_def fun_eq_iff)

lemma test_addrs:
  "pdx 0 = 0" "pdx 4096 = 0" "pdx 0x400000 = Suc 0" "pdx 0x401000 = Suc 0" "ptx 0 = 0" "ptx 4096 = Suc 0" "ptx 0x401000 = Suc 0"
  by (simp_all add: pdx_def ptx_def unat_PDX unat_PTX)

lemma test_ptx: "PTX 4096 = 1" "PDX 0x401000 = 1" "PTX 0x401000 = 1"
  by (rule word_eq_unatI, simp add: unat_PTX unat_PDX)+

lemma page_or_and: "x < 0x100000 \<Longrightarrow> unat k < 4096 \<Longrightarrow> (page2pa x OR w) AND k = w AND k"
proof -
  assume "x < 0x100000" "unat k < 4096"
  then have "take_bit 12 (page2pa x) = 0" "take_bit 12 k = k"
    by (simp_all add: word_unat_eq_iff unat_take_bit_u32 unat_page2pa)
  then have "\<not> bit (page2pa x) n" if "bit k n" for n
    using that by (metis bit_0_eq bit_take_bit_iff bot_apply bot_bool_def)
  then show ?thesis by (intro bit_word_eqI) (auto simp: bit_and_iff bit_or_iff)
qed

lemma pte_addr_or: "x < 0x100000 \<Longrightarrow> unat w < 4096 \<Longrightarrow> PTE_ADDR (page2pa x OR w) = page2pa x"
  by (simp only: PTE_ADDR_frame frame_of_or_low)

lemma present_lits: "present 1" "present 3" "present 7"
  by (simp_all add: present_def)

lemma tst_dir0:
  assumes "test_ok s D a"
  shows "kload (tst s D a dir e P L m v) (pgdir_kva D) = dir 0"
    "kstore (tst s D a dir e P L m v) (pgdir_kva D) x = tst s D a (dir(0 := x)) e P L m v"
  using tst_load(1) [OF assms, of 0] tst_store(1) [OF assms, of 0] kva_dir [of D 0] by simp_all

lemmas step_defs = run_steps_def assert_insert_def assert_insert_fails_def assert_va2pa_def assert_ref_def assert_unlinked_def
  set_ref_def assert_pte_def assert_alloc_is_def assert_no_alloc_def assert_that_def

text \<open>The facts with which the steps are evaluated.\<close>

lemma no_mem_negative: "- (4 :: u32) <s 0"
  by code_simp

lemma check_page_map_runs:
  assumes t: "trio s D a b c" and d: "\<not> present (dir 0)"
  shows "check_page_map a b c (tst s D a dir e (info P a b c \<lparr>pp_link = None, pp_ref = 0\<rparr> \<lparr>pp_link = None, pp_ref = 0\<rparr> \<lparr>pp_link = None, pp_ref = 0\<rparr>) None m v) =
    Inr (tst s D a (dir(0 := page2pa a OR 7)) (two (page2pa b OR 3) (page2pa c OR 3))
      (info P a b c \<lparr>pp_link = None, pp_ref = 1\<rparr> \<lparr>pp_link = None, pp_ref = 1\<rparr> \<lparr>pp_link = None, pp_ref = 1\<rparr>) None m (4096 # v))"
proof -
  note [simp] = trioD [OF t] info_simps [OF t] two_simps test_addrs present_lits no_mem_negative
    and ok = trioD(1) [OF t]
  show ?thesis
    using d
    by (simp add: check_page_map_def step_defs tst_alloc [OF ok] tst_lookup [OF ok] tst_insert [OF ok] tst_free
        tst_va2pa [OF ok] tst_dir0 [OF ok] frame_of_or_low pte_addr_or new_pde_eq or.assoc swap_ref_def drop_ref_def
        del: KERNBASE_def)
qed

lemma tst_KADDR:
  assumes "test_ok s D a"
  shows "KADDR (tst s D a dir e P L m v) (page2pa a) = Inr (page2pa a + KERNBASE)"
    "page2kva (tst s D a dir e P L m v) a = Inr (page2pa a + KERNBASE)"
  using KADDR_page2pa [OF tst_wf [OF assms], of a] test_okD(3) [OF assms] by (simp_all add: page2kva_def)

text \<open>The states between the tests: one page table, in page \<open>a\<close>, and the counts of the three pages.\<close>

definition mid :: "'z pmap_state_scheme \<Rightarrow> nat \<Rightarrow> nat \<Rightarrow> nat \<Rightarrow> nat \<Rightarrow> (nat \<Rightarrow> u32) \<Rightarrow> u32 \<Rightarrow> u32 \<Rightarrow> u16 \<Rightarrow> u16 \<Rightarrow> u16 \<Rightarrow>
    (nat \<Rightarrow> PageInfo) \<Rightarrow> memory \<Rightarrow> u32 list \<Rightarrow> 'z pmap_state_scheme" where
  "mid s D a b c dir x y i j k P m v = tst s D a dir (two x y)
     (info P a b c \<lparr>pp_link = None, pp_ref = i\<rparr> \<lparr>pp_link = None, pp_ref = j\<rparr> \<lparr>pp_link = None, pp_ref = k\<rparr>) None m v"

lemma tests_run:
  assumes t: "trio s D a b c"
  shows "\<not> present (dir (Suc 0)) \<Longrightarrow>
      check_page_perms a c (mid s D a b c (dir(0 := page2pa a OR 7)) (page2pa b OR 3) (page2pa c OR 3) 1 1 1 P m v) =
      Inr (mid s D a b c (dir(0 := page2pa a OR 7)) (page2pa b OR 3) (page2pa c OR 3) 1 1 1 P m (4096 # 4096 # v))"
    "check_page_replace b c (mid s D a b c (dir(0 := page2pa a OR 7)) (page2pa b OR 3) (page2pa c OR 3) 1 1 1 P m v) =
      Inr (mid s D a b c (dir(0 := page2pa a OR 7)) (page2pa b OR 3) (page2pa b OR 3) 1 2 0 P m (4096 # v))"
    "check_page_unmap b c (mid s D a b c (dir(0 := page2pa a OR 7)) (page2pa b OR 3) (page2pa b OR 3) 1 2 0 P m v) =
      Inr (mid s D a b c (dir(0 := page2pa a OR 7)) 0 0 1 0 0 P m (4096 # 4096 # 0 # v))"
    "take_back a (mid s D a b c (dir(0 := page2pa a OR 7)) 0 0 1 0 0 P m v) = Inr (mid s D a b c (dir(0 := 0)) 0 0 0 0 0 P m v)"
proof -
  note [simp] = trioD [OF t] info_simps [OF t] two_simps test_addrs present_lits no_mem_negative
    and ok = trioD(1) [OF t]
  note ev = step_defs tst_alloc [OF ok] tst_lookup [OF ok] tst_insert [OF ok] tst_free tst_remove [OF ok] tst_walk [OF ok]
    tst_load [OF ok] tst_va2pa [OF ok] tst_dir [OF ok] tst_dir0 [OF ok] tst_KADDR [OF ok] frame_of_or_low pte_addr_or page_or_and
    new_pde_eq or.assoc swap_ref_def drop_ref_def mid_def
  have k: "page2pa a + 4 = entry_pa a (Suc 0)" using kva_table [of a 1] by (simp add: add.commute)
  show "check_page_replace b c (mid s D a b c (dir(0 := page2pa a OR 7)) (page2pa b OR 3) (page2pa c OR 3) 1 1 1 P m v) =
      Inr (mid s D a b c (dir(0 := page2pa a OR 7)) (page2pa b OR 3) (page2pa b OR 3) 1 2 0 P m (4096 # v))"
    by (simp add: check_page_replace_def ev del: KERNBASE_def)
  show "check_page_unmap b c (mid s D a b c (dir(0 := page2pa a OR 7)) (page2pa b OR 3) (page2pa b OR 3) 1 2 0 P m v) =
      Inr (mid s D a b c (dir(0 := page2pa a OR 7)) 0 0 1 0 0 P m (4096 # 4096 # 0 # v))"
    by (simp add: check_page_unmap_def ev del: KERNBASE_def)
  show "take_back a (mid s D a b c (dir(0 := page2pa a OR 7)) 0 0 1 0 0 P m v) = Inr (mid s D a b c (dir(0 := 0)) 0 0 0 0 0 P m v)"
    by (simp add: take_back_def ev del: KERNBASE_def)
  assume "\<not> present (dir (Suc 0))"
  then show "check_page_perms a c (mid s D a b c (dir(0 := page2pa a OR 7)) (page2pa b OR 3) (page2pa c OR 3) 1 1 1 P m v) =
      Inr (mid s D a b c (dir(0 := page2pa a OR 7)) (page2pa b OR 3) (page2pa c OR 3) 1 1 1 P m (4096 # 4096 # v))"
    by (simp add: check_page_perms_def ev test_ptx k del: KERNBASE_def)
qed

lemma walk_tests_run:
  assumes t: "trio s D a b c" and d: "dir 0 = 0" "dir (Suc 0) = 0"
  shows "check_page_walk a (mid s D a b c dir 0 0 0 0 0 P m v) = Inr (mid s D a b c dir 0 0 0 0 0 P m v)"
    "check_page_zeroed a (mid s D a b c dir 0 0 0 0 0 P m v) = Inr (mid s D a b c dir 0 0 0 0 0 P m v)"
proof -
  note [simp] = trioD [OF t] info_simps [OF t] two_simps test_addrs present_lits
    and ok = trioD(1) [OF t]
  note ev = step_defs tst_alloc [OF ok] tst_free tst_walk [OF ok] tst_load [OF ok] tst_dir [OF ok] tst_dir0 [OF ok]
    tst_KADDR [OF ok] frame_of_or_low pte_addr_or new_pde_eq or.assoc mid_def d
  have k: "page2pa a + 4 = entry_pa a (Suc 0)" using kva_table [of a 1] by (simp add: add.commute)
  note z = two_zero
  have same: "dir(Suc 0 := 0) = dir" "dir(0 := 0) = dir" using d by auto
  have dir: "kload (tst s D a dir e P L m v) (pgdir_kva D + 4) = dir (Suc 0)"
    "kstore (tst s D a dir e P L m v) (pgdir_kva D + 4) x = tst s D a (dir(Suc 0 := x)) e P L m v" for dir e P L v x
    using tst_load(1) [OF ok, of 1] tst_store(1) [OF ok, of 1] unfolding kva_dir [of D 1, symmetric] by simp_all
  show "check_page_walk a (mid s D a b c dir 0 0 0 0 0 P m v) = Inr (mid s D a b c dir 0 0 0 0 0 P m v)"
    by (simp add: check_page_walk_def ev test_ptx k dir same z Let_def del: KERNBASE_def)
  have kv: "kv2p (page2pa a + KERNBASE) = page2pa a" by (rule kv2p_KADDR)
  have ld: "kload (tst s D a dir e P L m v) (page2pa a + KERNBASE + 4 * of_nat i) = e i" if "i < 1024" for dir e P L v i
    using tst_load(2) [OF ok that] unfolding kva_table .
  have all: "for_each (\<lambda>i s. assert_that (kload s (page2pa a + KERNBASE + 4 * of_nat i) AND 1 = 0) what s) [0..<1024] (tst s D a dir (\<lambda>_. 0) P L m v) =
      Inr (tst s D a dir (\<lambda>_. 0) P L m v)" for what dir P L v
    by (intro for_each_assert) (simp only: set_upt atLeastLessThan_iff ld, simp)
  have l0: "load32 (\<lambda>_. 0) 0 = 0" by (simp add: load32_def)
  show "check_page_zeroed a (mid s D a b c dir 0 0 0 0 0 P m v) = Inr (mid s D a b c dir 0 0 0 0 0 P m v)"
    by (simp add: check_page_zeroed_def ev kv tst_memset [OF ok] all [unfolded assert_that_def] same z Let_def l0 del: KERNBASE_def upt_rec_numeral)
qed

section \<open>The test succeeds\<close>

lemma tst_self: "D < 0x100000 \<Longrightarrow> a < 0x100000 \<Longrightarrow>
    tst s D a (entry s D) (entry s a) ((!) (pages s)) (page_free_list s) (mem s) (invlpg_log s) = s"
proof -
  assume "D < 0x100000" "a < 0x100000"
  then have "tab D (entry s D) (tab a (entry s a) (mem s)) = mem s" by (simp add: tab_same entry_def)
  then show ?thesis by (simp add: tst_def map_nth)
qed

definition tested :: "nat \<Rightarrow> nat \<Rightarrow> nat \<Rightarrow> 'z pmap_state_scheme \<Rightarrow> 'z pmap_state_scheme" where
  "tested a b c s = s\<lparr>mem := memset (mem s) (page2pa a) 0 PGSIZE,
     pages := (pages s)[a := \<lparr>pp_link = pp_link (pages s ! c), pp_ref = 0\<rparr>, b := \<lparr>pp_link = Some a, pp_ref = 0\<rparr>,
       c := \<lparr>pp_link = Some b, pp_ref = 0\<rparr>],
     page_free_list := Some c, invlpg_log := 4096 # 4096 # 0 # 4096 # 4096 # 4096 # 4096 # invlpg_log s\<rparr>"

lemma check_page_eq:
  assumes t: "trio s D a b c" and f: "free_pages s (a # b # c # rest)"
    and r: "pp_ref (pages s ! a) = 0" "pp_ref (pages s ! b) = 0" "pp_ref (pages s ! c) = 0"
    and d: "entry s D 0 = 0" "entry s D (Suc 0) = 0"
  shows "check_page s = Inr (cprintf (''check_page() succeeded!'' @ nl) [] (tested a b c s))"
proof -
  note ok = trioD(1) [OF t] and tr = trioD [OF t]
  let ?P = "(!) (pages s)" and ?N = "\<lparr>pp_link = None, pp_ref = 0 :: u16\<rparr>" and ?d = "entry s D" and ?v = "invlpg_log s"
  let ?st = "\<lambda>e P L v. tst s D a ?d e P L (mem s) v"
  have l: "page_free_list s = Some a" "pp_link (?P a) = Some b" "pp_link (?P b) = Some c"
    using f by (auto simp: free_pages_def page_link_def)
  have info0: "?P(a := (?P a)\<lparr>pp_link := None\<rparr>, b := (?P b)\<lparr>pp_link := None\<rparr>, c := (?P c)\<lparr>pp_link := None\<rparr>) = info ?P a b c ?N ?N ?N"
  proof -
    have "x\<lparr>pp_link := None\<rparr> = \<lparr>pp_link = None, pp_ref = pp_ref x\<rparr>" for x :: PageInfo by (cases x) simp
    then show ?thesis by (simp only: info_def r)
  qed
  have "alloc_three (?st (entry s a) ?P (Some a) ?v) = Inr ((a, b, c), ?st (entry s a) (info ?P a b c ?N ?N ?N) (pp_link (?P c)) ?v)"
    unfolding info0 [symmetric] using l(2,3) tr
    by (simp add: alloc_three_def assert_alloc_def assert_that_def tst_alloc(2) [OF ok])
  then have al: "alloc_three s = Inr ((a, b, c), ?st (entry s a) (info ?P a b c ?N ?N ?N) (pp_link (?P c)) ?v)"
    using tst_self [OF test_okD(6,7) [OF ok], of s, unfolded l(1)] by (simp only:)
  have np: "\<not> present (?d 0)" "\<not> present (?d (Suc 0))" by (simp_all add: d)
  have m: "check_page_map a b c (?st (entry s a) (info ?P a b c ?N ?N ?N) None v) =
      Inr (mid s D a b c (?d(0 := page2pa a OR 7)) (page2pa b OR 3) (page2pa c OR 3) 1 1 1 ?P (mem s) (4096 # v))" for v
    using check_page_map_runs [where dir = ?d, OF t np(1)] by (simp add: mid_def)
  have same: "?d(0 := 0) = ?d" using d by auto
  note runs = tests_run(1) [where dir = ?d, OF t np(2)] tests_run(2,3) [OF t] tests_run(4) [OF t, where dir = ?d, unfolded same]
    walk_tests_run [OF t d]
  let ?A = "\<lparr>pp_link = pp_link (?P c), pp_ref = 0 :: u16\<rparr>" and ?B = "\<lparr>pp_link = Some a, pp_ref = 0 :: u16\<rparr>" and ?C = "\<lparr>pp_link = Some b, pp_ref = 0 :: u16\<rparr>"
  let ?w = "4096 # 4096 # 0 # 4096 # 4096 # 4096 # 4096 # ?v"
  have fr: "free_three a b c (?st (two 0 0) (info ?P a b c ?N ?N ?N) (pp_link (?P c)) v) =
      Inr (?st (two 0 0) (info ?P a b c ?A ?B ?C) (Some c) v)" for v
    using tr info_simps [OF t] by (simp add: free_three_def tst_free)
  have "tab D ?d (tab a (\<lambda>_. 0) (mem s)) = memset (mem s) (page2pa a) 0 4096"
    using test_okD [OF ok] by (intro memory_eqI) (simp add: load_tab load32_zeroed_page entry_def)
  moreover have "map (info ?P a b c ?A ?B ?C) [0..<length (pages s)] = (pages s)[a := ?A, b := ?B, c := ?C]"
    unfolding info_def map_upt_update [symmetric] by (simp add: map_nth)
  ultimately have fin: "?st (two 0 0) (info ?P a b c ?A ?B ?C) (Some c) ?w = tested a b c s"
    by (simp add: tst_def tested_def two_zero)
  show ?thesis
    unfolding check_page_def al
    by (simp add: m runs Let_def) (simp add: mid_def fr fin)
qed

section \<open>The test of the installed directory succeeds\<close>

lemma tst_page_mem:
  assumes t: "trio s D a b c" and x: "x < 0x100000" "x \<noteq> D" "x \<noteq> a"
  shows "(tst s D a dir e P L m v)\<lparr>mem := memset (tab D dir (tab a e m)) (page2pa x) k 4096\<rparr> = tst s D a dir e P L (memset m (page2pa x) k 4096) v"
    "(tst s D a dir e P L m v)\<lparr>mem := store32 (tab D dir (tab a e m)) (page2pa x) w\<rparr> = tst s D a dir e P L (store32 m (page2pa x) w) v"
    "load32 (tab D dir (tab a e m)) (page2pa x) = load32 m (page2pa x)"
proof -
  note ok = test_okD [OF trioD(1) [OF t]]
  have z: "page2pa x = entry_pa x 0" by (simp add: page2pa_of_nat entry_pa_def)
  show "(tst s D a dir e P L m v)\<lparr>mem := memset (tab D dir (tab a e m)) (page2pa x) k 4096\<rparr> = tst s D a dir e P L (memset m (page2pa x) k 4096) v"
    using ok x by (simp add: tst_def tab_update(4) [of x 0])
  show "(tst s D a dir e P L m v)\<lparr>mem := store32 (tab D dir (tab a e m)) (page2pa x) w\<rparr> = tst s D a dir e P L (store32 m (page2pa x) w) v"
    using ok x unfolding z by (simp add: tst_def tab_update(2))
  show "load32 (tab D dir (tab a e m)) (page2pa x) = load32 m (page2pa x)"
    using x unfolding z by (simp add: load_tab)
qed

lemma tst_translate:
  assumes t: "trio s D a b c" and c: "cr3 s = page2pa D" and x: "x < 0x100000"
  shows "translate (tst s D a (dir(0 := page2pa a OR 7)) (two y (page2pa x OR 3)) P L m v) w 4096 = Some (page2pa x)"
proof -
  note ok = test_okD [OF trioD(1) [OF t]]
  have d: "page2pa D + 4 * PDX 4096 = entry_pa D 0" using entry_pa_PDX [OF ok(6), of 4096] test_addrs(2) by (simp add: pdx_def)
  have p: "page2pa a + 4 * PTX 4096 = entry_pa a (Suc 0)" using entry_pa_PTX [OF ok(7), of 4096] test_addrs(6) by (simp add: ptx_def)
  have "PGOFF 4096 = 0" by (rule word_eq_unatI) (simp add: unat_PGOFF)
  moreover have "PTE_ADDR (page2pa a OR 7) = page2pa a" "PTE_ADDR (page2pa x OR 3) = page2pa x"
    "(page2pa a OR 7) AND 1 = 1" "(page2pa a OR 7) AND 2 = 2" "(page2pa x OR 3) AND 1 = 1" "(page2pa x OR 3) AND 2 = 2"
    using ok(7) x by (simp_all add: pte_addr_or page_or_and)
  moreover have "cr3 (tst s D a dir' e' P L m v) = page2pa D" for dir' e' by (simp add: tst_def c)
  ultimately show ?thesis
    using ok(4,6,7) by (simp add: translate_def Let_def d p load_tab two_simps)
qed

definition installed_mem :: "nat \<Rightarrow> nat \<Rightarrow> memory \<Rightarrow> memory" where
  "installed_mem b c m = store32 (memset (memset m (page2pa b) 1 PGSIZE) (page2pa c) 2 PGSIZE) (page2pa c) 0x03030303"

lemma check_installed_run:
  assumes t: "trio s D a b c" and D: "b \<noteq> D" "c \<noteq> D" and cr: "cr3 s = page2pa D" and d: "dir 0 = 0"
  shows "check_installed_steps a b c (tst s D a dir e (info P a b c \<lparr>pp_link = None, pp_ref = 0\<rparr> \<lparr>pp_link = None, pp_ref = 0\<rparr> \<lparr>pp_link = None, pp_ref = 0\<rparr>) fl m v) =
    Inr (tst s D a dir (two 0 0) (info P a b c \<lparr>pp_link = Some c, pp_ref = 0\<rparr> \<lparr>pp_link = fl, pp_ref = 0\<rparr> \<lparr>pp_link = Some b, pp_ref = 0\<rparr>)
      (Some a) (installed_mem b c m) (4096 # 4096 # v))"
proof -
  note [simp] = trioD [OF t] info_simps [OF t] two_simps test_addrs present_lits
    and ok = trioD(1) [OF t]
  have kv: "page2kva (tst s D a dir e P L m v) x = Inr (page2pa x + KERNBASE)" if "x < length (pages s)" for x dir e P L m v
    using KADDR_page2pa [OF tst_wf [OF ok], of x] that by (simp add: page2kva_def)
  have kv2: "kv2p (page2pa x + KERNBASE) = page2pa x" for x by (rule kv2p_KADDR)
  note mm = tst_page_mem [OF t trioD(13) [OF t] D(1) trioD(5) [OF t]] tst_page_mem [OF t trioD(14) [OF t] D(2) trioD(7) [OF t]]
  note tr = tst_translate [OF t cr trioD(13) [OF t], where dir = dir] tst_translate [OF t cr trioD(14) [OF t], where dir = dir]
  have z: "page2pa x = entry_pa x 0" for x by (simp add: page2pa_of_nat entry_pa_def)
  have bytes: "load32 (\<lambda>_. 1) 0 = 0x01010101" "load32 (\<lambda>_. 2) 0 = 0x02020202" by (simp_all add: load32_def)
  have lb: "load32 (memset m (page2pa b) 1 4096) (page2pa b) = 0x01010101" "load32 (memset m (page2pa c) 2 4096) (page2pa c) = 0x02020202"
    "load32 (memset (memset m (page2pa b) 1 4096) (page2pa c) 2 4096) (page2pa b) = 0x01010101"
    "load32 (store32 m (page2pa c) w) (page2pa c) = w" for m w
    using trioD(8,9,13,14) [OF t] unfolding z [of b] z [of c]
    by (simp_all add: load_memset_page [unfolded z] load32_entry load32_store32_same bytes)
  have same: "dir(0 := 0) = dir" using d by auto
  have kl: "kload (tst s D a dir e P L m v) (page2pa c + KERNBASE) = load32 m (page2pa c)" for dir e P L m v
    using mm(6) unfolding kload_def kv2 by simp
  note ev = step_defs tst_alloc [OF ok] tst_free tst_remove [OF ok] tst_insert [OF ok] tst_dir0 [OF ok] fill_page_def insert_page_def
    word_at_def put_word_def take_back_def frame_of_or_low pte_addr_or new_pde_eq or.assoc swap_ref_def drop_ref_def kv kv2 mm tr lb kl same
  show ?thesis
    using d by (simp add: check_installed_steps_def ev installed_mem_def del: KERNBASE_def)
qed

definition tested_installed :: "nat \<Rightarrow> nat \<Rightarrow> nat \<Rightarrow> 'z pmap_state_scheme \<Rightarrow> 'z pmap_state_scheme" where
  "tested_installed a b c s = s\<lparr>mem := installed_mem b c (memset (mem s) (page2pa a) 0 PGSIZE),
     pages := (pages s)[a := \<lparr>pp_link = Some c, pp_ref = 0\<rparr>, b := \<lparr>pp_link = pp_link (pages s ! c), pp_ref = 0\<rparr>,
       c := \<lparr>pp_link = Some b, pp_ref = 0\<rparr>],
     page_free_list := Some a, invlpg_log := 4096 # 4096 # invlpg_log s\<rparr>"

lemma check_installed_eq:
  assumes t: "trio s D a b c" and D: "b \<noteq> D" "c \<noteq> D" and cr: "cr3 s = page2pa D" and f: "free_pages s (a # b # c # rest)"
    and r: "pp_ref (pages s ! a) = 0" "pp_ref (pages s ! b) = 0" "pp_ref (pages s ! c) = 0" and d: "entry s D 0 = 0"
  shows "check_page_installed_pgdir s = Inr (cprintf (''check_page_installed_pgdir() succeeded!'' @ nl) [] (tested_installed a b c s))"
proof -
  note ok = trioD(1) [OF t] and tr = trioD [OF t]
  let ?P = "(!) (pages s)" and ?N = "\<lparr>pp_link = None, pp_ref = 0 :: u16\<rparr>" and ?d = "entry s D" and ?v = "invlpg_log s"
  let ?st = "\<lambda>P L v. tst s D a ?d (entry s a) P L (mem s) v"
  have l: "page_free_list s = Some a" "pp_link (?P a) = Some b" "pp_link (?P b) = Some c"
    using f by (auto simp: free_pages_def page_link_def)
  define P1 where "P1 = ?P(a := (?P a)\<lparr>pp_link := None\<rparr>)"
  define P2 where "P2 = P1(b := (P1 b)\<lparr>pp_link := None\<rparr>)"
  define P3 where "P3 = P2(c := (P2 c)\<lparr>pp_link := None\<rparr>)"
  have P: "pp_link (P1 b) = Some c" "pp_link (P2 c) = pp_link (?P c)" using l tr by (simp_all add: P1_def P2_def)
  have info0: "P3 = info ?P a b c ?N ?N ?N"
  proof -
    have "x\<lparr>pp_link := None\<rparr> = \<lparr>pp_link = None, pp_ref = pp_ref x\<rparr>" for x :: PageInfo by (cases x) simp
    then show ?thesis using tr by (simp only: P3_def P2_def P1_def info_def r fun_upd_apply if_False simp_thms)
  qed
  have self: "s = ?st ?P (Some a) ?v" using tst_self [OF test_okD(6,7) [OF ok], of s, unfolded l(1)] by simp
  note al = tst_alloc(2) [OF ok]
  have a1: "assert_alloc w 0 s = Inr (a, ?st P1 (Some b) ?v)" for w
    by (subst (1) self) (simp add: assert_alloc_def al tr l P1_def)
  have a2: "assert_alloc w 0 (?st P1 (Some b) ?v) = Inr (b, ?st P2 (Some c) ?v)" for w
    using P by (simp add: assert_alloc_def al tr P2_def)
  have a3: "assert_alloc w 0 (?st P2 (Some c) ?v) = Inr (c, ?st P3 (pp_link (?P c)) ?v)" for w
    using P by (simp add: assert_alloc_def al tr P3_def)
  let ?A = "\<lparr>pp_link = Some c, pp_ref = 0 :: u16\<rparr>" and ?B = "\<lparr>pp_link = pp_link (?P c), pp_ref = 0 :: u16\<rparr>" and ?C = "\<lparr>pp_link = Some b, pp_ref = 0 :: u16\<rparr>"
  let ?w = "4096 # 4096 # ?v"
  have "tab D ?d (tab a (\<lambda>_. 0) (installed_mem b c (mem s))) = installed_mem b c (memset (mem s) (page2pa a) 0 4096)"
  proof (rule memory_eqI)
    fix g j :: nat
    assume g: "g < 0x100000" "j < 1024"
    have z: "page2pa c = entry_pa c 0" by (simp add: page2pa_of_nat entry_pa_def)
    show "load32 (tab D ?d (tab a (\<lambda>_. 0) (installed_mem b c (mem s)))) (entry_pa g j) =
      load32 (installed_mem b c (memset (mem s) (page2pa a) 0 4096)) (entry_pa g j)"
      using tr D test_okD [OF ok] g
      by (auto simp: installed_mem_def load_tab load_memset_page load32_entry [of c 0, folded z] load32_zeroed_page load32_def [of "\<lambda>_. 0"] entry_def)
  qed
  moreover have "map (info ?P a b c ?A ?B ?C) [0..<length (pages s)] = (pages s)[a := ?A, b := ?B, c := ?C]"
    unfolding info_def map_upt_update [symmetric] by (simp add: map_nth)
  ultimately have fin: "tst s D a ?d (two 0 0) (info ?P a b c ?A ?B ?C) (Some a) (installed_mem b c (mem s)) ?w = tested_installed a b c s"
    by (simp add: tst_def tested_installed_def two_zero)
  show ?thesis
    unfolding check_page_installed_pgdir_def a1 a2 a3 bindr_Inr prod.case info0 check_installed_run [where dir = ?d, OF t D cr d] fin ..
qed

text \<open>What both tests leave as it was.\<close>

lemma test_leaves:
  assumes wf: "pt_wf s D (a # b # c # rest)"
    and m: "\<And>g j. g < 0x100000 \<Longrightarrow> j < 1024 \<Longrightarrow> g \<notin> {a, b, c} \<Longrightarrow> entry t g j = entry s g j"
    and n: "npages t = npages s" and len: "length (pages t) = length (pages s)" and f: "free_pages t ys" "set ys = set (a # b # c # rest)"
  shows "pt_wf t D ys" "pdx va \<in> slots \<Longrightarrow> pt_entry t D va = pt_entry s D va"
proof -
  have D: "D \<notin> {a, b, c}" "D < 0x100000" using pt_wfD(4,5) [OF wf] pt_wf_bound [OF wf, of D] by auto
  have ta: "table_at t D d = table_at s D d" if "d < 1024" for d
    using m [OF D(2) that D(1)] by (simp add: table_at_def)
  show "pt_wf t D ys"
    using wf f ta slots_less unfolding pt_wf_def pages_wf_def n len by auto
  show "pt_entry t D va = pt_entry s D va" if "pdx va \<in> slots"
  proof (cases "table_at s D (pdx va)")
    case (Some g)
    from pt_wf_table [OF wf that Some] pt_wf_bound [OF wf, of g] have "g \<notin> {a, b, c}" "g < 0x100000" by auto
    then show ?thesis using Some m by (simp add: pt_entry_def ta)
  qed (simp add: pt_entry_def ta)
qed

lemma trioI:
  assumes wf: "pt_wf s D (a # b # c # rest)" and n: "unat (npages s) < 0x10000" and K: "kern_pgdir s = pgdir_kva D"
  shows "trio s D a b c" "b \<noteq> D" "c \<noteq> D" "free_pages s (a # b # c # rest)"
proof -
  show f: "free_pages s (a # b # c # rest)" by (rule pt_wfD(3) [OF wf])
  have "distinct (a # b # c # rest)" "{a, b, c} \<subseteq> {..<length (pages s)}"
    using free_pages_distinct [OF f] f by (auto simp: free_pages_def page_cap_def)
  moreover have "D \<notin> {a, b, c}" "D < length (pages s)" "pages_wf s" using pt_wfD(1,4,5) [OF wf] by auto
  ultimately show "trio s D a b c" "b \<noteq> D" "c \<noteq> D" using n K by (auto simp: trio_def test_ok_def)
qed

lemma free_after_test:
  assumes "free_pages s (a # b # c # rest)" "length (pages t) = length (pages s)" "page_free_list t = Some x"
    and "page_link t x = Some y" "page_link t y = Some z" "page_link t z = page_link s c" "{x, y, z} = {a, b, c}"
    and "\<And>i. i \<notin> {a, b, c} \<Longrightarrow> page_link t i = page_link s i"
  shows "free_pages t (x # y # z # rest)"
proof -
  have "distinct (a # b # c # rest)" using assms(1) by (rule free_pages_distinct)
  then have "page_link t i = page_link s i" if "i \<in> set rest" for i using that by (intro assms(8)) auto
  then have "chain (page_link t) p rest = chain (page_link s) p rest" for p by (rule chain_cong)
  moreover have "set (x # y # z # rest) \<subseteq> {..<length (pages s)}"
    using assms(1,7) by (auto simp: free_pages_def page_cap_def)
  ultimately show ?thesis using assms(1-6) by (auto simp: free_pages_def page_cap_def)
qed

lemma tested_ok:
  assumes wf: "pt_wf s D (a # b # c # rest)" and n: "unat (npages s) < 0x10000" and K: "kern_pgdir s = pgdir_kva D"
  shows "pt_wf (tested a b c s) D (c # b # a # rest)" "pt_wf (tested_installed a b c s) D (a # c # b # rest)"
    "pdx va \<in> slots \<Longrightarrow> pt_entry (tested a b c s) D va = pt_entry s D va"
    "pdx va \<in> slots \<Longrightarrow> pt_entry (tested_installed a b c s) D va = pt_entry s D va"
proof -
  note t = trioI [OF wf n K]
  note tr = trioD [OF t(1)]
  have z: "page2pa c = entry_pa c 0" by (simp add: page2pa_of_nat entry_pa_def)
  have m1: "entry (tested a b c s) g j = entry s g j" if "g < 0x100000" "j < 1024" "g \<notin> {a, b, c}" for g j
    using that tr by (simp add: tested_def entry_def load32_zeroed_page)
  have m2: "entry (tested_installed a b c s) g j = entry s g j" if "g < 0x100000" "j < 1024" "g \<notin> {a, b, c}" for g j
    using that tr by (simp add: tested_installed_def installed_mem_def entry_def load_memset_page load32_entry [of c 0, folded z])
  have f1: "free_pages (tested a b c s) (c # b # a # rest)"
    by (rule free_after_test [OF t(4)]) (use tr in \<open>auto simp: tested_def page_link_def nth_list_update\<close>)
  have f2: "free_pages (tested_installed a b c s) (a # c # b # rest)"
    by (rule free_after_test [OF t(4)]) (use tr in \<open>auto simp: tested_installed_def page_link_def nth_list_update\<close>)
  note l1 = test_leaves [where t = "tested a b c s", OF wf m1 _ _ f1] and l2 = test_leaves [where t = "tested_installed a b c s", OF wf m2 _ _ f2]
  show "pt_wf (tested a b c s) D (c # b # a # rest)" by (rule l1(1)) (auto simp: tested_def)
  show "pt_wf (tested_installed a b c s) D (a # c # b # rest)" by (rule l2(1)) (auto simp: tested_installed_def)
  show "pdx va \<in> slots \<Longrightarrow> pt_entry (tested a b c s) D va = pt_entry s D va" by (rule l1(2)) (auto simp: tested_def)
  show "pdx va \<in> slots \<Longrightarrow> pt_entry (tested_installed a b c s) D va = pt_entry s D va" by (rule l2(2)) (auto simp: tested_installed_def)
qed

lemma tested_rest: "same_rest s (tested a b c s)" "same_rest s (tested_installed a b c s)"
  by (simp_all add: same_rest_def tested_def tested_installed_def)

text \<open>C25: \<open>check_page\<close>, the kernel's own test of its page tables, passes: with a directory that maps nothing in its
  first two slots and three free pages it runs through all its assertions without a panic, and afterwards every
  address is mapped as before, every page has the count it had, the same pages are free, and memory
  differs in the first of them only, which was a page table for a while.\<close>

theorem check_page_succeeds:
  assumes "pt_wf s D (a # b # c # rest)" "unat (npages s) < 0x10000" "kern_pgdir s = pgdir_kva D"
    and "\<And>i. i \<in> {a, b, c} \<Longrightarrow> pp_ref (pages s ! i) = 0" and "entry s D 0 = 0" "entry s D 1 = 0"
  shows "\<exists>t. check_page s = Inr (cprintf (''check_page() succeeded!'' @ nl) [] t) \<and> pt_wf t D (c # b # a # rest) \<and>
    (\<forall>va. pdx va \<in> slots \<longrightarrow> pt_entry t D va = pt_entry s D va) \<and> mem t = memset (mem s) (page2pa a) 0 PGSIZE \<and>
    (\<forall>i. pp_ref (pages t ! i) = pp_ref (pages s ! i)) \<and> same_rest s t"
proof -
  note t = trioI [OF assms(1-3)]
  have "check_page s = Inr (cprintf (''check_page() succeeded!'' @ nl) [] (tested a b c s))"
    using assms(4-6) by (intro check_page_eq [OF t(1,4)]) simp_all
  moreover have "pp_ref (pages (tested a b c s) ! i) = pp_ref (pages s ! i)" for i
    using assms(4) trioD [OF t(1)] by (simp add: tested_def nth_list_update)
  moreover have "mem (tested a b c s) = memset (mem s) (page2pa a) 0 PGSIZE" "same_rest s (tested a b c s)"
    by (simp add: tested_def, rule tested_rest)
  ultimately show ?thesis using tested_ok [OF assms(1-3)] by metis
qed

theorem check_page_succeeds_witness:
  "\<exists>t. check_page boot_machine = Inr (cprintf (''check_page() succeeded!'' @ nl) [] t) \<and> pt_wf t 75 (67 # 68 # 69 # rev [0..<67])"
proof -
  have l: "rev [0..<70] = 69 # 68 # 67 # rev [0..<67]" by code_simp
  have wf: "pt_wf boot_machine 75 (69 # 68 # 67 # rev [0..<67])" using boot_machine_wf(1) unfolding l .
  have e: "entry boot_machine 75 0 = 0" "entry boot_machine 75 1 = 0" "kern_pgdir boot_machine = pgdir_kva 75"
    using boot_machine_wf(2) by (simp_all add: fresh_pgdir_def pdx_def unat_PDX)
  have r: "pp_ref (pages boot_machine ! i) = 0" if "i \<in> {69, 68, 67}" for i using that by (auto simp: boot_machine_def)
  have n: "unat (npages boot_machine) < 0x10000" by (simp add: boot_machine_def)
  show ?thesis using check_page_succeeds [OF wf n e(3) r e(1,2)] by blast
qed

end
