(* ===== verification/Mem_Start.thy ===== *)
theory Mem_Start
  imports Mem_Init Check_Page
begin

text \<open>
  All of \<open>mem_init\<close> of \<open>kern/pmap.c\<close>, its self tests included: \<open>Mem_Init\<close> and \<open>Kern_Map\<close> have its two halves,
  \<open>Check_Free\<close>, \<open>Check_Page\<close> and \<open>Kern_Map\<close> the tests. Shown here: on a machine with enough memory
  it runs to its end without a panic. The tests leave the address space and the set of free pages
  alone, so what holds afterwards is what the two halves establish.
\<close>

section \<open>The operation\<close>

text \<open>What \<open>mem_init\<close> finds: the clock chip's memory, the symbols \<open>end\<close> and \<open>bootstack\<close>, \<open>%cr0\<close>, what the memory
  of the arrays holds, and what the uninitialised variables of \<open>check_page_free_list\<close> hold.\<close>

record boot_data =
  cmos_ram :: "u32 \<Rightarrow> u8"
  kernel_end :: u32
  boot_stack :: u32
  rcr0 :: u32
  old_pages :: "nat \<Rightarrow> PageInfo"
  old_envs :: "nat \<Rightarrow> Env"
  junk_vars :: "nat \<Rightarrow> nat option"

definition CR0_PE :: u32 where [simp]: "CR0_PE = 0x00000001"
definition CR0_MP :: u32 where [simp]: "CR0_MP = 0x00000002"
definition CR0_EM :: u32 where [simp]: "CR0_EM = 0x00000004"
definition CR0_TS :: u32 where [simp]: "CR0_TS = 0x00000008"
definition CR0_NE :: u32 where [simp]: "CR0_NE = 0x00000020"
definition CR0_WP :: u32 where [simp]: "CR0_WP = 0x00010000"
definition CR0_AM :: u32 where [simp]: "CR0_AM = 0x00040000"
definition CR0_PG :: u32 where [simp]: "CR0_PG = 0x80000000"

text \<open>The value written to \<open>%cr0\<close>.\<close>

definition new_cr0 :: "u32 \<Rightarrow> u32" where
  "new_cr0 cr0 =
     (let cr0 = cr0 OR (CR0_PE OR CR0_PG OR CR0_AM OR CR0_WP OR CR0_NE OR CR0_MP)
      in cr0 AND NOT (CR0_TS OR CR0_EM))"

text \<open>The result is the kernel address of \<open>envs\<close>, the value of \<open>%cr0\<close> and the state.\<close>

definition mem_init :: "boot_data \<Rightarrow> 'z env_state_scheme \<Rightarrow> (fault + u32 \<times> u32 \<times> 'z env_state_scheme) option" where
  "mem_init b s =
     bindo (Some (mem_init_alloc (cmos_ram b) (kernel_end b) (old_pages b) (old_envs b) s)) (\<lambda>(pages_kva, envs_kva, s).
     bindo (check_page_free_list (kernel_end b) (junk_vars b) True s) (\<lambda>s.
     bindo (check_page_alloc pages_kva s) (\<lambda>s.
     bindo (Some (check_page s)) (\<lambda>s.
     bindo (map_kernel pages_kva envs_kva (boot_stack b) s) (\<lambda>s.
     bindo (check_kern_pgdir pages_kva envs_kva (boot_stack b) s) (\<lambda>s.
     bindo (Some (PADDR (kern_pgdir s))) (\<lambda>pa.
     let s = s\<lparr>cr3 := pa\<rparr> in
     bindo (check_page_free_list (kernel_end b) (junk_vars b) False s) (\<lambda>s.
     bindo (Some (check_page_installed_pgdir s)) (\<lambda>s.
     Some (Inr (envs_kva, new_cr0 (rcr0 b), s)))))))))))"

section \<open>What the tests leave alone\<close>

text \<open>The free pages are \<open>xs\<close> before and, in some order, \<open>ys\<close> after; memory differs in them only.\<close>

definition calm :: "'z env_state_scheme \<Rightarrow> 'z env_state_scheme \<Rightarrow> nat list \<Rightarrow> nat list \<Rightarrow> bool" where
  "calm s t xs ys \<longleftrightarrow> free_pages t ys \<and> set ys = set xs \<and> npages t = npages s \<and> length (pages t) = length (pages s) \<and>
     kern_pgdir t = kern_pgdir s \<and> cr3 t = cr3 s \<and> nextfree t = nextfree s \<and> envs t = envs s \<and> same_machine s t \<and>
     (\<forall>i < length (pages s). pp_ref (pages t ! i) = pp_ref (pages s ! i)) \<and>
     (\<forall>a. unat a div 4096 \<notin> set xs \<longrightarrow> mem t a = mem s a)"

lemma calmD:
  assumes "calm s t xs ys"
  shows "free_pages t ys" "set ys = set xs" "npages t = npages s" "length (pages t) = length (pages s)"
    "kern_pgdir t = kern_pgdir s" "cr3 t = cr3 s" "nextfree t = nextfree s" "envs t = envs s" "same_machine s t"
    "i < length (pages s) \<Longrightarrow> pp_ref (pages t ! i) = pp_ref (pages s ! i)"
    "unat a div 4096 \<notin> set xs \<Longrightarrow> mem t a = mem s a"
  using assms by (simp_all add: calm_def)

lemma calm_entries:
  assumes "calm s t xs ys" "g < 0x100000" "j < 1024" "g \<notin> set xs"
  shows "entry t g j = entry s g j"
  using assms by (intro entry_frame) (auto simp: calm_def)

text \<open>So page tables, which are not free, are as before.\<close>

lemma calm_tables:
  assumes q: "calm s t xs ys" and wf: "pt_wf s D xs"
  shows "pt_wf t D ys" "e < 1024 \<Longrightarrow> entry t D e = entry s D e" "pdx va \<in> slots \<Longrightarrow> pt_entry t D va = pt_entry s D va"
    "tables t D = tables s D"
proof -
  have D: "D < 0x100000" "D \<notin> set xs" using pt_wf_bound [OF wf pt_wfD(4) [OF wf]] pt_wfD(5) [OF wf] by simp_all
  show e: "entry t D e = entry s D e" if "e < 1024" for e by (rule calm_entries [OF q D(1) that D(2)])
  then have ta: "table_at t D d = table_at s D d" if "d < 1024" for d using that by (simp add: table_at_def)
  note q' = calmD [OF q]
  show "pt_wf t D ys"
    using wf q'(1-4) ta slots_less unfolding pt_wf_def pages_wf_def by auto
  show "tables t D = tables s D" using ta slots_less by (auto simp: tables_def)
  show "pt_entry t D va = pt_entry s D va" if d: "pdx va \<in> slots"
  proof (cases "table_at s D (pdx va)")
    case (Some g)
    from pt_wf_table [OF wf d Some] pt_wf_bound [OF wf, of g] have "g < 0x100000" "g \<notin> set xs" by auto
    then show ?thesis using Some calm_entries [OF q] by (simp add: pt_entry_def ta)
  qed (simp add: pt_entry_def ta)
qed

lemma calm_fresh: "calm s t xs ys \<Longrightarrow> pt_wf s D xs \<Longrightarrow> fresh_pgdir s D \<Longrightarrow> fresh_pgdir t D"
  using calm_tables(2) calmD(5) unfolding fresh_pgdir_def by metis

lemma calm_unused:
  assumes "calm s t xs ys" "free_pages s xs" "\<forall>g \<in> set xs. pp_ref (pages s ! g) = 0"
  shows "\<forall>g \<in> set ys. pp_ref (pages t ! g) = 0"
  using assms calmD(2,10) [OF assms(1)] by (auto simp: free_pages_def page_cap_def)

lemma calm_trans: "calm s t xs ys \<Longrightarrow> calm t u ys zs \<Longrightarrow> calm s u xs zs"
  unfolding calm_def by (auto intro: same_machine_trans)

lemma free_pages_cprintf: "free_pages (cprintf f a t) xs = free_pages t xs"
proof -
  have "page_link (cprintf f a t) = page_link t" by (simp add: page_link_def cprintf_def fun_eq_iff)
  then show ?thesis by (simp add: free_pages_def page_cap_def cprintf_def)
qed

lemma calm_cprintf: "calm s t xs ys \<Longrightarrow> calm s (cprintf f a t) xs ys"
  by (simp add: calm_def free_pages_cprintf) (simp add: cprintf_def same_machine_def)

section \<open>Each test\<close>

lemma calm_free_list:
  assumes wf: "pages_wf s" and free: "free_pages s xs" and nf: "nextfree s \<noteq> 0" and ok: "xs \<noteq> []" "free_list_ok (nextfree s) xs"
  obtains t ys where "check_page_free_list kend junk low s = Some (Inr (cprintf (''check_page_free_list() succeeded!'' @ nl) [] t))"
    "calm s t xs ys" "console t = console s"
proof -
  let ?ys = "low_first low xs"
  obtain l where l: "check_page_free_list kend junk low s = Some (Inr (cprintf (''check_page_free_list() succeeded!'' @ nl) []
      (with_links s (head_of ?ys) l (spoiled {p \<in> set xs. low \<longrightarrow> p < 1024} (mem s)))))"
    "free_pages (with_links s (head_of ?ys) l (spoiled {p \<in> set xs. low \<longrightarrow> p < 1024} (mem s))) ?ys"
    using check_page_free_list_spec [OF assms(1-3), of kend junk low] ok by auto
  let ?t = "with_links s (head_of ?ys) l (spoiled {p \<in> set xs. low \<longrightarrow> p < 1024} (mem s))"
  have "mem ?t a = mem s a" if a: "unat a div 4096 \<notin> set xs" for a
  proof -
    have "\<not> unat (a - page2pa p) < 128" if p: "p \<in> set xs" for p
    proof -
      have b: "p < 0x100000" using free p pages_wf_bound [OF wf, of p] by (auto simp: free_pages_def page_cap_def)
      have "unat a div 4096 \<noteq> p" using a p by auto
      from outside_page [OF b this] show ?thesis by simp
    qed
    then show ?thesis by (auto simp: spoiled_def)
  qed
  moreover have "kern_pgdir ?t = kern_pgdir s" "cr3 ?t = cr3 s" "envs ?t = envs s" "same_machine s ?t" "console ?t = console s"
    by (simp_all add: with_links_def same_machine_def)
  ultimately have "calm s ?t xs ?ys" using l(2) by (simp add: calm_def)
  with l(1) that show thesis by (simp add: with_links_def)
qed

lemma calm_alloc:
  assumes "pages_wf s" "unat (npages s) < 0x100000" "free_pages s (a # b # c # rest)" "pages_kva \<noteq> 0"
  obtains t where "check_page_alloc pages_kva s = Some (Inr (cprintf (''check_page_alloc() succeeded!'' @ nl) [] t))"
    "calm s t (a # b # c # rest) (a # b # c # rest)" "console t = console s"
proof -
  let ?t = "s\<lparr>mem := memset (mem s) (page2pa c) 0 PGSIZE\<rparr>"
  have c: "c < 0x100000" using assms(3) pages_wf_bound [OF assms(1), of c] by (auto simp: free_pages_def page_cap_def)
  have "mem ?t x = mem s x" if "unat x div 4096 \<notin> set (a # b # c # rest)" for x
    using c that by (simp add: zeroed_frame)
  then have "calm s ?t (a # b # c # rest) (a # b # c # rest)"
    using assms(3) by (simp add: calm_def free_pages_mem same_machine_def)
  with check_page_alloc_eq [OF assms] that show thesis by simp
qed

lemma calm_page:
  assumes wf: "pt_wf s D (a # b # c # rest)" and n: "unat (npages s) < 0x10000" and K: "kern_pgdir s = pgdir_kva D"
    and r: "\<forall>i \<in> {a, b, c}. pp_ref (pages s ! i) = 0" and d: "entry s D 0 = 0" "entry s D (Suc 0) = 0"
  obtains t where "check_page s = Inr (cprintf (''check_page() succeeded!'' @ nl) [] t)"
    "calm s t (a # b # c # rest) (c # b # a # rest)" "console t = console s"
proof -
  note t = trioI [OF wf n K]
  note tr = trioD [OF t(1)]
  let ?t = "tested a b c s"
  have "mem ?t x = mem s x" if "unat x div 4096 \<notin> set (a # b # c # rest)" for x
    using tr that by (simp add: tested_def zeroed_frame)
  moreover have "pp_ref (pages ?t ! i) = pp_ref (pages s ! i)" for i
    using r tr by (auto simp: tested_def nth_list_update)
  moreover have "free_pages ?t (c # b # a # rest)" by (rule pt_wfD(3) [OF tested_ok(1) [OF wf n K]])
  moreover have "npages ?t = npages s" "length (pages ?t) = length (pages s)" "kern_pgdir ?t = kern_pgdir s" "cr3 ?t = cr3 s"
    "nextfree ?t = nextfree s" "envs ?t = envs s" "same_machine s ?t" "console ?t = console s"
    by (simp_all add: tested_def same_machine_def)
  ultimately have "calm s ?t (a # b # c # rest) (c # b # a # rest)" "console ?t = console s" by (auto simp: calm_def)
  with check_page_eq [OF t(1,4) _ _ _ d] r that show thesis by simp
qed

lemma calm_installed:
  assumes wf: "pt_wf s D (a # b # c # rest)" and n: "unat (npages s) < 0x10000" and K: "kern_pgdir s = pgdir_kva D"
    and cr: "cr3 s = page2pa D" and r: "\<forall>i \<in> {a, b, c}. pp_ref (pages s ! i) = 0" and d: "entry s D 0 = 0"
  obtains t where "check_page_installed_pgdir s = Inr (cprintf (''check_page_installed_pgdir() succeeded!'' @ nl) [] t)"
    "calm s t (a # b # c # rest) (a # c # b # rest)" "console t = console s"
proof -
  note t = trioI [OF wf n K]
  note tr = trioD [OF t(1)]
  let ?t = "tested_installed a b c s"
  have z: "page2pa c = entry_pa c 0" by (simp add: page2pa_of_nat entry_pa_def)
  have "mem ?t x = mem s x" if "unat x div 4096 \<notin> set (a # b # c # rest)" for x
    using tr that by (simp add: tested_installed_def installed_mem_def memset_in_page zeroed_frame store32_frame [of c 0, folded z])
  moreover have "pp_ref (pages ?t ! i) = pp_ref (pages s ! i)" for i
    using r tr by (auto simp: tested_installed_def nth_list_update)
  moreover have "free_pages ?t (a # c # b # rest)" by (rule pt_wfD(3) [OF tested_ok(2) [OF wf n K]])
  moreover have "npages ?t = npages s" "length (pages ?t) = length (pages s)" "kern_pgdir ?t = kern_pgdir s" "cr3 ?t = cr3 s"
    "nextfree ?t = nextfree s" "envs ?t = envs s" "same_machine s ?t" "console ?t = console s"
    by (simp_all add: tested_installed_def same_machine_def)
  ultimately have "calm s ?t (a # b # c # rest) (a # c # b # rest)" "console ?t = console s" by (auto simp: calm_def)
  with check_installed_eq [OF t(1-3) cr t(4) _ _ _ d] r that show thesis by simp
qed

section \<open>Enough free pages\<close>

definition usable :: "nat \<Rightarrow> nat \<Rightarrow> nat set" where
  "usable k n = {i. 0 < i \<and> i < 160 \<or> first_free k n \<le> i \<and> i < n}"

text \<open>A machine on which \<open>mem_init\<close> runs: the kernel ends before page \<open>k\<close>, there are \<open>n\<close> pages, and behind the
  arrays more of them than the kernel's page tables take.\<close>

definition enough :: "nat \<Rightarrow> nat \<Rightarrow> bool" where
  "enough k n \<longleftrightarrow> 256 \<le> k \<and> first_free k n + 67 < n \<and> n < 0x10000"

lemma usable_list:
  assumes "enough k n"
  shows "set (rev (filter (page_usable (kpage (first_free k n))) [0..<n])) = usable k n"
    "g \<in> usable k n \<Longrightarrow> page_usable (kpage (first_free k n)) g \<and> g < n"
proof -
  let ?F = "first_free k n"
  have F: "256 \<le> ?F" "?F < n" "n < 0x10000" using assms by (simp_all add: enough_def first_free_def)
  have "kpage ?F - KERNBASE = of_nat (4096 * ?F)" by (simp add: kpage_def)
  then have u: "unat ((kpage ?F - KERNBASE) div PGSIZE) = ?F"
    using unat_of_nat_u32 [of "4096 * ?F"] F by (simp add: unat_div)
  have p: "page_usable (kpage ?F) i \<longleftrightarrow> 0 < i \<and> i < 160 \<or> ?F \<le> i" for i
    using F(1) unfolding page_usable_def u by linarith
  have "160 < n" using F by simp
  then have "i < n \<and> (0 < i \<and> i < 160 \<or> ?F \<le> i) \<longleftrightarrow> 0 < i \<and> i < 160 \<or> ?F \<le> i \<and> i < n" for i by linarith
  then show s: "set (rev (filter (page_usable (kpage ?F)) [0..<n])) = usable k n"
    unfolding usable_def set_rev set_filter p by simp
  show "g \<in> usable k n \<Longrightarrow> page_usable (kpage ?F) g \<and> g < n"
    unfolding s [symmetric] by simp
qed

lemma drop_meets:
  assumes "distinct xs" "A \<subseteq> set xs" "j < card A"
  shows "\<exists>p \<in> A. p \<in> set (drop j xs)"
proof (rule ccontr)
  assume n: "\<not> ?thesis"
  have "set xs = set (take j xs) \<union> set (drop j xs)" by (metis append_take_drop_id set_append)
  with n assms(2) have "A \<subseteq> set (take j xs)" by blast
  from card_mono [OF _ this] have "card A \<le> card (set (take j xs))" by simp
  also have "\<dots> \<le> length (take j xs)" by (rule card_length)
  finally show False using assms(3) by simp
qed

lemma drop_range:
  assumes "distinct xs" "\<And>i. lo \<le> i \<Longrightarrow> i < hi \<Longrightarrow> i \<in> set xs" "j < hi - lo"
  shows "\<exists>p. lo \<le> p \<and> p < hi \<and> p \<in> set (drop j xs)"
  using drop_meets [OF assms(1), of "{lo..<hi}" j] assms(2,3) by fastforce

text \<open>Free lists that are long enough pass the test.\<close>

lemma usable_drop_ok:
  assumes e: "enough k n" and xs: "distinct xs" "set xs = usable k n" and j: "j \<le> 67"
  shows "free_list_ok (kpage (first_free k n)) (drop j xs)" "3 \<le> length (drop j xs)" "67 \<le> length xs"
proof -
  let ?F = "first_free k n"
  have F: "281 \<le> ?F" "?F + 67 < n" "n < 0x10000" using e by (simp_all add: enough_def first_free_def)
  have jn: "j < n - ?F" using F j by linarith
  obtain p q where "p < 160" "p \<in> set (drop j xs)" "?F \<le> q" "q \<in> set (drop j xs)"
    using drop_range [OF xs(1), of 1 160 j] drop_range [OF xs(1) _ jn] xs(2) j by (auto simp: usable_def)
  moreover from this have "p < 256" "256 \<le> q" using F(1) by simp_all
  ultimately have ex: "\<exists>p \<in> set (drop j xs). p < 256" "\<exists>p \<in> set (drop j xs). 256 \<le> p" by blast+
  have "free_page_ok (kpage ?F) p" if "p \<in> set (drop j xs)" for p
  proof -
    have p: "p \<in> usable k n" using in_set_dropD [OF that] xs(2) by simp
    have "kpage ?F \<le> page2pa p + KERNBASE" if "\<not> p < 256"
    proof -
      have l: "?F \<le> p" "p < 0x10000" using p that F by (auto simp: usable_def)
      have "page2pa p + KERNBASE = kpage p" by (simp add: kpage_pgdir pgdir_kva_def)
      then show ?thesis using l F by (simp add: word_le_nat_alt unat_kpage)
    qed
    moreover have "p \<notin> {0, 160, 255, 256}" using p F by (auto simp: usable_def)
    ultimately show ?thesis by (auto simp: free_page_ok_def)
  qed
  with ex show "free_list_ok (kpage ?F) (drop j xs)" by (simp add: free_list_ok_def)
  have "{?F - (?F - 1)..<160} \<subseteq> set xs" using F(1) unfolding xs(2) usable_def by auto
  from card_mono [OF _ this] card_length [of xs] have "159 \<le> length xs" using F(1) by simp
  then show "3 \<le> length (drop j xs)" "67 \<le> length xs" using j by simp_all
qed

lemma three_free: "3 \<le> length xs \<Longrightarrow> \<exists>a b c rest. xs = a # b # c # rest"
  by (auto simp: numeral_3_eq_3 Suc_le_length_iff)

section \<open>The tests in their places\<close>

text \<open>Before the mappings.\<close>

lemma tests_before:
  assumes e: "enough k n" and wf: "pt_wf s k xs" and fresh: "fresh_pgdir s k" and n: "unat (npages s) = n"
    and nf: "nextfree s = kpage (first_free k n)" and xs: "set xs = usable k n" and r: "\<forall>g \<in> set xs. pp_ref (pages s ! g) = 0"
    and p: "pages_kva \<noteq> 0"
  obtains t ys where
    "\<And>Q. bindo (check_page_free_list kend junk True s) (\<lambda>s. bindo (check_page_alloc pages_kva s) (\<lambda>s. bindo (Some (check_page s)) Q)) = Q t"
    "calm s t xs ys" "console t = map (\<lambda>m. Message (m @ nl) [])
      [''check_page() succeeded!'', ''check_page_alloc() succeeded!'', ''check_page_free_list() succeeded!''] @ console s"
proof -
  have F: "first_free k n < 0x10000" "n < 0x10000" using e by (simp_all add: enough_def)
  note d = free_pages_distinct [OF pt_wfD(3) [OF wf]]
  note ok = usable_drop_ok [OF e d xs, of 0, simplified]
  have z: "nextfree s \<noteq> 0" "xs \<noteq> []" using ok(3) kpage_nonzero [OF F(1)] nf by auto
  obtain t1 ys where t1: "check_page_free_list kend junk True s = Some (Inr (cprintf (''check_page_free_list() succeeded!'' @ nl) [] t1))"
    "calm s t1 xs ys" "console t1 = console s"
    using calm_free_list [OF pt_wfD(1,3) [OF wf] z] ok(1) nf by metis
  define u1 where "u1 = cprintf (''check_page_free_list() succeeded!'' @ nl) [] t1"
  have q1: "calm s u1 xs ys" using calm_cprintf [OF t1(2)] by (simp add: u1_def)
  note w1 = calm_tables [OF q1 wf]
  have "length ys = length xs"
    using d free_pages_distinct [OF calmD(1) [OF q1]] calmD(2) [OF q1] by (metis distinct_card)
  then obtain a b c rest where ys: "ys = a # b # c # rest" using three_free [of ys] ok(3) by auto
  have n1: "unat (npages u1) < 0x100000" using calmD(3) [OF q1] n F by simp
  obtain t2 where t2: "check_page_alloc pages_kva u1 = Some (Inr (cprintf (''check_page_alloc() succeeded!'' @ nl) [] t2))"
    "calm u1 t2 ys ys" "console t2 = console u1"
    using calm_alloc [OF pt_wfD(1) [OF w1(1)] n1 pt_wfD(3) [OF w1(1), unfolded ys] p] unfolding ys by metis
  define u2 where "u2 = cprintf (''check_page_alloc() succeeded!'' @ nl) [] t2"
  have q2: "calm u1 u2 ys ys" using calm_cprintf [OF t2(2)] by (simp add: u2_def)
  note w2 = calm_tables [OF q2 w1(1)]
  have n2: "unat (npages u2) < 0x10000" using calmD(3) [OF q2] calmD(3) [OF q1] n F by simp
  have f2: "fresh_pgdir u2 k" by (rule calm_fresh [OF q2 w1(1) calm_fresh [OF q1 wf fresh]])
  then have K: "kern_pgdir u2 = pgdir_kva k" "entry u2 k 0 = 0" "entry u2 k (Suc 0) = 0" by (simp_all add: fresh_pgdir_def pdx_UVPT)
  have "\<forall>g \<in> set ys. pp_ref (pages u2 ! g) = 0"
    by (rule calm_unused [OF q2 pt_wfD(3) [OF w1(1)] calm_unused [OF q1 pt_wfD(3) [OF wf] r]])
  then have r2: "\<forall>i \<in> {a, b, c}. pp_ref (pages u2 ! i) = 0" by (simp add: ys)
  obtain t3 where t3: "check_page u2 = Inr (cprintf (''check_page() succeeded!'' @ nl) [] t3)"
    "calm u2 t3 ys (c # b # a # rest)" "console t3 = console u2"
    using calm_page [OF w2(1) [unfolded ys] n2 K(1) r2 K(2,3)] unfolding ys by metis
  define u3 where "u3 = cprintf (''check_page() succeeded!'' @ nl) [] t3"
  have q3: "calm u2 u3 ys (c # b # a # rest)" using calm_cprintf [OF t3(2)] by (simp add: u3_def)
  have "bindo (check_page_free_list kend junk True s) (\<lambda>s. bindo (check_page_alloc pages_kva s) (\<lambda>s. bindo (Some (check_page s)) Q)) = Q u3" for Q
    unfolding t1(1) u1_def [symmetric] bindo_simps t2(1) u2_def [symmetric] t3(1) u3_def [symmetric] ..
  moreover have "calm s u3 xs (c # b # a # rest)" by (rule calm_trans [OF calm_trans [OF q1 q2] q3])
  moreover have "console u3 = map (\<lambda>m. Message (m @ nl) [])
      [''check_page() succeeded!'', ''check_page_alloc() succeeded!'', ''check_page_free_list() succeeded!''] @ console s"
    by (simp add: u3_def t3(3) u2_def t2(3) u1_def t1(3) cprintf_def)
  ultimately show thesis using that by blast
qed

text \<open>After them; 67 of the pages have become tables.\<close>

lemma tests_after:
  assumes e: "enough k n" and wf: "pt_wf s k xs" and n: "unat (npages s) = n" and K: "kern_pgdir s = pgdir_kva k" "cr3 s = page2pa k"
    and nf: "nextfree s = kpage (first_free k n)" and xs: "xs = drop 67 zs" "set zs = usable k n" "distinct zs"
    and r: "\<forall>g \<in> set xs. pp_ref (pages s ! g) = 0" and d: "entry s k 0 = 0"
  obtains t ys where
    "\<And>Q. bindo (check_page_free_list kend junk False s) (\<lambda>s. bindo (Some (check_page_installed_pgdir s)) Q) = Q t"
    "calm s t xs ys" "console t = map (\<lambda>m. Message (m @ nl) [])
      [''check_page_installed_pgdir() succeeded!'', ''check_page_free_list() succeeded!''] @ console s"
proof -
  have F: "first_free k n < 0x10000" "n < 0x10000" using e by (simp_all add: enough_def)
  note ok = usable_drop_ok [OF e xs(3,2), of 67, folded xs(1), simplified]
  have z: "nextfree s \<noteq> 0" "xs \<noteq> []" using ok(2) kpage_nonzero [OF F(1)] nf by auto
  obtain t1 ys where t1: "check_page_free_list kend junk False s = Some (Inr (cprintf (''check_page_free_list() succeeded!'' @ nl) [] t1))"
    "calm s t1 xs ys" "console t1 = console s"
    using calm_free_list [OF pt_wfD(1,3) [OF wf] z] ok(1) nf by metis
  define u1 where "u1 = cprintf (''check_page_free_list() succeeded!'' @ nl) [] t1"
  have q1: "calm s u1 xs ys" using calm_cprintf [OF t1(2)] by (simp add: u1_def)
  note w1 = calm_tables [OF q1 wf]
  have "length ys = length xs"
    using free_pages_distinct [OF pt_wfD(3) [OF wf]] free_pages_distinct [OF calmD(1) [OF q1]] calmD(2) [OF q1] by (metis distinct_card)
  then obtain a b c rest where ys: "ys = a # b # c # rest" using three_free [of ys] ok(2) by auto
  have n1: "unat (npages u1) < 0x10000" using calmD(3) [OF q1] n F by simp
  have K1: "kern_pgdir u1 = pgdir_kva k" "cr3 u1 = page2pa k" "entry u1 k 0 = 0" using calmD(5,6) [OF q1] K w1(2) d by simp_all
  have r1: "\<forall>i \<in> {a, b, c}. pp_ref (pages u1 ! i) = 0"
    using calm_unused [OF q1 pt_wfD(3) [OF wf] r] by (simp add: ys)
  obtain t2 where t2: "check_page_installed_pgdir u1 = Inr (cprintf (''check_page_installed_pgdir() succeeded!'' @ nl) [] t2)"
    "calm u1 t2 ys (a # c # b # rest)" "console t2 = console u1"
    using calm_installed [OF w1(1) [unfolded ys] n1 K1(1,2) r1 K1(3)] unfolding ys by metis
  define u2 where "u2 = cprintf (''check_page_installed_pgdir() succeeded!'' @ nl) [] t2"
  have q2: "calm u1 u2 ys (a # c # b # rest)" using calm_cprintf [OF t2(2)] by (simp add: u2_def)
  have "bindo (check_page_free_list kend junk False s) (\<lambda>s. bindo (Some (check_page_installed_pgdir s)) Q) = Q u2" for Q
    unfolding t1(1) u1_def [symmetric] bindo_simps t2(1) u2_def [symmetric] ..
  moreover have "calm s u2 xs (a # c # b # rest)" by (rule calm_trans [OF q1 q2])
  moreover have "console u2 = map (\<lambda>m. Message (m @ nl) [])
      [''check_page_installed_pgdir() succeeded!'', ''check_page_free_list() succeeded!''] @ console s"
    by (simp add: u2_def t2(3) u1_def t1(3) cprintf_def)
  ultimately show thesis using that by blast
qed

section \<open>All of mem_init\<close>

definition mem_ready :: "nat \<Rightarrow> nat \<Rightarrow> boot_data \<Rightarrow> 'z env_state_scheme \<Rightarrow> 'z env_state_scheme \<Rightarrow> nat list \<Rightarrow> bool" where
  "mem_ready k n b s t ys \<longleftrightarrow> pt_wf t k ys \<and> kern_pgdir t = pgdir_kva k \<and> cr3 t = page2pa k \<and> unat (npages t) = n \<and>
     (\<forall>a. pdx a \<in> slots \<longrightarrow> pt_entry t k a =
        kern_layout (page2pa (k + 1)) (page2pa (k + 1 + array_pages n)) (boot_stack b - KERNBASE) a) \<and>
     entry t k (pdx UVPT) = page2pa k OR PTE_U OR PTE_P \<and> (\<forall>d < unat (PDX UTOP). entry t k d = 0) \<and>
     set ys \<subseteq> usable k n \<and> length ys + 67 = card (usable k n) \<and> (\<forall>g \<in> set ys. pp_ref (pages t ! g) = 0) \<and>
     tables t k \<subseteq> usable k n \<and> (\<forall>a. unat a div 4096 \<notin> insert k (usable k n) \<longrightarrow> mem t a = mem s a) \<and>
     envs t = map (old_envs b) [0..<1024] \<and> same_machine s t"

lemma mem_init_spec:
  fixes s :: "'z env_state_scheme"
  assumes boot: "nextfree s = 0" "page_free_list s = None" "ROUNDUP (kernel_end b) PGSIZE = kpage k"
    and n: "n = unat (npages (i386_detect_memory (cmos_ram b) s))" and e: "enough k n"
    and st: "KERNBASE \<le> boot_stack b" "unat (boot_stack b - KERNBASE) mod 4096 = 0"
  obtains t ys where "mem_init b s = Some (Inr (kpage (k + 1 + array_pages n), new_cr0 (rcr0 b), t))" "mem_ready k n b s t ys"
    "console t = map (\<lambda>m. Message (m @ nl) [])
      [''check_page_installed_pgdir() succeeded!'', ''check_page_free_list() succeeded!'', ''check_kern_pgdir() succeeded!'',
       ''check_page() succeeded!'', ''check_page_alloc() succeeded!'', ''check_page_free_list() succeeded!''] @
      console (report_memory (cmos_ram b) s)"
proof -
  let ?F = "first_free k n" and ?p = "kpage (k + 1)" and ?e = "kpage (k + 1 + array_pages n)"
  let ?xs = "rev (filter (page_usable (kpage ?F)) [0..<n])"
  have k: "256 \<le> k" "?F \<le> n" "n < 0x10000" using e by (simp_all add: enough_def)
  obtain t1 where t1: "mem_init_alloc (cmos_ram b) (kernel_end b) (old_pages b) (old_envs b) s = Inr (?p, ?e, t1)"
    "pt_wf t1 k ?xs" "fresh_pgdir t1 k" "unat (npages t1) = n" "nextfree t1 = kpage ?F"
    "\<And>g. page_usable (kpage ?F) g \<Longrightarrow> g < n \<Longrightarrow> pp_ref (pages t1 ! g) = 0"
    "\<And>a. unat a div 4096 \<noteq> k \<Longrightarrow> mem t1 a = mem s a" "envs t1 = map (old_envs b) [0..<1024]" "same_machine s t1"
    "console t1 = console (report_memory (cmos_ram b) s)"
    using mem_init_alloc_spec [OF boot k(1), of "cmos_ram b", folded n, OF k(2,3), of "old_pages b" "old_envs b"] by blast
  note us = usable_list [OF e]
  have r1: "\<forall>g \<in> set ?xs. pp_ref (pages t1 ! g) = 0" using us(2) t1(6) unfolding us(1) by blast
  have small: "k + 1 < 0x10000" "k + 1 + array_pages n < 0x10000" "k < 0x100000" using k by (simp_all add: first_free_def)
  obtain t2 zs where t2: "\<And>Q. bindo (check_page_free_list (kernel_end b) (junk_vars b) True t1) (\<lambda>s. bindo (check_page_alloc ?p s)
      (\<lambda>s. bindo (Some (check_page s)) Q)) = (Q t2 :: (fault + u32 \<times> u32 \<times> 'z env_state_scheme) option)"
    "calm t1 t2 ?xs zs" "console t2 = map (\<lambda>m. Message (m @ nl) [])
      [''check_page() succeeded!'', ''check_page_alloc() succeeded!'', ''check_page_free_list() succeeded!''] @ console t1"
    using tests_before [OF e t1(2-5) us(1) r1 kpage_nonzero [OF small(1)]] by blast
  note q2 = calmD [OF t2(2)] and w2 = calm_tables [OF t2(2) t1(2)]
  have f2: "fresh_pgdir t2 k" by (rule calm_fresh [OF t2(2) t1(2,3)])
  have r2: "\<forall>g \<in> set zs. pp_ref (pages t2 ! g) = 0" by (rule calm_unused [OF t2(2) pt_wfD(3) [OF t1(2)] r1])
  have zs: "set zs = usable k n" "distinct zs" using q2(1,2) us(1) free_pages_distinct by auto
  note len = usable_drop_ok(3) [OF e zs(2,1) order.refl]
  note kp = kpage_above(1) [OF small(1)] kpage_above(1) [OF small(2)] kpage_above(2) [OF small(1)] kpage_above(2) [OF small(2)]
  have pp: "kpage i - KERNBASE = page2pa i" for i by (simp add: kpage_pgdir pgdir_kva_def)
  obtain t3 ys where t3: "map_kernel ?p ?e (boot_stack b) t2 = Some (Inr t3)" "pt_wf t3 k ys" "length ys + 67 = length zs"
    "\<And>a. pdx a \<in> slots \<Longrightarrow> pt_entry t3 k a = kern_layout (?p - KERNBASE) (?e - KERNBASE) (boot_stack b - KERNBASE) a"
    "dir_grown t2 t3 k ({955, 956, 959} \<union> {960..1023})" "same_rest t2 t3" "kept t2 t3 k zs ys"
    using map_kernel_spec [OF w2(1) f2 len kp(1,2) st(1)] by metis
  have c3: "check_kern_pgdir ?p ?e (boot_stack b) t3 = Some (Inr (cprintf (''check_kern_pgdir() succeeded!'' @ nl) [] t3))"
    using map_kernel_checked [OF w2(1) f2 len kp(1,2) st(1) kp(3,4) st(2)] t3(1) by auto
  have ys: "ys = drop 67 zs"
  proof -
    obtain j where j: "ys = drop j zs" using t3(7) by (auto simp: kept_def)
    then have "length ys = length zs - j" by simp
    with t3(3) have "j = 67 \<or> length zs = 67 \<and> 67 \<le> j" by linarith
    with j show ?thesis by auto
  qed
  have same3: "npages t3 = npages t2" "kern_pgdir t3 = kern_pgdir t2" "nextfree t3 = nextfree t2" "envs t3 = envs t2"
    "console t3 = console t2" "same_machine t2 t3" "length (pages t3) = length (pages t2)"
    using t3(6) same_machine_more [of t3 t2] env_same_rest [OF t3(6)] by (simp_all add: same_rest_def)
  have dir: "entry t3 k d = entry t2 k d" if "d < 1024" "d \<notin> {955, 956, 959} \<union> {960..1023}" for d
    using t3(5) that unfolding dir_grown_def by (metis (no_types, lifting))
  have d3: "entry t3 k 0 = 0" "entry t3 k 957 = page2pa k OR PTE_U OR PTE_P"
    using f2 dir [of 0] dir [of 957] by (simp_all add: fresh_pgdir_def)
  have low3: "entry t3 k d = 0" if "d < 955" for d
  proof -
    have "d < 1024" "d \<notin> {955, 956, 959} \<union> {960..1023}" "d \<noteq> 957" using that by auto
    then show ?thesis using f2 dir [of d] by (simp add: fresh_pgdir_def)
  qed
  define t4 where "t4 = (cprintf (''check_kern_pgdir() succeeded!'' @ nl) [] t3)\<lparr>cr3 := page2pa k\<rparr>"
  have same4: "mem t4 = mem t3" "pages t4 = pages t3" "npages t4 = npages t3" "page_free_list t4 = page_free_list t3"
    "kern_pgdir t4 = kern_pgdir t3" "cr3 t4 = page2pa k" "nextfree t4 = nextfree t3" "envs t4 = envs t3" "same_machine t3 t4"
    "console t4 = Message (''check_kern_pgdir() succeeded!'' @ nl) [] # console t3"
    by (simp_all add: t4_def cprintf_def same_machine_def)
  note pe = pt_entry_mem [OF same4(1)] table_at_mem [OF same4(1)]
  have pl: "page_link t4 = page_link t3" by (simp add: page_link_def same4 fun_eq_iff)
  have w4: "pt_wf t4 k ys" using t3(2) unfolding pt_wf_def pages_wf_def free_pages_def page_cap_def same4 pe pl .
  have r4: "\<forall>g \<in> set ys. pp_ref (pages t4 ! g) = 0"
    using r2 t3(7) kept_subset [OF t3(7)] unfolding same4 kept_def by auto
  have K4: "kern_pgdir t4 = pgdir_kva k" "unat (npages t4) = n" "nextfree t4 = kpage ?F"
    using f2 same3 same4 q2 t1(4,5) by (simp_all add: fresh_pgdir_def)
  have d4: "entry t4 k 0 = 0" "entry t4 k 957 = page2pa k OR PTE_U OR PTE_P" using d3 by (simp_all add: entry_def same4)
  obtain t5 vs where t5: "\<And>Q. bindo (check_page_free_list (kernel_end b) (junk_vars b) False t4)
      (\<lambda>s. bindo (Some (check_page_installed_pgdir s)) Q) = (Q t5 :: (fault + u32 \<times> u32 \<times> 'z env_state_scheme) option)"
    "calm t4 t5 ys vs" "console t5 = map (\<lambda>m. Message (m @ nl) [])
      [''check_page_installed_pgdir() succeeded!'', ''check_page_free_list() succeeded!''] @ console t4"
    using tests_after [OF e w4 K4(2,1) same4(6) K4(3) ys zs r4 d4(1)] by blast
  note q5 = calmD [OF t5(2)] and w5 = calm_tables [OF t5(2) w4]
  have pad: "PADDR (kern_pgdir (cprintf (''check_kern_pgdir() succeeded!'' @ nl) [] t3)) = Inr (page2pa k)"
    using K4(1) same4(5) kpage_above(1) [of k] small
    by (simp add: cprintf_def PADDR_def kpage_pgdir pgdir_kva_def not_less [symmetric])
  have run: "mem_init b s = Some (Inr (?e, new_cr0 (rcr0 b), t5))"
    unfolding mem_init_def t1(1) bindo_simps prod.case t2(1) t3(1) c3 pad Let_def t4_def [symmetric] t5(1) ..
  have "length vs = length ys"
    using free_pages_distinct [OF q5(1)] q5(2) zs(2) ys by (metis distinct_card distinct_drop)
  moreover have "length zs = card (usable k n)" using zs by (metis distinct_card)
  moreover have tab: "tables t3 k \<subseteq> usable k n"
  proof -
    have "tables t2 k = {}" using f2 by (auto simp: fresh_pgdir_def tables_def table_at_def slots_957)
    then show ?thesis using t3(7) zs(1) by (simp add: kept_def)
  qed
  moreover have "mem t5 a = mem s a" if a: "unat a div 4096 \<notin> insert k (usable k n)" for a
  proof -
    have "mem t5 a = mem t4 a" using a kept_subset [OF t3(7)] zs(1) by (intro q5(11)) auto
    also have "\<dots> = mem t2 a"
    proof -
      have "tables t2 k = {}" using f2 by (auto simp: fresh_pgdir_def tables_def table_at_def slots_957)
      then show ?thesis using t3(7) a zs(1) unfolding same4 by (simp add: kept_def)
    qed
    also have "\<dots> = mem t1 a" using a us(1) by (intro q2(11)) auto
    also have "\<dots> = mem s a" using a by (intro t1(7)) simp
    finally show ?thesis .
  qed
  moreover have "same_machine s t5"
    using t1(9) q2(9) same3(6) same4(9) q5(9) by (blast intro: same_machine_trans)
  moreover have "\<forall>g \<in> set vs. pp_ref (pages t5 ! g) = 0" by (rule calm_unused [OF t5(2) pt_wfD(3) [OF w4] r4])
  moreover have "entry t5 k 957 = page2pa k OR PTE_U OR PTE_P" using w5(2) d4(2) by simp
  moreover have "entry t5 k d = 0" if "d < unat (PDX UTOP)" for d
  proof -
    have d: "d < 955" using that by (simp add: unat_PDX)
    then have "entry t4 k d = 0" using low3 by (simp add: entry_def same4)
    then show ?thesis using w5(2) [of d] d by simp
  qed
  moreover have "tables t5 k = tables t3 k" using w5(4) by (simp add: tables_def pe)
  moreover have "pt_entry t5 k a = kern_layout (page2pa (k + 1)) (page2pa (k + 1 + array_pages n)) (boot_stack b - KERNBASE) a"
    if "pdx a \<in> slots" for a
    using w5(3) [OF that] t3(4) [OF that] by (simp only: pe pp)
  moreover have "set vs \<subseteq> usable k n" using q5(2) kept_subset [OF t3(7)] zs(1) by simp
  ultimately have "mem_ready k n b s t5 vs"
    using w5(1) q5(3,5,6,8) K4 same4 same3 q2(8) t1(8) t3(3) unfolding mem_ready_def by (simp add: pdx_UVPT)
  with run t5(3) that show thesis by (simp add: same4 same3 t2(3) t1(10))
qed

lemma new_cr0_flags: "new_cr0 c AND (CR0_TS OR CR0_EM) = 0" "new_cr0 c AND (CR0_PE OR CR0_PG OR CR0_AM OR CR0_WP OR CR0_NE OR CR0_MP) =
    CR0_PE OR CR0_PG OR CR0_AM OR CR0_WP OR CR0_NE OR CR0_MP"
proof -
  have z: "((c OR x) AND NOT y) AND y = 0" for x y :: u32 by (rule bit_word_eqI) (auto simp: bit_simps)
  show "new_cr0 c AND (CR0_TS OR CR0_EM) = 0"
    unfolding new_cr0_def Let_def by (rule z)
  have y: "((c OR x) AND NOT y) AND x = x" if "x AND y = 0" for x y :: u32
  proof (rule bit_word_eqI)
    fix i
    have "bit (x AND y) i = bit (0 :: u32) i" using that by simp
    then show "bit (((c OR x) AND NOT y) AND x) i = bit x i" if "i < LENGTH(32)" using that by (auto simp: bit_simps)
  qed
  show "new_cr0 c AND (CR0_PE OR CR0_PG OR CR0_AM OR CR0_WP OR CR0_NE OR CR0_MP) = CR0_PE OR CR0_PG OR CR0_AM OR CR0_WP OR CR0_NE OR CR0_MP"
    unfolding new_cr0_def Let_def by (rule y) simp
qed

lemma card_usable: "enough k n \<Longrightarrow> card (usable k n) = 159 + (n - first_free k n)"
proof -
  assume "enough k n"
  then have F: "281 \<le> first_free k n" by (simp add: enough_def first_free_def)
  have "usable k n = {0<..<160} \<union> {first_free k n..<n}" by (auto simp: usable_def)
  moreover have "{0<..<160} \<inter> {first_free k n..<n} = {}" using F by (simp add: disjoint_iff)
  ultimately show ?thesis by (simp add: card_Un_disjoint)
qed


definition demo_boot :: boot_data where
  "demo_boot = \<lparr>cmos_ram = cmos_4MB, kernel_end = 0xF0110004, boot_stack = 0xF0108000, rcr0 = 0x80010011,
     old_pages = (\<lambda>_. \<lparr>pp_link = None, pp_ref = 0\<rparr>), old_envs = (\<lambda>_. env_zero), junk_vars = (\<lambda>_. None)\<rparr>"


end
