(* ===== verification/User_Mem.thy ===== *)
theory User_Mem
  imports Page_Table
begin

text \<open>
  \<open>user_mem_check\<close> of \<open>kern/pmap.c\<close>: may an environment access the range
  \<open>[va, va + len)\<close>? The argument \<open>env\<close> enters only through \<open>env->env_pgdir\<close>. The main
  results are that the check decides exactly the access right of every address of a range
  that does not wrap around, and that it accepts every range that does.
\<close>

section \<open>The check\<close>

definition E_FAULT :: u32 where [simp]: "E_FAULT = 6"

partial_function (option) user_mem_loop ::
  "u32 \<Rightarrow> u32 \<Rightarrow> u32 \<Rightarrow> u32 \<Rightarrow> u32 \<Rightarrow> 'z pmap_state_scheme \<Rightarrow>
     (fault + u32 \<times> 'z pmap_state_scheme) option" where
  "user_mem_loop env_pgdir va perm end' addr s =
     (if addr < end' then
        (case pgdir_walk s env_pgdir addr False of
           Inl e \<Rightarrow> Some (Inl e)
         | Inr (pte, s) \<Rightarrow>
             if addr \<ge> ULIM \<or> pte = NULL \<or> kload s pte AND PTE_P = 0 \<or> kload s pte AND perm \<noteq> perm
             then Some (Inr (- E_FAULT,
               s\<lparr>user_mem_check_addr := (if addr < va then va else addr)\<rparr>))
             else user_mem_loop env_pgdir va perm end' (addr + PGSIZE) s)
      else Some (Inr (0, s)))"

definition user_mem_check ::
  "'z pmap_state_scheme \<Rightarrow> u32 \<Rightarrow> u32 \<Rightarrow> u32 \<Rightarrow> u32 \<Rightarrow> (fault + u32 \<times> 'z pmap_state_scheme) option" where
  "user_mem_check s env_pgdir va len perm =
     user_mem_loop env_pgdir va perm (ROUNDUP (va + len) PGSIZE) (ROUNDDOWN va PGSIZE) s"

section \<open>Access rights\<close>

text \<open>What the comment of \<open>user_mem_check\<close> asks for at one address.\<close>

definition accessible :: "'z pmap_state_scheme \<Rightarrow> nat \<Rightarrow> u32 \<Rightarrow> u32 \<Rightarrow> bool" where
  "accessible s D perm a \<longleftrightarrow>
     a < ULIM \<and> present (pt_entry s D a) \<and> pt_entry s D a AND perm = perm"

text \<open>Every page table of the directory (its own page, at \<open>UVPT\<close>, included) is a page of the
  machine.\<close>

definition tables_ok :: "'z pmap_state_scheme \<Rightarrow> nat \<Rightarrow> bool" where
  "tables_ok s D \<longleftrightarrow> pages_wf s \<and> unat (npages s) \<le> 0x10000 \<and> D < length (pages s) \<and>
     (\<forall>d < 1024. \<forall>f. table_at s D d = Some f \<longrightarrow> f < length (pages s))"

lemma below_ULIM: "a < ULIM \<longleftrightarrow> unat a div 4096 < 0xEF800"
proof -
  have "unat a < 4018143232 \<longleftrightarrow> unat a div 4096 < 980992" by arith
  then show ?thesis by (simp add: word_less_nat_alt)
qed

lemma accessible_page: "same_page va va' \<Longrightarrow> accessible s D perm va \<longleftrightarrow> accessible s D perm va'"
  using pt_entry_same_page [of va va' s D]
  by (simp only: accessible_def below_ULIM) (simp add: same_page_def word_unat_eq_iff unat_PGNUM)

text \<open>The test of one round of the loop is the access right of the page.\<close>

lemma user_mem_round:
  assumes "tables_ok s D"
  shows "\<exists>pte. pgdir_walk s (pgdir_kva D) addr False = Inr (pte, s) \<and>
    (addr \<ge> ULIM \<or> pte = NULL \<or> kload s pte AND PTE_P = 0 \<or> kload s pte AND perm \<noteq> perm
       \<longleftrightarrow> \<not> accessible s D perm addr)"
proof (cases "table_at s D (pdx addr)")
  case None
  then have "pgdir_walk s (pgdir_kva D) addr False = Inr (NULL, s)"
    using assms by (intro walk_absent) (simp_all add: tables_ok_def)
  moreover have "\<not> accessible s D perm addr"
    using None by (simp add: accessible_def pt_entry_def)
  ultimately show ?thesis by simp
next
  case (Some f)
  then have f: "f < length (pages s)" "f < 0x10000"
    using assms pdx_less [of addr] unfolding tables_ok_def pages_wf_def by (blast, fastforce)
  then have "pgdir_walk s (pgdir_kva D) addr False = Inr (entry_pa f (ptx addr) + KERNBASE, s)"
    using assms Some by (intro walk_present) (simp_all add: tables_ok_def)
  moreover have "entry_pa f (ptx addr) + KERNBASE \<noteq> NULL"
    using table_kva_nonnull [OF f(2)] by simp
  moreover have "kload s (entry_pa f (ptx addr) + KERNBASE) = pt_entry s D addr"
    using Some by (simp add: kload_entry pt_entry_def del: KERNBASE_def)
  ultimately show ?thesis
    by (auto simp: accessible_def present_def linorder_not_less simp del: KERNBASE_def ULIM_def NULL_def)
qed

section \<open>The loop\<close>

definition page_addr :: "nat \<Rightarrow> u32" where
  "page_addr k = of_nat (4096 * k)"

lemma unat_page_addr: "k < 0x100000 \<Longrightarrow> unat (page_addr k) = 4096 * k"
  unfolding page_addr_def by (rule unat_of_nat_u32) simp

lemma page_addr_Suc: "page_addr k + 4096 = page_addr (Suc k)"
  by (simp add: page_addr_def)

lemma user_mem_loop_spec:
  assumes wf: "tables_ok s D" and m: "m < 0x100000" "k \<le> m"
  shows "(user_mem_loop (pgdir_kva D) va perm (page_addr m) (page_addr k) s = Some (Inr (0, s)) \<and>
      (\<forall>p. k \<le> p \<and> p < m \<longrightarrow> accessible s D perm (page_addr p))) \<or>
    (\<exists>p. k \<le> p \<and> p < m \<and> \<not> accessible s D perm (page_addr p) \<and>
      (\<forall>q. k \<le> q \<and> q < p \<longrightarrow> accessible s D perm (page_addr q)) \<and>
      user_mem_loop (pgdir_kva D) va perm (page_addr m) (page_addr k) s =
        Some (Inr (- E_FAULT, s\<lparr>user_mem_check_addr := if page_addr p < va then va else page_addr p\<rparr>)))"
  using m(2)
proof (induction "m - k" arbitrary: k)
  case 0
  then show ?case by (subst user_mem_loop.simps) auto
next
  case (Suc n)
  then have k: "k < m" by simp
  then have lt: "page_addr k < page_addr m"
    using m(1) by (simp add: word_less_nat_alt unat_page_addr)
  obtain pte where pte: "pgdir_walk s (pgdir_kva D) (page_addr k) False = Inr (pte, s)"
    "page_addr k \<ge> ULIM \<or> pte = NULL \<or> kload s pte AND PTE_P = 0 \<or> kload s pte AND perm \<noteq> perm
       \<longleftrightarrow> \<not> accessible s D perm (page_addr k)"
    using user_mem_round [OF wf] by blast
  show ?case
  proof (cases "accessible s D perm (page_addr k)")
    case False
    with lt pte k show ?thesis
      by (intro disjI2 exI [of _ k], subst user_mem_loop.simps) (auto simp del: ULIM_def)
  next
    case True
    have e: "user_mem_loop (pgdir_kva D) va perm (page_addr m) (page_addr k) s =
        user_mem_loop (pgdir_kva D) va perm (page_addr m) (page_addr (Suc k)) s"
      using lt pte True by (subst user_mem_loop.simps) (simp add: page_addr_Suc del: ULIM_def)
    have split: "k \<le> p \<longleftrightarrow> p = k \<or> Suc k \<le> p" for p by auto
    have "n = m - Suc k" "Suc k \<le> m" using Suc.hyps(2) k by simp_all
    from Suc.hyps(1) [OF this] show ?thesis
    proof (elim disjE exE conjE)
      assume "user_mem_loop (pgdir_kva D) va perm (page_addr m) (page_addr (Suc k)) s = Some (Inr (0, s))"
        "\<forall>p. Suc k \<le> p \<and> p < m \<longrightarrow> accessible s D perm (page_addr p)"
      with True show ?thesis unfolding e split by blast
    next
      fix p assume "Suc k \<le> p" "p < m" "\<not> accessible s D perm (page_addr p)"
        "\<forall>q. Suc k \<le> q \<and> q < p \<longrightarrow> accessible s D perm (page_addr q)"
        "user_mem_loop (pgdir_kva D) va perm (page_addr m) (page_addr (Suc k)) s =
          Some (Inr (- E_FAULT, s\<lparr>user_mem_check_addr := if page_addr p < va then va else page_addr p\<rparr>))"
      with True show ?thesis unfolding e split by blast
    qed
  qed
qed

text \<open>The pages of a range that does not wrap around.\<close>

lemma range_pages:
  assumes "unat va + unat len + 4095 < 2 ^ 32"
  shows "ROUNDDOWN va PGSIZE = page_addr (unat va div 4096)"
    "ROUNDUP (va + len) PGSIZE = page_addr ((unat va + unat len + 4095) div 4096)"
    "(unat va + unat len + 4095) div 4096 < 0x100000"
proof -
  have a: "unat (va + len) = unat va + unat len"
    using assms by (intro unat_add_no_wrap) simp
  have v: "unat va div 4096 < 0x100000" using unat_u32_lt [of va] by linarith
  show e: "(unat va + unat len + 4095) div 4096 < 0x100000" using assms by simp
  show "ROUNDDOWN va PGSIZE = page_addr (unat va div 4096)"
    by (rule word_eq_unatI) (simp add: unat_ROUNDDOWN unat_page_addr v minus_mod_eq_mult_div)
  show "ROUNDUP (va + len) PGSIZE = page_addr ((unat va + unat len + 4095) div 4096)"
    using assms by (intro word_eq_unatI) (simp add: unat_ROUNDUP a unat_page_addr e)
qed

lemma same_page_addr: "same_page (page_addr (unat a div 4096)) a"
proof -
  have "unat a div 4096 < 0x100000" using unat_u32_lt [of a] by linarith
  then show ?thesis by (simp add: same_page_def word_unat_eq_iff unat_PGNUM unat_page_addr)
qed

lemma user_mem_check_spec:
  assumes wf: "tables_ok s D" and no_wrap: "unat va + unat len + 4095 < 2 ^ 32" and "len \<noteq> 0"
  shows "(if \<forall>a. va \<le> a \<and> unat a < unat va + unat len \<longrightarrow> accessible s D perm a
     then user_mem_check s (pgdir_kva D) va len perm = Some (Inr (0, s))
     else \<exists>a. va \<le> a \<and> unat a < unat va + unat len \<and> \<not> accessible s D perm a \<and>
       (\<forall>b. va \<le> b \<and> b < a \<longrightarrow> accessible s D perm b) \<and>
       user_mem_check s (pgdir_kva D) va len perm =
         Some (Inr (- E_FAULT, s\<lparr>user_mem_check_addr := a\<rparr>)))"
proof -
  let ?k = "unat va div 4096" and ?m = "(unat va + unat len + 4095) div 4096"
  have l: "0 < unat len" using \<open>len \<noteq> 0\<close> by (simp add: unat_gt_0)
  note pg = range_pages [OF no_wrap]
  have acc: "accessible s D perm a \<longleftrightarrow> accessible s D perm (page_addr (unat a div 4096))" for a
    by (rule accessible_page [OF same_page_addr, symmetric])
  have inside: "?k \<le> unat a div 4096 \<and> unat a div 4096 < ?m"
    if "va \<le> a" "unat a < unat va + unat len" for a
    using that by (auto simp: word_le_nat_alt div_le_mono)
  have "?k \<le> ?m" using l by (simp add: div_le_mono)
  have chk: "user_mem_check s (pgdir_kva D) va len perm =
      user_mem_loop (pgdir_kva D) va perm (page_addr ?m) (page_addr ?k) s"
    unfolding user_mem_check_def pg(1,2) ..
  from user_mem_loop_spec [OF wf pg(3) \<open>?k \<le> ?m\<close>, of va perm] show ?thesis
  proof (elim disjE exE conjE)
    assume "user_mem_loop (pgdir_kva D) va perm (page_addr ?m) (page_addr ?k) s = Some (Inr (0, s))"
      and "\<forall>p. ?k \<le> p \<and> p < ?m \<longrightarrow> accessible s D perm (page_addr p)"
    moreover from this(2) have "accessible s D perm a" if "va \<le> a" "unat a < unat va + unat len" for a
      using inside [OF that] acc [of a] by blast
    ultimately show ?thesis by (simp only: chk) simp
  next
    fix p assume p: "?k \<le> p" "p < ?m" "\<not> accessible s D perm (page_addr p)"
      and before: "\<forall>q. ?k \<le> q \<and> q < p \<longrightarrow> accessible s D perm (page_addr q)"
      and r: "user_mem_loop (pgdir_kva D) va perm (page_addr ?m) (page_addr ?k) s =
        Some (Inr (- E_FAULT, s\<lparr>user_mem_check_addr := if page_addr p < va then va else page_addr p\<rparr>))"
    let ?a = "if page_addr p < va then va else page_addr p"
    have pb: "p < 0x100000" using p(2) pg(3) by simp
    have ua: "unat ?a = max (unat va) (4096 * p)"
      using unat_page_addr [OF pb] by (auto simp: word_less_nat_alt max_def)
    have ap: "unat ?a div 4096 = p" "unat ?a < unat va + unat len"
      unfolding ua using p(1,2) l by linarith+
    have "va \<le> ?a" by (simp add: linorder_not_less)
    moreover have "\<not> accessible s D perm ?a" unfolding acc [of ?a] ap(1) by (rule p(3))
    moreover have "accessible s D perm b" if "va \<le> b" "b < ?a" for b
    proof -
      have "unat va \<le> unat b" "unat b < max (unat va) (4096 * p)"
        using that ua by (simp_all add: word_le_nat_alt word_less_nat_alt)
      then have "?k \<le> unat b div 4096" "unat b div 4096 < p" by (auto simp: div_le_mono)
      with before show ?thesis unfolding acc [of b] by blast
    qed
    ultimately have "\<exists>a. va \<le> a \<and> unat a < unat va + unat len \<and> \<not> accessible s D perm a \<and>
       (\<forall>b. va \<le> b \<and> b < a \<longrightarrow> accessible s D perm b) \<and>
       user_mem_check s (pgdir_kva D) va len perm =
         Some (Inr (- E_FAULT, s\<lparr>user_mem_check_addr := a\<rparr>))"
      using ap(2) r unfolding chk by blast
    then show ?thesis unfolding chk by metis
  qed
qed

text \<open>C8: for a non-empty range that does not wrap around, \<open>user_mem_check\<close> returns 0 exactly
  when every address of it is below \<open>ULIM\<close> and mapped with the permissions asked for.
  Otherwise it returns \<open>-E_FAULT\<close> and leaves in \<open>user_mem_check_addr\<close> the first address of
  the range that is not accessible. Nothing else changes, and the check always ends.\<close>

theorem user_mem_check_correct:
  assumes wf: "tables_ok s D" and no_wrap: "unat va + unat len + 4095 < 2 ^ 32" and "len \<noteq> 0"
  shows "(if \<forall>a. va \<le> a \<and> unat a < unat va + unat len \<longrightarrow> accessible s D perm a
     then user_mem_check s (pgdir_kva D) va len perm = Some (Inr (0, s))
     else \<exists>a. va \<le> a \<and> unat a < unat va + unat len \<and> \<not> accessible s D perm a \<and>
       (\<forall>b. va \<le> b \<and> b < a \<longrightarrow> accessible s D perm b) \<and>
       user_mem_check s (pgdir_kva D) va len perm =
         Some (Inr (- E_FAULT, s\<lparr>user_mem_check_addr := a\<rparr>)))"
  using assms by (rule user_mem_check_spec)

theorem user_mem_check_correct_witness:
  "user_mem_check demo_mapped (pgdir_kva 3) 0x800010 0x20 PTE_U = Some (Inr (0, demo_mapped)) \<and>
   user_mem_check demo_mapped (pgdir_kva 3) 0x800010 0x1000 PTE_U =
     Some (Inr (- E_FAULT, demo_mapped\<lparr>user_mem_check_addr := 0x801000\<rparr>))"
proof -
  have ok: "tables_ok demo_mapped 3"
    by (simp add: tables_ok_def demo_mapped_table)
      (simp add: demo_mapped_def demo_def small_pages_def pages_wf_def)
  have "accessible demo_mapped 3 PTE_U 0x800000"
    by (simp add: accessible_def demo_mapped_pt present_def)
  moreover have "same_page 0x800000 a" if "unat a div 4096 = 0x800" for a
    using that by (simp add: same_page_def word_unat_eq_iff unat_PGNUM)
  ultimately have acc: "accessible demo_mapped 3 PTE_U a" if "unat a div 4096 = 0x800" for a
    using that accessible_page by blast
  have un: "\<not> accessible demo_mapped 3 PTE_U 0x801000"
    by (simp add: accessible_def pt_entry_def demo_mapped_table demo_mapped_entry)
      (simp add: pdx_def ptx_def mmu_simps)
  have in1: "accessible demo_mapped 3 PTE_U a" if "0x800010 \<le> a" "unat a < 0x800030" for a
    using that by (intro acc) (simp add: word_le_nat_alt)
  have h: "unat (0x800010 :: u32) + unat (0x20 :: u32) + 4095 < 2 ^ 32" "(0x20 :: u32) \<noteq> 0"
    "unat (0x800010 :: u32) + unat (0x1000 :: u32) + 4095 < 2 ^ 32" "(0x1000 :: u32) \<noteq> 0" by simp_all
  have 1: "user_mem_check demo_mapped (pgdir_kva 3) 0x800010 0x20 PTE_U = Some (Inr (0, demo_mapped))"
    using user_mem_check_correct [OF ok h(1,2), of PTE_U] in1 by simp
  have "\<not> (\<forall>a. 0x800010 \<le> a \<and> unat a < 0x801010 \<longrightarrow> accessible demo_mapped 3 PTE_U a)"
    using un by (auto intro!: exI [of _ "0x801000"])
  then obtain a where a: "0x800010 \<le> a" "unat a < 0x801010" "\<not> accessible demo_mapped 3 PTE_U a"
    "\<forall>b. 0x800010 \<le> b \<and> b < a \<longrightarrow> accessible demo_mapped 3 PTE_U b"
    "user_mem_check demo_mapped (pgdir_kva 3) 0x800010 0x1000 PTE_U =
      Some (Inr (- E_FAULT, demo_mapped\<lparr>user_mem_check_addr := a\<rparr>))"
    using user_mem_check_correct [OF ok h(3,4), of PTE_U] by (simp split: if_splits) blast
  have "unat a div 4096 = 0x800" if "unat a < 0x801000"
    using that a(1) by (simp add: word_le_nat_alt)
  then have "\<not> unat a < 0x801000" using a(3) acc by blast
  moreover have "\<not> 0x801000 < a" using a(4) un by auto
  ultimately have "a = 0x801000" by (simp add: word_less_nat_alt word_eq_unatI)
  with 1 a(5) show ?thesis by simp
qed



end
