(* ===== verification/Env_Free.thy ===== *)
theory Env_Free
  imports Env_Ids
begin

text \<open>
  Freeing an environment (\<open>env_free\<close>, \<open>env_destroy\<close> of \<open>kern/env.c\<close>). The main result says
  what goes back to the page allocator: the page tables, the page directory and every user
  page whose last reference was a mapping of this environment, each exactly once, while a
  page that is still referenced elsewhere loses as many references as it had mappings.
\<close>

section \<open>Operations\<close>

definition free_pte :: "nat \<Rightarrow> u32 \<Rightarrow> nat \<Rightarrow> nat \<Rightarrow> 'z env_state_scheme \<Rightarrow> fault + 'z env_state_scheme" where
  "free_pte e pt pdeno pteno s =
     (if kload s (pt + 4 * of_nat pteno) AND PTE_P \<noteq> 0
      then page_remove s (env_pgdir (envs s ! e)) (PGADDR (of_nat pdeno) (of_nat pteno) 0)
      else Inr s)"

definition free_pde :: "nat \<Rightarrow> nat \<Rightarrow> 'z env_state_scheme \<Rightarrow> fault + 'z env_state_scheme" where
  "free_pde e pdeno s =
     (if kload s (env_pgdir (envs s ! e) + 4 * of_nat pdeno) AND PTE_P = 0 then Inr s
      else
        let pa = PTE_ADDR (kload s (env_pgdir (envs s ! e) + 4 * of_nat pdeno)) in
        bindr (KADDR s pa) (\<lambda>pt.
        bindr (for_each (free_pte e pt pdeno) [0..<unat (PTX (NOT 0)) + 1] s) (\<lambda>s.
        let s = kstore s (env_pgdir (envs s ! e) + 4 * of_nat pdeno) 0 in
        bindr (pa2page s pa) (\<lambda>pg. page_decref s pg))))"

definition env_free :: "'z env_state_scheme \<Rightarrow> nat \<Rightarrow> fault + 'z env_state_scheme" where
  "env_free s e =
     (if \<not> e < length (envs s) then Inl Wild_Access
      else
        bindr (if Some e = curenv s
               then bindr (PADDR (kern_pgdir s)) (\<lambda>pa. Inr (s\<lparr>cr3 := pa\<rparr>)) else Inr s) (\<lambda>s.
        let s = cprintf (''[%08x] free env %08x'' @ nl) [curenv_id s, env_id (envs s ! e)] s in
        bindr (for_each (free_pde e) [0..<unat (PDX UTOP)] s) (\<lambda>s.
        bindr (PADDR (env_pgdir (envs s ! e))) (\<lambda>pa.
        bindr (upd_env e (\<lambda>v. v\<lparr>env_pgdir := 0\<rparr>) s) (\<lambda>s.
        bindr (pa2page s pa) (\<lambda>pg.
        bindr (page_decref s pg) (\<lambda>s. env_put s e)))))))"

text \<open>\<open>env_destroy\<close> never returns: it frees the environment and stays in the monitor. The
  result is the state the monitor runs in.\<close>

definition env_destroy :: "'z env_state_scheme \<Rightarrow> nat \<Rightarrow> fault + 'z env_state_scheme" where
  "env_destroy s e = bindr (env_free s e) (\<lambda>s.
     Inr (cprintf (''Destroyed the only environment - nothing more to do!'' @ nl) [] s))"

section \<open>What an environment owns\<close>

text \<open>Entry \<open>t\<close> of the page table in slot \<open>d\<close>.\<close>

definition pte :: "'z pmap_state_scheme \<Rightarrow> nat \<Rightarrow> nat \<Rightarrow> nat \<Rightarrow> u32" where
  "pte s D d t = (case table_at s D d of None \<Rightarrow> 0 | Some f \<Rightarrow> entry s f t)"

lemma pt_entry_pte: "pt_entry s D va = pte s D (pdx va) (ptx va)"
  by (simp add: pt_entry_def pte_def)

definition user_slots :: nat where "user_slots = 955"

lemma user_slots_UTOP: "unat (PDX UTOP) = user_slots"
  by (simp add: user_slots_def unat_PDX)

lemma user_slot: "d < user_slots \<Longrightarrow> d \<in> slots \<and> d < 1024"
  by (simp add: user_slots_def slots_def unat_PDX)

definition mappings :: "'z pmap_state_scheme \<Rightarrow> nat \<Rightarrow> nat \<Rightarrow> (nat \<times> nat) set" where
  "mappings s D g = {(d, t). d < user_slots \<and> t < 1024 \<and> present (pte s D d t) \<and> frame_of (pte s D d t) = g}"

definition maps :: "'z pmap_state_scheme \<Rightarrow> nat \<Rightarrow> nat \<Rightarrow> nat" where
  "maps s D g = card (mappings s D g)"

lemma finite_mappings: "finite (mappings s D g)"
proof -
  have "mappings s D g \<subseteq> {..<user_slots} \<times> {..<1024}" by (auto simp: mappings_def)
  then show ?thesis by (rule finite_subset) simp
qed

definition refs :: "'z pmap_state_scheme \<Rightarrow> nat \<Rightarrow> nat" where
  "refs s g = unat (pp_ref (pages s ! g))"

text \<open>\<open>owns s D xs\<close>: the user half of directory \<open>D\<close> is sound in a state with free list \<open>xs\<close>.
  A mapped page is a page of the machine that is not free and not part of the page tables,
  its count is at least the number of its mappings here, and a page table has the one
  reference its slot holds.\<close>

definition owns :: "'z pmap_state_scheme \<Rightarrow> nat \<Rightarrow> nat list \<Rightarrow> bool" where
  "owns s D xs \<longleftrightarrow> pt_wf s D xs \<and>
     (\<forall>d < user_slots. \<forall>t < 1024. present (pte s D d t) \<longrightarrow>
        (let g = frame_of (pte s D d t)
         in g < length (pages s) \<and> g \<notin> set xs \<and> g \<noteq> D \<and> g \<notin> tables s D)) \<and>
     (\<forall>g. maps s D g \<le> refs s g) \<and>
     (\<forall>d < user_slots. \<forall>f. table_at s D d = Some f \<longrightarrow> refs s f = 1)"

lemma ownsD:
  assumes "owns s D xs"
  shows "pt_wf s D xs" "maps s D g \<le> refs s g"
    "d < user_slots \<Longrightarrow> table_at s D d = Some f \<Longrightarrow> refs s f = 1"
    "d < user_slots \<Longrightarrow> t < 1024 \<Longrightarrow> present (pte s D d t) \<Longrightarrow> g = frame_of (pte s D d t) \<Longrightarrow>
       g < length (pages s) \<and> g \<notin> set xs \<and> g \<noteq> D \<and> g \<notin> tables s D"
  using assms by (simp_all add: owns_def Let_def)

text \<open>The address of a page, from its slot and index.\<close>

definition slot_va :: "nat \<Rightarrow> nat \<Rightarrow> u32" where
  "slot_va d t = PGADDR (of_nat d) (of_nat t) 0"

lemma slot_va_parts: "d < 1024 \<Longrightarrow> t < 1024 \<Longrightarrow> pdx (slot_va d t) = d \<and> ptx (slot_va d t) = t"
proof -
  assume b: "d < 1024" "t < 1024"
  then have u: "unat (of_nat d :: u32) = d" "unat (of_nat t :: u32) = t"
    by (auto intro: unat_of_nat_u32)
  have "unat (slot_va d t) = d * 4194304 + t * 4096"
    unfolding slot_va_def using b by (subst unat_PGADDR) (simp_all only: u, simp_all)
  then show ?thesis
    using join_addr [of t 0 d] b by (simp add: pdx_def ptx_def unat_PDX unat_PTX)
qed

section \<open>One mapping less\<close>

lemma remove_step:
  assumes ow: "owns s D xs" and d: "d < user_slots" "t < 1024" and p: "present (pte s D d t)"
    and g: "g = frame_of (pte s D d t)"
  shows "\<exists>u. page_remove s (pgdir_kva D) (slot_va d t) = Inr u \<and>
    owns u D (if refs s g = 1 then g # xs else xs) \<and>
    (\<forall>e < 1024. table_at u D e = table_at s D e) \<and>
    (\<forall>e < user_slots. \<forall>i < 1024. pte u D e i = (if e = d \<and> i = t then 0 else pte s D e i)) \<and>
    (\<forall>h. refs u h = refs s h - of_bool (h = g)) \<and> (\<forall>h. maps u D h = maps s D h - of_bool (h = g)) \<and>
    0 < maps s D g"
proof -
  note wf = ownsD(1) [OF ow]
  have b: "d \<in> slots" "d < 1024" using user_slot [OF d(1)] by auto
  note sv = slot_va_parts [OF b(2) d(2)]
  have pe: "pt_entry s D (slot_va d t) = pte s D d t" by (simp add: pt_entry_pte sv)
  have gp: "g < length (pages s)" "g \<notin> set xs" "g \<noteq> D" "g \<notin> tables s D"
    using ownsD(4) [OF ow d p g] by auto
  have rem: "removable s D xs (slot_va d t)"
    using gp by (simp add: removable_def pe g [symmetric])
  let ?ys = "if refs s g = 1 then g # xs else xs"
  have r1: "pp_ref (pages s ! g) = 1 \<longleftrightarrow> refs s g = 1"
    by (simp add: refs_def word_unat_eq_iff)
  obtain u where u: "page_remove s (pgdir_kva D) (slot_va d t) = Inr u" "pt_wf u D ?ys"
    "\<forall>va'. pdx va' \<in> slots \<longrightarrow> pt_entry u D va' = (if same_page (slot_va d t) va' then 0 else pt_entry s D va')"
    "\<forall>e < 1024. table_at u D e = table_at s D e"
    "\<forall>i. pp_ref (pages u ! i) = pp_ref (pages s ! i) - of_bool (i = g)" "length (pages u) = length (pages s)"
    using page_remove_present [OF wf _ _ rem, of g ?ys] b(1) p g r1 by (auto simp: sv pe)
  have pte: "pte u D e i = (if e = d \<and> i = t then 0 else pte s D e i)" if "e < user_slots" "i < 1024" for e i
  proof -
    have e: "e \<in> slots" "e < 1024" using user_slot [OF that(1)] by auto
    note sv' = slot_va_parts [OF e(2) that(2)]
    have "pt_entry u D (slot_va e i) = (if same_page (slot_va d t) (slot_va e i) then 0 else pt_entry s D (slot_va e i))"
      using u(3) e(1) sv' by simp
    then show ?thesis by (simp add: pt_entry_pte sv' sv same_page_iff)
  qed
  have m: "mappings u D h = mappings s D h - {(d, t)}" for h
    by (auto simp: mappings_def pte split: if_splits)
  have ing: "(d, t) \<in> mappings s D h \<longleftrightarrow> h = g" for h
    using d p g by (auto simp: mappings_def)
  have maps: "maps u D h = maps s D h - of_bool (h = g)" for h
    using ing [of h] finite_mappings [of s D h] by (simp add: maps_def m card_Diff_singleton_if)
  have pos: "0 < maps s D g" using ing [of g] finite_mappings by (auto simp: maps_def card_gt_0_iff)
  then have rg: "1 \<le> refs s g" using ownsD(2) [OF ow, of g] by simp
  have refs: "refs u h = refs s h - of_bool (h = g)" for h
  proof (cases "h = g")
    case True
    then have "(1 :: u16) \<le> pp_ref (pages s ! h)" using rg by (simp add: refs_def word_le_nat_alt)
    then show ?thesis using True u(5) by (simp add: refs_def unat_sub)
  qed (use u(5) in \<open>simp add: refs_def\<close>)
  have tab: "tables u D = tables s D" using u(4) by (auto simp: tables_def slots_less)
  have "owns u D ?ys"
    unfolding owns_def Let_def tab
  proof (intro conjI allI impI)
    show "pt_wf u D ?ys" by (rule u(2))
    show "maps u D h \<le> refs u h" for h using ownsD(2) [OF ow, of h] by (simp add: maps refs)
    fix e i assume e: "e < user_slots" "i < 1024" "present (pte u D e i)"
    then have ne: "\<not> (e = d \<and> i = t)" "pte u D e i = pte s D e i" by (auto simp: pte split: if_splits)
    let ?h = "frame_of (pte u D e i)"
    have h: "?h < length (pages s)" "?h \<notin> set xs" "?h \<noteq> D" "?h \<notin> tables s D"
      using ownsD(4) [OF ow e(1,2)] e(3) ne by auto
    have "?h \<noteq> g" if r: "refs s g = 1"
    proof
      assume "?h = g"
      then have "{(d, t), (e, i)} \<subseteq> mappings s D g" using ing [of g] e ne by (auto simp: mappings_def)
      then have "card {(d, t), (e, i)} \<le> maps s D g" unfolding maps_def by (intro card_mono finite_mappings)
      moreover have "card {(d, t), (e, i)} = 2" using ne(1) by auto
      ultimately show False using ownsD(2) [OF ow, of g] r by simp
    qed
    with h show "?h < length (pages u)" "?h \<notin> set ?ys" "?h \<noteq> D" "?h \<notin> tables s D"
      using u(6) by auto
  next
    fix e f assume e: "e < user_slots" "table_at u D e = Some f"
    then have ts: "table_at s D e = Some f" using u(4) user_slot by simp
    then have "f \<in> tables s D" using user_slot [OF e(1)] by (auto simp: tables_def)
    then show "refs u f = 1" using ownsD(3) [OF ow e(1) ts] gp(4) by (auto simp: refs)
  qed
  with u(1,4) pte refs maps pos show ?thesis by blast
qed

section \<open>What the loops keep\<close>

text \<open>\<open>conserved s0 xs T s ys D\<close>: on the way from \<open>s0\<close> (free list \<open>xs\<close>) to \<open>s\<close> (free list \<open>ys\<close>)
  every page lost as many references as mappings, and the free list gained exactly the
  pages that lost their last reference that way, and the page tables \<open>T\<close>.\<close>

definition conserved ::
  "'z pmap_state_scheme \<Rightarrow> nat list \<Rightarrow> nat set \<Rightarrow> 'z pmap_state_scheme \<Rightarrow> nat list \<Rightarrow> nat \<Rightarrow> bool" where
  "conserved s0 xs T s ys D \<longleftrightarrow>
     (\<forall>g. g \<notin> T \<longrightarrow> refs s g + maps s0 D g = refs s0 g + maps s D g) \<and>
     (\<forall>g. maps s D g \<le> maps s0 D g) \<and>
     set ys = set xs \<union> {g. maps s D g < maps s0 D g \<and> refs s g = 0} \<union> T"

lemma conserved_refl: "conserved s xs {} s xs D"
  by (simp add: conserved_def)

lemma conserved_remove:
  assumes c: "conserved s0 xs T s ys D" and g: "g \<notin> set ys" "0 < maps s D g" "0 < refs s g"
    and r: "\<forall>h. refs u h = refs s h - of_bool (h = g)" "\<forall>h. maps u D h = maps s D h - of_bool (h = g)"
  shows "conserved s0 xs T u (if refs s g = 1 then g # ys else ys) D"
proof -
  have le: "maps s D g \<le> maps s0 D g" using c by (simp add: conserved_def)
  have gT: "g \<notin> T" using c g(1) by (auto simp: conserved_def)
  have s: "set ys = set xs \<union> {h. maps s D h < maps s0 D h \<and> refs s h = 0} \<union> T"
    using c by (simp add: conserved_def)
  have "{h. maps u D h < maps s0 D h \<and> refs u h = 0} =
      (if refs s g = 1 then insert g {h. maps s D h < maps s0 D h \<and> refs s h = 0}
       else {h. maps s D h < maps s0 D h \<and> refs s h = 0})"
    using le g(2,3) by (auto simp: r)
  with s have "set (if refs s g = 1 then g # ys else ys) =
      set xs \<union> {h. maps u D h < maps s0 D h \<and> refs u h = 0} \<union> T" by auto
  moreover have "refs u h + maps s0 D h = refs s0 h + maps u D h" if "h \<notin> T" for h
    using c that g(2,3) by (cases "h = g") (auto simp: conserved_def r)
  moreover have "maps u D h \<le> maps s0 D h" for h
    using c by (auto simp: conserved_def r intro: le_trans [OF diff_le_self])
  ultimately show ?thesis by (simp add: conserved_def)
qed

lemma entry_kva: "kload s (page2pa f + KERNBASE + 4 * of_nat t) = entry s f t"
proof -
  have "page2pa f + KERNBASE + 4 * of_nat t = entry_pa f t + KERNBASE"
    by (simp add: page2pa_of_nat entry_pa_def)
  then show ?thesis by (simp only: kload_entry)
qed

text \<open>The inner loop: all entries of one page table.\<close>

definition in_table ::
  "'z pmap_state_scheme \<Rightarrow> nat list \<Rightarrow> nat set \<Rightarrow> 'z pmap_state_scheme \<Rightarrow> nat \<Rightarrow> nat \<Rightarrow> nat list \<Rightarrow> 'z pmap_state_scheme \<Rightarrow> bool" where
  "in_table s0 xs T s D d js u \<longleftrightarrow> same_rest s u \<and>
     (\<exists>ys. owns u D ys \<and> conserved s0 xs T u ys D) \<and>
     (\<forall>e < 1024. table_at u D e = table_at s D e) \<and>
     (\<forall>e < user_slots. \<forall>i < 1024. e \<noteq> d \<or> i \<notin> set js \<longrightarrow> pte u D e i = pte s D e i) \<and>
     (\<forall>i \<in> set js. \<not> present (pte u D d i))"

lemma free_pte_step:
  assumes inv: "in_table s0 xs T s D d js u" and d: "d < user_slots" and f: "table_at s D d = Some f"
    and t: "t < 1024" "set js \<subseteq> {..<1024}" and e: "e < length (envs s)" "env_pgdir (envs s ! e) = pgdir_kva D"
  shows "\<exists>v. free_pte e (page2pa f + KERNBASE) d t u = Inr v \<and> in_table s0 xs T s D d (js @ [t]) v"
proof -
  obtain ys where ys: "owns u D ys" "conserved s0 xs T u ys D" and su: "same_rest s u"
    and ta: "\<forall>e < 1024. table_at u D e = table_at s D e"
    and pt: "\<forall>e < user_slots. \<forall>i < 1024. e \<noteq> d \<or> i \<notin> set js \<longrightarrow> pte u D e i = pte s D e i"
    and np: "\<forall>i \<in> set js. \<not> present (pte u D d i)"
    using inv by (auto simp: in_table_def)
  have eu: "env_pgdir (envs u ! e) = pgdir_kva D" using e su by (simp add: env_same_rest)
  have fu: "table_at u D d = Some f" using ta f user_slot [OF d] by simp
  then have pe: "pte u D d t = entry u f t" by (simp add: pte_def)
  have ld: "kload u (page2pa f + KERNBASE + 4 * of_nat t) AND PTE_P \<noteq> 0 \<longleftrightarrow> present (pte u D d t)"
    unfolding entry_kva pe present_def ..
  show ?thesis
  proof (cases "present (pte u D d t)")
    case False
    have "free_pte e (page2pa f + KERNBASE) d t u = Inr u"
      unfolding free_pte_def if_not_P [OF False [folded ld]] ..
    moreover have "in_table s0 xs T s D d (js @ [t]) u"
      unfolding in_table_def using ys su ta pt np False by auto
    ultimately show ?thesis by blast
  next
    case True
    let ?g = "frame_of (pte u D d t)"
    obtain v where v: "page_remove u (pgdir_kva D) (slot_va d t) = Inr v"
      "owns v D (if refs u ?g = 1 then ?g # ys else ys)" "\<forall>e < 1024. table_at v D e = table_at u D e"
      "\<forall>e < user_slots. \<forall>i < 1024. pte v D e i = (if e = d \<and> i = t then 0 else pte u D e i)"
      "\<forall>h. refs v h = refs u h - of_bool (h = ?g)" "\<forall>h. maps v D h = maps u D h - of_bool (h = ?g)"
      "0 < maps u D ?g"
      using remove_step [OF ys(1) d t(1) True refl] by blast
    have gy: "?g \<notin> set ys" using ownsD(4) [OF ys(1) d t(1) True refl] by simp
    have rg: "0 < refs u ?g" using v(7) ownsD(2) [OF ys(1), of ?g] by simp
    have c: "conserved s0 xs T v (if refs u ?g = 1 then ?g # ys else ys) D"
      by (rule conserved_remove [OF ys(2) gy v(7) rg v(5,6)])
    have "free_pte e (page2pa f + KERNBASE) d t u = Inr v"
      unfolding free_pte_def if_P [OF True [folded ld]] eu slot_va_def [symmetric] by (rule v(1))
    moreover have "same_rest s v" using su page_remove_rest [OF v(1)] by (rule same_rest_trans)
    moreover have "\<not> present (pte v D d i)" if "i \<in> set (js @ [t])" for i
    proof -
      have "i < 1024" using that t by auto
      then have "pte v D d i = (if i = t then 0 else pte u D d i)" using v(4) d by simp
      then show ?thesis using that np by auto
    qed
    moreover have "pte v D e i = pte s D e i"
      if "e < user_slots" "i < 1024" "e \<noteq> d \<or> i \<notin> set (js @ [t])" for e i
      using that v(4) pt by auto
    ultimately show ?thesis
      using v(2,3) c ta unfolding in_table_def by (intro exI [of _ v] conjI) auto
  qed
qed

lemma free_table_loop:
  assumes ow: "owns s D ys" and c: "conserved s0 xs T s ys D" and d: "d < user_slots"
    and f: "table_at s D d = Some f" and e: "e < length (envs s)" "env_pgdir (envs s ! e) = pgdir_kva D"
  shows "\<exists>u. for_each (free_pte e (page2pa f + KERNBASE) d) [0..<1024] s = Inr u \<and>
    in_table s0 xs T s D d [0..<1024] u"
proof -
  have "in_table s0 xs T s D d [] s" using ow c by (auto simp: in_table_def)
  then have "\<exists>u. for_each (free_pte e (page2pa f + KERNBASE) d) [0..<1024] s = Inr u \<and>
      in_table s0 xs T s D d ([] @ [0..<1024]) u"
  proof (rule for_each_invariant)
    fix js z zs u
    assume split: "[] @ [0..<1024] = js @ z # zs" and inv: "in_table s0 xs T s D d js u"
    have "set (js @ z # zs) = {0..<1024}" using split by (metis append_Nil set_upt)
    then have "z < 1024" "set js \<subseteq> {..<1024}" by auto
    with inv d f e show "\<exists>v. free_pte e (page2pa f + KERNBASE) d z u = Inr v \<and>
        in_table s0 xs T s D d (js @ [z]) v"
      by (intro free_pte_step)
  qed
  then show ?thesis by (simp only: append_Nil)
qed

section \<open>Dropping a page table\<close>

lemma dir_clear:
  assumes "D < 0x100000" "d < 1024" "t = s\<lparr>mem := store32 (mem s) (entry_pa D d) 0\<rparr>"
  shows "e < 1024 \<Longrightarrow> table_at t D e = (if e = d then None else table_at s D e)"
    "f < 0x100000 \<Longrightarrow> f \<noteq> D \<Longrightarrow> i < 1024 \<Longrightarrow> entry t f i = entry s f i"
  using assms by (auto simp: table_at_def entry_store entry_def [of s])

lemma drop_table:
  assumes ow: "owns s D ys" and c: "conserved s0 xs T s ys D" and d: "d < user_slots"
    and f: "table_at s D d = Some f" and empty: "\<forall>i < 1024. \<not> present (pte s D d i)"
    and t: "t = s\<lparr>mem := store32 (mem s) (entry_pa D d) 0\<rparr>" and f0: "f \<notin> T" "maps s0 D f = 0"
  shows "\<exists>u. page_decref t f = Inr u \<and> owns u D (f # ys) \<and> conserved s0 xs (insert f T) u (f # ys) D \<and>
    (\<forall>e < 1024. table_at u D e = (if e = d then None else table_at s D e)) \<and>
    (\<forall>e < user_slots. \<forall>i < 1024. e \<noteq> d \<longrightarrow> pte u D e i = pte s D e i) \<and> same_rest s u"
proof -
  note wf = ownsD(1) [OF ow]
  have b: "d \<in> slots" "d < 1024" using user_slot [OF d] by auto
  have D: "D < 0x100000" using pt_wf_bound [OF wf pt_wfD(4) [OF wf]] by simp
  have fp: "f < length (pages s)" "f \<noteq> D" "f \<notin> set ys" using pt_wf_table [OF wf b(1) f] by auto
  have r1: "refs s f = 1" using ownsD(3) [OF ow d f] .
  have ft: "free_pages t ys"
  proof -
    have "page_link t = page_link s" by (simp add: t page_link_def fun_eq_iff)
    then show ?thesis using pt_wfD(3) [OF wf] by (simp add: t free_pages_def page_cap_def)
  qed
  have "pp_ref (pages t ! f) = 1" using r1 by (simp add: t refs_def word_unat_eq_iff)
  with page_decref_eq [OF ft, of f] obtain u where u: "page_decref t f = Inr u" "mem u = mem t"
    "npages u = npages t" "length (pages u) = length (pages t)" "free_pages u (f # ys)"
    "\<forall>i. pp_ref (pages u ! i) = pp_ref (pages t ! i) - of_bool (i = f)"
    using fp by (auto simp: t)
  have len: "length (pages u) = length (pages s)" using u(4) by (simp add: t)
  note dc = dir_clear [OF D b(2) t]
  have ta: "table_at u D e = (if e = d then None else table_at s D e)" if "e < 1024" for e
    using dc(1) [OF that] by (simp add: table_at_mem [OF u(2)])
  have tabs: "tables u D = tables s D - {f}"
  proof (intro equalityI subsetI)
    fix g assume "g \<in> tables u D"
    then obtain e where e: "e \<in> slots" "table_at u D e = Some g" by (auto simp: tables_def)
    then have "table_at s D e = Some g" "e \<noteq> d" using ta [OF slots_less [OF e(1)]] by (auto split: if_splits)
    then show "g \<in> tables s D - {f}" using e(1) pt_wf_inj [OF wf b(1) e(1) f] by (auto simp: tables_def)
  next
    fix g assume "g \<in> tables s D - {f}"
    then obtain e where e: "e \<in> slots" "table_at s D e = Some g" "g \<noteq> f" by (auto simp: tables_def)
    then have "e \<noteq> d" using f by auto
    then have "table_at u D e = Some g" using ta [OF slots_less [OF e(1)]] e(2) by simp
    with e(1) show "g \<in> tables u D" by (auto simp: tables_def)
  qed
  have pte: "pte u D e i = (if e = d then 0 else pte s D e i)" if "e \<in> slots" "i < 1024" for e i
  proof (cases "table_at s D e")
    case (Some g)
    then have g: "g < 0x100000" "g \<noteq> D" using pt_wf_table [OF wf that(1) Some] pt_wf_bound [OF wf, of g] by auto
    have "entry u g i = entry s g i" using dc(2) [OF g that(2)] u(2) by (simp add: entry_def)
    then show ?thesis using Some slots_less [OF that(1)] by (simp add: pte_def ta)
  qed (use slots_less [OF that(1)] in \<open>simp add: pte_def ta\<close>)
  have "mappings u D g = mappings s D g" for g
    using empty user_slot by (auto simp: mappings_def pte split: if_splits)
  then have maps: "maps u D g = maps s D g" for g by (simp add: maps_def)
  have refs: "refs u g = (if g = f then 0 else refs s g)" for g
  proof (cases "g = f")
    case True
    have "pp_ref (pages s ! f) = 1" using r1 by (simp add: refs_def word_unat_eq_iff)
    with True u(6) show ?thesis by (simp add: refs_def t)
  qed (use u(6) in \<open>simp add: refs_def t\<close>)
  have "maps s D f = 0" using c f0(2) unfolding conserved_def by (metis le_zero_eq)
  have "pt_wf u D (f # ys)"
    unfolding pt_wf_def
  proof (intro conjI)
    show "pages_wf u" "unat (npages u) \<le> 0x10000"
      using pt_wfD(1,2) [OF wf] u(3,4) by (simp_all add: t pages_wf_def)
    show "free_pages u (f # ys)" by (rule u(5))
    show "D < length (pages u)" "D \<notin> set (f # ys)" using pt_wfD(4,5) [OF wf] len fp by auto
    show "\<forall>e \<in> slots. \<forall>g. table_at u D e = Some g \<longrightarrow> g < length (pages u) \<and> g \<noteq> D \<and> g \<notin> set (f # ys)"
    proof (intro ballI allI impI)
      fix e g assume a: "e \<in> slots" "table_at u D e = Some g"
      then have "table_at s D e = Some g" "e \<noteq> d" using slots_less [OF a(1)] by (auto simp: ta split: if_splits)
      then show "g < length (pages u) \<and> g \<noteq> D \<and> g \<notin> set (f # ys)"
        using pt_wf_table [OF wf a(1)] pt_wf_inj [OF wf b(1) a(1) f] len by auto
    qed
    show "\<forall>e \<in> slots. \<forall>e' \<in> slots. \<forall>g. table_at u D e = Some g \<longrightarrow> table_at u D e' = Some g \<longrightarrow> e = e'"
      using pt_wf_inj [OF wf] by (auto simp: ta slots_less split: if_splits)
  qed
  moreover have "g < length (pages u) \<and> g \<notin> set (f # ys) \<and> g \<noteq> D \<and> g \<notin> tables u D"
    if "e < user_slots" "i < 1024" "present (pte u D e i)" "g = frame_of (pte u D e i)" for e i g
  proof -
    have "e \<noteq> d" "pte u D e i = pte s D e i" using that user_slot by (auto simp: pte split: if_splits)
    then show ?thesis
      using ownsD(4) [OF ow that(1,2)] that f b(1) len by (auto simp: tabs) (auto simp: tables_def)
  qed
  moreover have "maps u D g \<le> refs u g" for g
    using ownsD(2) [OF ow, of g] \<open>maps s D f = 0\<close> by (simp add: maps refs)
  moreover have "refs u g = 1" if "e < user_slots" "table_at u D e = Some g" for e g
  proof -
    have "table_at s D e = Some g" "e \<noteq> d" using that user_slot by (auto simp: ta split: if_splits)
    then show ?thesis
      using ownsD(3) [OF ow that(1)] pt_wf_inj [OF wf b(1) _ f] user_slot [OF that(1)] by (auto simp: refs)
  qed
  ultimately have "owns u D (f # ys)" by (auto simp: owns_def Let_def)
  moreover have "conserved s0 xs (insert f T) u (f # ys) D"
    using c f0 \<open>maps s D f = 0\<close> by (auto simp: conserved_def maps refs)
  moreover have "same_rest s u" using page_decref_rest [OF u(1)] by (auto simp: t same_rest_def)
  ultimately show ?thesis using u(1) ta pte user_slot by auto
qed

section \<open>All page tables\<close>

definition dropped :: "'z pmap_state_scheme \<Rightarrow> nat \<Rightarrow> nat set \<Rightarrow> nat set" where
  "dropped s D ds = {f. \<exists>d \<in> ds. table_at s D d = Some f}"

definition outer ::
  "'z pmap_state_scheme \<Rightarrow> nat list \<Rightarrow> nat \<Rightarrow> nat list \<Rightarrow> 'z pmap_state_scheme \<Rightarrow> bool" where
  "outer s xs D ds u \<longleftrightarrow> same_rest s u \<and>
     (\<exists>ys. owns u D ys \<and> conserved s xs (dropped s D (set ds)) u ys D) \<and>
     (\<forall>e < 1024. table_at u D e = (if e \<in> set ds then None else table_at s D e))"

lemma last_PTX: "unat (PTX (NOT 0)) + 1 = 1024"
proof -
  have "unat (- 1 :: u32) = 4294967295" by (simp add: unsigned_minus_1_eq_mask mask_eq_exp_minus_1)
  then show ?thesis by (simp add: unat_PTX)
qed

lemma free_pde_step:
  assumes ow: "owns s D xs" and inv: "outer s xs D ds u" and d: "d < user_slots" "d \<notin> set ds"
    and ds: "set ds \<subseteq> {..<user_slots}"
    and e: "e < length (envs s)" "env_pgdir (envs s ! e) = pgdir_kva D"
  shows "\<exists>v. free_pde e d u = Inr v \<and> outer s xs D (ds @ [d]) v"
proof -
  obtain ys where ys: "owns u D ys" "conserved s xs (dropped s D (set ds)) u ys D" and su: "same_rest s u"
    and ta: "\<forall>e < 1024. table_at u D e = (if e \<in> set ds then None else table_at s D e)"
    using inv by (auto simp: outer_def)
  have b: "d \<in> slots" "d < 1024" using user_slot [OF d(1)] by auto
  have eu: "env_pgdir (envs u ! e) = pgdir_kva D" "e < length (envs u)" using e su by (simp_all add: env_same_rest)
  have td: "table_at u D d = table_at s D d" using ta b d by simp
  show ?thesis
  proof (cases "table_at u D d")
    case None
    then have "entry u D d AND PTE_P = 0" by (auto simp: table_at_def present_def split: if_splits)
    then have "free_pde e d u = Inr u" by (simp add: free_pde_def eu dir_kva)
    moreover have "dropped s D (set (ds @ [d])) = dropped s D (set ds)"
      using None td by (auto simp: dropped_def)
    then have "outer s xs D (ds @ [d]) u"
      using ys su ta None b by (auto simp: outer_def)
    ultimately show ?thesis by blast
  next
    case (Some f)
    let ?T = "dropped s D (set ds)"
    have fs: "table_at s D d = Some f" using Some td by simp
    have p: "entry u D d AND PTE_P \<noteq> 0" "frame_of (entry u D d) = f"
      using Some by (auto simp: table_at_def present_def split: if_splits)
    note wfu = ownsD(1) [OF ys(1)]
    have fl: "f < length (pages u)" using pt_wf_table [OF wfu b(1) Some] by simp
    have K: "KADDR u (PTE_ADDR (entry u D d)) = Inr (page2pa f + KERNBASE)"
      by (rule KADDR_table [OF pt_wfD(1) [OF wfu] fl p(2)])
    obtain v where v: "for_each (free_pte e (page2pa f + KERNBASE) d) [0..<1024] u = Inr v"
      "in_table s xs ?T u D d [0..<1024] v"
      using free_table_loop [OF ys d(1) Some eu(2,1)] by blast
    obtain zs where zs: "owns v D zs" "conserved s xs ?T v zs D" and uv: "same_rest u v"
      and tv: "\<forall>e < 1024. table_at v D e = table_at u D e"
      and np: "\<forall>i < 1024. \<not> present (pte v D d i)"
      using v(2) by (auto simp: in_table_def simp del: upt_rec_numeral)
    have ev: "env_pgdir (envs v ! e) = pgdir_kva D" using eu uv by (simp add: env_same_rest)
    have fv: "table_at v D d = Some f" using tv b Some by simp
    have fT: "f \<notin> ?T"
    proof
      assume "f \<in> ?T"
      then obtain d' where "d' \<in> set ds" "table_at s D d' = Some f" by (auto simp: dropped_def)
      then show False
        using pt_wf_inj [OF ownsD(1) [OF ow] b(1) _ fs, of d'] d(2) ds user_slot by blast
    qed
    have f0: "maps s D f = 0"
    proof -
      have "f \<in> tables s D" using fs b by (auto simp: tables_def)
      then have "mappings s D f = {}" using ownsD(4) [OF ow] by (auto simp: mappings_def)
      then show ?thesis by (simp add: maps_def)
    qed
    obtain w where w: "page_decref (v\<lparr>mem := store32 (mem v) (entry_pa D d) 0\<rparr>) f = Inr w" "owns w D (f # zs)"
      "conserved s xs (insert f ?T) w (f # zs) D"
      "\<forall>e < 1024. table_at w D e = (if e = d then None else table_at v D e)" "same_rest v w"
      using drop_table [OF zs d(1) fv np refl fT f0] by blast
    have "pages_wf (v\<lparr>mem := store32 (mem v) (entry_pa D d) 0\<rparr>)"
      using pt_wfD(1) [OF ownsD(1) [OF zs(1)]] by (simp add: pages_wf_def)
    moreover have "f < length (pages v)" using fl uv by (simp add: same_rest_def)
    ultimately have "pa2page (v\<lparr>mem := store32 (mem v) (entry_pa D d) 0\<rparr>) (page2pa f) = Inr f"
      by (intro pa2page_page2pa) simp_all
    then have "free_pde e d u = Inr w"
      using p K v(1) w(1)
      unfolding free_pde_def last_PTX
      by (simp add: eu(1) ev dir_kva Let_def PTE_ADDR_frame del: KERNBASE_def upt_rec_numeral)
    moreover have "dropped s D (set (ds @ [d])) = insert f ?T"
      using fs by (auto simp: dropped_def)
    then have "outer s xs D (ds @ [d]) w"
      using w(2,3,4,5) tv ta su uv unfolding outer_def
      by (intro conjI) (blast intro: same_rest_trans, metis, auto)
    ultimately show ?thesis by blast
  qed
qed

lemma free_pdes_loop:
  assumes ow: "owns s D xs" and e: "e < length (envs s)" "env_pgdir (envs s ! e) = pgdir_kva D"
  shows "\<exists>u. for_each (free_pde e) [0..<user_slots] s = Inr u \<and> outer s xs D [0..<user_slots] u"
proof -
  have "outer s xs D [] s"
    using ow conserved_refl [of s xs D] by (auto simp: outer_def dropped_def)
  then have "\<exists>u. for_each (free_pde e) [0..<user_slots] s = Inr u \<and> outer s xs D ([] @ [0..<user_slots]) u"
  proof (rule for_each_invariant)
    fix ds z zs u
    assume split: "[] @ [0..<user_slots] = ds @ z # zs" and inv: "outer s xs D ds u"
    have "set (ds @ z # zs) = {0..<user_slots}" "distinct (ds @ z # zs)"
      using split by (metis append_Nil set_upt, metis append_Nil distinct_upt)
    then have "z < user_slots" "z \<notin> set ds" "set ds \<subseteq> {..<user_slots}" by auto
    with ow inv e show "\<exists>v. free_pde e z u = Inr v \<and> outer s xs D (ds @ [z]) v"
      by (intro free_pde_step)
  qed
  then show ?thesis by (simp only: append_Nil)
qed

lemma owns_cong:
  assumes "mem t = mem s" "pages t = pages s" "npages t = npages s" "page_free_list t = page_free_list s"
  shows "owns t D xs = owns s D xs" "maps t D g = maps s D g" "refs t g = refs s g"
    "table_at t D d = table_at s D d" "tables t D = tables s D"
proof -
  show ta: "table_at t D d = table_at s D d" for d by (rule table_at_mem [OF assms(1)])
  show tabs: "tables t D = tables s D" by (simp add: tables_def ta)
  have en: "entry t f i = entry s f i" for f i using assms(1) by (simp add: entry_def)
  have pt: "pte t D d i = pte s D d i" for d i by (simp add: pte_def ta en split: option.split)
  show maps: "maps t D g = maps s D g" for g by (simp add: maps_def mappings_def pt)
  show refs: "refs t g = refs s g" for g by (simp add: refs_def assms(2))
  have "page_link t = page_link s" using assms(2) by (simp add: page_link_def fun_eq_iff)
  then have "pt_wf t D xs = pt_wf s D xs"
    using assms by (simp add: pt_wf_def pages_wf_def free_pages_def page_cap_def ta)
  then show "owns t D xs = owns s D xs" by (simp add: owns_def pt maps refs ta tabs assms(2))
qed

lemma env_free_spec:
  assumes ow: "owns s D xs" and e: "e < length (envs s)" "env_pgdir (envs s ! e) = pgdir_kva D"
    and k: "KERNBASE \<le> kern_pgdir s"
  shows "\<exists>t ys. env_free s e = Inr t \<and> free_pages t ys \<and> distinct ys \<and>
    set ys = set xs \<union> {g. 0 < maps s D g \<and> refs s g = maps s D g} \<union>
      {f. \<exists>d < user_slots. table_at s D d = Some f} \<union> (if refs s D = 1 then {D} else {}) \<and>
    (\<forall>g. g \<noteq> D \<and> (\<forall>d < user_slots. table_at s D d \<noteq> Some g) \<longrightarrow> refs t g = refs s g - maps s D g) \<and>
    env_status (envs t ! e) = ENV_FREE \<and> env_pgdir (envs t ! e) = 0 \<and>
    env_free_list t = Some e \<and> env_link (envs t ! e) = env_free_list s"
proof -
  let ?c = "if Some e = curenv s then s\<lparr>cr3 := kern_pgdir s - KERNBASE\<rparr> else s"
  define s1 where "s1 = cprintf (''[%08x] free env %08x'' @ nl) [curenv_id ?c, env_id (envs ?c ! e)] ?c"
  have same: "mem s1 = mem s" "pages s1 = pages s" "npages s1 = npages s" "page_free_list s1 = page_free_list s"
    by (simp_all add: s1_def cprintf_def)
  have es: "envs s1 = envs s" "env_free_list s1 = env_free_list s" by (simp_all add: s1_def cprintf_def)
  note cong = owns_cong [OF same]
  have ow1: "owns s1 D xs" unfolding cong(1) by (rule ow)
  have e1: "e < length (envs s1)" "env_pgdir (envs s1 ! e) = pgdir_kva D" unfolding es by (fact e)+
  obtain u where u: "for_each (free_pde e) [0..<user_slots] s1 = Inr u" "outer s1 xs D [0..<user_slots] u"
    using free_pdes_loop [OF ow1 e1] by blast
  let ?T = "{f. \<exists>d < user_slots. table_at s D d = Some f}"
  have dT: "dropped s1 D (set [0..<user_slots]) = ?T" by (auto simp: dropped_def cong(4))
  obtain ys where ys: "owns u D ys" "conserved s1 xs ?T u ys D" and su: "same_rest s1 u"
    and ta: "\<forall>d < 1024. table_at u D d = (if d \<in> set [0..<user_slots] then None else table_at s1 D d)"
    using u(2) unfolding outer_def dT by blast
  have "pte u D d i = 0" if "d < user_slots" for d i
  proof -
    have "table_at u D d = None" using ta that user_slot [OF that] by simp
    then show ?thesis by (simp add: pte_def)
  qed
  then have "mappings u D g = {}" for g by (auto simp: mappings_def)
  then have m0: "maps u D g = 0" for g by (simp add: maps_def)
  note c = ys(2) [unfolded conserved_def m0 cong(2,3)]
  have fr: "free_pages u ys" and wfu: "pt_wf u D ys" using ownsD(1) [OF ys(1)] pt_wfD(3) by auto
  have D: "D < length (pages u)" "D \<notin> set ys" "D < 0x10000" using pt_wfD(4,5) [OF wfu] pt_wf_bound [OF wfu] by auto
  have mD: "maps s D D = 0"
  proof -
    have "mappings s D D = {}" using ownsD(4) [OF ow] by (auto simp: mappings_def)
    then show ?thesis by (simp add: maps_def)
  qed
  have DT: "D \<notin> ?T" using pt_wf_table [OF ownsD(1) [OF ow]] user_slot by blast
  have rD: "refs u D = refs s D" using c DT mD by auto
  have eu: "e < length (envs u)" "env_pgdir (envs u ! e) = pgdir_kva D" "envs u = envs s"
    "env_free_list u = env_free_list s"
    using e env_same_rest [OF su] by (simp_all add: es)
  let ?v = "u\<lparr>envs := (envs u)[e := (envs u ! e)\<lparr>env_pgdir := 0\<rparr>]\<rparr>"
  have lv: "page_link ?v = page_link u" by (simp add: page_link_def fun_eq_iff)
  have fv: "free_pages ?v ys" using fr by (simp add: free_pages_def page_cap_def lv)
  have "D < length (pages ?v)" using D by simp
  from page_decref_eq [OF fv this D(2)] obtain w where w: "page_decref ?v D = Inr w"
    "free_pages w (if pp_ref (pages u ! D) = 1 then D # ys else ys)"
    "\<forall>i. pp_ref (pages w ! i) = pp_ref (pages u ! i) - of_bool (i = D)" by auto
  have sw: "same_rest ?v w" by (rule page_decref_rest [OF w(1)])
  let ?t = "w\<lparr>envs := (envs w)[e := (envs w ! e)\<lparr>env_status := ENV_FREE, env_link := env_free_list w\<rparr>],
    env_free_list := Some e\<rparr>"
  have ew: "envs w = envs ?v" "env_free_list w = env_free_list s" using env_same_rest [OF sw] eu by simp_all
  have put: "env_put w e = Inr ?t" using eu by (simp add: env_put_eq ew)
  have "PADDR (pgdir_kva D) = Inr (page2pa D)"
    using pgdir_kva_ge [OF D(3)] by (simp add: PADDR_def pgdir_kva_def)
  moreover have "pages_wf ?v" using pt_wfD(1) [OF wfu] by (simp add: pages_wf_def)
  then have "pa2page ?v (page2pa D) = Inr D" using D(1) by (intro pa2page_page2pa) simp_all
  moreover have "PADDR (kern_pgdir s) = Inr (kern_pgdir s - KERNBASE)"
    using k by (simp add: PADDR_def linorder_not_less [symmetric])
  ultimately have r: "env_free s e = Inr ?t"
    using e eu w(1) put u(1) [unfolded s1_def]
    unfolding env_free_def user_slots_UTOP
    by (cases "Some e = curenv s")
      (simp_all add: upd_env_def Let_def del: KERNBASE_def ENV_FREE_def)
  let ?ys = "if pp_ref (pages u ! D) = 1 then D # ys else ys"
  have r1: "pp_ref (pages u ! D) = 1 \<longleftrightarrow> refs s D = 1" using rD by (simp add: refs_def word_unat_eq_iff)
  have "page_link ?t = page_link w" by (simp add: page_link_def fun_eq_iff)
  then have ft: "free_pages ?t ?ys" using w(2) by (simp add: free_pages_def page_cap_def)
  have "set ys = set xs \<union> {g. 0 < maps s D g \<and> refs u g = 0} \<union> ?T" using c by auto
  moreover have "{g. 0 < maps s D g \<and> refs u g = 0} \<union> ?T = {g. 0 < maps s D g \<and> refs s g = maps s D g} \<union> ?T"
    using c by fastforce
  ultimately have "set ?ys = set xs \<union> {g. 0 < maps s D g \<and> refs s g = maps s D g} \<union> ?T \<union>
      (if refs s D = 1 then {D} else {})"
    unfolding r1 by auto
  moreover have "refs ?t g = refs s g - maps s D g" if "g \<noteq> D" "g \<notin> ?T" for g
  proof -
    have "refs ?t g = refs u g" using w(3) that(1) by (simp add: refs_def)
    moreover have "refs u g + maps s D g = refs s g" using c that(2) by simp
    ultimately show ?thesis by simp
  qed
  moreover have "distinct ?ys" using ft unfolding free_pages_eq by (rule pg.free_distinct)
  moreover have "env_status (envs ?t ! e) = ENV_FREE" "env_pgdir (envs ?t ! e) = 0"
    "env_link (envs ?t ! e) = env_free_list s"
    using eu by (simp_all add: ew)
  ultimately show ?thesis using r ft by (intro exI [of _ ?t] exI [of _ ?ys]) simp
qed

text \<open>C7: \<open>env_free\<close> gives back exactly what the environment held. On a directory whose user
  half is sound it ends without a fault, and afterwards the free list holds, besides what
  it held before, the page tables of the user half, the page directory if this was its
  last reference, and every user page all of whose references were mappings of this
  environment; every other page lost one reference for each of its mappings. The
  environment is marked free, has no directory and is first on the free list.\<close>

theorem env_free_gives_back:
  assumes ow: "owns s D xs" and e: "e < length (envs s)" "env_pgdir (envs s ! e) = pgdir_kva D"
    and k: "KERNBASE \<le> kern_pgdir s"
  shows "\<exists>t ys. env_free s e = Inr t \<and> free_pages t ys \<and> distinct ys \<and>
    set ys = set xs \<union> {g. 0 < maps s D g \<and> refs s g = maps s D g} \<union>
      {f. \<exists>d < user_slots. table_at s D d = Some f} \<union> (if refs s D = 1 then {D} else {}) \<and>
    (\<forall>g. g \<noteq> D \<and> (\<forall>d < user_slots. table_at s D d \<noteq> Some g) \<longrightarrow> refs t g = refs s g - maps s D g) \<and>
    env_status (envs t ! e) = ENV_FREE \<and> env_pgdir (envs t ! e) = 0 \<and>
    env_free_list t = Some e \<and> env_link (envs t ! e) = env_free_list s"
  using assms by (rule env_free_spec)

text \<open>Freeing environment 3 of \<^const>\<open>demo_envs\<close>: page 1 is mapped at \<open>0x800000\<close> through the
  table in page 2, the directory is page 3.\<close>

definition demo_free :: env_state where
  "demo_free = demo_envs\<lparr>kern_pgdir := 0xF0000000\<rparr>"

lemma demo_free_sel: "mem demo_free = mem demo_mapped" "pages demo_free = pages demo_mapped"
  "npages demo_free = npages demo_mapped" "page_free_list demo_free = page_free_list demo_mapped"
  "envs demo_free = envs demo_envs" "kern_pgdir demo_free = 0xF0000000"
  by (simp_all add: demo_free_def demo_envs_def pmap_state.defs)

lemma demo_free_entry: "entry demo_free f i = entry demo_mapped f i"
  by (simp add: entry_def demo_free_sel)

lemma demo_free_table: "d < 1024 \<Longrightarrow> table_at demo_free 3 d = (if d = 2 then Some 2 else None)"
  using demo_mapped_table [of d] unfolding table_at_def demo_free_entry .

lemma demo_free_pte: "d < user_slots \<Longrightarrow> i < 1024 \<Longrightarrow>
    pte demo_free 3 d i = (if d = 2 \<and> i = 0 then 0x1007 else 0)"
  using demo_mapped_entry [of 2 i] user_slot [of d]
  by (auto simp: pte_def demo_free_table demo_free_entry)

lemma demo_free_maps: "maps demo_free 3 g = of_bool (g = 1)"
proof -
  have "frame_of 0x1007 = 1" "present 0x1007" by (simp_all add: frame_of_def PGNUM_def present_def)
  then have "mappings demo_free 3 g = (if g = 1 then {(2, 0)} else {})"
    by (auto simp: mappings_def demo_free_pte user_slots_def split: if_splits)
  then show ?thesis by (simp add: maps_def)
qed

lemma demo_free_refs: "g < 4 \<Longrightarrow> refs demo_free g = 1"
  by (simp add: refs_def demo_free_sel) (simp add: demo_mapped_def)

lemma demo_free_owns: "owns demo_free 3 []"
proof -
  have "pt_wf demo_free 3 []"
    using demo_mapped_wf by (simp add: pt_wf_def pages_wf_def free_pages_def page_cap_def demo_free_sel
        demo_free_table demo_mapped_table slots_less)
  moreover have "tables demo_free 3 \<subseteq> {2}"
    by (auto simp: tables_def demo_free_table slots_less split: if_splits)
  moreover have "frame_of 0x1007 = 1" "length (pages demo_free) = 4"
    by (simp_all add: frame_of_def PGNUM_def demo_free_sel demo_mapped_def)
  ultimately show ?thesis
    using demo_free_refs [of 1] demo_free_refs [of 2] user_slot
    by (auto simp: owns_def Let_def demo_free_pte demo_free_maps demo_free_table)
qed

theorem env_free_gives_back_witness:
  "\<exists>t ys. env_free demo_free 3 = Inr t \<and> free_pages t ys \<and> set ys = {1, 2, 3} \<and> env_free_list t = Some 3"
proof -
  have h: "3 < length (envs demo_free)" "env_pgdir (envs demo_free ! 3) = pgdir_kva 3"
    "KERNBASE \<le> kern_pgdir demo_free"
    by (simp_all add: demo_free_sel demo_envs_nth)
  obtain t ys where t: "env_free demo_free 3 = Inr t" "free_pages t ys" "env_free_list t = Some 3"
    "set ys = set [] \<union> {g. 0 < maps demo_free 3 g \<and> refs demo_free g = maps demo_free 3 g} \<union>
      {f. \<exists>d < user_slots. table_at demo_free 3 d = Some f} \<union> (if refs demo_free 3 = 1 then {3} else {})"
    using env_free_gives_back [OF demo_free_owns h] by blast
  have "{f. \<exists>d < user_slots. table_at demo_free 3 d = Some f} = {2}"
    using user_slot by (auto simp: demo_free_table split: if_splits intro!: exI [of _ 2]) (simp add: user_slots_def)
  moreover have "{g. 0 < maps demo_free 3 g \<and> refs demo_free g = maps demo_free 3 g} = {1}"
    using demo_free_refs [of 1] by (auto simp: demo_free_maps)
  ultimately have "set ys = {1, 2, 3}" using t(4) demo_free_refs [of 3] by auto
  with t(1-3) show ?thesis by blast
qed

end
