(* ===== verification/Console.thy ===== *)
theory Console
  imports Prelude
begin

text \<open>
  The console of \<open>kern/console.c\<close>: the serial port, the parallel port, the text display, the
  keyboard and the circular input buffer they feed.

  A device is the sequence of bytes the reads of its port return: \<open>port_in s p n\<close> is what
  the \<open>n\<close>th \<open>inb(p)\<close> reads. Every \<open>outb\<close> is recorded, newest first. The display memory is the
  list \<open>crt_buf\<close>; an access outside it is a fault.
\<close>

section \<open>State\<close>

record console_state =
  port_in :: "u32 \<Rightarrow> nat \<Rightarrow> u8"
  port_reads :: "u32 \<Rightarrow> nat"
  port_out :: "(u32 \<times> u8) list"
  serial_exists :: bool
  addr_6845 :: u32
  crt_buf :: "u16 list"
  crt_pos :: u16
  shift :: u32
  cons_buf :: "u8 list"
  cons_rpos :: u32
  cons_wpos :: u32

definition inb :: "u32 \<Rightarrow> 'z console_state_scheme \<Rightarrow> u8 \<times> 'z console_state_scheme" where
  "inb p s = (port_in s p (port_reads s p), s\<lparr>port_reads := (port_reads s)(p := Suc (port_reads s p))\<rparr>)"

definition outb :: "u32 \<Rightarrow> u8 \<Rightarrow> 'z console_state_scheme \<Rightarrow> 'z console_state_scheme" where
  "outb p b s = s\<lparr>port_out := (p, b) # port_out s\<rparr>"

definition delay :: "'z console_state_scheme \<Rightarrow> 'z console_state_scheme" where
  "delay s = snd (inb 0x84 (snd (inb 0x84 (snd (inb 0x84 (snd (inb 0x84 s)))))))"

text \<open>The wait loops of \<open>serial_putc\<close> and \<open>lpt_putc\<close>: poll a status port until a bit of the
  mask is set, at most \<open>n\<close> delays.\<close>

fun poll :: "u32 \<Rightarrow> u8 \<Rightarrow> nat \<Rightarrow> 'z console_state_scheme \<Rightarrow> 'z console_state_scheme" where
  "poll p m 0 s = snd (inb p s)"
| "poll p m (Suc n) s =
     (let (b, s) = inb p s in if b AND m = 0 then poll p m n (delay s) else s)"

section \<open>Serial and parallel port\<close>

definition COM1 :: u32 where [simp]: "COM1 = 0x3F8"
definition COM_RX :: u32 where [simp]: "COM_RX = 0"
definition COM_TX :: u32 where [simp]: "COM_TX = 0"
definition COM_DLL :: u32 where [simp]: "COM_DLL = 0"
definition COM_DLM :: u32 where [simp]: "COM_DLM = 1"
definition COM_IER :: u32 where [simp]: "COM_IER = 1"
definition COM_IER_RDI :: u8 where [simp]: "COM_IER_RDI = 0x01"
definition COM_IIR :: u32 where [simp]: "COM_IIR = 2"
definition COM_FCR :: u32 where [simp]: "COM_FCR = 2"
definition COM_LCR :: u32 where [simp]: "COM_LCR = 3"
definition COM_LCR_DLAB :: u8 where [simp]: "COM_LCR_DLAB = 0x80"
definition COM_LCR_WLEN8 :: u8 where [simp]: "COM_LCR_WLEN8 = 0x03"
definition COM_MCR :: u32 where [simp]: "COM_MCR = 4"
definition COM_LSR :: u32 where [simp]: "COM_LSR = 5"
definition COM_LSR_DATA :: u8 where [simp]: "COM_LSR_DATA = 0x01"
definition COM_LSR_TXRDY :: u8 where [simp]: "COM_LSR_TXRDY = 0x20"

definition serial_proc_data :: "'z console_state_scheme \<Rightarrow> fault + int \<times> 'z console_state_scheme" where
  "serial_proc_data s =
     (let (lsr, s) = inb (COM1 + COM_LSR) s in
      if lsr AND COM_LSR_DATA = 0 then Inr (- 1, s)
      else let (c, s) = inb (COM1 + COM_RX) s in Inr (uint c, s))"

definition serial_putc :: "u32 \<Rightarrow> 'z console_state_scheme \<Rightarrow> 'z console_state_scheme" where
  "serial_putc c s = outb (COM1 + COM_TX) (ucast c) (poll (COM1 + COM_LSR) COM_LSR_TXRDY 12800 s)"

definition serial_init :: "'z console_state_scheme \<Rightarrow> 'z console_state_scheme" where
  "serial_init s =
     (let s = outb (COM1 + COM_FCR) 0 s;
          s = outb (COM1 + COM_LCR) COM_LCR_DLAB s;
          s = outb (COM1 + COM_DLL) (of_nat (115200 div 9600)) s;
          s = outb (COM1 + COM_DLM) 0 s;
          s = outb (COM1 + COM_LCR) (COM_LCR_WLEN8 AND NOT COM_LCR_DLAB) s;
          s = outb (COM1 + COM_MCR) 0 s;
          s = outb (COM1 + COM_IER) COM_IER_RDI s;
          (lsr, s) = inb (COM1 + COM_LSR) s;
          s = s\<lparr>serial_exists := (lsr \<noteq> 0xFF)\<rparr>;
          s = snd (inb (COM1 + COM_IIR) s)
      in snd (inb (COM1 + COM_RX) s))"

definition lpt_putc :: "u32 \<Rightarrow> 'z console_state_scheme \<Rightarrow> 'z console_state_scheme" where
  "lpt_putc c s =
     (let s = poll (0x378 + 1) 0x80 12800 s;
          s = outb (0x378 + 0) (ucast c) s;
          s = outb (0x378 + 2) (0x08 OR 0x04 OR 0x01) s
      in outb (0x378 + 2) 0x08 s)"

section \<open>The display\<close>

definition CRT_COLS :: nat where [simp]: "CRT_COLS = 80"
definition CRT_ROWS :: nat where [simp]: "CRT_ROWS = 25"
definition CRT_SIZE :: nat where [simp]: "CRT_SIZE = CRT_ROWS * CRT_COLS"
definition MONO_BASE :: u32 where [simp]: "MONO_BASE = 0x3B4"
definition CGA_BASE :: u32 where [simp]: "CGA_BASE = 0x3D4"

text \<open>\<open>cga_init\<close> finds out which display there is by writing to the colour buffer and reading
  it back. \<open>has_cga\<close> says whether the value sticks; \<open>cells\<close> is what the buffer holds.\<close>

definition cga_init :: "bool \<Rightarrow> u16 list \<Rightarrow> 'z console_state_scheme \<Rightarrow> 'z console_state_scheme" where
  "cga_init has_cga cells s =
     (let s = s\<lparr>addr_6845 := (if has_cga then CGA_BASE else MONO_BASE)\<rparr>;
          s = outb (addr_6845 s) 14 s;
          (hi, s) = inb (addr_6845 s + 1) s;
          s = outb (addr_6845 s) 15 s;
          (lo, s) = inb (addr_6845 s + 1) s;
          pos = (push_bit 8 (ucast hi) OR ucast lo :: u32)
      in s\<lparr>crt_buf := cells, crt_pos := ucast pos\<rparr>)"

definition set_cell :: "nat \<Rightarrow> u16 \<Rightarrow> 'z console_state_scheme \<Rightarrow> fault + 'z console_state_scheme" where
  "set_cell i v s = (if i < length (crt_buf s) then Inr (s\<lparr>crt_buf := (crt_buf s)[i := v]\<rparr>)
     else Inl Wild_Access)"

text \<open>The end of \<open>cga_putc\<close>: scroll by one line when the position left the screen, and move the
  cursor. The scroll is the \<open>memmove\<close> of all lines but the first.\<close>

definition cga_finish :: "'z console_state_scheme \<Rightarrow> fault + 'z console_state_scheme" where
  "cga_finish s =
     bindr (if unat (crt_pos s) \<ge> CRT_SIZE then
              (if length (crt_buf s) < CRT_SIZE then Inl Wild_Access
               else Inr (s\<lparr>crt_buf := drop CRT_COLS (take CRT_SIZE (crt_buf s)) @
                        replicate CRT_COLS (0x0700 OR 0x20) @ drop CRT_SIZE (crt_buf s),
                      crt_pos := crt_pos s - of_nat CRT_COLS\<rparr>))
            else Inr s) (\<lambda>s.
     let s = outb (addr_6845 s) 14 s;
         s = outb (addr_6845 s + 1) (ucast (drop_bit 8 (crt_pos s))) s;
         s = outb (addr_6845 s) 15 s
     in Inr (outb (addr_6845 s + 1) (ucast (crt_pos s)) s))"

definition carriage_return :: "'z console_state_scheme \<Rightarrow> 'z console_state_scheme" where
  "carriage_return s = s\<lparr>crt_pos := crt_pos s - crt_pos s mod of_nat CRT_COLS\<rparr>"

text \<open>A tab calls \<open>cons_putc(' ')\<close> five times, so \<open>cga_putc\<close> and \<open>cons_putc\<close> are mutually
  recursive; a blank is no tab, so the recursion ends.\<close>

function (sequential) cga_putc :: "u32 \<Rightarrow> 'z console_state_scheme \<Rightarrow> fault + 'z console_state_scheme"
  and cons_putc :: "u32 \<Rightarrow> 'z console_state_scheme \<Rightarrow> fault + 'z console_state_scheme" where
  "cga_putc c s =
     (let c' = (if c AND NOT 0xFF = 0 then c OR 0x0700 else c); ch = c' AND 0xFF in
      bindr
        (if ch = 0x08 then
           (if crt_pos s > 0 then
              let s = s\<lparr>crt_pos := crt_pos s - 1\<rparr>
              in set_cell (unat (crt_pos s)) (ucast ((c' AND NOT 0xFF) OR 0x20)) s
            else Inr s)
         else if ch = 0x0A then Inr (carriage_return (s\<lparr>crt_pos := crt_pos s + of_nat CRT_COLS\<rparr>))
         else if ch = 0x0D then Inr (carriage_return s)
         else if c AND 0xFF = 0x09 then
           bindr (cons_putc 0x20 s) (\<lambda>s. bindr (cons_putc 0x20 s) (\<lambda>s. bindr (cons_putc 0x20 s) (\<lambda>s.
           bindr (cons_putc 0x20 s) (cons_putc 0x20))))
         else bindr (set_cell (unat (crt_pos s)) (ucast c') s)
                (\<lambda>s. Inr (s\<lparr>crt_pos := crt_pos s + 1\<rparr>)))
        cga_finish)"
| "cons_putc c s = cga_putc c (lpt_putc c (serial_putc c s))"
  by pat_completeness auto

termination
  by (relation "measure (\<lambda>x. case x of Inl (c, s) \<Rightarrow> if c AND 0xFF = 0x09 then 2 else 0
    | Inr (c, s) \<Rightarrow> if c AND 0xFF = 0x09 then 3 else 1)") auto

section \<open>The keyboard\<close>

definition KBSTATP :: u32 where [simp]: "KBSTATP = 0x64"
definition KBDATAP :: u32 where [simp]: "KBDATAP = 0x60"
definition KBS_DIB :: u8 where [simp]: "KBS_DIB = 0x01"
definition KBS_TERR :: u8 where [simp]: "KBS_TERR = 0x20"
definition KEY_DEL :: u8 where [simp]: "KEY_DEL = 0xE9"

definition SHIFT :: u32 where [simp]: "SHIFT = 1"
definition CTL :: u32 where [simp]: "CTL = 2"
definition ALT :: u32 where [simp]: "ALT = 4"
definition CAPSLOCK :: u32 where [simp]: "CAPSLOCK = 8"
definition NUMLOCK :: u32 where [simp]: "NUMLOCK = 16"
definition SCROLLLOCK :: u32 where [simp]: "SCROLLLOCK = 32"
definition E0ESC :: u32 where [simp]: "E0ESC = 64"

text \<open>The tables, as the initialisers have them; an entry that is not given is 0 (\<open>NO\<close>).\<close>

definition shiftcode :: "u8 \<Rightarrow> u32" where
  "shiftcode d = (if d = 0x1D then CTL else if d = 0x2A then SHIFT else if d = 0x36 then SHIFT
     else if d = 0x38 then ALT else if d = 0x9D then CTL else if d = 0xB8 then ALT else 0)"

definition togglecode :: "u8 \<Rightarrow> u32" where
  "togglecode d = (if d = 0x3A then CAPSLOCK else if d = 0x45 then NUMLOCK
     else if d = 0x46 then SCROLLLOCK else 0)"

definition normalmap :: "u8 list" where
  "normalmap = ([
     0, 27, 49, 50, 51, 52, 53, 54, 55, 56, 57, 48, 45, 61, 8, 9,
     113, 119, 101, 114, 116, 121, 117, 105, 111, 112, 91, 93, 10, 0, 97, 115,
     100, 102, 103, 104, 106, 107, 108, 59, 39, 96, 0, 92, 122, 120, 99, 118,
     98, 110, 109, 44, 46, 47, 0, 42, 0, 32, 0, 0, 0, 0, 0, 0,
     0, 0, 0, 0, 0, 0, 0, 55, 56, 57, 45, 52, 53, 54, 43, 49,
     50, 51, 48, 46, 0, 0, 0, 0] @ replicate 168 0)
     [0xC7 := 0xE0, 0x9C := 0x0A, 0xB5 := 0x2F, 0xC8 := 0xE2, 0xC9 := 0xE6, 0xCB := 0xE4, 0xCD := 0xE5, 0xCF := 0xE1, 0xD0 := 0xE3, 0xD1 := 0xE7, 0xD2 := 0xE8, 0xD3 := 0xE9]"

definition shiftmap :: "u8 list" where
  "shiftmap = ([
     0, 27, 33, 64, 35, 36, 37, 94, 38, 42, 40, 41, 95, 43, 8, 9,
     81, 87, 69, 82, 84, 89, 85, 73, 79, 80, 123, 125, 10, 0, 65, 83,
     68, 70, 71, 72, 74, 75, 76, 58, 34, 126, 0, 124, 90, 88, 67, 86,
     66, 78, 77, 60, 62, 63, 0, 42, 0, 32, 0, 0, 0, 0, 0, 0,
     0, 0, 0, 0, 0, 0, 0, 55, 56, 57, 45, 52, 53, 54, 43, 49,
     50, 51, 48, 46, 0, 0, 0, 0] @ replicate 168 0)
     [0xC7 := 0xE0, 0x9C := 0x0A, 0xB5 := 0x2F, 0xC8 := 0xE2, 0xC9 := 0xE6, 0xCB := 0xE4, 0xCD := 0xE5, 0xCF := 0xE1, 0xD0 := 0xE3, 0xD1 := 0xE7, 0xD2 := 0xE8, 0xD3 := 0xE9]"

definition ctlmap :: "u8 list" where
  "ctlmap = ([
     0, 0, 0, 0, 0, 0, 0, 0, 0, 0, 0, 0, 0, 0, 0, 0,
     17, 23, 5, 18, 20, 25, 21, 9, 15, 16, 0, 0, 13, 0, 1, 19,
     4, 6, 7, 8, 10, 11, 12, 0, 0, 0, 0, 28, 26, 24, 3, 22,
     2, 14, 13, 0, 0, 239, 0, 0] @ replicate 200 0)
     [0x97 := 0xE0, 0xB5 := 0xEF, 0xC8 := 0xE2, 0xC9 := 0xE6, 0xCB := 0xE4, 0xCD := 0xE5, 0xCF := 0xE1, 0xD0 := 0xE3, 0xD1 := 0xE7, 0xD2 := 0xE8, 0xD3 := 0xE9]"

definition charcode :: "u32 \<Rightarrow> u8 list" where
  "charcode k = [normalmap, shiftmap, ctlmap, ctlmap] ! unat k"

text \<open>What a key code adds to the modifiers, and the character it stands for.\<close>

definition kbd_shift :: "u32 \<Rightarrow> u8 \<Rightarrow> u32" where
  "kbd_shift sh data = (sh OR shiftcode data) XOR togglecode data"

definition kbd_char :: "u32 \<Rightarrow> u8 \<Rightarrow> u8" where
  "kbd_char sh data =
     (let c = charcode (sh AND (CTL OR SHIFT)) ! unat data in
      if sh AND CAPSLOCK \<noteq> 0 then
        if 0x61 \<le> c \<and> c \<le> 0x7A then c + (0x41 - 0x61)
        else if 0x41 \<le> c \<and> c \<le> 0x5A then c + (0x61 - 0x41)
        else c
      else c)"

text \<open>\<open>cprintf\<close> of a text without conversions.\<close>

definition cons_puts :: "string \<Rightarrow> 'z console_state_scheme \<Rightarrow> fault + 'z console_state_scheme" where
  "cons_puts msg = for_each (\<lambda>ch. cons_putc (of_char ch)) msg"

definition kbd_proc_data :: "'z console_state_scheme \<Rightarrow> fault + int \<times> 'z console_state_scheme" where
  "kbd_proc_data s =
     (let (stat, s) = inb KBSTATP s in
      if stat AND KBS_DIB = 0 then Inr (- 1, s)
      else if stat AND KBS_TERR \<noteq> 0 then Inr (- 1, s)
      else
        let (data, s) = inb KBDATAP s in
        if data = 0xE0 then Inr (0, s\<lparr>shift := shift s OR E0ESC\<rparr>)
        else if data AND 0x80 \<noteq> 0 then
          let data = (if shift s AND E0ESC \<noteq> 0 then data else data AND 0x7F)
          in Inr (0, s\<lparr>shift := shift s AND NOT (shiftcode data OR E0ESC)\<rparr>)
        else
          let (data, s) = (if shift s AND E0ESC \<noteq> 0
                then (data OR 0x80, s\<lparr>shift := shift s AND NOT E0ESC\<rparr>) else (data, s));
              s = s\<lparr>shift := kbd_shift (shift s) data\<rparr>;
              c = kbd_char (shift s) data
          in bindr (if NOT (shift s) AND (CTL OR ALT) = 0 \<and> c = KEY_DEL
                    then bindr (cons_puts (''Rebooting!'' @ [CHR 0x0A]) s) (\<lambda>s. Inr (outb 0x92 0x3 s))
                    else Inr s) (\<lambda>s. Inr (uint c, s)))"

section \<open>The input buffer\<close>

definition CONSBUFSIZE :: nat where [simp]: "CONSBUFSIZE = 512"

definition cons_store :: "u8 \<Rightarrow> 'z console_state_scheme \<Rightarrow> fault + 'z console_state_scheme" where
  "cons_store c s =
     (if \<not> unat (cons_wpos s) < length (cons_buf s) then Inl Wild_Access
      else
        let s = s\<lparr>cons_buf := (cons_buf s)[unat (cons_wpos s) := c], cons_wpos := cons_wpos s + 1\<rparr>
        in Inr (if cons_wpos s = of_nat CONSBUFSIZE then s\<lparr>cons_wpos := 0\<rparr> else s))"

partial_function (option) cons_intr ::
  "('z console_state_scheme \<Rightarrow> fault + int \<times> 'z console_state_scheme) \<Rightarrow> 'z console_state_scheme \<Rightarrow>
     (fault + 'z console_state_scheme) option" where
  "cons_intr proc s =
     bindo (Some (proc s)) (\<lambda>(c, s).
       if c = - 1 then Some (Inr s)
       else if c = 0 then cons_intr proc s
       else bindo (Some (cons_store (word_of_int c) s)) (cons_intr proc))"

definition serial_intr :: "'z console_state_scheme \<Rightarrow> (fault + 'z console_state_scheme) option" where
  "serial_intr s = (if serial_exists s then cons_intr serial_proc_data s else Some (Inr s))"

definition kbd_intr :: "'z console_state_scheme \<Rightarrow> (fault + 'z console_state_scheme) option" where
  "kbd_intr s = cons_intr kbd_proc_data s"

text \<open>The end of \<open>cons_getc\<close>: take the next character from the buffer.\<close>

definition cons_take :: "'z console_state_scheme \<Rightarrow> fault + int \<times> 'z console_state_scheme" where
  "cons_take s =
     (if cons_rpos s \<noteq> cons_wpos s then
        if \<not> unat (cons_rpos s) < length (cons_buf s) then Inl Wild_Access
        else
          let c = cons_buf s ! unat (cons_rpos s);
              s = s\<lparr>cons_rpos := cons_rpos s + 1\<rparr>;
              s = (if cons_rpos s = of_nat CONSBUFSIZE then s\<lparr>cons_rpos := 0\<rparr> else s)
          in Inr (uint c, s)
      else Inr (0, s))"

definition cons_getc :: "'z console_state_scheme \<Rightarrow> (fault + int \<times> 'z console_state_scheme) option" where
  "cons_getc s = bindo (serial_intr s) (\<lambda>s. bindo (kbd_intr s) (\<lambda>s. Some (cons_take s)))"

partial_function (option) getchar ::
  "'z console_state_scheme \<Rightarrow> (fault + int \<times> 'z console_state_scheme) option" where
  "getchar s = bindo (cons_getc s) (\<lambda>(c, s). if c = 0 then getchar s else Some (Inr (c, s)))"

definition cputchar :: "u32 \<Rightarrow> 'z console_state_scheme \<Rightarrow> fault + 'z console_state_scheme" where
  "cputchar c s = cons_putc c s"

text \<open>\<open>kbd_init\<close> is empty.\<close>

definition cons_init ::
  "bool \<Rightarrow> u16 list \<Rightarrow> 'z console_state_scheme \<Rightarrow> fault + 'z console_state_scheme" where
  "cons_init has_cga cells s =
     (let s = serial_init (cga_init has_cga cells s)
      in if serial_exists s then Inr s
         else cons_puts (''Serial port does not exist!'' @ [CHR 0x0A]) s)"

section \<open>The contract of a bounded queue\<close>

text \<open>What a user of the input buffer may rely on: while there is room, a character put in is
  last, the character taken out is first, and taking from an empty queue says so.\<close>

locale bounded_queue =
  fixes ok :: "'s \<Rightarrow> bool"
    and contents :: "'s \<Rightarrow> 'a list"
    and room :: nat
    and enq :: "'a \<Rightarrow> 's \<Rightarrow> 's option"
    and deq :: "'s \<Rightarrow> ('a option \<times> 's) option"
  assumes enq: "ok s \<Longrightarrow> length (contents s) < room \<Longrightarrow>
      \<exists>t. enq x s = Some t \<and> ok t \<and> contents t = contents s @ [x]"
    and deq: "ok s \<Longrightarrow> contents s = x # xs \<Longrightarrow> \<exists>t. deq s = Some (Some x, t) \<and> ok t \<and> contents t = xs"
    and deq_empty: "ok s \<Longrightarrow> contents s = [] \<Longrightarrow> deq s = Some (None, s)"
begin

fun enqs :: "'a list \<Rightarrow> 's \<Rightarrow> 's option" where
  "enqs [] s = Some s"
| "enqs (x # xs) s = Option.bind (enq x s) (enqs xs)"

fun deqs :: "nat \<Rightarrow> 's \<Rightarrow> ('a list \<times> 's) option" where
  "deqs 0 s = Some ([], s)"
| "deqs (Suc n) s = (case deq s of
     Some (Some x, t) \<Rightarrow> map_option (\<lambda>(xs, u). (x # xs, u)) (deqs n t) | _ \<Rightarrow> None)"

lemma enqs_append: "ok s \<Longrightarrow> length (contents s) + length xs \<le> room \<Longrightarrow>
    \<exists>t. enqs xs s = Some t \<and> ok t \<and> contents t = contents s @ xs"
proof (induction xs arbitrary: s)
  case (Cons x xs)
  then obtain t where "enq x s = Some t" "ok t" "contents t = contents s @ [x]"
    using enq [of s x] by auto
  with Cons.IH [of t] Cons.prems show ?case by auto
qed simp

lemma deqs_prefix: "ok s \<Longrightarrow> contents s = xs @ ys \<Longrightarrow>
    \<exists>t. deqs (length xs) s = Some (xs, t) \<and> ok t \<and> contents t = ys"
proof (induction xs arbitrary: s)
  case (Cons x xs)
  then obtain t where t: "deq s = Some (Some x, t)" "ok t" "contents t = xs @ ys"
    using deq [of s x "xs @ ys"] by auto
  with Cons.IH [of t] show ?case by auto
qed simp

text \<open>First in, first out.\<close>

lemma fifo: "ok s \<Longrightarrow> contents s = [] \<Longrightarrow> length xs \<le> room \<Longrightarrow>
    \<exists>t u. enqs xs s = Some t \<and> deqs (length xs) t = Some (xs, u) \<and> deq u = Some (None, u)"
proof -
  assume a: "ok s" "contents s = []" "length xs \<le> room"
  then obtain t where t: "enqs xs s = Some t" "ok t" "contents t = xs @ []"
    using enqs_append [of s xs] by auto
  then obtain u where "deqs (length xs) t = Some (xs, u)" "ok u" "contents u = []"
    using deqs_prefix by blast
  with t(1) deq_empty show ?thesis by blast
qed

end

section \<open>The input buffer is a bounded queue\<close>

definition ring_ok :: "'z console_state_scheme \<Rightarrow> bool" where
  "ring_ok s \<longleftrightarrow> length (cons_buf s) = 512 \<and> unat (cons_rpos s) < 512 \<and> unat (cons_wpos s) < 512"

definition ring_len :: "nat \<Rightarrow> nat \<Rightarrow> nat" where
  "ring_len r w = (w + 512 - r) mod 512"

definition queued :: "'z console_state_scheme \<Rightarrow> u8 list" where
  "queued s = map (\<lambda>i. cons_buf s ! ((unat (cons_rpos s) + i) mod 512))
     [0..<ring_len (unat (cons_rpos s)) (unat (cons_wpos s))]"

definition ring_enq :: "u8 \<Rightarrow> 'z console_state_scheme \<Rightarrow> 'z console_state_scheme option" where
  "ring_enq c s = (case cons_store c s of Inr t \<Rightarrow> Some t | _ \<Rightarrow> None)"

definition ring_deq :: "'z console_state_scheme \<Rightarrow> (u8 option \<times> 'z console_state_scheme) option" where
  "ring_deq s = (case cons_take s of
     Inr (c, t) \<Rightarrow> Some (if cons_rpos s = cons_wpos s then None else Some (word_of_int c), t)
   | _ \<Rightarrow> None)"

lemma ring_len_cases: "r < 512 \<Longrightarrow> w < 512 \<Longrightarrow> ring_len r w = (if r \<le> w then w - r else w + 512 - r)"
  by (auto simp: ring_len_def mod_if)

lemma ring_wrap: "r < 512 \<Longrightarrow> i < 512 \<Longrightarrow> (r + i) mod 512 = (if r + i < 512 then r + i else r + i - (512 :: nat))"
  by (simp add: mod_if)

lemma ring_len_less: "ring_len r w < 512"
  by (simp add: ring_len_def)

lemma ring_len_end: "r < 512 \<Longrightarrow> w < 512 \<Longrightarrow> (r + ring_len r w) mod 512 = w"
  using ring_wrap [of r "ring_len r w"] ring_len_less [of r w] by (auto simp: ring_len_cases split: if_splits)

lemma ring_len_0: "r < 512 \<Longrightarrow> w < 512 \<Longrightarrow> ring_len r w = 0 \<longleftrightarrow> r = w"
  by (auto simp: ring_len_cases split: if_splits)

lemma ring_index: "r < 512 \<Longrightarrow> w < 512 \<Longrightarrow> i < ring_len r w \<Longrightarrow> (r + i) mod 512 \<noteq> w"
  using ring_wrap [of r i] ring_len_less [of r w] by (auto simp: ring_len_cases split: if_splits)

definition ring_next :: "nat \<Rightarrow> nat" where
  "ring_next i = (if i = 511 then 0 else i + 1)"

lemma ring_next_mod: "i < 512 \<Longrightarrow> ring_next i = (i + 1) mod 512"
  by (auto simp: ring_next_def)

lemma ring_next_less: "i < 512 \<Longrightarrow> ring_next i < 512"
  by (simp add: ring_next_def)

lemma ring_len_enq:
  "r < 512 \<Longrightarrow> w < 512 \<Longrightarrow>
     ring_len r (ring_next w) = (if ring_len r w = 511 then 0 else Suc (ring_len r w))"
  using ring_next_less [of w] by (auto simp: ring_len_cases ring_next_def split: if_splits)

lemma ring_len_deq:
  "r < 512 \<Longrightarrow> w < 512 \<Longrightarrow> r \<noteq> w \<Longrightarrow> ring_len r w = Suc (ring_len (ring_next r) w)"
  using ring_next_less [of r] by (auto simp: ring_len_cases ring_next_def split: if_splits)

text \<open>The two operations on the positions.\<close>

lemma unat_next: "unat (x :: u32) < 512 \<Longrightarrow> unat (if x + 1 = of_nat CONSBUFSIZE then 0 else x + 1) = ring_next (unat x)"
proof -
  assume x: "unat x < 512"
  then have "unat (x + 1) = unat x + 1" by (subst unat_add_no_wrap) simp_all
  moreover have "x + 1 = 512 \<longleftrightarrow> unat (x + 1) = 512" by (simp add: word_unat_eq_iff)
  ultimately show ?thesis by (auto simp: ring_next_def)
qed

lemma cons_store_eq:
  assumes "ring_ok s"
  shows "\<exists>t. cons_store c s = Inr t \<and> ring_ok t \<and> cons_rpos t = cons_rpos s \<and>
    unat (cons_wpos t) = ring_next (unat (cons_wpos s)) \<and>
    cons_buf t = (cons_buf s)[unat (cons_wpos s) := c]"
  using assms unat_next [of "cons_wpos s"] ring_next_less [of "unat (cons_wpos s)"]
  by (auto simp: cons_store_def ring_ok_def Let_def)

lemma queued_store:
  assumes ok: "ring_ok s" and room: "length (queued s) < 511"
  shows "\<exists>t. cons_store c s = Inr t \<and> ring_ok t \<and> queued t = queued s @ [c]"
proof -
  let ?r = "unat (cons_rpos s)" and ?w = "unat (cons_wpos s)"
  have b: "?r < 512" "?w < 512" "length (cons_buf s) = 512" using ok by (simp_all add: ring_ok_def)
  obtain t where t: "cons_store c s = Inr t" "ring_ok t" "cons_rpos t = cons_rpos s"
    "unat (cons_wpos t) = ring_next ?w" "cons_buf t = (cons_buf s)[?w := c]"
    using cons_store_eq [OF ok] by blast
  have n: "ring_len ?r (ring_next ?w) = Suc (ring_len ?r ?w)"
    using room ring_len_enq [OF b(1,2)] by (simp add: queued_def)
  have old: "(cons_buf s)[?w := c] ! ((?r + i) mod 512) = cons_buf s ! ((?r + i) mod 512)"
    if "i < ring_len ?r ?w" for i
    using ring_index [OF b(1,2) that] by simp
  have "queued t = queued s @ [c]"
    using old ring_len_end [OF b(1,2)] b(2,3) by (simp add: queued_def t(3-5) n)
  with t(1,2) show ?thesis by blast
qed

lemma queued_Nil: "ring_ok s \<Longrightarrow> queued s = [] \<longleftrightarrow> cons_rpos s = cons_wpos s"
  by (auto simp: queued_def ring_ok_def ring_len_0 word_unat_eq_iff)

lemma queued_take:
  assumes ok: "ring_ok s" and q: "queued s = x # xs"
  shows "\<exists>t. cons_take s = Inr (uint x, t) \<and> ring_ok t \<and> queued t = xs \<and> cons_wpos t = cons_wpos s"
proof -
  let ?r = "unat (cons_rpos s)" and ?w = "unat (cons_wpos s)"
  have b: "?r < 512" "?w < 512" "length (cons_buf s) = 512" using ok by (simp_all add: ring_ok_def)
  have ne: "cons_rpos s \<noteq> cons_wpos s" using queued_Nil [OF ok] q by simp
  then have "?r \<noteq> ?w" by (simp add: word_unat_eq_iff)
  note n = ring_len_deq [OF b(1,2) this]
  let ?r' = "if cons_rpos s + 1 = of_nat CONSBUFSIZE then 0 else cons_rpos s + 1"
  let ?t = "s\<lparr>cons_rpos := ?r'\<rparr>"
  have r': "unat ?r' = ring_next ?r" using unat_next [OF b(1)] .
  have step: "(?r + Suc i) mod 512 = (ring_next ?r + i) mod 512" for i
    by (simp add: ring_next_mod [OF b(1)] mod_simps)
  have "queued s = map (\<lambda>i. cons_buf s ! ((?r + i) mod 512)) (0 # map Suc [0..<ring_len (ring_next ?r) ?w])"
    unfolding queued_def n by (simp add: upt_conv_Cons map_Suc_upt del: upt_Suc)
  then have "queued s = cons_buf s ! ?r # queued ?t"
    using b(1) r' by (simp add: queued_def step del: add_Suc_right)
  then have "x = cons_buf s ! ?r" "queued ?t = xs" using q by simp_all
  moreover have "cons_take s = Inr (uint (cons_buf s ! ?r), ?t)"
    using ne b by (simp add: cons_take_def Let_def)
  moreover have "ring_ok ?t" using ok r' ring_next_less [OF b(1)] by (simp add: ring_ok_def)
  ultimately show ?thesis by simp
qed

lemma cons_take_empty: "ring_ok s \<Longrightarrow> queued s = [] \<Longrightarrow> cons_take s = Inr (0, s)"
  by (simp add: queued_Nil cons_take_def)

interpretation cq: bounded_queue ring_ok queued 511 ring_enq ring_deq
proof unfold_locales
  fix s :: "'a console_state_scheme" and x xs
  show "\<exists>t. ring_enq x s = Some t \<and> ring_ok t \<and> queued t = queued s @ [x]"
    if "ring_ok s" "length (queued s) < 511"
    using queued_store [OF that, of x] by (auto simp: ring_enq_def)
  show "\<exists>t. ring_deq s = Some (Some x, t) \<and> ring_ok t \<and> queued t = xs"
    if "ring_ok s" "queued s = x # xs"
    using queued_take [OF that] queued_Nil [OF that(1)] that(2) by (auto simp: ring_deq_def)
  show "ring_deq s = Some (None, s)" if "ring_ok s" "queued s = []"
    using cons_take_empty [OF that] queued_Nil [OF that(1)] that(2) by (simp add: ring_deq_def)
qed

section \<open>What the input side guarantees\<close>

text \<open>C34: the console input is first in, first out: up to 511 characters stored in an empty
  buffer by the interrupt handlers are taken out in the same order, and then the buffer is
  empty again.\<close>

theorem console_input_fifo:
  assumes "ring_ok s" "queued s = []" "length cs \<le> 511"
  shows "\<exists>t u. cq.enqs cs s = Some t \<and> cq.deqs (length cs) t = Some (cs, u) \<and> cons_take u = Inr (0, u)"
proof -
  obtain t where t: "cq.enqs cs s = Some t" "ring_ok t" "queued t = cs @ []"
    using cq.enqs_append [OF assms(1), of cs] assms(2,3) by auto
  then obtain u where u: "cq.deqs (length cs) t = Some (cs, u)" "ring_ok u" "queued u = []"
    using cq.deqs_prefix [OF t(2,3)] by blast
  with t(1) cons_take_empty [OF u(2,3)] show ?thesis by blast
qed

definition demo_console :: console_state where
  "demo_console = \<lparr>port_in = (\<lambda>p n. if p = 0x3FD then (if n < 3 then 1 else 0) else if p = 0x3F8 then of_nat n + 0x40 else 0),
     port_reads = (\<lambda>_. 0), port_out = [], serial_exists = True, addr_6845 = CGA_BASE,
     crt_buf = replicate 2000 0x0720, crt_pos = 1999, shift = 0,
     cons_buf = replicate 512 0, cons_rpos = 510, cons_wpos = 510\<rparr>"

lemma demo_console_ok: "ring_ok demo_console" "queued demo_console = []"
proof -
  show "ring_ok demo_console" by (simp add: demo_console_def ring_ok_def)
  then show "queued demo_console = []" by (simp add: queued_Nil) (simp add: demo_console_def)
qed

theorem console_input_fifo_witness:
  "\<exists>t u. cq.enqs [0x41, 0x42, 0x43] demo_console = Some t \<and> cq.deqs 3 t = Some ([0x41, 0x42, 0x43], u)"
proof -
  have l: "length [0x41, 0x42, 0x43 :: u8] = 3" "length [0x41, 0x42, 0x43 :: u8] \<le> 511" by simp_all
  from console_input_fifo [OF demo_console_ok l(2)] show ?thesis unfolding l(1) by blast
qed

text \<open>The buffer does not notice that it is full: with 511 characters waiting, the next
  one makes the write position equal to the read position, and all 512 characters are
  lost.\<close>

theorem console_input_overflow:
  assumes "ring_ok s" "length (queued s) = 511"
  shows "\<exists>t. cons_store c s = Inr t \<and> ring_ok t \<and> queued t = [] \<and> cons_take t = Inr (0, t)"
proof -
  have b: "unat (cons_rpos s) < 512" "unat (cons_wpos s) < 512" using assms(1) by (simp_all add: ring_ok_def)
  obtain t where t: "cons_store c s = Inr t" "ring_ok t" "cons_rpos t = cons_rpos s"
    "unat (cons_wpos t) = ring_next (unat (cons_wpos s))"
    using cons_store_eq [OF assms(1)] by blast
  have "queued t = []"
    using assms(2) ring_len_enq [OF b] by (simp add: queued_def t(3,4))
  with t(1,2) cons_take_empty [OF t(2)] show ?thesis by blast
qed

theorem console_input_overflow_witness:
  "\<exists>t. cons_store 0x41 (demo_console\<lparr>cons_rpos := 0, cons_wpos := 511\<rparr>) = Inr t \<and> queued t = []"
proof -
  have "ring_ok (demo_console\<lparr>cons_rpos := 0, cons_wpos := 511\<rparr>)"
    "length (queued (demo_console\<lparr>cons_rpos := 0, cons_wpos := 511\<rparr>)) = 511"
    by (simp_all add: ring_ok_def demo_console_def queued_def ring_len_def)
  from console_input_overflow [OF this] show ?thesis by blast
qed

text \<open>The reads of the serial port: \<open>n\<close> characters are waiting.\<close>

definition serial_waiting :: "'z console_state_scheme \<Rightarrow> u8 list \<Rightarrow> bool" where
  "serial_waiting s cs \<longleftrightarrow>
     (\<forall>i < length cs. port_in s 0x3FD (port_reads s 0x3FD + i) AND 1 \<noteq> 0 \<and>
        port_in s 0x3F8 (port_reads s 0x3F8 + i) = cs ! i) \<and>
     port_in s 0x3FD (port_reads s 0x3FD + length cs) AND 1 = 0"

lemma serial_waiting_Nil: "serial_waiting s [] \<Longrightarrow>
    \<exists>t. serial_proc_data s = Inr (- 1, t) \<and> (ring_ok s \<longrightarrow> ring_ok t) \<and> queued t = queued s"
  by (simp add: serial_waiting_def serial_proc_data_def inb_def ring_ok_def queued_def)

lemma serial_waiting_Cons: "serial_waiting s (c # cs) \<Longrightarrow>
    \<exists>t. serial_proc_data s = Inr (uint c, t) \<and> serial_waiting t cs \<and> (ring_ok s \<longrightarrow> ring_ok t) \<and>
      queued t = queued s"
proof -
  assume w: "serial_waiting s (c # cs)"
  then have "port_in s 0x3FD (port_reads s 0x3FD) AND 1 \<noteq> 0" "port_in s 0x3F8 (port_reads s 0x3F8) = c"
    unfolding serial_waiting_def by (metis add_0_right length_Cons nth_Cons_0 zero_less_Suc)+
  moreover have "port_in s 0x3FD (Suc (port_reads s 0x3FD) + i) AND 1 \<noteq> 0 \<and>
      port_in s 0x3F8 (Suc (port_reads s 0x3F8) + i) = cs ! i" if "i < length cs" for i
    using w that unfolding serial_waiting_def by (auto dest!: spec [of _ "Suc i"])
  moreover have "port_in s 0x3FD (Suc (port_reads s 0x3FD) + length cs) AND 1 = 0"
    using w by (simp add: serial_waiting_def)
  ultimately show ?thesis
    by (simp add: serial_proc_data_def inb_def serial_waiting_def ring_ok_def queued_def)
qed

lemma serial_waiting_store: "serial_waiting s cs \<Longrightarrow> cons_store c s = Inr t \<Longrightarrow> serial_waiting t cs"
  by (auto simp: serial_waiting_def cons_store_def Let_def split: if_splits)

lemma serial_loop:
  "serial_waiting s cs \<Longrightarrow> ring_ok s \<Longrightarrow> length (queued s) + length (filter (\<lambda>c. c \<noteq> 0) cs) \<le> 511 \<Longrightarrow>
     \<exists>t. cons_intr serial_proc_data s = Some (Inr t) \<and> ring_ok t \<and>
       queued t = queued s @ filter (\<lambda>c. c \<noteq> 0) cs"
proof (induction cs arbitrary: s)
  case Nil
  with serial_waiting_Nil [OF Nil(1)] show ?case by (subst cons_intr.simps) auto
next
  case (Cons c cs)
  obtain t where t: "serial_proc_data s = Inr (uint c, t)" "serial_waiting t cs" "ring_ok t" "queued t = queued s"
    using serial_waiting_Cons [OF Cons.prems(1)] Cons.prems(2) by blast
  have n1: "uint c \<noteq> - 1" using uint_ge_0 [of c] by linarith
  show ?case
  proof (cases "c = 0")
    case True
    then have "cons_intr serial_proc_data s = cons_intr serial_proc_data t"
      using t(1) by (subst cons_intr.simps) simp
    with Cons.IH [OF t(2,3)] Cons.prems(3) t(4) True show ?thesis by simp
  next
    case False
    then have "uint c \<noteq> 0" by (simp add: uint_0_iff)
    obtain u where u: "cons_store c t = Inr u" "ring_ok u" "queued u = queued t @ [c]"
      using queued_store [OF t(3), of c] Cons.prems(3) t(4) False by auto
    have "cons_intr serial_proc_data s = cons_intr serial_proc_data u"
      using t(1) u(1) n1 \<open>uint c \<noteq> 0\<close> by (subst cons_intr.simps) simp
    with Cons.IH [OF serial_waiting_store [OF t(2) u(1)] u(2)] Cons.prems(3) t(4) u(3) False
    show ?thesis by simp
  qed
qed

text \<open>The serial interrupt ends when the port has no more data and queues everything the
  port delivered, in order and without the NUL characters, if it fits.\<close>

theorem serial_intr_queues:
  assumes "serial_exists s" "ring_ok s" "serial_waiting s cs"
    and "length (queued s) + length (filter (\<lambda>c. c \<noteq> 0) cs) \<le> 511"
  shows "\<exists>t. serial_intr s = Some (Inr t) \<and> ring_ok t \<and> queued t = queued s @ filter (\<lambda>c. c \<noteq> 0) cs"
  using serial_loop [OF assms(3,2,4)] assms(1) by (simp add: serial_intr_def)

theorem serial_intr_queues_witness:
  "\<exists>t. serial_intr demo_console = Some (Inr t) \<and> queued t = [0x40, 0x41, 0x42]"
proof -
  have l: "length [0x40, 0x41, 0x42 :: u8] = 3" by simp
  have all3: "(\<forall>i < 3. P i) \<longleftrightarrow> P 0 \<and> P 1 \<and> P (2 :: nat)" for P
    by (auto simp: less_Suc_eq numeral_3_eq_3 numeral_2_eq_2)
  have "serial_waiting demo_console [0x40, 0x41, 0x42]"
    unfolding serial_waiting_def l all3
    by (simp add: demo_console_def del: One_nat_def)
  moreover have "serial_exists demo_console" by (simp add: demo_console_def)
  ultimately show ?thesis
    using serial_intr_queues [of demo_console "[0x40, 0x41, 0x42]"] demo_console_ok by auto
qed

section \<open>What the display guarantees\<close>

text \<open>The position is on the screen and the whole screen is there.\<close>

definition display_ok :: "'z console_state_scheme \<Rightarrow> bool" where
  "display_ok s \<longleftrightarrow> length (crt_buf s) = CRT_SIZE \<and> unat (crt_pos s) < CRT_SIZE"

lemma port_ops [simp]:
  "crt_buf (outb p b s) = crt_buf s" "crt_pos (outb p b s) = crt_pos s"
  "crt_buf (snd (inb p s)) = crt_buf s" "crt_pos (snd (inb p s)) = crt_pos s"
  "crt_buf (delay s) = crt_buf s" "crt_pos (delay s) = crt_pos s"
  "addr_6845 (outb p b s) = addr_6845 s"
  by (simp_all add: outb_def inb_def delay_def)

lemma poll_crt [simp]: "crt_buf (poll p m n s) = crt_buf s \<and> crt_pos (poll p m n s) = crt_pos s"
proof (induction n arbitrary: s)
  case (Suc n)
  then show ?case by (simp add: split_beta Let_def)
qed simp

lemma serial_lpt_crt [simp]:
  "crt_buf (serial_putc c s) = crt_buf s" "crt_pos (serial_putc c s) = crt_pos s"
  "crt_buf (lpt_putc c s) = crt_buf s" "crt_pos (lpt_putc c s) = crt_pos s"
  by (simp_all add: serial_putc_def lpt_putc_def Let_def)

text \<open>The screen after \<open>cga_finish\<close>: scrolled by a line if the position had left it.\<close>

definition scrolled :: "u16 list \<Rightarrow> nat \<Rightarrow> u16 list \<times> nat" where
  "scrolled cells pos = (if pos \<ge> 2000 then (drop 80 cells @ replicate 80 0x0720, pos - 80) else (cells, pos))"

lemma cga_finish_eq:
  assumes "length (crt_buf s) = 2000" "unat (crt_pos s) < 2080"
  shows "\<exists>t. cga_finish s = Inr t \<and> display_ok t \<and>
    (crt_buf t, unat (crt_pos t)) = scrolled (crt_buf s) (unat (crt_pos s))"
proof -
  have "unat (crt_pos s - 80) = unat (crt_pos s) - 80" if "2000 \<le> unat (crt_pos s)"
    using that by (subst unat_sub) (simp_all add: word_le_nat_alt)
  then show ?thesis
    using assms by (auto simp: cga_finish_def scrolled_def display_ok_def Let_def)
qed

lemma unat_u16_add: "unat (x :: u16) + unat y < 65536 \<Longrightarrow> unat (x + y) = unat x + unat y"
  by (simp add: unat_word_ariths)

lemma carriage_return_eq:
  "crt_buf (carriage_return s) = crt_buf s"
  "unat (crt_pos (carriage_return s)) = unat (crt_pos s) div 80 * 80"
proof -
  have "crt_pos s mod 80 \<le> crt_pos s" by (simp add: word_le_nat_alt unat_mod)
  then have "unat (crt_pos s - crt_pos s mod 80) = unat (crt_pos s) - unat (crt_pos s) mod 80"
    by (simp add: unat_sub unat_mod)
  then show "unat (crt_pos (carriage_return s)) = unat (crt_pos s) div 80 * 80"
    by (simp add: carriage_return_def minus_mod_eq_div_mult)
qed (simp add: carriage_return_def)

text \<open>What writing a character that is neither a control character nor a tab does.\<close>

definition printable :: "u32 \<Rightarrow> bool" where
  "printable c \<longleftrightarrow> c AND 0xFF \<notin> {0x08, 0x09, 0x0A, 0x0D}"

definition with_colour :: "u32 \<Rightarrow> u32" where
  "with_colour c = (if c AND NOT 0xFF = 0 then c OR 0x0700 else c)"

lemma low_with_colour: "with_colour c AND 0xFF = c AND 0xFF"
proof -
  have "(0x0700 :: u32) AND 0xFF = 0" by simp
  then show ?thesis by (simp add: with_colour_def bit.conj_disj_distrib2 del: and_zero_eq)
qed

lemma cga_putc_printable:
  assumes ok: "display_ok s" and c: "printable c"
  shows "\<exists>t. cga_putc c s = Inr t \<and> display_ok t \<and> (crt_buf t, unat (crt_pos t)) =
    scrolled ((crt_buf s)[unat (crt_pos s) := ucast (with_colour c)]) (unat (crt_pos s) + 1)"
proof -
  have b: "length (crt_buf s) = 2000" "unat (crt_pos s) < 2000" using ok by (simp_all add: display_ok_def)
  let ?s = "s\<lparr>crt_buf := (crt_buf s)[unat (crt_pos s) := ucast (with_colour c)], crt_pos := crt_pos s + 1\<rparr>"
  have p: "unat (crt_pos ?s) = unat (crt_pos s) + 1" using b(2) by (simp add: unat_u16_add)
  have "cga_putc c s = cga_finish ?s"
    using c low_with_colour [of c] b by (simp add: printable_def with_colour_def set_cell_def)
  with cga_finish_eq [of ?s] b p show ?thesis by simp
qed

lemma cga_putc_ok:
  assumes ok: "display_ok s"
  shows "\<exists>t. cga_putc c s = Inr t \<and> display_ok t"
proof -
  have b: "length (crt_buf s) = 2000" "unat (crt_pos s) < 2000" using ok by (simp_all add: display_ok_def)
  have blank: "\<exists>t. cons_putc 0x20 u = Inr t \<and> display_ok t" if "display_ok u" for u :: "'a console_state_scheme"
    using cga_putc_printable [of "lpt_putc 0x20 (serial_putc 0x20 u)" "0x20"] that
    by (auto simp: printable_def display_ok_def)
  note low = low_with_colour [of c, unfolded with_colour_def]
  consider "printable c" | "c AND 0xFF = 0x08" | "c AND 0xFF = 0x09" | "c AND 0xFF = 0x0A" | "c AND 0xFF = 0x0D"
    by (auto simp: printable_def)
  then show ?thesis
  proof cases
    case 1
    then show ?thesis using cga_putc_printable [OF ok] by blast
  next
    case 2
    show ?thesis
    proof (cases "crt_pos s > 0")
      case True
      let ?s = "s\<lparr>crt_pos := crt_pos s - 1, crt_buf := (crt_buf s)
          [unat (crt_pos s - 1) := ucast (with_colour c AND NOT 0xFF OR 0x20)]\<rparr>"
      have "crt_pos s \<noteq> 0" using True by auto
      then have p: "unat (crt_pos s - 1) = unat (crt_pos s) - 1" by (rule unat_minus_one)
      have q: "unat (crt_pos s) - 1 < 2000" using b(2) by simp
      have "cga_putc c s = cga_finish ?s"
        using True 2 low p b q by (simp add: set_cell_def with_colour_def Let_def)
      moreover have "length (crt_buf ?s) = 2000" "unat (crt_pos ?s) < 2080" using p q b by simp_all
      ultimately show ?thesis using cga_finish_eq [of ?s] by (simp del: cga_putc.simps) blast
    next
      case False
      then have "cga_putc c s = cga_finish s" using 2 low by simp
      then show ?thesis using cga_finish_eq [of s] b by auto
    qed
  next
    case 3
    obtain s1 where s1: "cons_putc 0x20 s = Inr s1" "display_ok s1" using blank [OF ok] by blast
    obtain s2 where s2: "cons_putc 0x20 s1 = Inr s2" "display_ok s2" using blank [OF s1(2)] by blast
    obtain s3 where s3: "cons_putc 0x20 s2 = Inr s3" "display_ok s3" using blank [OF s2(2)] by blast
    obtain s4 where s4: "cons_putc 0x20 s3 = Inr s4" "display_ok s4" using blank [OF s3(2)] by blast
    obtain s5 where s5: "cons_putc 0x20 s4 = Inr s5" "display_ok s5" using blank [OF s4(2)] by blast
    have "cga_putc c s = cga_finish s5"
      using 3 low s1(1) s2(1) s3(1) s4(1) s5(1) by (simp del: cons_putc.simps)
    then show ?thesis using cga_finish_eq [of s5] s5(2) by (auto simp: display_ok_def)
  next
    case 4
    let ?s = "carriage_return (s\<lparr>crt_pos := crt_pos s + 80\<rparr>)"
    have "unat (crt_pos s + 80) = unat (crt_pos s) + 80" using b(2) by (simp add: unat_u16_add)
    then have "unat (crt_pos ?s) < 2080" using b(2) carriage_return_eq(2) [of "s\<lparr>crt_pos := crt_pos s + 80\<rparr>"] by simp
    then show ?thesis using 4 low b cga_finish_eq [of ?s] by (auto simp: carriage_return_eq)
  next
    case 5
    have "unat (crt_pos (carriage_return s)) < 2080" using b(2) by (simp add: carriage_return_eq)
    then show ?thesis using 5 low b cga_finish_eq [of "carriage_return s"] by (auto simp: carriage_return_eq)
  qed
qed

lemma cons_putc_ok:
  assumes "display_ok s"
  shows "\<exists>t. cons_putc c s = Inr t \<and> display_ok t"
  using cga_putc_ok [of "lpt_putc c (serial_putc c s)" c] assms by (simp add: display_ok_def)

text \<open>Writing any text to the console, control characters included, never reads or writes
  outside the display memory and leaves the position on the screen: from a state in which the
  position is on the screen, \<open>cons_puts\<close> ends without a fault in such a state.\<close>

theorem cons_puts_keeps_display:
  assumes "display_ok s"
  shows "\<exists>t. cons_puts msg s = Inr t \<and> display_ok t"
  using assms
proof (induction msg arbitrary: s)
  case Nil
  then show ?case by (simp add: cons_puts_def)
next
  case (Cons ch msg)
  obtain t where t: "cons_putc (of_char ch) s = Inr t" "display_ok t"
    using cons_putc_ok [OF Cons.prems] by blast
  from Cons.IH [OF t(2)] t(1) show ?case by (simp add: cons_puts_def del: cons_putc.simps)
qed

definition blank_screen :: "nat \<Rightarrow> console_state" where
  "blank_screen pos = \<lparr>port_in = (\<lambda>p n. 0xFF), port_reads = (\<lambda>p. 0), port_out = [], serial_exists = True,
     addr_6845 = 0x3D4, crt_buf = replicate 2000 0x0720, crt_pos = of_nat pos, shift = 0,
     cons_buf = replicate 512 0, cons_rpos = 0, cons_wpos = 0\<rparr>"

lemma cons_puts_keeps_display_witness:
  "\<exists>t. cons_puts (''ok'' @ [CHR 0x0A]) (blank_screen 1999) = Inr t \<and> display_ok t"
  by (rule cons_puts_keeps_display) (simp add: display_ok_def blank_screen_def)

text \<open>A character that is no backspace, tab, newline or carriage return is put, with its
  colour, in the cell of the current position, the position moves one on, every other cell
  stays; if the position has left the screen the screen is scrolled up by one line whose cells are
  blank.\<close>

theorem cons_putc_puts_a_cell:
  assumes ok: "display_ok s" and c: "printable c"
  shows "\<exists>t. cons_putc c s = Inr t \<and> display_ok t \<and> (crt_buf t, unat (crt_pos t)) =
    scrolled ((crt_buf s)[unat (crt_pos s) := ucast (with_colour c)]) (unat (crt_pos s) + 1)"
  using cga_putc_printable [of "lpt_putc c (serial_putc c s)" c] assms by (simp add: display_ok_def)

lemma cons_putc_puts_a_cell_witness:
  "\<exists>t. cons_putc 0x41 (blank_screen 1999) = Inr t \<and> display_ok t \<and> unat (crt_pos t) = 1920 \<and>
    crt_buf t ! 1919 = 0x0741 \<and> crt_buf t ! 1920 = 0x0720"
proof -
  obtain t where t: "cons_putc 0x41 (blank_screen 1999) = Inr t" "display_ok t"
    "(crt_buf t, unat (crt_pos t)) = scrolled ((crt_buf (blank_screen 1999))[unat (crt_pos (blank_screen 1999)) :=
       ucast (with_colour 0x41)]) (unat (crt_pos (blank_screen 1999)) + 1)"
    using cons_putc_puts_a_cell [of "blank_screen 1999" "0x41"]
    by (auto simp: display_ok_def blank_screen_def printable_def)
  then show ?thesis
    by (auto simp: scrolled_def blank_screen_def with_colour_def nth_append nth_list_update)
qed

section \<open>What the keyboard guarantees\<close>

text \<open>The letter keys, as the key codes of the plain map that give a lower-case letter.\<close>

definition letter_key :: "u8 \<Rightarrow> bool" where
  "letter_key d \<longleftrightarrow> 0x61 \<le> normalmap ! unat d \<and> normalmap ! unat d \<le> 0x7A"

definition letter_ok :: "u8 \<times> u8 \<times> u8 \<Rightarrow> bool" where
  "letter_ok x \<longleftrightarrow> (case x of (n, h, c) \<Rightarrow> 0x61 \<le> n \<and> n \<le> 0x7A \<longrightarrow> h = n - 0x20 \<and> c = n - 0x60)"

lemma letters_ok: "list_all letter_ok (zip normalmap (zip shiftmap ctlmap))"
  by code_simp

lemma map_lengths: "length normalmap = 256" "length shiftmap = 256" "length ctlmap = 256"
  by (simp_all add: normalmap_def shiftmap_def ctlmap_def)

lemma letter_maps:
  assumes "letter_key d"
  shows "shiftmap ! unat d = normalmap ! unat d - 0x20" "ctlmap ! unat d = normalmap ! unat d - 0x60"
proof -
  have d: "unat d < 256" using unsigned_less [of d, where 'a = nat] by simp
  then have "letter_ok (zip normalmap (zip shiftmap ctlmap) ! unat d)"
    using letters_ok by (simp add: list_all_length map_lengths)
  then show "shiftmap ! unat d = normalmap ! unat d - 0x20" "ctlmap ! unat d = normalmap ! unat d - 0x60"
    using assms d by (simp_all add: letter_ok_def letter_key_def map_lengths)
qed

lemma low_bits:
  fixes sh :: u32
  shows "sh AND 3 = (if sh AND 2 = 0 then sh AND 1 else 2 OR (sh AND 1))" "sh AND 1 = 0 \<or> sh AND 1 = 1"
    "sh AND 2 = 0 \<or> sh AND 2 = 2"
proof -
  show 1: "sh AND 1 = 0 \<or> sh AND 1 = 1" by (simp add: and_one_eq mod_2_eq_odd)
  have "sh AND 3 = (sh AND 2) OR (sh AND 1)" by (simp flip: bit.conj_disj_distrib)
  moreover show "sh AND 2 = 0 \<or> sh AND 2 = 2"
    using and_exp_eq_0_iff_not_bit [of sh 1] by (auto intro!: bit_word_eqI simp: bit_simps)
  ultimately show "sh AND 3 = (if sh AND 2 = 0 then sh AND 1 else 2 OR (sh AND 1))" by auto
qed

text \<open>A letter key gives the lower-case letter, the upper-case letter when exactly one of SHIFT
  and CAPSLOCK is on, and with CTL down its control character (^A is 1 to ^Z is 26),
  whatever SHIFT and CAPSLOCK say.\<close>

theorem kbd_letters:
  assumes "letter_key d"
  shows "kbd_char sh d =
    (if sh AND CTL \<noteq> 0 then normalmap ! unat d - 0x60
     else if (sh AND SHIFT \<noteq> 0) \<noteq> (sh AND CAPSLOCK \<noteq> 0) then normalmap ! unat d - 0x20
     else normalmap ! unat d)"
proof -
  define n where "n = normalmap ! unat d"
  have n: "0x61 \<le> unat n" "unat n \<le> 0x7A" 
    using assms by (simp_all add: letter_key_def n_def word_le_nat_alt)
  have sub: "unat (n - 0x20) = unat n - 0x20" "unat (n - 0x60) = unat n - 0x60"
    using n by (simp_all add: unat_sub word_le_nat_alt)
  define k where "k = unat n - 97"
  have k: "unat n = 97 + k" "k \<le> 25" using n by (simp_all add: k_def)
  have m: "charcode (sh AND 3) ! unat d =
     (if sh AND 2 \<noteq> 0 then n - 0x60 else if sh AND 1 \<noteq> 0 then n - 0x20 else n)"
    using low_bits [of sh] letter_maps [OF assms] by (auto simp: charcode_def n_def)
  show ?thesis
    using k sub by (simp add: kbd_char_def Let_def m n_def [symmetric] word_le_nat_alt)
qed

lemma kbd_letters_witness: "letter_key 0x1E \<and> kbd_char CAPSLOCK 0x1E = 0x41"
proof -
  have k: "letter_key 0x1E" by code_simp
  have n: "normalmap ! unat (0x1E :: u8) = 0x61" by code_simp
  from kbd_letters [OF k, of CAPSLOCK] show ?thesis using k n by simp
qed

end
