(* ===== verification/Syscall.thy ===== *)
theory Syscall
  imports User_Mem Env_Load Env_Free Console
begin

text \<open>
  System calls (\<open>kern/syscall.c\<close>) and \<open>user_mem_assert\<close> of \<open>kern/pmap.c\<close>. The state adds
  to that of the environments the console devices, the control registers the trap handler
  reads and the trap frame on the kernel stack.

  An operation that does not return to its caller ends in a \<open>stop\<close>: a fault, or a call of
  \<open>monitor\<close>, which is where \<open>env_destroy\<close> stays.
\<close>

section \<open>State\<close>

text \<open>A \<open>struct Trapframe *\<close> points to the frame on the kernel stack, at some address, or to the
  saved frame of an environment.\<close>

datatype tf_ptr = Stack_tf u32 | Env_tf nat

record kernel_state = env_state +
  dev :: console_state
  cr2 :: u32
  eflags :: u32
  stack_tf :: Trapframe
  last_tf :: "tf_ptr option"
  envs_addr :: u32

datatype 's stop = Faulted fault | In_monitor "tf_ptr option" 's

definition run :: "fault + 'a \<Rightarrow> 's stop + 'a" where
  "run r = (case r of Inl f \<Rightarrow> Inl (Faulted f) | Inr x \<Rightarrow> Inr x)"

lemma run_simps [simp]: "run (Inl f) = Inl (Faulted f)" "run (Inr x) = Inr x"
  by (simp_all add: run_def)

lemma run_eq: "run r = Inr x \<longleftrightarrow> r = Inr x" "run r = Inl (Faulted f) \<longleftrightarrow> r = Inl f"
  "run r \<noteq> Inl (In_monitor p s)"
  by (cases r; simp)+

definition stop_destroying ::
  "'z env_state_scheme \<Rightarrow> nat \<Rightarrow> 'z env_state_scheme stop + 'a" where
  "stop_destroying s e = bindr (run (env_destroy s e)) (\<lambda>s. Inl (In_monitor None s))"

lemma stop_destroying_stops: "stop_destroying s e \<noteq> Inr x"
  by (auto simp: stop_destroying_def bindr_eq_Inr)

lemma stop_destroying_bind: "bindo (Some (stop_destroying x c)) f = Some (stop_destroying x c)"
  by (cases "env_destroy x c") (simp_all add: stop_destroying_def)

section \<open>Operations\<close>

definition user_mem_assert ::
  "'z env_state_scheme \<Rightarrow> nat \<Rightarrow> u32 \<Rightarrow> u32 \<Rightarrow> u32 \<Rightarrow>
     ('z env_state_scheme stop + 'z env_state_scheme) option" where
  "user_mem_assert s e va len perm =
     (if \<not> e < length (envs s) then Some (Inl (Faulted Wild_Access))
      else bindo (map_option run (user_mem_check s (env_pgdir (envs s ! e)) va len (perm OR PTE_U))) (\<lambda>(r, s).
        if r <s 0 then
          Some (stop_destroying
            (cprintf (''[%08x] user_mem_check assertion failure for va %08x'' @ nl)
               [env_id (envs s ! e), user_mem_check_addr s] s) e)
        else Some (Inr s)))"

text \<open>The characters the conversion \<open>%.*s\<close> of \<open>vprintfmt\<close> prints: it reads up to a zero byte
  or, if the precision is not negative, as many characters as the precision says. The loop
  reads a character before it looks at the precision.\<close>

partial_function (option) text_at :: "'z pmap_state_scheme \<Rightarrow> int \<Rightarrow> u32 \<Rightarrow> (fault + string) option" where
  "text_at s precision p =
     bindo (Some (vload s p)) (\<lambda>ch.
       if ch = 0 then Some (Inr [])
       else if precision < 0 then
         bindo (text_at s precision (p + 1)) (\<lambda>r. Some (Inr (char_of (unat ch) # r)))
       else if precision - 1 \<ge> 0 then
         bindo (text_at s (precision - 1) (p + 1)) (\<lambda>r. Some (Inr (char_of (unat ch) # r)))
       else Some (Inr []))"

definition text_arg :: "'z pmap_state_scheme \<Rightarrow> int \<Rightarrow> u32 \<Rightarrow> (fault + string) option" where
  "text_arg s precision p =
     (if p = 0 then Some (Inr (if precision < 0 then ''(null)'' else take (nat precision) ''(null)''))
      else text_at s precision p)"

definition sys_getenvid :: "'z env_state_scheme \<Rightarrow> 's stop + u32" where
  "sys_getenvid s = (case curenv s of None \<Rightarrow> Inl (Faulted Wild_Access)
     | Some c \<Rightarrow> if c < length (envs s) then Inr (env_id (envs s ! c)) else Inl (Faulted Wild_Access))"

definition sys_cputs ::
  "'z env_state_scheme \<Rightarrow> u32 \<Rightarrow> u32 \<Rightarrow> ('z env_state_scheme stop + 'z env_state_scheme) option" where
  "sys_cputs s va len =
     bindo (Some (sys_getenvid s)) (\<lambda>envid.
     bindo (Some (run (envid2env s envid True))) (\<lambda>(r, e).
     case e of
       None \<Rightarrow> Some (Inl (Faulted Wild_Access))
     | Some e \<Rightarrow>
         bindo (user_mem_assert s e va len PTE_U) (\<lambda>s.
         bindo (map_option run (text_arg s (sint len) va)) (\<lambda>text.
         Some (Inr (cprintf_args ''%.*s'' [Num len, Str text] s))))))"

definition sys_cgetc ::
  "'z kernel_state_scheme \<Rightarrow> ('z kernel_state_scheme stop + u32 \<times> 'z kernel_state_scheme) option" where
  "sys_cgetc s =
     bindo (map_option run (cons_getc (dev s))) (\<lambda>(c, d). Some (Inr (word_of_int c, s\<lparr>dev := d\<rparr>)))"

definition sys_env_destroy ::
  "'z env_state_scheme \<Rightarrow> u32 \<Rightarrow> 'z env_state_scheme stop + u32 \<times> 'z env_state_scheme" where
  "sys_env_destroy s envid =
     bindr (run (envid2env s envid True)) (\<lambda>(r, e).
       if r <s 0 then Inr (r, s)
       else case e of
         None \<Rightarrow> Inl (Faulted Wild_Access)
       | Some e \<Rightarrow>
           let s = (if curenv s = Some e
                    then cprintf (''[%08x] exiting gracefully'' @ nl) [curenv_id s] s
                    else cprintf (''[%08x] destroying %08x'' @ nl) [curenv_id s, env_id (envs s ! e)] s)
           in stop_destroying s e)"

definition SYS_cputs :: u32 where [simp]: "SYS_cputs = 0"
definition SYS_cgetc :: u32 where [simp]: "SYS_cgetc = 1"
definition SYS_getenvid :: u32 where [simp]: "SYS_getenvid = 2"
definition SYS_env_destroy :: u32 where [simp]: "SYS_env_destroy = 3"

definition syscall ::
  "'z kernel_state_scheme \<Rightarrow> u32 \<Rightarrow> u32 \<Rightarrow> u32 \<Rightarrow> u32 \<Rightarrow> u32 \<Rightarrow> u32 \<Rightarrow>
     ('z kernel_state_scheme stop + u32 \<times> 'z kernel_state_scheme) option" where
  "syscall s syscallno a1 a2 a3 a4 a5 =
     (if syscallno = SYS_cputs then bindo (sys_cputs s a1 a2) (\<lambda>s. Some (Inr (0, s)))
      else if syscallno = SYS_cgetc then sys_cgetc s
      else if syscallno = SYS_getenvid then bindo (Some (sys_getenvid s)) (\<lambda>r. Some (Inr (r, s)))
      else if syscallno = SYS_env_destroy then bindo (Some (sys_env_destroy s a1)) (\<lambda>(_, s). Some (Inr (0, s)))
      else Some (Inr (- E_INVAL, s)))"

section \<open>What a system call that returns leaves alone\<close>

lemma walk_no_create: "pgdir_walk s pgdir va False = Inr (pe, t) \<Longrightarrow> t = s"
  by (auto simp: pgdir_walk_def Let_def bindr_eq_Inr split: if_splits)

lemma user_mem_loop_state:
  fixes s :: "'z pmap_state_scheme"
  assumes "user_mem_loop pgdir va perm end' addr s = Some res"
  shows "\<forall>r t. res = Inr (r, t) \<longrightarrow> r = 0 \<and> t = s \<or> r = - E_FAULT"
proof (rule user_mem_loop.raw_induct [OF _ assms])
  fix loop pgdir va perm end' addr res and s :: "'z pmap_state_scheme"
  assume IH: "\<And>pgdir va perm end' addr s res. loop pgdir va perm end' addr s = Some res \<Longrightarrow>
      \<forall>r t. res = Inr (r, t) \<longrightarrow> r = 0 \<and> t = s \<or> r = - E_FAULT"
    and body: "(if addr < end' then
        (case pgdir_walk s pgdir addr False of
           Inl e \<Rightarrow> Some (Inl e)
         | Inr (pe, s) \<Rightarrow>
             if addr \<ge> ULIM \<or> pe = NULL \<or> kload s pe AND PTE_P = 0 \<or> kload s pe AND perm \<noteq> perm
             then Some (Inr (- E_FAULT, s\<lparr>user_mem_check_addr := (if addr < va then va else addr)\<rparr>))
             else loop pgdir va perm end' (addr + PGSIZE) s)
      else Some (Inr (0, s))) = Some res"
  show "\<forall>r t. res = Inr (r, t) \<longrightarrow> r = 0 \<and> t = s \<or> r = - E_FAULT"
  proof (cases "pgdir_walk s pgdir addr False")
    case (Inr w)
    obtain pe u where w: "w = (pe, u)" by (cases w)
    have "u = s" by (rule walk_no_create) (use Inr w in simp)
    with body Inr w IH show ?thesis by (auto split: if_splits)
  qed (use body in \<open>auto split: if_splits\<close>)
qed

lemma user_mem_check_state:
  "user_mem_check s pgdir va len perm = Some (Inr (r, t)) \<Longrightarrow> r = 0 \<and> t = s \<or> r = - E_FAULT"
  unfolding user_mem_check_def using user_mem_loop_state by blast

lemma user_mem_assert_returns:
  assumes "user_mem_assert s e va len perm = Some (Inr t)"
  shows "t = s \<and> e < length (envs s) \<and>
    user_mem_check s (env_pgdir (envs s ! e)) va len (perm OR PTE_U) = Some (Inr (0, s))"
proof -
  from assms obtain r u where u: "e < length (envs s)" "\<not> r <s 0" "t = u"
    and c: "user_mem_check s (env_pgdir (envs s ! e)) va len (perm OR PTE_U) = Some (Inr (r, u))"
    by (auto simp: user_mem_assert_def bindo_eq_Inr stop_destroying_stops run_eq split: if_splits)
  with user_mem_check_state [OF c] u show ?thesis by auto
qed

text \<open>A system call that returns to the environment has changed nothing but the console.\<close>

definition quiet :: "'z kernel_state_scheme \<Rightarrow> 'z kernel_state_scheme \<Rightarrow> bool" where
  "quiet s t \<longleftrightarrow> (\<exists>c d. t = s\<lparr>console := c, dev := d\<rparr>)"

lemma quiet_refl: "quiet s s"
proof -
  have "s = s\<lparr>console := console s, dev := dev s\<rparr>" by simp
  then show ?thesis unfolding quiet_def by blast
qed

lemma quiet_console: "quiet s (s\<lparr>console := c\<rparr>)"
proof -
  have "s\<lparr>console := c\<rparr> = s\<lparr>console := c, dev := dev s\<rparr>" by simp
  then show ?thesis unfolding quiet_def by blast
qed

lemma quiet_dev: "quiet s (s\<lparr>dev := d\<rparr>)"
proof -
  have "s\<lparr>dev := d\<rparr> = s\<lparr>console := console s, dev := d\<rparr>" by simp
  then show ?thesis unfolding quiet_def by blast
qed

lemma sys_cputs_returns:
  assumes "sys_cputs s va len = Some (Inr t)"
  shows "\<exists>text. t = s\<lparr>console := Message ''%.*s'' [Num len, Str text] # console s\<rparr>"
  using assms user_mem_assert_returns
  by (fastforce simp: sys_cputs_def bindo_eq_Inr cprintf_args_def split: option.splits prod.splits)

lemma sys_env_destroy_returns:
  assumes "sys_env_destroy s envid = Inr (r, t)"
  shows "t = s"
  using assms by (auto simp: sys_env_destroy_def bindr_eq_Inr Let_def stop_destroying_stops
      split: if_splits option.splits)

lemma syscall_quiet:
  assumes "syscall s n a1 a2 a3 a4 a5 = Some (Inr (r, t))"
  shows "quiet s t"
proof -
  consider "\<exists>text. t = s\<lparr>console := Message ''%.*s'' [Num a2, Str text] # console s\<rparr>"
    | "\<exists>d. t = s\<lparr>dev := d\<rparr>" | "t = s"
    using assms sys_cputs_returns [of s a1 a2] sys_env_destroy_returns [of s a1]
    by (fastforce simp: syscall_def sys_cgetc_def bindo_eq_Inr split: if_splits)
  then show ?thesis by cases (auto intro: quiet_refl quiet_console quiet_dev)
qed

end
