(* ===== verification/Sys_Cputs.thy ===== *)
theory Sys_Cputs
  imports Syscall
begin

text \<open>
  What \<open>sys_cputs\<close> guarantees. It composes \<open>user_mem_check\<close>, the reading of the text through
  the page directory in \<open>%cr3\<close> and, when the check fails, the destruction of the caller. The
  text of an accessible range is printed up to its first zero byte; but the conversion
  \<open>%.*s\<close> reads one byte past a range without a zero byte, and reads a byte even when the
  length is 0, so the check does not protect the kernel from a page fault.
\<close>

section \<open>Reading user memory\<close>

definition byte_at :: "'z pmap_state_scheme \<Rightarrow> nat \<Rightarrow> u32 \<Rightarrow> u8" where
  "byte_at s D a = mem s (PTE_ADDR (pt_entry s D a) OR PGOFF a)"

lemma not_present_0: "\<not> present 0"
  by (simp add: present_def)

lemma vload_user:
  assumes D: "cr3 s = page2pa D" "D < 0x100000" and a: "a < KERNBASE"
  shows "vload s a = (if present (pt_entry s D a) then Inr (byte_at s D a)
    else Inl (Panic ''kernel-mode page fault''))"
proof -
  let ?pde = "entry s D (pdx a)"
  have d: "load32 (mem s) (cr3 s + 4 * PDX a) = ?pde"
    using entry_pa_PDX [OF D(2), of a] by (simp add: D(1) entry_def pdx_def)
  have t: "load32 (mem s) (PTE_ADDR ?pde + 4 * PTX a) = entry s (frame_of ?pde) (ptx a)"
    using entry_pa_PTX [OF frame_of_less, of ?pde a] by (simp add: PTE_ADDR_frame entry_def ptx_def)
  have tr: "translate s False a = (if ?pde AND PTE_P = 0 then None
     else if entry s (frame_of ?pde) (ptx a) AND PTE_P = 0 then None
     else Some (PTE_ADDR (entry s (frame_of ?pde) (ptx a)) OR PGOFF a))"
    using a by (simp only: translate_def d Let_def t) (simp add: linorder_not_less [symmetric])
  show ?thesis
  proof (cases "present ?pde")
    case True
    then have "pt_entry s D a = entry s (frame_of ?pde) (ptx a)" by (simp add: pt_entry_def table_at_def)
    with True tr show ?thesis by (simp add: vload_def present_def byte_at_def)
  next
    case False
    then have "pt_entry s D a = 0" by (simp add: pt_entry_def table_at_def)
    moreover have "?pde AND PTE_P = 0" using False by (simp add: present_def)
    ultimately show ?thesis using tr by (simp add: vload_def present_def)
  qed
qed

definition text_of :: "u8 list \<Rightarrow> string" where
  "text_of bs = map (\<lambda>b. char_of (unat b)) (takeWhile (\<lambda>b. b \<noteq> 0) bs)"

lemma text_at_bytes:
  assumes "\<forall>i < length bs. vload s (p + of_nat i) = Inr (bs ! i)"
  shows "text_at s (int (length bs)) p =
    (if 0 \<in> set bs then Some (Inr (text_of bs))
     else case vload s (p + of_nat (length bs)) of Inl e \<Rightarrow> Some (Inl e) | Inr _ \<Rightarrow> Some (Inr (text_of bs)))"
  using assms
proof (induction bs arbitrary: p)
  case Nil
  then show ?case by (subst text_at.simps) (simp add: text_of_def split: sum.split)
next
  case (Cons b bs)
  have b: "vload s p = Inr b" using Cons.prems by auto
  have "vload s (p + 1 + of_nat i) = Inr (bs ! i)" if "i < length bs" for i
    using Cons.prems that by (auto simp: algebra_simps dest!: spec [of _ "Suc i"])
  then have IH: "text_at s (int (length bs)) (p + 1) = (if 0 \<in> set bs then Some (Inr (text_of bs))
     else case vload s (p + 1 + of_nat (length bs)) of Inl e \<Rightarrow> Some (Inl e) | Inr _ \<Rightarrow> Some (Inr (text_of bs)))"
    using Cons.IH by blast
  have n: "p + of_nat (length (b # bs)) = p + 1 + of_nat (length bs)" by simp
  show ?case
    unfolding n using b IH by (subst text_at.simps) (auto simp: text_of_def split: sum.split)
qed

section \<open>The system call\<close>

definition caller :: "'z env_state_scheme \<Rightarrow> nat \<Rightarrow> nat \<Rightarrow> bool" where
  "caller s c D \<longleftrightarrow> curenv s = Some c \<and> ids_wf s \<and> live s c \<and> env_pgdir (envs s ! c) = pgdir_kva D \<and>
     cr3 s = page2pa D \<and> D < 0x100000 \<and> tables_ok s D"

lemma sys_cputs_eq:
  assumes "caller s c D"
  shows "sys_cputs s va len =
    bindo (user_mem_assert s c va len PTE_U) (\<lambda>s.
    bindo (map_option run (text_arg s (sint len) va)) (\<lambda>text.
    Some (Inr (cprintf_args ''%.*s'' [Num len, Str text] s))))"
proof -
  have l: "live s c" "curenv s = Some c" "ids_wf s" using assms by (simp_all add: caller_def)
  have i: "c < length (envs s)" "c < 1024" using l by (auto simp: live_def ids_wf_def)
  then have id: "env_id (envs s ! c) \<noteq> 0" "unat (ENVX (env_id (envs s ! c))) = c"
    using l unfolding ids_wf_def by blast+
  have "envid2env s (env_id (envs s ! c)) True = Inr (0, Some c)"
    using envid2env_eq [OF l(3) id(1), of True c] l id(2) by (simp add: may_manage_def)
  then show ?thesis using l(2) i by (simp add: sys_cputs_def sys_getenvid_def)
qed

lemma user_mem_assert_eq:
  assumes "caller s c D"
    and "user_mem_check s (pgdir_kva D) va len PTE_U = Some (Inr (r, t))"
  shows "user_mem_assert s c va len PTE_U =
    (if r <s 0 then Some (stop_destroying
            (cprintf (''[%08x] user_mem_check assertion failure for va %08x'' @ nl)
               [env_id (envs t ! c), user_mem_check_addr t] t) c)
     else Some (Inr t))"
  using assms by (auto simp: user_mem_assert_def caller_def live_def)

lemma sys_cputs_spec:
  assumes c: "caller s c D" and no_wrap: "unat va + unat len + 4095 < 2 ^ 32"
    and len: "len \<noteq> 0" "unat len < 2 ^ 31" and va: "va \<noteq> 0"
  shows "(if \<forall>a. va \<le> a \<and> unat a < unat va + unat len \<longrightarrow> accessible s D PTE_U a
     then let bs = map (\<lambda>i. byte_at s D (va + of_nat i)) [0..<unat len]
       in sys_cputs s va len =
         (if 0 \<in> set bs \<or> present (pt_entry s D (va + len))
          then Some (Inr (s\<lparr>console := Message ''%.*s'' [Num len, Str (text_of bs)] # console s\<rparr>))
          else Some (Inl (Faulted (Panic ''kernel-mode page fault''))))
     else \<exists>a. va \<le> a \<and> unat a < unat va + unat len \<and> \<not> accessible s D PTE_U a \<and>
       (\<forall>b. va \<le> b \<and> b < a \<longrightarrow> accessible s D PTE_U b) \<and>
       sys_cputs s va len = Some (stop_destroying
         (cprintf (''[%08x] user_mem_check assertion failure for va %08x'' @ nl)
           [env_id (envs s ! c), a] (s\<lparr>user_mem_check_addr := a\<rparr>)) c))"
proof (cases "\<forall>a. va \<le> a \<and> unat a < unat va + unat len \<longrightarrow> accessible s D PTE_U a")
  case True
  have D: "cr3 s = page2pa D" "D < 0x100000" "tables_ok s D" using c by (simp_all add: caller_def)
  have chk: "user_mem_check s (pgdir_kva D) va len PTE_U = Some (Inr (0, s))"
    using user_mem_check_spec [OF D(3) no_wrap len(1), of PTE_U] True by simp
  have as: "user_mem_assert s c va len PTE_U = Some (Inr s)"
    using user_mem_assert_eq [OF c chk] by simp
  let ?bs = "map (\<lambda>i. byte_at s D (va + of_nat i)) [0..<unat len]"
  have at: "unat (va + of_nat i) = unat va + i" if "i < unat len" for i
  proof -
    have "unat (of_nat i :: u32) = i" using that len(2) by (intro unat_of_nat_u32) simp
    then show ?thesis using that no_wrap by (subst unat_add_no_wrap) simp_all
  qed
  have acc: "accessible s D PTE_U (va + of_nat i)" if "i < unat len" for i
    using True at [OF that] that by (simp add: word_le_nat_alt)
  have rd: "\<forall>i < length ?bs. vload s (va + of_nat i) = Inr (?bs ! i)"
  proof (intro allI impI)
    fix i assume "i < length ?bs"
    then have i: "i < unat len" by simp
    have "va + of_nat i < KERNBASE" "present (pt_entry s D (va + of_nat i))"
      using acc [OF i] by (simp_all add: accessible_def word_less_nat_alt)
    with i show "vload s (va + of_nat i) = Inr (?bs ! i)" using vload_user [OF D(1,2)] by simp
  qed
  have "unat len - 1 < unat len" using len(1) by (simp add: unat_gt_0)
  from acc [OF this] at [OF this] have "unat va + (unat len - 1) < 4018143232"
    by (simp add: accessible_def word_less_nat_alt)
  moreover have "unat (va + len) = unat va + unat len" using no_wrap by (intro unat_add_no_wrap) simp
  ultimately have "va + len < KERNBASE" by (simp add: word_less_nat_alt)
  then have last: "vload s (va + of_nat (length ?bs)) = (if present (pt_entry s D (va + len))
      then Inr (byte_at s D (va + len)) else Inl (Panic ''kernel-mode page fault''))"
    using vload_user [OF D(1,2), of "va + len"] by simp
  have "sint len = int (length ?bs)" using len(2) by (simp add: sint_u32)
  then have "text_arg s (sint len) va = text_at s (int (length ?bs)) va"
    using va by (simp only: text_arg_def if_False)
  note reads = this [unfolded text_at_bytes [OF rd] last]
  show ?thesis
    using True unfolding sys_cputs_eq [OF c] as bindo_simps reads Let_def
    by (simp add: cprintf_args_def)
next
  case False
  have D: "tables_ok s D" using c by (simp add: caller_def)
  obtain a where a: "va \<le> a" "unat a < unat va + unat len" "\<not> accessible s D PTE_U a"
    "\<forall>b. va \<le> b \<and> b < a \<longrightarrow> accessible s D PTE_U b"
    "user_mem_check s (pgdir_kva D) va len PTE_U = Some (Inr (- E_FAULT, s\<lparr>user_mem_check_addr := a\<rparr>))"
    using user_mem_check_spec [OF D no_wrap len(1), of PTE_U] False by (simp split: if_splits) blast
  have "user_mem_assert s c va len PTE_U = Some (stop_destroying
         (cprintf (''[%08x] user_mem_check assertion failure for va %08x'' @ nl)
           [env_id (envs s ! c), a] (s\<lparr>user_mem_check_addr := a\<rparr>)) c)"
    using user_mem_assert_eq [OF c a(5)] by simp
  then have "sys_cputs s va len = Some (stop_destroying
         (cprintf (''[%08x] user_mem_check assertion failure for va %08x'' @ nl)
           [env_id (envs s ! c), a] (s\<lparr>user_mem_check_addr := a\<rparr>)) c)"
    unfolding sys_cputs_eq [OF c] by (simp only: stop_destroying_bind)
  with a(1-4) False show ?thesis by auto
qed


text \<open>A user program can panic the kernel: \<open>sys_cputs\<close> of no characters at a page-aligned
  address that is not mapped passes the check, which looks at no page then, and the
  conversion reads a byte there all the same.\<close>

theorem sys_cputs_panics:
  assumes c: "caller s c D" and va: "va \<noteq> 0" "va < KERNBASE" "PGOFF va = 0"
    and un: "\<not> present (pt_entry s D va)"
  shows "sys_cputs s va 0 = Some (Inl (Faulted (Panic ''kernel-mode page fault'')))"
proof -
  have D: "cr3 s = page2pa D" "D < 0x100000" using c by (simp_all add: caller_def)
  have "unat va mod 4096 = 0" using va(3) by (metis unat_0 unat_PGOFF)
  then obtain k where k: "unat va = 4096 * k" by (auto simp: mod_eq_0_iff_dvd)
  have "unat va < 4026531840" using va(2) by (simp add: word_less_nat_alt)
  then have "unat (va + 4095) = unat va + 4095" by (subst unat_add_no_wrap) simp_all
  with k have "unat (va + 4095) div 4096 * 4096 = unat va" "unat va div 4096 * 4096 = unat va" by simp_all
  moreover have "va + 4095 = 4095 + va" by simp
  ultimately have "ROUNDUP (va + 0) PGSIZE = va" "ROUNDDOWN va PGSIZE = va"
    by (simp_all add: ROUNDUP_def word_unat_eq_iff unat_ROUNDDOWN minus_mod_eq_div_mult)
  then have chk: "user_mem_check s (pgdir_kva D) va 0 PTE_U = Some (Inr (0, s))"
    unfolding user_mem_check_def by (subst user_mem_loop.simps) simp
  have "vload s va = Inl (Panic ''kernel-mode page fault'')"
    using vload_user [OF D va(2)] un by simp
  then have "text_at s 0 va = Some (Inl (Panic ''kernel-mode page fault''))"
    by (subst text_at.simps) simp
  then show ?thesis
    using va(1) user_mem_assert_eq [OF c chk] by (simp add: sys_cputs_eq [OF c] text_arg_def)
qed

section \<open>A machine for the witnesses\<close>

text \<open>Environment 3 of \<^const>\<open>demo_free\<close>, running in its own address space; its only page, at
  \<open>0x800000\<close>, holds zeros.\<close>

definition demo_caller :: env_state where
  "demo_caller = demo_free\<lparr>cr3 := page2pa 3\<rparr>"

lemma demo_caller_sel: "mem demo_caller = mem demo_mapped" "pages demo_caller = pages demo_mapped"
  "npages demo_caller = npages demo_mapped" "envs demo_caller = envs demo_envs"
  "curenv demo_caller = Some 3" "cr3 demo_caller = page2pa 3"
  by (simp_all add: demo_caller_def demo_free_sel) (simp add: demo_free_def)

lemma demo_caller_entry: "entry demo_caller f i = entry demo_mapped f i"
  by (simp add: entry_def demo_caller_sel)

lemma demo_caller_pt: "pt_entry demo_caller 3 a = pt_entry demo_mapped 3 a"
  by (simp add: pt_entry_def table_at_def demo_caller_entry split: option.split)

lemma demo_caller_is: "caller demo_caller 3 3"
proof -
  have "ids_wf demo_caller" "live demo_caller 3"
    using demo_envs_wf demo_envs_live [of 3] by (simp_all add: ids_wf_def live_def demo_caller_sel)
  moreover have "tables_ok demo_caller 3"
    by (simp add: tables_ok_def table_at_def demo_caller_entry demo_mapped_entry demo_caller_sel)
      (simp add: demo_mapped_def demo_def small_pages_def pages_wf_def present_def frame_of_def PGNUM_def demo_caller_sel)
  ultimately show ?thesis by (simp add: caller_def demo_caller_sel demo_envs_nth)
qed

theorem sys_cputs_panics_witness:
  "sys_cputs demo_caller 0x400000 0 = Some (Inl (Faulted (Panic ''kernel-mode page fault'')))"
proof -
  have "table_at demo_mapped 3 (pdx 0x400000) = None"
    by (simp add: demo_mapped_table) (simp add: pdx_def mmu_simps)
  then have "pt_entry demo_caller 3 0x400000 = 0" unfolding demo_caller_pt by (simp add: pt_entry_def)
  moreover have "PGOFF 0x400000 = 0" by (simp add: word_unat_eq_iff unat_PGOFF)
  ultimately show ?thesis using sys_cputs_panics [OF demo_caller_is, of "0x400000"] by (simp add: not_present_0)
qed


end
