(* ===== verification/Trap.thy ===== *)
theory Trap
  imports Syscall
begin

text \<open>
  Traps (\<open>kern/trap.c\<close>): the printing of trap frames, the dispatch, the page fault handler
  and \<open>trap\<close> itself. \<open>trap\<close> does not return: it ends in the trap frame with which the
  processor goes back to user mode, or stops in the monitor or in a panic.

  The main result is what user code may rely on across a trap: it goes on only after a
  system call, with nothing changed but \<open>%eax\<close>.
\<close>

section \<open>Printing\<close>

definition trapname :: "u32 \<Rightarrow> string" where
  "trapname trapno =
     (let excnames = [''Divide error'', ''Debug'', ''Non-Maskable Interrupt'', ''Breakpoint'', ''Overflow'',
        ''BOUND Range Exceeded'', ''Invalid Opcode'', ''Device Not Available'', ''Double Fault'',
        ''Coprocessor Segment Overrun'', ''Invalid TSS'', ''Segment Not Present'', ''Stack Fault'',
        ''General Protection'', ''Page Fault'', ''(unknown trap)'', ''x87 FPU Floating-Point Error'',
        ''Alignment Check'', ''Machine-Check'', ''SIMD Floating-Point Exception'']
      in if unat trapno < length excnames then excnames ! unat trapno
         else if trapno = of_nat T_SYSCALL then ''System call''
         else ''(unknown trap)'')"

definition tf_of :: "'z kernel_state_scheme \<Rightarrow> tf_ptr \<Rightarrow> Trapframe" where
  "tf_of s p = (case p of Stack_tf a \<Rightarrow> stack_tf s | Env_tf e \<Rightarrow> env_tf (envs s ! e))"

definition tf_addr :: "'z kernel_state_scheme \<Rightarrow> tf_ptr \<Rightarrow> u32" where
  "tf_addr s p = (case p of Stack_tf a \<Rightarrow> a | Env_tf e \<Rightarrow> envs_addr s + sizeof_Env * of_nat e)"

definition print_regs :: "PushRegs \<Rightarrow> 'z env_state_scheme \<Rightarrow> 'z env_state_scheme" where
  "print_regs regs s =
     (let s = cprintf (''  edi  0x%08x'' @ nl) [reg_edi regs] s;
          s = cprintf (''  esi  0x%08x'' @ nl) [reg_esi regs] s;
          s = cprintf (''  ebp  0x%08x'' @ nl) [reg_ebp regs] s;
          s = cprintf (''  oesp 0x%08x'' @ nl) [reg_oesp regs] s;
          s = cprintf (''  ebx  0x%08x'' @ nl) [reg_ebx regs] s;
          s = cprintf (''  edx  0x%08x'' @ nl) [reg_edx regs] s;
          s = cprintf (''  ecx  0x%08x'' @ nl) [reg_ecx regs] s
      in cprintf (''  eax  0x%08x'' @ nl) [reg_eax regs] s)"

definition print_trapframe :: "tf_ptr \<Rightarrow> 'z kernel_state_scheme \<Rightarrow> 'z kernel_state_scheme" where
  "print_trapframe p s =
     (let tf = tf_of s p;
          s = cprintf (''TRAP frame at %p'' @ nl) [tf_addr s p] s;
          s = print_regs (tf_regs tf) s;
          s = cprintf (''  es   0x----%04x'' @ nl) [ucast (tf_es tf)] s;
          s = cprintf (''  ds   0x----%04x'' @ nl) [ucast (tf_ds tf)] s;
          s = cprintf_args (''  trap 0x%08x %s'' @ nl) [Num (tf_trapno tf), Str (trapname (tf_trapno tf))] s;
          s = (if last_tf s = Some p \<and> tf_trapno tf = of_nat T_PGFLT
               then cprintf (''  cr2  0x%08x'' @ nl) [cr2 s] s else s);
          s = cprintf ''  err  0x%08x'' [tf_err tf] s;
          s = (if tf_trapno tf = of_nat T_PGFLT
               then cprintf_args ('' [%s, %s, %s]'' @ nl)
                 [Str (if tf_err tf AND 4 \<noteq> 0 then ''user'' else ''kernel''),
                  Str (if tf_err tf AND 2 \<noteq> 0 then ''write'' else ''read''),
                  Str (if tf_err tf AND 1 \<noteq> 0 then ''protection'' else ''not-present'')] s
               else cprintf nl [] s);
          s = cprintf (''  eip  0x%08x'' @ nl) [tf_eip tf] s;
          s = cprintf (''  cs   0x----%04x'' @ nl) [ucast (tf_cs tf)] s;
          s = cprintf (''  flag 0x%08x'' @ nl) [tf_eflags tf] s
      in if tf_cs tf AND 3 \<noteq> 0
         then cprintf (''  ss   0x----%04x'' @ nl) [ucast (tf_ss tf)]
                (cprintf (''  esp  0x%08x'' @ nl) [tf_esp tf] s)
         else s)"

section \<open>Dispatch\<close>

text \<open>\<open>env_destroy(curenv)\<close>.\<close>

definition stop_destroying_current ::
  "'z env_state_scheme \<Rightarrow> 'z env_state_scheme stop + 'a" where
  "stop_destroying_current s = (case curenv s of None \<Rightarrow> Inl (Faulted Wild_Access)
     | Some c \<Rightarrow> stop_destroying s c)"

definition page_fault_handler ::
  "'z kernel_state_scheme \<Rightarrow> tf_ptr \<Rightarrow> 'z kernel_state_scheme stop + 'z kernel_state_scheme" where
  "page_fault_handler s p =
     (let fault_va = cr2 s in
      if tf_cs (tf_of s p) AND 3 = 0 then Inl (Faulted (Panic ''kernel-mode page fault''))
      else case curenv s of None \<Rightarrow> Inl (Faulted Wild_Access)
      | Some c \<Rightarrow>
          let s = cprintf (''[%08x] user fault va %08x ip %08x'' @ nl)
                    [env_id (envs s ! c), fault_va, tf_eip (tf_of s p)] s;
              s = print_trapframe p s
          in stop_destroying_current s)"

definition set_eax :: "tf_ptr \<Rightarrow> u32 \<Rightarrow> 'z kernel_state_scheme \<Rightarrow> fault + 'z kernel_state_scheme" where
  "set_eax p r s = (case p of
     Stack_tf a \<Rightarrow> Inr (s\<lparr>stack_tf := (stack_tf s)\<lparr>tf_regs := (tf_regs (stack_tf s))\<lparr>reg_eax := r\<rparr>\<rparr>\<rparr>)
   | Env_tf e \<Rightarrow>
       upd_env e (\<lambda>v. v\<lparr>env_tf := (env_tf v)\<lparr>tf_regs := (tf_regs (env_tf v))\<lparr>reg_eax := r\<rparr>\<rparr>\<rparr>) s)"

definition trap_dispatch ::
  "'z kernel_state_scheme \<Rightarrow> tf_ptr \<Rightarrow> ('z kernel_state_scheme stop + 'z kernel_state_scheme) option" where
  "trap_dispatch s p =
     (let tf = tf_of s p; regs = tf_regs tf in
      if tf_trapno tf = of_nat T_PGFLT then Some (page_fault_handler s p)
      else if tf_trapno tf = of_nat T_BRKPT then Some (Inl (In_monitor (Some p) s))
      else if tf_trapno tf = of_nat T_SYSCALL then
        bindo (syscall s (reg_eax regs) (reg_edx regs) (reg_ecx regs) (reg_ebx regs) (reg_edi regs) (reg_esi regs))
          (\<lambda>(r, s). Some (run (set_eax p r s)))
      else
        let s = print_trapframe p s in
        if tf_cs (tf_of s p) = ucast GD_KT then Some (Inl (Faulted (Panic ''unhandled trap in kernel'')))
        else Some (stop_destroying_current s))"

definition FL_IF :: u32 where [simp]: "FL_IF = 0x200"

text \<open>The end of \<open>trap\<close>.\<close>

definition trap_resume ::
  "'z env_state_scheme \<Rightarrow> 'z env_state_scheme stop + Trapframe \<times> 'z env_state_scheme" where
  "trap_resume s =
     (case curenv s of
        None \<Rightarrow> Inl (Faulted (Panic ''assertion failed: curenv && curenv->env_status == ENV_RUNNING''))
      | Some c \<Rightarrow>
          if env_status (envs s ! c) \<noteq> ENV_RUNNING
          then Inl (Faulted (Panic ''assertion failed: curenv && curenv->env_status == ENV_RUNNING''))
          else run (env_run s c))"

text \<open>The frame is at address \<open>a\<close> of the kernel stack, its contents in \<^const>\<open>stack_tf\<close>.\<close>

definition trap ::
  "'z kernel_state_scheme \<Rightarrow> u32 \<Rightarrow> ('z kernel_state_scheme stop + Trapframe \<times> 'z kernel_state_scheme) option" where
  "trap s a =
     (if eflags s AND FL_IF \<noteq> 0 then
        Some (Inl (Faulted (Panic ''assertion failed: !(read_eflags() & FL_IF)'')))
      else
        let s = cprintf (''Incoming TRAP frame at %p'' @ nl) [a] s in
        bindo (Some (
          if tf_cs (stack_tf s) AND 3 = 3 then
            (case curenv s of
               None \<Rightarrow> Inl (Faulted (Panic ''assertion failed: curenv''))
             | Some c \<Rightarrow> bindr (run (upd_env c (\<lambda>v. v\<lparr>env_tf := stack_tf s\<rparr>) s)) (\<lambda>s. Inr (Env_tf c, s)))
          else Inr (Stack_tf a, s))) (\<lambda>(p, s).
        let s = s\<lparr>last_tf := Some p\<rparr> in
        bindo (trap_dispatch s p) (\<lambda>s. Some (trap_resume s))))"

section \<open>Back to user mode\<close>

lemma set_eax_Env:
  "set_eax (Env_tf c) r s = Inr t \<longleftrightarrow> c < length (envs s) \<and> t = s\<lparr>envs := (envs s)[c :=
     (envs s ! c)\<lparr>env_tf := (env_tf (envs s ! c))\<lparr>tf_regs := (tf_regs (env_tf (envs s ! c)))\<lparr>reg_eax := r\<rparr>\<rparr>\<rparr>]\<rparr>"
  by (simp add: set_eax_def upd_env_eq)

lemma page_fault_handler_stops: "page_fault_handler s p \<noteq> Inr t"
  by (auto simp: page_fault_handler_def Let_def stop_destroying_current_def stop_destroying_stops
      split: option.splits)

lemma stop_destroying_current_stops: "stop_destroying_current s \<noteq> Inr t"
  by (auto simp: stop_destroying_current_def stop_destroying_stops split: option.splits)

lemma trap_dispatch_returns:
  assumes "trap_dispatch s (Env_tf c) = Some (Inr t)"
  shows "\<exists>r u. tf_trapno (env_tf (envs s ! c)) = of_nat T_SYSCALL \<and> quiet s u \<and> c < length (envs s) \<and>
    t = u\<lparr>envs := (envs s)[c :=
     (envs s ! c)\<lparr>env_tf := (env_tf (envs s ! c))\<lparr>tf_regs := (tf_regs (env_tf (envs s ! c)))\<lparr>reg_eax := r\<rparr>\<rparr>\<rparr>]\<rparr>"
proof -
  obtain n a1 a2 a3 a4 a5 r u where
    n: "tf_trapno (env_tf (envs s ! c)) = of_nat T_SYSCALL" "set_eax (Env_tf c) r u = Inr t"
      "syscall s n a1 a2 a3 a4 a5 = Some (Inr (r, u))"
    using assms by (auto simp: trap_dispatch_def Let_def page_fault_handler_stops stop_destroying_current_stops
        bindo_eq_Inr run_eq tf_of_def split: if_splits)
  from syscall_quiet [OF n(3)] have "quiet s u" "envs u = envs s" by (auto simp: quiet_def)
  with n(1,2) show ?thesis by (auto simp: set_eax_Env)
qed

text \<open>What a trap from user mode leaves as it was: everything but the saved frame, the console and
  the note of the last frame.\<close>

definition user_kept :: "'z kernel_state_scheme \<Rightarrow> nat \<Rightarrow> Trapframe \<Rightarrow> 'z kernel_state_scheme \<Rightarrow> bool" where
  "user_kept s c tf t \<longleftrightarrow> (\<exists>msgs d. t = s\<lparr>envs := (envs s)[c := (envs s ! c)\<lparr>env_tf := tf\<rparr>],
     console := msgs, dev := d, last_tf := Some (Env_tf c)\<rparr>)"

lemma env_run_current:
  "curenv s = Some c \<Longrightarrow> env_run s c = Inr (tf, t) \<longleftrightarrow> c < length (envs s) \<and> tf = env_tf (envs s ! c) \<and> t = s"
  by (auto simp: env_run_def)

lemma trap_returns:
  assumes user: "tf_cs (stack_tf s) AND 3 = 3" and ret: "trap s a = Some (Inr (tf, t))"
  shows "\<exists>c r. curenv s = Some c \<and> env_status (envs s ! c) = ENV_RUNNING \<and>
    tf_trapno (stack_tf s) = of_nat T_SYSCALL \<and>
    tf = (stack_tf s)\<lparr>tf_regs := (tf_regs (stack_tf s))\<lparr>reg_eax := r\<rparr>\<rparr> \<and> user_kept s c tf t"
proof -
  let ?s = "cprintf (''Incoming TRAP frame at %p'' @ nl) [a] s"
  obtain c u v where c: "curenv s = Some c" "c < length (envs s)"
    and u: "u = ?s\<lparr>envs := (envs s)[c := (envs s ! c)\<lparr>env_tf := stack_tf s\<rparr>], last_tf := Some (Env_tf c)\<rparr>"
    and v: "trap_dispatch u (Env_tf c) = Some (Inr v)"
    and t: "case curenv v of None \<Rightarrow> False | Some c \<Rightarrow> env_status (envs v ! c) = ENV_RUNNING \<and>
      env_run v c = Inr (tf, t)"
    using ret user by (auto simp: trap_def trap_resume_def Let_def bindo_eq_Inr bindr_eq_Inr run_eq upd_env_eq cprintf_def
        split: if_splits option.splits)
  have uc: "env_tf (envs u ! c) = stack_tf s" "curenv u = Some c" "length (envs u) = length (envs s)"
    "env_status (envs u ! c) = env_status (envs s ! c)"
    using c by (simp_all add: u cprintf_def)
  obtain r w where r: "tf_trapno (stack_tf s) = of_nat T_SYSCALL" "quiet u w"
    "v = w\<lparr>envs := (envs u)[c := (envs u ! c)\<lparr>env_tf :=
       (stack_tf s)\<lparr>tf_regs := (tf_regs (stack_tf s))\<lparr>reg_eax := r\<rparr>\<rparr>\<rparr>]\<rparr>"
    using trap_dispatch_returns [OF v] unfolding uc(1) by blast
  obtain m d where w: "w = u\<lparr>console := m, dev := d\<rparr>" using r(2) by (auto simp: quiet_def)
  have cv: "curenv v = Some c" "env_status (envs v ! c) = env_status (envs s ! c)" "c < length (envs v)"
    "env_tf (envs v ! c) = (stack_tf s)\<lparr>tf_regs := (tf_regs (stack_tf s))\<lparr>reg_eax := r\<rparr>\<rparr>"
    using c uc by (simp_all add: r(3) w)
  have "tf = (stack_tf s)\<lparr>tf_regs := (tf_regs (stack_tf s))\<lparr>reg_eax := r\<rparr>\<rparr>" "t = v"
    "env_status (envs s ! c) = ENV_RUNNING"
    using t cv by (simp_all add: env_run_current)
  moreover have "user_kept s c tf t"
    unfolding user_kept_def calculation r(3) w u using c
    by (intro exI [of _ m] exI [of _ d]) (simp add: cprintf_def)
  ultimately show ?thesis using c(1) r(1) by blast
qed

section \<open>Printing changes nothing but the console\<close>

definition says :: "'z env_state_scheme \<Rightarrow> 'z env_state_scheme \<Rightarrow> bool" where
  "says s t \<longleftrightarrow> (\<exists>m. t = s\<lparr>console := m\<rparr>)"

lemma says_refl: "says s s"
proof -
  have "s = s\<lparr>console := console s\<rparr>" by simp
  then show ?thesis unfolding says_def by blast
qed

lemma says_cprintf: "says s t \<Longrightarrow> says s (cprintf fmt args t)" "says s t \<Longrightarrow> says s (cprintf_args fmt xs t)"
  by (auto simp: says_def cprintf_def cprintf_args_def)

lemma says_if: "says s t \<Longrightarrow> says s u \<Longrightarrow> says s (if b then t else u)"
  by simp

lemma says_print_trapframe: "says s t \<Longrightarrow> says s (print_trapframe p t)"
  unfolding print_trapframe_def print_regs_def Let_def
  by (intro says_cprintf says_if)

lemma saysD:
  assumes "says s t"
  shows "mem t = mem s" "pages t = pages s" "npages t = npages s" "page_free_list t = page_free_list s"
    "envs t = envs s" "curenv t = curenv s" "env_free_list t = env_free_list s" "kern_pgdir t = kern_pgdir s"
  using assms by (auto simp: says_def)

section \<open>What traps do\<close>

text \<open>C11: User code goes on after a trap only if the trap was a system call and the environment
  is running, and then everything is as it was at the trap except \<open>%eax\<close>: the frame that
  is restored is the one that was saved but for \<open>reg_eax\<close>, and the kernel state differs only
  in the saved frame of that environment, in the console and in \<open>last_tf\<close>; memory, page
  tables, free lists and all other environments are untouched.\<close>

theorem trap_returns_to_caller:
  assumes "tf_cs (stack_tf s) AND 3 = 3" "trap s a = Some (Inr (tf, t))"
  shows "\<exists>c r msgs d. curenv s = Some c \<and> env_status (envs s ! c) = ENV_RUNNING \<and>
    tf_trapno (stack_tf s) = of_nat T_SYSCALL \<and>
    tf = (stack_tf s)\<lparr>tf_regs := (tf_regs (stack_tf s))\<lparr>reg_eax := r\<rparr>\<rparr> \<and>
    t = s\<lparr>envs := (envs s)[c := (envs s ! c)\<lparr>env_tf := tf\<rparr>], console := msgs, dev := d,
      last_tf := Some (Env_tf c)\<rparr>"
  using trap_returns [OF assms] unfolding user_kept_def by blast

text \<open>The system calls that need nothing but the current environment.\<close>

definition user_trap :: "'z kernel_state_scheme \<Rightarrow> nat \<Rightarrow> bool" where
  "user_trap s c \<longleftrightarrow> eflags s AND FL_IF = 0 \<and> tf_cs (stack_tf s) AND 3 = 3 \<and> curenv s = Some c \<and>
     c < length (envs s) \<and> env_status (envs s ! c) = ENV_RUNNING"

lemma trap_user_eq:
  assumes "user_trap s c"
  shows "\<exists>m. trap s a = (let u = s\<lparr>console := m, envs := (envs s)[c := (envs s ! c)\<lparr>env_tf := stack_tf s\<rparr>],
      last_tf := Some (Env_tf c)\<rparr> in
    bindo (trap_dispatch u (Env_tf c)) (\<lambda>s. Some (trap_resume s)))"
  using assms by (auto simp: user_trap_def trap_def Let_def upd_env_def cprintf_def
      intro!: exI [of _ "Message (''Incoming TRAP frame at %p'' @ nl) [Num a] # console s"])

lemma trap_simple_call:
  assumes u: "user_trap s c" and n: "tf_trapno (stack_tf s) = of_nat T_SYSCALL"
    "reg_eax (tf_regs (stack_tf s)) = SYS_getenvid \<or> reg_eax (tf_regs (stack_tf s)) > SYS_env_destroy"
  shows "\<exists>t. trap s a = Some (Inr ((stack_tf s)\<lparr>tf_regs := (tf_regs (stack_tf s))\<lparr>reg_eax :=
    (if reg_eax (tf_regs (stack_tf s)) = SYS_getenvid then env_id (envs s ! c) else - E_INVAL)\<rparr>\<rparr>, t))"
proof -
  obtain m where t: "trap s a = (let u = s\<lparr>console := m, envs := (envs s)[c := (envs s ! c)\<lparr>env_tf := stack_tf s\<rparr>],
      last_tf := Some (Env_tf c)\<rparr> in
    bindo (trap_dispatch u (Env_tf c)) (\<lambda>s. Some (trap_resume s)))"
    using trap_user_eq [OF u] by blast
  show ?thesis
    unfolding t using u n
    by (auto simp: Let_def user_trap_def trap_resume_def trap_dispatch_def tf_of_def syscall_def sys_getenvid_def set_eax_def
        upd_env_def env_run_def simp del: ENV_RUNNING_def)
qed

text \<open>A system call trap of the running environment with the number of \<open>sys_getenvid\<close> goes on
  in user mode with the id of the environment in \<open>%eax\<close>, and one with a number that is none of
  the four known ones with \<open>-E_INVAL\<close>.\<close>

theorem trap_getenvid_or_invalid:
  assumes u: "user_trap s c" and n: "tf_trapno (stack_tf s) = of_nat T_SYSCALL"
    "reg_eax (tf_regs (stack_tf s)) = SYS_getenvid \<or> reg_eax (tf_regs (stack_tf s)) > SYS_env_destroy"
  shows "\<exists>t. trap s a = Some (Inr ((stack_tf s)\<lparr>tf_regs := (tf_regs (stack_tf s))\<lparr>reg_eax :=
    (if reg_eax (tf_regs (stack_tf s)) = SYS_getenvid then env_id (envs s ! c) else - E_INVAL)\<rparr>\<rparr>, t))"
  using assms by (rule trap_simple_call)

lemma stop_destroying_owner:
  assumes ow: "owns s D xs" "env_pgdir (envs s ! c) = pgdir_kva D" "KERNBASE \<le> kern_pgdir s" "c < length (envs s)"
  shows "\<exists>t ys. stop_destroying s c = Inl (In_monitor None t) \<and> free_pages t ys \<and>
    env_status (envs t ! c) = ENV_FREE \<and> env_free_list t = Some c \<and>
    set ys = set xs \<union> {g. 0 < maps s D g \<and> refs s g = maps s D g} \<union>
      {f. \<exists>d < user_slots. table_at s D d = Some f} \<union> (if refs s D = 1 then {D} else {})"
proof -
  obtain u ys where u: "env_free s c = Inr u" "free_pages u ys" "env_status (envs u ! c) = ENV_FREE"
    "env_free_list u = Some c" "set ys = set xs \<union> {g. 0 < maps s D g \<and> refs s g = maps s D g} \<union>
      {f. \<exists>d < user_slots. table_at s D d = Some f} \<union> (if refs s D = 1 then {D} else {})"
    using env_free_spec [OF ow(1) ow(4,2,3)] by blast
  have "page_link (cprintf f xs u) = page_link u" for f xs by (simp add: page_link_def fun_eq_iff cprintf_def)
  with u(2) have k: "free_pages (cprintf f xs u) ys" for f xs
    by (simp add: free_pages_def page_cap_def) (simp add: cprintf_def)
  let ?t = "cprintf (''Destroyed the only environment - nothing more to do!'' @ nl) [] u"
  have "stop_destroying s c = Inl (In_monitor None ?t)"
    by (simp add: stop_destroying_def env_destroy_def u(1))
  moreover have "free_pages ?t ys" by (rule k)
  moreover have "env_status (envs ?t ! c) = ENV_FREE" "env_free_list ?t = Some c"
    using u(3,4) by (simp_all add: cprintf_def)
  ultimately show ?thesis using u(5) by blast
qed

lemma stop_destroying_current_eq: "curenv x = Some c \<Longrightarrow> stop_destroying_current x = stop_destroying x c"
  by (simp add: stop_destroying_current_def)

lemma trap_user_stops:
  assumes u: "user_trap s c" and n: "tf_trapno (stack_tf s) \<noteq> of_nat T_SYSCALL" "tf_trapno (stack_tf s) \<noteq> of_nat T_BRKPT"
  shows "\<exists>v. trap s a = Some (stop_destroying v c) \<and> says (s\<lparr>envs := (envs s)[c := (envs s ! c)\<lparr>env_tf := stack_tf s\<rparr>],
    last_tf := Some (Env_tf c)\<rparr>) v"
proof -
  let ?v = "s\<lparr>envs := (envs s)[c := (envs s ! c)\<lparr>env_tf := stack_tf s\<rparr>], last_tf := Some (Env_tf c)\<rparr>"
  obtain m where t: "trap s a = (let u = s\<lparr>console := m, envs := (envs s)[c := (envs s ! c)\<lparr>env_tf := stack_tf s\<rparr>],
      last_tf := Some (Env_tf c)\<rparr> in bindo (trap_dispatch u (Env_tf c)) (\<lambda>s. Some (trap_resume s)))"
    using trap_user_eq [OF u] by blast
  define w where "w = s\<lparr>console := m, envs := (envs s)[c := (envs s ! c)\<lparr>env_tf := stack_tf s\<rparr>],
      last_tf := Some (Env_tf c)\<rparr>"
  have w: "says ?v w" "tf_of w (Env_tf c) = stack_tf s" "curenv w = Some c"
    using u by (auto simp: w_def says_def tf_of_def user_trap_def intro!: exI [of _ m])
  have cs: "tf_cs (stack_tf s) AND 3 = 3" "tf_cs (stack_tf s) \<noteq> 8"
    using u by (auto simp: user_trap_def)
  have cur: "curenv x = Some c" if "says w x" for x
    using saysD(6) [OF that] w(3) by simp
  have tr: "says ?v y" if "says w y" for y
    using that w(1) by (auto simp: says_def)
  have tfx: "tf_of x (Env_tf c) = stack_tf s" if "says w x" for x
    using that w(2) by (auto simp: says_def tf_of_def)
  let ?p = "print_trapframe (Env_tf c)"
  show ?thesis
  proof (cases "tf_trapno (stack_tf s) = of_nat T_PGFLT")
    case True
    let ?w = "cprintf (''[%08x] user fault va %08x ip %08x'' @ nl) [env_id (envs w ! c), cr2 w, tf_eip (tf_of w (Env_tf c))] w"
    have "says w (?p ?w)" by (intro says_print_trapframe says_cprintf says_refl)
    moreover have "trap s a = Some (stop_destroying (?p ?w) c)"
      unfolding t w_def [symmetric] using True cs w cur [OF calculation]
      by (simp add: trap_dispatch_def page_fault_handler_def Let_def stop_destroying_current_eq stop_destroying_bind)
    ultimately show ?thesis using tr by blast
  next
    case False
    have "says w (?p w)" by (intro says_print_trapframe says_refl)
    moreover have "trap s a = Some (stop_destroying (?p w) c)"
      unfolding t w_def [symmetric] using False n cs w cur [OF calculation] tfx [OF calculation]
      by (simp add: trap_dispatch_def Let_def stop_destroying_current_eq stop_destroying_bind)
    ultimately show ?thesis using tr by blast
  qed
qed

lemma trap_user_ends:
  assumes u: "user_trap s c" and n: "tf_trapno (stack_tf s) \<noteq> of_nat T_SYSCALL" "tf_trapno (stack_tf s) \<noteq> of_nat T_BRKPT"
    and ow: "owns s D xs" "env_pgdir (envs s ! c) = pgdir_kva D" "KERNBASE \<le> kern_pgdir s"
  shows "\<exists>t ys. trap s a = Some (Inl (In_monitor None t)) \<and> free_pages t ys \<and>
    env_status (envs t ! c) = ENV_FREE \<and> env_free_list t = Some c \<and>
    set ys = set xs \<union> {g. 0 < maps s D g \<and> refs s g = maps s D g} \<union>
      {f. \<exists>d < user_slots. table_at s D d = Some f} \<union> (if refs s D = 1 then {D} else {})"
proof -
  obtain v where v: "trap s a = Some (stop_destroying v c)"
    "says (s\<lparr>envs := (envs s)[c := (envs s ! c)\<lparr>env_tf := stack_tf s\<rparr>], last_tf := Some (Env_tf c)\<rparr>) v"
    using trap_user_stops [OF u n] by blast
  have same: "mem v = mem s" "pages v = pages s" "npages v = npages s" "page_free_list v = page_free_list s"
    "kern_pgdir v = kern_pgdir s" "envs v = (envs s)[c := (envs s ! c)\<lparr>env_tf := stack_tf s\<rparr>]"
    using saysD [OF v(2)] by simp_all
  note cong = owns_cong [OF same(1-4)]
  have "c < length (envs s)" using u by (simp add: user_trap_def)
  then have "owns v D xs" "env_pgdir (envs v ! c) = pgdir_kva D" "KERNBASE \<le> kern_pgdir v" "c < length (envs v)"
    using ow by (simp_all add: cong(1) same)
  from stop_destroying_owner [OF this] show ?thesis unfolding v(1) cong by blast
qed

text \<open>C28: An exception in user mode that is neither the breakpoint nor a system call ends the
  environment and never the kernel: if the address space of the running environment is sound,
  the kernel reports the trap, frees the environment, gives its pages back and stays in the
  monitor, without a fault.\<close>

theorem trap_user_exception:
  assumes u: "user_trap s c" and n: "tf_trapno (stack_tf s) \<noteq> of_nat T_SYSCALL" "tf_trapno (stack_tf s) \<noteq> of_nat T_BRKPT"
    and ow: "owns s D xs" "env_pgdir (envs s ! c) = pgdir_kva D" "KERNBASE \<le> kern_pgdir s"
  shows "\<exists>t ys. trap s a = Some (Inl (In_monitor None t)) \<and> free_pages t ys \<and>
    env_status (envs t ! c) = ENV_FREE \<and> env_free_list t = Some c \<and>
    set ys = set xs \<union> {g. 0 < maps s D g \<and> refs s g = maps s D g} \<union>
      {f. \<exists>d < user_slots. table_at s D d = Some f} \<union> (if refs s D = 1 then {D} else {})"
  using assms by (rule trap_user_ends)

text \<open>A page fault in kernel mode is a panic: the kernel does not go on.\<close>

theorem trap_kernel_page_fault:
  assumes "eflags s AND FL_IF = 0" "tf_cs (stack_tf s) AND 3 = 0" "tf_trapno (stack_tf s) = of_nat T_PGFLT"
  shows "trap s a = Some (Inl (Faulted (Panic ''kernel-mode page fault'')))"
  using assms by (simp add: trap_def Let_def trap_dispatch_def tf_of_def cprintf_def page_fault_handler_def)

section \<open>A machine for the witnesses\<close>

definition demo_trap :: "u16 \<Rightarrow> u32 \<Rightarrow> u32 \<Rightarrow> kernel_state" where
  "demo_trap cs trapno eax = env_state.extend demo_free
     \<lparr>dev = blank_screen 0, cr2 = 0, eflags = 2,
      stack_tf = tf_zero\<lparr>tf_cs := cs, tf_trapno := trapno, tf_regs := regs_zero\<lparr>reg_eax := eax\<rparr>\<rparr>,
      last_tf = None, envs_addr = 0xF0200000\<rparr>"

lemma demo_trap_sel: "envs (demo_trap cs n x) = envs demo_envs" "mem (demo_trap cs n x) = mem demo_free"
  "pages (demo_trap cs n x) = pages demo_free" "npages (demo_trap cs n x) = npages demo_free"
  "page_free_list (demo_trap cs n x) = page_free_list demo_free" "kern_pgdir (demo_trap cs n x) = 0xF0000000"
  "curenv (demo_trap cs n x) = Some 3" "eflags (demo_trap cs n x) = 2"
  "stack_tf (demo_trap cs n x) = tf_zero\<lparr>tf_cs := cs, tf_trapno := n, tf_regs := regs_zero\<lparr>reg_eax := x\<rparr>\<rparr>"
  by (simp_all add: demo_trap_def env_state.defs pmap_state.defs demo_free_def demo_envs_def)

lemma demo_user_trap: "user_trap (demo_trap 0x1B n x) 3"
  by (simp add: user_trap_def demo_trap_sel demo_envs_nth)

lemma trap_getenvid_or_invalid_witness:
  "\<exists>t u. trap (demo_trap 0x1B 48 2) 0xEFFFFF00 =
     Some (Inr ((stack_tf (demo_trap 0x1B 48 2))\<lparr>tf_regs := regs_zero\<lparr>reg_eax := 0x1003\<rparr>\<rparr>, t)) \<and>
   trap (demo_trap 0x1B 48 9) 0xEFFFFF00 =
     Some (Inr ((stack_tf (demo_trap 0x1B 48 9))\<lparr>tf_regs := regs_zero\<lparr>reg_eax := - 3\<rparr>\<rparr>, u))"
  using trap_getenvid_or_invalid [OF demo_user_trap, of 48 2 "0xEFFFFF00"]
    trap_getenvid_or_invalid [OF demo_user_trap, of 48 9 "0xEFFFFF00"]
  by (simp add: demo_trap_sel demo_envs_nth tf_zero_def)

lemma trap_returns_to_caller_witness:
  "\<exists>t. trap (demo_trap 0x1B 48 2) 0xEFFFFF00 =
     Some (Inr ((stack_tf (demo_trap 0x1B 48 2))\<lparr>tf_regs := regs_zero\<lparr>reg_eax := 0x1003\<rparr>\<rparr>, t)) \<and>
   mem t = mem demo_free"
proof -
  let ?tf = "(stack_tf (demo_trap 0x1B 48 2))\<lparr>tf_regs := regs_zero\<lparr>reg_eax := 0x1003\<rparr>\<rparr>"
  obtain t where t: "trap (demo_trap 0x1B 48 2) 0xEFFFFF00 = Some (Inr (?tf, t))"
    using trap_simple_call [OF demo_user_trap, of 48 2 "0xEFFFFF00"]
    by (auto simp: demo_trap_sel demo_envs_nth tf_zero_def)
  have "tf_cs (stack_tf (demo_trap 0x1B 48 2)) AND 3 = 3" by (simp add: demo_trap_sel)
  from trap_returns_to_caller [OF this t] have "mem t = mem (demo_trap 0x1B 48 2)"
    by (elim exE conjE) simp
  with t show ?thesis by (simp add: demo_trap_sel)
qed

lemma trap_kernel_page_fault_witness:
  "trap (demo_trap 8 14 0) 0xEFFFFF00 = Some (Inl (Faulted (Panic ''kernel-mode page fault'')))"
  by (rule trap_kernel_page_fault) (simp_all add: demo_trap_sel)

lemma trap_user_exception_witness:
  "\<exists>t. trap (demo_trap 0x1B 14 0) 0xEFFFFF00 = Some (Inl (In_monitor None t)) \<and> env_status (envs t ! 3) = ENV_FREE"
proof -
  have same: "mem (demo_trap 0x1B 14 0) = mem demo_free" "pages (demo_trap 0x1B 14 0) = pages demo_free"
    "npages (demo_trap 0x1B 14 0) = npages demo_free" "page_free_list (demo_trap 0x1B 14 0) = page_free_list demo_free"
    by (simp_all add: demo_trap_sel)
  have "owns (demo_trap 0x1B 14 0) 3 []" unfolding owns_cong(1) [OF same] by (rule demo_free_owns)
  moreover have "env_pgdir (envs (demo_trap 0x1B 14 0) ! 3) = pgdir_kva 3" "KERNBASE \<le> kern_pgdir (demo_trap 0x1B 14 0)"
    by (simp_all add: demo_trap_sel demo_envs_nth)
  moreover have "tf_trapno (stack_tf (demo_trap 0x1B 14 0)) \<noteq> of_nat T_SYSCALL"
    "tf_trapno (stack_tf (demo_trap 0x1B 14 0)) \<noteq> of_nat T_BRKPT"
    by (simp_all add: demo_trap_sel)
  ultimately show ?thesis using trap_user_exception [OF demo_user_trap] by blast
qed

end
