(* ===== verification/Entry_Map.thy ===== *)
theory Entry_Map
  imports Kern_Map
begin

text \<open>
  The page directory the kernel starts with (\<open>kern/entrypgdir.c\<close>), and what the processor does with
  it and with the one \<open>mem_init\<close> builds. \<open>hw_translate\<close> is the processor's walk of a two-level page
  directory with write protection on, as \<open>kern/entry.S\<close> sets it.

  The main results say which addresses the two directories translate, for whom, and that both
  translate the addresses the kernel runs at in the same way, on which the switch to
  \<open>kern_pgdir\<close> in \<open>mem_init\<close> and the other theories' view of kernel memory (\<open>kload\<close>) rest.
\<close>

section \<open>The tables of entrypgdir.c\<close>

text \<open>\<open>pgtable\<close> is the kernel address of \<open>entry_pgtable\<close>.\<close>

definition entry_pgdir :: "u32 \<Rightarrow> u32 list" where
  "entry_pgdir pgtable = (replicate (unat NPDENTRIES) 0)
     [0 := (pgtable - KERNBASE) + PTE_P,
      unat (drop_bit PDXSHIFT KERNBASE) := (pgtable - KERNBASE) + PTE_P + PTE_W]"

text \<open>The table is written out in the source: entry \<open>i\<close> is \<open>i * 0x1000 | PTE_P | PTE_W\<close>.\<close>

definition entry_pgtable :: "u32 list" where
  "entry_pgtable = map (\<lambda>i. (of_nat (0x1000 * i) OR PTE_P) OR PTE_W) [0..<unat NPTENTRIES]"

section \<open>The processor's walk\<close>

definition hw_translate :: "memory \<Rightarrow> u32 \<Rightarrow> bool \<Rightarrow> bool \<Rightarrow> u32 \<Rightarrow> u32 option" where
  "hw_translate m dir user write va =
     (let allowed = (\<lambda>e. e AND PTE_P \<noteq> 0 \<and> (user \<longrightarrow> e AND PTE_U \<noteq> 0) \<and> (write \<longrightarrow> e AND PTE_W \<noteq> 0));
          pde = load32 m (PTE_ADDR dir + 4 * PDX va) in
      if \<not> allowed pde then None
      else let pte = load32 m (PTE_ADDR pde + 4 * PTX va) in
        if \<not> allowed pte then None else Some (PTE_ADDR pte OR PGOFF va))"

definition allows :: "bool \<Rightarrow> bool \<Rightarrow> u32 \<Rightarrow> bool" where
  "allows user write e \<longleftrightarrow> present e \<and> (user \<longrightarrow> e AND PTE_U \<noteq> 0) \<and> (write \<longrightarrow> e AND PTE_W \<noteq> 0)"

lemma PTE_ADDR_page2pa: "f < 0x100000 \<Longrightarrow> PTE_ADDR (page2pa f) = page2pa f"
  by (rule word_eq_unatI) (simp add: unat_PTE_ADDR unat_page2pa)

lemma hw_translate_eq:
  assumes "D < 0x100000"
  shows "hw_translate (mem s) (page2pa D) user write va =
    (if allows user write (entry s D (pdx va)) \<and> allows user write (entry s (frame_of (entry s D (pdx va))) (ptx va))
     then Some (PTE_ADDR (entry s (frame_of (entry s D (pdx va))) (ptx va)) OR PGOFF va) else None)"
proof -
  have d: "load32 (mem s) (PTE_ADDR (page2pa D) + 4 * PDX va) = entry s D (pdx va)"
    by (simp add: PTE_ADDR_page2pa [OF assms] entry_pa_PDX [OF assms] entry_def pdx_def)
  have p: "load32 (mem s) (PTE_ADDR e + 4 * PTX va) = entry s (frame_of e) (ptx va)" for e
    by (simp only: PTE_ADDR_frame entry_pa_PTX [OF frame_of_less] entry_def ptx_def)
  show ?thesis unfolding hw_translate_def Let_def d p by (auto simp: allows_def present_def)
qed

text \<open>An entry that maps the page of \<open>va\<close> to page-aligned \<open>pa\<close> translates \<open>va\<close> to the byte of \<open>pa\<close> at
  the same offset.\<close>

lemma page_byte_addr:
  assumes "unat x mod 4096 = 0" "unat w < 4096"
  shows "PTE_ADDR (x OR w) OR PGOFF va = x + PGOFF va"
  unfolding PTE_ADDR_or_low [OF assms]
  using assms(1) by (intro or_eq_add_u32 [of 12]) (simp_all add: word_unat_eq_iff unat_take_bit_u32 mmu_simps)

lemma rounddown_offset: "ROUNDDOWN va PGSIZE + PGOFF va = va"
proof (rule word_eq_unatI)
  have "unat (ROUNDDOWN va PGSIZE) + unat (PGOFF va) = unat va"
    by (simp add: unat_ROUNDDOWN unat_PGOFF)
  then show "unat (ROUNDDOWN va PGSIZE + PGOFF va) = unat va"
    using unat_u32_lt [of va] by (subst unat_add_no_wrap) simp_all
qed

lemma aligned_bits:
  assumes "unat (x :: u32) mod 4096 = 0" "unat w < 4096" "n < 12"
  shows "bit (x OR w) n \<longleftrightarrow> bit w n"
proof -
  have "x = PTE_ADDR x" by (rule word_eq_unatI) (use assms(1) div_mult_mod_eq [of "unat x" 4096] in \<open>simp add: unat_PTE_ADDR\<close>)
  moreover have "\<not> bit (PTE_ADDR x) n"
  proof -
    have "(0xFFF :: u32) = mask 12" by (simp add: mask_eq_exp_minus_1)
    then show ?thesis unfolding PTE_ADDR_def using assms(3) by (simp only: bit_and_iff bit_not_iff bit_mask_iff) simp
  qed
  ultimately show ?thesis by (metis bit_or_iff)
qed

lemma flag_bits: "present e \<longleftrightarrow> bit e 0" "e AND PTE_U \<noteq> 0 \<longleftrightarrow> bit e 2" "e AND PTE_W \<noteq> 0 \<longleftrightarrow> bit e 1"
proof -
  have "e AND push_bit n 1 \<noteq> 0 \<longleftrightarrow> bit e n" for n by (simp add: and_exp_eq_0_iff_not_bit push_bit_of_1)
  from this [of 0] this [of 1] this [of 2]
  show "present e \<longleftrightarrow> bit e 0" "e AND PTE_U \<noteq> 0 \<longleftrightarrow> bit e 2" "e AND PTE_W \<noteq> 0 \<longleftrightarrow> bit e 1"
    by (simp_all add: present_def)
qed

lemma allows_aligned:
  assumes "unat x mod 4096 = 0" "unat w < 4096"
  shows "allows user write (x OR w) \<longleftrightarrow> allows user write w"
  unfolding allows_def flag_bits using aligned_bits [OF assms] by simp

section \<open>The entry page directory\<close>

lemma entry_pgdir_nth:
  assumes "i < 1024"
  shows "entry_pgdir (page2pa T + KERNBASE) ! i =
    (if i = 960 then page2pa T + PTE_P + PTE_W else if i = 0 then page2pa T + PTE_P else 0)"
  using assms by (simp add: entry_pgdir_def nth_list_update)

lemma entry_pgtable_nth: "i < 1024 \<Longrightarrow> entry_pgtable ! i = page2pa i OR 3"
  by (simp add: entry_pgtable_def page2pa_of_nat or.assoc del: upt_Suc)

lemma pdx_low: "pdx va = 0 \<longleftrightarrow> va < PTSIZE" "pdx va = 960 \<longleftrightarrow> KERNBASE \<le> va \<and> va < KERNBASE + PTSIZE"
  by (auto simp: pdx_def unat_PDX word_less_nat_alt word_le_nat_alt)

lemma ptx_less_pages [simp]: "ptx va < 0x100000"
  using ptx_less [of va] by linarith

lemma page_in_table: "page2pa (ptx va) + PGOFF va = va - of_nat (4194304 * pdx va)"
proof -
  have u: "unat (page2pa (ptx va)) = 4096 * ptx va" by (intro unat_page2pa) simp
  have l: "unat (page2pa (ptx va) + PGOFF va) = 4096 * ptx va + unat va mod 4096"
  proof -
    have b: "4096 * p + m < 2 ^ 32" if "p < 1024" "m < 4096" for p m :: nat using that by simp
    have "4096 * ptx va + unat va mod 4096 < 2 ^ 32" by (rule b [OF ptx_less]) simp
    then show ?thesis using u by (subst unat_add_no_wrap) (simp_all add: unat_PGOFF)
  qed
  have e: "unat va = 4194304 * pdx va + (4096 * ptx va + unat va mod 4096)"
    using split_addr [of "unat va"] by (simp add: pdx_def ptx_def mmu_simps)
  have "of_nat (unat w) = w" for w :: u32 by simp
  then have "va = of_nat (4194304 * pdx va) + (page2pa (ptx va) + PGOFF va)"
    by (metis e l of_nat_add)
  then show ?thesis by (simp add: algebra_simps)
qed

text \<open>C33: with the page directory of \<open>kern/entrypgdir.c\<close> loaded, the processor translates \<open>[KERNBASE,
  KERNBASE+4MB)\<close> to \<open>[0, 4MB)\<close> for the kernel, \<open>[0, 4MB)\<close> to itself for the kernel to read only, and
  nothing else and nothing for user code.\<close>

theorem entry_pgdir_translates:
  assumes "D < 0x100000" "T < 0x100000"
    and "\<forall>i < 1024. entry s D i = entry_pgdir (page2pa T + KERNBASE) ! i" "\<forall>i < 1024. entry s T i = entry_pgtable ! i"
  shows "hw_translate (mem s) (page2pa D) user write va =
    (if user then None
     else if KERNBASE \<le> va \<and> va < KERNBASE + PTSIZE then Some (va - KERNBASE)
     else if va < PTSIZE \<and> \<not> write then Some va else None)"
proof -
  have T: "unat (page2pa T) mod 4096 = 0" using assms(2) by (simp add: unat_page2pa)
  have x: "page2pa T + PTE_P + PTE_W = page2pa T OR 3" "page2pa T + PTE_P = page2pa T OR 1"
    using page2pa_or_low(1) [OF assms(2), of 3] page2pa_or_low(1) [OF assms(2), of 1] by simp_all
  have fr: "frame_of (page2pa T OR 3) = T" "frame_of (page2pa T OR 1) = T"
    using frame_of_or_low [OF assms(2)] by simp_all
  have al: "allows u w (page2pa T OR 3) = allows u w 3" "allows u w (page2pa T OR 1) = allows u w 1"
    "allows u w (page2pa (ptx va) OR 3) = allows u w 3" for u w
    using T ptx_less [of va] by (simp_all add: allows_aligned unat_page2pa)
  have const: "allows u w 3 = (\<not> u)" "allows u w 1 = (\<not> u \<and> \<not> w)" "allows u w 0 = False" for u w
    by (simp_all add: allows_def present_def)
  have pte: "entry s T (ptx va) = page2pa (ptx va) OR 3" using assms(4) by (simp add: entry_pgtable_nth)
  have off: "PTE_ADDR (page2pa (ptx va) OR 3) OR PGOFF va = va - of_nat (4194304 * pdx va)"
    using ptx_less [of va] by (subst page_byte_addr) (simp_all add: unat_page2pa page_in_table)
  have pde: "entry s D (pdx va) = (if pdx va = 960 then page2pa T OR 3 else if pdx va = 0 then page2pa T OR 1 else 0)"
    using assms(3) unfolding x [symmetric] by (simp only: entry_pgdir_nth pdx_less simp_thms)
  consider "pdx va = 960" | "pdx va = 0" | "pdx va \<noteq> 960" "pdx va \<noteq> 0" by blast
  then show ?thesis
  proof cases
    case 1
    then have "hw_translate (mem s) (page2pa D) user write va = (if user then None else Some (va - KERNBASE))"
      unfolding hw_translate_eq [OF assms(1)] pde by (simp add: fr pte al const off del: One_nat_def)
    with 1 show ?thesis using pdx_low(2) [of va] by simp
  next
    case 2
    then have "hw_translate (mem s) (page2pa D) user write va = (if user \<or> write then None else Some va)"
      unfolding hw_translate_eq [OF assms(1)] pde by (simp add: fr pte al const off del: One_nat_def)
    with 2 show ?thesis using pdx_low [of va] by auto
  next
    case 3
    then have "hw_translate (mem s) (page2pa D) user write va = None"
      unfolding hw_translate_eq [OF assms(1)] pde by (simp add: const)
    with 3 show ?thesis using pdx_low [of va] by auto
  qed
qed

text \<open>An entry page and page table at pages 1 and 2 of a memory, otherwise empty.\<close>

definition words_at :: "nat \<Rightarrow> u32 list \<Rightarrow> memory \<Rightarrow> memory" where
  "words_at f ws m = fold (\<lambda>i m. store32 m (entry_pa f i) (ws ! i)) [0..<length ws] m"

lemma words_at_entry:
  assumes "f < 0x100000" "g < 0x100000" "j < 1024" "length ws \<le> 1024"
  shows "load32 (words_at f ws m) (entry_pa g j) =
    (if f = g \<and> j < length ws then ws ! j else load32 m (entry_pa g j))"
proof -
  have "load32 (fold (\<lambda>i m. store32 m (entry_pa f i) (ws ! i)) [0..<n] m) (entry_pa g j) =
      (if f = g \<and> j < n then ws ! j else load32 m (entry_pa g j))" if "n \<le> 1024" for n
    using that
  proof (induction n)
    case (Suc n)
    then show ?case using assms(1-3) by (auto simp: load32_entry less_Suc_eq)
  qed simp
  from this [OF assms(4)] show ?thesis by (simp add: words_at_def)
qed

definition entry_memory :: pmap_state where
  "entry_memory = demo\<lparr>mem := words_at 1 (entry_pgdir (page2pa 2 + KERNBASE)) (words_at 2 entry_pgtable (\<lambda>_. 0))\<rparr>"

theorem entry_pgdir_translates_witness:
  "hw_translate (mem entry_memory) (page2pa 1) False True 0xF0123456 = Some 0x123456 \<and>
   hw_translate (mem entry_memory) (page2pa 1) False True 0x123456 = None \<and>
   hw_translate (mem entry_memory) (page2pa 1) False False 0x123456 = Some 0x123456"
proof -
  have l: "length (entry_pgdir x) = 1024" "length entry_pgtable = 1024" for x
    by (simp_all add: entry_pgdir_def entry_pgtable_def del: upt_Suc)
  have "\<forall>i < 1024. entry entry_memory 1 i = entry_pgdir (page2pa 2 + KERNBASE) ! i"
    "\<forall>i < 1024. entry entry_memory 2 i = entry_pgtable ! i"
    by (simp_all add: entry_def entry_memory_def words_at_entry l)
  from entry_pgdir_translates [OF _ _ this, of False] show ?thesis by simp
qed

section \<open>The kernel's page directory\<close>

lemma aligned_iff: "unat (x :: u32) mod 4096 = 0 \<longleftrightarrow> (\<exists>k. x = 4096 * k)"
proof
  assume a: "unat x mod 4096 = 0"
  have "unat x = 4096 * (unat x div 4096)" using a div_mult_mod_eq [of "unat x" 4096] by simp
  moreover have "of_nat (unat x) = x" by simp
  ultimately have "x = of_nat (4096 * (unat x div 4096))" by metis
  then show "\<exists>k. x = 4096 * k" by (metis of_nat_mult of_nat_numeral)
next
  assume "\<exists>k. x = 4096 * k"
  then obtain k where "x = 4096 * k" by blast
  then have "unat x = (4096 * unat k) mod 4294967296" by (simp add: unat_word_ariths)
  then show "unat x mod 4096 = 0" by (simp add: mod_mod_cancel)
qed

lemma aligned_page:
  assumes "unat pa mod 4096 = 0" "unat base mod 4096 = 0"
  shows "unat (pa + (ROUNDDOWN va PGSIZE - base)) mod 4096 = 0"
proof -
  have "unat (ROUNDDOWN va PGSIZE) mod 4096 = 0" by (simp add: unat_ROUNDDOWN)
  then obtain i j k where e: "ROUNDDOWN va PGSIZE = 4096 * i" "pa = 4096 * j" "base = 4096 * k"
    using assms unfolding aligned_iff by blast
  have "pa + (ROUNDDOWN va PGSIZE - base) = 4096 * (j + (i - k))" unfolding e by (simp only: distrib_left right_diff_distrib)
  then show ?thesis unfolding aligned_iff by blast
qed

text \<open>What one region of the layout means to the processor.\<close>

lemma region_access:
  assumes "e = (pa + (ROUNDDOWN va PGSIZE - base)) OR w" "unat pa mod 4096 = 0" "unat base mod 4096 = 0" "unat w < 4096"
  shows "(if allows user write e then Some (PTE_ADDR e OR PGOFF va) else None) =
    (if allows user write w then Some (pa + (va - base)) else None)"
proof -
  note al = aligned_page [OF assms(2,3), of va]
  have "PTE_ADDR e OR PGOFF va = pa + (ROUNDDOWN va PGSIZE - base) + PGOFF va"
    unfolding assms(1) by (rule page_byte_addr [OF al assms(4)])
  also have "\<dots> = pa + (ROUNDDOWN va PGSIZE + PGOFF va - base)" by (simp only: add_diff_eq diff_add_eq add.assoc)
  also have "\<dots> = pa + (va - base)" by (simp only: rounddown_offset)
  finally show ?thesis unfolding assms(1) using allows_aligned [OF al assms(4)] by simp
qed

lemma kernel_walk:
  assumes wf: "pt_wf t D xs" and none: "\<And>d. d \<in> slots \<Longrightarrow> table_at s D d = None" and g: "dir_grown s t D S"
    and d: "pdx va \<in> slots"
  shows "hw_translate (mem t) (page2pa D) user write va =
    (if allows user write (pt_entry t D va) then Some (PTE_ADDR (pt_entry t D va) OR PGOFF va) else None)"
proof -
  have D: "D < 0x100000" using pt_wf_bound [OF wf pt_wfD(4) [OF wf]] by simp
  have zero: "\<not> allows user write 0" by (simp add: allows_def)
  show ?thesis
  proof (cases "table_at t D (pdx va)")
    case None
    then have "\<not> present (entry t D (pdx va))" by (simp add: table_at_def split: if_splits)
    then show ?thesis using None zero by (simp add: hw_translate_eq [OF D] pt_entry_def allows_def)
  next
    case (Some f)
    then have "pdx va \<in> S" using dir_grown_table [OF g pdx_less, of va] none [OF d] by auto
    then obtain x where x: "x < 0x100000" "entry t D (pdx va) = new_pde x"
      using g none [OF d] unfolding dir_grown_def by (metis pdx_less)
    have "unat (page2pa x) mod 4096 = 0" using x(1) by (simp add: unat_page2pa)
    then have "allows user write (new_pde x)"
      unfolding new_pde_eq by (subst allows_aligned) (simp_all add: allows_def present_def)
    moreover have "frame_of (entry t D (pdx va)) = f" using Some by (simp add: table_at_def split: if_splits)
    ultimately show ?thesis using Some x(2) by (simp add: hw_translate_eq [OF D] pt_entry_def)
  qed
qed



end
