(* ===== verification/User_Mode.thy ===== *)
theory User_Mode
  imports Sys_Cputs Trap Entry_Map
begin

text \<open>
  What the processor does for a program in user mode: the \<open>int\<close> instruction, loads and stores
  through the page directory of \<open>%cr3\<close>, and the page faults they raise. The frame of the running
  program is \<open>stack_tf\<close>; \<open>ka\<close> is the place on the kernel stack where \<open>kern/trapentry.S\<close> builds it.
  An interrupt goes through \<open>trap\<close> and comes back with the frame \<open>trap\<close> restores, or stops.

  The results carry a program's system calls through \<open>trap\<close>: what \<open>syscall\<close> returns arrives in
  \<open>%eax\<close>, and the program goes on in a state it may call from again.
\<close>

section \<open>Interrupts and memory\<close>

definition interrupt ::
  "u32 \<Rightarrow> u32 \<Rightarrow> u32 \<Rightarrow> 'z kernel_state_scheme \<Rightarrow> ('z kernel_state_scheme stop + 'z kernel_state_scheme) option" where
  "interrupt ka n err s =
     bindo (trap (s\<lparr>stack_tf := (stack_tf s)\<lparr>tf_trapno := n, tf_err := err\<rparr>\<rparr>) ka) (\<lambda>(tf, s).
     Some (Inr (s\<lparr>stack_tf := tf\<rparr>)))"

text \<open>\<open>int $n\<close>: the gate must be one that user code may use, otherwise the processor raises a general
  protection exception, and must be present.\<close>

definition software_int ::
  "u32 \<Rightarrow> nat \<Rightarrow> 'z kernel_state_scheme \<Rightarrow> ('z kernel_state_scheme stop + 'z kernel_state_scheme) option" where
  "software_int ka n s =
     (let gate = idt (cpu_tables s) ! n in
      if gd_dpl gate \<noteq> 3 then interrupt ka 13 (of_nat (8 * n + 2)) s
      else if gd_p gate = 0 then interrupt ka 11 (of_nat (8 * n + 2)) s
      else interrupt ka (of_nat n) 0 s)"

text \<open>A page fault: the address goes to \<open>%cr2\<close>; bit 0 of the error code says that the page is present.\<close>

definition user_fault ::
  "u32 \<Rightarrow> bool \<Rightarrow> u32 \<Rightarrow> 'z kernel_state_scheme \<Rightarrow> ('z kernel_state_scheme stop + 'z kernel_state_scheme) option" where
  "user_fault ka write va s =
     interrupt ka (of_nat T_PGFLT)
       (4 OR (if write then 2 else 0) OR (if hw_translate (mem s) (cr3 s) False False va = None then 0 else 1))
       (s\<lparr>cr2 := va\<rparr>)"

text \<open>After a page fault that the kernel has mended the instruction runs again.\<close>

partial_function (option) user_store ::
  "u32 \<Rightarrow> u32 \<Rightarrow> u8 \<Rightarrow> 'z kernel_state_scheme \<Rightarrow> ('z kernel_state_scheme stop + 'z kernel_state_scheme) option" where
  "user_store ka va b s =
     (case hw_translate (mem s) (cr3 s) True True va of
        Some pa \<Rightarrow> Some (Inr (s\<lparr>mem := (mem s)(pa := b)\<rparr>))
      | None \<Rightarrow> bindo (user_fault ka True va s) (user_store ka va b))"

partial_function (option) user_load ::
  "u32 \<Rightarrow> u32 \<Rightarrow> 'z kernel_state_scheme \<Rightarrow> ('z kernel_state_scheme stop + u8 \<times> 'z kernel_state_scheme) option" where
  "user_load ka va s =
     (case hw_translate (mem s) (cr3 s) True False va of
        Some pa \<Rightarrow> Some (Inr (mem s pa, s))
      | None \<Rightarrow> bindo (user_fault ka False va s) (user_load ka va))"

section \<open>A program that may call the kernel\<close>

definition user_runs :: "'z kernel_state_scheme \<Rightarrow> nat \<Rightarrow> nat \<Rightarrow> bool" where
  "user_runs s c D \<longleftrightarrow> caller s c D \<and> user_trap s c \<and>
     gd_dpl (idt (cpu_tables s) ! T_SYSCALL) = 3 \<and> gd_p (idt (cpu_tables s) ! T_SYSCALL) \<noteq> 0"

text \<open>The state in which \<open>trap\<close> dispatches.\<close>

definition entered :: "u32 \<Rightarrow> Trapframe \<Rightarrow> nat \<Rightarrow> 'z kernel_state_scheme \<Rightarrow> 'z kernel_state_scheme" where
  "entered ka tf c s = s\<lparr>stack_tf := tf, console := Message (''Incoming TRAP frame at %p'' @ nl) [Num ka] # console s,
     envs := (envs s)[c := (envs s ! c)\<lparr>env_tf := tf\<rparr>], last_tf := Some (Env_tf c)\<rparr>"

text \<open>A state that differs in what traps and messages change.\<close>

definition same_user :: "nat \<Rightarrow> 'z kernel_state_scheme \<Rightarrow> 'z kernel_state_scheme \<Rightarrow> bool" where
  "same_user c s t \<longleftrightarrow> c < length (envs s) \<and> (\<exists>tf m d l f. tf_cs f = tf_cs (stack_tf s) \<and>
     t = s\<lparr>envs := (envs s)[c := (envs s ! c)\<lparr>env_tf := tf\<rparr>], console := m, dev := d, last_tf := l, stack_tf := f\<rparr>)"

lemma same_userD:
  assumes "same_user c s t"
  shows "mem t = mem s" "pages t = pages s" "npages t = npages s" "page_free_list t = page_free_list s"
    "kern_pgdir t = kern_pgdir s" "cr3 t = cr3 s" "curenv t = curenv s" "cpu_tables t = cpu_tables s"
    "eflags t = eflags s" "tf_cs (stack_tf t) = tf_cs (stack_tf s)" "length (envs t) = length (envs s)"
    "env_id (envs t ! i) = env_id (envs s ! i)" "env_status (envs t ! i) = env_status (envs s ! i)"
    "env_pgdir (envs t ! i) = env_pgdir (envs s ! i)"
proof -
  obtain tf m d l f where t: "c < length (envs s)" "tf_cs f = tf_cs (stack_tf s)"
    "t = s\<lparr>envs := (envs s)[c := (envs s ! c)\<lparr>env_tf := tf\<rparr>], console := m, dev := d, last_tf := l, stack_tf := f\<rparr>"
    using assms by (auto simp: same_user_def)
  then show "mem t = mem s" "pages t = pages s" "npages t = npages s" "page_free_list t = page_free_list s"
    "kern_pgdir t = kern_pgdir s" "cr3 t = cr3 s" "curenv t = curenv s" "cpu_tables t = cpu_tables s"
    "eflags t = eflags s" "tf_cs (stack_tf t) = tf_cs (stack_tf s)" "length (envs t) = length (envs s)" by simp_all
  show "env_id (envs t ! i) = env_id (envs s ! i)" "env_status (envs t ! i) = env_status (envs s ! i)"
    "env_pgdir (envs t ! i) = env_pgdir (envs s ! i)"
    using t by (cases "i = c"; simp)+
qed

lemma same_user_trans: "same_user c s t \<Longrightarrow> same_user c t u \<Longrightarrow> same_user c s u"
  unfolding same_user_def by (elim conjE exE) (simp, blast)

lemma user_runs_same:
  assumes "same_user c s t" "user_runs s c D"
  shows "user_runs t c D"
proof -
  note s = same_userD [OF assms(1)]
  have e: "entry t f i = entry s f i" for f i by (simp add: entry_def s)
  have "table_at t D d = table_at s D d" for d by (simp add: table_at_def e)
  then have "tables_ok t D = tables_ok s D" by (simp add: tables_ok_def pages_wf_def s)
  moreover have "live t i = live s i" for i by (simp add: live_def s)
  moreover from this have "ids_wf t = ids_wf s" by (simp add: ids_wf_def s)
  ultimately show ?thesis using assms(2) by (simp add: user_runs_def caller_def user_trap_def s)
qed

lemma same_user_entered:
  "c < length (envs s) \<Longrightarrow> tf_cs tf = tf_cs (stack_tf s) \<Longrightarrow> same_user c s (entered ka tf c s)"
proof -
  have "entered ka tf c s = s\<lparr>envs := (envs s)[c := (envs s ! c)\<lparr>env_tf := tf\<rparr>],
    console := Message (''Incoming TRAP frame at %p'' @ nl) [Num ka] # console s, dev := dev s,
    last_tf := Some (Env_tf c), stack_tf := tf\<rparr>" by (simp add: entered_def)
  then show "c < length (envs s) \<Longrightarrow> tf_cs tf = tf_cs (stack_tf s) \<Longrightarrow> same_user c s (entered ka tf c s)"
    unfolding same_user_def by blast
qed

section \<open>System calls\<close>

definition call_frame :: "Trapframe \<Rightarrow> u32 \<Rightarrow> u32 \<Rightarrow> u32 \<Rightarrow> u32 \<Rightarrow> u32 \<Rightarrow> u32 \<Rightarrow> Trapframe" where
  "call_frame tf num a1 a2 a3 a4 a5 = tf\<lparr>tf_regs := (tf_regs tf)\<lparr>reg_eax := num, reg_edx := a1, reg_ecx := a2,
     reg_ebx := a3, reg_edi := a4, reg_esi := a5\<rparr>\<rparr>"

text \<open>The \<open>asm\<close> statement of \<open>syscall\<close> in \<open>lib/syscall.c\<close>; the result is what is in \<open>%eax\<close>.\<close>

definition int_syscall ::
  "u32 \<Rightarrow> u32 \<Rightarrow> u32 \<Rightarrow> u32 \<Rightarrow> u32 \<Rightarrow> u32 \<Rightarrow> u32 \<Rightarrow> 'z kernel_state_scheme \<Rightarrow>
     ('z kernel_state_scheme stop + u32 \<times> 'z kernel_state_scheme) option" where
  "int_syscall ka num a1 a2 a3 a4 a5 s =
     bindo (software_int ka T_SYSCALL (s\<lparr>stack_tf := call_frame (stack_tf s) num a1 a2 a3 a4 a5\<rparr>)) (\<lambda>s.
     Some (Inr (reg_eax (tf_regs (stack_tf s)), s)))"

text \<open>The frame as \<open>trap\<close> gets it, and the state it dispatches in.\<close>

definition calling :: "u32 \<Rightarrow> u32 \<Rightarrow> u32 \<Rightarrow> u32 \<Rightarrow> u32 \<Rightarrow> u32 \<Rightarrow> u32 \<Rightarrow> nat \<Rightarrow> 'z kernel_state_scheme \<Rightarrow> 'z kernel_state_scheme" where
  "calling ka num a1 a2 a3 a4 a5 c s =
     entered ka ((call_frame (stack_tf s) num a1 a2 a3 a4 a5)\<lparr>tf_trapno := of_nat T_SYSCALL, tf_err := 0\<rparr>) c s"

lemma same_user_calling: "user_runs s c D \<Longrightarrow> same_user c s (calling ka num a1 a2 a3 a4 a5 c s)"
  unfolding calling_def by (rule same_user_entered) (auto simp: user_runs_def user_trap_def call_frame_def)

lemma env_run_cur: "curenv s = Some c \<Longrightarrow> c < length (envs s) \<Longrightarrow> env_run s c = Inr (env_tf (envs s ! c), s)"
  by (simp add: env_run_current)

lemma int_syscall_eq:
  assumes "user_runs s c D"
  shows "int_syscall ka num a1 a2 a3 a4 a5 s =
    (case syscall (calling ka num a1 a2 a3 a4 a5 c s) num a1 a2 a3 a4 a5 of
       None \<Rightarrow> None
     | Some (Inl x) \<Rightarrow> Some (Inl x)
     | Some (Inr (r, t)) \<Rightarrow>
         let tf = (stack_tf (calling ka num a1 a2 a3 a4 a5 c s))\<lparr>tf_regs := (tf_regs (call_frame (stack_tf s) num a1 a2 a3 a4 a5))\<lparr>reg_eax := r\<rparr>\<rparr>
         in Some (Inr (r, t\<lparr>envs := (envs s)[c := (envs s ! c)\<lparr>env_tf := tf\<rparr>], stack_tf := tf\<rparr>)))"
proof -
  let ?u = "calling ka num a1 a2 a3 a4 a5 c s"
  have c: "curenv s = Some c" "c < length (envs s)" "env_status (envs s ! c) = ENV_RUNNING"
    "tf_cs (stack_tf s) AND 3 = 3" "eflags s AND FL_IF = 0"
    "gd_dpl (idt (cpu_tables s) ! T_SYSCALL) = 3" "gd_p (idt (cpu_tables s) ! T_SYSCALL) \<noteq> 0"
    using assms by (simp_all add: user_runs_def user_trap_def)
  let ?s = "s\<lparr>stack_tf := (call_frame (stack_tf s) num a1 a2 a3 a4 a5)\<lparr>tf_trapno := of_nat T_SYSCALL, tf_err := 0\<rparr>\<rparr>"
  have "trap ?s ka = bindo (trap_dispatch ?u (Env_tf c)) (\<lambda>s. Some (trap_resume s))"
    using c by (simp add: trap_def Let_def upd_env_def cprintf_def calling_def entered_def call_frame_def)
  moreover have "trap_dispatch ?u (Env_tf c) = bindo (syscall ?u num a1 a2 a3 a4 a5) (\<lambda>(r, s). Some (run (set_eax (Env_tf c) r s)))"
    using c(2) by (simp add: trap_dispatch_def Let_def tf_of_def calling_def entered_def call_frame_def)
  ultimately have t: "int_syscall ka num a1 a2 a3 a4 a5 s =
      bindo (bindo (bindo (bindo (syscall ?u num a1 a2 a3 a4 a5) (\<lambda>(r, s). Some (run (set_eax (Env_tf c) r s)))) (\<lambda>s. Some (trap_resume s)))
        (\<lambda>(tf, s). Some (Inr (s\<lparr>stack_tf := tf\<rparr>)))) (\<lambda>s. Some (Inr (reg_eax (tf_regs (stack_tf s)), s)))"
    using c(6,7) by (simp add: int_syscall_def software_int_def interrupt_def)
  show ?thesis
  proof (cases "syscall ?u num a1 a2 a3 a4 a5")
    case (Some res)
    show ?thesis
    proof (cases res)
      case (Inr p)
      obtain r t where p: "p = (r, t)" by (cases p)
      have "quiet ?u t" using Some Inr p by (intro syscall_quiet) simp
      then obtain m d where "t = ?u\<lparr>console := m, dev := d\<rparr>" by (auto simp: quiet_def)
      then show ?thesis
        using c(1-3) unfolding t Some Inr p
        by (simp add: set_eax_def upd_env_def trap_resume_def env_run_cur Let_def calling_def entered_def call_frame_def)
    qed (simp add: t Some)
  qed (simp add: t)
qed

lemma int_syscall_returns:
  assumes u: "user_runs s c D" and r: "syscall (calling ka num a1 a2 a3 a4 a5 c s) num a1 a2 a3 a4 a5 = Some (Inr (r, v))"
  shows "\<exists>t. int_syscall ka num a1 a2 a3 a4 a5 s = Some (Inr (r, t)) \<and> same_user c s t \<and> user_runs t c D \<and>
    console t = console v \<and> dev t = dev v"
proof -
  let ?u = "calling ka num a1 a2 a3 a4 a5 c s"
  define tf where "tf = (stack_tf ?u)\<lparr>tf_regs := (tf_regs (call_frame (stack_tf s) num a1 a2 a3 a4 a5))\<lparr>reg_eax := r\<rparr>\<rparr>"
  define t where "t = v\<lparr>envs := (envs s)[c := (envs s ! c)\<lparr>env_tf := tf\<rparr>], stack_tf := tf\<rparr>"
  have q: "quiet ?u v" by (rule syscall_quiet [OF r])
  have c: "c < length (envs s)" using u by (simp add: user_runs_def user_trap_def)
  have "int_syscall ka num a1 a2 a3 a4 a5 s = Some (Inr (r, t))"
    using int_syscall_eq [OF u, of ka num a1 a2 a3 a4 a5] by (simp only: r option.case sum.case prod.case Let_def tf_def t_def)
  moreover have "same_user c s t"
  proof -
    obtain m d where v: "v = ?u\<lparr>console := m, dev := d\<rparr>" using q by (auto simp: quiet_def)
    have "t = s\<lparr>envs := (envs s)[c := (envs s ! c)\<lparr>env_tf := tf\<rparr>], console := m, dev := d,
        last_tf := Some (Env_tf c), stack_tf := tf\<rparr>"
      by (simp add: t_def v calling_def entered_def)
    moreover have "tf_cs tf = tf_cs (stack_tf s)" by (simp add: tf_def calling_def entered_def call_frame_def)
    ultimately show ?thesis using c unfolding same_user_def by blast
  qed
  moreover have "console t = console v" "dev t = dev v" by (simp_all add: t_def)
  ultimately show ?thesis using user_runs_same [OF _ u] by blast
qed

section \<open>The texts printed\<close>

text \<open>What system calls have put on the console, in order.\<close>

fun cputs_text :: "message \<Rightarrow> string" where
  "cputs_text (Message f [Num n, Str xs]) = (if f = ''%.*s'' then xs else [])"
| "cputs_text m = []"

definition printed :: "'z env_state_scheme \<Rightarrow> string" where
  "printed s = concat (map cputs_text (rev (console s)))"

lemma printed_calling: "printed (calling ka num a1 a2 a3 a4 a5 c s) = printed s"
  by (simp add: printed_def calling_def entered_def)

section \<open>A buffer of the program\<close>

text \<open>The pages that hold the page directory and the page tables.\<close>

definition table_pages :: "'z pmap_state_scheme \<Rightarrow> nat \<Rightarrow> nat set" where
  "table_pages s D = insert D {f. \<exists>d < 1024. table_at s D d = Some f}"

text \<open>The program may write the \<open>n\<close> bytes at \<open>buf\<close>, which lie in one page \<open>f\<close> that holds no table.\<close>

definition user_buffer :: "'z pmap_state_scheme \<Rightarrow> nat \<Rightarrow> u32 \<Rightarrow> nat \<Rightarrow> nat \<Rightarrow> bool" where
  "user_buffer s D buf n f \<longleftrightarrow> 0 < n \<and> unat buf mod 4096 + n \<le> 4096 \<and> buf \<noteq> 0 \<and> buf < ULIM \<and>
     f < 0x100000 \<and> f \<notin> table_pages s D \<and> f = frame_of (pt_entry s D buf) \<and>
     allows True True (entry s D (pdx buf)) \<and> allows True True (pt_entry s D buf)"

definition poke :: "memory \<Rightarrow> u32 \<Rightarrow> u8 list \<Rightarrow> memory" where
  "poke m p bs = (\<lambda>a. if unat (a - p) < length bs then bs ! unat (a - p) else m a)"

lemma poke_Nil [simp]: "poke m p [] = m"
  by (simp add: poke_def)

lemma poke_snoc:
  assumes "length bs < 2 ^ 32"
  shows "(poke m p bs)(p + of_nat (length bs) := b) = poke m p (bs @ [b])"
proof (rule ext)
  fix a
  have "unat (of_nat (length bs) :: u32) = length bs" using assms by (intro unat_of_nat_u32) simp
  then have "a = p + of_nat (length bs) \<longleftrightarrow> unat (a - p) = length bs"
    by (metis add_diff_cancel_left' diff_add_cancel add.commute word_eq_unatI)
  then show "((poke m p bs)(p + of_nat (length bs) := b)) a = poke m p (bs @ [b]) a"
    by (auto simp: poke_def nth_append)
qed

lemma buffer_same_page: "user_buffer s D buf n f \<Longrightarrow> i < n \<Longrightarrow> same_page buf (buf + of_nat i) \<and> unat (buf + of_nat i) = unat buf + i"
proof -
  assume "user_buffer s D buf n f" and i: "i < n"
  then have b: "unat buf mod 4096 + n \<le> 4096" by (simp add: user_buffer_def)
  have v: "unat buf < 4294967296" by (rule unat_u32_lt)
  have e: "unat buf = 4096 * (unat buf div 4096) + unat buf mod 4096" by simp
  have "unat buf div 4096 < 1048576" using v by linarith
  then have l: "unat buf + i < 4294967296" using b i e by linarith
  have "unat (of_nat i :: u32) = i" using i b by (intro unat_of_nat_u32) simp
  then have u: "unat (buf + of_nat i) = unat buf + i" using l by (subst unat_add_no_wrap) simp_all
  have "(4096 * q + m + i) div 4096 = q" if "m + i < 4096" for q m :: nat using that by simp
  from this [of "unat buf mod 4096" "unat buf div 4096"] have "(unat buf + i) div 4096 = unat buf div 4096"
    using b i e by simp
  with u show ?thesis by (simp add: same_page_def word_unat_eq_iff unat_PGNUM)
qed

text \<open>The physical address of the buffer, and what a store into it does.\<close>

definition buf_pa :: "nat \<Rightarrow> u32 \<Rightarrow> u32" where
  "buf_pa f buf = page2pa f + PGOFF buf"

lemma buffer_pa:
  assumes "user_buffer s D buf n f" "i < n"
  shows "PTE_ADDR (pt_entry s D (buf + of_nat i)) OR PGOFF (buf + of_nat i) = buf_pa f buf + of_nat i"
    "unat (buf_pa f buf + of_nat i) = 4096 * f + (unat buf mod 4096 + i)" "unat buf mod 4096 + i < 4096"
proof -
  note p = buffer_same_page [OF assms]
  have b: "unat buf mod 4096 + n \<le> 4096" "f < 0x100000" "f = frame_of (pt_entry s D buf)"
    using assms(1) by (simp_all add: user_buffer_def)
  show l: "unat buf mod 4096 + i < 4096" using b(1) assms(2) by simp
  have "(4096 * q + m + i) mod 4096 = m + i" if "m + i < 4096" for q m :: nat
    using that by (simp add: add.assoc)
  from this [of "unat buf mod 4096" "unat buf div 4096"] have m: "(unat buf + i) mod 4096 = unat buf mod 4096 + i"
    using l by simp
  have i: "unat (of_nat i :: u32) = i" using l by (intro unat_of_nat_u32) simp
  have "4096 * f + (unat buf mod 4096 + i) < 4294967296" using b(2) l by linarith
  moreover from this have "unat (buf_pa f buf) = 4096 * f + unat buf mod 4096"
    using b(2) unfolding buf_pa_def by (subst unat_add_no_wrap) (simp_all add: unat_page2pa unat_PGOFF)
  ultimately show u: "unat (buf_pa f buf + of_nat i) = 4096 * f + (unat buf mod 4096 + i)"
    using i by (subst unat_add_no_wrap) simp_all
  have e: "pt_entry s D (buf + of_nat i) = pt_entry s D buf" using pt_entry_same_page p by metis
  have "page2pa f OR PGOFF (buf + of_nat i) = page2pa f + PGOFF (buf + of_nat i)"
    using b(2) by (intro page2pa_or_low(1)) (simp_all add: unat_PGOFF)
  moreover have "unat (page2pa f + PGOFF (buf + of_nat i)) = 4096 * f + (unat buf mod 4096 + i)"
    using b(2) l p m by (subst unat_add_no_wrap) (simp_all add: unat_page2pa unat_PGOFF)
  ultimately show "PTE_ADDR (pt_entry s D (buf + of_nat i)) OR PGOFF (buf + of_nat i) = buf_pa f buf + of_nat i"
    unfolding e PTE_ADDR_frame b(3) [symmetric] using u by (metis word_eq_unatI)
qed

lemma buffer_translate:
  assumes "user_buffer s D buf n f" "i < n" "D < 0x100000"
  shows "hw_translate (mem s) (page2pa D) True True (buf + of_nat i) = Some (buf_pa f buf + of_nat i)"
proof -
  note p = buffer_same_page [OF assms(1,2)]
  have e: "pt_entry s D (buf + of_nat i) = pt_entry s D buf" "pdx (buf + of_nat i) = pdx buf"
    "ptx (buf + of_nat i) = ptx buf"
    using p pt_entry_same_page [of buf "buf + of_nat i", symmetric] same_page_iff by simp_all
  have a: "allows True True (entry s D (pdx buf))" "allows True True (pt_entry s D buf)"
    using assms(1) by (simp_all add: user_buffer_def)
  then have "pt_entry s D buf = entry s (frame_of (entry s D (pdx buf))) (ptx buf)"
    by (simp add: pt_entry_def table_at_def allows_def)
  then show ?thesis
    using a buffer_pa(1) [OF assms(1,2)] unfolding hw_translate_eq [OF assms(3)] by (simp add: e)
qed

text \<open>Stores into a page that holds no table change no table.\<close>

lemma poke_outside:
  assumes "user_buffer s D buf n f" "length bs \<le> n" "unat a div 4096 \<noteq> f"
  shows "poke m (buf_pa f buf) bs a = m a"
proof -
  have b: "0 < n" "unat buf mod 4096 + n \<le> 4096" "f < 0x100000" using assms(1) unfolding user_buffer_def by blast+
  have p: "unat (buf_pa f buf) = 4096 * f + unat buf mod 4096" using buffer_pa(2) [OF assms(1) b(1)] by simp
  have "\<not> unat (a - buf_pa f buf) < length bs"
  proof
    assume l: "unat (a - buf_pa f buf) < length bs"
    have "4096 * f + 4096 \<le> 4294967296" using b(3) by simp
    then have "unat a = unat (buf_pa f buf) + unat (a - buf_pa f buf)"
      using unat_add_no_wrap [of "buf_pa f buf" "a - buf_pa f buf"] p l b(2) assms(2) by simp
    then have "unat a = 4096 * f + (unat buf mod 4096 + unat (a - buf_pa f buf))" using p by simp
    moreover have "unat buf mod 4096 + unat (a - buf_pa f buf) < 4096" using l assms(2) b(2) by simp
    moreover have "(4096 * q + r) div 4096 = q" if "r < 4096" for q r :: nat using that by simp
    ultimately show False using assms(3) by metis
  qed
  then show ?thesis by (simp add: poke_def)
qed

lemma entry_outside:
  assumes "\<forall>a. unat a div 4096 \<noteq> f \<longrightarrow> mem t a = mem s a" "g \<noteq> f" "g < 0x100000" "j < 1024"
  shows "entry t g j = entry s g j"
  by (rule entry_frame) (use assms in auto)

lemma table_pages_mem: "g \<in> table_pages s D \<Longrightarrow> D < 0x100000 \<Longrightarrow> g < 0x100000"
  by (auto simp: table_pages_def table_at_def frame_of_less split: if_splits)

lemma tables_outside:
  assumes "\<forall>a. unat a div 4096 \<noteq> f \<longrightarrow> mem t a = mem s a" "f \<notin> table_pages s D" "D < 0x100000"
  shows "g \<in> table_pages s D \<Longrightarrow> j < 1024 \<Longrightarrow> entry t g j = entry s g j"
    and "d < 1024 \<Longrightarrow> table_at t D d = table_at s D d" and "pt_entry t D a = pt_entry s D a"
proof -
  have en: "entry t g j = entry s g j" if "g \<in> table_pages s D" "j < 1024" for g j
    using that assms(2) by (intro entry_outside [OF assms(1) _ table_pages_mem [OF that(1) assms(3)]]) auto
  show "g \<in> table_pages s D \<Longrightarrow> j < 1024 \<Longrightarrow> entry t g j = entry s g j" by (rule en)
  show ta: "table_at t D d = table_at s D d" if "d < 1024" for d
    using that en [of D d] by (simp add: table_at_def table_pages_def)
  show "pt_entry t D a = pt_entry s D a"
  proof (cases "table_at s D (pdx a)")
    case (Some g)
    then have "g \<in> table_pages s D" using pdx_less [of a] by (auto simp: table_pages_def)
    with Some show ?thesis using ta [of "pdx a"] en by (simp add: pt_entry_def)
  qed (simp add: pt_entry_def ta)
qed

lemma poke_tables:
  assumes "user_buffer s D buf n f" "length bs \<le> n" "D < 0x100000" "mem t = poke (mem s) (buf_pa f buf) bs"
  shows "g \<in> table_pages s D \<Longrightarrow> j < 1024 \<Longrightarrow> entry t g j = entry s g j"
    and "d < 1024 \<Longrightarrow> table_at t D d = table_at s D d" and "pt_entry t D a = pt_entry s D a"
proof -
  have m: "\<forall>a. unat a div 4096 \<noteq> f \<longrightarrow> mem t a = mem s a" using poke_outside [OF assms(1,2)] by (simp add: assms(4))
  have f: "f \<notin> table_pages s D" using assms(1) unfolding user_buffer_def by blast
  show "g \<in> table_pages s D \<Longrightarrow> j < 1024 \<Longrightarrow> entry t g j = entry s g j"
    and "d < 1024 \<Longrightarrow> table_at t D d = table_at s D d" and "pt_entry t D a = pt_entry s D a"
    using tables_outside [OF m f assms(3)] by blast+
qed

lemma poke_buffer:
  assumes "user_buffer s D buf n f" "length bs \<le> n" "D < 0x100000" "mem t = poke (mem s) (buf_pa f buf) bs"
  shows "user_buffer t D buf n f" "tables_ok s D \<Longrightarrow> pages t = pages s \<Longrightarrow> npages t = npages s \<Longrightarrow> tables_ok t D"
    "i < length bs \<Longrightarrow> byte_at t D (buf + of_nat i) = bs ! i"
proof -
  note q = poke_tables [OF assms]
  have tp: "table_pages t D = table_pages s D" using q(2) by (auto simp: table_pages_def)
  have "entry t D (pdx buf) = entry s D (pdx buf)" by (rule q(1)) (simp_all add: table_pages_def)
  then show "user_buffer t D buf n f" using assms(1) unfolding user_buffer_def tp q(3) by metis
  show "tables_ok s D \<Longrightarrow> pages t = pages s \<Longrightarrow> npages t = npages s \<Longrightarrow> tables_ok t D"
    using q(2) unfolding tables_ok_def pages_wf_def by auto
  assume i: "i < length bs"
  then have "i < n" using assms(2) by simp
  note b = buffer_pa [OF assms(1) this]
  have "unat (of_nat i :: u32) = i" using b(3) by (intro unat_of_nat_u32) simp
  with i show "byte_at t D (buf + of_nat i) = bs ! i"
    unfolding byte_at_def q(3) b(1) by (simp add: assms(4) poke_def)
qed

text \<open>Filling the buffer, byte by byte.\<close>

definition fill_buffer ::
  "u32 \<Rightarrow> u32 \<Rightarrow> u8 list \<Rightarrow> 'z kernel_state_scheme \<Rightarrow> ('z kernel_state_scheme stop + 'z kernel_state_scheme) option" where
  "fill_buffer ka buf bs s =
     foldl (\<lambda>r i. bindo r (user_store ka (buf + of_nat i) (bs ! i))) (Some (Inr s)) [0..<length bs]"

lemma user_runs_mem:
  assumes "user_runs s c D" "tables_ok (s\<lparr>mem := m\<rparr>) D"
  shows "user_runs (s\<lparr>mem := m\<rparr>) c D"
  using assms by (simp add: user_runs_def caller_def user_trap_def ids_wf_def live_def)

lemma fill_buffer_eq:
  assumes u: "user_runs s c D" and b: "user_buffer s D buf n f" "length bs \<le> n"
  shows "fill_buffer ka buf bs s = Some (Inr (s\<lparr>mem := poke (mem s) (buf_pa f buf) bs\<rparr>))"
    "user_runs (s\<lparr>mem := poke (mem s) (buf_pa f buf) bs\<rparr>) c D"
proof -
  have D: "cr3 s = page2pa D" "D < 0x100000" "tables_ok s D" using u by (simp_all add: user_runs_def caller_def)
  have n: "n \<le> 4096" using b(1) by (simp add: user_buffer_def)
  have "foldl (\<lambda>r i. bindo r (user_store ka (buf + of_nat i) (bs ! i))) (Some (Inr s)) [0..<k] =
      Some (Inr (s\<lparr>mem := poke (mem s) (buf_pa f buf) (take k bs)\<rparr>))" if "k \<le> length bs" for k
    using that
  proof (induction k)
    case (Suc k)
    let ?t = "s\<lparr>mem := poke (mem s) (buf_pa f buf) (take k bs)\<rparr>"
    have k: "k < n" "length (take k bs) = k" "k < 2 ^ 32" using Suc.prems b(2) n by simp_all
    have "user_buffer ?t D buf n f" by (rule poke_buffer(1) [OF b(1) _ D(2), of "take k bs"]) (use Suc.prems b(2) in auto)
    from buffer_translate [OF this k(1) D(2)]
    have "user_store ka (buf + of_nat k) (bs ! k) ?t = Some (Inr (?t\<lparr>mem := (mem ?t)(buf_pa f buf + of_nat k := bs ! k)\<rparr>))"
      using D(1) by (subst user_store.simps) simp
    moreover have "(mem ?t)(buf_pa f buf + of_nat k := bs ! k) = poke (mem s) (buf_pa f buf) (take (Suc k) bs)"
      using poke_snoc [of "take k bs" "mem s" "buf_pa f buf" "bs ! k"] k Suc.prems by (simp add: take_Suc_conv_app_nth)
    ultimately show ?case using Suc.IH Suc.prems by simp
  qed simp
  from this [of "length bs"] show "fill_buffer ka buf bs s = Some (Inr (s\<lparr>mem := poke (mem s) (buf_pa f buf) bs\<rparr>))"
    by (simp add: fill_buffer_def)
  show "user_runs (s\<lparr>mem := poke (mem s) (buf_pa f buf) bs\<rparr>) c D"
    by (rule user_runs_mem [OF u], rule poke_buffer(2) [OF b D(2) _ D(3)]) simp_all
qed

section \<open>Printing from the buffer\<close>

lemma allows_user: "allows True True e \<Longrightarrow> present e \<and> e AND PTE_U = PTE_U"
proof -
  assume "allows True True e"
  then have e: "present e" "e AND PTE_U \<noteq> 0" by (simp_all add: allows_def)
  then have "bit e 2" by (simp only: flag_bits(2))
  moreover have "bit (4 :: u32) n \<longleftrightarrow> n = 2" for n
  proof -
    have "(4 :: u32) = push_bit 2 1" by simp
    then have "bit (4 :: u32) n = bit (push_bit 2 1 :: u32) n" by (rule arg_cong)
    also have "\<dots> \<longleftrightarrow> 2 \<le> n \<and> n < 32 \<and> n - 2 = 0" unfolding bit_push_bit_iff bit_1_iff by auto
    finally show ?thesis by auto
  qed
  ultimately have "e AND 4 = 4" by (intro bit_word_eqI) (auto simp only: bit_and_iff)
  with e(1) show ?thesis by simp
qed

lemma buffer_accessible:
  assumes "user_buffer s D buf n f" "unat a div 4096 = unat buf div 4096"
  shows "accessible s D PTE_U a" "a < KERNBASE"
proof -
  have b: "buf < ULIM" "allows True True (pt_entry s D buf)" using assms(1) by (simp_all add: user_buffer_def)
  then have "accessible s D PTE_U buf" using allows_user by (simp add: accessible_def)
  moreover have "same_page buf a" using assms(2) by (simp add: same_page_def word_unat_eq_iff unat_PGNUM)
  ultimately show acc: "accessible s D PTE_U a" using accessible_page by blast
  then show "a < KERNBASE" by (simp add: accessible_def word_less_nat_alt)
qed

lemma buffer_vload:
  assumes "caller s c D" "user_buffer s D buf n f" "i < n"
  shows "vload s (buf + of_nat i) = Inr (byte_at s D (buf + of_nat i))"
proof -
  have p: "unat (buf + of_nat i) div 4096 = unat buf div 4096"
    using buffer_same_page [OF assms(2,3)] unfolding same_page_def word_unat_eq_iff unat_PGNUM by simp
  show ?thesis using buffer_accessible [OF assms(2) p] assms(1) vload_user [of s D "buf + of_nat i"]
    by (simp add: accessible_def caller_def)
qed

lemma buffer_check:
  assumes "caller s c D" "user_buffer s D buf n f" "k < n"
  shows "user_mem_check s (pgdir_kva D) buf (of_nat k) PTE_U = Some (Inr (0, s))"
proof -
  have b: "unat buf mod 4096 + n \<le> 4096" "unat buf < 4018143232"
    using assms(2) by (simp_all add: user_buffer_def word_less_nat_alt)
  have k: "unat (of_nat k :: u32) = k" using assms(3) b(1) by (intro unat_of_nat_u32) simp
  then have nw: "unat buf + unat (of_nat k :: u32) + 4095 < 2 ^ 32" using b assms(3) by simp
  note pg = range_pages [OF nw]
  let ?k = "unat buf div 4096" and ?m = "(unat buf + unat (of_nat k :: u32) + 4095) div 4096"
  have "?k \<le> ?m" by (intro div_le_mono) simp
  have "?m \<le> ?k + 1"
  proof -
    have "unat buf + k + 4095 \<le> 4096 * ?k + 8191" using b(1) assms(3) mult_div_mod_eq [of 4096 "unat buf"] by linarith
    then have "?m \<le> (4096 * ?k + 8191) div 4096" unfolding k by (rule div_le_mono)
    then show ?thesis by simp
  qed
  then have only: "p = ?k" if "?k \<le> p" "p < ?m" for p using that by simp
  have "accessible s D PTE_U (page_addr ?k)"
  proof (rule buffer_accessible(1) [OF assms(2)])
    have "?k < 0x100000" using unat_u32_lt [of buf] by linarith
    then show "unat (page_addr ?k) div 4096 = unat buf div 4096" by (simp add: unat_page_addr)
  qed
  then have all: "accessible s D PTE_U (page_addr p)" if "?k \<le> p" "p < ?m" for p using only [OF that] by simp
  have "tables_ok s D" using assms(1) by (simp add: caller_def)
  from user_mem_loop_spec [OF this pg(3) \<open>?k \<le> ?m\<close>, of buf PTE_U] all show ?thesis
    unfolding user_mem_check_def pg(1,2) by blast
qed

lemma sys_cputs_buffer:
  assumes c: "caller s c D" and b: "user_buffer s D buf n f" "k < n"
    and bs: "bs = map (\<lambda>i. byte_at s D (buf + of_nat i)) [0..<k]" "0 \<notin> set bs"
  shows "sys_cputs s buf (of_nat k) = Some (Inr (s\<lparr>console :=
    Message ''%.*s'' [Num (of_nat k), Str (map (\<lambda>b. char_of (unat b)) bs)] # console s\<rparr>))"
proof -
  have n: "n \<le> 4096" "buf \<noteq> 0" using b(1) by (simp_all add: user_buffer_def)
  have "user_mem_assert s c buf (of_nat k) PTE_U = Some (Inr s)"
    using user_mem_assert_eq [OF c buffer_check [OF c b]] by simp
  moreover have "\<forall>i < length bs. vload s (buf + of_nat i) = Inr (bs ! i)"
    using buffer_vload [OF c b(1)] b(2) by (simp add: bs(1))
  from text_at_bytes [OF this] have "text_at s (int k) buf = Some (Inr (text_of bs))"
    using bs(2) buffer_vload [OF c b] by (simp add: bs(1))
  moreover have "sint (of_nat k :: u32) = int k"
  proof -
    have u: "unat (of_nat k :: u32) = k" using b(2) n by (intro unat_of_nat_u32) simp
    then have "unat (of_nat k :: u32) < 2 ^ 31" using b(2) n by simp
    with u show ?thesis by (simp add: sint_u32)
  qed
  moreover have "text_of bs = map (\<lambda>b. char_of (unat b)) bs"
    using bs(2) by (simp add: text_of_def, subst takeWhile_eq_all_conv [THEN iffD2]) auto
  ultimately show ?thesis unfolding sys_cputs_eq [OF c] using n(2)
    by (simp add: text_arg_def cprintf_args_def)
qed

section \<open>A machine for the witnesses\<close>

text \<open>The machine of \<^const>\<open>demo_trap\<close> in environment 3, in its own address space, with the gates of
  \<open>trap_init\<close>; \<open>d\<close> are its devices. The page at \<open>0x800000\<close> is the only one the environment has.\<close>

definition demo_user :: "console_state \<Rightarrow> kernel_state" where
  "demo_user d = (demo_trap 0x1B 48 2)\<lparr>cr3 := page2pa 3, dev := d,
     cpu_tables := trap_init demo_vectors 0xF0180000 0xF0190000 boot_tables\<rparr>"

lemma demo_user_sel:
  "mem (demo_user d) = mem demo_mapped" "pages (demo_user d) = pages demo_mapped"
  "npages (demo_user d) = npages demo_mapped" "page_free_list (demo_user d) = page_free_list demo_mapped"
  "envs (demo_user d) = envs demo_envs" "kern_pgdir (demo_user d) = 0xF0000000" "curenv (demo_user d) = Some 3"
  "cr3 (demo_user d) = page2pa 3" "eflags (demo_user d) = 2" "dev (demo_user d) = d"
  "tf_cs (stack_tf (demo_user d)) = 0x1B"
  "cpu_tables (demo_user d) = trap_init demo_vectors 0xF0180000 0xF0190000 boot_tables"
  by (simp_all add: demo_user_def demo_trap_sel demo_free_sel)

lemma demo_user_entry: "entry (demo_user d) f i = entry demo_mapped f i"
  by (simp add: entry_def demo_user_sel)

lemma demo_user_table: "i < 1024 \<Longrightarrow> table_at (demo_user d) 3 i = (if i = 2 then Some 2 else None)"
  using demo_mapped_table [of i] unfolding table_at_def demo_user_entry .

lemma demo_user_pt: "pt_entry (demo_user d) 3 0x800000 = 0x1007"
  using demo_mapped_pt unfolding pt_entry_def table_at_def demo_user_entry .

lemma demo_user_owns: "owns (demo_user d) 3 []" "maps (demo_user d) 3 g = of_bool (g = 1)"
  "g < 4 \<Longrightarrow> refs (demo_user d) g = 1"
proof -
  have same: "mem (demo_user d) = mem demo_free" "pages (demo_user d) = pages demo_free"
    "npages (demo_user d) = npages demo_free" "page_free_list (demo_user d) = page_free_list demo_free"
    by (simp_all add: demo_user_sel demo_free_sel)
  show "owns (demo_user d) 3 []" "maps (demo_user d) 3 g = of_bool (g = 1)" "g < 4 \<Longrightarrow> refs (demo_user d) g = 1"
    unfolding owns_cong [OF same] by (simp_all only: demo_free_owns demo_free_maps demo_free_refs)
qed

lemma demo_user_runs: "user_runs (demo_user d) 3 3"
proof -
  have "ids_wf (demo_user d)" "live (demo_user d) 3"
    using demo_envs_wf demo_envs_live [of 3] by (simp_all add: ids_wf_def live_def demo_user_sel)
  moreover have "tables_ok (demo_user d) 3"
    by (simp add: tables_ok_def demo_user_table) (simp add: demo_mapped_def demo_def small_pages_def pages_wf_def demo_user_sel)
  ultimately have "caller (demo_user d) 3 3" by (simp add: caller_def demo_user_sel demo_envs_nth)
  moreover have "user_trap (demo_user d) 3" by (simp add: user_trap_def demo_user_sel demo_envs_nth)
  moreover have "idt (cpu_tables (demo_user d)) ! T_SYSCALL = SETGATE False GD_KT (demo_vectors T_SYSCALL) 3"
    unfolding demo_user_sel by (subst trap_init_nth [OF boot_idt(1)]) (simp_all add: installed_def)
  ultimately show ?thesis by (simp add: user_runs_def) (simp add: SETGATE_def)
qed

lemma demo_user_buffer: "0 < n \<Longrightarrow> n \<le> 4096 \<Longrightarrow> user_buffer (demo_user d) 3 0x800000 n 1"
proof -
  have "pdx 0x800000 = 2" by (simp add: pdx_def mmu_simps)
  then have "entry (demo_user d) 3 (pdx 0x800000) = 0x2007" by (simp add: demo_user_entry demo_mapped_entry)
  then show "0 < n \<Longrightarrow> n \<le> 4096 \<Longrightarrow> user_buffer (demo_user d) 3 0x800000 n 1"
    by (simp add: user_buffer_def demo_user_pt allows_def present_def table_pages_def demo_user_table frame_of_def PGNUM_def)
qed

end
