(* ===== verification/Load_Icode.thy ===== *)
theory Load_Icode
  imports Env_Load Env_Free Sys_Cputs Entry_Map
begin

text \<open>
  What \<open>load_icode\<close> of \<open>kern/env.c\<close> leaves in memory: every segment of the image at its virtual address, the
  rest of a segment zero, a page for the stack, and the entry point in the frame of the
  environment. The pages it maps belong to the environment alone.
\<close>

section \<open>Mapping a page where none was\<close>

text \<open>The effect of \<open>page_insert\<close> at an unmapped address on memory, when the page table is there.\<close>

lemma insert_rest_new:
  assumes b: "D < 0x100000" "f < 0x100000" and x: "x < length (pages s)"
    and np: "\<not> present (entry s f (ptx va))" and D: "f \<noteq> D"
  shows "insert_rest (pgdir_kva D) x va perm (entry_pa f (ptx va) + KERNBASE) s =
    Inr (0, s\<lparr>pages := (pages s)[x := (pages s ! x)\<lparr>pp_ref := pp_ref (pages s ! x) + 1\<rparr>],
      mem := store32 (store32 (mem s) (entry_pa f (ptx va)) (page2pa x OR perm OR PTE_P)) (entry_pa D (pdx va))
        (entry s D (pdx va) OR perm)\<rparr>)"
proof -
  let ?s = "s\<lparr>pages := (pages s)[x := (pages s ! x)\<lparr>pp_ref := pp_ref (pages s ! x) + 1\<rparr>]\<rparr>"
  let ?u = "?s\<lparr>mem := store32 (mem s) (entry_pa f (ptx va)) (page2pa x OR perm OR PTE_P)\<rparr>"
  have "kload ?s (entry_pa f (ptx va) + KERNBASE) AND PTE_P \<noteq> 1"
    using np unfolding kload_entry by (simp add: entry_def present_iff_1)
  moreover have "entry ?u D (pdx va) = entry s D (pdx va)"
    using b D by (simp add: entry_def load32_entry)
  ultimately show ?thesis
    using x by (simp add: insert_rest_def page_incref_def kstore_entry kload_dir [OF b(1)] kstore_dir [OF b(1)] Let_def
        del: KERNBASE_def)
qed

text \<open>What one round of \<open>region_alloc\<close> does: memory changes only in the directory, its tables and the
  pages that were free; the slot of the page becomes one the user may write through.\<close>

definition table_used :: "'z pmap_state_scheme \<Rightarrow> nat \<Rightarrow> u32 \<Rightarrow> nat list \<Rightarrow> nat" where
  "table_used s D va ys = (case table_at s D (pdx va) of None \<Rightarrow> hd ys | Some f \<Rightarrow> f)"

lemma insert_new:
  assumes wf: "pt_wf s D xs" and d: "pdx va \<in> slots" and np: "\<not> present (pt_entry s D va)"
    and m: "table_at s D (pdx va) \<noteq> None \<or> xs \<noteq> []" and x: "x < length (pages s)"
    and u: "page_insert s (pgdir_kva D) x va (PTE_W OR PTE_U) = Inr (r, u)"
  shows "unat a div 4096 \<noteq> D \<Longrightarrow> unat a div 4096 \<noteq> table_used s D va xs \<Longrightarrow> mem u a = mem s a"
    and "e < 1024 \<Longrightarrow> e \<noteq> pdx va \<Longrightarrow> entry u D e = entry s D e"
    and "entry u D (pdx va) AND 6 = 6"
proof -
  have D: "D < 0x100000" using pt_wf_bound [OF wf pt_wfD(4) [OF wf]] by simp
  have l: "pdx va < 1024" "ptx va < 1024" by simp_all
  have six: "(w OR (PTE_W OR PTE_U)) AND 6 = 6" for w :: u32
    by (rule bit_word_eqI) (auto simp: bit_and_iff bit_or_iff)
  have "(unat a div 4096 \<noteq> D \<longrightarrow> unat a div 4096 \<noteq> table_used s D va xs \<longrightarrow> mem u a = mem s a) \<and>
    (e < 1024 \<longrightarrow> e \<noteq> pdx va \<longrightarrow> entry u D e = entry s D e) \<and> entry u D (pdx va) AND 6 = 6"
  proof (cases "table_at s D (pdx va)")
    case (Some f)
    then have f: "f < length (pages s)" "f < 0x10000" "f \<noteq> D"
      using pt_wf_table [OF wf d Some] pt_wf_bound [OF wf, of f] by auto
    then have fb: "f < 0x100000" by simp
    have n: "\<not> present (entry s f (ptx va))" using np Some by (simp add: pt_entry_def)
    have "mem u = store32 (store32 (mem s) (entry_pa f (ptx va)) (page2pa x OR (PTE_W OR PTE_U) OR PTE_P)) (entry_pa D (pdx va))
        (entry s D (pdx va) OR (PTE_W OR PTE_U))"
      using u walk_present [OF pt_wfD(1,4) [OF wf] Some f(1), of True] table_kva_nonnull [OF f(2), of "ptx va"]
        insert_rest_new [OF D fb x n f(3)]
      by (auto simp: page_insert_rest simp del: KERNBASE_def)
    then show ?thesis
      using Some D fb f(3) six by (auto simp: table_used_def store32_frame entry_def load32_entry)
  next
    case None
    with m obtain y ys where xs: "xs = y # ys" by (cases xs) auto
    note wfx = wf [unfolded xs]
    note y = free_pages_Cons [OF pt_wfD(3) [OF wfx]]
    have b: "y < 0x10000" "y < 0x100000" "D \<noteq> y"
      using pt_wf_bound [OF wf y(2)] pt_wfD(5) [OF wfx] by auto
    let ?t = "new_table_state s D (pdx va) y"
    have n: "\<not> present (entry ?t y (ptx va))" using b D by (simp add: new_table_entry)
    have "x < length (pages ?t)" using x by (simp add: new_table_state_def)
    then have "mem u = store32 (store32 (mem ?t) (entry_pa y (ptx va)) (page2pa x OR (PTE_W OR PTE_U) OR PTE_P)) (entry_pa D (pdx va))
        (entry ?t D (pdx va) OR (PTE_W OR PTE_U))"
      using u walk_create [OF pt_wfD(1) [OF wf] pt_wfD(3) [OF wfx] pt_wfD(4) [OF wf] None] table_kva_nonnull [OF b(1), of "ptx va"]
        insert_rest_new [OF D b(2) _ n, of x "PTE_W OR PTE_U"] b(3)
      by (auto simp: page_insert_rest simp del: KERNBASE_def)
    then show ?thesis
      using None D b six xs new_table_entry [OF D b(2) l(1) D, of e s]
      by (auto simp: table_used_def store32_frame entry_def load32_entry new_table_state_def zeroed_frame)
  qed
  then show "unat a div 4096 \<noteq> D \<Longrightarrow> unat a div 4096 \<noteq> table_used s D va xs \<Longrightarrow> mem u a = mem s a"
    and "e < 1024 \<Longrightarrow> e \<noteq> pdx va \<Longrightarrow> entry u D e = entry s D e"
    and "entry u D (pdx va) AND 6 = 6" by simp_all
qed

section \<open>The environment keeps owning its pages\<close>

definition unreferenced :: "'z pmap_state_scheme \<Rightarrow> nat list \<Rightarrow> bool" where
  "unreferenced s xs \<longleftrightarrow> (\<forall>g \<in> set xs. refs s g = 0)"

definition left_free :: "'z pmap_state_scheme \<Rightarrow> nat \<Rightarrow> u32 \<Rightarrow> nat list \<Rightarrow> nat list" where
  "left_free s D va ys = (if table_at s D (pdx va) = None then tl ys else ys)"

lemma page_alloc_keeps:
  assumes "pt_wf s D (x # ys)" "page_alloc s 0 = Inr (Some x, t)"
  shows "pt_wf t D ys" "mem t = mem s" "same_rest s t" "x < length (pages s)" "refs t g = refs s g"
proof -
  obtain u where u: "page_alloc s 0 = Inr (Some x, u)" "pt_wf u D ys" "mem u = mem s" "same_rest s u" "x < length (pages s)"
    using page_alloc_plain [OF assms(1)] by blast
  with assms(2) show "pt_wf t D ys" "mem t = mem s" "same_rest s t" "x < length (pages s)" by simp_all
  have "t = s\<lparr>page_free_list := pp_link (pages s ! x), pages := (pages s)[x := (pages s ! x)\<lparr>pp_link := None\<rparr>]\<rparr>"
    using assms(2) page_alloc_nonempty [OF pt_wfD(1,3) [OF assms(1)], of 0] by simp
  with u(5) show "refs t g = refs s g" by (simp add: refs_def nth_list_update)
qed

lemma round_effect:
  assumes wf: "pt_wf s D (x # ys)" and d: "pdx va \<in> slots" and np: "\<not> present (pt_entry s D va)"
    and m: "table_at s D (pdx va) \<noteq> None \<or> ys \<noteq> []" and free: "unreferenced s (x # ys)"
    and a: "page_alloc s 0 = Inr (Some x, t)" and i: "page_insert t (pgdir_kva D) x va (PTE_W OR PTE_U) = Inr (0, u)"
  shows "pt_wf u D (left_free s D va ys)"
    and "pdx va' \<in> slots \<Longrightarrow> pt_entry u D va' = (if same_page va va' then region_pte x else pt_entry s D va')"
    and "e < 1024 \<Longrightarrow> table_at u D e = (if e = pdx va \<and> table_at s D e = None then Some (hd ys) else table_at s D e)"
    and "refs u g = refs s g + of_bool (g = x) + of_bool (table_at s D (pdx va) = None \<and> g = hd ys)"
    and "length (pages u) = length (pages s)"
proof -
  note t = page_alloc_keeps [OF wf a]
  have same: "pt_entry t D v = pt_entry s D v" "table_at t D e = table_at s D e" for v e
    using pt_entry_mem [OF t(2)] table_at_mem [OF t(2)] by simp_all
  have len: "length (pages t) = length (pages s)" using t(3) by (simp add: same_rest_def)
  have x: "x < length (pages t)" using t(4) len by simp
  have rem: "removable t D ys va" using np by (simp add: removable_def same)
  have mt: "table_at t D (pdx va) \<noteq> None \<or> ys \<noteq> []" using m by (simp add: same)
  have fr: "freed_by_insert t D x va ys = ys" using np by (simp add: freed_by_insert_def same)
  obtain v where v: "page_insert t (pgdir_kva D) x va (PTE_W OR PTE_U) = Inr (0, v)" "pt_wf v D (left_free s D va ys)"
    "\<forall>va'. pdx va' \<in> slots \<longrightarrow> pt_entry v D va' = (if same_page va va' then page2pa x OR (PTE_W OR PTE_U) OR PTE_P else pt_entry s D va')"
    "\<forall>e < 1024. table_at v D e = (if e = pdx va \<and> table_at s D e = None then Some (hd ys) else table_at s D e)"
    "\<forall>i. pp_ref (pages v ! i) = ref_after_insert t D x va i + of_bool (table_at s D (pdx va) = None \<and> i = hd ys)"
    "length (pages v) = length (pages s)"
    using page_insert_update [OF t(1) d x _ rem mt, of "PTE_W OR PTE_U"] len unfolding fr same left_free_def by auto
  have uv: "u = v" using i v(1) by simp
  show "pt_wf u D (left_free s D va ys)" "length (pages u) = length (pages s)"
    and "pdx va' \<in> slots \<Longrightarrow> pt_entry u D va' = (if same_page va va' then region_pte x else pt_entry s D va')"
    and "e < 1024 \<Longrightarrow> table_at u D e = (if e = pdx va \<and> table_at s D e = None then Some (hd ys) else table_at s D e)"
    using v(2-4,6) unfolding uv region_pte_def by blast+
  let ?n = "table_at s D (pdx va) = None"
  have r: "pp_ref (pages u ! g) = pp_ref (pages t ! g) + of_bool (g = x) + of_bool (?n \<and> g = hd ys)"
    using v(5) np unfolding uv by (simp add: ref_after_insert_def same Let_def)
  have one: "\<not> (g = x \<and> ?n \<and> g = hd ys)"
    using m free_pages_Cons(3) [OF pt_wfD(3) [OF wf]] by (cases ys) auto
  have z: "refs t g = 0" if "g = x \<or> ?n \<and> g = hd ys"
    using that free m unfolding t(5) unreferenced_def by (cases ys) auto
  show "refs u g = refs s g + of_bool (g = x) + of_bool (?n \<and> g = hd ys)"
  proof (cases "g = x \<or> ?n \<and> g = hd ys")
    case True
    then have "pp_ref (pages t ! g) = 0" using z by (simp add: refs_def word_unat_eq_iff)
    with True one r z show ?thesis unfolding t(5) [of g, symmetric] by (auto simp: refs_def)
  qed (use r in \<open>auto simp: refs_def t(5) [unfolded refs_def]\<close>)
qed

lemma left_free_subset: "set (left_free s D va ys) \<subseteq> set ys" "g \<in> set (left_free s D va ys) \<Longrightarrow> distinct ys \<Longrightarrow>
    \<not> (table_at s D (pdx va) = None \<and> g = hd ys)"
  by (cases ys; auto simp: left_free_def split: if_splits)+

lemma owns_round:
  assumes ow: "owns s D (x # ys)" and d: "pdx va < user_slots" and np: "\<not> present (pt_entry s D va)"
    and m: "table_at s D (pdx va) \<noteq> None \<or> ys \<noteq> []" and free: "unreferenced s (x # ys)"
    and a: "page_alloc s 0 = Inr (Some x, t)" and i: "page_insert t (pgdir_kva D) x va (PTE_W OR PTE_U) = Inr (0, u)"
  shows "owns u D (left_free s D va ys)" "unreferenced u (left_free s D va ys)"
    "tables u D \<subseteq> tables s D \<union> set ys" "maps u D g = maps s D g + of_bool (g = x)"
proof -
  note wf = ownsD(1) [OF ow]
  have ds: "pdx va \<in> slots" using user_slot [OF d] by simp
  note e = round_effect [OF wf ds np m free a i]
  have dist: "distinct (x # ys)" using free_pages_eq [of s "x # ys"] pg.free_distinct [of s "x # ys"] pt_wfD(3) [OF wf] by simp
  have old: "f \<noteq> x \<and> f \<notin> set ys \<and> f \<noteq> D \<and> f < length (pages s)" if "f \<in> tables s D" for f
    using that pt_wf_table [OF wf] by (auto simp: tables_def)
  have new: "hd ys \<in> set ys" if "table_at s D (pdx va) = None" using m that by (cases ys) auto
  have tab: "f \<in> tables u D \<longleftrightarrow> f \<in> tables s D \<or> (table_at s D (pdx va) = None \<and> f = hd ys)" for f
  proof
    assume "f \<in> tables u D"
    then show "f \<in> tables s D \<or> (table_at s D (pdx va) = None \<and> f = hd ys)"
      using e(3) by (auto simp: tables_def slots_less split: if_splits)
  next
    assume f: "f \<in> tables s D \<or> (table_at s D (pdx va) = None \<and> f = hd ys)"
    have "table_at u D k = Some f" if "k \<in> slots" "table_at s D k = Some f" for k
      using that e(3) [of k] by (simp add: slots_less)
    moreover have "table_at u D (pdx va) = Some (hd ys)" if "table_at s D (pdx va) = None" using that e(3) [of "pdx va"] by simp
    ultimately show "f \<in> tables u D" using f ds by (auto simp: tables_def)
  qed
  then show "tables u D \<subseteq> tables s D \<union> set ys" using new by auto
  have xt: "x \<notin> tables u D" using tab [of x] old [of x] new dist by auto
  have pte: "pte u D k j = (if k = pdx va \<and> j = ptx va then region_pte x else pte s D k j)" if "k < user_slots" "j < 1024" for k j
  proof -
    have k: "k \<in> slots" "k < 1024" using user_slot [OF that(1)] by auto
    note sv = slot_va_parts [OF k(2) that(2)]
    show ?thesis using e(2) [of "slot_va k j"] k(1) by (simp add: pt_entry_pte sv same_page_iff)
  qed
  have x: "x < length (pages s)" "x < 0x100000" "x \<noteq> D"
    using page_alloc_keeps(4) [OF wf a] pt_wf_bound [OF wf, of x] pt_wfD(5) [OF wf] by auto
  have rp: "present (region_pte x)" "frame_of (region_pte x) = x"
    using frame_of_or_low [OF x(2), of 7] by (simp_all add: region_pte_def or.assoc) (simp add: present_def)
  have vs: "(pdx va, ptx va) \<notin> mappings s D h" for h using np by (auto simp: mappings_def pt_entry_pte)
  have "mappings u D h = mappings s D h \<union> (if h = x then {(pdx va, ptx va)} else {})" for h
    using vs [of h] d rp by (auto simp: mappings_def pte split: if_splits)
  then have mp: "maps u D h = maps s D h + of_bool (h = x)" for h
    using vs [of h] finite_mappings [of s D h] by (cases "h = x") (simp_all add: maps_def)
  then show "maps u D g = maps s D g + of_bool (g = x)" .
  show "unreferenced u (left_free s D va ys)"
    using free left_free_subset(1) left_free_subset(2) [of _ s D va ys] dist unfolding unreferenced_def e(4) by force
  show "owns u D (left_free s D va ys)"
    unfolding owns_def Let_def e(5)
  proof (intro conjI allI impI)
    show "pt_wf u D (left_free s D va ys)" by (rule e(1))
    show "maps u D h \<le> refs u h" for h using ownsD(2) [OF ow, of h] by (simp add: mp e(4))
    fix k j assume k: "k < user_slots" "j < 1024" "present (pte u D k j)"
    have "frame_of (pte u D k j) < length (pages s) \<and> frame_of (pte u D k j) \<notin> set (left_free s D va ys) \<and>
      frame_of (pte u D k j) \<noteq> D \<and> frame_of (pte u D k j) \<notin> tables u D"
    proof (cases "k = pdx va \<and> j = ptx va")
      case True
      then show ?thesis using k rp x xt dist left_free_subset(1) [of s D va ys] by (auto simp: pte)
    next
      case False
      then show ?thesis
        using k ownsD(4) [OF ow k(1,2)] tab [of "frame_of (pte s D k j)"] new left_free_subset(1) [of s D va ys]
        by (auto simp: pte)
    qed
    then show "frame_of (pte u D k j) < length (pages s)" "frame_of (pte u D k j) \<notin> set (left_free s D va ys)"
      "frame_of (pte u D k j) \<noteq> D" "frame_of (pte u D k j) \<notin> tables u D" by blast+
  next
    fix k f assume k: "k < user_slots" "table_at u D k = Some f"
    show "refs u f = 1"
    proof (cases "k = pdx va \<and> table_at s D k = None")
      case True
      then have "f = hd ys" "f \<in> set ys" using k e(3) user_slot new by auto
      then show ?thesis using True free dist by (auto simp: e(4) unreferenced_def)
    next
      case False
      then have ts: "table_at s D k = Some f" using k e(3) [of k] user_slot [OF k(1)] by (auto split: if_splits)
      then have "f \<in> tables s D" using user_slot [OF k(1)] by (auto simp: tables_def)
      then show ?thesis using ownsD(3) [OF ow k(1) ts] old [of f] new by (auto simp: e(4))
    qed
  qed
qed

section \<open>Allocating a region\<close>

text \<open>After \<open>i\<close> rounds, from the state \<open>s\<close> with the free list \<open>xs\<close>.\<close>

definition region_inv ::
  "'z pmap_state_scheme \<Rightarrow> nat list \<Rightarrow> nat \<Rightarrow> u32 \<Rightarrow> nat \<Rightarrow> 'z pmap_state_scheme \<Rightarrow> nat list \<Rightarrow> bool" where
  "region_inv s xs D va i t ys \<longleftrightarrow> owns t D ys \<and> unreferenced t ys \<and> set ys \<subseteq> set xs \<and> tables t D \<subseteq> tables s D \<union> set xs \<and>
     length xs \<le> length ys + 2 * i \<and>
     (\<forall>a. unat a div 4096 \<notin> insert D (tables s D \<union> set xs) \<longrightarrow> mem t a = mem s a) \<and>
     (\<forall>d < 1024. entry t D d = entry s D d \<or> d < user_slots \<and> entry t D d AND 6 = 6) \<and>
     (\<forall>j < i. entry t D (pdx (nth_page va j)) AND 6 = 6)"

lemma region_inv_keeps:
  assumes "\<And>i. i < n \<Longrightarrow> pdx (nth_page va i) < user_slots"
  shows "round_keeps D va n (region_inv s xs D va)"
  unfolding round_keeps_def
proof (intro allI impI)
  fix i t x ys u v
  let ?va = "nth_page va i"
  assume h: "i < n \<and> pt_wf t D (x # ys) \<and> \<not> present (pt_entry t D ?va) \<and>
    (table_at t D (pdx ?va) \<noteq> None \<or> ys \<noteq> []) \<and> region_inv s xs D va i t (x # ys) \<and>
    page_alloc t 0 = Inr (Some x, u) \<and> page_insert u (pgdir_kva D) x ?va (PTE_W OR PTE_U) = Inr (0, v)"
  have inv: "owns t D (x # ys)" "unreferenced t (x # ys)" "set (x # ys) \<subseteq> set xs" "tables t D \<subseteq> tables s D \<union> set xs"
    "length xs \<le> length (x # ys) + 2 * i"
    "\<forall>a. unat a div 4096 \<notin> insert D (tables s D \<union> set xs) \<longrightarrow> mem t a = mem s a"
    "\<forall>d < 1024. entry t D d = entry s D d \<or> d < user_slots \<and> entry t D d AND 6 = 6" "\<forall>j < i. entry t D (pdx (nth_page va j)) AND 6 = 6"
    using h unfolding region_inv_def by blast+
  have wf: "pt_wf t D (x # ys)" and np: "\<not> present (pt_entry t D ?va)" and m: "table_at t D (pdx ?va) \<noteq> None \<or> ys \<noteq> []"
    and a: "page_alloc t 0 = Inr (Some x, u)" and i: "page_insert u (pgdir_kva D) x ?va (PTE_W OR PTE_U) = Inr (0, v)"
    using h by blast+
  have d: "pdx ?va < user_slots" using assms h by blast
  note o = owns_round [OF inv(1) d np m inv(2) a i]
  note al = page_alloc_keeps [OF wf a]
  have same: "pt_entry u D w = pt_entry t D w" "table_at u D e = table_at t D e" "entry u D e = entry t D e" for w e
    using pt_entry_mem [OF al(2)] table_at_mem [OF al(2)] al(2) by (simp_all add: entry_def)
  have x: "x < length (pages u)" using al(3,4) by (simp add: same_rest_def)
  have ds: "pdx ?va \<in> slots" using user_slot [OF d] by simp
  have np': "\<not> present (pt_entry u D ?va)" and mu: "table_at u D (pdx ?va) \<noteq> None \<or> ys \<noteq> []" using np m by (simp_all add: same)
  note ins = insert_new [OF al(1) ds np' mu x i]
  have used: "table_used u D ?va ys \<in> tables t D \<union> set ys"
    using m ds by (cases ys) (auto simp: table_used_def same tables_def split: option.split)
  have frame: "mem v b = mem s b" if "unat b div 4096 \<notin> insert D (tables s D \<union> set xs)" for b
  proof -
    have "table_used u D ?va ys \<in> tables s D \<union> set xs" using used inv(3,4) by auto
    with that have "unat b div 4096 \<noteq> D" "unat b div 4096 \<noteq> table_used u D ?va ys" by auto
    with ins(1) [of b] inv(6) that al(2) show ?thesis by simp
  qed
  have six: "entry v D d = entry t D d \<or> d < user_slots \<and> entry v D d AND 6 = 6" if "d < 1024" for d
    using ins(2) [of d] ins(3) that \<open>pdx ?va < user_slots\<close> by (cases "d = pdx ?va") (simp_all add: same)
  have "region_inv s xs D va (Suc i) v (left_free t D ?va ys)"
    unfolding region_inv_def
  proof (intro conjI allI impI)
    show "owns v D (left_free t D ?va ys)" "unreferenced v (left_free t D ?va ys)" using o by blast+
    show "set (left_free t D ?va ys) \<subseteq> set xs" using left_free_subset(1) [of t D ?va ys] inv(3) by auto
    show "tables v D \<subseteq> tables s D \<union> set xs" using o(3) inv(3,4) by auto
    have "length ys \<le> length (left_free t D ?va ys) + 1" by (cases ys) (simp_all add: left_free_def)
    then show "length xs \<le> length (left_free t D ?va ys) + 2 * Suc i" using inv(5) by simp
    show "mem v b = mem s b" if "unat b div 4096 \<notin> insert D (tables s D \<union> set xs)" for b using frame that by blast
    show "entry v D d = entry s D d \<or> d < user_slots \<and> entry v D d AND 6 = 6" if "d < 1024" for d using six [OF that] inv(7) that by metis
    show "entry v D (pdx (nth_page va j)) AND 6 = 6" if "j < Suc i" for j
      using that six [of "pdx (nth_page va j)"] ins(3) inv(8) by (cases "j = i") auto
  qed
  then show "region_inv s xs D va (Suc i) v (if table_at t D (pdx ?va) = None then tl ys else ys)"
    by (simp add: left_free_def)
qed

text \<open>A region of the user part that is not mapped yet.\<close>

lemma region_alloc_owned:
  fixes s :: "'z env_state_scheme"
  assumes ow: "owns s D xs" "unreferenced s xs" and e: "e < length (envs s)" "env_pgdir (envs s ! e) = pgdir_kva D"
    and nw: "unat va + unat len + 4095 < 2 ^ 32" and b: "b = ROUNDDOWN va PGSIZE" and n: "n = region_pages va len"
    and user: "\<And>i. i < n \<Longrightarrow> pdx (nth_page b i) < user_slots" and mem: "2 * n \<le> length xs"
    and new: "\<And>i. i < n \<Longrightarrow> \<not> present (pt_entry s D (nth_page b i))"
  shows "\<exists>t ys f. region_alloc s e va len = Some (Inr t) \<and> fresh_from s t D b 0 n xs f \<and> same_rest s t \<and>
    region_inv s xs D b n t ys"
proof -
  have slots: "region_slots b n" using user user_slot by (simp add: region_slots_def)
  have "card (missing s D b 0 n) \<le> card ((\<lambda>i. pdx (nth_page b i)) ` {..<n})"
    by (rule card_mono) (auto simp: missing_def)
  also have "\<dots> \<le> n" using card_image_le [of "{..<n}" "\<lambda>i. pdx (nth_page b i)"] by simp
  finally have m: "card (missing s D b 0 n) + n \<le> length xs" using mem by simp
  have "region_inv s xs D b 0 s xs" using ow by (simp add: region_inv_def)
  from region_alloc_run [OF ownsD(1) [OF ow(1)] e nw b n slots m new this region_inv_keeps [OF user]]
  show ?thesis by blast
qed

section \<open>Storing through the page directory\<close>

text \<open>The page of \<open>v\<close> is one the environment may read and write.\<close>

definition user_page :: "'z pmap_state_scheme \<Rightarrow> nat \<Rightarrow> u32 \<Rightarrow> bool" where
  "user_page s D v \<longleftrightarrow> pdx v < user_slots \<and> allows True True (entry s D (pdx v)) \<and> allows True True (pt_entry s D v)"

definition user_pa :: "'z pmap_state_scheme \<Rightarrow> nat \<Rightarrow> u32 \<Rightarrow> u32" where
  "user_pa s D v = PTE_ADDR (pt_entry s D v) OR PGOFF v"

lemma byte_at_pa: "byte_at s D v = mem s (user_pa s D v)"
  by (simp add: byte_at_def user_pa_def)

lemma user_pageI:
  assumes "pdx v < user_slots" "entry s D (pdx v) AND 6 = 6" "allows True True (pt_entry s D v)"
  shows "user_page s D v"
proof -
  have "present (pt_entry s D v)" using assms(3) by (simp add: allows_def)
  then have "present (entry s D (pdx v))" by (auto simp: pt_entry_def table_at_def split: if_splits)
  moreover have "e AND 6 = 6 \<Longrightarrow> e AND 2 \<noteq> 0 \<and> e AND 4 \<noteq> 0" for e :: u32
  proof -
    assume e: "e AND 6 = 6"
    have "(e AND 6) AND 2 = e AND 2" "(e AND 6) AND 4 = e AND 4" unfolding and.assoc by simp_all
    then show "e AND 2 \<noteq> 0 \<and> e AND 4 \<noteq> 0" unfolding e by simp
  qed
  ultimately show ?thesis using assms by (simp add: user_page_def allows_def)
qed

lemma user_page_below: "pdx v < user_slots \<Longrightarrow> v < KERNBASE"
  by (simp add: pdx_def unat_PDX user_slots_def word_less_nat_alt)

lemma translate_user:
  assumes "user_page s D v" "cr3 s = page2pa D" "D < 0x100000"
  shows "translate s w v = Some (user_pa s D v)"
proof -
  let ?pde = "entry s D (pdx v)"
  have d: "load32 (mem s) (cr3 s + 4 * PDX v) = ?pde"
    using entry_pa_PDX [OF assms(3), of v] by (simp add: assms(2) entry_def pdx_def)
  have t: "load32 (mem s) (PTE_ADDR ?pde + 4 * PTX v) = entry s (frame_of ?pde) (ptx v)"
    using entry_pa_PTX [OF frame_of_less, of ?pde v] by (simp add: PTE_ADDR_frame entry_def ptx_def)
  have a: "allows True True ?pde" "allows True True (pt_entry s D v)" "\<not> KERNBASE \<le> v"
    using assms(1) user_page_below [of v] by (simp_all only: user_page_def not_le)
  then have e: "pt_entry s D v = entry s (frame_of ?pde) (ptx v)" by (simp add: pt_entry_def table_at_def allows_def)
  show ?thesis
    using a by (simp only: translate_def d Let_def t e [symmetric] user_pa_def if_False) (simp add: allows_def present_def)
qed

text \<open>Memory that differs outside the directory and its tables gives the same translation.\<close>

definition same_tables :: "'z pmap_state_scheme \<Rightarrow> 'z pmap_state_scheme \<Rightarrow> nat \<Rightarrow> bool" where
  "same_tables s t D \<longleftrightarrow> (\<forall>a. unat a div 4096 \<in> insert D (tables s D) \<longrightarrow> mem t a = mem s a)"

lemma same_tablesD:
  assumes "same_tables s t D" "D < 0x100000"
  shows "d < 1024 \<Longrightarrow> entry t D d = entry s D d" "d < 1024 \<Longrightarrow> table_at t D d = table_at s D d"
    "pdx v \<in> slots \<Longrightarrow> pt_entry t D v = pt_entry s D v" "tables t D = tables s D"
proof -
  show en: "entry t D d = entry s D d" if "d < 1024" for d
    using assms that by (intro entry_frame) (auto simp: same_tables_def)
  show ta: "table_at t D d = table_at s D d" if "d < 1024" for d using en [OF that] by (simp add: table_at_def)
  then show "tables t D = tables s D" by (auto simp: tables_def slots_less)
  assume v: "pdx v \<in> slots"
  show "pt_entry t D v = pt_entry s D v"
  proof (cases "table_at s D (pdx v)")
    case (Some f)
    then have f: "f \<in> tables s D" using v by (auto simp: tables_def)
    have "f < 0x100000" using Some by (auto simp: table_at_def frame_of_less split: if_splits)
    then have "entry t f (ptx v) = entry s f (ptx v)"
      using assms(1) f by (intro entry_frame) (auto simp: same_tables_def)
    with Some show ?thesis by (simp add: pt_entry_def ta)
  qed (simp add: pt_entry_def ta)
qed

text \<open>Storing a byte at each of \<open>n\<close> addresses; \<open>rd\<close> gives the byte.\<close>

lemma vstores:
  fixes s :: "'z pmap_state_scheme"
  assumes c: "cr3 s = page2pa D" "D < 0x100000"
    and pg: "\<And>i. i < n \<Longrightarrow> user_page s D (va + of_nat i) \<and> unat (user_pa s D (va + of_nat i)) div 4096 \<notin> insert D (tables s D)"
    and inj: "inj_on (\<lambda>i. user_pa s D (va + of_nat i)) {..<n}"
    and rd: "\<And>i m. i < n \<Longrightarrow> (\<And>a. a \<notin> (\<lambda>i. user_pa s D (va + of_nat i)) ` {..<n} \<Longrightarrow> m a = mem s a) \<Longrightarrow> rd i (s\<lparr>mem := m\<rparr>) = Inr (b i)"
  shows "\<exists>m. for_each (\<lambda>i s. bindr (rd i s) (\<lambda>b. vstore (va + of_nat i) b s)) [0..<n] s = Inr (s\<lparr>mem := m\<rparr>) \<and>
    (\<forall>i < n. m (user_pa s D (va + of_nat i)) = b i) \<and>
    (\<forall>a. a \<notin> (\<lambda>i. user_pa s D (va + of_nat i)) ` {..<n} \<longrightarrow> m a = mem s a)"
proof -
  let ?p = "\<lambda>i. user_pa s D (va + of_nat i)"
  have "\<exists>m. for_each (\<lambda>i s. bindr (rd i s) (\<lambda>b. vstore (va + of_nat i) b s)) [0..<k] s = Inr (s\<lparr>mem := m\<rparr>) \<and>
      (\<forall>i < k. m (?p i) = b i) \<and> (\<forall>a. a \<notin> ?p ` {..<k} \<longrightarrow> m a = mem s a)" if "k \<le> n" for k
    using that
  proof (induction k)
    case 0
    show ?case by (intro exI [of _ "mem s"]) simp
  next
    case (Suc k)
    then obtain m where m: "for_each (\<lambda>i s. bindr (rd i s) (\<lambda>b. vstore (va + of_nat i) b s)) [0..<k] s = Inr (s\<lparr>mem := m\<rparr>)"
      "\<forall>i < k. m (?p i) = b i" "\<forall>a. a \<notin> ?p ` {..<k} \<longrightarrow> m a = mem s a" by auto
    let ?t = "s\<lparr>mem := m\<rparr>"
    have k: "k < n" using Suc.prems by simp
    have "m a = mem s a" if "unat a div 4096 \<in> insert D (tables s D)" for a
    proof -
      have "a \<notin> ?p ` {..<k}" using that pg k by auto
      with m(3) show ?thesis by blast
    qed
    then have "same_tables s ?t D" by (simp add: same_tables_def)
    note st = same_tablesD [OF this c(2)]
    have sl: "pdx (va + of_nat k) \<in> slots" using pg [OF k] user_slot by (simp add: user_page_def)
    have "user_page ?t D (va + of_nat k)" "user_pa ?t D (va + of_nat k) = ?p k"
      using pg [OF k] st(1,3) sl by (simp_all add: user_page_def user_pa_def)
    then have "vstore (va + of_nat k) (b k) ?t = Inr (s\<lparr>mem := m(?p k := b k)\<rparr>)"
      using translate_user [of ?t D "va + of_nat k" True] c by (simp add: vstore_def)
    moreover have "?p ` {..<k} \<subseteq> ?p ` {..<n}" using k by (intro image_mono) auto
    then have "rd k ?t = Inr (b k)" by (intro rd [OF k]) (use m(3) in blast)
    ultimately have "for_each (\<lambda>i s. bindr (rd i s) (\<lambda>b. vstore (va + of_nat i) b s)) [0..<Suc k] s = Inr (s\<lparr>mem := m(?p k := b k)\<rparr>)"
      using m(1) by (simp add: for_each_append)
    moreover have "(m(?p k := b k)) (?p i) = b i" if "i < Suc k" for i
    proof (cases "i = k")
      case False
      then have "?p i \<noteq> ?p k" using inj that k by (auto simp: inj_on_def)
      then show ?thesis using m(2) that False by simp
    qed simp
    moreover have "(m(?p k := b k)) a = mem s a" if "a \<notin> ?p ` {..<Suc k}" for a
    proof -
      have "a \<noteq> ?p k" "a \<notin> ?p ` {..<k}" using that by auto
      then show ?thesis using m(3) by simp
    qed
    ultimately show ?case by blast
  qed
  then show ?thesis by blast
qed

section \<open>Growing an address space\<close>

text \<open>From \<open>s\<close> with the free list \<open>xs\<close> to \<open>u\<close> with \<open>ys\<close>, at most \<open>n\<close> pages and as many tables are taken from
  the free list; the addresses in \<open>B\<close> get pages the environment may write, other
  mappings stay, and memory outside the directory, its tables and the free pages too.\<close>

definition grows ::
  "'z pmap_state_scheme \<Rightarrow> 'z pmap_state_scheme \<Rightarrow> nat \<Rightarrow> nat list \<Rightarrow> nat list \<Rightarrow> nat \<Rightarrow> u32 set \<Rightarrow> bool" where
  "grows s u D xs ys n B \<longleftrightarrow> owns u D ys \<and> unreferenced u ys \<and> set ys \<subseteq> set xs \<and> length xs \<le> length ys + 2 * n \<and>
     tables u D \<subseteq> tables s D \<union> set xs \<and> same_rest s u \<and>
     (\<forall>a. unat a div 4096 \<notin> insert D (tables s D \<union> set xs) \<longrightarrow> mem u a = mem s a) \<and>
     (\<forall>v. pdx v \<in> slots \<longrightarrow> v \<notin> B \<longrightarrow> pt_entry u D v = pt_entry s D v) \<and>
     (\<forall>d < 1024. entry u D d = entry s D d \<or> d < user_slots \<and> entry u D d AND 6 = 6) \<and>
     (\<forall>v \<in> B. user_page u D v \<and> frame_of (pt_entry u D v) \<in> set xs - set ys)"

lemma growsD:
  assumes "grows s u D xs ys n B"
  shows "owns u D ys" "unreferenced u ys" "set ys \<subseteq> set xs" "length xs \<le> length ys + 2 * n"
    "tables u D \<subseteq> tables s D \<union> set xs" "same_rest s u"
    "unat a div 4096 \<notin> insert D (tables s D \<union> set xs) \<Longrightarrow> mem u a = mem s a"
    "pdx v \<in> slots \<Longrightarrow> v \<notin> B \<Longrightarrow> pt_entry u D v = pt_entry s D v"
    "d < 1024 \<Longrightarrow> entry u D d = entry s D d \<or> d < user_slots \<and> entry u D d AND 6 = 6"
    "v \<in> B \<Longrightarrow> user_page u D v" "v \<in> B \<Longrightarrow> frame_of (pt_entry u D v) \<in> set xs - set ys"
  using assms unfolding grows_def by blast+

lemma grows_refl: "owns s D xs \<Longrightarrow> unreferenced s xs \<Longrightarrow> grows s s D xs xs 0 {}"
  by (simp add: grows_def)

lemma grows_page:
  assumes "grows s u D xs ys n B" "user_page s D v"
  shows "user_page u D v"
proof (cases "v \<in> B")
  case False
  have v: "pdx v < user_slots" "allows True True (entry s D (pdx v))" "allows True True (pt_entry s D v)"
    using assms(2) by (simp_all add: user_page_def)
  then have e: "pt_entry u D v = pt_entry s D v" using growsD(8) [OF assms(1) _ False] user_slot by blast
  show ?thesis
  proof (cases "entry u D (pdx v) = entry s D (pdx v)")
    case False
    then have "entry u D (pdx v) AND 6 = 6" using growsD(9) [OF assms(1), of "pdx v"] by simp
    with v e show ?thesis by (intro user_pageI) simp_all
  qed (use v e in \<open>simp add: user_page_def\<close>)
qed (rule growsD(10) [OF assms(1)])

lemma grows_trans:
  assumes g: "grows s t D xs ys n B" "grows t u D ys zs m C"
  shows "grows s u D xs zs (n + m) (B \<union> C)"
proof -
  note s = growsD [OF g(1)] and t = growsD [OF g(2)]
  have sub: "insert D (tables t D \<union> set ys) \<subseteq> insert D (tables s D \<union> set xs)" using s(3,5) by auto
  show ?thesis
    unfolding grows_def
  proof (intro conjI allI impI ballI)
    show "owns u D zs" "unreferenced u zs" by (rule t)+
    show "set zs \<subseteq> set xs" "length xs \<le> length zs + 2 * (n + m)" using s(3,4) t(3,4) by auto
    show "tables u D \<subseteq> tables s D \<union> set xs" using s(3,5) t(5) by auto
    show "same_rest s u" using s(6) t(6) by (rule same_rest_trans)
    show "mem u a = mem s a" if "unat a div 4096 \<notin> insert D (tables s D \<union> set xs)" for a
      using t(7) [of a] s(7) [of a] sub that by auto
    show "pt_entry u D v = pt_entry s D v" if "pdx v \<in> slots" "v \<notin> B \<union> C" for v
      using t(8) s(8) that by simp
    show "entry u D d = entry s D d \<or> d < user_slots \<and> entry u D d AND 6 = 6" if "d < 1024" for d
      using t(9) [OF that] s(9) [OF that] by metis
    fix v assume v: "v \<in> B \<union> C"
    show "user_page u D v" using v t(10) grows_page [OF g(2) s(10)] by blast
    show "frame_of (pt_entry u D v) \<in> set xs - set zs"
    proof (cases "v \<in> C")
      case False
      then have vb: "v \<in> B" using v by blast
      then have "pdx v \<in> slots" using s(10) user_slot by (auto simp: user_page_def)
      then show ?thesis using t(8) [OF _ False] s(11) [OF vb] t(3) by auto
    qed (use t(11) s(3) in auto)
  qed
qed

text \<open>What was mapped before keeps its contents.\<close>

lemma unat_user_pa: "unat (user_pa s D v) = 4096 * frame_of (pt_entry s D v) + unat v mod 4096"
proof -
  have "unat (PGOFF v) < 4096" by (simp add: unat_PGOFF)
  from page2pa_or_low(1) [OF frame_of_less this] have u: "user_pa s D v = page2pa (frame_of (pt_entry s D v)) + PGOFF v"
    by (simp add: user_pa_def PTE_ADDR_frame)
  have "frame_of (pt_entry s D v) < 0x100000" by (rule frame_of_less)
  then show ?thesis unfolding u by (subst unat_add_no_wrap) (simp_all add: unat_page2pa unat_PGOFF)
qed

lemma grows_byte:
  assumes g: "grows s u D xs ys n B" and o: "owns s D xs" and v: "pdx v < user_slots" "present (pt_entry s D v)" "v \<notin> B"
  shows "byte_at u D v = byte_at s D v"
proof -
  have "pdx v \<in> slots" using user_slot [OF v(1)] by simp
  then have e: "pt_entry u D v = pt_entry s D v" using growsD(8) [OF g _ v(3)] by simp
  have "frame_of (pt_entry s D v) \<notin> insert D (tables s D \<union> set xs)"
    using ownsD(4) [OF o v(1) ptx_less] v(2) by (auto simp: pt_entry_pte)
  then have "mem u (user_pa s D v) = mem s (user_pa s D v)"
    by (intro growsD(7) [OF g]) (simp add: unat_user_pa)
  then show ?thesis by (simp add: byte_at_pa user_pa_def e)
qed

text \<open>The image lies in pages of the kernel that are neither free nor part of the address space.\<close>

definition image_safe :: "'z pmap_state_scheme \<Rightarrow> nat \<Rightarrow> nat list \<Rightarrow> u32 \<Rightarrow> nat \<Rightarrow> bool" where
  "image_safe s D xs binary sz \<longleftrightarrow> KERNBASE \<le> binary \<and> unat binary + sz < 2 ^ 32 \<and>
     (\<forall>i < sz. unat (kv2p (binary + of_nat i)) div 4096 \<notin> insert D (tables s D \<union> set xs))"

lemma grows_image:
  assumes "grows s u D xs ys n B" "image_safe s D xs binary sz"
  shows "image_safe u D ys binary sz" "i < sz \<Longrightarrow> mem u (kv2p (binary + of_nat i)) = mem s (kv2p (binary + of_nat i))"
proof -
  show "i < sz \<Longrightarrow> mem u (kv2p (binary + of_nat i)) = mem s (kv2p (binary + of_nat i))"
    using assms(2) by (intro growsD(7) [OF assms(1)]) (simp add: image_safe_def)
  show "image_safe u D ys binary sz"
    using assms(2) growsD(3,5) [OF assms(1)] unfolding image_safe_def by blast
qed

lemma image_word:
  assumes "\<And>i. i < sz \<Longrightarrow> mem u (kv2p (binary + of_nat i)) = mem s (kv2p (binary + of_nat i))" "k + 4 \<le> sz"
  shows "kload u (binary + of_nat k) = kload s (binary + of_nat k)"
proof -
  have "mem u (kv2p (binary + of_nat k) + of_nat j) = mem s (kv2p (binary + of_nat k) + of_nat j)" if "j < 4" for j
  proof -
    have "kv2p (binary + of_nat k) + of_nat j = kv2p (binary + of_nat (k + j))" by (simp add: kv2p_def)
    then show ?thesis using assms(1) [of "k + j"] assms(2) that by simp
  qed
  from this [of 0] this [of 1] this [of 2] this [of 3] show ?thesis by (simp add: kload_def load32_def)
qed

section \<open>One segment\<close>

definition region_addrs :: "u32 \<Rightarrow> u32 \<Rightarrow> u32 set" where
  "region_addrs va len = {v. \<exists>i < region_pages va len. same_page (nth_page (ROUNDDOWN va PGSIZE) i) v}"

text \<open>The page of \<open>v\<close> among those of the region.\<close>

lemma region_addrs_iff:
  assumes "unat va + unat len + 4095 < 2 ^ 32"
  shows "v \<in> region_addrs va len \<longleftrightarrow> unat va div 4096 \<le> unat v div 4096 \<and> unat v div 4096 < (unat va + unat len + 4095) div 4096"
    "i < region_pages va len \<Longrightarrow> unat (nth_page (ROUNDDOWN va PGSIZE) i) div 4096 = unat va div 4096 + i"
proof -
  have d: "unat (ROUNDDOWN va PGSIZE) = 4096 * (unat va div 4096)"
    by (simp add: unat_ROUNDDOWN minus_mod_eq_mult_div)
  have le: "unat (ROUNDDOWN va PGSIZE) + 4096 * region_pages va len \<le> 2 ^ 32" using region_ends(2) [OF assms] by simp
  have p: "unat (nth_page (ROUNDDOWN va PGSIZE) i) div 4096 = unat va div 4096 + i" if "i < region_pages va len" for i
    using unat_nth_page [OF le that] unfolding d by simp
  then show "i < region_pages va len \<Longrightarrow> unat (nth_page (ROUNDDOWN va PGSIZE) i) div 4096 = unat va div 4096 + i" .
  have "v \<in> region_addrs va len \<longleftrightarrow> (\<exists>i < region_pages va len. unat v div 4096 = unat va div 4096 + i)"
    using p by (force simp: region_addrs_def same_page_def word_unat_eq_iff unat_PGNUM)
  also have "\<dots> \<longleftrightarrow> unat va div 4096 \<le> unat v div 4096 \<and> unat v div 4096 < (unat va + unat len + 4095) div 4096"
  proof -
    have "(\<exists>i < r - p. q = p + i) \<longleftrightarrow> p \<le> q \<and> q < r" for p q r :: nat
      by (auto intro!: exI [of _ "q - p"])
    then show ?thesis unfolding region_pages_def .
  qed
  finally show "v \<in> region_addrs va len \<longleftrightarrow> unat va div 4096 \<le> unat v div 4096 \<and> unat v div 4096 < (unat va + unat len + 4095) div 4096" .
qed

text \<open>The region lies below \<open>UTOP\<close>.\<close>

definition user_region :: "u32 \<Rightarrow> u32 \<Rightarrow> bool" where
  "user_region va len \<longleftrightarrow> unat va + unat len \<le> unat UTOP"

lemma user_region_nw: "user_region va len \<Longrightarrow> unat va + unat len + 4095 < 2 ^ 32"
  by (simp add: user_region_def)

lemma pdx_page: "pdx v = unat v div 4096 div 1024"
  by (simp add: pdx_def unat_PDX div_mult2_eq [symmetric])

lemma user_region_slots: "user_region va len \<Longrightarrow> v \<in> region_addrs va len \<Longrightarrow> pdx v < user_slots"
proof -
  assume u: "user_region va len" and v: "v \<in> region_addrs va len"
  have "unat v div 4096 < (unat va + unat len + 4095) div 4096"
    using v region_addrs_iff(1) [OF user_region_nw [OF u]] by simp
  also have "\<dots> \<le> (unat UTOP + 4095) div 4096" using u by (intro div_le_mono) (simp add: user_region_def)
  finally show ?thesis unfolding pdx_page user_slots_def by simp
qed

lemma region_addr:
  assumes "unat va + unat len + 4095 < 2 ^ 32" "i < unat len"
  shows "unat (va + of_nat i) = unat va + i" "va + of_nat i \<in> region_addrs va len"
proof -
  have i: "unat (of_nat i :: u32) = i" using assms by (intro unat_of_nat_u32) simp
  then show u: "unat (va + of_nat i) = unat va + i" using assms by (subst unat_add_no_wrap) simp_all
  have "unat va div 4096 \<le> (unat va + i) div 4096" by (intro div_le_mono) simp
  moreover have "(unat va + i) div 4096 < (unat va + unat len + 4095) div 4096"
    using assms(2) div_le_mono [of "unat va + i + 4096" "unat va + unat len + 4095" 4096] by simp
  ultimately show "va + of_nat i \<in> region_addrs va len" using region_addrs_iff(1) [OF assms(1)] u by simp
qed

lemma allows_region_pte: "f < 0x100000 \<Longrightarrow> allows True True (region_pte f) \<and> frame_of (region_pte f) = f"
proof -
  assume f: "f < 0x100000"
  have "region_pte f = page2pa f OR 7" by (simp add: region_pte_def or.assoc)
  moreover have "allows True True (page2pa f OR 7)"
    using f allows_aligned [of "page2pa f" 7 True True] by (simp add: unat_page2pa) (simp add: allows_def present_def)
  ultimately show ?thesis using frame_of_or_low [OF f, of 7] by simp
qed

lemma region_grows:
  assumes ow: "owns s D xs" "unreferenced s xs" and e: "e < length (envs s)" "env_pgdir (envs s ! e) = pgdir_kva D"
    and u: "user_region va len" and mem: "2 * region_pages va len \<le> length xs"
    and new: "\<And>v. v \<in> region_addrs va len \<Longrightarrow> \<not> present (pt_entry s D v)"
  shows "\<exists>t ys. region_alloc s e va len = Some (Inr t) \<and> grows s t D xs ys (region_pages va len) (region_addrs va len) \<and>
    (\<forall>v \<in> region_addrs va len. \<forall>w \<in> region_addrs va len.
       frame_of (pt_entry t D v) = frame_of (pt_entry t D w) \<longrightarrow> same_page v w)"
proof -
  let ?b = "ROUNDDOWN va PGSIZE" and ?n = "region_pages va len"
  note nw = user_region_nw [OF u]
  have mem_b: "nth_page ?b i \<in> region_addrs va len" if "i < ?n" for i
    using that unfolding region_addrs_def by (auto intro: exI [of _ i])
  have user: "pdx (nth_page ?b i) < user_slots" if "i < ?n" for i
    by (rule user_region_slots [OF u mem_b [OF that]])
  obtain t ys f where t: "region_alloc s e va len = Some (Inr t)" "fresh_from s t D ?b 0 ?n xs f" "same_rest s t"
    "region_inv s xs D ?b ?n t ys"
    using region_alloc_owned [OF ow e nw refl refl user mem new [OF mem_b]] by blast
  have inv: "owns t D ys" "unreferenced t ys" "set ys \<subseteq> set xs" "tables t D \<subseteq> tables s D \<union> set xs" "length xs \<le> length ys + 2 * ?n"
    "\<forall>a. unat a div 4096 \<notin> insert D (tables s D \<union> set xs) \<longrightarrow> mem t a = mem s a"
    "\<forall>d < 1024. entry t D d = entry s D d \<or> d < user_slots \<and> entry t D d AND 6 = 6" "\<forall>j < ?n. entry t D (pdx (nth_page ?b j)) AND 6 = 6"
    using t(4) unfolding region_inv_def by blast+
  have fx: "f i \<in> set xs" "pt_entry t D (nth_page ?b i) = region_pte (f i)" if "i < ?n" for i
    using t(2) that unfolding fresh_from_def by blast+
  have fb: "f i < 0x100000" if "i < ?n" for i
    using pt_wf_bound [OF ownsD(1) [OF ow(1)], of "f i"] pt_wfD(3) [OF ownsD(1) [OF ow(1)]] fx(1) [OF that]
    by (auto simp: free_pages_def page_cap_def)
  have in_page: "\<exists>i < ?n. same_page (nth_page ?b i) v \<and> pt_entry t D v = region_pte (f i)" if v: "v \<in> region_addrs va len" for v
  proof -
    obtain i where i: "i < ?n" "same_page (nth_page ?b i) v" using v unfolding region_addrs_def by blast
    have "pt_entry t D v = region_pte (f i)" using pt_entry_same_page [OF i(2), of t D] fx(2) [OF i(1)] by simp
    with i show ?thesis by blast
  qed
  have "grows s t D xs ys ?n (region_addrs va len)"
    unfolding grows_def
  proof (intro conjI ballI)
    show "\<forall>v. pdx v \<in> slots \<longrightarrow> v \<notin> region_addrs va len \<longrightarrow> pt_entry t D v = pt_entry s D v"
      using t(2) unfolding fresh_from_def region_addrs_def by blast
    fix v assume v: "v \<in> region_addrs va len"
    then obtain i where i: "i < ?n" "same_page (nth_page ?b i) v" "pt_entry t D v = region_pte (f i)" using in_page by blast
    have "pdx v = pdx (nth_page ?b i)" using i(2) by (simp add: same_page_iff)
    then show "user_page t D v"
      using user [OF i(1)] inv(8) i allows_region_pte [OF fb [OF i(1)]] by (intro user_pageI) simp_all
    then have p: "pdx v < user_slots" "present (pt_entry t D v)" by (simp_all add: user_page_def allows_def)
    have "frame_of (pt_entry t D v) = f i" using i(3) allows_region_pte [OF fb [OF i(1)]] by simp
    then show "frame_of (pt_entry t D v) \<in> set xs - set ys"
      using fx(1) [OF i(1)] ownsD(4) [OF inv(1) p(1) ptx_less [of v] _ refl] p(2) by (simp add: pt_entry_pte)
  qed (use inv t(3) in blast)+
  moreover have "same_page v w" if vw: "v \<in> region_addrs va len" "w \<in> region_addrs va len"
    "frame_of (pt_entry t D v) = frame_of (pt_entry t D w)" for v w
  proof -
    obtain i j where i: "i < ?n" "same_page (nth_page ?b i) v" "pt_entry t D v = region_pte (f i)"
      and j: "j < ?n" "same_page (nth_page ?b j) w" "pt_entry t D w = region_pte (f j)"
      using in_page [OF vw(1)] in_page [OF vw(2)] by blast
    have "f i = f j" using vw(3) i(3) j(3) allows_region_pte [OF fb [OF i(1)]] allows_region_pte [OF fb [OF j(1)]] by simp
    then have "i = j" using t(2) i(1) j(1) by (auto simp: fresh_from_def inj_on_def)
    with i(2) j(2) show ?thesis by (simp add: same_page_def)
  qed
  ultimately show ?thesis using t(1) by blast
qed

lemma maps_tables:
  assumes m: "same_tables s t D" and D: "D < 0x100000"
  shows "d < user_slots \<Longrightarrow> i < 1024 \<Longrightarrow> pte t D d i = pte s D d i" "maps t D g = maps s D g"
proof -
  show pt: "pte t D d i = pte s D d i" if "d < user_slots" "i < 1024" for d i
  proof -
    have d: "d < 1024" "d \<in> slots" using user_slot [OF that(1)] by simp_all
    note sv = slot_va_parts [OF d(1) that(2)]
    have "pt_entry t D (slot_va d i) = pt_entry s D (slot_va d i)" by (rule same_tablesD(3) [OF m D]) (simp add: sv d)
    then show ?thesis by (simp add: pt_entry_pte sv)
  qed
  then have "mappings t D g = mappings s D g" by (auto simp: mappings_def)
  then show "maps t D g = maps s D g" by (simp add: maps_def)
qed

lemma owns_tables:
  assumes o: "owns s D xs" and m: "same_tables s t D"
    and same: "pages t = pages s" "npages t = npages s" "page_free_list t = page_free_list s"
  shows "owns t D xs"
proof -
  have wf: "pt_wf s D xs" by (rule ownsD(1) [OF o])
  have D: "D < 0x100000" using pt_wf_bound [OF wf pt_wfD(4) [OF wf]] by simp
  note q = same_tablesD [OF m D]
  have ta: "table_at t D d = table_at s D d" if "d \<in> slots" for d using that by (intro q(2)) (simp add: slots_def)
  have us: "table_at t D d = table_at s D d" if "d < user_slots" for d using that user_slot by (intro ta) blast
  note pt = maps_tables(1) [OF m D] and maps = maps_tables(2) [OF m D]
  have refs: "refs t g = refs s g" for g by (simp add: refs_def same)
  have "page_link t = page_link s" using same(1) by (simp add: page_link_def fun_eq_iff)
  then have "pt_wf t D xs"
    using wf ta unfolding pt_wf_def pages_wf_def free_pages_def page_cap_def same by auto
  then show ?thesis using o pt us unfolding owns_def Let_def q(4) maps refs same by simp
qed

lemma grows_store:
  assumes g: "grows s t D xs ys n B" and m: "same_tables t (t\<lparr>mem := m\<rparr>) D"
    and out: "\<And>a. unat a div 4096 \<notin> set xs \<Longrightarrow> m a = mem t a"
  shows "grows s (t\<lparr>mem := m\<rparr>) D xs ys n B"
proof -
  note t = growsD [OF g]
  let ?u = "t\<lparr>mem := m\<rparr>"
  have D: "D < 0x100000" using pt_wf_bound [OF ownsD(1) [OF t(1)] pt_wfD(4) [OF ownsD(1) [OF t(1)]]] by simp
  note q = same_tablesD [OF m D]
  show ?thesis
    unfolding grows_def
  proof (intro conjI allI impI ballI)
    show "owns ?u D ys" by (rule owns_tables [OF t(1) m]) simp_all
    show "unreferenced ?u ys" using t(2) by (simp add: unreferenced_def refs_def)
    show "set ys \<subseteq> set xs" "length xs \<le> length ys + 2 * n" by (rule t)+
    show "tables ?u D \<subseteq> tables s D \<union> set xs" unfolding q(4) by (rule t)
    show "same_rest s ?u" using t(6) by simp
    show "mem ?u a = mem s a" if "unat a div 4096 \<notin> insert D (tables s D \<union> set xs)" for a
      using t(7) [OF that] out [of a] that by simp
    show "pt_entry ?u D v = pt_entry s D v" if "pdx v \<in> slots" "v \<notin> B" for v
      using t(8) [OF that] q(3) [OF that(1)] by simp
    show "entry ?u D d = entry s D d \<or> d < user_slots \<and> entry ?u D d AND 6 = 6" if "d < 1024" for d using t(9) [OF that] q(1) [OF that] by simp
    fix v assume v: "v \<in> B"
    have p: "user_page t D v" by (rule t(10) [OF v])
    then have sl: "pdx v \<in> slots" using user_slot by (auto simp: user_page_def)
    have e: "pt_entry ?u D v = pt_entry t D v" "entry ?u D (pdx v) = entry t D (pdx v)" by (rule q(3) [OF sl], rule q(1)) simp
    show "user_page ?u D v" using p unfolding user_page_def e .
    show "frame_of (pt_entry ?u D v) \<in> set xs - set ys" using t(11) [OF v] unfolding e .
  qed
qed

lemma translate_kernel: "KERNBASE \<le> a \<Longrightarrow> translate s w a = Some (kv2p a)"
  by (simp add: translate_def kv2p_def)

text \<open>The addresses from \<open>va\<close> on are backed by pages of \<open>X\<close>, each byte by one of its own.\<close>

definition backed :: "'z pmap_state_scheme \<Rightarrow> nat \<Rightarrow> nat set \<Rightarrow> u32 \<Rightarrow> nat \<Rightarrow> bool" where
  "backed t D X va n \<longleftrightarrow> (\<forall>i < n. user_page t D (va + of_nat i) \<and>
       unat (user_pa t D (va + of_nat i)) div 4096 \<in> X - insert D (tables t D)) \<and>
     inj_on (\<lambda>i. user_pa t D (va + of_nat i)) {..<n}"

lemma backed_region:
  assumes t: "grows s t D xs ys n (region_addrs va ms)" and u: "user_region va ms"
    and one: "\<And>v w. v \<in> region_addrs va ms \<Longrightarrow> w \<in> region_addrs va ms \<Longrightarrow>
      frame_of (pt_entry t D v) = frame_of (pt_entry t D w) \<Longrightarrow> same_page v w"
  shows "backed t D (set xs) va (unat ms)"
proof -
  note g = growsD [OF t] and addr = region_addr [OF user_region_nw [OF u]]
  let ?p = "\<lambda>i. user_pa t D (va + of_nat i)"
  have fr: "unat (?p i) div 4096 = frame_of (pt_entry t D (va + of_nat i))" for i by (simp add: unat_user_pa)
  have "user_page t D (va + of_nat i) \<and> unat (?p i) div 4096 \<in> set xs - insert D (tables t D)" if i: "i < unat ms" for i
  proof -
    have p: "user_page t D (va + of_nat i)" by (rule g(10) [OF addr(2) [OF i]])
    then have "pdx (va + of_nat i) < user_slots" "present (pt_entry t D (va + of_nat i))" by (simp_all add: user_page_def allows_def)
    then have "frame_of (pt_entry t D (va + of_nat i)) \<notin> insert D (tables t D)"
      using ownsD(4) [OF g(1) _ ptx_less [of "va + of_nat i"] _ refl] by (simp add: pt_entry_pte)
    with p g(11) [OF addr(2) [OF i]] show ?thesis unfolding fr by blast
  qed
  moreover have "inj_on ?p {..<unat ms}"
  proof (rule inj_onI)
    fix i j assume ij: "i \<in> {..<unat ms}" "j \<in> {..<unat ms}" "?p i = ?p j"
    then have l: "i < unat ms" "j < unat ms" by simp_all
    have "frame_of (pt_entry t D (va + of_nat i)) = frame_of (pt_entry t D (va + of_nat j))" using ij(3) fr by metis
    then have "same_page (va + of_nat i) (va + of_nat j)" by (rule one [OF addr(2) [OF l(1)] addr(2) [OF l(2)]])
    then have "(unat va + i) div 4096 = (unat va + j) div 4096"
      using addr(1) [OF l(1)] addr(1) [OF l(2)] by (simp add: same_page_def word_unat_eq_iff unat_PGNUM)
    moreover have "(unat va + i) mod 4096 = (unat va + j) mod 4096"
      using ij(3) addr(1) [OF l(1)] addr(1) [OF l(2)] unat_user_pa [of t D "va + of_nat i"] unat_user_pa [of t D "va + of_nat j"]
      by (metis add_left_cancel fr)
    ultimately have "unat va + i = unat va + j" by (metis mult_div_mod_eq)
    then show "i = j" by simp
  qed
  ultimately show ?thesis unfolding backed_def by blast
qed

lemma not_stored: "(\<And>i. i < n \<Longrightarrow> \<not> P (p i)) \<Longrightarrow> P a \<Longrightarrow> a \<notin> p ` {..<n}"
  by auto

lemma backed_stores:
  fixes t :: "'z pmap_state_scheme"
  assumes bk: "backed t D X va n" and k: "k \<le> n" and c: "cr3 t = page2pa D" "D < 0x100000"
    and rd: "\<And>i m. i < k \<Longrightarrow> (\<And>a. unat a div 4096 \<notin> X \<Longrightarrow> m a = mem t a) \<Longrightarrow> rd i (t\<lparr>mem := m\<rparr>) = Inr (b i)"
  shows "\<exists>m. for_each (\<lambda>i s. bindr (rd i s) (\<lambda>b. vstore (va + of_nat i) b s)) [0..<k] t = Inr (t\<lparr>mem := m\<rparr>) \<and>
    (\<forall>i < n. m (user_pa t D (va + of_nat i)) = (if i < k then b i else mem t (user_pa t D (va + of_nat i)))) \<and>
    (\<forall>a. unat a div 4096 \<notin> X \<longrightarrow> m a = mem t a) \<and> same_tables t (t\<lparr>mem := m\<rparr>) D \<and>
    backed (t\<lparr>mem := m\<rparr>) D X va n \<and> (\<forall>i < n. user_pa (t\<lparr>mem := m\<rparr>) D (va + of_nat i) = user_pa t D (va + of_nat i))"
proof -
  let ?p = "\<lambda>i. user_pa t D (va + of_nat i)"
  have pg: "user_page t D (va + of_nat i)" "unat (?p i) div 4096 \<in> X" "unat (?p i) div 4096 \<notin> insert D (tables t D)"
    if "i < n" for i using bk that unfolding backed_def by blast+
  have inj: "inj_on ?p {..<n}" using bk by (simp add: backed_def)
  have injk: "inj_on ?p {..<k}" using inj by (rule inj_on_subset) (use k in auto)
  have nX: "a \<notin> ?p ` {..<k}" if "unat a div 4096 \<notin> X" for a
    using not_stored [of k "\<lambda>a. unat a div 4096 \<notin> X" ?p a] pg(2) k that by auto
  have pk: "user_page t D (va + of_nat i) \<and> unat (?p i) div 4096 \<notin> insert D (tables t D)" if "i < k" for i
    using pg that k by simp
  have "rd i (t\<lparr>mem := m\<rparr>) = Inr (b i)" if "i < k" "\<And>a. a \<notin> ?p ` {..<k} \<Longrightarrow> m a = mem t a" for i m
    using rd [OF that(1)] that(2) nX by blast
  from vstores [where rd = rd and b = b and va = va, OF c pk injk this] obtain m where
    m: "for_each (\<lambda>i s. bindr (rd i s) (\<lambda>b. vstore (va + of_nat i) b s)) [0..<k] t = Inr (t\<lparr>mem := m\<rparr>)"
      "\<forall>i < k. m (?p i) = b i" "\<forall>a. a \<notin> ?p ` {..<k} \<longrightarrow> m a = mem t a" by blast
  have st: "same_tables t (t\<lparr>mem := m\<rparr>) D"
    unfolding same_tables_def
    using m(3) not_stored [of k "\<lambda>a. unat a div 4096 \<in> insert D (tables t D)" ?p] pk by simp
  note q = same_tablesD [OF st c(2)]
  have same: "user_page (t\<lparr>mem := m\<rparr>) D (va + of_nat i) \<and> user_pa (t\<lparr>mem := m\<rparr>) D (va + of_nat i) = ?p i" if "i < n" for i
  proof -
    have "pdx (va + of_nat i) \<in> slots" using pg(1) [OF that] user_slot by (auto simp: user_page_def)
    then show ?thesis using pg(1) [OF that] q(1) [of "pdx (va + of_nat i)"] q(3) by (simp add: user_page_def user_pa_def)
  qed
  then have "inj_on (\<lambda>i. user_pa (t\<lparr>mem := m\<rparr>) D (va + of_nat i)) {..<n}"
    using inj unfolding inj_on_def by (metis lessThan_iff)
  then have "backed (t\<lparr>mem := m\<rparr>) D X va n" using same pg unfolding backed_def q(4) by simp
  moreover have "m (?p i) = (if i < k then b i else mem t (?p i))" if "i < n" for i
    using m(2,3) that k inj_on_image_mem_iff [OF inj, of i "{..<k}"] by auto
  moreover have "m a = mem t a" if "unat a div 4096 \<notin> X" for a using m(3) nX [OF that] by blast
  ultimately show ?thesis using m(1) st same by blast
qed

lemma image_high:
  assumes "image_safe s D xs binary sz" "j < sz"
  shows "KERNBASE \<le> binary + of_nat j"
proof -
  have b: "KERNBASE \<le> binary" "unat binary + sz < 2 ^ 32" using assms(1) by (simp_all add: image_safe_def)
  then have "unat (of_nat j :: u32) = j" "unat binary + j < 2 ^ 32" using assms(2) by (auto intro!: unat_of_nat_u32)
  then have "unat (binary + of_nat j) = unat binary + j" by (subst unat_add_no_wrap) simp_all
  with b(1) show ?thesis by (simp add: word_le_nat_alt)
qed

lemma image_fields:
  assumes ph: "ph = binary + of_nat k" "k + 32 \<le> sz"
    and w: "\<And>i. i < sz \<Longrightarrow> mem w (kv2p (binary + of_nat i)) = mem s (kv2p (binary + of_nat i))"
  shows "p_va w ph = p_va s ph" "p_offset w ph = p_offset s ph" "p_filesz w ph = p_filesz s ph" "p_memsz w ph = p_memsz s ph"
proof -
  have f: "kload w (ph + of_nat j) = kload s (ph + of_nat j)" if "j + 4 \<le> 32" for j
    using image_word [OF w, where k = "k + j"] ph(2) that by (simp add: ph(1) add.assoc)
  show "p_va w ph = p_va s ph" "p_offset w ph = p_offset s ph" "p_filesz w ph = p_filesz s ph" "p_memsz w ph = p_memsz s ph"
    using f [of 4] f [of 8] f [of 16] f [of 20] by (simp_all add: p_va_def p_offset_def p_filesz_def p_memsz_def)
qed

lemma load_segment_run:
  fixes s :: "'z env_state_scheme"
  assumes ow: "owns s D xs" "unreferenced s xs" and e: "e < length (envs s)" "env_pgdir (envs s ! e) = pgdir_kva D"
    and c: "cr3 s = page2pa D" and img: "image_safe s D xs binary sz"
    and ph: "ph = binary + of_nat k" "k + 32 \<le> sz"
    and seg: "p_va s ph = va" "p_offset s ph = off" "p_filesz s ph = fs" "p_memsz s ph = ms"
    and ok: "unat fs \<le> unat ms" "unat off + unat fs \<le> sz" and u: "user_region va ms"
    and mem: "2 * region_pages va ms \<le> length xs"
    and new: "\<And>v. v \<in> region_addrs va ms \<Longrightarrow> \<not> present (pt_entry s D v)"
  shows "\<exists>u ys. load_segment e binary ph s = Some (Inr u) \<and> grows s u D xs ys (region_pages va ms) (region_addrs va ms) \<and>
    (\<forall>i < unat ms. byte_at u D (va + of_nat i) = (if i < unat fs then mem s (kv2p (binary + of_nat (unat off + i))) else 0))"
proof -
  obtain t ys where t: "region_alloc s e va ms = Some (Inr t)" "grows s t D xs ys (region_pages va ms) (region_addrs va ms)"
    "backed t D (set xs) va (unat ms)"
    using region_grows [OF ow e u mem new] backed_region [OF _ u] by blast
  have wft: "pt_wf t D ys" by (rule ownsD(1) [OF growsD(1) [OF t(2)]])
  have D: "D < 0x100000" using pt_wf_bound [OF wft pt_wfD(4) [OF wft]] by simp
  have ct: "cr3 t = page2pa D" using growsD(6) [OF t(2)] c by (simp add: same_rest_def)
  have kv: "unat (kv2p (binary + of_nat i)) div 4096 \<notin> set xs" if "i < sz" for i
    using img that unfolding image_safe_def by blast
  note it = grows_image(2) [OF t(2) img]
  obtain m1 where m1: "vmemset t va 0 ms = Inr (t\<lparr>mem := m1\<rparr>)" "\<forall>i < unat ms. m1 (user_pa t D (va + of_nat i)) = 0"
    "\<forall>a. unat a div 4096 \<notin> set xs \<longrightarrow> m1 a = mem t a" "same_tables t (t\<lparr>mem := m1\<rparr>) D"
    "backed (t\<lparr>mem := m1\<rparr>) D (set xs) va (unat ms)" "\<forall>i < unat ms. user_pa (t\<lparr>mem := m1\<rparr>) D (va + of_nat i) = user_pa t D (va + of_nat i)"
    using backed_stores [OF t(3) order.refl ct D, of "\<lambda>_ _. Inr 0" "\<lambda>_. 0"] unfolding vmemset_def by auto
  let ?t1 = "t\<lparr>mem := m1\<rparr>" and ?b = "\<lambda>i. mem s (kv2p (binary + of_nat (unat off + i)))"
  have i1: "m1 (kv2p (binary + of_nat i)) = mem s (kv2p (binary + of_nat i))" if "i < sz" for i
    using m1(3) kv [OF that] it [OF that] by simp
  have src: "binary + off + of_nat i = binary + of_nat (unat off + i)" for i by (simp add: add.assoc)
  have rd: "vload (?t1\<lparr>mem := m\<rparr>) (binary + off + of_nat i) = Inr (?b i)"
    if "i < unat fs" "\<And>a. unat a div 4096 \<notin> set xs \<Longrightarrow> m a = mem ?t1 a" for i m
  proof -
    have j: "unat off + i < sz" using that(1) ok(2) by simp
    then show ?thesis
      using that(2) [OF kv [OF j]] i1 [OF j] unfolding src vload_def translate_kernel [OF image_high [OF img j]] by simp
  qed
  have c1: "cr3 ?t1 = page2pa D" using ct by simp
  obtain m2 where m2: "for_each (\<lambda>i s. bindr (vload s (binary + off + of_nat i)) (\<lambda>b. vstore (va + of_nat i) b s)) [0..<unat fs] ?t1 =
      Inr (?t1\<lparr>mem := m2\<rparr>)"
    "\<forall>i < unat ms. m2 (user_pa ?t1 D (va + of_nat i)) = (if i < unat fs then ?b i else mem ?t1 (user_pa ?t1 D (va + of_nat i)))"
    "\<forall>a. unat a div 4096 \<notin> set xs \<longrightarrow> m2 a = mem ?t1 a" "same_tables ?t1 (?t1\<lparr>mem := m2\<rparr>) D"
    "\<forall>i < unat ms. user_pa (?t1\<lparr>mem := m2\<rparr>) D (va + of_nat i) = user_pa ?t1 D (va + of_nat i)"
    using backed_stores [OF m1(5) ok(1) c1 D, of "\<lambda>i s. vload s (binary + off + of_nat i)" ?b] rd by blast
  let ?u = "?t1\<lparr>mem := m2\<rparr>"
  have "vmemcpy ?t1 va (binary + off) fs = Inr ?u"
  proof (cases "fs = 0")
    case False
    then have "0 < unat fs" using unat_gt_0 by blast
    then have "KERNBASE \<le> binary + off" using image_high [OF img, of "unat off"] ok(2) by simp
    moreover have "va < KERNBASE" using u by (simp add: user_region_def word_less_nat_alt)
    ultimately have "\<not> binary + off < va" by (metis leD less_le_trans order.asym)
    then show ?thesis using m2(1) by (simp add: vmemcpy_def del: KERNBASE_def)
  qed (use m2(1) in \<open>simp add: vmemcpy_def\<close>)
  moreover have gr: "grows s ?u D xs ys (region_pages va ms) (region_addrs va ms)"
    using m1(3) m2(3) by (intro grows_store [OF grows_store [OF t(2) m1(4)] m2(4)]) simp_all
  moreover have "byte_at ?u D (va + of_nat i) = (if i < unat fs then ?b i else 0)" if i: "i < unat ms" for i
    using m2(2,5) m1(2,6) i by (simp add: byte_at_pa)
  moreover have "load_segment e binary ph s = Some (vmemcpy ?t1 va (binary + off) fs)"
    unfolding load_segment_def seg t(1) using m1(1) seg
      image_fields [where w = t, OF ph it] image_fields [where w = ?t1 and s = s, OF ph] i1 by simp
  ultimately show ?thesis by auto
qed

section \<open>All segments\<close>

text \<open>A segment: its virtual address, its place in the file, its size there and in memory.\<close>

type_synonym segment = "u32 \<times> u32 \<times> u32 \<times> u32"

definition segment_at :: "'z pmap_state_scheme \<Rightarrow> u32 \<Rightarrow> segment" where
  "segment_at s ph = (p_va s ph, p_offset s ph, p_filesz s ph, p_memsz s ph)"

fun seg_ok :: "nat \<Rightarrow> segment \<Rightarrow> bool" where
  "seg_ok sz (va, off, fs, ms) \<longleftrightarrow> unat fs \<le> unat ms \<and> unat off + unat fs \<le> sz \<and> user_region va ms"

fun seg_addrs :: "segment \<Rightarrow> u32 set" where
  "seg_addrs (va, off, fs, ms) = region_addrs va ms"

fun seg_pages :: "segment \<Rightarrow> nat" where
  "seg_pages (va, off, fs, ms) = region_pages va ms"

text \<open>The memory of the segment is the bytes of the file, and zeros behind them.\<close>

fun loaded :: "(nat \<Rightarrow> u8) \<Rightarrow> 'z pmap_state_scheme \<Rightarrow> nat \<Rightarrow> segment \<Rightarrow> bool" where
  "loaded file' u D (va, off, fs, ms) \<longleftrightarrow>
     (\<forall>i < unat ms. byte_at u D (va + of_nat i) = (if i < unat fs then file' (unat off + i) else 0))"

definition apart :: "segment list \<Rightarrow> bool" where
  "apart = sorted_wrt (\<lambda>a b. seg_addrs a \<inter> seg_addrs b = {})"

lemma seg_addr: "seg_ok sz (va, off, fs, ms) \<Longrightarrow> i < unat ms \<Longrightarrow> va + of_nat i \<in> seg_addrs (va, off, fs, ms)"
  using region_addr(2) [OF user_region_nw] by simp

lemma seg_slot: "seg_ok sz sg \<Longrightarrow> v \<in> seg_addrs sg \<Longrightarrow> pdx v < user_slots \<and> pdx v \<in> slots"
  using user_region_slots [of "fst sg" "snd (snd (snd sg))" v] user_slot [of "pdx v"] by (cases sg) simp

lemma loaded_cong:
  assumes "seg_ok sz sg" "\<And>i. i < sz \<Longrightarrow> f i = g i"
  shows "loaded f u D sg \<longleftrightarrow> loaded g u D sg"
proof -
  obtain va off fs ms where sg: "sg = (va, off, fs, ms)" by (metis prod_cases4)
  then have "f (unat off + i) = g (unat off + i)" if "i < unat fs" for i using assms that by simp
  then show ?thesis by (simp add: sg)
qed

lemma loaded_grows:
  assumes g: "grows t u D xs ys n B" and o: "owns t D xs" and ok: "seg_ok sz sg"
    and pg: "\<And>v. v \<in> seg_addrs sg \<Longrightarrow> user_page t D v" and B: "seg_addrs sg \<inter> B = {}" and l: "loaded f t D sg"
  shows "loaded f u D sg"
proof -
  obtain va off fs ms where sg: "sg = (va, off, fs, ms)" by (metis prod_cases4)
  have "byte_at u D (va + of_nat i) = byte_at t D (va + of_nat i)" if "i < unat ms" for i
  proof -
    have v: "va + of_nat i \<in> seg_addrs sg" using seg_addr ok that unfolding sg by blast
    then show ?thesis using pg [OF v] B by (intro grows_byte [OF g o]) (auto simp: user_page_def allows_def)
  qed
  then show ?thesis using l by (simp add: sg)
qed

lemma load_segments_run:
  fixes s :: "'z env_state_scheme"
  assumes "owns s D xs" "unreferenced s xs" "e < length (envs s)" "env_pgdir (envs s ! e) = pgdir_kva D"
    and "cr3 s = page2pa D" "image_safe s D xs binary sz" "k + 32 * length segs \<le> sz"
    and "\<And>j. j < length segs \<Longrightarrow> segment_at s (binary + of_nat (k + 32 * j)) = segs ! j"
    and "\<And>sg. sg \<in> set segs \<Longrightarrow> seg_ok sz sg" "apart segs"
    and "2 * sum_list (map seg_pages segs) \<le> length xs"
    and "\<And>sg v. sg \<in> set segs \<Longrightarrow> v \<in> seg_addrs sg \<Longrightarrow> \<not> present (pt_entry s D v)"
  shows "\<exists>u ys. load_segments e binary (binary + of_nat (k + 32 * length segs)) (binary + of_nat k) s = Some (Inr u) \<and>
    grows s u D xs ys (sum_list (map seg_pages segs)) (\<Union> (seg_addrs ` set segs)) \<and>
    (\<forall>sg \<in> set segs. loaded (\<lambda>i. mem s (kv2p (binary + of_nat i))) u D sg)"
  using assms
proof (induction segs arbitrary: s xs k)
  case Nil
  then show ?case using grows_refl [of s D xs] by (subst load_segments.simps) (auto intro!: exI [of _ xs])
next
  case (Cons sg segs)
  obtain va off fs ms where sg: "sg = (va, off, fs, ms)" by (metis prod_cases4)
  let ?ph = "binary + of_nat k" and ?img = "\<lambda>i. mem s (kv2p (binary + of_nat i))"
  have f: "p_va s ?ph = va" "p_offset s ?ph = off" "p_filesz s ?ph = fs" "p_memsz s ?ph = ms"
    using Cons.prems(8) [of 0] by (simp_all add: sg segment_at_def)
  have ok: "unat fs \<le> unat ms" "unat off + unat fs \<le> sz" "user_region va ms" "k + 32 \<le> sz"
    using Cons.prems(7) Cons.prems(9) [of sg] by (simp_all add: sg)
  have mm: "2 * region_pages va ms \<le> length xs" using Cons.prems(11) by (simp add: sg)
  have new: "\<not> present (pt_entry s D v)" if "v \<in> region_addrs va ms" for v using Cons.prems(12) [of sg v] that by (simp add: sg)
  obtain t ys where t: "load_segment e binary ?ph s = Some (Inr t)" "grows s t D xs ys (region_pages va ms) (region_addrs va ms)"
    "\<forall>i < unat ms. byte_at t D (va + of_nat i) = (if i < unat fs then ?img (unat off + i) else 0)"
    using load_segment_run [OF Cons.prems(1-6) refl ok(4) f ok(1-3) mm new] by blast
  note g = growsD [OF t(2)]
  have rest: "e < length (envs t)" "env_pgdir (envs t ! e) = pgdir_kva D" "cr3 t = page2pa D"
    using g(6) Cons.prems(3-5) by (simp_all add: env_same_rest) (simp add: same_rest_def)
  note im = grows_image [OF t(2) Cons.prems(6)]
  have sega: "segment_at t (binary + of_nat (k + 32 + 32 * j)) = segs ! j" if "j < length segs" for j
  proof -
    have "k + 32 + 32 * j + 32 \<le> sz" using that Cons.prems(7) by simp
    from image_fields [OF refl this im(2)]
    have "segment_at t (binary + of_nat (k + 32 + 32 * j)) = segment_at s (binary + of_nat (k + 32 * Suc j))"
      by (simp add: segment_at_def add.assoc)
    then show ?thesis using Cons.prems(8) [of "Suc j"] that by simp
  qed
  have dis: "region_addrs va ms \<inter> seg_addrs sg' = {}" if "sg' \<in> set segs" for sg'
    using Cons.prems(10) that by (auto simp: apart_def sg)
  have np: "\<not> present (pt_entry t D v)" if v: "sg' \<in> set segs" "v \<in> seg_addrs sg'" for sg' v
  proof -
    have "pdx v \<in> slots" using seg_slot [OF Cons.prems(9) [of sg'] v(2)] v(1) by simp
    moreover have "v \<notin> region_addrs va ms" using dis [OF v(1)] v(2) by blast
    ultimately show ?thesis using g(8) Cons.prems(12) [of sg' v] v by simp
  qed
  have r: "k + 32 + 32 * length segs \<le> sz" "apart segs" "2 * sum_list (map seg_pages segs) \<le> length ys"
    using Cons.prems(7,10,11) g(4) by (simp_all add: apart_def sg)
  have ok': "seg_ok sz sg'" if "sg' \<in> set segs" for sg' using Cons.prems(9) that by simp
  obtain u zs where u: "load_segments e binary (binary + of_nat (k + 32 + 32 * length segs)) (binary + of_nat (k + 32)) t = Some (Inr u)"
    "grows t u D ys zs (sum_list (map seg_pages segs)) (\<Union> (seg_addrs ` set segs))"
    "\<forall>sg \<in> set segs. loaded (\<lambda>i. mem t (kv2p (binary + of_nat i))) u D sg"
    using Cons.IH [OF g(1,2) rest im(1) r(1) sega ok' r(2,3)] np by blast
  have lt: "?ph < binary + of_nat (k + 32 * length (sg # segs))"
  proof -
    have b: "unat binary + sz < 2 ^ 32" using Cons.prems(6) by (simp add: image_safe_def)
    have "unat (binary + of_nat j) = unat binary + j" if "j \<le> sz" for j
    proof -
      have "unat (of_nat j :: u32) = j" using b that by (intro unat_of_nat_u32) simp
      then show ?thesis using b that by (subst unat_add_no_wrap) simp_all
    qed
    from this [of k] this [of "k + 32 * length (sg # segs)"] show ?thesis
      using Cons.prems(7) by (simp add: word_less_nat_alt del: of_nat_add)
  qed
  have "load_segments e binary (binary + of_nat (k + 32 * length (sg # segs))) ?ph s = Some (Inr u)"
    using lt t(1) u(1) by (subst load_segments.simps) (simp add: add.assoc)
  moreover have "grows s u D xs zs (sum_list (map seg_pages (sg # segs))) (\<Union> (seg_addrs ` set (sg # segs)))"
    using grows_trans [OF t(2) u(2)] by (simp add: sg)
  moreover have "loaded ?img u D sg"
  proof (rule loaded_grows [OF u(2) g(1)])
    show "seg_ok sz sg" using ok by (simp add: sg)
    show "user_page t D v" if "v \<in> seg_addrs sg" for v using that g(10) by (simp add: sg)
    show "seg_addrs sg \<inter> \<Union> (seg_addrs ` set segs) = {}" using dis unfolding sg seg_addrs.simps by blast
    show "loaded ?img t D sg" using t(3) by (simp add: sg)
  qed
  moreover have "loaded ?img u D sg'" if sg': "sg' \<in> set segs" for sg'
    using loaded_cong [where u = u and D = D and f = "\<lambda>i. mem t (kv2p (binary + of_nat i))" and g = ?img, OF Cons.prems(9) [of sg'] im(2)] u(3) sg' by simp
  ultimately show ?case by auto
qed

section \<open>The whole image\<close>

text \<open>An image of \<open>sz\<close> bytes at \<open>binary\<close> with the program headers \<open>segs\<close>, which fit into the file and
  below \<open>UTOP\<close> and share no page (the comment of \<open>load_icode\<close> allows to assume this).\<close>

definition elf_format :: "'z pmap_state_scheme \<Rightarrow> u32 \<Rightarrow> nat \<Rightarrow> segment list \<Rightarrow> bool" where
  "elf_format s binary sz segs \<longleftrightarrow> 48 \<le> sz \<and> e_magic s binary = ELF_MAGIC \<and>
     unat (e_phoff s binary) + 32 * length segs \<le> sz \<and> unat (e_phnum s binary) = length segs \<and>
     (\<forall>j < length segs. segment_at s (binary + of_nat (unat (e_phoff s binary) + 32 * j)) = segs ! j) \<and>
     (\<forall>sg \<in> set segs. seg_ok sz sg) \<and> apart segs"

definition elf_image :: "'z pmap_state_scheme \<Rightarrow> nat \<Rightarrow> nat list \<Rightarrow> u32 \<Rightarrow> nat \<Rightarrow> segment list \<Rightarrow> bool" where
  "elf_image s D xs binary sz segs \<longleftrightarrow> image_safe s D xs binary sz \<and> elf_format s binary sz segs"

definition stack_addrs :: "u32 set" where
  "stack_addrs = region_addrs (USTACKTOP - PGSIZE) PGSIZE"

lemma stack_region: "user_region (USTACKTOP - PGSIZE) PGSIZE" "region_pages (USTACKTOP - PGSIZE) PGSIZE = 1"
  by (simp_all add: user_region_def region_pages_def)

text \<open>Fields that the address space does not depend on.\<close>

lemma grows_cong:
  assumes "mem s' = mem s" "pages s' = pages s" "npages s' = npages s" "page_free_list s' = page_free_list s"
  shows "owns s' D xs = owns s D xs" "unreferenced s' xs = unreferenced s xs" "tables s' D = tables s D"
    "pt_entry s' D v = pt_entry s D v" "user_page s' D v = user_page s D v" "byte_at s' D v = byte_at s D v"
    "image_safe s' D xs b n = image_safe s D xs b n" "kload s' a = kload s a" "segment_at s' ph = segment_at s ph"
    "loaded f s' D sg = loaded f s D sg"
proof -
  note o = owns_cong [OF assms]
  have en: "entry s' f i = entry s f i" for f i using assms(1) by (simp add: entry_def)
  show "owns s' D xs = owns s D xs" "tables s' D = tables s D" by (rule o)+
  show pt: "pt_entry s' D v = pt_entry s D v" for v by (rule pt_entry_mem [OF assms(1)])
  show "user_page s' D v = user_page s D v" by (simp add: user_page_def pt en)
  show b: "byte_at s' D v = byte_at s D v" for v by (simp add: byte_at_def pt assms(1))
  show "unreferenced s' xs = unreferenced s xs" by (simp add: unreferenced_def o)
  show "image_safe s' D xs b n = image_safe s D xs b n" by (simp add: image_safe_def o)
  show k: "kload s' a = kload s a" for a by (simp add: kload_def assms(1))
  show "segment_at s' ph = segment_at s ph"
    by (simp add: segment_at_def p_va_def p_offset_def p_filesz_def p_memsz_def k)
  show "loaded f s' D sg = loaded f s D sg" by (cases sg) (simp add: b)
qed

lemma load_icode_run:
  fixes s :: "'z env_state_scheme"
  assumes ow: "owns s D xs" "unreferenced s xs" and e: "e < length (envs s)" "env_pgdir (envs s ! e) = pgdir_kva D"
    and k: "KERNBASE \<le> kern_pgdir s" and img: "elf_image s D xs binary sz segs"
    and m: "2 * (sum_list (map seg_pages segs) + 1) \<le> length xs"
    and new: "\<And>v. v < UTOP \<Longrightarrow> \<not> present (pt_entry s D v)"
    and st: "\<And>sg. sg \<in> set segs \<Longrightarrow> seg_addrs sg \<inter> stack_addrs = {}"
  shows "\<exists>t ys. load_icode s e binary = Some (Inr t) \<and> owns t D ys \<and> unreferenced t ys \<and> set ys \<subseteq> set xs \<and>
    (\<forall>sg \<in> set segs. loaded (\<lambda>i. mem s (kv2p (binary + of_nat i))) t D sg \<and> (\<forall>v \<in> seg_addrs sg. user_page t D v)) \<and>
    (\<forall>v \<in> stack_addrs. user_page t D v) \<and>
    (\<forall>v. pdx v \<in> slots \<longrightarrow> v \<notin> stack_addrs \<longrightarrow> v \<notin> \<Union> (seg_addrs ` set segs) \<longrightarrow> pt_entry t D v = pt_entry s D v) \<and>
    same_rest (s\<lparr>envs := (envs s)[e := (envs s ! e)\<lparr>env_tf := (env_tf (envs s ! e))\<lparr>tf_eip := e_entry s binary\<rparr>\<rparr>],
      cr3 := kern_pgdir s - KERNBASE\<rparr>) t \<and>
    (\<forall>d. user_slots \<le> d \<longrightarrow> d < 1024 \<longrightarrow> entry t D d = entry s D d) \<and>
    (\<forall>v. user_page t D v \<longrightarrow> frame_of (pt_entry t D v) \<in> set xs)"
proof -
  have wf: "pt_wf s D xs" by (rule ownsD(1) [OF ow(1)])
  have Db: "D < 0x10000" "D < 0x100000" using pt_wf_bound [OF wf pt_wfD(4) [OF wf]] by simp_all
  have d: "PADDR (pgdir_kva D) = Inr (page2pa D)" using pgdir_kva_ge [OF Db(1)] by (simp add: PADDR_def pgdir_kva_def)
  let ?s = "s\<lparr>cr3 := page2pa D\<rparr>"
  have same: "mem ?s = mem s" "pages ?s = pages s" "npages ?s = npages s" "page_free_list ?s = page_free_list s" by simp_all
  note cs = grows_cong [OF same]
  have i: "image_safe s D xs binary sz" "48 \<le> sz" "e_magic s binary = ELF_MAGIC"
    "unat (e_phoff s binary) + 32 * length segs \<le> sz" "unat (e_phnum s binary) = length segs"
    "\<forall>j < length segs. segment_at s (binary + of_nat (unat (e_phoff s binary) + 32 * j)) = segs ! j"
    "\<forall>sg \<in> set segs. seg_ok sz sg" "apart segs" using img unfolding elf_image_def elf_format_def by blast+
  have below: "v < UTOP" if "pdx v < user_slots" for v
    using that by (simp add: pdx_def unat_PDX user_slots_def word_less_nat_alt)
  have nw: "\<not> present (pt_entry ?s D v)" if "sg \<in> set segs" "v \<in> seg_addrs sg" for sg v
    using that new below seg_slot i(7) unfolding cs by blast
  have mm: "2 * sum_list (map seg_pages segs) \<le> length xs" using m by simp
  obtain u ys where u: "load_segments e binary (binary + of_nat (unat (e_phoff s binary) + 32 * length segs))
        (binary + of_nat (unat (e_phoff s binary))) ?s = Some (Inr u)"
    "grows ?s u D xs ys (sum_list (map seg_pages segs)) (\<Union> (seg_addrs ` set segs))"
    "\<forall>sg \<in> set segs. loaded (\<lambda>i. mem s (kv2p (binary + of_nat i))) u D sg"
    using load_segments_run [of ?s D xs e binary sz "unat (e_phoff s binary)" segs] ow e i(1,4,6-8) mm nw
    unfolding cs by auto
  note g = growsD [OF u(2)]
  have ru: "envs u = envs s" "kern_pgdir u = kern_pgdir s" using g(6) by (simp_all add: env_same_rest) (simp add: same_rest_def)
  have img': "image_safe ?s D xs binary sz" using i(1) unfolding cs .
  note im = grows_image [OF u(2) img']
  have "kload u (binary + of_nat 24) = kload s (binary + of_nat 24)"
    using i(2) im(2) by (intro image_word [where sz = sz]) simp_all
  then have en: "e_entry u binary = e_entry s binary" by (simp add: e_entry_def)
  let ?tf = "\<lambda>v. v\<lparr>env_tf := (env_tf v)\<lparr>tf_eip := e_entry s binary\<rparr>\<rparr>"
  define w where "w = u\<lparr>envs := (envs s)[e := ?tf (envs s ! e)], cr3 := kern_pgdir s - KERNBASE\<rparr>"
  have samew: "mem w = mem u" "pages w = pages u" "npages w = npages u" "page_free_list w = page_free_list u" by (simp_all add: w_def)
  note cw = grows_cong [OF samew]
  have "owns w D ys" "unreferenced w ys" "e < length (envs w)" "env_pgdir (envs w ! e) = pgdir_kva D"
    "2 * region_pages (USTACKTOP - PGSIZE) PGSIZE \<le> length ys"
    using g(1,2,4) m e unfolding cw stack_region(2) by (simp_all add: w_def)
  moreover have "\<not> present (pt_entry w D v)" if v: "v \<in> region_addrs (USTACKTOP - PGSIZE) PGSIZE" for v
  proof -
    have p: "pdx v < user_slots" by (rule user_region_slots [OF stack_region(1) v])
    have "v \<notin> \<Union> (seg_addrs ` set segs)" using st v unfolding stack_addrs_def by blast
    then have "pt_entry u D v = pt_entry s D v" using g(8) user_slot [OF p] unfolding cs by blast
    then show ?thesis unfolding cw using new below [OF p] by simp
  qed
  ultimately obtain t zs where t: "region_alloc w e (USTACKTOP - PGSIZE) PGSIZE = Some (Inr t)"
    "grows w t D ys zs (region_pages (USTACKTOP - PGSIZE) PGSIZE) stack_addrs"
    using region_grows [of w D ys e "USTACKTOP - PGSIZE" PGSIZE] stack_region(1) unfolding stack_addrs_def by blast
  note h = growsD [OF t(2)]
  have eph: "binary + e_phoff s binary + 32 * ucast (e_phnum s binary) = binary + of_nat (unat (e_phoff s binary) + 32 * length segs)"
    by (simp add: i(5) [symmetric] add.assoc)
  have k': "PADDR (kern_pgdir s) = Inr (kern_pgdir s - KERNBASE)" using k by (simp add: PADDR_def)
  have "load_icode s e binary = region_alloc w e (USTACKTOP - PGSIZE) PGSIZE"
    using e i(3) u(1) unfolding load_icode_def by (simp add: Let_def d eph upd_env_def ru en k' w_def)
  then have r: "load_icode s e binary = Some (Inr t)" using t(1) by simp
  have sg: "loaded (\<lambda>i. mem s (kv2p (binary + of_nat i))) t D sg \<and> (\<forall>v \<in> seg_addrs sg. user_page t D v)"
    if sg: "sg \<in> set segs" for sg
  proof -
    have p: "user_page w D v" if "v \<in> seg_addrs sg" for v using g(10) that sg unfolding cw by blast
    have "seg_ok sz sg" "loaded (\<lambda>i. mem s (kv2p (binary + of_nat i))) w D sg" using i(7) u(3) sg unfolding cw by blast+
    then show ?thesis
      using loaded_grows [OF t(2) _ _ p st [OF sg]] g(1) grows_page [OF t(2) p] unfolding cw by blast
  qed
  have "same_rest (s\<lparr>envs := (envs s)[e := ?tf (envs s ! e)], cr3 := kern_pgdir s - KERNBASE\<rparr>) w"
    using g(6) unfolding w_def by (cases s; cases u) (simp add: same_rest_def)
  from same_rest_trans [OF this h(6)]
  have "same_rest (s\<lparr>envs := (envs s)[e := ?tf (envs s ! e)], cr3 := kern_pgdir s - KERNBASE\<rparr>) t" .
  moreover have "pt_entry t D v = pt_entry s D v"
    if "pdx v \<in> slots" "v \<notin> stack_addrs" "v \<notin> \<Union> (seg_addrs ` set segs)" for v
    using h(8) [OF that(1,2)] g(8) [OF that(1,3)] unfolding cw cs by simp
  moreover have "set zs \<subseteq> set xs" using h(3) g(3) by blast
  moreover have "entry t D d = entry s D d" if d: "user_slots \<le> d" "d < 1024" for d
    using g(9) [OF d(2)] h(9) [OF d(2)] d(1) by (simp add: entry_def samew)
  moreover have "frame_of (pt_entry t D v) \<in> set xs" if v: "user_page t D v" for v
  proof -
    have p: "pdx v \<in> slots" "v < UTOP" using v user_slot below by (auto simp: user_page_def)
    consider "v \<in> stack_addrs" | "v \<notin> stack_addrs" "v \<in> \<Union> (seg_addrs ` set segs)"
      | "v \<notin> stack_addrs" "v \<notin> \<Union> (seg_addrs ` set segs)" by blast
    then show ?thesis
    proof cases
      case 1
      then show ?thesis using h(11) [of v] g(3) by blast
    next
      case 2
      then show ?thesis using h(8) [OF p(1)] g(11) [of v] unfolding cw by simp
    next
      case 3
      then have "pt_entry t D v = pt_entry s D v" using h(8) [OF p(1)] g(8) [OF p(1)] unfolding cw cs by simp
      then show ?thesis using v new [OF p(2)] by (simp add: user_page_def allows_def)
    qed
  qed
  ultimately show ?thesis using r h(1,2,10) sg by blast
qed


section \<open>A machine for the witnesses\<close>

text \<open>An image of 88 bytes in page 76: one segment of 4 bytes, 8 in memory, at \<open>0x800020\<close>.\<close>

definition demo_elf :: "u32 list" where
  "demo_elf = [ELF_MAGIC, 0, 0, 0, 0, 0, 0x800020, 52, 0, 0, 0, 1, 0, 1, 84, 0x800020, 0, 4, 8, 0, 0, 0x44434241]"

definition loading_machine :: env_state where
  "loading_machine = boot_machine\<lparr>mem := words_at 76 demo_elf (mem boot_machine), envs := [env_zero\<lparr>env_pgdir := pgdir_kva 75\<rparr>]\<rparr>"

lemma loading_entry:
  assumes "g < 0x100000" "j < 1024"
  shows "entry loading_machine g j = (if g = 76 \<and> j < 22 then demo_elf ! j else entry boot_machine g j)"
proof -
  have "length demo_elf = 22" by (simp add: demo_elf_def)
  then show ?thesis using words_at_entry [of 76 g j demo_elf "mem boot_machine"] assms
    by (auto simp: entry_def loading_machine_def)
qed

lemma loading_tables: "d \<in> slots \<Longrightarrow> table_at loading_machine 75 d = None"
proof -
  assume d: "d \<in> slots"
  have "fresh_pgdir boot_machine 75" by (rule boot_machine_wf)
  then have "entry boot_machine 75 d = 0" using d by (auto simp: fresh_pgdir_def slots_957)
  then show "table_at loading_machine 75 d = None" using d by (simp add: table_at_def loading_entry slots_less)
qed

lemma loading_owns: "owns loading_machine 75 (rev [0..<70])" "unreferenced loading_machine (rev [0..<70])"
proof -
  have wf: "pt_wf boot_machine 75 (rev [0..<70])" by (rule boot_machine_wf)
  have l: "page_link loading_machine = page_link boot_machine" by (simp add: page_link_def loading_machine_def fun_eq_iff)
  have same: "pages loading_machine = pages boot_machine" "npages loading_machine = npages boot_machine"
    "page_free_list loading_machine = page_free_list boot_machine" by (simp_all add: loading_machine_def)
  have "pt_wf loading_machine 75 (rev [0..<70])"
    using pt_wfD [OF wf] pt_wf_def [of boot_machine 75 "rev [0..<70]"] wf loading_tables
    unfolding pt_wf_def pages_wf_def free_pages_def page_cap_def same l by simp
  moreover have pte: "pte loading_machine 75 d t = 0" if "d < user_slots" for d t
    using loading_tables user_slot [OF that] by (simp add: pte_def)
  moreover have "mappings loading_machine 75 g = {}" for g by (auto simp: mappings_def pte)
  then have "maps loading_machine 75 g = 0" for g by (simp add: maps_def)
  ultimately show "owns loading_machine 75 (rev [0..<70])"
    using loading_tables user_slot by (simp add: owns_def)
  show "unreferenced loading_machine (rev [0..<70])"
    by (simp add: unreferenced_def refs_def loading_machine_def boot_machine_def del: upt_Suc)
qed

lemma loading_word:
  assumes "j < 22" "k = 4 * j"
  shows "kload loading_machine (0xF004C000 + of_nat k) = demo_elf ! j"
proof -
  have "(0xF004C000 :: u32) + of_nat k = entry_pa 76 j + KERNBASE" using assms(2) by (simp add: entry_pa_def)
  then have "kload loading_machine (0xF004C000 + of_nat k) = entry loading_machine 76 j" by (simp only: kload_entry)
  then show ?thesis using loading_entry [of 76 j] assms(1) by simp
qed

lemma demo_elf_format:
  assumes "\<And>j. j < 22 \<Longrightarrow> kload s (b + of_nat (4 * j)) = demo_elf ! j"
  shows "elf_format s b 88 [(0x800020, 84, 4, 8)]" "e_entry s b = 0x800020"
proof -
  have w: "kload s b = ELF_MAGIC" "kload s (b + 28) = 52" "kload s (b + 44) = 1" "kload s (b + 56) = 84"
    "kload s (b + 60) = 0x800020" "kload s (b + 68) = 4" "kload s (b + 72) = 8" "kload s (b + 24) = 0x800020"
    using assms [of 0] assms [of 7] assms [of 11] assms [of 14] assms [of 15] assms [of 17] assms [of 18] assms [of 6]
    by (simp_all add: demo_elf_def)
  have "segment_at s (b + 52) = (0x800020, 84, 4, 8)"
    using w(4-7) by (simp add: segment_at_def p_va_def p_offset_def p_filesz_def p_memsz_def add.commute [of b])
  then show "elf_format s b 88 [(0x800020, 84, 4, 8)]"
    using w(1-3) by (simp add: elf_format_def e_magic_def e_phoff_def e_phnum_def apart_def user_region_def)
  show "e_entry s b = 0x800020" using w(8) by (simp add: e_entry_def)
qed

lemma loading_image: "elf_image loading_machine 75 (rev [0..<70]) 0xF004C000 88 [(0x800020, 84, 4, 8)]"
  "e_entry loading_machine 0xF004C000 = 0x800020"
proof -
  have "tables loading_machine 75 = {}" using loading_tables by (auto simp: tables_def)
  moreover have "unat (kv2p (0xF004C000 + of_nat i)) div 4096 = 76" if "i < 88" for i
  proof -
    have "kv2p (0xF004C000 + of_nat i) = of_nat (311296 + i)" by (simp add: kv2p_def)
    moreover have "unat (of_nat (311296 + i) :: u32) = 311296 + i" using that by (intro unat_of_nat_u32) simp
    ultimately show ?thesis using that by simp
  qed
  ultimately have "image_safe loading_machine 75 (rev [0..<70]) 0xF004C000 88" by (auto simp: image_safe_def)
  moreover have w: "kload loading_machine (0xF004C000 + of_nat (4 * j)) = demo_elf ! j" if "j < 22" for j
    using loading_word [OF that refl] .
  note f = demo_elf_format [OF w]
  ultimately show "elf_image loading_machine 75 (rev [0..<70]) 0xF004C000 88 [(0x800020, 84, 4, 8)]"
    "e_entry loading_machine 0xF004C000 = 0x800020" using f by (simp_all add: elf_image_def)
qed


end
