(* ===== verification/User_Steps.thy ===== *)
theory User_Steps
  imports User_Mode Load_Icode
begin

text \<open>
  What a program can do, whatever its code: it computes in its registers, loads and stores through
  its page directory, and executes \<open>int\<close> instructions. \<open>user_step\<close> has one rule for each, and holds
  when the program goes on afterwards; a program is any sequence of such steps.

  The results are about all of them: the kernel's tables stay sound, the processor stays in user
  mode, and nothing changes but the pages the environment may write, its own saved frame and the
  console.
\<close>

section \<open>Steps\<close>

inductive user_step :: "u32 \<Rightarrow> 'z kernel_state_scheme \<Rightarrow> 'z kernel_state_scheme \<Rightarrow> bool" for ka where
  Compute: "tf_cs f AND 3 = 3 \<Longrightarrow> user_step ka s (s\<lparr>stack_tf := f\<rparr>)"
| Store: "user_store ka va b s = Some (Inr t) \<Longrightarrow> user_step ka s t"
| Load: "user_load ka va s = Some (Inr (b, t)) \<Longrightarrow> user_step ka s t"
| Interrupt: "software_int ka n s = Some (Inr t) \<Longrightarrow> user_step ka s t"

inductive_cases user_stepE: "user_step ka s t"

section \<open>The pages a program may write\<close>

definition user_frames :: "'z pmap_state_scheme \<Rightarrow> nat \<Rightarrow> nat set" where
  "user_frames s D = {frame_of (pt_entry s D v) |v. user_page s D v}"

text \<open>\<open>sandbox s D xs\<close>: the user half of directory \<open>D\<close> is sound in a state with the free list \<open>xs\<close>,
  the slot at \<open>UVPT\<close> maps nothing but the directory itself, and above \<open>UTOP\<close> user code may write
  nowhere.\<close>

definition sandbox :: "'z pmap_state_scheme \<Rightarrow> nat \<Rightarrow> nat list \<Rightarrow> bool" where
  "sandbox s D xs \<longleftrightarrow> owns s D xs \<and> table_at s D (pdx UVPT) \<in> {None, Some D} \<and>
     (\<forall>va. user_slots \<le> pdx va \<longrightarrow> hw_translate (mem s) (page2pa D) True True va = None)"

lemma sandbox_bound: "sandbox s D xs \<Longrightarrow> D < 0x100000"
  using pt_wf_bound [OF _ pt_wfD(4)] ownsD(1) unfolding sandbox_def by blast

lemma user_frames_private:
  assumes "owns s D xs" "f \<in> user_frames s D"
  shows "f < length (pages s)" "f \<notin> set xs" "f \<notin> insert D (tables s D)"
proof -
  obtain v where v: "f = frame_of (pt_entry s D v)" "user_page s D v" using assms(2) by (auto simp: user_frames_def)
  have "pdx v < user_slots" "present (pte s D (pdx v) (ptx v))"
    using v(2) by (simp_all add: user_page_def allows_def pt_entry_pte)
  from ownsD(4) [OF assms(1) this(1) ptx_less this(2)] v(1)
  show "f < length (pages s)" "f \<notin> set xs" "f \<notin> insert D (tables s D)" by (simp_all add: pt_entry_pte)
qed

text \<open>Where a store of the program lands.\<close>

lemma store_lands:
  assumes "sandbox s D xs" "hw_translate (mem s) (page2pa D) True True va = Some pa"
  shows "user_page s D va" "pa = user_pa s D va" "unat pa div 4096 \<in> user_frames s D"
proof -
  note D = sandbox_bound [OF assms(1)]
  have lo: "pdx va < user_slots" using assms by (fastforce simp: sandbox_def not_less [symmetric])
  have a: "allows True True (entry s D (pdx va))" "allows True True (entry s (frame_of (entry s D (pdx va))) (ptx va))"
    "pa = PTE_ADDR (entry s (frame_of (entry s D (pdx va))) (ptx va)) OR PGOFF va"
    using assms(2) unfolding hw_translate_eq [OF D] by (simp_all split: if_splits)
  then have e: "pt_entry s D va = entry s (frame_of (entry s D (pdx va))) (ptx va)"
    by (simp add: pt_entry_def table_at_def allows_def)
  show u: "user_page s D va" using lo a(1,2) by (simp add: user_page_def e)
  show p: "pa = user_pa s D va" using a(3) by (simp add: user_pa_def e)
  have "unat pa div 4096 = frame_of (pt_entry s D va)" unfolding p unat_user_pa by simp
  with u show "unat pa div 4096 \<in> user_frames s D" by (auto simp: user_frames_def)
qed

section \<open>Memory that differs in such pages only\<close>

definition outside_same :: "nat set \<Rightarrow> memory \<Rightarrow> memory \<Rightarrow> bool" where
  "outside_same F m m' \<longleftrightarrow> (\<forall>a. unat a div 4096 \<notin> F \<longrightarrow> m' a = m a)"

lemma outside_same_refl: "outside_same F m m"
  by (simp add: outside_same_def)

lemma outside_same_trans: "outside_same F m m' \<Longrightarrow> outside_same F m' m'' \<Longrightarrow> outside_same F m m''"
  by (simp add: outside_same_def)

lemma outside_same_upd: "unat p div 4096 \<in> F \<Longrightarrow> outside_same F m (m(p := b))"
  by (auto simp: outside_same_def)

text \<open>The directory and its tables are not among these pages, so every address is translated as before.\<close>

lemma translation_kept:
  assumes box: "sandbox s D xs" and m: "outside_same (user_frames s D) (mem s) (mem t)"
  shows "hw_translate (mem t) (page2pa D) = hw_translate (mem s) (page2pa D)" "same_tables s t D"
proof -
  note D = sandbox_bound [OF box]
  have o: "owns s D xs" and vpt: "table_at s D (pdx UVPT) \<in> {None, Some D}" using box by (simp_all add: sandbox_def)
  have f: "f \<notin> user_frames s D" if "f \<in> insert D (tables s D)" for f
    using user_frames_private(3) [OF o] that by blast
  show st: "same_tables s t D"
    unfolding same_tables_def using m f unfolding outside_same_def by blast
  have d: "entry t D (pdx va) = entry s D (pdx va)" for va by (rule same_tablesD(1) [OF st D]) simp
  have "entry t (frame_of (entry s D (pdx va))) (ptx va) = entry s (frame_of (entry s D (pdx va))) (ptx va)"
    if p: "present (entry s D (pdx va))" for va
  proof (rule entry_frame)
    have ta: "table_at s D (pdx va) = Some (frame_of (entry s D (pdx va)))" using p by (simp add: table_at_def)
    have "frame_of (entry s D (pdx va)) \<in> insert D (tables s D)"
    proof (cases "pdx va \<in> slots")
      case True
      then show ?thesis using ta by (auto simp: tables_def)
    next
      case False
      then have "pdx va = pdx UVPT" using pdx_less [of va] by (simp add: slots_def pdx_def)
      then show ?thesis using vpt ta by simp
    qed
    then show "unat a div 4096 = frame_of (entry s D (pdx va)) \<Longrightarrow> mem t a = mem s a" for a
      using st unfolding same_tables_def by metis
  qed (simp_all add: frame_of_less)
  then show "hw_translate (mem t) (page2pa D) = hw_translate (mem s) (page2pa D)"
    by (intro ext) (auto simp: hw_translate_eq [OF D] d allows_def)
qed

lemma sandbox_kept:
  fixes s t :: "'z pmap_state_scheme"
  assumes box: "sandbox s D xs" and m: "outside_same (user_frames s D) (mem s) (mem t)"
    and same: "pages t = pages s" "npages t = npages s" "page_free_list t = page_free_list s"
  shows "sandbox t D xs" "user_frames t D = user_frames s D" "tables_ok s D \<Longrightarrow> tables_ok t D"
proof -
  note tr = translation_kept [OF box m]
  note q = same_tablesD [OF tr(2) sandbox_bound [OF box]]
  have o: "owns s D xs" using box by (simp add: sandbox_def)
  show "sandbox t D xs"
    using box owns_tables [OF o tr(2) same] by (simp add: sandbox_def tr(1) q(2))
  show "tables_ok s D \<Longrightarrow> tables_ok t D" unfolding tables_ok_def pages_wf_def same using q(2) by metis
  have "user_page t D v = user_page s D v \<and> (user_page s D v \<longrightarrow> pt_entry t D v = pt_entry s D v)" for v
    using user_slot [of "pdx v"] q(1) [of "pdx v"] q(3) [of v] by (auto simp: user_page_def)
  then show "user_frames t D = user_frames s D" by (intro set_eqI) (simp add: user_frames_def, metis)
qed

section \<open>What a step leaves\<close>

text \<open>Only the saved frame of environment \<open>c\<close>, the console, the frame in the processor and the memory
  of the pages \<open>F\<close> may differ.\<close>

definition touches :: "nat \<Rightarrow> nat set \<Rightarrow> 'z kernel_state_scheme \<Rightarrow> 'z kernel_state_scheme \<Rightarrow> bool" where
  "touches c F s t \<longleftrightarrow> (\<exists>m e k d l f. outside_same F (mem s) m \<and> tf_cs f AND 3 = 3 \<and>
     t = s\<lparr>mem := m, envs := (envs s)[c := (envs s ! c)\<lparr>env_tf := e\<rparr>], console := k, dev := d, last_tf := l, stack_tf := f\<rparr>)"

lemma touches_trans:
  assumes "touches c F s t" "touches c F t u"
  shows "touches c F s u"
proof -
  obtain m e k d l f where t: "outside_same F (mem s) m"
    "t = s\<lparr>mem := m, envs := (envs s)[c := (envs s ! c)\<lparr>env_tf := e\<rparr>], console := k, dev := d, last_tf := l, stack_tf := f\<rparr>"
    using assms(1) by (auto simp: touches_def)
  obtain m' e' k' d' l' f' where u: "outside_same F (mem t) m'" "tf_cs f' AND 3 = 3"
    "u = t\<lparr>mem := m', envs := (envs t)[c := (envs t ! c)\<lparr>env_tf := e'\<rparr>], console := k', dev := d', last_tf := l', stack_tf := f'\<rparr>"
    using assms(2) by (auto simp: touches_def)
  have "outside_same F (mem s) m'" by (rule outside_same_trans [OF t(1)]) (use u(1) t(2) in simp)
  moreover have "u = s\<lparr>mem := m', envs := (envs s)[c := (envs s ! c)\<lparr>env_tf := e'\<rparr>], console := k', dev := d', last_tf := l', stack_tf := f'\<rparr>"
    by (cases "c < length (envs s)") (simp_all add: u(3) t(2) list_update_beyond)
  ultimately show ?thesis using u(2) unfolding touches_def by blast
qed

lemma touches_same_user: "same_user c s t \<Longrightarrow> tf_cs (stack_tf s) AND 3 = 3 \<Longrightarrow> touches c F s t"
  unfolding same_user_def touches_def
proof (elim conjE exE)
  fix tf m d l f
  assume a: "tf_cs (stack_tf s) AND 3 = 3" "tf_cs f = tf_cs (stack_tf s)"
    "t = s\<lparr>envs := (envs s)[c := (envs s ! c)\<lparr>env_tf := tf\<rparr>], console := m, dev := d, last_tf := l, stack_tf := f\<rparr>"
  show "\<exists>m e k d l f. outside_same F (mem s) m \<and> tf_cs f AND 3 = 3 \<and>
    t = s\<lparr>mem := m, envs := (envs s)[c := (envs s ! c)\<lparr>env_tf := e\<rparr>], console := k, dev := d, last_tf := l, stack_tf := f\<rparr>"
    by (intro exI [of _ "mem s"] exI [of _ tf] exI [of _ m] exI [of _ d] exI [of _ l] exI [of _ f])
      (simp add: a outside_same_refl)
qed

lemma nth_self_update: "xs[c := g (xs ! c)] ! i = (if i = c \<and> c < length xs then g (xs ! c) else xs ! i)"
  by (cases "c < length xs") (auto simp: list_update_beyond)

lemma touchesD:
  assumes "touches c F s t"
  shows "outside_same F (mem s) (mem t)" "pages t = pages s" "npages t = npages s" "page_free_list t = page_free_list s"
    "kern_pgdir t = kern_pgdir s" "cr3 t = cr3 s" "curenv t = curenv s" "cpu_tables t = cpu_tables s"
    "eflags t = eflags s" "tf_cs (stack_tf t) AND 3 = 3" "length (envs t) = length (envs s)"
    "env_id (envs t ! i) = env_id (envs s ! i)" "env_status (envs t ! i) = env_status (envs s ! i)"
    "env_pgdir (envs t ! i) = env_pgdir (envs s ! i)"
  using assms unfolding touches_def by (auto simp: nth_self_update)

text \<open>A running program in its sandbox is still one after such a change.\<close>

lemma touches_runs:
  assumes u: "user_runs s c D" and box: "sandbox s D xs" and t: "touches c (user_frames s D) s t"
  shows "user_runs t c D" "sandbox t D xs" "user_frames t D = user_frames s D"
proof -
  note s = touchesD [OF t]
  note k = sandbox_kept [OF box s(1-4)]
  show "sandbox t D xs" "user_frames t D = user_frames s D" by (rule k)+
  have "tables_ok t D" using u by (intro k(3)) (simp add: user_runs_def caller_def)
  moreover have "live t i = live s i" for i by (simp add: live_def s)
  moreover from this have "ids_wf t = ids_wf s" by (simp add: ids_wf_def s)
  ultimately show "user_runs t c D" using u by (simp add: user_runs_def caller_def user_trap_def s)
qed

section \<open>Every step\<close>

text \<open>An interrupt a program comes back from is a system call.\<close>

lemma interrupt_returns:
  assumes "user_runs s c D" "interrupt ka n err s = Some (Inr t)"
  shows "n = of_nat T_SYSCALL" "same_user c s t"
proof -
  let ?s = "s\<lparr>stack_tf := (stack_tf s)\<lparr>tf_trapno := n, tf_err := err\<rparr>\<rparr>"
  have u: "curenv s = Some c" "c < length (envs s)" "tf_cs (stack_tf s) AND 3 = 3"
    using assms(1) by (simp_all add: user_runs_def user_trap_def)
  obtain tf v where r: "trap ?s ka = Some (Inr (tf, v))" "t = v\<lparr>stack_tf := tf\<rparr>"
    using assms(2) by (auto simp: interrupt_def bindo_eq_Inr)
  have "tf_cs (stack_tf ?s) AND 3 = 3" using u(3) by simp
  from trap_returns [OF this r(1)] obtain r where k: "n = of_nat T_SYSCALL" "user_kept ?s c tf v"
    "tf = (stack_tf ?s)\<lparr>tf_regs := (tf_regs (stack_tf ?s))\<lparr>reg_eax := r\<rparr>\<rparr>" using u(1) by auto
  show "n = of_nat T_SYSCALL" by (rule k(1))
  obtain m d where v: "v = ?s\<lparr>envs := (envs s)[c := (envs s ! c)\<lparr>env_tf := tf\<rparr>], console := m, dev := d, last_tf := Some (Env_tf c)\<rparr>"
    using k(2) by (auto simp: user_kept_def)
  have "t = s\<lparr>envs := (envs s)[c := (envs s ! c)\<lparr>env_tf := tf\<rparr>], console := m, dev := d, last_tf := Some (Env_tf c), stack_tf := tf\<rparr>"
    by (simp add: r(2) v)
  moreover have "tf_cs tf = tf_cs (stack_tf s)" by (simp add: k(3))
  ultimately show "same_user c s t" using u(2) unfolding same_user_def by blast
qed

lemma user_runs_cr2: "user_runs s c D \<Longrightarrow> user_runs (s\<lparr>cr2 := va\<rparr>) c D"
proof -
  have "table_at (s\<lparr>cr2 := va\<rparr>) D d = table_at s D d" for d by (rule table_at_mem) simp
  then have "tables_ok (s\<lparr>cr2 := va\<rparr>) D = tables_ok s D" by (simp add: tables_ok_def pages_wf_def)
  then show "user_runs s c D \<Longrightarrow> user_runs (s\<lparr>cr2 := va\<rparr>) c D"
    by (simp add: user_runs_def caller_def user_trap_def ids_wf_def live_def)
qed

lemma user_fault_stops: "user_runs s c D \<Longrightarrow> user_fault ka w va s \<noteq> Some (Inr t)"
  using interrupt_returns(1) [OF user_runs_cr2] by (fastforce simp: user_fault_def)

lemma user_step_touches:
  assumes u: "user_runs s c D" and box: "sandbox s D xs" and st: "user_step ka s t"
  shows "touches c (user_frames s D) s t"
proof -
  have c: "cr3 s = page2pa D" "tf_cs (stack_tf s) AND 3 = 3" "c < length (envs s)"
    using u by (simp_all add: user_runs_def caller_def user_trap_def)
  have keep: "touches c (user_frames s D) s (s\<lparr>mem := m, stack_tf := f\<rparr>)"
    if "outside_same (user_frames s D) (mem s) m" "tf_cs f AND 3 = 3" for m f
    unfolding touches_def
    by (intro exI [of _ m] exI [of _ "env_tf (envs s ! c)"] exI [of _ "console s"] exI [of _ "dev s"]
        exI [of _ "last_tf s"] exI [of _ f]) (use that in simp)
  have refl: "touches c (user_frames s D) s s" using keep [OF outside_same_refl c(2)] by simp
  from st show ?thesis
  proof cases
    case (Compute f)
    then show ?thesis using keep [OF outside_same_refl] by simp
  next
    case (Store va b)
    show ?thesis
    proof (cases "hw_translate (mem s) (cr3 s) True True va")
      case None
      then show ?thesis using Store user_fault_stops [OF u] by (subst (asm) user_store.simps) (auto simp: bindo_eq_Inr)
    next
      case (Some pa)
      then have t: "t = s\<lparr>mem := (mem s)(pa := b)\<rparr>" using Store by (subst (asm) user_store.simps) simp
      have "outside_same (user_frames s D) (mem s) ((mem s)(pa := b))"
        by (rule outside_same_upd, rule store_lands(3) [OF box]) (use Some c(1) in simp)
      from keep [OF this c(2)] show ?thesis by (simp add: t)
    qed
  next
    case (Load va b)
    show ?thesis
    proof (cases "hw_translate (mem s) (cr3 s) True False va")
      case None
      then show ?thesis using Load user_fault_stops [OF u] by (subst (asm) user_load.simps) (auto simp: bindo_eq_Inr)
    next
      case (Some pa)
      then have "t = s" using Load by (subst (asm) user_load.simps) simp
      then show ?thesis using refl by simp
    qed
  next
    case (Interrupt n)
    then obtain k e where "interrupt ka k e s = Some (Inr t)" by (auto simp: software_int_def Let_def split: if_splits)
    from interrupt_returns(2) [OF u this] show ?thesis by (rule touches_same_user [OF _ c(2)])
  qed
qed

text \<open>And any number of steps.\<close>

lemma user_steps:
  assumes "(user_step ka)\<^sup>*\<^sup>* s t" and u: "user_runs s c D" and box: "sandbox s D xs"
  shows "touches c (user_frames s D) s t \<and> user_runs t c D \<and> sandbox t D xs \<and> user_frames t D = user_frames s D"
  using assms(1)
proof (induction rule: rtranclp_induct)
  case base
  have "touches c (user_frames s D) s s"
    unfolding touches_def
    by (intro exI [of _ "mem s"] exI [of _ "env_tf (envs s ! c)"] exI [of _ "console s"] exI [of _ "dev s"]
        exI [of _ "last_tf s"] exI [of _ "stack_tf s"]) (use u in \<open>simp add: user_runs_def user_trap_def outside_same_refl\<close>)
  then show ?case using u box by simp
next
  case (step t v)
  then have t: "touches c (user_frames s D) s t" "user_runs t c D" "sandbox t D xs" "user_frames t D = user_frames s D" by blast+
  have v: "touches c (user_frames s D) t v" using user_step_touches [OF t(2,3) step(2)] t(4) by simp
  have "touches c (user_frames s D) s v" by (rule touches_trans [OF t(1) v])
  with touches_runs [OF u box this] show ?case by blast
qed

section \<open>What ends a program\<close>

text \<open>The program is gone: its environment is free, the pages only it used are on the free list again, and the
  kernel is in the monitor.\<close>

definition ended :: "'z kernel_state_scheme \<Rightarrow> nat \<Rightarrow> nat \<Rightarrow> ('z kernel_state_scheme stop + 'a) option \<Rightarrow> bool" where
  "ended s c D r \<longleftrightarrow> (\<exists>t ys. r = Some (Inl (In_monitor None t)) \<and> free_pages t ys \<and>
     env_status (envs t ! c) = ENV_FREE \<and> {g. 0 < maps s D g \<and> refs s g = maps s D g} \<subseteq> set ys)"

lemma ended_bindo: "ended s c D r \<Longrightarrow> ended s c D (bindo r k)"
  by (auto simp: ended_def)

lemma ended_cong:
  assumes "mem t = mem s" "pages t = pages s" "npages t = npages s" "page_free_list t = page_free_list s"
  shows "ended t c D r = ended s c D r"
  unfolding ended_def owns_cong [OF assms] ..

lemma interrupt_ends:
  assumes u: "user_runs s c D" and n: "n \<noteq> of_nat T_SYSCALL" "n \<noteq> of_nat T_BRKPT"
    and o: "owns s D xs" "KERNBASE \<le> kern_pgdir s"
  shows "ended s c D (interrupt ka n err s)"
proof -
  let ?s = "s\<lparr>stack_tf := (stack_tf s)\<lparr>tf_trapno := n, tf_err := err\<rparr>\<rparr>"
  have same: "mem ?s = mem s" "pages ?s = pages s" "npages ?s = npages s" "page_free_list ?s = page_free_list s" by simp_all
  note cong = owns_cong [OF same]
  have "user_trap ?s c" "owns ?s D xs" "env_pgdir (envs ?s ! c) = pgdir_kva D" "KERNBASE \<le> kern_pgdir ?s"
    using u o by (simp_all add: cong(1) user_runs_def user_trap_def caller_def)
  moreover have "tf_trapno (stack_tf ?s) \<noteq> of_nat T_SYSCALL" "tf_trapno (stack_tf ?s) \<noteq> of_nat T_BRKPT" using n by simp_all
  ultimately obtain t ys where "trap ?s ka = Some (Inl (In_monitor None t))" "free_pages t ys" "env_status (envs t ! c) = ENV_FREE"
    "{g. 0 < maps s D g \<and> refs s g = maps s D g} \<subseteq> set ys"
    using trap_user_ends [of ?s c D xs ka] unfolding cong by blast
  then show ?thesis by (auto simp: interrupt_def ended_def)
qed

lemma user_fault_ends:
  assumes u: "user_runs s c D" and o: "owns s D xs" "KERNBASE \<le> kern_pgdir s"
  shows "ended s c D (user_fault ka w va s)"
proof -
  let ?s = "s\<lparr>cr2 := va\<rparr>"
  have same: "mem ?s = mem s" "pages ?s = pages s" "npages ?s = npages s" "page_free_list ?s = page_free_list s" by simp_all
  have "owns ?s D xs" "KERNBASE \<le> kern_pgdir ?s" using o by (simp_all only: owns_cong(1) [OF same]) simp
  then show ?thesis
    using interrupt_ends [where s = ?s, OF user_runs_cr2 [OF u], of "of_nat T_PGFLT"]
    unfolding ended_cong [OF same] user_fault_def by simp
qed

text \<open>The claim of \<^const>\<open>ended\<close> is about the mappings the program started with: its steps do not change them.\<close>

lemma ended_kept:
  assumes "sandbox s D xs" "touches c (user_frames s D) s t"
  shows "ended t c D r = ended s c D r"
proof -
  note t = touchesD [OF assms(2)]
  have "maps t D g = maps s D g" for g
    by (rule maps_tables(2) [OF translation_kept(2) [OF assms(1) t(1)] sandbox_bound [OF assms(1)]])
  moreover have "refs t g = refs s g" for g by (simp add: refs_def t)
  ultimately show ?thesis by (simp add: ended_def)
qed

section \<open>The claims\<close>

text \<open>C32: no program can break what the kernel relies on: after any sequence of steps of a running program, whatever
  it computes, stores, loads or asks of the kernel, the processor is in user mode with interrupts into
  the kernel as set up, the environment is the current one and running in its own address space, and the
  page directory, its tables and the reference counts are sound.\<close>

theorem user_steps_preserve:
  assumes "user_runs s c D" "sandbox s D xs" "(user_step ka)\<^sup>*\<^sup>* s t"
  shows "user_runs t c D \<and> sandbox t D xs"
  using user_steps [OF assms(3,1,2)] by blast

text \<open>C9: isolation: after any sequence of steps of a program, memory differs only in pages the program may write,
  none of which holds a page table or is free; every address is translated as before, and of the kernel's
  state only the saved frame of the environment, the console and the devices have changed.\<close>

theorem user_steps_isolated:
  assumes "user_runs s c D" "sandbox s D xs" "(user_step ka)\<^sup>*\<^sup>* s t"
  shows "(\<forall>a. unat a div 4096 \<notin> user_frames s D \<longrightarrow> mem t a = mem s a) \<and>
    user_frames s D \<inter> insert D (tables s D \<union> set xs) = {} \<and>
    hw_translate (mem t) (page2pa D) = hw_translate (mem s) (page2pa D) \<and>
    (\<exists>e k d l f. t = s\<lparr>mem := mem t, envs := (envs s)[c := (envs s ! c)\<lparr>env_tf := e\<rparr>], console := k, dev := d,
       last_tf := l, stack_tf := f\<rparr>)"
proof -
  have t: "touches c (user_frames s D) s t" using user_steps [OF assms(3,1,2)] by blast
  have m: "outside_same (user_frames s D) (mem s) (mem t)" by (rule touchesD(1) [OF t])
  have "user_frames s D \<inter> insert D (tables s D \<union> set xs) = {}"
    using user_frames_private [of s D xs] assms(2) unfolding sandbox_def by blast
  moreover have "\<exists>e k d l f. t = s\<lparr>mem := mem t, envs := (envs s)[c := (envs s ! c)\<lparr>env_tf := e\<rparr>], console := k, dev := d,
       last_tf := l, stack_tf := f\<rparr>"
  proof -
    obtain m e k d l f where v: "t = s\<lparr>mem := m, envs := (envs s)[c := (envs s ! c)\<lparr>env_tf := e\<rparr>], console := k, dev := d,
       last_tf := l, stack_tf := f\<rparr>" using t unfolding touches_def by blast
    then have m: "mem t = m" by simp
    show ?thesis by (intro exI [of _ e] exI [of _ k] exI [of _ d] exI [of _ l] exI [of _ f]) (unfold m, rule v)
  qed
  ultimately show ?thesis using m translation_kept(1) [OF assms(2) m] unfolding outside_same_def by blast
qed

text \<open>C10: no violation goes unpunished: whatever a program has done before, a store or a load its address space does not
  allow, or an \<open>int\<close> through a gate that is not for it, ends it: the environment is freed and every page that
  only it used is on the free list, whatever the program did to their contents.\<close>

theorem violations_end:
  assumes "user_runs s c D" "sandbox s D xs" "KERNBASE \<le> kern_pgdir s" "(user_step ka)\<^sup>*\<^sup>* s t"
  shows "(\<forall>va b. hw_translate (mem s) (page2pa D) True True va = None \<longrightarrow> ended s c D (user_store ka va b t)) \<and>
    (\<forall>va. hw_translate (mem s) (page2pa D) True False va = None \<longrightarrow> ended s c D (user_load ka va t)) \<and>
    (\<forall>n. gd_dpl (idt (cpu_tables s) ! n) \<noteq> 3 \<longrightarrow> ended s c D (software_int ka n t))"
proof -
  have t: "touches c (user_frames s D) s t" "user_runs t c D" "sandbox t D xs" using user_steps [OF assms(4,1,2)] by blast+
  note k = touchesD [OF t(1)] and e = ended_kept [OF assms(2) t(1)]
  have tr: "hw_translate (mem t) (cr3 t) = hw_translate (mem s) (page2pa D)"
    using translation_kept(1) [OF assms(2) k(1)] t(2) by (simp add: user_runs_def caller_def)
  have o: "owns t D xs" "KERNBASE \<le> kern_pgdir t" using t(3) assms(3) by (simp_all add: sandbox_def k)
  note f = user_fault_ends [OF t(2) o, unfolded e]
  have "ended s c D (user_store ka va b t)" if "hw_translate (mem s) (page2pa D) True True va = None" for va b
    using that f by (subst user_store.simps) (simp add: tr ended_bindo)
  moreover have "ended s c D (user_load ka va t)" if "hw_translate (mem s) (page2pa D) True False va = None" for va
    using that f by (subst user_load.simps) (simp add: tr ended_bindo)
  moreover have "ended s c D (software_int ka n t)" if "gd_dpl (idt (cpu_tables s) ! n) \<noteq> 3" for n
    using that interrupt_ends [OF t(2) _ _ o, unfolded e] by (simp add: software_int_def k)
  ultimately show ?thesis by blast
qed

section \<open>Witnesses\<close>

lemma demo_user_sandbox: "sandbox (demo_user d) 3 []"
proof -
  let ?s = "demo_user d"
  have "pdx UVPT = 957" by (simp add: pdx_def unat_PDX)
  moreover have "hw_translate (mem ?s) (page2pa 3) True True va = None" if "user_slots \<le> pdx va" for va
  proof -
    have "entry ?s 3 (pdx va) = 0" using that pdx_less [of va] by (simp add: demo_user_entry demo_mapped_entry user_slots_def)
    then show ?thesis by (subst hw_translate_eq) (simp_all add: allows_def not_present_0)
  qed
  ultimately show ?thesis by (simp add: sandbox_def demo_user_owns demo_user_table)
qed

text \<open>The program writes an \<open>A\<close> into its page and loads it.\<close>

definition demo_stored :: kernel_state where
  "demo_stored = demo_user (blank_screen 0)\<lparr>mem := (mem (demo_user (blank_screen 0)))(0x1000 := 0x41)\<rparr>"

lemma demo_translate: "hw_translate (mem (demo_user d)) (page2pa 3) True True 0x800000 = Some 0x1000"
proof -
  have "user_buffer (demo_user d) 3 0x800000 1 1" by (rule demo_user_buffer) simp_all
  from buffer_translate [OF this, of 0] show ?thesis by (simp add: buf_pa_def page2pa_def PGOFF_def)
qed

lemma demo_steps: "(user_step 0xEFFFFF00)\<^sup>*\<^sup>* (demo_user (blank_screen 0)) demo_stored"
proof -
  have "cr3 (demo_user (blank_screen 0)) = page2pa 3" by (simp add: demo_user_sel)
  then have "user_store 0xEFFFFF00 0x800000 0x41 (demo_user (blank_screen 0)) = Some (Inr demo_stored)"
    using demo_translate by (subst user_store.simps) (simp add: demo_stored_def)
  from user_step.Store [OF this] show ?thesis by blast
qed

theorem user_steps_preserve_witness:
  "user_runs demo_stored 3 3 \<and> sandbox demo_stored 3 []"
  using user_steps_preserve [OF demo_user_runs demo_user_sandbox demo_steps] .

theorem user_steps_isolated_witness:
  "mem demo_stored 0x1000 = 0x41 \<and> hw_translate (mem demo_stored) (page2pa 3) = hw_translate (mem (demo_user (blank_screen 0))) (page2pa 3)"
  using user_steps_isolated [OF demo_user_runs demo_user_sandbox demo_steps] by (simp add: demo_stored_def)

theorem violations_end_witness:
  "\<exists>t. user_store 0xEFFFFF00 0xF0100000 0 demo_stored = Some (Inl (In_monitor None t)) \<and> env_status (envs t ! 3) = ENV_FREE"
proof -
  have "user_slots \<le> pdx 0xF0100000" by (simp add: pdx_def unat_PDX user_slots_def)
  then have "hw_translate (mem (demo_user (blank_screen 0))) (page2pa 3) True True 0xF0100000 = None"
    using demo_user_sandbox [of "blank_screen 0"] unfolding sandbox_def by blast
  moreover have "KERNBASE \<le> kern_pgdir (demo_user (blank_screen 0))" by (simp add: demo_user_sel)
  ultimately show ?thesis
    using violations_end [OF demo_user_runs demo_user_sandbox _ demo_steps] unfolding ended_def by blast
qed

end
