(* ===== verification/Readline.thy ===== *)
theory Readline
  imports Syscall
begin

text \<open>
  Line input (\<open>lib/readline.c\<close>). The file is compiled against whatever \<open>getchar\<close>, \<open>cputchar\<close> and
  \<open>cprintf\<close> it is linked with, so these are parameters of the model; \<open>kern_readline\<close> is the
  kernel's. The contract they have to keep is the locale \<open>line_input\<close>; under it a line typed by the
  user is returned as the line editor \<open>edit\<close> leaves it.
\<close>

section \<open>Reading a line\<close>

definition BUFLEN :: nat where [simp]: "BUFLEN = 1024"

text \<open>The loop returns whether it returns \<open>buf\<close> (or \<open>NULL\<close>), the static array and the state.\<close>

partial_function (option) readline_loop ::
  "('s \<Rightarrow> (fault + int \<times> 's) option) \<Rightarrow> (u32 \<Rightarrow> 's \<Rightarrow> fault + 's) \<Rightarrow> (string \<Rightarrow> cprintf_arg list \<Rightarrow> 's \<Rightarrow> 's) \<Rightarrow>
     bool \<Rightarrow> nat \<Rightarrow> u8 list \<Rightarrow> 's \<Rightarrow> (fault + bool \<times> u8 list \<times> 's) option" where
  "readline_loop getc putc prt echoing i buf s =
     bindo (getc s) (\<lambda>(c, s).
       if c < 0 then Some (Inr (False, buf, prt (''read error: %e'' @ nl) [Num (word_of_int c)] s))
       else if (c = 8 \<or> c = 0x7F) \<and> i > 0 then
         bindo (Some (if echoing then putc 8 s else Inr s)) (readline_loop getc putc prt echoing (i - 1) buf)
       else if c \<ge> 0x20 \<and> i < BUFLEN - 1 then
         bindo (Some (if echoing then putc (word_of_int c) s else Inr s)) (\<lambda>s.
         if \<not> i < length buf then Some (Inl Wild_Access)
         else readline_loop getc putc prt echoing (i + 1) (buf[i := word_of_int c]) s)
       else if c = 0x0A \<or> c = 0x0D then
         bindo (Some (if echoing then putc 0x0A s else Inr s)) (\<lambda>s.
         if \<not> i < length buf then Some (Inl Wild_Access) else Some (Inr (True, buf[i := 0], s)))
       else readline_loop getc putc prt echoing i buf s)"

definition readline ::
  "('s \<Rightarrow> (fault + int \<times> 's) option) \<Rightarrow> (u32 \<Rightarrow> 's \<Rightarrow> fault + 's) \<Rightarrow> (string \<Rightarrow> cprintf_arg list \<Rightarrow> 's \<Rightarrow> 's) \<Rightarrow>
     (u32 \<Rightarrow> u32) \<Rightarrow> string option \<Rightarrow> u8 list \<Rightarrow> 's \<Rightarrow> (fault + bool \<times> u8 list \<times> 's) option" where
  "readline getc putc prt isc prompt buf s =
     (let s = (case prompt of None \<Rightarrow> s | Some p \<Rightarrow> prt ''%s'' [Str p] s)
      in readline_loop getc putc prt (isc 0 \<noteq> 0) 0 buf s)"

section \<open>The line editor\<close>

text \<open>What a list of typed characters makes of a line: backspace and delete take the last character
  away, printable characters are added while there is room, everything else is ignored. On an
  empty line delete (but not backspace) counts as printable.\<close>

fun edit :: "u8 list \<Rightarrow> u8 list \<Rightarrow> u8 list" where
  "edit line [] = line"
| "edit line (c # cs) =
     (if (c = 8 \<or> c = 0x7F) \<and> line \<noteq> [] then edit (butlast line) cs
      else if 0x20 \<le> c \<and> length line < 1023 then edit (line @ [c]) cs
      else edit line cs)"

lemma edit_length: "length line \<le> 1023 \<Longrightarrow> length (edit line cs) \<le> 1023"
  by (induction cs arbitrary: line) simp_all

lemma edit_printable: "\<forall>c \<in> set line. 0x20 \<le> c \<Longrightarrow> \<forall>c \<in> set (edit line cs). 0x20 \<le> c"
proof (induction cs arbitrary: line)
  case (Cons c cs)
  have "\<forall>c \<in> set (butlast line). 0x20 \<le> c" using Cons.prems by (meson in_set_butlastD)
  note IH = Cons.IH [OF this] Cons.IH [OF Cons.prems]
  have new: "0x20 \<le> c \<Longrightarrow> \<forall>c \<in> set (line @ [c]). 0x20 \<le> c" using Cons.prems by simp
  show ?case unfolding edit.simps using IH Cons.IH [OF new] by presburger
qed simp

text \<open>Plain text is kept as it is.\<close>

lemma edit_plain: "\<forall>c \<in> set cs. 0x20 \<le> c \<and> c \<noteq> 0x7F \<Longrightarrow> length line + length cs \<le> 1023 \<Longrightarrow> edit line cs = line @ cs"
proof (induction cs arbitrary: line)
  case (Cons c cs)
  then have "c \<noteq> 8" by auto
  with Cons show ?case by simp
qed simp

text \<open>\<open>buf\<close> holds the string \<open>line\<close>.\<close>

definition holds_line :: "u8 list \<Rightarrow> u8 list \<Rightarrow> bool" where
  "holds_line buf line \<longleftrightarrow> length line < length buf \<and> take (length line) buf = line \<and> buf ! length line = 0"

definition ends_line :: "u8 \<Rightarrow> bool" where
  "ends_line c \<longleftrightarrow> c = 0x0A \<or> c = 0x0D"

lemma uint_u8: "uint (c :: u8) = k \<longleftrightarrow> c = word_of_int k" if "0 \<le> k" "k < 256"
  using that by (auto simp: word_uint_eq_iff uint_word_of_int)

lemma char_tests:
  "\<not> uint (c :: u8) < 0" "uint c = 8 \<longleftrightarrow> c = 8" "uint c = 0x7F \<longleftrightarrow> c = 0x7F" "uint c \<ge> 0x20 \<longleftrightarrow> 0x20 \<le> c"
  "uint c = 0x0A \<longleftrightarrow> c = 0x0A" "uint c = 0x0D \<longleftrightarrow> c = 0x0D" "(word_of_int (uint c) :: u8) = c"
  using uint_ge_0 [of c] by (simp_all add: uint_u8 word_le_def del: uint_ge_0)

section \<open>The contract of the console\<close>

text \<open>What \<open>readline\<close> relies on: \<open>getc\<close> delivers the pending characters one by one, printing does not
  disturb them; \<open>said\<close> is what has been printed with \<open>prt\<close>, newest first.\<close>

locale line_input =
  fixes ok :: "'s \<Rightarrow> bool"
    and pending :: "'s \<Rightarrow> u8 list"
    and said :: "'s \<Rightarrow> message list"
    and getc :: "'s \<Rightarrow> (fault + int \<times> 's) option"
    and putc :: "u32 \<Rightarrow> 's \<Rightarrow> fault + 's"
    and prt :: "string \<Rightarrow> cprintf_arg list \<Rightarrow> 's \<Rightarrow> 's"
  assumes getc: "ok s \<Longrightarrow> pending s = c # cs \<Longrightarrow> c \<noteq> 0 \<Longrightarrow>
      \<exists>t. getc s = Some (Inr (uint c, t)) \<and> ok t \<and> pending t = cs \<and> said t = said s"
    and putc: "ok s \<Longrightarrow> \<exists>t. putc x s = Inr t \<and> ok t \<and> pending t = pending s \<and> said t = said s"
    and prt: "ok s \<Longrightarrow> ok (prt fmt args s) \<and> pending (prt fmt args s) = pending s \<and>
      said (prt fmt args s) = Message fmt args # said s"
begin

lemma echo: "ok s \<Longrightarrow> \<exists>t. (if e then putc x s else Inr s) = Inr t \<and> ok t \<and> pending t = pending s \<and> said t = said s"
  using putc [of s x] by (cases e) auto

lemma readline_loop_edits:
  "ok s \<Longrightarrow> pending s = cs @ n # rest \<Longrightarrow> \<forall>c \<in> set cs. c \<noteq> 0 \<and> \<not> ends_line c \<Longrightarrow> ends_line n \<Longrightarrow>
   length buf = 1024 \<Longrightarrow> length line \<le> 1023 \<Longrightarrow> take (length line) buf = line \<Longrightarrow>
   \<exists>b t. readline_loop getc putc prt e (length line) buf s = Some (Inr (True, b, t)) \<and> ok t \<and> pending t = rest \<and>
     said t = said s \<and> length b = 1024 \<and> holds_line b (edit line cs)"
proof (induction cs arbitrary: line buf s)
  case Nil
  then have n: "n \<noteq> 0" "\<not> 0x20 \<le> n" "n \<noteq> 8" "n \<noteq> 0x7F" by (auto simp: ends_line_def)
  obtain s1 where s1: "getc s = Some (Inr (uint n, s1))" "ok s1" "pending s1 = rest" "said s1 = said s"
    using getc [of s n rest] Nil n by auto
  obtain t where t: "(if e then putc 0x0A s1 else Inr s1) = Inr t" "ok t" "pending t = rest" "said t = said s"
    using echo [OF s1(2), of e "0x0A"] s1(3,4) by auto
  have "readline_loop getc putc prt e (length line) buf s = Some (Inr (True, buf[length line := 0], t))"
    using s1(1) t(1) n Nil.prems(4-6) by (subst readline_loop.simps) (simp add: char_tests ends_line_def)
  moreover have "holds_line (buf[length line := 0]) (edit line [])"
    using Nil.prems(5-7) by (simp add: holds_line_def)
  ultimately show ?case using t(2-4) Nil.prems(5) by simp
next
  case (Cons c cs)
  then have c: "c \<noteq> 0" "c \<noteq> 0x0A" "c \<noteq> 0x0D" by (auto simp: ends_line_def)
  obtain s1 where s1: "getc s = Some (Inr (uint c, s1))" "ok s1" "pending s1 = cs @ n # rest" "said s1 = said s"
    using getc [of s c "cs @ n # rest"] Cons.prems c by auto
  note IH = Cons.IH [OF _ _ _ Cons.prems(4)]
  have cs: "\<forall>c \<in> set cs. c \<noteq> 0 \<and> \<not> ends_line c" using Cons.prems(3) by simp
  consider (erase) "(c = 8 \<or> c = 0x7F) \<and> line \<noteq> []" | (add) "\<not> ((c = 8 \<or> c = 0x7F) \<and> line \<noteq> [])" "0x20 \<le> c \<and> length line < 1023"
    | (ignore) "\<not> ((c = 8 \<or> c = 0x7F) \<and> line \<noteq> [])" "\<not> (0x20 \<le> c \<and> length line < 1023)" by blast
  then show ?case
  proof cases
    case erase
    obtain t where t: "(if e then putc 8 s1 else Inr s1) = Inr t" "ok t" "pending t = pending s1" "said t = said s1"
      using echo [OF s1(2), of e 8] by auto
    have step: "readline_loop getc putc prt e (length line) buf s =
        readline_loop getc putc prt e (length (butlast line)) buf t"
      using s1(1) t(1) erase c by (subst readline_loop.simps) (simp add: char_tests)
    have "take (length (butlast line)) buf = butlast line"
      using Cons.prems(5-7) butlast_take [of "length line" buf] by simp
    with IH [OF t(2) _ cs Cons.prems(5), of "butlast line"] t(3,4) s1(3,4) Cons.prems(6) erase
    show ?thesis unfolding step by simp
  next
    case add
    obtain t where t: "(if e then putc (word_of_int (uint c)) s1 else Inr s1) = Inr t" "ok t" "pending t = pending s1" "said t = said s1"
      using echo [OF s1(2), of e "word_of_int (uint c)"] by auto
    have step: "readline_loop getc putc prt e (length line) buf s =
        readline_loop getc putc prt e (length (line @ [c])) (buf[length line := c]) t"
      using s1(1) t(1) add c Cons.prems(5) by (subst readline_loop.simps) (auto simp: char_tests)
    have "take (length (line @ [c])) (buf[length line := c]) = line @ [c]"
      using Cons.prems(5,7) add by (simp add: take_Suc_conv_app_nth)
    moreover have ed: "edit line (c # cs) = edit (line @ [c]) cs" using add by auto
    ultimately show ?thesis
      using IH [OF t(2) _ cs, of "buf[length line := c]" "line @ [c]"] t(3,4) s1(3,4) add Cons.prems(5) unfolding step ed by simp
  next
    case ignore
    have step: "readline_loop getc putc prt e (length line) buf s = readline_loop getc putc prt e (length line) buf s1"
      using s1(1) ignore c by (subst readline_loop.simps) (auto simp: char_tests)
    from IH [OF s1(2,3) cs Cons.prems(5-7)] s1(4) ignore show ?thesis unfolding step by auto
  qed
qed

lemma readline_edits:
  assumes "ok s" "pending s = cs @ n # rest" "\<forall>c \<in> set cs. c \<noteq> 0 \<and> \<not> ends_line c" "ends_line n" "length buf = 1024"
  shows "\<exists>b t. readline getc putc prt isc prompt buf s = Some (Inr (True, b, t)) \<and> ok t \<and> pending t = rest \<and>
    said t = (case prompt of None \<Rightarrow> [] | Some p \<Rightarrow> [Message ''%s'' [Str p]]) @ said s \<and> length b = 1024 \<and> holds_line b (edit [] cs)"
proof -
  let ?s = "case prompt of None \<Rightarrow> s | Some p \<Rightarrow> prt ''%s'' [Str p] s"
  have s: "ok ?s" "pending ?s = cs @ n # rest"
      "said ?s = (case prompt of None \<Rightarrow> [] | Some p \<Rightarrow> [Message ''%s'' [Str p]]) @ said s"
    using assms(1,2) prt [OF assms(1)] by (simp_all split: option.splits)
  from readline_loop_edits [OF s(1,2) assms(3-5), of "[]"] s(3) show ?thesis by (simp add: readline_def)
qed

end

section \<open>The kernel's console keeps the contract\<close>

text \<open>What the input side of the console is made of; output leaves it alone.\<close>

definition input_part :: "'z console_state_scheme \<Rightarrow> (u32 \<Rightarrow> nat \<Rightarrow> u8) \<times> bool \<times> u32 \<times> u8 list \<times> u32 \<times> u32" where
  "input_part s = (port_in s, serial_exists s, shift s, cons_buf s, cons_rpos s, cons_wpos s)"

lemma input_part_simps [simp]:
  "input_part (outb p b s) = input_part s" "input_part (snd (inb p s)) = input_part s" "input_part (delay s) = input_part s"
  "input_part (s\<lparr>crt_pos := x\<rparr>) = input_part s" "input_part (s\<lparr>crt_buf := cells\<rparr>) = input_part s"
  "input_part (carriage_return s) = input_part s"
  by (simp_all add: input_part_def outb_def inb_def delay_def carriage_return_def)

lemma input_part_poll [simp]: "input_part (poll p m n s) = input_part s"
  by (induction n arbitrary: s) (simp_all add: split_beta Let_def)

lemma input_part_putc [simp]: "input_part (serial_putc c s) = input_part s" "input_part (lpt_putc c s) = input_part s"
  by (simp_all add: serial_putc_def lpt_putc_def Let_def)

lemma input_part_cells:
  "set_cell i v s = Inr t \<Longrightarrow> input_part t = input_part s"
  "cga_finish s = Inr t \<Longrightarrow> input_part t = input_part s"
  by (auto simp: set_cell_def cga_finish_def Let_def split: if_splits)

lemma input_part_cga:
  assumes "c AND 0xFF \<noteq> 0x09" "cga_putc c s = Inr t"
  shows "input_part t = input_part s"
  using assms by (auto simp: Let_def bindr_eq_Inr split: if_splits dest!: input_part_cells)

lemma input_part_cons_putc:
  assumes "cons_putc c s = Inr t"
  shows "input_part t = input_part s"
proof -
  have blank: "input_part v = input_part u" if "cons_putc 0x20 u = Inr v" for u v :: "'a console_state_scheme"
    using input_part_cga [of "0x20" "lpt_putc 0x20 (serial_putc 0x20 u)" v] that by simp
  have "input_part v = input_part u" if "cga_putc c u = Inr v" for u v :: "'a console_state_scheme"
  proof (cases "c AND 0xFF = 0x09")
    case True
    then have "(if c AND NOT 0xFF = 0 then c OR 0x0700 else c) AND 0xFF = 0x09"
      using low_with_colour [of c] by (simp add: with_colour_def)
    with that True show ?thesis
      by (auto simp: Let_def bindr_eq_Inr simp del: cons_putc.simps dest!: blank input_part_cells)
  next
    case False
    then show ?thesis using that by (rule input_part_cga)
  qed
  from this [of "lpt_putc c (serial_putc c s)" t] assms show ?thesis by simp
qed

text \<open>No device has anything new to deliver: what \<open>getchar\<close> returns was typed before.\<close>

definition typed_ahead :: "'z console_state_scheme \<Rightarrow> bool" where
  "typed_ahead s \<longleftrightarrow> ring_ok s \<and> display_ok s \<and> (\<forall>n. port_in s KBSTATP n AND KBS_DIB = 0) \<and>
     (serial_exists s \<longrightarrow> (\<forall>n. port_in s (COM1 + COM_LSR) n AND COM_LSR_DATA = 0))"

lemma typed_ahead_input: "input_part t = input_part s \<Longrightarrow> display_ok t \<Longrightarrow> typed_ahead s \<Longrightarrow> typed_ahead t \<and> queued t = queued s"
  by (simp add: input_part_def typed_ahead_def ring_ok_def queued_def)

lemma getchar_queued:
  assumes ok: "typed_ahead s" and q: "queued s = c # cs" and c: "c \<noteq> 0"
  shows "\<exists>t. getchar s = Some (Inr (uint c, t)) \<and> typed_ahead t \<and> queued t = cs"
proof -
  let ?s1 = "if serial_exists s then snd (inb (COM1 + COM_LSR) s) else s"
  let ?s2 = "snd (inb KBSTATP ?s1)"
  have i: "serial_intr s = Some (Inr ?s1)" "kbd_intr ?s1 = Some (Inr ?s2)"
    using ok unfolding serial_intr_def kbd_intr_def
    by (subst cons_intr.simps, simp add: serial_proc_data_def kbd_proc_data_def typed_ahead_def inb_def)+
  have "typed_ahead ?s2 \<and> queued ?s2 = queued s"
    by (rule typed_ahead_input [OF _ _ ok]) (use ok in \<open>simp_all add: typed_ahead_def display_ok_def\<close>)
  then have "ring_ok ?s2" "queued ?s2 = c # cs" "typed_ahead ?s2" using q by (simp_all add: typed_ahead_def)
  from queued_take [OF this(1,2)] obtain t where t: "cons_take ?s2 = Inr (uint c, t)" "ring_ok t" "queued t = cs" by blast
  have "typed_ahead t" using t(1,2) \<open>typed_ahead ?s2\<close>
    by (auto simp: cons_take_def typed_ahead_def display_ok_def Let_def split: if_splits)
  moreover have "uint c \<noteq> 0" using c by (simp add: uint_0_iff)
  then have "getchar s = Some (Inr (uint c, t))"
    using i t(1) by (subst getchar.simps) (simp add: cons_getc_def)
  ultimately show ?thesis using t(3) by blast
qed

lemma cputchar_keeps:
  assumes "typed_ahead s"
  shows "\<exists>t. cputchar c s = Inr t \<and> typed_ahead t \<and> queued t = queued s"
proof -
  obtain t where t: "cons_putc c s = Inr t" "display_ok t"
    using cons_putc_ok [of s c] assms by (auto simp: typed_ahead_def)
  with typed_ahead_input [OF input_part_cons_putc [OF t(1)] t(2) assms] show ?thesis by (simp add: cputchar_def del: cons_putc.simps)
qed

definition iscons :: "u32 \<Rightarrow> u32" where
  "iscons fdnum = 1"

definition kgetchar :: "'z kernel_state_scheme \<Rightarrow> (fault + int \<times> 'z kernel_state_scheme) option" where
  "kgetchar s = bindo (getchar (dev s)) (\<lambda>(c, d). Some (Inr (c, s\<lparr>dev := d\<rparr>)))"

definition kputchar :: "u32 \<Rightarrow> 'z kernel_state_scheme \<Rightarrow> fault + 'z kernel_state_scheme" where
  "kputchar c s = bindr (cputchar c (dev s)) (\<lambda>d. Inr (s\<lparr>dev := d\<rparr>))"

definition kern_readline ::
  "string option \<Rightarrow> u8 list \<Rightarrow> 'z kernel_state_scheme \<Rightarrow> (fault + bool \<times> u8 list \<times> 'z kernel_state_scheme) option" where
  "kern_readline = readline kgetchar kputchar cprintf_args iscons"

interpretation kin: line_input "\<lambda>s. typed_ahead (dev s)" "\<lambda>s. queued (dev s)" console kgetchar kputchar cprintf_args
proof unfold_locales
  fix s :: "'a kernel_state_scheme"
  show "\<exists>t. kgetchar s = Some (Inr (uint c, t)) \<and> typed_ahead (dev t) \<and> queued (dev t) = cs \<and> console t = console s"
    if "typed_ahead (dev s)" "queued (dev s) = c # cs" "c \<noteq> 0" for c cs
    using getchar_queued [OF that] by (auto simp: kgetchar_def)
  show "\<exists>t. kputchar x s = Inr t \<and> typed_ahead (dev t) \<and> queued (dev t) = queued (dev s) \<and> console t = console s"
    if "typed_ahead (dev s)" for x
    using cputchar_keeps [OF that, of x] by (auto simp: kputchar_def)
  show "typed_ahead (dev (cprintf_args fmt args s)) \<and> queued (dev (cprintf_args fmt args s)) = queued (dev s) \<and>
      console (cprintf_args fmt args s) = Message fmt args # console s"
    if "typed_ahead (dev s)" for fmt args
    using that by (simp add: cprintf_args_def)
qed

section \<open>What the kernel's readline returns\<close>


definition typed_console :: "u8 list \<Rightarrow> console_state" where
  "typed_console cs = \<lparr>port_in = (\<lambda>p n. 0), port_reads = (\<lambda>p. 0), port_out = [], serial_exists = True,
     addr_6845 = 0x3D4, crt_buf = replicate 2000 0x0720, crt_pos = 0, shift = 0,
     cons_buf = cs @ replicate (512 - length cs) 0, cons_rpos = 0, cons_wpos = of_nat (length cs)\<rparr>"

lemma typed_console_ok:
  assumes "length cs < 512"
  shows "typed_ahead (typed_console cs)" "queued (typed_console cs) = cs"
proof -
  have u: "unat (of_nat (length cs) :: u32) = length cs" using assms by (intro unat_of_nat_u32) simp
  then show "typed_ahead (typed_console cs)"
    using assms by (simp add: typed_ahead_def typed_console_def ring_ok_def display_ok_def)
  have "ring_len 0 (length cs) = length cs" using assms by (simp add: ring_len_def)
  then show "queued (typed_console cs) = cs"
    using assms u by (intro nth_equalityI) (simp_all add: queued_def typed_console_def nth_append)
qed

definition typing_kernel :: "u8 list \<Rightarrow> kernel_state" where
  "typing_kernel cs = env_state.extend demo_kernel \<lparr>dev = typed_console cs, cr2 = 0, eflags = 0, stack_tf = tf_zero,
     last_tf = None, envs_addr = 0xF0180000\<rparr>"


end
