(* ===== verification/Monitor.thy ===== *)
theory Monitor
  imports Trap Readline "HOL-Library.Signed_Division"
begin

text \<open>
  The kernel monitor (\<open>kern/monitor.c\<close>): the command line is cut into words in place, the first
  word is looked up in the table of commands. The line buffer is the static \<open>buf\<close> of
  \<open>lib/readline.c\<close>; a \<open>char *\<close> into it is an index. The addresses the linker gives to the symbols
  \<open>_start\<close>, \<open>entry\<close>, \<open>etext\<close>, \<open>edata\<close> and \<open>end\<close> are a parameter.
\<close>

section \<open>Cutting a line into words\<close>

definition WHITESPACE :: "u8 list" where [simp]: "WHITESPACE = [0x09, 0x0D, 0x0A, 0x20]"

definition MAXARGS :: nat where [simp]: "MAXARGS = 16"

text \<open>\<open>strchr(WHITESPACE, c)\<close> of a character that is not zero.\<close>

definition is_space :: "u8 \<Rightarrow> bool" where
  "is_space c \<longleftrightarrow> c \<in> set WHITESPACE"

text \<open>The two inner loops of \<open>runcmd\<close>.\<close>

function gobble :: "nat \<Rightarrow> u8 list \<Rightarrow> fault + nat \<times> u8 list" where
  "gobble i buf =
     (if \<not> i < length buf then Inl Wild_Access
      else if buf ! i \<noteq> 0 \<and> is_space (buf ! i) then gobble (i + 1) (buf[i := 0])
      else Inr (i, buf))"
  by pat_completeness auto
termination by (relation "measure (\<lambda>(i, buf). length buf - i)") auto

function skip_word :: "nat \<Rightarrow> u8 list \<Rightarrow> fault + nat" where
  "skip_word i buf =
     (if \<not> i < length buf then Inl Wild_Access
      else if buf ! i \<noteq> 0 \<and> \<not> is_space (buf ! i) then skip_word (i + 1) buf
      else Inr i)"
  by pat_completeness auto
termination by (relation "measure (\<lambda>(i, buf). length buf - i)") auto

declare gobble.simps [simp del] skip_word.simps [simp del]

lemma gobble_Inr:
  "gobble i buf = Inr (j, b) \<Longrightarrow> i \<le> j \<and> j < length buf \<and> length b = length buf \<and> (b ! j = 0 \<or> \<not> is_space (b ! j))"
proof (induction i buf rule: gobble.induct)
  case (1 i buf)
  show ?case using 1 by (subst (asm) (2) gobble.simps) (fastforce split: if_splits)
qed

lemma skip_word_Inr: "skip_word i buf = Inr j \<Longrightarrow> i \<le> j \<and> j < length buf"
proof (induction i buf rule: skip_word.induct)
  case (1 i buf)
  show ?case using 1 by (subst (asm) (2) skip_word.simps) (fastforce split: if_splits)
qed

lemma skip_word_moves: "skip_word i buf = Inr j \<Longrightarrow> buf ! i \<noteq> 0 \<Longrightarrow> \<not> is_space (buf ! i) \<Longrightarrow> i < j"
  by (subst (asm) skip_word.simps) (auto split: if_splits dest: skip_word_Inr)

text \<open>The outer loop: \<open>argv\<close> holds the arguments found so far, its length is \<open>argc\<close>. It returns
  \<^const>\<open>None\<close> when there are too many.\<close>

function parse_args :: "nat \<Rightarrow> nat list \<Rightarrow> u8 list \<Rightarrow> fault + nat list option \<times> u8 list" where
  "parse_args i argv buf =
     bindr (gobble i buf) (\<lambda>(i, buf).
       if buf ! i = 0 then Inr (Some argv, buf)
       else if length argv = MAXARGS - 1 then Inr (None, buf)
       else bindr (skip_word i buf) (\<lambda>j. parse_args j (argv @ [i]) buf))"
  by pat_completeness auto
termination
  by (relation "measure (\<lambda>(i, argv, buf). length buf - i)")
     (auto dest!: gobble_Inr dest: skip_word_moves skip_word_Inr, (drule (2) skip_word_moves; drule skip_word_Inr; linarith)?)

declare parse_args.simps [simp del]

section \<open>Commands\<close>

record link_symbols =
  sym_start :: u32
  sym_entry :: u32
  sym_etext :: u32
  sym_edata :: u32
  sym_end :: u32

text \<open>The function pointer of a \<open>struct Command\<close>.\<close>

datatype command_func = Mon_help | Mon_kerninfo

definition commands :: "(string \<times> string \<times> command_func) list" where
  "commands =
     [(''help'', ''Display this list of commands'', Mon_help),
      (''kerninfo'', ''Display information about the kernel'', Mon_kerninfo)]"

definition mon_help :: "'z kernel_state_scheme \<Rightarrow> u32 \<times> 'z kernel_state_scheme" where
  "mon_help s = (0, fold (\<lambda>(name, desc, f). cprintf_args (''%s - %s'' @ nl) [Str name, Str desc]) commands s)"

definition mon_kerninfo :: "link_symbols \<Rightarrow> 'z kernel_state_scheme \<Rightarrow> u32 \<times> 'z kernel_state_scheme" where
  "mon_kerninfo y s =
     (let s = cprintf (''Special kernel symbols:'' @ nl) [] s;
          s = cprintf (''  _start                  %08x (phys)'' @ nl) [sym_start y] s;
          s = cprintf (''  entry  %08x (virt)  %08x (phys)'' @ nl) [sym_entry y, sym_entry y - KERNBASE] s;
          s = cprintf (''  etext  %08x (virt)  %08x (phys)'' @ nl) [sym_etext y, sym_etext y - KERNBASE] s;
          s = cprintf (''  edata  %08x (virt)  %08x (phys)'' @ nl) [sym_edata y, sym_edata y - KERNBASE] s;
          s = cprintf (''  end    %08x (virt)  %08x (phys)'' @ nl) [sym_end y, sym_end y - KERNBASE] s;
          kb = word_of_int (sint (ROUNDUP (sym_end y - sym_entry y) 1024) sdiv 1024)
      in (0, cprintf (''Kernel executable memory footprint: %dKB'' @ nl) [kb] s))"

definition run_func :: "link_symbols \<Rightarrow> command_func \<Rightarrow> 'z kernel_state_scheme \<Rightarrow> u32 \<times> 'z kernel_state_scheme" where
  "run_func y f s = (case f of Mon_help \<Rightarrow> mon_help s | Mon_kerninfo \<Rightarrow> mon_kerninfo y s)"

text \<open>The string at a pointer into the buffer.\<close>

definition string_at :: "u8 list \<Rightarrow> nat \<Rightarrow> u8 list" where
  "string_at buf i = takeWhile (\<lambda>c. c \<noteq> 0) (drop i buf)"

definition chars :: "u8 list \<Rightarrow> string" where
  "chars = map (\<lambda>c. char_of (unat c))"

text \<open>\<open>runcmd\<close> returns its result, the buffer it has cut up and the state. Comparing with \<open>strcmp\<close>
  is comparing the strings up to the zero.\<close>

definition runcmd ::
  "link_symbols \<Rightarrow> u8 list \<Rightarrow> 'z kernel_state_scheme \<Rightarrow> fault + u32 \<times> u8 list \<times> 'z kernel_state_scheme" where
  "runcmd y buf s =
     bindr (parse_args 0 [] buf) (\<lambda>(args, buf).
       case args of
         None \<Rightarrow> Inr (0, buf, cprintf (''Too many arguments (max %d)'' @ nl) [of_nat MAXARGS] s)
       | Some [] \<Rightarrow> Inr (0, buf, s)
       | Some (a # as) \<Rightarrow>
           (if 0 \<notin> set (drop a buf) then Inl Wild_Access
            else let name = chars (string_at buf a) in
              case find (\<lambda>(n, desc, f). name = n) commands of
                Some (n, desc, f) \<Rightarrow> (let (r, s) = run_func y f s in Inr (r, buf, s))
              | None \<Rightarrow> Inr (0, buf, cprintf_args (''Unknown command '' @ [CHR 0x27] @ ''%s'' @ [CHR 0x27] @ nl) [Str name] s)))"

text \<open>One turn of the loop of \<open>monitor\<close>, and the loop; the turn returns the result of \<open>runcmd\<close>, or 0
  when \<open>readline\<close> returned \<open>NULL\<close>.\<close>

definition monitor_turn ::
  "link_symbols \<Rightarrow> u8 list \<Rightarrow> 'z kernel_state_scheme \<Rightarrow> (fault + u32 \<times> u8 list \<times> 'z kernel_state_scheme) option" where
  "monitor_turn y buf s =
     bindo (kern_readline (Some ''K> '') buf s) (\<lambda>(got, buf, s).
       if got then Some (runcmd y buf s) else Some (Inr (0, buf, s)))"

partial_function (option) monitor_loop ::
  "link_symbols \<Rightarrow> u8 list \<Rightarrow> 'z kernel_state_scheme \<Rightarrow> (fault + u8 list \<times> 'z kernel_state_scheme) option" where
  "monitor_loop y buf s =
     bindo (monitor_turn y buf s) (\<lambda>(r, buf, s).
       if r <s 0 then Some (Inr (buf, s)) else monitor_loop y buf s)"

definition monitor_greeting :: "tf_ptr option \<Rightarrow> 'z kernel_state_scheme \<Rightarrow> 'z kernel_state_scheme" where
  "monitor_greeting tf s =
     (let s = cprintf (''Welcome to the JOS kernel monitor!'' @ nl) [] s;
          s = cprintf (''Type '' @ [CHR 0x27] @ ''help'' @ [CHR 0x27] @ '' for a list of commands.'' @ nl) [] s
      in case tf of None \<Rightarrow> s | Some p \<Rightarrow> print_trapframe p s)"

definition monitor ::
  "link_symbols \<Rightarrow> tf_ptr option \<Rightarrow> u8 list \<Rightarrow> 'z kernel_state_scheme \<Rightarrow> (fault + u8 list \<times> 'z kernel_state_scheme) option" where
  "monitor y tf buf s = monitor_loop y buf (monitor_greeting tf s)"

text \<open>The turns as steps: from the buffer and state at one prompt to those at the next.\<close>

inductive monitor_step :: "link_symbols \<Rightarrow> u8 list \<times> 'z kernel_state_scheme \<Rightarrow> u8 list \<times> 'z kernel_state_scheme \<Rightarrow> bool"
  for y where
  turn: "monitor_turn y buf s = Some (Inr (r, b, t)) \<Longrightarrow> \<not> r <s 0 \<Longrightarrow> monitor_step y (buf, s) (b, t)"

inductive_cases monitor_stepE: "monitor_step y (buf, s) (b, t)"

section \<open>The words of a line\<close>

function words_of :: "u8 list \<Rightarrow> u8 list list" where
  "words_of [] = []"
| "words_of (c # cs) =
     (if is_space c then words_of cs
      else (c # takeWhile (\<lambda>c. \<not> is_space c) cs) # words_of (dropWhile (\<lambda>c. \<not> is_space c) cs))"
  by pat_completeness auto
termination by (relation "measure length") (auto simp: less_Suc_eq_le length_dropWhile_le)

text \<open>Where they start, and what cutting them out leaves of the line.\<close>

function starts :: "nat \<Rightarrow> u8 list \<Rightarrow> nat list" where
  "starts k [] = []"
| "starts k (c # cs) =
     (if is_space c then starts (k + 1) cs
      else k # starts (k + 1 + length (takeWhile (\<lambda>c. \<not> is_space c) cs)) (dropWhile (\<lambda>c. \<not> is_space c) cs))"
  by pat_completeness auto
termination by (relation "measure (\<lambda>(k, cs). length cs)") (auto simp: less_Suc_eq_le length_dropWhile_le)

definition cut :: "u8 list \<Rightarrow> u8 list" where
  "cut = map (\<lambda>c. if is_space c then 0 else c)"

lemma cut_simps [simp]: "cut [] = []" "cut (c # cs) = (if is_space c then 0 else c) # cut cs"
  "cut (xs @ ys) = cut xs @ cut ys" "length (cut cs) = length cs"
  by (simp_all add: cut_def)

lemma cut_word: "\<forall>c \<in> set w. \<not> is_space c \<Longrightarrow> cut w = w"
  by (simp add: cut_def map_idI)

lemma is_space_0 [simp]: "\<not> is_space 0"
  by (simp add: is_space_def)

text \<open>What the text \<open>cs\<close> splits into at a character that is no blank.\<close>

lemma word_split:
  assumes "\<not> is_space c" "0 \<notin> set (c # cs)"
  obtains w rest where "cs = w @ rest" "w = takeWhile (\<lambda>c. \<not> is_space c) cs" "rest = dropWhile (\<lambda>c. \<not> is_space c) cs"
    "\<forall>x \<in> set (c # w). x \<noteq> 0 \<and> \<not> is_space x" "rest \<noteq> [] \<longrightarrow> is_space (hd rest)"
proof
  show "cs = takeWhile (\<lambda>c. \<not> is_space c) cs @ dropWhile (\<lambda>c. \<not> is_space c) cs" by simp
  show "\<forall>x \<in> set (c # takeWhile (\<lambda>c. \<not> is_space c) cs). x \<noteq> 0 \<and> \<not> is_space x"
    using assms by (auto dest: set_takeWhileD)
  show "dropWhile (\<lambda>c. \<not> is_space c) cs \<noteq> [] \<longrightarrow> is_space (hd (dropWhile (\<lambda>c. \<not> is_space c) cs))"
    using hd_dropWhile [of "\<lambda>c. \<not> is_space c" cs] by blast
qed simp_all

lemma gobble_space: "is_space c \<Longrightarrow> gobble (length pre) (pre @ c # cs) = gobble (length (pre @ [0])) ((pre @ [0]) @ cs)"
  by (subst gobble.simps) (auto simp: list_update_append)

lemma gobble_stop: "c = 0 \<or> \<not> is_space c \<Longrightarrow> gobble (length pre) (pre @ c # cs) = Inr (length pre, pre @ c # cs)"
  by (subst gobble.simps) auto

lemma skip_word_word:
  "\<forall>c \<in> set w. c \<noteq> 0 \<and> \<not> is_space c \<Longrightarrow> d = 0 \<or> is_space d \<Longrightarrow>
   skip_word (length pre) (pre @ w @ d # rest) = Inr (length (pre @ w))"
proof (induction w arbitrary: pre)
  case Nil
  then show ?case by (subst skip_word.simps) auto
next
  case (Cons c w)
  then show ?case using Cons.IH [of "pre @ [c]"] by (subst skip_word.simps) simp
qed

lemma parse_args_space:
  "is_space c \<Longrightarrow> parse_args (length pre) argv (pre @ c # cs) = parse_args (length (pre @ [0])) argv ((pre @ [0]) @ cs)"
  by (subst (1 2) parse_args.simps) (simp add: gobble_space)

lemma parse_args_word:
  assumes "\<forall>x \<in> set (c # w). x \<noteq> 0 \<and> \<not> is_space x" "d = 0 \<or> is_space d"
  shows "parse_args (length pre) argv (pre @ (c # w) @ d # rest) =
    (if length argv = 15 then Inr (None, pre @ (c # w) @ d # rest)
     else parse_args (length (pre @ c # w)) (argv @ [length pre]) ((pre @ c # w) @ d # rest))"
  using assms skip_word_word [OF assms, of pre rest]
  by (subst parse_args.simps) (simp add: gobble_stop)

lemma parse_args_line:
  assumes "0 \<notin> set line" "length argv \<le> 15"
  shows "if length argv + length (words_of line) \<le> 15
    then parse_args (length pre) argv (pre @ line @ 0 # post) = Inr (Some (argv @ starts (length pre) line), pre @ cut line @ 0 # post)
    else \<exists>b. parse_args (length pre) argv (pre @ line @ 0 # post) = Inr (None, b) \<and> length b = length (pre @ line @ 0 # post)"
  using assms
proof (induction line arbitrary: pre argv rule: words_of.induct)
  case 1
  then show ?case by (subst (1 2) parse_args.simps) (simp add: gobble_stop)
next
  case (2 c cs)
  show ?case
  proof (cases "is_space c")
    case True
    with "2.IH"(1) [OF True, of argv "pre @ [0]"] "2.prems" show ?thesis
      by (auto simp: parse_args_space split: if_splits)
  next
    case False
    from word_split [OF False "2.prems"(1)] obtain w rest where w: "cs = w @ rest"
      "w = takeWhile (\<lambda>c. \<not> is_space c) cs" "rest = dropWhile (\<lambda>c. \<not> is_space c) cs"
      "\<forall>x \<in> set (c # w). x \<noteq> 0 \<and> \<not> is_space x" "rest \<noteq> [] \<longrightarrow> is_space (hd rest)" .
    obtain d tail where d: "rest @ 0 # post = d # tail" "d = 0 \<or> is_space d" using w(5) by (cases rest) auto
    have line: "(c # cs) @ 0 # post = (c # w) @ d # tail" using d(1) by (simp add: w(1))
    have step: "parse_args (length pre) argv (pre @ (c # cs) @ 0 # post) =
        (if length argv = 15 then Inr (None, pre @ (c # cs) @ 0 # post)
         else parse_args (length (pre @ c # w)) (argv @ [length pre]) ((pre @ c # w) @ rest @ 0 # post))"
      unfolding line d(1) by (rule parse_args_word [OF w(4) d(2)])
    have words: "words_of (c # cs) = (c # w) # words_of rest" using False by (simp flip: w(2,3))
    have starts: "starts (length pre) (c # cs) = length pre # starts (length (pre @ c # w)) rest"
      using False by (simp flip: w(2,3))
    have cut: "cut (c # cs) = (c # w) @ cut rest" using w(4) False by (simp add: w(1) cut_word)
    show ?thesis
    proof (cases "length argv = 15")
      case True
      then show ?thesis unfolding step words by simp
    next
      case less: False
      have "0 \<notin> set rest" using "2.prems"(1) by (simp add: w(1))
      with "2.IH"(2) [OF False, folded w(3), of "argv @ [length pre]" "pre @ c # w"] less "2.prems"(2)
      show ?thesis unfolding step words starts cut by (auto simp: w(1) split: if_splits)
    qed
  qed
qed

lemma string_at_word:
  assumes "\<forall>x \<in> set w. x \<noteq> 0"
  shows "string_at (pre @ w @ 0 # post) (length pre) = w"
  using assms by (simp add: string_at_def takeWhile_tail)

lemma strings_at_starts:
  "0 \<notin> set line \<Longrightarrow> map (string_at (pre @ cut line @ 0 # post)) (starts (length pre) line) = words_of line"
proof (induction line arbitrary: pre rule: words_of.induct)
  case (2 c cs)
  show ?case
  proof (cases "is_space c")
    case True
    with "2.IH"(1) [OF True, of "pre @ [0]"] "2.prems" show ?thesis by simp
  next
    case False
    from word_split [OF False "2.prems"] obtain w rest where w: "cs = w @ rest"
      "w = takeWhile (\<lambda>c. \<not> is_space c) cs" "rest = dropWhile (\<lambda>c. \<not> is_space c) cs"
      "\<forall>x \<in> set (c # w). x \<noteq> 0 \<and> \<not> is_space x" "rest \<noteq> [] \<longrightarrow> is_space (hd rest)" .
    have cut: "cut (c # cs) = (c # w) @ cut rest" using w(4) False by (simp add: w(1) cut_word)
    obtain tail where tail: "cut rest @ 0 # post = 0 # tail" using w(5) by (cases rest) auto
    have "string_at (pre @ (c # w) @ 0 # tail) (length pre) = c # w" by (rule string_at_word) (use w(4) in simp)
    moreover have "0 \<notin> set rest" using "2.prems" by (simp add: w(1))
    ultimately show ?thesis
      using "2.IH"(2) [OF False, folded w(3), of "pre @ c # w"] tail False unfolding cut
      by (simp flip: w(2,3))
  qed
qed simp

text \<open>The whole line of a buffer.\<close>

lemma holds_line_split:
  assumes "holds_line buf line"
  obtains post where "buf = line @ 0 # post"
  using assms id_take_nth_drop [of "length line" buf] by (auto simp: holds_line_def)

lemma parse_line:
  assumes "holds_line buf line" "0 \<notin> set line"
  shows "if length (words_of line) \<le> 15
    then \<exists>argv b. parse_args 0 [] buf = Inr (Some argv, b) \<and> map (string_at b) argv = words_of line \<and>
      length b = length buf \<and> (\<forall>a \<in> set argv. 0 \<in> set (drop a b))
    else \<exists>b. parse_args 0 [] buf = Inr (None, b) \<and> length b = length buf"
proof -
  obtain post where buf: "buf = line @ 0 # post" using holds_line_split [OF assms(1)] .
  have less: "a < length (cut line)" if "a \<in> set (starts 0 line)" for a
  proof -
    have "\<forall>a \<in> set (starts k xs). k \<le> a \<and> a < k + length xs" for k and xs :: "u8 list"
    proof (induction k xs rule: starts.induct)
      case (2 k c cs)
      have "length cs = length (takeWhile (\<lambda>c. \<not> is_space c) cs) + length (dropWhile (\<lambda>c. \<not> is_space c) cs)"
        by (metis length_append takeWhile_dropWhile_id)
      with 2 show ?case by (cases "is_space c") fastforce+
    qed simp
    from this [of 0 line] that show ?thesis by simp
  qed
  then have "\<forall>a \<in> set (starts 0 line). 0 \<in> set (drop a (cut line @ 0 # post))" by (simp add: less_imp_le)
  with parse_args_line [OF assms(2), of "[]" "[]" post] strings_at_starts [OF assms(2), of "[]" post]
  show ?thesis by (auto simp: buf split: if_splits)
qed

section \<open>What a command line does\<close>

text \<open>What the monitor prints for the words of a line, newest first.\<close>

definition replies :: "link_symbols \<Rightarrow> u8 list list \<Rightarrow> message list" where
  "replies y ws =
     (if length ws > 15 then [Message (''Too many arguments (max %d)'' @ nl) [Num 16]]
      else case ws of
        [] \<Rightarrow> []
      | w # _ \<Rightarrow>
          if chars w = ''help'' then
            [Message (''%s - %s'' @ nl) [Str ''kerninfo'', Str ''Display information about the kernel''],
             Message (''%s - %s'' @ nl) [Str ''help'', Str ''Display this list of commands'']]
          else if chars w = ''kerninfo'' then
            [Message (''Kernel executable memory footprint: %dKB'' @ nl)
               [Num (word_of_int (sint (ROUNDUP (sym_end y - sym_entry y) 1024) sdiv 1024))],
             Message (''  end    %08x (virt)  %08x (phys)'' @ nl) [Num (sym_end y), Num (sym_end y - KERNBASE)],
             Message (''  edata  %08x (virt)  %08x (phys)'' @ nl) [Num (sym_edata y), Num (sym_edata y - KERNBASE)],
             Message (''  etext  %08x (virt)  %08x (phys)'' @ nl) [Num (sym_etext y), Num (sym_etext y - KERNBASE)],
             Message (''  entry  %08x (virt)  %08x (phys)'' @ nl) [Num (sym_entry y), Num (sym_entry y - KERNBASE)],
             Message (''  _start                  %08x (phys)'' @ nl) [Num (sym_start y)],
             Message (''Special kernel symbols:'' @ nl) []]
          else [Message (''Unknown command '' @ [CHR 0x27] @ ''%s'' @ [CHR 0x27] @ nl) [Str (chars w)]])"

lemma runcmd_spec:
  assumes "holds_line buf line" "0 \<notin> set line"
  shows "\<exists>b. runcmd y buf s = Inr (0, b, s\<lparr>console := replies y (words_of line) @ console s\<rparr>) \<and> length b = length buf"
proof (cases "length (words_of line) \<le> 15")
  case False
  then show ?thesis using parse_line [OF assms] by (auto simp: runcmd_def replies_def cprintf_def)
next
  case True
  then obtain argv b where p: "parse_args 0 [] buf = Inr (Some argv, b)" "map (string_at b) argv = words_of line"
    "length b = length buf" "\<forall>a \<in> set argv. 0 \<in> set (drop a b)" using parse_line [OF assms] by auto
  show ?thesis
  proof (cases argv)
    case Nil
    then show ?thesis using p by (auto simp: runcmd_def replies_def)
  next
    case (Cons a as)
    then have w: "words_of line = string_at b a # map (string_at b) as" using p(2) by simp
    show ?thesis using p(1,3,4) True Cons unfolding w
      by (auto simp: runcmd_def replies_def commands_def mon_help_def mon_kerninfo_def run_func_def cprintf_def
          cprintf_args_def)
  qed
qed

text \<open>The in-place parser of \<open>runcmd\<close> finds the words of the line: if there are at most 15, \<open>argv\<close>
  points to strings that are exactly these, in order; otherwise it reports too many. It never
  leaves the buffer.\<close>

theorem parse_args_words:
  assumes "holds_line buf line" "0 \<notin> set line"
  shows "if length (words_of line) < MAXARGS
    then \<exists>argv b. parse_args 0 [] buf = Inr (Some argv, b) \<and> map (string_at b) argv = words_of line
    else \<exists>b. parse_args 0 [] buf = Inr (None, b)"
  using parse_line [OF assms] by (auto split: if_splits)

theorem parse_args_words_witness:
  "\<exists>argv b. parse_args 0 [] [0x20, 0x68, 0x69, 0x20, 0x20, 0x78, 0, 7] = Inr (Some argv, b) \<and>
     map (string_at b) argv = [[0x68, 0x69], [0x78]]"
  using parse_args_words [of "[0x20, 0x68, 0x69, 0x20, 0x20, 0x78, 0, 7]" "[0x20, 0x68, 0x69, 0x20, 0x20, 0x78]"]
  by (simp add: holds_line_def is_space_def)

lemma run_func_result: "\<exists>t. run_func y f s = (0, t)"
  by (cases f) (simp_all add: run_func_def mon_help_def mon_kerninfo_def Let_def)

lemma runcmd_result:
  assumes "runcmd y buf s = Inr (r, b, t)"
  shows "r = 0"
proof -
  obtain args buf' where "parse_args 0 [] buf = Inr (args, buf')" using assms by (auto simp: runcmd_def bindr_eq_Inr)
  note p = assms [unfolded runcmd_def this bindr_Inr prod.case]
  show ?thesis
  proof (cases args)
    case (Some as)
    with p show ?thesis
    proof (cases as)
      case (Cons a as')
      obtain u where "\<And>n d f. run_func y f s = (0, u f)" using run_func_result [of y _ s] by metis
      then show ?thesis using p Some Cons
        by (cases "find (\<lambda>(n, desc, f). chars (string_at buf' a) = n) commands") (auto simp: Let_def split: if_splits)
    qed simp
  qed (use p in simp)
qed

lemma monitor_turn_result: "monitor_turn y buf s = Some (Inr (r, b, t)) \<Longrightarrow> r = 0"
  by (auto simp: monitor_turn_def bindo_eq_Inr split: if_splits dest: runcmd_result)

lemma monitor_no_result:
  fixes s :: "'z kernel_state_scheme"
  shows "monitor y tf buf s \<noteq> Some (Inr r)"
proof -
  have "\<forall>r. z \<noteq> Inr r" if "monitor_loop y buf s = Some z" for y buf z and s :: "'z kernel_state_scheme"
  proof (rule monitor_loop.raw_induct [OF _ that, where P = "\<lambda>y buf s z. \<forall>r. z \<noteq> Inr r"])
    fix loop and y :: link_symbols and buf z and s :: "'z kernel_state_scheme"
    assume IH: "\<And>y buf s z. loop y buf s = Some z \<Longrightarrow> \<forall>r. z \<noteq> Inr r"
      and run: "bindo (monitor_turn y buf s) (\<lambda>(r, buf, s). if r <s 0 then Some (Inr (buf, s)) else loop y buf s) = Some z"
    show "\<forall>r. z \<noteq> Inr r"
    proof (intro allI notI)
      fix r assume "z = Inr r"
      with run obtain r' b t where "monitor_turn y buf s = Some (Inr (r', b, t))"
        "(if r' <s 0 then Some (Inr (b, t)) else loop y b t) = Some (Inr r)" by (auto simp: bindo_eq_Inr)
      with monitor_turn_result [OF this(1)] have "loop y b t = Some (Inr r)" by simp
      from IH [OF this] show False by simp
    qed
  qed
  then show ?thesis unfolding monitor_def by blast
qed

text \<open>\<open>monitor\<close> never returns, whatever is typed and whatever the devices answer: no command has a
  negative result. A breakpoint is not resumed.\<close>

theorem monitor_never_returns:
  fixes s :: "'z kernel_state_scheme"
  shows "monitor y tf buf s \<noteq> Some (Inr r)"
  by (rule monitor_no_result)

lemma monitor_turn_line:
  assumes "typed_ahead (dev s)" "queued (dev s) = cs @ n # rest" "\<forall>c \<in> set cs. c \<noteq> 0 \<and> \<not> ends_line c" "ends_line n"
    and "length buf = 1024"
  shows "\<exists>b t. monitor_step y (buf, s) (b, t) \<and> typed_ahead (dev t) \<and> queued (dev t) = rest \<and> length b = 1024 \<and>
    console t = replies y (words_of (edit [] cs)) @ Message ''%s'' [Str ''K> ''] # console s"
proof -
  from kin.readline_edits [OF assms, where isc = iscons and prompt = "Some ''K> ''", folded kern_readline_def]
  obtain b t where t: "kern_readline (Some ''K> '') buf s = Some (Inr (True, b, t))" "typed_ahead (dev t)"
    "queued (dev t) = rest" "console t = Message ''%s'' [Str ''K> ''] # console s" "length b = 1024"
    "holds_line b (edit [] cs)" by auto
  have "0 \<notin> set (edit [] cs)" using edit_printable [of "[]" cs] by auto
  from runcmd_spec [OF t(6) this, of y t] obtain b' where
    "runcmd y b t = Inr (0, b', t\<lparr>console := replies y (words_of (edit [] cs)) @ console t\<rparr>)" "length b' = length b" by blast
  with t show ?thesis
    by (intro exI [of _ b'] exI [of _ "t\<lparr>console := replies y (words_of (edit [] cs)) @ console t\<rparr>"])
       (auto simp: monitor_turn_def intro!: turn [of _ _ _ 0])
qed

text \<open>The record of a session, newest first: for each line typed the prompt and the answer.\<close>

definition session :: "link_symbols \<Rightarrow> u8 list list \<Rightarrow> message list" where
  "session y ls = concat (rev (map (\<lambda>l. replies y (words_of (edit [] l)) @ [Message ''%s'' [Str ''K> '']]) ls))"

lemma monitor_lines:
  assumes "typed_ahead (dev s)" "queued (dev s) = concat (map (\<lambda>l. l @ [0x0A]) ls) @ rest"
    and "\<forall>l \<in> set ls. \<forall>c \<in> set l. c \<noteq> 0 \<and> \<not> ends_line c" "length buf = 1024"
  shows "\<exists>b t. (monitor_step y)\<^sup>*\<^sup>* (buf, s) (b, t) \<and> typed_ahead (dev t) \<and> queued (dev t) = rest \<and>
    console t = session y ls @ console s"
  using assms
proof (induction ls arbitrary: buf s)
  case Nil
  then show ?case by (auto simp: session_def)
next
  case (Cons l ls)
  have "queued (dev s) = l @ 0x0A # concat (map (\<lambda>l. l @ [0x0A]) ls) @ rest" using Cons.prems(2) by simp
  from monitor_turn_line [OF Cons.prems(1) this _ _ Cons.prems(4), of y] Cons.prems(3)
  obtain b t where t: "monitor_step y (buf, s) (b, t)" "typed_ahead (dev t)"
    "queued (dev t) = concat (map (\<lambda>l. l @ [0x0A]) ls) @ rest" "length b = 1024"
    "console t = replies y (words_of (edit [] l)) @ Message ''%s'' [Str ''K> ''] # console s" by (auto simp: ends_line_def)
  from Cons.IH [OF t(2,3) _ t(4)] Cons.prems(3) obtain b' u where
    "(monitor_step y)\<^sup>*\<^sup>* (b, t) (b', u)" "typed_ahead (dev u)" "queued (dev u) = rest" "console u = session y ls @ console t"
    by auto
  with t(1,5) show ?case
    by (intro exI [of _ b'] exI [of _ u]) (auto simp: session_def intro: converse_rtranclp_into_rtranclp)
qed

text \<open>C23: the monitor answers every line typed, in order: from the start the loop reaches, turn by turn,
  a state in which it has taken exactly these lines from the input, and has printed for each
  the prompt and the answer to its words.\<close>

theorem monitor_answers:
  assumes "typed_ahead (dev s)" "queued (dev s) = concat (map (\<lambda>l. l @ [0x0A]) ls) @ rest"
    and "\<forall>l \<in> set ls. \<forall>c \<in> set l. c \<noteq> 0 \<and> \<not> ends_line c" "length buf = BUFLEN"
  shows "\<exists>b t. (monitor_step y)\<^sup>*\<^sup>* (buf, monitor_greeting tf s) (b, t) \<and> queued (dev t) = rest \<and>
    console t = session y ls @ console (monitor_greeting tf s)"
proof -
  have "says s (monitor_greeting tf s)"
    by (auto simp: monitor_greeting_def Let_def intro!: says_print_trapframe says_cprintf says_refl split: option.splits)
  then have "dev (monitor_greeting tf s) = dev s" by (auto simp: says_def)
  with monitor_lines [of "monitor_greeting tf s" ls rest buf y] assms show ?thesis by auto
qed

text \<open>The turns of these steps are those of the loop.\<close>

lemma monitor_step_loop: "monitor_step y (buf, s) (b, t) \<Longrightarrow> monitor_loop y buf s = monitor_loop y b t"
  by (erule monitor_stepE, subst monitor_loop.simps) simp

theorem monitor_answers_witness:
  "\<exists>b t. (monitor_step \<lparr>sym_start = 0, sym_entry = 0, sym_etext = 0, sym_edata = 0, sym_end = 0\<rparr>)\<^sup>*\<^sup>*
      (replicate 1024 0, monitor_greeting None (typing_kernel [0x68, 0x69, 0x0A, 0x0A, 0x78])) (b, t) \<and>
    queued (dev t) = [0x78] \<and>
    console t = [Message ''%s'' [Str ''K> ''],
        Message (''Unknown command '' @ [CHR 0x27] @ ''%s'' @ [CHR 0x27] @ nl) [Str ''hi''], Message ''%s'' [Str ''K> '']] @
      console (monitor_greeting None (typing_kernel [0x68, 0x69, 0x0A, 0x0A, 0x78]))"
proof -
  let ?s = "typing_kernel [0x68, 0x69, 0x0A, 0x0A, 0x78]"
  have d: "dev ?s = typed_console (concat (map (\<lambda>l. l @ [0x0A]) [[0x68, 0x69], []]) @ [0x78])"
    by (simp add: typing_kernel_def env_state.defs)
  have "typed_ahead (dev ?s)" "queued (dev ?s) = concat (map (\<lambda>l. l @ [0x0A]) [[0x68, 0x69], []]) @ [0x78]"
    unfolding d by (intro typed_console_ok; simp)+
  have hi: "chars [0x68, 0x69] = ''hi''" by (simp add: chars_def char_of_def bit_iff_odd)
  from monitor_answers [OF \<open>typed_ahead (dev ?s)\<close> \<open>queued (dev ?s) = _\<close>, of "replicate 1024 0"
      "\<lparr>sym_start = 0, sym_entry = 0, sym_etext = 0, sym_edata = 0, sym_end = 0\<rparr>" None]
  show ?thesis by (simp add: ends_line_def session_def replies_def is_space_def hi)
qed

end
