(* ===== verification/Kern_Start.thy ===== *)
theory Kern_Start
  imports Mem_Start User_Steps Monitor
begin

text \<open>
  The clock chip (\<open>kern/kclock.c\<close>) and the panic routines of \<open>kern/init.c\<close>. Shown here: what is written to
  a register of the chip is read back and the two bytes of a memory size are put together; a panic
  reports once, with the interrupts closed, and never comes back from the monitor.
\<close>

section \<open>The clock chip\<close>

text \<open>The chip has two ports: one takes the number of a register, the other is that register. What
  the instructions do to the state of the hardware is a parameter.\<close>

record 'd rtc_ops =
  rtc_inb :: "u32 \<Rightarrow> 'd \<Rightarrow> u8 \<times> 'd"
  rtc_outb :: "u32 \<Rightarrow> u8 \<Rightarrow> 'd \<Rightarrow> 'd"

definition IO_RTC :: u32 where [simp]: "IO_RTC = 0x070"

definition mc146818_read :: "'d rtc_ops \<Rightarrow> u32 \<Rightarrow> 'd \<Rightarrow> u32 \<times> 'd" where
  "mc146818_read ops reg d =
     (let d = rtc_outb ops IO_RTC (ucast reg) d;
          (b, d) = rtc_inb ops (IO_RTC + 1) d
      in (ucast b, d))"

definition mc146818_write :: "'d rtc_ops \<Rightarrow> u32 \<Rightarrow> u32 \<Rightarrow> 'd \<Rightarrow> 'd" where
  "mc146818_write ops reg datum d =
     (let d = rtc_outb ops IO_RTC (ucast reg) d
      in rtc_outb ops (IO_RTC + 1) (ucast datum) d)"

text \<open>\<open>nvram_read\<close> of \<open>kern/pmap.c\<close> over the ports.\<close>

definition nvram_ports :: "'d rtc_ops \<Rightarrow> u32 \<Rightarrow> 'd \<Rightarrow> u32 \<times> 'd" where
  "nvram_ports ops r d =
     (let (lo, d) = mc146818_read ops r d; (hi, d) = mc146818_read ops (r + 1) d
      in (lo OR push_bit 8 hi, d))"

text \<open>What the documentation of the chip says of its memory: \<open>sel\<close> is the register last selected, \<open>cell\<close> the
  contents; the registers are numbered by the low seven bits, and \<open>ram\<close> says which of them are plain memory.\<close>

definition rtc_chip :: "'d rtc_ops \<Rightarrow> ('d \<Rightarrow> u8) \<Rightarrow> ('d \<Rightarrow> u8 \<Rightarrow> u8) \<Rightarrow> (u8 \<Rightarrow> bool) \<Rightarrow> bool" where
  "rtc_chip ops sel cell ram \<longleftrightarrow>
     (\<forall>d r. sel (rtc_outb ops 0x70 r d) = r AND 0x7F \<and> cell (rtc_outb ops 0x70 r d) = cell d) \<and>
     (\<forall>d. ram (sel d) \<longrightarrow> fst (rtc_inb ops 0x71 d) = cell d (sel d) \<and> cell (snd (rtc_inb ops 0x71 d)) = cell d) \<and>
     (\<forall>d b. ram (sel d) \<longrightarrow> cell (rtc_outb ops 0x71 b d) = (cell d)(sel d := b))"

lemma mc146818_read_eq:
  assumes "rtc_chip ops sel cell ram" "ram (ucast reg AND 0x7F)"
  shows "fst (mc146818_read ops reg d) = ucast (cell d (ucast reg AND 0x7F))" "cell (snd (mc146818_read ops reg d)) = cell d"
  using assms by (simp_all add: mc146818_read_def rtc_chip_def Let_def split_beta)

text \<open>The clock chip, and any part that keeps the contract of its documentation: a register that is plain
  memory reads back what \<open>mc146818_write\<close> put there, no other register changes, and \<open>nvram_read\<close> over the
  ports gives the two registers as one number, as the function \<open>nvram_read\<close> of the memory detection does.\<close>

theorem mc146818_roundtrip:
  assumes "rtc_chip ops sel cell ram" "ram (ucast reg AND 0x7F)"
  shows "fst (mc146818_read ops reg (mc146818_write ops reg datum d)) = ucast (ucast datum :: u8) \<and>
    (ram (ucast r AND 0x7F) \<and> ucast r AND 0x7F \<noteq> (ucast reg AND 0x7F :: u8) \<longrightarrow>
       fst (mc146818_read ops r (mc146818_write ops reg datum d)) = fst (mc146818_read ops r d)) \<and>
    (ram (ucast r AND 0x7F) \<and> ram (ucast (r + 1) AND 0x7F) \<longrightarrow>
       fst (nvram_ports ops r d) = nvram_read (\<lambda>i. cell d (ucast i AND 0x7F)) r)"
proof -
  note rd = mc146818_read_eq [OF assms(1)]
  have w: "cell (mc146818_write ops reg datum d) = (cell d)(ucast reg AND 0x7F := ucast datum)"
    using assms by (simp add: mc146818_write_def rtc_chip_def Let_def)
  have "fst (nvram_ports ops r d) = nvram_read (\<lambda>i. cell d (ucast i AND 0x7F)) r"
    if "ram (ucast r AND 0x7F)" "ram (ucast (r + 1) AND 0x7F)"
    using rd(1) [OF that(1), of d] rd(2) [OF that(1), of d] rd(1) [OF that(2), of "snd (mc146818_read ops r d)"]
    by (simp add: nvram_ports_def nvram_read_def split_beta Let_def)
  with rd w assms(2) show ?thesis by auto
qed

text \<open>A chip with 128 registers, all memory.\<close>

definition demo_rtc :: "(u8 \<times> (u8 \<Rightarrow> u8)) rtc_ops" where
  "demo_rtc = \<lparr>rtc_inb = (\<lambda>p d. (if p = 0x71 then snd d (fst d) else 0xFF, d)),
     rtc_outb = (\<lambda>p b d. if p = 0x70 then (b AND 0x7F, snd d) else if p = 0x71 then (fst d, (snd d)(fst d := b)) else d)\<rparr>"

theorem mc146818_roundtrip_witness:
  "fst (mc146818_read demo_rtc 0x8F (mc146818_write demo_rtc 0x0F 0x123 (0, \<lambda>_. 7))) = 0x23 \<and>
   fst (nvram_ports demo_rtc 0x15 (0, \<lambda>r. if r = 0x16 then 2 else 0x80)) = 0x280"
proof -
  have chip: "rtc_chip demo_rtc fst snd (\<lambda>_. True)" by (simp add: rtc_chip_def demo_rtc_def)
  have e: "mc146818_read demo_rtc 0x8F = mc146818_read demo_rtc 0x0F"
    by (intro ext) (simp add: mc146818_read_def demo_rtc_def)
  show ?thesis
    unfolding e using mc146818_roundtrip [OF chip, of "0x0F" "0x123" "(0, \<lambda>_. 7)" "0"]
      mc146818_roundtrip [OF chip, of "0" "0" "(0, \<lambda>r. if r = 0x16 then 2 else 0x80)" "0x15"]
    by (simp add: nvram_read_def)
qed

section \<open>Panic and warnings\<close>

text \<open>\<open>_panic\<close> keeps the format of the first call in \<open>panicstr\<close>; a panic within a panic goes straight to
  the monitor. Arguments are the file, the line, the format and what is printed with it.\<close>

definition FL_DF :: u32 where [simp]: "FL_DF = 0x400"

definition report :: "string \<Rightarrow> string \<Rightarrow> u32 \<Rightarrow> string \<Rightarrow> cprintf_arg list \<Rightarrow> 'z env_state_scheme \<Rightarrow> 'z env_state_scheme" where
  "report prefix file line fmt ap s =
     (let s = cprintf_args (prefix @ '' at %s:%d: '') [Str file, Num line] s;
          s = cprintf_args fmt ap s
      in cprintf nl [] s)"

partial_function (option) panic_loop ::
  "link_symbols \<Rightarrow> u8 list \<Rightarrow> 'z kernel_state_scheme \<Rightarrow> (fault + unit) option" where
  "panic_loop y buf s = bindo (monitor y None buf s) (\<lambda>(buf, s). panic_loop y buf s)"

definition panic_report ::
  "string option \<Rightarrow> string \<Rightarrow> u32 \<Rightarrow> string \<Rightarrow> cprintf_arg list \<Rightarrow> 'z kernel_state_scheme \<Rightarrow> string option \<times> 'z kernel_state_scheme" where
  "panic_report panicstr file line fmt ap s =
     (if panicstr \<noteq> None then (panicstr, s)
      else (Some fmt, report ''kernel panic'' file line fmt ap (s\<lparr>eflags := eflags s AND NOT (FL_IF OR FL_DF)\<rparr>)))"

definition kern_panic ::
  "link_symbols \<Rightarrow> u8 list \<Rightarrow> string option \<Rightarrow> string \<Rightarrow> u32 \<Rightarrow> string \<Rightarrow> cprintf_arg list \<Rightarrow> 'z kernel_state_scheme \<Rightarrow> (fault + unit) option" where
  "kern_panic y buf panicstr file line fmt ap s =
     (let (panicstr, s) = panic_report panicstr file line fmt ap s in panic_loop y buf s)"

definition kern_warn :: "string \<Rightarrow> u32 \<Rightarrow> string \<Rightarrow> cprintf_arg list \<Rightarrow> 'z kernel_state_scheme \<Rightarrow> 'z kernel_state_scheme" where
  "kern_warn file line fmt ap s = report ''kernel warning'' file line fmt ap s"

lemma panic_loop_eq:
  fixes s :: "'z kernel_state_scheme"
  shows "panic_loop y buf s = map_option (\<lambda>r. Inl (projl r)) (monitor y None buf s)"
proof -
  have "panic_loop y buf s = bindo (monitor y None buf s) (\<lambda>(buf, s). panic_loop y buf s)"
    by (rule panic_loop.simps)
  also have "\<dots> = map_option (\<lambda>r. Inl (projl r)) (monitor y None buf s)"
  proof (cases "monitor y None buf s")
    case (Some r)
    then have "r \<noteq> Inr x" for x using monitor_no_result [of y None buf s x] by auto
    then obtain f where "r = Inl f" by (cases r) auto
    with Some show ?thesis by simp
  qed simp
  finally show ?thesis .
qed

text \<open>The state in which a panic hands the machine to the monitor.\<close>

definition panicked :: "string \<Rightarrow> u32 \<Rightarrow> string \<Rightarrow> cprintf_arg list \<Rightarrow> 'z kernel_state_scheme \<Rightarrow> 'z kernel_state_scheme" where
  "panicked file line fmt ap s = s\<lparr>eflags := eflags s AND NOT (FL_IF OR FL_DF),
     console := [Message nl [], Message fmt ap, Message ''kernel panic at %s:%d: '' [Str file, Num line]] @ console s\<rparr>"

text \<open>C39: \<open>panic\<close> never returns. The first one closes the interrupts, prints its report and ends in the monitor, in a
  state that differs in nothing else; a panic after it prints nothing and is in the monitor at once. Whether the
  monitor then faults or goes on for ever is the monitor's.\<close>

theorem panic_ends_in_monitor:
  fixes s :: "'z kernel_state_scheme"
  shows "kern_panic y buf panicstr file line fmt ap s \<noteq> Some (Inr r) \<and>
    panic_report None file line fmt ap s = (Some fmt, panicked file line fmt ap s) \<and>
    eflags (panicked file line fmt ap s) AND FL_IF = 0 \<and>
    kern_panic y buf None file line fmt ap s =
      map_option (\<lambda>r. Inl (projl r)) (monitor y None buf (panicked file line fmt ap s)) \<and>
    kern_panic y buf (Some f) file line fmt ap s = map_option (\<lambda>r. Inl (projl r)) (monitor y None buf s)"
proof -
  have p: "panic_report None file line fmt ap s = (Some fmt, panicked file line fmt ap s)"
    by (simp add: panic_report_def panicked_def report_def cprintf_args_def cprintf_def Let_def)
  have z: "(e AND NOT (a OR b)) AND a = 0" for e a b :: u32 by (rule bit_word_eqI) (auto simp: bit_simps)
  have "eflags (panicked file line fmt ap s) AND FL_IF = 0" using z [of _ FL_IF FL_DF] by (simp add: panicked_def)
  then show ?thesis
    using p by (simp add: kern_panic_def panic_loop_eq split_beta) (simp add: panic_report_def)
qed

end
