(* ===== verification/Kern_Init.thy ===== *)
theory Kern_Init
  imports Mem_Start User_Steps
begin

text \<open>
  The start of the kernel, \<open>i386_init\<close> of \<open>kern/init.c\<close>: it calls what the other theories model, in
  the order of the source, and leaves the kernel for the first environment. Shown here: on a machine
  with enough memory and with a sound image of a program in the kernel it does so without a panic,
  and the program then runs in its own address space, loaded and confined as the theorems of
  \<open>User_Steps\<close> require.
\<close>

section \<open>The operation\<close>

text \<open>What the start finds: the data of \<open>mem_init\<close>, the addresses the linker chose (of \<open>edata\<close>, of the tables, of
  the entry points of \<open>kern/trapentry.S\<close> and of the program's image) and the display.\<close>

record start_data =
  at_boot :: boot_data
  edata_addr :: u32
  gdt_addr :: u32
  ts_addr :: u32
  idt_addr :: u32
  trap_vectors :: "nat \<Rightarrow> u32"
  program :: u32
  has_colour :: bool
  screen_cells :: "u16 list"

text \<open>The static variables of \<open>kern/console.c\<close>.\<close>

definition cons_cleared :: "'z console_state_scheme \<Rightarrow> 'z console_state_scheme" where
  "cons_cleared d = d\<lparr>serial_exists := False, addr_6845 := 0, crt_buf := [], crt_pos := 0, shift := 0,
     cons_buf := replicate CONSBUFSIZE 0, cons_rpos := 0, cons_wpos := 0\<rparr>"

text \<open>The first \<open>memset\<close>: memory from \<open>edata\<close> to \<open>end\<close>, and with it the static variables of the kernel that have no
  initial value of their own or have zero.\<close>

definition clear_bss :: "u32 \<Rightarrow> u32 \<Rightarrow> 'z kernel_state_scheme \<Rightarrow> 'z kernel_state_scheme" where
  "clear_bss edata kend s = s\<lparr>mem := memset (mem s) (kv2p edata) 0 (kend - edata),
     npages := 0, npages_basemem := 0, kern_pgdir := 0, pages := [], page_free_list := None, nextfree := 0,
     user_mem_check_addr := 0, envs := [], curenv := None, env_free_list := None,
     cpu_tables := (cpu_tables s)\<lparr>idt := replicate 256 gate_zero, ts := ts_zero\<rparr>,
     dev := cons_cleared (dev s), last_tf := None, envs_addr := 0\<rparr>"

text \<open>\<open>i386_init\<close> does not return. The result is \<open>%cr0\<close>, the frame with which the processor goes to user mode and the
  state it leaves.\<close>

definition i386_init ::
  "start_data \<Rightarrow> 'z kernel_state_scheme \<Rightarrow> (fault + u32 \<times> Trapframe \<times> 'z kernel_state_scheme) option" where
  "i386_init d s =
     (let s = clear_bss (edata_addr d) (kernel_end (at_boot d)) s in
      bindo (Some (cons_init (has_colour d) (screen_cells d) (dev s))) (\<lambda>dv.
      let s = cprintf (''6828 decimal is %o octal!'' @ nl) [6828] (s\<lparr>dev := dv\<rparr>) in
      bindo (mem_init (at_boot d) s) (\<lambda>(envs_kva, cr0, s).
      bindo (Some (env_init (gdt_addr d) (s\<lparr>envs_addr := envs_kva\<rparr>))) (\<lambda>s.
      let s = s\<lparr>cpu_tables := trap_init (trap_vectors d) (ts_addr d) (idt_addr d) (cpu_tables s)\<rparr> in
      bindo (env_create s (program d) ENV_TYPE_USER) (\<lambda>s.
      bindo (Some (env_run s 0)) (\<lambda>(tf, s).
      Some (Inr (cr0, tf, s))))))))"

section \<open>Clearing the variables\<close>

lemma clear_bss_mem:
  assumes "unat a < unat edata" "unat edata \<le> unat kend"
  shows "mem (clear_bss edata kend s) (kv2p a) = mem s (kv2p a)"
proof -
  have "edata \<le> kend" "\<not> edata \<le> a" using assms by (simp_all add: word_le_nat_alt)
  then have u: "unat (kend - edata) = unat kend - unat edata" "unat (a - edata) = 4294967296 + unat a - unat edata"
    using assms unat_u32_lt [of edata] by (simp_all add: unat_sub unat_sub_if_size word_size word_le_nat_alt)
  have "kv2p a - kv2p edata = a - edata" by (simp add: kv2p_def)
  moreover have "\<not> unat (a - edata) < unat (kend - edata)"
    using u assms unat_u32_lt [of kend] by linarith
  ultimately show ?thesis by (simp add: clear_bss_def memset_fill block_fill_def)
qed

lemma cons_puts_runs: "display_ok s \<Longrightarrow> \<exists>t. cons_puts msg s = Inr t"
proof (induction msg arbitrary: s)
  case (Cons c msg)
  then obtain t where t: "cons_putc (of_char c) s = Inr t" "display_ok t"
    using cons_putc_ok by blast
  from Cons.IH [OF t(2)] t(1) show ?case by (simp add: cons_puts_def del: cons_putc.simps)
qed (simp add: cons_puts_def)

lemma cons_init_runs:
  fixes d :: "'z console_state_scheme"
  assumes "display_ok (cga_init colour cells d)"
  shows "\<exists>t. cons_init colour cells d = Inr t"
proof -
  have sel: "crt_buf (u\<lparr>serial_exists := b\<rparr>) = crt_buf u" "crt_pos (u\<lparr>serial_exists := b\<rparr>) = crt_pos u"
    for u :: "'z console_state_scheme" and b by simp_all
  have "display_ok (serial_init u) = display_ok u" for u :: "'z console_state_scheme"
    unfolding serial_init_def Let_def split_beta display_ok_def by (simp only: port_ops sel)
  then have "display_ok (serial_init (cga_init colour cells d))" using assms by simp
  from cons_puts_runs [OF this] show ?thesis by (simp add: cons_init_def Let_def)
qed

section \<open>The first environment\<close>

lemma env_init_form:
  assumes "env_init ga s = Inr t"
  obtains E F where "t = s\<lparr>envs := E, env_free_list := F, cpu_tables := env_init_percpu ga (cpu_tables s)\<rparr>"
    "length E = length (envs s)"
proof -
  let ?g = "\<lambda>s. s\<lparr>envs := [], env_free_list := None\<rparr>"
  obtain u where u: "for_each env_init_step (rev [0..<unat NENV]) s = Inr u"
    "t = u\<lparr>cpu_tables := env_init_percpu ga (cpu_tables u)\<rparr>"
    using assms by (auto simp: env_init_def bindr_eq_Inr)
  have "?g v = ?g w" if "env_init_step i w = Inr v" for i v w
    using that by (auto simp: env_init_step_def bindr_eq_Inr upd_env_eq)
  then have g: "?g u = ?g s" by (rule for_each_same [where g = ?g, OF _ u(1)])
  have "u = (?g u)\<lparr>envs := envs u, env_free_list := env_free_list u\<rparr>" by simp
  also have "\<dots> = s\<lparr>envs := envs u, env_free_list := env_free_list u\<rparr>" unfolding g by simp
  finally have us: "u = s\<lparr>envs := envs u, env_free_list := env_free_list u\<rparr>" .
  let ?v = "s\<lparr>envs := envs u, env_free_list := env_free_list u\<rparr>"
  have "cpu_tables u = cpu_tables ?v" using us by (rule arg_cong)
  then have c: "cpu_tables u = cpu_tables s" by simp
  have "t = ?v\<lparr>cpu_tables := env_init_percpu ga (cpu_tables s)\<rparr>"
    unfolding u(2) c using us by (rule arg_cong)
  moreover have "length (envs v) = length (envs w)" if "env_init_step i w = Inr v" for i v w
    using that by (auto simp: env_init_step_def bindr_eq_Inr upd_env_eq)
  then have "length (envs u) = length (envs s)" by (rule for_each_same [where g = "\<lambda>s. length (envs s)", OF _ u(1)])
  ultimately show thesis by (rule that)
qed

lemma env_alloc_first:
  assumes wf: "pt_wf s K (x # xs)" and fl: "env_free_list s = Some e" "e < length (envs s)" and K: "kern_pgdir s = pgdir_kva K"
  obtains m where "env_alloc s parent = Inr ((0, Some e), (vm_state s e x K)\<lparr>envs := (envs s)[e := (envs s ! e)\<lparr>env_pgdir := pgdir_kva x,
      env_id := next_env_id (env_id (envs s ! e)) e, env_parent_id := parent, env_type := ENV_TYPE_USER,
      env_status := ENV_RUNNABLE, env_runs := 0, env_tf := new_env_tf\<rparr>], env_free_list := env_link (envs s ! e), console := m\<rparr>)"
proof -
  have r: "env_setup_vm s e = Inr (0, vm_state s e x K)"
    using env_setup_vm_eq [OF pt_wfD(1,2,3) [OF wf] fl(2) K] by (simp add: vm_state_def)
  have v: "envs (vm_state s e x K) = (envs s)[e := (envs s ! e)\<lparr>env_pgdir := pgdir_kva x\<rparr>]" by (simp add: vm_state_def)
  show thesis
    using fl by (intro that) (simp add: env_alloc_def r upd_env_def v Let_def cprintf_def)
qed

text \<open>The user half of the new directory is empty.\<close>

lemma vm_user_half:
  assumes wf: "pt_wf s K (x # xs)" and z: "\<And>d. d < user_slots \<Longrightarrow> entry s K d = 0"
    and r: "\<And>g. g \<in> set (x # xs) \<Longrightarrow> pp_ref (pages s ! g) = 0"
  shows "owns (vm_state s e x K) x xs" "unreferenced (vm_state s e x K) xs"
    "v < UTOP \<Longrightarrow> \<not> present (pt_entry (vm_state s e x K) x v)"
proof -
  let ?t = "vm_state s e x K"
  have ta: "table_at ?t x d = None" if "d < user_slots" for d
    using vm_state_tables [OF wf, of d x e] user_slot [OF that] z [OF that] by (simp add: table_at_def)
  have pte: "pte ?t x d i = 0" if "d < user_slots" for d i by (simp add: pte_def ta [OF that])
  have "mappings ?t x g = {}" for g by (auto simp: mappings_def pte)
  then have m: "maps ?t x g = 0" for g by (simp add: maps_def)
  have "pt_wf ?t x xs" by (rule vm_state_wf [OF wf]) simp
  then show "owns ?t x xs" using pte ta by (simp add: owns_def m)
  have "x \<notin> set xs" using free_pages_distinct [OF pt_wfD(3) [OF wf]] by simp
  then have "pp_ref (pages ?t ! g) = 0" if "g \<in> set xs" for g
    using \<open>x \<notin> set xs\<close> that r [of g] by (cases "g = x") (simp_all add: vm_state_def)
  then show "unreferenced ?t xs" by (simp add: unreferenced_def refs_def)
  show "\<not> present (pt_entry ?t x v)" if "v < UTOP"
  proof -
    have "pdx v < user_slots" using that by (simp add: pdx_def unat_PDX user_slots_def word_less_nat_alt)
    from pte [OF this] show ?thesis by (simp add: pt_entry_pte)
  qed
qed

section \<open>Above the program's memory\<close>

text \<open>No page of the kernel's layout is one that user code may write.\<close>

lemma kern_layout_no_user_write:
  assumes "unat p mod 4096 = 0" "unat e mod 4096 = 0" "unat b mod 4096 = 0"
  shows "\<not> allows True True (kern_layout p e b va)"
proof -
  have base: "unat KERNBASE mod 4096 = 0" "unat (KSTACKTOP - KSTKSIZE) mod 4096 = 0" "unat UPAGES mod 4096 = 0"
    "unat UENVS mod 4096 = 0" "unat (0 :: u32) mod 4096 = 0" by simp_all
  have fl: "unat (PTE_W OR PTE_P) < 4096" "unat (PTE_U OR PTE_P) < 4096" by simp_all
  have no: "\<not> allows True True (PTE_W OR PTE_P)" "\<not> allows True True (PTE_U OR PTE_P)" "\<not> allows True True 0"
    by (simp_all add: allows_def present_def)
  note al = allows_aligned [OF aligned_page fl(1)] allows_aligned [OF aligned_page fl(2)]
  have k: "\<not> allows True True ((ROUNDDOWN va PGSIZE - KERNBASE) OR PTE_W OR PTE_P)"
    using al(1) [OF base(5,1), of True True va] no(1) by (simp only: add_0 simp_thms)
  show ?thesis
    unfolding kern_layout_def Let_def
    using k al(1) [OF assms(3) base(2), of True True va] al(2) [OF assms(1) base(3), of True True va]
      al(2) [OF assms(2) base(4), of True True va] no
    by (simp only: split: if_splits) blast
qed

lemma sandboxI:
  assumes o: "owns t D ys" and uv: "entry t D (pdx UVPT) = page2pa D OR 5" "frame_of (page2pa D OR 5) = D" "(page2pa D OR 5) AND 2 = 0"
    and lay: "\<And>va. user_slots \<le> pdx va \<Longrightarrow> pdx va \<in> slots \<Longrightarrow> \<not> allows True True (pt_entry t D va)"
  shows "sandbox t D ys"
proof -
  have D: "D < 0x100000" using pt_wf_bound [OF ownsD(1) [OF o]] pt_wfD(4) [OF ownsD(1) [OF o]] by blast
  have "hw_translate (mem t) (page2pa D) True True va = None" if va: "user_slots \<le> pdx va" for va
  proof (cases "pdx va \<in> slots")
    case True
    have "\<not> (allows True True (entry t D (pdx va)) \<and> allows True True (entry t (frame_of (entry t D (pdx va))) (ptx va)))"
      using lay [OF va True] by (auto simp: pt_entry_def table_at_def allows_def)
    then show ?thesis unfolding hw_translate_eq [OF D] by simp
  next
    case False
    then have "pdx va = pdx UVPT" using pdx_less [of va] by (simp add: slots_def pdx_def)
    then have "entry t D (pdx va) = page2pa D OR 5" using uv(1) by simp
    then have "\<not> allows True True (entry t D (pdx va))" using uv(3) by (simp add: allows_def)
    then show ?thesis unfolding hw_translate_eq [OF D] by simp
  qed
  moreover have "table_at t D (pdx UVPT) \<in> {None, Some D}"
    using uv(1,2) unfolding table_at_def by (simp only:) simp
  ultimately show ?thesis using o unfolding sandbox_def by blast
qed

section \<open>The image of the program\<close>

lemma vm_mem_frame:
  assumes "x < 0x100000" "K < 0x100000" "unat a div 4096 \<noteq> x"
  shows "vm_mem m x K a = m a"
proof -
  have l: "pdx UVPT < 1024" by (rule pdx_less)
  have "memcpy m' (page2pa x) (page2pa K) 4096 a = m' a" for m'
  proof -
    have "memcpy m' (page2pa x) (page2pa K) 4096 = block_copy m' (page2pa x) (page2pa K) 4096"
      using assms unfolding memcpy_def by (subst memmove_copy) (simp_all add: unat_page2pa)
    then show ?thesis using outside_page [OF assms(1,3)] by (simp add: block_copy_def)
  qed
  moreover have "memset m (page2pa x) 0 4096 a = m a" using assms by (intro memset_in_page) simp_all
  ultimately show ?thesis
    unfolding vm_mem_def using store32_frame [OF assms(1) l assms(3)] by simp
qed

lemma elf_format_cong:
  assumes "elf_format s binary sz segs" "\<And>i. i < sz \<Longrightarrow> mem t (kv2p (binary + of_nat i)) = mem s (kv2p (binary + of_nat i))"
  shows "elf_format t binary sz segs" "e_entry t binary = e_entry s binary"
proof -
  have f: "48 \<le> sz" "unat (e_phoff s binary) + 32 * length segs \<le> sz" using assms(1) by (simp_all add: elf_format_def)
  have k: "kload t (binary + of_nat j) = kload s (binary + of_nat j)" if "j + 4 \<le> sz" for j
    using image_word [OF assms(2) that] by blast
  have h: "e_magic t binary = e_magic s binary" "e_phoff t binary = e_phoff s binary" "e_phnum t binary = e_phnum s binary"
    using k [of 0] k [of 28] k [of 44] f(1) by (simp_all add: e_magic_def e_phoff_def e_phnum_def)
  show "e_entry t binary = e_entry s binary" using k [of 24] f(1) by (simp add: e_entry_def)
  have "segment_at t (binary + of_nat (unat (e_phoff s binary) + 32 * j)) = segment_at s (binary + of_nat (unat (e_phoff s binary) + 32 * j))"
    if "j < length segs" for j
  proof -
    have "unat (e_phoff s binary) + 32 * j + 32 \<le> sz" using f(2) that by linarith
    from image_fields [OF refl this assms(2)] show ?thesis by (simp add: segment_at_def)
  qed
  then show "elf_format t binary sz segs" using assms(1) unfolding elf_format_def h by metis
qed

section \<open>env_create at the start\<close>

lemma env_create_first:
  fixes s :: "'z env_state_scheme"
  assumes wf: "pt_wf s K (x # xs)" and K: "kern_pgdir s = pgdir_kva K"
    and fl: "env_free_list s = Some e" "e < length (envs s)"
    and z: "\<And>d. d < user_slots \<Longrightarrow> entry s K d = 0" and r: "\<And>g. g \<in> set (x # xs) \<Longrightarrow> pp_ref (pages s ! g) = 0"
    and lay: "\<And>va. user_slots \<le> pdx va \<Longrightarrow> pdx va \<in> slots \<Longrightarrow> \<not> allows True True (pt_entry s K va)"
    and img: "elf_format s binary sz segs" "KERNBASE \<le> binary" "unat binary + sz < 2 ^ 32"
      "\<And>i. i < sz \<Longrightarrow> unat (kv2p (binary + of_nat i)) div 4096 \<notin> insert x (tables s K \<union> set xs)"
    and m: "2 * (sum_list (map seg_pages segs) + 1) \<le> length xs"
    and st: "\<And>sg. sg \<in> set segs \<Longrightarrow> seg_addrs sg \<inter> stack_addrs = {}"
  obtains t ys where "env_create s binary type' = Some (Inr t)" "sandbox t x ys"
    "\<And>sg. sg \<in> set segs \<Longrightarrow> loaded (\<lambda>i. mem s (kv2p (binary + of_nat i))) t x sg \<and> (\<forall>v \<in> seg_addrs sg. user_page t x v)"
    "\<And>v. v \<in> stack_addrs \<Longrightarrow> user_page t x v"
    "envs t = (envs s)[e := (envs s ! e)\<lparr>env_pgdir := pgdir_kva x, env_id := next_env_id (env_id (envs s ! e)) e,
       env_parent_id := 0, env_type := ENV_TYPE_USER, env_status := ENV_RUNNABLE, env_runs := 0,
       env_tf := new_env_tf\<lparr>tf_eip := e_entry s binary\<rparr>\<rparr>]"
    "curenv t = curenv s \<and> cpu_tables t = cpu_tables s \<and> env_state.more t = env_state.more s" "user_frames t x \<subseteq> set xs"
proof -
  have x: "x < length (pages s)" "K \<noteq> x"
    using free_pages_Cons(2) [OF pt_wfD(3) [OF wf]] pt_wfD(5) [OF wf] by auto
  have b: "x < 0x100000" "K < 0x100000" "K < 0x10000"
    using pt_wf_bound [OF wf x(1)] pt_wf_bound [OF wf pt_wfD(4) [OF wf]] by auto
  let ?new = "(envs s ! e)\<lparr>env_pgdir := pgdir_kva x, env_id := next_env_id (env_id (envs s ! e)) e, env_parent_id := 0,
    env_type := ENV_TYPE_USER, env_status := ENV_RUNNABLE, env_runs := 0, env_tf := new_env_tf\<rparr>"
  obtain c where a: "env_alloc s 0 = Inr ((0, Some e), (vm_state s e x K)\<lparr>envs := (envs s)[e := ?new],
      env_free_list := env_link (envs s ! e), console := c\<rparr>)"
    by (rule env_alloc_first [OF wf fl K, of 0]) blast
  define v where "v = vm_state s e x K"
  define u where "u = v\<lparr>envs := (envs s)[e := ?new], env_free_list := env_link (envs s ! e), console := c\<rparr>"
  have same: "mem u = mem v" "pages u = pages v" "npages u = npages v" "page_free_list u = page_free_list v"
    by (simp_all add: u_def)
  note cg = grows_cong [OF same]
  note half = vm_user_half [OF wf z r, where e = e, folded v_def]
  have mv: "mem v a = mem s a" if "unat a div 4096 \<noteq> x" for a
    using vm_mem_frame [OF b(1,2) that] by (simp add: v_def vm_state_def)
  have im: "mem u (kv2p (binary + of_nat i)) = mem s (kv2p (binary + of_nat i))" if "i < sz" for i
    using mv img(4) [OF that] unfolding same by blast
  note elf = elf_format_cong [OF img(1) im]
  have "tables v x = tables s K" using vm_state_tables [OF wf, of _ x e] by (simp add: tables_def v_def)
  then have "image_safe u x xs binary sz" using img(2-4) unfolding cg by (simp add: image_safe_def)
  then have image: "elf_image u x xs binary sz segs" using elf(1) by (simp add: elf_image_def)
  have ue: "e < length (envs u)" "env_pgdir (envs u ! e) = pgdir_kva x" "KERNBASE \<le> kern_pgdir u"
    using fl(2) pgdir_kva_ge [OF b(3)] K by (simp_all add: u_def v_def vm_state_def not_less)
  have ow: "owns u x xs" "unreferenced u xs" "\<And>w. w < UTOP \<Longrightarrow> \<not> present (pt_entry u x w)"
    using half unfolding cg by blast+
  obtain t ys where t: "load_icode u e binary = Some (Inr t)" "owns t x ys"
    "\<forall>sg \<in> set segs. loaded (\<lambda>i. mem u (kv2p (binary + of_nat i))) t x sg \<and> (\<forall>v \<in> seg_addrs sg. user_page t x v)"
    "\<forall>v \<in> stack_addrs. user_page t x v"
    "\<forall>w. pdx w \<in> slots \<longrightarrow> w \<notin> stack_addrs \<longrightarrow> w \<notin> \<Union> (seg_addrs ` set segs) \<longrightarrow> pt_entry t x w = pt_entry u x w"
    "same_rest (u\<lparr>envs := (envs u)[e := (envs u ! e)\<lparr>env_tf := (env_tf (envs u ! e))\<lparr>tf_eip := e_entry u binary\<rparr>\<rparr>],
      cr3 := kern_pgdir u - KERNBASE\<rparr>) t"
    "\<forall>d. user_slots \<le> d \<longrightarrow> d < 1024 \<longrightarrow> entry t x d = entry u x d"
    "\<forall>v. user_page t x v \<longrightarrow> frame_of (pt_entry t x v) \<in> set xs"
    using load_icode_run [OF ow(1,2) ue image m ow(3) st] by blast
  have ok: "seg_ok sz sg" if "sg \<in> set segs" for sg using img(1) that by (simp add: elf_format_def)
  have create: "env_create s binary type' = Some (Inr t)"
    using t(1) a by (simp add: env_create_def u_def v_def)
  have box: "sandbox t x ys"
  proof (rule sandboxI [OF t(2) _ vm_state_uvpt(2,3) [OF b(1,2) x(2)]])
    have "user_slots \<le> pdx UVPT" by (simp add: user_slots_def)
    then show "entry t x (pdx UVPT) = page2pa x OR 5"
      using t(7) pdx_less [of UVPT] vm_state_uvpt(1) [OF b(1,2) x(2), of s e] by (simp add: entry_def same v_def del: UVPT_def)
    fix va assume va: "user_slots \<le> pdx va" "pdx va \<in> slots"
    have "va \<notin> stack_addrs" using user_region_slots [OF stack_region(1), of va] va(1) by (auto simp: stack_addrs_def)
    moreover have "va \<notin> seg_addrs sg" if "sg \<in> set segs" for sg using seg_slot [OF ok [OF that], of va] va(1) by auto
    ultimately have "pt_entry t x va = pt_entry v x va" using t(5) va(2) unfolding cg by blast
    then show "\<not> allows True True (pt_entry t x va)"
      using lay [OF va] vm_state_pt_entry [OF wf va(2), of x e] by (simp add: v_def)
  qed
  have load: "loaded (\<lambda>i. mem s (kv2p (binary + of_nat i))) t x sg \<and> (\<forall>v \<in> seg_addrs sg. user_page t x v)" if sg: "sg \<in> set segs" for sg
    using t(3) sg loaded_cong [OF ok [OF sg], of "\<lambda>i. mem u (kv2p (binary + of_nat i))" "\<lambda>i. mem s (kv2p (binary + of_nat i))" t x] im
    by blast
  have "same_machine (s\<lparr>env_free_list := env_link (envs s ! e)\<rparr>) t"
  proof -
    have "same_machine (s\<lparr>env_free_list := env_link (envs s ! e)\<rparr>) (u\<lparr>envs := E, cr3 := r\<rparr>)" for E r by (simp add: same_machine_def u_def v_def vm_state_def)
    moreover from t(6) have "same_machine (u\<lparr>envs := (envs u)[e := (envs u ! e)\<lparr>env_tf := (env_tf (envs u ! e))\<lparr>tf_eip := e_entry u binary\<rparr>\<rparr>],
        cr3 := kern_pgdir u - KERNBASE\<rparr>) t"
      using same_machine_more unfolding same_rest_def by blast
    ultimately show ?thesis by (rule same_machine_trans)
  qed
  then have mach: "curenv t = curenv s \<and> cpu_tables t = cpu_tables s \<and> env_state.more t = env_state.more s"
    by (simp add: same_machine_def)
  have envs: "envs t = (envs s)[e := ?new\<lparr>env_tf := new_env_tf\<lparr>tf_eip := e_entry s binary\<rparr>\<rparr>]"
    using env_same_rest(1) [OF t(6)] fl(2) elf(2) by (simp add: u_def)
  show thesis
    by (rule that [OF create box load _ _ mach]) (use t(4,8) envs in \<open>auto simp: user_frames_def\<close>)
qed

section \<open>Into user mode\<close>

lemma env_run_first:
  fixes t :: "'z kernel_state_scheme"
  assumes box: "sandbox t D ys" and cu: "curenv t = None" and e: "live t e" "env_pgdir (envs t ! e) = pgdir_kva D"
    and ids: "ids_wf t" and fl: "eflags t AND FL_IF = 0" "tf_cs (env_tf (envs t ! e)) AND 3 = 3"
    and g: "gd_dpl (idt (cpu_tables t) ! T_SYSCALL) = 3" "gd_p (idt (cpu_tables t) ! T_SYSCALL) \<noteq> 0"
  obtains u where "env_run t e = Inr (env_tf (envs t ! e), u)" "mem u = mem t" "pages u = pages t" "npages u = npages t"
    "page_free_list u = page_free_list t" "user_runs (u\<lparr>stack_tf := env_tf (envs t ! e)\<rparr>) e D"
proof -
  have wf: "pt_wf t D ys" using box ownsD(1) unfolding sandbox_def by blast
  have D: "D < 0x10000" "D < 0x100000" using pt_wf_bound [OF wf pt_wfD(4) [OF wf]] by simp_all
  have l: "e < length (envs t)" using e(1) by (simp add: live_def)
  let ?v = "(envs t ! e)\<lparr>env_status := ENV_RUNNING, env_runs := env_runs (envs t ! e) + 1\<rparr>"
  let ?u = "t\<lparr>curenv := Some e, envs := (envs t)[e := ?v], cr3 := page2pa D\<rparr>"
  have pa: "PADDR (pgdir_kva D) = Inr (page2pa D)" using pgdir_kva_ge [OF D(1)] by (simp add: PADDR_def pgdir_kva_def)
  have run: "env_run t e = Inr (env_tf (envs t ! e), ?u)"
    using l by (simp add: env_run_def cu upd_env_def e(2) pa)
  let ?w = "?u\<lparr>stack_tf := env_tf (envs t ! e)\<rparr>"
  have lv: "live ?w i = live t i" for i using e(1) by (cases "i = e") (simp_all add: live_def)
  have "env_id (envs ?w ! i) = env_id (envs t ! i)" for i using l by (cases "i = e") simp_all
  then have "ids_wf ?w" using ids lv by (simp add: ids_wf_def)
  moreover have "tables_ok ?w D"
  proof -
    have ta: "table_at ?w D d = table_at t D d" for d by (rule table_at_mem) simp
    have "f < length (pages t)" if "d < 1024" "table_at t D d = Some f" for d f
    proof (cases "d \<in> slots")
      case True
      then show ?thesis using pt_wf_table [OF wf _ that(2)] by blast
    next
      case False
      then have "d = pdx UVPT" using that(1) by (simp add: slots_def pdx_def)
      then show ?thesis using box that(2) pt_wfD(4) [OF wf] by (auto simp: sandbox_def)
    qed
    then show ?thesis using pt_wfD(1,2,4) [OF wf] unfolding tables_ok_def pages_wf_def ta by simp
  qed
  ultimately have "user_runs ?w e D"
    using l e lv fl g D(2) by (simp add: user_runs_def caller_def user_trap_def)
  with run show thesis by (intro that [of ?u]) simp_all
qed

section \<open>All of it\<close>

lemma end_page: "ROUNDUP a PGSIZE = kpage k \<Longrightarrow> k < 0x10000 \<Longrightarrow> unat a \<le> 0xF0000000 + 4096 * k"
proof -
  assume r: "ROUNDUP a PGSIZE = kpage k" "k < 0x10000"
  have u: "unat (ROUNDUP a PGSIZE) = 0xF0000000 + 4096 * k" using r by (simp only: unat_kpage)
  have nw: "unat a + 4095 < 2 ^ 32"
  proof (rule ccontr)
    assume "\<not> ?thesis"
    moreover have "unat (a + 4095) = (unat a + 4095) mod 2 ^ 32" by (simp add: unat_word_ariths)
    moreover have "unat a < 2 ^ 32" using unat_u32_lt [of a] by simp
    ultimately have "unat (a + 4095) < 4096" by (simp add: mod_if) arith
    moreover have "unat (ROUNDUP a PGSIZE) \<le> unat (a + 4095)"
      unfolding ROUNDUP_def by (simp add: unat_ROUNDDOWN add.commute [of a])
    ultimately show False using u by simp
  qed
  then have "unat (ROUNDUP a PGSIZE) = (unat a + 4095) div 4096 * 4096" by (subst unat_ROUNDUP) simp_all
  then show ?thesis using u by linarith
qed

text \<open>The bytes of the image lie below \<open>edata\<close>, in pages of the kernel.\<close>

lemma image_page:
  assumes "KERNBASE + 0x100000 \<le> a" "unat a < unat edata" "unat edata \<le> unat kend" "ROUNDUP kend PGSIZE = kpage k" "k < 0x10000"
  shows "unat (kv2p a) div 4096 \<in> {256..<k}" "mem (clear_bss edata kend s) (kv2p a) = mem s (kv2p a)"
proof -
  have lo: "0xF0100000 \<le> unat a" using assms(1) by (simp add: word_le_nat_alt)
  have "unat (kv2p a) = unat a - 0xF0000000" using lo by (simp add: kv2p_def unat_sub word_le_nat_alt)
  moreover have "unat a < 0xF0000000 + 4096 * k" using end_page [OF assms(4,5)] assms(2,3) by linarith
  ultimately have "256 \<le> unat (kv2p a) div 4096" "unat (kv2p a) div 4096 < k" using lo by linarith+
  then show "unat (kv2p a) div 4096 \<in> {256..<k}" by simp
  show "mem (clear_bss edata kend s) (kv2p a) = mem s (kv2p a)" by (rule clear_bss_mem [OF assms(2,3)])
qed

lemma detected: "npages (i386_detect_memory cmos s) = fst (memory_kb cmos) div (PGSIZE div 1024)"
  by (simp add: i386_detect_memory_def split_beta Let_def)

lemma pmap_same:
  assumes "mem t = mem s" "pages t = pages s" "npages t = npages s" "page_free_list t = page_free_list s"
  shows "pt_wf t D xs = pt_wf s D xs" "pt_entry t D va = pt_entry s D va" "entry t D e = entry s D e" "tables t D = tables s D"
proof -
  show "pt_entry t D va = pt_entry s D va" "entry t D e = entry s D e" by (simp_all add: pt_entry_mem [OF assms(1)] entry_def assms(1))
  show "tables t D = tables s D" by (rule owns_cong(5) [OF assms])
  have "page_link t = page_link s" using assms(2) by (simp add: page_link_def fun_eq_iff)
  then show "pt_wf t D xs = pt_wf s D xs"
    using assms by (simp add: pt_wf_def pages_wf_def free_pages_def page_cap_def table_at_mem [OF assms(1)])
qed

text \<open>From the boot loader to the creation of the first environment.\<close>

lemma i386_init_tables:
  fixes s :: "'z kernel_state_scheme"
  defines "b d \<equiv> at_boot (d :: start_data)"
  assumes kend: "ROUNDUP (kernel_end (b d)) PGSIZE = kpage k"
    and n: "n = unat (fst (memory_kb (cmos_ram (b d))) div (PGSIZE div 1024))" and e: "enough k n"
    and st: "KERNBASE \<le> boot_stack (b d)" "unat (boot_stack (b d) - KERNBASE) mod 4096 = 0"
    and disp: "display_ok (cga_init (has_colour d) (screen_cells d) (cons_cleared (dev s)))"
  obtains t xs where
    "i386_init d s = bindo (env_create t (program d) ENV_TYPE_USER)
       (\<lambda>s. bindo (Some (env_run s 0)) (\<lambda>(tf, s). Some (Inr (new_cr0 (rcr0 (b d)), tf, s))))"
    "pt_wf t k xs" "kern_pgdir t = pgdir_kva k" "\<And>i. i < user_slots \<Longrightarrow> entry t k i = 0"
    "\<And>va. pdx va \<in> slots \<Longrightarrow> pt_entry t k va =
       kern_layout (page2pa (k + 1)) (page2pa (k + 1 + array_pages n)) (boot_stack (b d) - KERNBASE) va"
    "\<And>g. g \<in> set xs \<Longrightarrow> pp_ref (pages t ! g) = 0" "set xs \<union> tables t k \<subseteq> usable k n" "length xs = 92 + (n - first_free k n)"
    "\<And>a. unat a div 4096 \<notin> insert k (usable k n) \<Longrightarrow> mem t a = mem (clear_bss (edata_addr d) (kernel_end (b d)) s) a"
    "env_free_list t = Some 0" "curenv t = None" "length (envs t) = 1024" "eflags t = eflags s"
    "\<And>i. i < 1024 \<Longrightarrow> env_id (envs t ! i) = 0 \<and> env_status (envs t ! i) = env_status (old_envs (b d) i)"
    "idt (cpu_tables t) ! T_SYSCALL = SETGATE False GD_KT (trap_vectors d 48) 3"
proof -
  let ?s1 = "clear_bss (edata_addr d) (kernel_end (b d)) s"
  have "dev ?s1 = cons_cleared (dev s)" by (simp add: clear_bss_def)
  then obtain dv where dv: "cons_init (has_colour d) (screen_cells d) (dev ?s1) = Inr dv" using cons_init_runs disp by fastforce
  define s2 where "s2 = cprintf (''6828 decimal is %o octal!'' @ nl) [6828] (?s1\<lparr>dev := dv\<rparr>)"
  have z: "nextfree s2 = 0" "page_free_list s2 = None" "curenv s2 = None" "env_free_list s2 = None"
    "idt (cpu_tables s2) = replicate 256 gate_zero" "eflags s2 = eflags s" "mem s2 = mem ?s1"
    by (simp_all add: s2_def cprintf_def clear_bss_def)
  have n2: "n = unat (npages (i386_detect_memory (cmos_ram (b d)) s2))" unfolding detected by (rule n)
  obtain s3 xs where s3: "mem_init (b d) s2 = Some (Inr (kpage (k + 1 + array_pages n), new_cr0 (rcr0 (b d)), s3))"
    "mem_ready k n (b d) s2 s3 xs"
    using mem_init_spec [OF z(1,2) kend n2 e st] by blast
  note R = s3(2) [unfolded mem_ready_def]
  have mach: "curenv s3 = None" "env_free_list s3 = None" "cpu_tables s3 = cpu_tables s2" "eflags s3 = eflags s"
  proof -
    have m: "same_machine s2 s3" using R by blast
    then have "env_state.more s3 = env_state.more s2" by (simp add: same_machine_def)
    then have "eflags s3 = eflags s2" by (cases s2; cases s3) simp
    then show "curenv s3 = None" "env_free_list s3 = None" "cpu_tables s3 = cpu_tables s2" "eflags s3 = eflags s"
      using m z by (simp_all add: same_machine_def)
  qed
  define s4 where "s4 = s3\<lparr>envs_addr := kpage (k + 1 + array_pages n)\<rparr>"
  have en: "envs s4 = map (old_envs (b d)) [0..<1024]" "env_free_list s4 = None" using R mach(2) by (simp_all add: s4_def)
  have l4: "length (envs s4) = 1024" unfolding en by simp
  from env_init_order [OF l4 en(2), of "gdt_addr d"] obtain t0 where t0: "env_init (gdt_addr d) s4 = Inr t0"
    "free_envs t0 [0..<1024]" "\<forall>i < 1024. env_id (envs t0 ! i) = 0 \<and> env_status (envs t0 ! i) = env_status (envs s4 ! i)" by blast
  obtain E F where EF: "t0 = s4\<lparr>envs := E, env_free_list := F, cpu_tables := env_init_percpu (gdt_addr d) (cpu_tables s4)\<rparr>"
    "length E = length (envs s4)" by (rule env_init_form [OF t0(1)])
  define t where "t = t0\<lparr>cpu_tables := trap_init (trap_vectors d) (ts_addr d) (idt_addr d) (cpu_tables t0)\<rparr>"
  have same: "mem t = mem s3" "pages t = pages s3" "npages t = npages s3" "page_free_list t = page_free_list s3"
    by (simp_all add: t_def EF(1) s4_def)
  note cg = pmap_same [OF same]
  have "[0..<1024] = 0 # [1..<1024 :: nat]" by (subst upt_conv_Cons) simp_all
  then have f0: "env_free_list t0 = Some 0" using t0(2) by (simp only: free_envs_def) simp
  have run: "i386_init d s = bindo (env_create t (program d) ENV_TYPE_USER)
       (\<lambda>s. bindo (Some (env_run s 0)) (\<lambda>(tf, s). Some (Inr (new_cr0 (rcr0 (b d)), tf, s))))"
    using dv s3(1) t0(1) unfolding i386_init_def b_def Let_def s2_def s4_def t_def by simp
  have old: "env_id (envs t ! i) = 0 \<and> env_status (envs t ! i) = env_status (old_envs (b d) i)" if "i < 1024" for i
    using t0(3) that unfolding en(1) by (simp add: t_def del: upt_Suc)
  have idt: "idt (cpu_tables t) ! T_SYSCALL = SETGATE False GD_KT (trap_vectors d 48) 3"
  proof -
    have "idt (cpu_tables t0) = replicate 256 gate_zero" using mach(3) z(5) by (simp add: EF(1) s4_def env_init_percpu_def)
    then have l: "length (idt (cpu_tables t0)) = 256" by simp
    show ?thesis using trap_init_nth [OF l, of 48 "trap_vectors d" "ts_addr d" "idt_addr d"] by (simp add: t_def installed_def)
  qed
  show thesis
  proof (rule that [OF run])
    show "pt_wf t k xs" "kern_pgdir t = pgdir_kva k" using R unfolding cg by (blast, simp add: t_def EF(1) s4_def)
    show "entry t k i = 0" if "i < user_slots" for i using R that unfolding cg user_slots_UTOP by blast
    show "pt_entry t k va = kern_layout (page2pa (k + 1)) (page2pa (k + 1 + array_pages n)) (boot_stack (b d) - KERNBASE) va"
      if "pdx va \<in> slots" for va using R that unfolding cg by blast
    show "pp_ref (pages t ! g) = 0" if "g \<in> set xs" for g using R that unfolding same by blast
    show "set xs \<union> tables t k \<subseteq> usable k n" using R unfolding cg by blast
    show "length xs = 92 + (n - first_free k n)" using R card_usable [OF e] by simp
    show "mem t a = mem ?s1 a" if "unat a div 4096 \<notin> insert k (usable k n)" for a using R that unfolding same z(7) [symmetric] by blast
    show "env_free_list t = Some 0" "curenv t = None" "length (envs t) = 1024" "eflags t = eflags s"
      using f0 mach EF(2) l4 by (simp_all add: t_def) (simp_all add: EF(1) s4_def)
  qed (use old idt in blast)+
qed

lemma first_ids:
  assumes E: "length (envs s) = 1024" "\<And>i. i < 1024 \<Longrightarrow> env_id (envs s ! i) = 0 \<and> env_status (envs s ! i) = ENV_FREE"
    and t: "envs t = (envs s)[0 := v]" "env_id v = next_env_id 0 0" "env_status v = ENV_RUNNABLE"
  shows "ids_wf t" "live t 0"
proof -
  note p = next_env_id_props [of 0 0, simplified]
  have nth: "envs t ! i = (if i = 0 then v else envs s ! i)" if "i < 1024" for i using t(1) E(1) that by (simp add: nth_list_update)
  show "live t 0" using t E(1) nth [of 0] by (simp add: live_def)
  have "i = 0" if "live t i" for i
  proof (rule ccontr)
    assume "i \<noteq> 0"
    moreover have i: "i < 1024" using that E(1) t(1) by (simp add: live_def)
    ultimately have "envs t ! i = envs s ! i" using nth by simp
    then show False using E(2) [OF i] that by (simp add: live_def)
  qed
  moreover have "length (envs t) = 1024" using t(1) E(1) by simp
  ultimately show "ids_wf t" using E(2) t(2,3) p nth unfolding ids_wf_def by (simp split: if_splits)
qed

text \<open>What the start needs: memory beyond the kernel and its arrays, an aligned boot stack, a display with the
  cursor on the screen, interrupts off, and a well-formed image of the program between the kernel's first
  page and \<open>edata\<close> that fits into the memory left and keeps clear of the stack page. The memory of the environment array
  must happen to hold zeros in its status fields: nothing clears them.\<close>

definition startable :: "start_data \<Rightarrow> 'z kernel_state_scheme \<Rightarrow> nat \<Rightarrow> nat \<Rightarrow> nat \<Rightarrow> segment list \<Rightarrow> bool" where
  "startable d s k n sz segs \<longleftrightarrow>
     ROUNDUP (kernel_end (at_boot d)) PGSIZE = kpage k \<and> enough k n \<and>
     n = unat (fst (memory_kb (cmos_ram (at_boot d))) div (PGSIZE div 1024)) \<and>
     KERNBASE \<le> boot_stack (at_boot d) \<and> unat (boot_stack (at_boot d) - KERNBASE) mod 4096 = 0 \<and>
     display_ok (cga_init (has_colour d) (screen_cells d) (cons_cleared (dev s))) \<and> eflags s AND FL_IF = 0 \<and>
     (\<forall>i < 1024. env_status (old_envs (at_boot d) i) = ENV_FREE) \<and>
     elf_format s (program d) sz segs \<and> KERNBASE + 0x100000 \<le> program d \<and> unat (program d) + sz \<le> unat (edata_addr d) \<and>
     unat (edata_addr d) \<le> unat (kernel_end (at_boot d)) \<and>
     2 * (sum_list (map seg_pages segs) + 1) \<le> 91 + (n - first_free k n) \<and>
     (\<forall>sg \<in> set segs. seg_addrs sg \<inter> stack_addrs = {})"

lemma startable_image:
  assumes "startable d s k n sz segs" "i < sz"
  shows "unat (kv2p (program d + of_nat i)) div 4096 \<in> {256..<k}"
    "mem (clear_bss (edata_addr d) (kernel_end (at_boot d)) s) (kv2p (program d + of_nat i)) = mem s (kv2p (program d + of_nat i))"
proof -
  have b: "KERNBASE + 0x100000 \<le> program d" "unat (program d) + sz \<le> unat (edata_addr d)" "unat (edata_addr d) \<le> unat (kernel_end (at_boot d))"
    "ROUNDUP (kernel_end (at_boot d)) PGSIZE = kpage k" "k < 0x10000"
    using assms(1) by (simp_all add: startable_def enough_def first_free_def del: KERNBASE_def)
  have nw: "unat (program d) + sz < 2 ^ 32" using b(2) unat_u32_lt [of "edata_addr d"] by simp
  have i: "unat (of_nat i :: u32) = i" using assms(2) nw by (intro unat_of_nat_u32) simp
  have a: "unat (program d + of_nat i) = unat (program d) + i" using assms(2) nw i by (subst unat_add_no_wrap) simp_all
  have "KERNBASE + 0x100000 \<le> program d + of_nat i" "unat (program d + of_nat i) < unat (edata_addr d)"
    using b(1,2) assms(2) a by (simp_all add: word_le_nat_alt)
  from image_page [OF this b(3-5)]
  show "unat (kv2p (program d + of_nat i)) div 4096 \<in> {256..<k}"
    "mem (clear_bss (edata_addr d) (kernel_end (at_boot d)) s) (kv2p (program d + of_nat i)) = mem s (kv2p (program d + of_nat i))" .
qed

text \<open>Up to the creation of the environment.\<close>

lemma i386_init_created:
  fixes s :: "'z kernel_state_scheme"
  assumes boot: "startable d s k n sz segs"
  obtains t x ys where
    "i386_init d s = bindo (Some (env_run t 0)) (\<lambda>(tf, s). Some (Inr (new_cr0 (rcr0 (at_boot d)), tf, s)))" "sandbox t x ys"
    "\<And>sg. sg \<in> set segs \<Longrightarrow> loaded (\<lambda>i. mem s (kv2p (program d + of_nat i))) t x sg \<and> (\<forall>v \<in> seg_addrs sg. user_page t x v)"
    "\<And>v. v \<in> stack_addrs \<Longrightarrow> user_page t x v"
    "env_pgdir (envs t ! 0) = pgdir_kva x" "env_tf (envs t ! 0) = new_env_tf\<lparr>tf_eip := e_entry s (program d)\<rparr>"
    "ids_wf t" "live t 0" "curenv t = None" "eflags t = eflags s"
    "idt (cpu_tables t) ! T_SYSCALL = SETGATE False GD_KT (trap_vectors d 48) 3" "user_frames t x \<subseteq> usable k n"
proof -
  note B = boot [unfolded startable_def]
  have e: "enough k n" using B by blast
  have b: "ROUNDUP (kernel_end (at_boot d)) PGSIZE = kpage k"
    "n = unat (fst (memory_kb (cmos_ram (at_boot d))) div (PGSIZE div 1024))" "enough k n"
    "KERNBASE \<le> boot_stack (at_boot d)" "unat (boot_stack (at_boot d) - KERNBASE) mod 4096 = 0"
    "display_ok (cga_init (has_colour d) (screen_cells d) (cons_cleared (dev s)))" using B by blast+
  let ?b = "at_boot d" and ?prog = "program d"
  obtain u xs where u: "i386_init d s = bindo (env_create u ?prog ENV_TYPE_USER)
       (\<lambda>s. bindo (Some (env_run s 0)) (\<lambda>(tf, s). Some (Inr (new_cr0 (rcr0 ?b), tf, s))))"
    "pt_wf u k xs" "kern_pgdir u = pgdir_kva k" "\<And>i. i < user_slots \<Longrightarrow> entry u k i = 0"
    "\<And>va. pdx va \<in> slots \<Longrightarrow> pt_entry u k va =
       kern_layout (page2pa (k + 1)) (page2pa (k + 1 + array_pages n)) (boot_stack ?b - KERNBASE) va"
    "\<And>g. g \<in> set xs \<Longrightarrow> pp_ref (pages u ! g) = 0" "set xs \<union> tables u k \<subseteq> usable k n" "length xs = 92 + (n - first_free k n)"
    "\<And>a. unat a div 4096 \<notin> insert k (usable k n) \<Longrightarrow> mem u a = mem (clear_bss (edata_addr d) (kernel_end ?b) s) a"
    "env_free_list u = Some 0" "curenv u = None" "length (envs u) = 1024" "eflags u = eflags s"
    "\<And>i. i < 1024 \<Longrightarrow> env_id (envs u ! i) = 0 \<and> env_status (envs u ! i) = env_status (old_envs ?b i)"
    "idt (cpu_tables u) ! T_SYSCALL = SETGATE False GD_KT (trap_vectors d 48) 3"
    by (rule i386_init_tables [OF b]) blast
  obtain x ys where xs: "xs = x # ys" using u(8) by (cases xs) auto
  have out: "g \<notin> insert k (usable k n)" if "g \<in> {256..<k}" for g using that by (auto simp: usable_def first_free_def)
  have im: "mem u (kv2p (?prog + of_nat i)) = mem s (kv2p (?prog + of_nat i))" if "i < sz" for i
    using u(9) [OF out] startable_image [OF boot that] by simp
  have img: "elf_format s ?prog sz segs" "KERNBASE \<le> ?prog" "unat ?prog + sz < 2 ^ 32"
    using B unat_u32_lt [of "edata_addr d"] by (simp_all add: word_le_nat_alt)
  note elf = elf_format_cong [OF img(1) im]
  have avoid: "unat (kv2p (?prog + of_nat i)) div 4096 \<notin> insert x (tables u k \<union> set ys)" if "i < sz" for i
    using out [OF startable_image(1) [OF boot that]] u(7) unfolding xs by auto
  have lay: "\<not> allows True True (pt_entry u k va)" if "pdx va \<in> slots" for va
    unfolding u(5) [OF that] using B e
    by (intro kern_layout_no_user_write) (simp_all add: unat_page2pa first_free_def enough_def)
  have m: "2 * (sum_list (map seg_pages segs) + 1) \<le> length ys"
  proof -
    have "2 * (sum_list (map seg_pages segs) + 1) \<le> 91 + (n - first_free k n)" using B by blast
    then show ?thesis using u(8) xs by simp
  qed
  have st: "\<And>sg. sg \<in> set segs \<Longrightarrow> seg_addrs sg \<inter> stack_addrs = {}" using B by blast
  have l: "0 < length (envs u)" using u(12) by simp
  have free: "env_id (envs u ! i) = 0 \<and> env_status (envs u ! i) = ENV_FREE" if "i < 1024" for i
    using u(14) B that by simp
  then have id0: "env_id (envs u ! 0) = 0" by simp
  obtain t zs where t: "env_create u ?prog ENV_TYPE_USER = Some (Inr t)" "sandbox t x zs"
    "\<And>sg. sg \<in> set segs \<Longrightarrow> loaded (\<lambda>i. mem u (kv2p (?prog + of_nat i))) t x sg \<and> (\<forall>v \<in> seg_addrs sg. user_page t x v)"
    "\<And>v. v \<in> stack_addrs \<Longrightarrow> user_page t x v"
    "envs t = (envs u)[0 := (envs u ! 0)\<lparr>env_pgdir := pgdir_kva x, env_id := next_env_id (env_id (envs u ! 0)) 0,
       env_parent_id := 0, env_type := ENV_TYPE_USER, env_status := ENV_RUNNABLE, env_runs := 0,
       env_tf := new_env_tf\<lparr>tf_eip := e_entry u ?prog\<rparr>\<rparr>]"
    "curenv t = curenv u \<and> cpu_tables t = cpu_tables u \<and> env_state.more t = env_state.more u" "user_frames t x \<subseteq> set ys"
    using env_create_first [OF u(2) [unfolded xs] u(3,10) l u(4) u(6) [unfolded xs] lay elf(1) img(2,3) avoid m st] by blast
  have load: "loaded (\<lambda>i. mem s (kv2p (?prog + of_nat i))) t x sg \<and> (\<forall>a \<in> seg_addrs sg. user_page t x a)" if sg: "sg \<in> set segs" for sg
  proof -
    have "seg_ok sz sg" using img(1) sg by (simp add: elf_format_def)
    from loaded_cong [OF this, of "\<lambda>i. mem u (kv2p (?prog + of_nat i))" "\<lambda>i. mem s (kv2p (?prog + of_nat i))" t x]
    show ?thesis using t(3) [OF sg] im by blast
  qed
  have "eflags t = eflags u" using t(6) by (cases t; cases u) simp
  moreover have "user_frames t x \<subseteq> usable k n" using t(7) u(7) unfolding xs by auto
  moreover have "ids_wf t" "live t 0" by (rule first_ids [OF u(12) free t(5)]; simp add: id0)+
  ultimately show thesis
    using u(1,11,13,15) t(1,2,4,6) load l elf(2) by (intro that [of t x zs]) (simp_all add: t(5))
qed

lemma i386_init_ready:
  fixes s :: "'z kernel_state_scheme"
  assumes "startable d s k n sz segs"
  shows "\<exists>cr0 tf t D ys. i386_init d s = Some (Inr (cr0, tf, t)) \<and> tf = new_env_tf\<lparr>tf_eip := e_entry s (program d)\<rparr> \<and>
    user_runs (t\<lparr>stack_tf := tf\<rparr>) 0 D \<and> sandbox (t\<lparr>stack_tf := tf\<rparr>) D ys \<and>
    (\<forall>sg \<in> set segs. loaded (\<lambda>i. mem s (kv2p (program d + of_nat i))) t D sg \<and> (\<forall>v \<in> seg_addrs sg. user_page t D v)) \<and>
    (\<forall>v \<in> stack_addrs. user_page t D v) \<and> user_frames (t\<lparr>stack_tf := tf\<rparr>) D \<subseteq> usable k n"
proof -
  obtain t x ys where t: "i386_init d s = bindo (Some (env_run t 0)) (\<lambda>(tf, s). Some (Inr (new_cr0 (rcr0 (at_boot d)), tf, s)))"
    "sandbox t x ys"
    "\<And>sg. sg \<in> set segs \<Longrightarrow> loaded (\<lambda>i. mem s (kv2p (program d + of_nat i))) t x sg \<and> (\<forall>v \<in> seg_addrs sg. user_page t x v)"
    "\<And>v. v \<in> stack_addrs \<Longrightarrow> user_page t x v"
    "env_pgdir (envs t ! 0) = pgdir_kva x" "env_tf (envs t ! 0) = new_env_tf\<lparr>tf_eip := e_entry s (program d)\<rparr>"
    "ids_wf t" "live t 0" "curenv t = None" "eflags t = eflags s"
    "idt (cpu_tables t) ! T_SYSCALL = SETGATE False GD_KT (trap_vectors d 48) 3" "user_frames t x \<subseteq> usable k n"
    using i386_init_created [OF assms] by blast
  have "eflags t AND FL_IF = 0" "tf_cs (env_tf (envs t ! 0)) AND 3 = 3"
    using assms unfolding t(6,10) startable_def by (blast, simp add: new_env_tf_def)
  moreover have "gd_dpl (idt (cpu_tables t) ! T_SYSCALL) = 3" "gd_p (idt (cpu_tables t) ! T_SYSCALL) \<noteq> 0"
    unfolding t(11) by (simp_all add: SETGATE_def)
  ultimately obtain v where v: "env_run t 0 = Inr (env_tf (envs t ! 0), v)" "mem v = mem t" "pages v = pages t" "npages v = npages t"
    "page_free_list v = page_free_list t" "user_runs (v\<lparr>stack_tf := env_tf (envs t ! 0)\<rparr>) 0 x"
    by (rule env_run_first [OF t(2,9,8,5,7)]) blast
  let ?w = "v\<lparr>stack_tf := env_tf (envs t ! 0)\<rparr>"
  have same: "mem ?w = mem t" "pages ?w = pages t" "npages ?w = npages t" "page_free_list ?w = page_free_list t"
    by (simp_all add: v(2-5))
  have "outside_same (user_frames t x) (mem t) (mem ?w)" unfolding same by (rule outside_same_refl)
  note kept = sandbox_kept(1,2) [OF t(2) this same(2-4)]
  note cg = grows_cong [OF v(2-5)]
  have run: "i386_init d s = Some (Inr (new_cr0 (rcr0 (at_boot d)), env_tf (envs t ! 0), v))" using t(1) v(1) by simp
  show ?thesis
  proof (intro exI conjI)
    show "i386_init d s = Some (Inr (new_cr0 (rcr0 (at_boot d)), env_tf (envs t ! 0), v))" by (rule run)
    show "user_runs ?w 0 x" "sandbox ?w x ys" by (rule v(6), rule kept)
    show "user_frames ?w x \<subseteq> usable k n" unfolding kept(2) by (rule t(12))
    show "env_tf (envs t ! 0) = new_env_tf\<lparr>tf_eip := e_entry s (program d)\<rparr>" by (rule t(6))
    show "\<forall>sg \<in> set segs. loaded (\<lambda>i. mem s (kv2p (program d + of_nat i))) v x sg \<and> (\<forall>a \<in> seg_addrs sg. user_page v x a)"
      "\<forall>a \<in> stack_addrs. user_page v x a" unfolding cg using t(3,4) by blast+
  qed
qed


section \<open>A machine for the witness\<close>

text \<open>4 MB of memory, a kernel that ends in page 272, the image of \<open>Load_Icode\<close> in page 268.\<close>

definition demo_start :: start_data where
  "demo_start = \<lparr>at_boot = demo_boot, edata_addr = 0xF010D000, gdt_addr = 0xF010A000, ts_addr = 0xF010E000, idt_addr = 0xF010F000,
     trap_vectors = demo_vectors, program = 0xF010C000, has_colour = True, screen_cells = replicate 2000 0x0720\<rparr>"

definition start_machine :: kernel_state where
  "start_machine = env_state.extend (bios_machine\<lparr>mem := words_at 268 demo_elf (\<lambda>_. 0)\<rparr>)
     \<lparr>dev = (blank_screen 0)\<lparr>port_in := \<lambda>p n. 0\<rparr>, cr2 = 0, eflags = 2, stack_tf = tf_zero, last_tf = None, envs_addr = 0\<rparr>"

lemma start_machine_word:
  assumes "j < 22"
  shows "kload start_machine (0xF010C000 + of_nat (4 * j)) = demo_elf ! j"
proof -
  have m: "mem start_machine = words_at 268 demo_elf (\<lambda>_. 0)" by (simp add: start_machine_def env_state.defs)
  have "(0xF010C000 :: u32) + of_nat (4 * j) = entry_pa 268 j + KERNBASE" by (simp add: entry_pa_def)
  then have "kload start_machine (0xF010C000 + of_nat (4 * j)) = entry start_machine 268 j" by (simp only: kload_entry)
  moreover have "length demo_elf = 22" by (simp add: demo_elf_def)
  ultimately show ?thesis using words_at_entry [of 268 268 j demo_elf "\<lambda>_. 0"] assms by (simp add: entry_def m)
qed

lemma start_machine_startable: "startable demo_start start_machine 273 1024 88 [(0x800020, 84, 4, 8)]"
proof -
  note elf = demo_elf_format [OF start_machine_word]
  have d: "at_boot demo_start = demo_boot" "program demo_start = 0xF010C000" "edata_addr demo_start = 0xF010D000"
    by (simp_all add: demo_start_def)
  have "display_ok (cga_init (has_colour demo_start) (screen_cells demo_start) (cons_cleared (dev start_machine)))"
    by (simp add: demo_start_def start_machine_def env_state.defs cga_init_def display_ok_def Let_def inb_def outb_def blank_screen_def cons_cleared_def)
  moreover have "unat (fst (memory_kb (cmos_ram demo_boot)) div (PGSIZE div 1024)) = 1024"
    using bios_machine_boots(4) unfolding detected by (simp add: demo_boot_def)
  moreover have "seg_addrs (0x800020, 84, 4, 8) \<inter> stack_addrs = {}"
    using region_addrs_iff(1) [of "0x800020" 8] region_addrs_iff(1) [of "USTACKTOP - PGSIZE" PGSIZE] by (auto simp: stack_addrs_def)
  moreover have "ROUNDUP (kernel_end demo_boot) PGSIZE = kpage 273" "enough 273 1024" "first_free 273 1024 = 300"
    using bios_machine_boots(3,5) by (simp_all add: demo_boot_def enough_def)
  moreover have "eflags start_machine AND FL_IF = 0" by (simp add: start_machine_def env_state.defs)
  moreover have "\<forall>i < 1024. env_status (old_envs demo_boot i) = ENV_FREE" by (simp add: demo_boot_def env_zero_def)
  moreover have "KERNBASE \<le> boot_stack demo_boot" "unat (boot_stack demo_boot - KERNBASE) mod 4096 = 0" "kernel_end demo_boot = 0xF0110004"
    by (simp_all add: demo_boot_def)
  ultimately show ?thesis using elf(1) unfolding startable_def d by (simp add: region_pages_def)
qed


section \<open>From power on to any program\<close>



end
