(* ===== verification/Trap_Entry.thy ===== *)
theory Trap_Entry
  imports Trap
begin

text \<open>
  The way into the kernel and out of it: the entry points of \<open>kern/trapentry.S\<close> and \<open>env_pop_tf\<close> of
  \<open>kern/env.c\<close>, instruction by instruction, on a processor with registers and the kernel's stack.

  The main results say that what the entry points leave on the stack is the \<open>struct Trapframe\<close> that \<open>trap\<close>
  reads, with the registers of the interrupted program, for every vector \<open>trap_init\<close> installs; and that
  \<open>env_pop_tf\<close> gives a program exactly the registers of its frame, so that a trap changes nothing in it
  but what the kernel writes into the frame.
\<close>

section \<open>The processor\<close>

record cpu =
  r_eax :: u32
  r_ecx :: u32
  r_edx :: u32
  r_ebx :: u32
  r_esp :: u32
  r_ebp :: u32
  r_esi :: u32
  r_edi :: u32
  r_eip :: u32
  r_eflags :: u32
  r_cs :: u16
  r_ds :: u16
  r_es :: u16
  r_ss :: u16

datatype instr = Pushl u32 | Push_ds | Push_es | Pushal | Movw_ax u16 | Mov_ax_ds | Mov_ax_es | Push_esp
  | Mov_esp u32 | Popal | Pop_es | Pop_ds | Addl_esp u32 | Iret

text \<open>The stack is memory at the addresses the processor uses.\<close>

definition push :: "u32 \<Rightarrow> cpu \<times> memory \<Rightarrow> cpu \<times> memory" where
  "push w = (\<lambda>(c, m). (c\<lparr>r_esp := r_esp c - 4\<rparr>, store32 m (r_esp c - 4) w))"

fun exec :: "instr \<Rightarrow> cpu \<times> memory \<Rightarrow> cpu \<times> memory" where
  "exec (Pushl w) (c, m) = push w (c, m)"
| "exec Push_ds (c, m) = push (ucast (r_ds c)) (c, m)"
| "exec Push_es (c, m) = push (ucast (r_es c)) (c, m)"
| "exec Pushal (c, m) =
     fold push [r_eax c, r_ecx c, r_edx c, r_ebx c, r_esp c, r_ebp c, r_esi c, r_edi c] (c, m)"
| "exec (Movw_ax w) (c, m) = (c\<lparr>r_eax := (r_eax c AND 0xFFFF0000) OR ucast w\<rparr>, m)"
| "exec Mov_ax_ds (c, m) = (c\<lparr>r_ds := ucast (r_eax c)\<rparr>, m)"
| "exec Mov_ax_es (c, m) = (c\<lparr>r_es := ucast (r_eax c)\<rparr>, m)"
| "exec Push_esp (c, m) = push (r_esp c) (c, m)"
| "exec (Mov_esp a) (c, m) = (c\<lparr>r_esp := a\<rparr>, m)"
| "exec Popal (c, m) =
     (let e = r_esp c
      in (c\<lparr>r_edi := load32 m e, r_esi := load32 m (e + 4), r_ebp := load32 m (e + 8), r_ebx := load32 m (e + 16),
            r_edx := load32 m (e + 20), r_ecx := load32 m (e + 24), r_eax := load32 m (e + 28), r_esp := e + 32\<rparr>, m))"
| "exec Pop_es (c, m) = (c\<lparr>r_es := ucast (load32 m (r_esp c)), r_esp := r_esp c + 4\<rparr>, m)"
| "exec Pop_ds (c, m) = (c\<lparr>r_ds := ucast (load32 m (r_esp c)), r_esp := r_esp c + 4\<rparr>, m)"
| "exec (Addl_esp n) (c, m) = (c\<lparr>r_esp := r_esp c + n\<rparr>, m)"
| "exec Iret (c, m) =
     (let e = r_esp c; cs = ucast (load32 m (e + 4)) :: u16;
          d = c\<lparr>r_eip := load32 m e, r_cs := cs, r_eflags := load32 m (e + 8), r_esp := e + 12\<rparr>
      in (if cs AND 3 > r_cs c AND 3 then d\<lparr>r_esp := load32 m (e + 12), r_ss := ucast (load32 m (e + 16))\<rparr> else d, m))"

text \<open>The exceptions for which the processor pushes an error code, and what it does on a trap through an
  interrupt gate: from user mode it changes to the stack of the task state first.\<close>

definition pushes_code :: "nat \<Rightarrow> bool" where
  "pushes_code v \<longleftrightarrow> v \<in> {8, 10, 11, 12, 13, 14, 17}"

definition take_trap :: "Taskstate \<Rightarrow> Gatedesc \<Rightarrow> nat \<Rightarrow> u32 \<Rightarrow> cpu \<times> memory \<Rightarrow> cpu \<times> memory" where
  "take_trap tss gate v err = (\<lambda>(c, m).
     let code = (if pushes_code v then [err] else []);
         ret = [r_eflags c, ucast (r_cs c), r_eip c] @ code;
         d = c\<lparr>r_eip := gate_offset gate, r_cs := gd_sel gate, r_eflags := r_eflags c AND NOT 0x34300\<rparr>
     in if r_cs c AND 3 = 3
        then fold push ([ucast (r_ss c), r_esp c] @ ret) (d\<lparr>r_esp := ts_esp0 tss, r_ss := ts_ss0 tss\<rparr>, m)
        else fold push ret (d, m))"

section \<open>kern/trapentry.S\<close>

definition EC :: "nat \<Rightarrow> instr list" where "EC v = [Pushl (of_nat v)]"
definition NOEC :: "nat \<Rightarrow> instr list" where "NOEC v = [Pushl 0, Pushl (of_nat v)]"

text \<open>The table \<open>vectors\<close>, with the instructions at each address; \<open>None\<close> is an entry that is 0.\<close>

definition vectors :: "instr list option list" where
  "vectors = [Some (NOEC 0), Some (NOEC 1), None, Some (NOEC 3), Some (NOEC 4), Some (NOEC 5), Some (NOEC 6), Some (NOEC 7),
     Some (EC 8), Some (NOEC 9), Some (EC 10), Some (EC 11), Some (EC 12), Some (EC 13), Some (EC 14), None, Some (NOEC 16)] @
     replicate (124 div 4) None @ [Some (NOEC 48)]"

definition alltraps :: "instr list" where
  "alltraps = [Push_ds, Push_es, Pushal, Movw_ax (ucast GD_KD), Mov_ax_ds, Mov_ax_es, Push_esp]"

text \<open>From the trap to \<open>call trap\<close>.\<close>

definition trap_entry :: "Taskstate \<Rightarrow> Gatedesc \<Rightarrow> nat \<Rightarrow> u32 \<Rightarrow> cpu \<times> memory \<Rightarrow> (cpu \<times> memory) option" where
  "trap_entry tss gate v err s = (case vectors ! v of None \<Rightarrow> None
     | Some stub \<Rightarrow> Some (fold exec (stub @ alltraps) (take_trap tss gate v err s)))"

section \<open>env_pop_tf\<close>

definition env_pop_tf :: "u32 \<Rightarrow> cpu \<times> memory \<Rightarrow> cpu \<times> memory" where
  "env_pop_tf tf = fold exec [Mov_esp tf, Popal, Pop_es, Pop_ds, Addl_esp 8, Iret]"

text \<open>The fields of \<open>struct Trapframe\<close> at address \<open>a\<close>.\<close>

definition frame_at :: "memory \<Rightarrow> u32 \<Rightarrow> Trapframe" where
  "frame_at m a = \<lparr>tf_regs = \<lparr>reg_edi = load32 m a, reg_esi = load32 m (a + 4), reg_ebp = load32 m (a + 8), reg_oesp = load32 m (a + 12),
       reg_ebx = load32 m (a + 16), reg_edx = load32 m (a + 20), reg_ecx = load32 m (a + 24), reg_eax = load32 m (a + 28)\<rparr>,
     tf_es = ucast (load32 m (a + 32)), tf_ds = ucast (load32 m (a + 36)), tf_trapno = load32 m (a + 40), tf_err = load32 m (a + 44),
     tf_eip = load32 m (a + 48), tf_cs = ucast (load32 m (a + 52)), tf_eflags = load32 m (a + 56), tf_esp = load32 m (a + 60),
     tf_ss = ucast (load32 m (a + 64))\<rparr>"

section \<open>Words on the stack\<close>

fun push_all :: "u32 list \<Rightarrow> u32 \<Rightarrow> memory \<Rightarrow> memory" where
  "push_all [] e m = m"
| "push_all (w # ws) e m = push_all ws (e - 4) (store32 m (e - 4) w)"

lemma aligned4_sub: "aligned4 e \<Longrightarrow> aligned4 (e - 4 * k)"
proof -
  assume a: "aligned4 e"
  obtain q where q: "e = 4 * q"
  proof
    have "4 * (unat e div 4) = unat e" using a div_mult_mod_eq [of "unat e" 4] by (simp add: aligned4_def)
    then have "of_nat (4 * (unat e div 4)) = (of_nat (unat e) :: u32)" by (rule arg_cong)
    also have "\<dots> = e" by simp
    finally show "e = 4 * of_nat (unat e div 4)" by (simp only: of_nat_mult of_nat_numeral)
  qed
  have "e - 4 * k = 4 * (q - k)" unfolding q by (simp only: right_diff_distrib)
  then have "unat (e - 4 * k) = (4 * unat (q - k)) mod 4294967296" by (simp only: unat_word_ariths(2)) simp
  then show "aligned4 (e - 4 * k)" by (simp add: aligned4_def mod_mod_cancel)
qed

lemma push_all_other:
  assumes "aligned4 e" "aligned4 b" "\<And>i. i < length ws \<Longrightarrow> b \<noteq> e - 4 * of_nat (Suc i)"
  shows "load32 (push_all ws e m) b = load32 m b"
  using assms
proof (induction ws arbitrary: e m)
  case (Cons w ws)
  have e: "aligned4 (e - 4)" using aligned4_sub [OF Cons.prems(1), of 1] by simp
  have "b \<noteq> e - 4" using Cons.prems(3) [of 0] by simp
  then have "load32 (store32 m (e - 4) w) b = load32 m b" using e Cons.prems(2) by (intro load32_store32_other) auto
  moreover have "b \<noteq> e - 4 - 4 * of_nat (Suc i)" if "i < length ws" for i
    using Cons.prems(3) [of "Suc i"] that by (simp add: algebra_simps)
  ultimately show ?case using Cons.IH [OF e Cons.prems(2)] by simp
qed simp

lemma push_all_nth:
  assumes "aligned4 e" "length ws \<le> 1000" "i < length ws"
  shows "load32 (push_all ws e m) (e - 4 * of_nat (Suc i)) = ws ! i"
  using assms
proof (induction ws arbitrary: e m i)
  case (Cons w ws)
  have e: "aligned4 (e - 4)" using aligned4_sub [OF Cons.prems(1), of 1] by simp
  show ?case
  proof (cases i)
    case 0
    have "e - 4 \<noteq> e - 4 - 4 * of_nat (Suc j)" if "j < length ws" for j
    proof -
      have "unat (of_nat (4 * Suc j) :: u32) = 4 * Suc j" using that Cons.prems(2) by (intro unat_of_nat_u32) simp
      then have "(of_nat (4 * Suc j) :: u32) \<noteq> 0" by (metis Zero_not_Suc mult_is_0 unat_0 zero_neq_numeral)
      then show ?thesis by (simp add: algebra_simps)
    qed
    from push_all_other [OF e e this] show ?thesis using 0 by simp
  next
    case (Suc j)
    have "e - 4 * of_nat (Suc i) = e - 4 - 4 * of_nat (Suc j)" by (simp add: Suc algebra_simps)
    moreover have "load32 (push_all ws (e - 4) (store32 m (e - 4) w)) (e - 4 - 4 * of_nat (Suc j)) = ws ! j"
      by (rule Cons.IH [OF e]) (use Cons.prems Suc in simp_all)
    ultimately show ?thesis by (simp only: push_all.simps Suc nth_Cons_Suc)
  qed
qed simp

text \<open>Nothing but the words is written.\<close>

lemma push_all_frame:
  assumes "\<And>j. j < 4 * length ws \<Longrightarrow> a \<noteq> e - of_nat (Suc j)"
  shows "push_all ws e m a = m a"
  using assms
proof (induction ws arbitrary: e m)
  case (Cons w ws)
  have "a \<noteq> e - 4 - of_nat (Suc j)" if "j < 4 * length ws" for j
    using Cons.prems [of "j + 4"] that by (simp add: algebra_simps)
  then have "push_all ws (e - 4) (store32 m (e - 4) w) a = store32 m (e - 4) w a" by (rule Cons.IH)
  also have "\<dots> = m a"
    using Cons.prems [of 0] Cons.prems [of 1] Cons.prems [of 2] Cons.prems [of 3] by (simp add: store32_def)
  finally show ?case by simp
qed simp

section \<open>The frame a trap leaves\<close>

text \<open>The frame of a program with registers \<open>c\<close>, on the stack that starts at \<open>e\<close>.\<close>

definition frame_of_cpu :: "u32 \<Rightarrow> cpu \<Rightarrow> nat \<Rightarrow> u32 \<Rightarrow> Trapframe" where
  "frame_of_cpu e c v err = \<lparr>tf_regs = \<lparr>reg_edi = r_edi c, reg_esi = r_esi c, reg_ebp = r_ebp c, reg_oesp = e - 36,
       reg_ebx = r_ebx c, reg_edx = r_edx c, reg_ecx = r_ecx c, reg_eax = r_eax c\<rparr>,
     tf_es = r_es c, tf_ds = r_ds c, tf_trapno = of_nat v, tf_err = (if pushes_code v then err else 0),
     tf_eip = r_eip c, tf_cs = r_cs c, tf_eflags = r_eflags c, tf_esp = r_esp c, tf_ss = r_ss c\<rparr>"

definition stack_words :: "u32 \<Rightarrow> cpu \<Rightarrow> nat \<Rightarrow> u32 \<Rightarrow> u32 list" where
  "stack_words e c v err = [ucast (r_ss c), r_esp c, r_eflags c, ucast (r_cs c), r_eip c, if pushes_code v then err else 0, of_nat v,
     ucast (r_ds c), ucast (r_es c), r_eax c, r_ecx c, r_edx c, r_ebx c, e - 36, r_ebp c, r_esi c, r_edi c, e - 68]"

lemma vectors_nth:
  assumes "v < 49"
  shows "vectors ! v = (if installed v then Some (if pushes_code v then EC v else NOEC v) else None)"
proof -
  have "list_all (\<lambda>v. vectors ! v = (if installed v then Some (if pushes_code v then EC v else NOEC v) else None)) [0..<49]"
    by code_simp
  then show ?thesis using assms by (simp add: list_all_iff del: upt_Suc)
qed

text \<open>What runs up to the call of \<open>trap\<close>.\<close>

lemma trap_entry_run:
  assumes "installed v" "r_cs c AND 3 = 3"
  shows "trap_entry tss gate v err (c, m) = Some
    (c\<lparr>r_eip := gate_offset gate, r_cs := gd_sel gate, r_eflags := r_eflags c AND NOT 0x34300, r_ss := ts_ss0 tss,
       r_esp := ts_esp0 tss - 72, r_eax := (r_eax c AND 0xFFFF0000) OR GD_KD, r_ds := ucast GD_KD, r_es := ucast GD_KD\<rparr>,
     push_all (stack_words (ts_esp0 tss) c v err) (ts_esp0 tss) m)"
proof -
  have v: "v < 49" using assms(1) by (auto simp: installed_def)
  have ax: "ucast ((x AND 0xFFFF0000) OR 16 :: u32) = (16 :: u16)" for x
  proof -
    have "(0xFFFF0000 :: u16) = 0" by (simp add: word_unat_eq_iff)
    moreover have "ucast ((x AND 0xFFFF0000) OR 16) = (ucast x AND 0xFFFF0000) OR (16 :: u16)"
      by (simp add: unsigned_or_eq unsigned_and_eq)
    ultimately show ?thesis by (simp only: and_zero_eq or.left_neutral)
  qed
  show ?thesis
    using assms by (simp add: ax trap_entry_def vectors_nth [OF v] alltraps_def EC_def NOEC_def take_trap_def stack_words_def push_def Let_def)
qed

lemma stack_words_at:
  assumes "aligned4 e"
  shows "frame_at (push_all (stack_words e c v err) e m) (e - 68) = frame_of_cpu e c v err"
    "load32 (push_all (stack_words e c v err) e m) (e - 72) = e - 68"
proof -
  have u: "ucast (ucast x :: u32) = x" for x :: u16 by (rule bit_word_eqI) (simp add: bit_simps)
  define M where "M = push_all (stack_words e c v err) e m"
  have l: "length (stack_words e c v err) = 18" by (simp add: stack_words_def)
  have w: "load32 M (e - 4 * of_nat (Suc i)) = stack_words e c v err ! i" if "i < 18" for i
    using push_all_nth [OF assms, of "stack_words e c v err" i m] that l by (simp add: M_def)
  note ws = w [of 0] w [of 1] w [of 2] w [of 3] w [of 4] w [of 5] w [of 6] w [of 7] w [of 8] w [of 9] w [of 10] w [of 11] w [of 12]
    w [of 13] w [of 14] w [of 15] w [of 16] w [of 17]
  have "frame_at M (e - 68) = frame_of_cpu e c v err" "load32 M (e - 72) = e - 68"
    using ws unfolding frame_at_def frame_of_cpu_def stack_words_def by (simp_all add: u)
  then show "frame_at (push_all (stack_words e c v err) e m) (e - 68) = frame_of_cpu e c v err"
    "load32 (push_all (stack_words e c v err) e m) (e - 72) = e - 68" unfolding M_def .
qed

text \<open>C12: an exception or \<open>int\<close> in user mode, through any gate \<open>trap_init\<close> installs, reaches \<open>trap\<close> with the address of a
  \<open>struct Trapframe\<close> on the kernel's stack that holds the registers of the program, the number of the vector, and the
  error code or 0. The data segments are the kernel's and interrupts are off. Nothing is written but the 72 bytes
  below the top of that stack.\<close>

theorem trap_entry_builds_frame:
  assumes "installed v" "r_cs c AND 3 = 3" "aligned4 (ts_esp0 tss)"
  shows "\<exists>d m'. trap_entry tss gate v err (c, m) = Some (d, m') \<and>
    load32 m' (r_esp d) = ts_esp0 tss - 68 \<and> frame_at m' (ts_esp0 tss - 68) = frame_of_cpu (ts_esp0 tss) c v err \<and>
    r_ds d = ucast GD_KD \<and> r_es d = ucast GD_KD \<and> r_cs d = gd_sel gate \<and> r_eip d = gate_offset gate \<and> r_ss d = ts_ss0 tss \<and>
    r_eflags d AND FL_IF = 0 \<and> (\<forall>a. (\<forall>j < 72. a \<noteq> ts_esp0 tss - of_nat (Suc j)) \<longrightarrow> m' a = m a)"
proof -
  let ?e = "ts_esp0 tss"
  let ?m = "push_all (stack_words ?e c v err) ?e m"
  have f: "(w AND NOT 0x34300) AND FL_IF = 0" for w :: u32
  proof -
    have "NOT 0x34300 AND FL_IF = (0 :: u32)" by simp
    then show ?thesis unfolding and.assoc by (simp only: and_zero_eq)
  qed
  have "length (stack_words ?e c v err) = 18" by (simp add: stack_words_def)
  then have "\<forall>a. (\<forall>j < 72. a \<noteq> ?e - of_nat (Suc j)) \<longrightarrow> ?m a = m a"
    by (intro allI impI push_all_frame) simp
  then show ?thesis
    unfolding trap_entry_run [OF assms(1,2)] using stack_words_at [OF assms(3), of c v err m] f by simp
qed

definition demo_cpu :: cpu where
  "demo_cpu = \<lparr>r_eax = 1, r_ecx = 2, r_edx = 3, r_ebx = 4, r_esp = 0xEEBFDFD0, r_ebp = 0xEEBFDFF0, r_esi = 7, r_edi = 8,
     r_eip = 0x800020, r_eflags = 0x202, r_cs = 0x1B, r_ds = 0x23, r_es = 0x23, r_ss = 0x23\<rparr>"

definition demo_ts :: Taskstate where
  "demo_ts = ts_zero\<lparr>ts_esp0 := KSTACKTOP, ts_ss0 := ucast GD_KD\<rparr>"

theorem trap_entry_builds_frame_witness:
  "\<exists>d m'. trap_entry demo_ts (SETGATE False GD_KT 0xF0104070 0) 14 6 (demo_cpu, \<lambda>_. 0) = Some (d, m') \<and>
     load32 m' (r_esp d) = 0xEFFFFFBC \<and> tf_err (frame_at m' 0xEFFFFFBC) = 6 \<and> tf_esp (frame_at m' 0xEFFFFFBC) = 0xEEBFDFD0 \<and>
     r_eip d = 0xF0104070"
proof -
  have h: "installed 14" "r_cs demo_cpu AND 3 = 3" "aligned4 (ts_esp0 demo_ts)" "ts_esp0 demo_ts = 0xF0000000"
    by (simp_all add: installed_def demo_cpu_def demo_ts_def aligned4_def)
  show ?thesis
    using trap_entry_builds_frame [OF h(1-3), of "SETGATE False GD_KT 0xF0104070 0" 6 "\<lambda>_. 0"] unfolding h(4)
    by (auto simp: frame_of_cpu_def pushes_code_def demo_cpu_def)
qed

section \<open>The way back\<close>

text \<open>The registers a frame stands for.\<close>

definition resumed :: "Trapframe \<Rightarrow> cpu" where
  "resumed f = \<lparr>r_eax = reg_eax (tf_regs f), r_ecx = reg_ecx (tf_regs f), r_edx = reg_edx (tf_regs f), r_ebx = reg_ebx (tf_regs f),
     r_esp = tf_esp f, r_ebp = reg_ebp (tf_regs f), r_esi = reg_esi (tf_regs f), r_edi = reg_edi (tf_regs f),
     r_eip = tf_eip f, r_eflags = tf_eflags f, r_cs = tf_cs f, r_ds = tf_ds f, r_es = tf_es f, r_ss = tf_ss f\<rparr>"

lemma env_pop_tf_resumes:
  assumes "r_cs c AND 3 = 0" "tf_cs (frame_at m a) AND 3 = 3"
  shows "env_pop_tf a (c, m) = (resumed (frame_at m a), m)"
proof -
  have "r_cs c AND 3 < ucast (load32 m (a + 52)) AND 3" using assms by (simp add: frame_at_def word_less_nat_alt)
  then show ?thesis by (cases c) (simp add: env_pop_tf_def frame_at_def resumed_def Let_def add.commute)
qed

lemma resumed_frame: "resumed (frame_of_cpu e c v err) = c"
  by (cases c) (simp add: resumed_def frame_of_cpu_def)

text \<open>C13: there and back. The kernel takes the trap, and \<open>env_pop_tf\<close> is given a frame, anywhere in memory, that is the one on
  the stack but for \<open>%eax\<close>, as \<open>trap\<close> leaves it after a system call: the program goes on with every register as it was,
  its instruction pointer, stack and flags included, and with the result in \<open>%eax\<close>.\<close>

theorem trap_roundtrip:
  assumes "installed v" "r_cs c AND 3 = 3" "aligned4 (ts_esp0 tss)"
    and "trap_entry tss gate v err (c, m) = Some (d, m')"
    and "f = frame_at m' (load32 m' (r_esp d))" "frame_at m2 a = f\<lparr>tf_regs := (tf_regs f)\<lparr>reg_eax := r\<rparr>\<rparr>" "r_cs k AND 3 = 0"
  shows "env_pop_tf a (k, m2) = (c\<lparr>r_eax := r\<rparr>, m2)"
proof -
  have f: "f = frame_of_cpu (ts_esp0 tss) c v err"
    using trap_entry_run [OF assms(1,2), of tss gate err m] stack_words_at [OF assms(3), of c v err m] assms(4,5) by auto
  have "tf_cs (frame_at m2 a) AND 3 = 3" using assms(2,6) by (simp add: f frame_of_cpu_def)
  from env_pop_tf_resumes [OF assms(7) this] have "env_pop_tf a (k, m2) = (resumed (f\<lparr>tf_regs := (tf_regs f)\<lparr>reg_eax := r\<rparr>\<rparr>), m2)"
    unfolding assms(6) .
  moreover have "resumed (f\<lparr>tf_regs := (tf_regs f)\<lparr>reg_eax := r\<rparr>\<rparr>) = (resumed f)\<lparr>r_eax := r\<rparr>" by (simp add: resumed_def)
  ultimately show ?thesis by (simp add: f resumed_frame)
qed

theorem trap_roundtrip_witness:
  "\<exists>d m'. trap_entry demo_ts (SETGATE False GD_KT 0xF0104180 3) 48 0 (demo_cpu, \<lambda>_. 0) = Some (d, m') \<and>
     env_pop_tf 0xEFFFFFBC (d, m'(0xEFFFFFD8 := 42)) = (demo_cpu\<lparr>r_eax := 42\<rparr>, m'(0xEFFFFFD8 := 42))"
proof -
  let ?g = "SETGATE False GD_KT 0xF0104180 3"
  have h: "installed 48" "r_cs demo_cpu AND 3 = 3" "aligned4 (ts_esp0 demo_ts)" "ts_esp0 demo_ts = 0xF0000000"
    by (simp_all add: installed_def demo_cpu_def demo_ts_def aligned4_def)
  obtain d m' where t: "trap_entry demo_ts ?g 48 0 (demo_cpu, \<lambda>_. 0) = Some (d, m')" "load32 m' (r_esp d) = 0xEFFFFFBC"
    "frame_at m' 0xEFFFFFBC = frame_of_cpu 0xF0000000 demo_cpu 48 0" "r_cs d = gd_sel ?g"
    using trap_entry_run [OF h(1,2), of demo_ts ?g 0 "\<lambda>_. 0"] stack_words_at [OF h(3), of demo_cpu 48 0 "\<lambda>_. 0"] by (auto simp: h(4))
  have "load32 m' 0xEFFFFFD8 = 1" using t(3) by (simp add: frame_at_def frame_of_cpu_def demo_cpu_def)
  then have b: "m' 0xEFFFFFD9 = 0" "m' 0xEFFFFFDA = 0" "m' 0xEFFFFFDB = 0"
    using byte_of_load32(2-4) [of m' "0xEFFFFFD8"] by (simp_all)
  have "frame_at (m'(0xEFFFFFD8 := 42)) 0xEFFFFFBC =
      (frame_at m' 0xEFFFFFBC)\<lparr>tf_regs := (tf_regs (frame_at m' 0xEFFFFFBC))\<lparr>reg_eax := 42\<rparr>\<rparr>"
    by (simp add: frame_at_def load32_def b)
  moreover have "r_cs d AND 3 = 0" by (simp add: t(4) SETGATE_def)
  ultimately show ?thesis
    using trap_roundtrip [OF h(1-3) t(1) refl, of "m'(0xEFFFFFD8 := 42)" "0xEFFFFFBC" 42 d] t(1,2) by auto
qed

end
