(* ===== verification/Boot_Loader.thy ===== *)
theory Boot_Loader
  imports Env_Load
begin

text \<open>
  The boot loader (\<open>boot/main.c\<close>): it reads the kernel from the disk, sector by sector, and jumps to
  its entry point. Paging is off, so pointers are physical addresses. The disk controller is a
  parameter: \<open>ide_ops\<close> says what the port instructions do to its state, and \<open>ide_disk\<close> is what the
  loader relies on, the protocol of the ATA registers for reading one sector.
\<close>

section \<open>The machine\<close>

record 'd ide_ops =
  ide_inb :: "u32 \<Rightarrow> 'd \<Rightarrow> u8 \<times> 'd"
  ide_inl :: "u32 \<Rightarrow> 'd \<Rightarrow> u32 \<times> 'd"
  ide_outb :: "u32 \<Rightarrow> u8 \<Rightarrow> 'd \<Rightarrow> 'd"
  ide_outw :: "u32 \<Rightarrow> u16 \<Rightarrow> 'd \<Rightarrow> 'd"

definition SECTSIZE :: u32 where [simp]: "SECTSIZE = 512"
definition ELFHDR :: u32 where [simp]: "ELFHDR = 0x10000"

text \<open>\<open>insl\<close> of \<open>inc/x86.h\<close>: \<open>cnt\<close> words from a port to memory.\<close>

fun insl :: "'d ide_ops \<Rightarrow> u32 \<Rightarrow> u32 \<Rightarrow> nat \<Rightarrow> memory \<times> 'd \<Rightarrow> memory \<times> 'd" where
  "insl ops port addr 0 s = s"
| "insl ops port addr (Suc cnt) s =
     (let (v, d) = ide_inl ops port (snd s) in insl ops port (addr + 4) cnt (store32 (fst s) addr v, d))"

section \<open>Operations\<close>

partial_function (option) waitdisk :: "'d ide_ops \<Rightarrow> 'd \<Rightarrow> 'd option" where
  "waitdisk ops d =
     (let (status, d) = ide_inb ops 0x1F7 d in
      if status AND 0xC0 \<noteq> 0x40 then waitdisk ops d else Some d)"

text \<open>The commands \<open>readsect\<close> gives to the controller.\<close>

definition read_command :: "'d ide_ops \<Rightarrow> u32 \<Rightarrow> 'd \<Rightarrow> 'd" where
  "read_command ops offset d =
     (let d = ide_outb ops 0x1F2 1 d;
          d = ide_outb ops 0x1F3 (ucast offset) d;
          d = ide_outb ops 0x1F4 (ucast (drop_bit 8 offset)) d;
          d = ide_outb ops 0x1F5 (ucast (drop_bit 16 offset)) d;
          d = ide_outb ops 0x1F6 (ucast (drop_bit 24 offset OR 0xE0)) d
      in ide_outb ops 0x1F7 0x20 d)"

definition readsect :: "'d ide_ops \<Rightarrow> u32 \<Rightarrow> u32 \<Rightarrow> memory \<times> 'd \<Rightarrow> (memory \<times> 'd) option" where
  "readsect ops dst offset s =
     Option.bind (waitdisk ops (snd s)) (\<lambda>d.
     Option.bind (waitdisk ops (read_command ops offset d)) (\<lambda>d.
     Some (insl ops 0x1F0 dst (unat (SECTSIZE div 4)) (fst s, d))))"

partial_function (option) readseg_loop ::
  "'d ide_ops \<Rightarrow> u32 \<Rightarrow> u32 \<Rightarrow> u32 \<Rightarrow> memory \<times> 'd \<Rightarrow> (memory \<times> 'd) option" where
  "readseg_loop ops pa end_pa offset s =
     (if pa < end_pa then
        Option.bind (readsect ops pa offset s) (readseg_loop ops (pa + SECTSIZE) end_pa (offset + 1))
      else Some s)"

definition readseg :: "'d ide_ops \<Rightarrow> u32 \<Rightarrow> u32 \<Rightarrow> u32 \<Rightarrow> memory \<times> 'd \<Rightarrow> (memory \<times> 'd) option" where
  "readseg ops pa count offset s =
     (let end_pa = pa + count;
          pa = pa AND NOT (SECTSIZE - 1);
          offset = offset div SECTSIZE + 1
      in readseg_loop ops pa end_pa offset s)"

text \<open>The loop over the program headers; the fields \<open>p_offset\<close>, \<open>p_pa\<close> and \<open>p_memsz\<close> of \<open>inc/elf.h\<close>.\<close>

partial_function (option) load_loop :: "'d ide_ops \<Rightarrow> u32 \<Rightarrow> u32 \<Rightarrow> memory \<times> 'd \<Rightarrow> (memory \<times> 'd) option" where
  "load_loop ops ph eph s =
     (if ph < eph then
        Option.bind (readseg ops (load32 (fst s) (ph + 12)) (load32 (fst s) (ph + 20)) (load32 (fst s) (ph + 4)) s)
          (load_loop ops (ph + sizeof_Proghdr) eph)
      else Some s)"

text \<open>\<open>bootmain\<close> does not return. It ends in the jump to the entry point, or spins after the writes
  that stop the emulator.\<close>

datatype boot_end = Jump u32 | Spin

definition bootmain :: "'d ide_ops \<Rightarrow> memory \<times> 'd \<Rightarrow> (boot_end \<times> memory \<times> 'd) option" where
  "bootmain ops s =
     Option.bind (readseg ops ELFHDR (SECTSIZE * 8) 0 s) (\<lambda>s.
       if load32 (fst s) ELFHDR \<noteq> ELF_MAGIC then
         Some (Spin, fst s, ide_outw ops 0x8A00 0x8E00 (ide_outw ops 0x8A00 0x8A00 (snd s)))
       else
         let ph = ELFHDR + load32 (fst s) (ELFHDR + 28);
             eph = ph + sizeof_Proghdr * (load32 (fst s) (ELFHDR + 44) AND 0xFFFF) in
         Option.bind (load_loop ops ph eph s) (\<lambda>s.
         Some (Jump (load32 (fst s) (ELFHDR + 24)), s)))"

section \<open>What the controller does\<close>

text \<open>Reading the status: after some reads it says ready, and the state is then one of \<open>P\<close>.\<close>

fun status_reads :: "'d ide_ops \<Rightarrow> nat \<Rightarrow> 'd \<Rightarrow> 'd" where
  "status_reads ops 0 d = d"
| "status_reads ops (Suc n) d = status_reads ops n (snd (ide_inb ops 0x1F7 d))"

definition gets_ready :: "'d ide_ops \<Rightarrow> ('d \<Rightarrow> bool) \<Rightarrow> 'd \<Rightarrow> bool" where
  "gets_ready ops P d \<longleftrightarrow> (\<exists>n. (\<forall>k < n. fst (ide_inb ops 0x1F7 (status_reads ops k d)) AND 0xC0 \<noteq> 0x40) \<and>
     fst (ide_inb ops 0x1F7 (status_reads ops n d)) AND 0xC0 = 0x40 \<and> P (status_reads ops (Suc n) d))"

text \<open>Byte \<open>i\<close> of the disk is \<open>disk i\<close>; a word of the data port is four bytes.\<close>

definition disk_word :: "(nat \<Rightarrow> u8) \<Rightarrow> nat \<Rightarrow> u32" where
  "disk_word disk i = load32 (\<lambda>a. disk (i + unat a)) 0"

text \<open>\<open>serving n j\<close>: the controller has read sector \<open>n\<close> and delivered \<open>j\<close> words of it.\<close>

definition ide_disk :: "'d ide_ops \<Rightarrow> ('d \<Rightarrow> bool) \<Rightarrow> (nat \<Rightarrow> nat \<Rightarrow> 'd \<Rightarrow> bool) \<Rightarrow> (nat \<Rightarrow> u8) \<Rightarrow> bool" where
  "ide_disk ops idle serving disk \<longleftrightarrow>
     (\<forall>d. idle d \<longrightarrow> gets_ready ops idle d) \<and>
     (\<forall>d n. idle d \<longrightarrow> n < 2 ^ 28 \<longrightarrow> gets_ready ops (serving n 0) (read_command ops (of_nat n) d)) \<and>
     (\<forall>d n j. serving n j d \<longrightarrow> j < 128 \<longrightarrow>
        fst (ide_inl ops 0x1F0 d) = disk_word disk (512 * n + 4 * j) \<and> serving n (j + 1) (snd (ide_inl ops 0x1F0 d))) \<and>
     (\<forall>d n. serving n 128 d \<longrightarrow> idle d)"

lemma ide_diskD:
  assumes "ide_disk ops idle serving disk"
  shows "idle d \<Longrightarrow> gets_ready ops idle d"
    and "idle d \<Longrightarrow> n < 2 ^ 28 \<Longrightarrow> gets_ready ops (serving n 0) (read_command ops (of_nat n) d)"
    and "serving n j d \<Longrightarrow> j < 128 \<Longrightarrow> fst (ide_inl ops 0x1F0 d) = disk_word disk (512 * n + 4 * j)"
    and "serving n j d \<Longrightarrow> j < 128 \<Longrightarrow> serving n (j + 1) (snd (ide_inl ops 0x1F0 d))"
    and "serving n 128 d \<Longrightarrow> idle d"
  using assms unfolding ide_disk_def by blast+

lemma waitdisk_ready: "gets_ready ops P d \<Longrightarrow> \<exists>d'. waitdisk ops d = Some d' \<and> P d'"
proof -
  have "waitdisk ops d = Some (status_reads ops (Suc n) d)"
    if "\<forall>k < n. fst (ide_inb ops 0x1F7 (status_reads ops k d)) AND 0xC0 \<noteq> 0x40"
      "fst (ide_inb ops 0x1F7 (status_reads ops n d)) AND 0xC0 = 0x40" for n
    using that
  proof (induction n arbitrary: d)
    case 0
    then show ?case by (subst waitdisk.simps) (simp add: split_beta Let_def)
  next
    case (Suc n)
    have "\<forall>k < n. fst (ide_inb ops 0x1F7 (status_reads ops k (snd (ide_inb ops 0x1F7 d)))) AND 0xC0 \<noteq> 0x40"
      using Suc.prems(1) by (metis Suc_less_eq status_reads.simps(2))
    moreover have "fst (ide_inb ops 0x1F7 d) AND 0xC0 \<noteq> 0x40" using Suc.prems(1) by (metis zero_less_Suc status_reads.simps(1))
    ultimately show ?case using Suc.IH Suc.prems(2) by (subst waitdisk.simps) (simp add: split_beta Let_def)
  qed
  then show "gets_ready ops P d \<Longrightarrow> ?thesis" unfolding gets_ready_def by blast
qed

section \<open>Reading sectors\<close>

definition disk_copy :: "(nat \<Rightarrow> u8) \<Rightarrow> memory \<Rightarrow> u32 \<Rightarrow> nat \<Rightarrow> nat \<Rightarrow> memory" where
  "disk_copy disk m d i k = (\<lambda>a. if unat (a - d) < k then disk (i + unat (a - d)) else m a)"

lemma disk_copy_0 [simp]: "disk_copy disk m d i 0 = m"
  by (simp add: disk_copy_def)

lemma unat_less_4: "unat (k :: u32) < 4 \<longleftrightarrow> k = 0 \<or> k = 1 \<or> k = 2 \<or> k = 3"
  by (auto simp: word_unat_eq_iff)

lemma disk_copy_word: "store32 m d (disk_word disk i) = disk_copy disk m d i 4"
proof
  fix a
  have e: "unat (a - d) < 4 \<longleftrightarrow> a = d \<or> a = d + 1 \<or> a = d + 2 \<or> a = d + 3"
    unfolding unat_less_4 by (auto simp: algebra_simps)
  show "store32 m d (disk_word disk i) a = disk_copy disk m d i 4 a"
    unfolding disk_copy_def disk_word_def store32_load32 e by auto
qed

lemma disk_copy_more:
  assumes "n + k < 2 ^ 32" "unat j = n"
  shows "disk_copy disk (disk_copy disk m d i n) (d + j) (i + n) k = disk_copy disk m d i (n + k)"
proof
  fix a
  define x where "x = a - d"
  have a: "a - (d + j) = x - j" by (simp add: x_def algebra_simps)
  show "disk_copy disk (disk_copy disk m d i n) (d + j) (i + n) k a = disk_copy disk m d i (n + k) a"
  proof (cases "n \<le> unat x")
    case True
    then have "unat (x - j) = unat x - n" using unat_diff_shift [of j x] assms(2) by simp
    with True show ?thesis by (simp add: disk_copy_def a x_def [symmetric] less_diff_conv2)
  next
    case False
    then have "unat (x - j) = 4294967296 + unat x - n" using unat_diff_wrap [of x j] assms(2) by simp
    then have "\<not> unat (x - j) < k" using assms(1) by simp
    with False show ?thesis by (simp add: disk_copy_def a x_def [symmetric])
  qed
qed

lemma insl_serving:
  assumes "ide_disk ops idle serving disk" "serving n j d" "j + c \<le> 128"
  shows "\<exists>d'. insl ops 0x1F0 a c (m, d) = (disk_copy disk m a (512 * n + 4 * j) (4 * c), d') \<and> serving n (j + c) d'"
  using assms(2,3)
proof (induction c arbitrary: a m d j)
  case (Suc c)
  obtain v d1 where v1: "ide_inl ops 0x1F0 d = (v, d1)" by (cases "ide_inl ops 0x1F0 d")
  have j: "j < 128" using Suc.prems(2) by simp
  have v: "ide_inl ops 0x1F0 d = (v, d1)" "v = disk_word disk (512 * n + 4 * j)" "serving n (j + 1) d1"
    using v1 ide_diskD(3,4) [OF assms(1) Suc.prems(1) j] by simp_all
  have next_byte: "512 * n + 4 * (j + 1) = 512 * n + 4 * j + 4" by simp
  from Suc.IH [OF v(3), of "a + 4" "store32 m a v", unfolded next_byte] Suc.prems(2) obtain d' where
    "insl ops 0x1F0 (a + 4) c (store32 m a v, d1) = (disk_copy disk (store32 m a v) (a + 4) (512 * n + 4 * j + 4) (4 * c), d')"
    "serving n (j + Suc c) d'" by auto
  moreover have "disk_copy disk (store32 m a v) (a + 4) (512 * n + 4 * j + 4) (4 * c) = disk_copy disk m a (512 * n + 4 * j) (4 * Suc c)"
    using disk_copy_more [of 4 "4 * c" 4 disk m a "512 * n + 4 * j"] Suc.prems(2) by (simp add: v(2) disk_copy_word)
  ultimately show ?case using v(1) by simp
qed simp

lemma readsect_reads:
  assumes "ide_disk ops idle serving disk" "idle d" "unat n < 2 ^ 28"
  shows "\<exists>d'. readsect ops a n (m, d) = Some (disk_copy disk m a (512 * unat n) 512, d') \<and> idle d'"
proof -
  obtain d1 where d1: "waitdisk ops d = Some d1" "idle d1"
    using waitdisk_ready [OF ide_diskD(1) [OF assms(1,2)]] by blast
  have r: "gets_ready ops (serving (unat n) 0) (read_command ops n d1)"
    using ide_diskD(2) [OF assms(1) d1(2) assms(3)] by simp
  obtain d2 where d2: "waitdisk ops (read_command ops n d1) = Some d2" "serving (unat n) 0 d2"
    using waitdisk_ready [OF r] by blast
  have c: "0 + (128 :: nat) \<le> 128" "512 * unat n + 4 * 0 = 512 * unat n" "4 * (128 :: nat) = 512" "0 + (128 :: nat) = 128" by simp_all
  obtain d3 where "insl ops 0x1F0 a 128 (m, d2) = (disk_copy disk m a (512 * unat n) 512, d3)" "serving (unat n) 128 d3"
    using insl_serving [OF assms(1) d2(2) c(1), of a m] unfolding c(2-4) by blast
  with ide_diskD(5) [OF assms(1)] d1(1) d2(1) show ?thesis by (simp add: readsect_def)
qed

text \<open>The loop of \<open>readseg\<close> from a sector boundary: \<open>k\<close> sectors are left.\<close>

lemma readseg_loop_reads:
  assumes "ide_disk ops idle serving disk"
    and "idle d" "unat e \<le> unat a + 512 * k" "unat a + 512 * k < unat e + 512" "unat a + 512 * k < 2 ^ 32" "unat n + k < 2 ^ 28"
  shows "\<exists>d'. readseg_loop ops a e n (m, d) = Some (disk_copy disk m a (512 * unat n) (512 * k), d') \<and> idle d'"
  using assms(2-)
proof (induction k arbitrary: a n m d)
  case 0
  then show ?case by (subst readseg_loop.simps) (simp add: word_less_nat_alt)
next
  case (Suc k)
  obtain d1 where d1: "readsect ops a n (m, d) = Some (disk_copy disk m a (512 * unat n) 512, d1)" "idle d1"
    using readsect_reads [OF assms(1) Suc.prems(1), of n a m] Suc.prems(5) by auto
  have a: "unat (a + 512) = unat a + 512" using Suc.prems(4) by (subst unat_add_no_wrap) simp_all
  have n: "unat (n + 1) = unat n + 1" using Suc.prems(5) by (subst unat_add_no_wrap) simp_all
  have "a < e" using Suc.prems(3) by (simp add: word_less_nat_alt)
  obtain d' where d': "readseg_loop ops (a + 512) e (n + 1) (disk_copy disk m a (512 * unat n) 512, d1) =
      Some (disk_copy disk (disk_copy disk m a (512 * unat n) 512) (a + 512) (512 * unat (n + 1)) (512 * k), d')" "idle d'"
    using Suc.IH [OF d1(2), of "a + 512" "n + 1" "disk_copy disk m a (512 * unat n) 512"] Suc.prems by (auto simp: a n)
  have "disk_copy disk (disk_copy disk m a (512 * unat n) 512) (a + 512) (512 * unat (n + 1)) (512 * k) =
      disk_copy disk m a (512 * unat n) (512 * Suc k)"
  proof -
    have "512 + 512 * k < 2 ^ 32" "unat (512 :: u32) = 512" using Suc.prems(4) by simp_all
    from disk_copy_more [OF this, of disk m a "512 * unat n"]
    have "disk_copy disk (disk_copy disk m a (512 * unat n) 512) (a + 512) (512 * unat n + 512) (512 * k) =
        disk_copy disk m a (512 * unat n) (512 + 512 * k)" .
    moreover have "512 * unat (n + 1) = 512 * unat n + 512" "512 * Suc k = 512 + 512 * k" unfolding n by simp_all
    ultimately show ?thesis by (simp only:)
  qed
  with d1 d' \<open>a < e\<close> show ?case by (subst readseg_loop.simps) simp
qed

text \<open>Which block \<open>readseg\<close> reads: whole sectors, from the boundary below \<open>pa\<close>.\<close>

definition sector_floor :: "nat \<Rightarrow> nat" where "sector_floor x = x div 512 * 512"
definition sector_ceil :: "nat \<Rightarrow> nat" where "sector_ceil x = (x + 511) div 512 * 512"

lemma sector_bounds: "sector_floor x \<le> x" "x < sector_floor x + 512" "x \<le> sector_ceil x" "sector_ceil x < x + 512"
  using div_mult_mod_eq [of x 512] mod_less_divisor [of 512 x] div_mult_mod_eq [of "x + 511" 512] mod_less_divisor [of 512 "x + 511"]
  unfolding sector_floor_def sector_ceil_def by linarith+

definition sector_base :: "u32 \<Rightarrow> u32" where
  "sector_base a = a AND NOT (SECTSIZE - 1)"

lemma unat_sector_base: "unat (sector_base a) = sector_floor (unat a)"
proof -
  have "a AND 511 = take_bit 9 a" by (simp add: take_bit_eq_mask mask_eq_exp_minus_1)
  then have b: "sector_base a = a - take_bit 9 a"
    unfolding sector_base_def SECTSIZE_def by (simp only: and_not_eq_minus [of a "512 - 1"]) simp
  have t: "unat (take_bit 9 a) = unat a mod 512" by (simp only: unat_take_bit_u32) simp
  have "unat (a - take_bit 9 a) = unat a - unat (take_bit 9 a)"
    by (rule unat_diff_shift) (simp only: t mod_less_eq_dividend)
  then show ?thesis by (simp add: b t sector_floor_def minus_mod_eq_div_mult)
qed

lemma readseg_reads:
  assumes "ide_disk ops idle serving disk" "idle d" "unat pa + unat count + 511 < 2 ^ 32"
  shows "\<exists>d'. readseg ops pa count off (m, d) = Some (disk_copy disk m (sector_base pa)
      (512 + sector_floor (unat off)) (sector_ceil (unat pa + unat count) - sector_floor (unat pa)), d') \<and> idle d'"
proof -
  let ?a = "sector_base pa" and ?e = "pa + count"
  let ?k = "(unat pa + unat count + 511) div 512 - unat pa div 512"
  have e: "unat ?e = unat pa + unat count" using assms(3) by (intro unat_add_no_wrap) simp
  have a: "unat ?a = unat pa div 512 * 512" by (simp add: unat_sector_base sector_floor_def)
  have "unat pa div 512 \<le> (unat pa + unat count + 511) div 512" by (intro div_le_mono) simp
  then have k: "512 * ?k = sector_ceil (unat pa + unat count) - sector_floor (unat pa)"
    "unat ?a + 512 * ?k = sector_ceil (unat pa + unat count)"
    by (simp_all add: a sector_ceil_def sector_floor_def diff_mult_distrib2)
  have n: "unat (off div 512 + 1) = unat off div 512 + 1" 
    using unat_u32_lt [of off] by (subst unat_add_no_wrap) (simp_all add: unat_div)
  have "unat off div 512 < 2 ^ 23" using unat_u32_lt [of off] by simp
  moreover have "?k \<le> 2 ^ 23" using assms(3) by simp
  ultimately have small: "unat (off div 512 + 1) + ?k < 2 ^ 28" unfolding n by simp
  have "readseg ops pa count off (m, d) = readseg_loop ops ?a ?e (off div 512 + 1) (m, d)"
    by (simp add: readseg_def Let_def sector_base_def)
  moreover have "512 * unat (off div 512 + 1) = 512 + sector_floor (unat off)" unfolding n by (simp add: sector_floor_def)
  ultimately show ?thesis
    using readseg_loop_reads [OF assms(1,2) _ _ _ small, of ?e ?a m] k e assms(3)
      sector_bounds(3,4) [of "unat pa + unat count"] by simp
qed

text \<open>The bytes of a block that starts inside a sector, when memory and disk agree on where in it.\<close>

lemma readseg_bytes:
  assumes "ide_disk ops idle serving disk" "idle d" "unat pa + unat count + 511 < 2 ^ 32" "unat pa mod 512 = unat off mod 512"
  shows "\<exists>m' d'. readseg ops pa count off (m, d) = Some (m', d') \<and> idle d' \<and>
    (\<forall>a. unat pa \<le> unat a \<and> unat a < unat pa + unat count \<longrightarrow> m' a = disk (512 + unat off + (unat a - unat pa))) \<and>
    (\<forall>a. unat a < sector_floor (unat pa) \<or> sector_ceil (unat pa + unat count) \<le> unat a \<longrightarrow> m' a = m a)"
proof -
  let ?n = "sector_ceil (unat pa + unat count) - sector_floor (unat pa)"
  let ?m = "disk_copy disk m (sector_base pa) (512 + sector_floor (unat off)) ?n"
  note b = sector_bounds [of "unat pa"] sector_bounds(3,4) [of "unat pa + unat count"]
  obtain d' where d': "readseg ops pa count off (m, d) = Some (?m, d')" "idle d'"
    using readseg_reads [OF assms(1-3)] by blast
  have off: "unat off - sector_floor (unat off) = unat pa - sector_floor (unat pa)" "sector_floor (unat off) \<le> unat off"
    using assms(4) by (simp_all add: sector_floor_def minus_div_mult_eq_mod)
  have base: "unat (a - sector_base pa) = unat a - sector_floor (unat pa)" if "sector_floor (unat pa) \<le> unat a" for a
    using unat_diff_shift [of "sector_base pa" a] that by (simp add: unat_sector_base)
  have "?m a = disk (512 + unat off + (unat a - unat pa))" if "unat pa \<le> unat a" "unat a < unat pa + unat count" for a
  proof -
    have "unat a - sector_floor (unat pa) < ?n" using that b by linarith
    moreover have "512 + sector_floor (unat off) + (unat a - sector_floor (unat pa)) = 512 + unat off + (unat a - unat pa)"
      using that b off by linarith
    ultimately show ?thesis using base [of a] that b by (simp add: disk_copy_def)
  qed
  moreover have "?m a = m a" if "unat a < sector_floor (unat pa) \<or> sector_ceil (unat pa + unat count) \<le> unat a" for a
  proof (cases "unat a < sector_floor (unat pa)")
    case True
    then have "unat (a - sector_base pa) = 4294967296 + unat a - sector_floor (unat pa)"
      using unat_diff_wrap [of a "sector_base pa"] by (simp add: unat_sector_base)
    moreover have "sector_ceil (unat pa + unat count) < 4294967296" using b(6) assms(3) by simp
    ultimately have "\<not> unat (a - sector_base pa) < ?n" using b(1) by linarith
    then show ?thesis by (simp add: disk_copy_def)
  next
    case False
    then have "\<not> unat (a - sector_base pa) < ?n" using base [of a] that b by linarith
    then show ?thesis by (simp add: disk_copy_def)
  qed
  ultimately show ?thesis using d' by blast
qed

section \<open>Loading the kernel\<close>

text \<open>The kernel image starts at the second sector. Its ELF header and program headers: \<close>

definition image_word :: "(nat \<Rightarrow> u8) \<Rightarrow> nat \<Rightarrow> u32" where
  "image_word disk i = disk_word disk (512 + i)"

definition image_phoff :: "(nat \<Rightarrow> u8) \<Rightarrow> nat" where "image_phoff disk = unat (image_word disk 28)"
definition image_phnum :: "(nat \<Rightarrow> u8) \<Rightarrow> nat" where "image_phnum disk = unat (image_word disk 44 AND 0xFFFF)"
definition seg_off :: "(nat \<Rightarrow> u8) \<Rightarrow> nat \<Rightarrow> u32" where "seg_off disk i = image_word disk (image_phoff disk + 32 * i + 4)"
definition seg_pa :: "(nat \<Rightarrow> u8) \<Rightarrow> nat \<Rightarrow> u32" where "seg_pa disk i = image_word disk (image_phoff disk + 32 * i + 12)"
definition seg_memsz :: "(nat \<Rightarrow> u8) \<Rightarrow> nat \<Rightarrow> u32" where "seg_memsz disk i = image_word disk (image_phoff disk + 32 * i + 20)"

text \<open>The sectors of segment \<open>i\<close> in memory, and the bytes of it.\<close>

definition seg_first :: "(nat \<Rightarrow> u8) \<Rightarrow> nat \<Rightarrow> nat" where
  "seg_first disk i = sector_floor (unat (seg_pa disk i))"

definition seg_end :: "(nat \<Rightarrow> u8) \<Rightarrow> nat \<Rightarrow> nat" where
  "seg_end disk i = sector_ceil (unat (seg_pa disk i) + unat (seg_memsz disk i))"

definition loaded :: "(nat \<Rightarrow> u8) \<Rightarrow> nat \<Rightarrow> memory \<Rightarrow> bool" where
  "loaded disk i m \<longleftrightarrow> (\<forall>a. unat (seg_pa disk i) \<le> unat a \<and> unat a < unat (seg_pa disk i) + unat (seg_memsz disk i) \<longrightarrow>
     m a = disk (512 + unat (seg_off disk i) + (unat a - unat (seg_pa disk i))))"

text \<open>A kernel the loader can load: the headers are in the first page, no segment touches the scratch
  space, no later segment reaches into an earlier one, and each lies in its file at the offset
  within a sector at which it lies in memory.\<close>

definition bootable :: "(nat \<Rightarrow> u8) \<Rightarrow> bool" where
  "bootable disk \<longleftrightarrow> image_word disk 0 = ELF_MAGIC \<and> image_phoff disk + 32 * image_phnum disk \<le> 4096 \<and>
     (\<forall>i < image_phnum disk.
        unat (seg_pa disk i) + unat (seg_memsz disk i) + 511 < 2 ^ 32 \<and>
        unat (seg_pa disk i) mod 512 = unat (seg_off disk i) mod 512 \<and>
        (seg_end disk i \<le> 0x10000 \<or> 0x11000 \<le> seg_first disk i) \<and>
        (\<forall>j < i. unat (seg_pa disk j) + unat (seg_memsz disk j) \<le> seg_first disk i \<or> seg_end disk i \<le> unat (seg_pa disk j)))"

text \<open>The scratch space holds the first page of the image.\<close>

definition scratch_ok :: "(nat \<Rightarrow> u8) \<Rightarrow> memory \<Rightarrow> bool" where
  "scratch_ok disk m \<longleftrightarrow> (\<forall>a. 0x10000 \<le> unat a \<and> unat a < 0x11000 \<longrightarrow> m a = disk (512 + (unat a - 0x10000)))"

lemma scratch_word:
  assumes "scratch_ok disk m" "k + 4 \<le> 4096"
  shows "load32 m (0x10000 + of_nat k) = image_word disk k"
proof -
  have a: "unat (0x10000 + of_nat k + of_nat j :: u32) = 0x10000 + k + j" if "j < 4" for j
  proof -
    have "0x10000 + of_nat k + of_nat j = (of_nat (0x10000 + k + j) :: u32)" by simp
    then show ?thesis using unat_of_nat_u32 [of "0x10000 + k + j"] that assms(2) by (simp only:)
  qed
  have byte: "m (0x10000 + of_nat k + of_nat j) = disk (512 + k + j)" if "j < 4" for j
    using assms that a [OF that] unfolding scratch_ok_def by (simp add: add.assoc)
  show ?thesis
    using byte [of 0] byte [of 1] byte [of 2] byte [of 3]
    unfolding image_word_def disk_word_def by (intro load32_bytes) simp_all
qed

lemma load_loop_loads:
  assumes disk: "ide_disk ops idle serving disk" and boot: "bootable disk"
    and "idle d" "scratch_ok disk m" "i + k = image_phnum disk" "\<forall>j < i. loaded disk j m"
  shows "\<exists>m' d'. load_loop ops (ELFHDR + of_nat (image_phoff disk + 32 * i)) (ELFHDR + of_nat (image_phoff disk + 32 * image_phnum disk)) (m, d) =
      Some (m', d') \<and> scratch_ok disk m' \<and> (\<forall>j < image_phnum disk. loaded disk j m')"
  using assms(3-)
proof (induction k arbitrary: i m d)
  case 0
  then show ?case by (subst load_loop.simps) auto
next
  case (Suc k)
  let ?P = "image_phoff disk" and ?N = "image_phnum disk"
  have i: "i < ?N" "?P + 32 * ?N \<le> 4096" "?P + 32 * i + 32 \<le> 4096"
    using Suc.prems(3) boot by (auto simp: bootable_def)
  have u: "unat (ELFHDR + of_nat x) = 0x10000 + x" if "x \<le> 4096" for x
  proof -
    have "ELFHDR + of_nat x = of_nat (0x10000 + x)" by simp
    then show ?thesis using unat_of_nat_u32 [of "0x10000 + x"] that by (simp only:)
  qed
  let ?ph = "ELFHDR + of_nat (?P + 32 * i)"
  have lt: "?ph < ELFHDR + of_nat (?P + 32 * ?N)"
    unfolding word_less_nat_alt using u [of "?P + 32 * i"] u [of "?P + 32 * ?N"] i by linarith
  have f: "load32 m (?ph + 12) = seg_pa disk i" "load32 m (?ph + 20) = seg_memsz disk i" "load32 m (?ph + 4) = seg_off disk i"
    using scratch_word [OF Suc.prems(2), of "?P + 32 * i + 12"] scratch_word [OF Suc.prems(2), of "?P + 32 * i + 20"]
      scratch_word [OF Suc.prems(2), of "?P + 32 * i + 4"] i(3)
    by (simp_all add: seg_pa_def seg_memsz_def seg_off_def add.assoc)
  have b: "unat (seg_pa disk i) + unat (seg_memsz disk i) + 511 < 2 ^ 32"
    "unat (seg_pa disk i) mod 512 = unat (seg_off disk i) mod 512" "seg_end disk i \<le> 0x10000 \<or> 0x11000 \<le> seg_first disk i"
    "\<forall>j < i. unat (seg_pa disk j) + unat (seg_memsz disk j) \<le> seg_first disk i \<or> seg_end disk i \<le> unat (seg_pa disk j)"
    using boot i(1) by (simp_all add: bootable_def)
  obtain m1 d1 where r: "readseg ops (seg_pa disk i) (seg_memsz disk i) (seg_off disk i) (m, d) = Some (m1, d1)" "idle d1"
    and new: "loaded disk i m1" and old: "\<forall>a. unat a < seg_first disk i \<or> seg_end disk i \<le> unat a \<longrightarrow> m1 a = m a"
    using readseg_bytes [OF disk Suc.prems(1) b(1,2), of m] unfolding loaded_def seg_first_def seg_end_def by blast
  have s1: "scratch_ok disk m1" unfolding scratch_ok_def
  proof (intro allI impI)
    fix a :: u32 assume a: "0x10000 \<le> unat a \<and> unat a < 0x11000"
    then have "unat a < seg_first disk i \<or> seg_end disk i \<le> unat a" using b(3) by linarith
    then have "m1 a = m a" using old by blast
    then show "m1 a = disk (512 + (unat a - 0x10000))" using Suc.prems(2) a by (simp add: scratch_ok_def)
  qed
  have "loaded disk j m1" if "j < i" for j
    unfolding loaded_def
  proof (intro allI impI)
    fix a :: u32 assume a: "unat (seg_pa disk j) \<le> unat a \<and> unat a < unat (seg_pa disk j) + unat (seg_memsz disk j)"
    then have "unat a < seg_first disk i \<or> seg_end disk i \<le> unat a" using b(4) that by fastforce
    then have "m1 a = m a" using old by blast
    then show "m1 a = disk (512 + unat (seg_off disk j) + (unat a - unat (seg_pa disk j)))"
      using Suc.prems(4) a that by (simp add: loaded_def)
  qed
  then have "\<forall>j < i + 1. loaded disk j m1" using new by (auto simp: less_Suc_eq)
  from Suc.IH [OF r(2) s1 _ this] Suc.prems(3)
  obtain m' d' where rest: "load_loop ops (ELFHDR + of_nat (?P + 32 * (i + 1))) (ELFHDR + of_nat (?P + 32 * ?N)) (m1, d1) = Some (m', d')"
    "scratch_ok disk m'" "\<forall>j < ?N. loaded disk j m'" by auto
  have "?ph + sizeof_Proghdr = ELFHDR + of_nat (?P + 32 * (i + 1))" by simp
  then have "load_loop ops ?ph (ELFHDR + of_nat (?P + 32 * ?N)) (m, d) = Some (m', d')"
    using lt r(1) rest(1) unfolding load_loop.simps [of _ ?ph] fst_conv f by (simp only: if_True bind.bind_lunit)
  with rest(2,3) show ?case by blast
qed

text \<open>\<open>readseg\<close> ends and reads the block: if the block lies at the same place within a sector in
  memory as on the disk, the \<open>count\<close> bytes at \<open>pa\<close> are those at \<open>offset\<close> of the image, and memory
  outside the sectors it touches is unchanged.\<close>

theorem readseg_loads:
  assumes "ide_disk ops idle serving disk" "idle d" "unat pa + unat count + 511 < 2 ^ 32" "unat pa mod 512 = unat off mod 512"
  shows "\<exists>m' d'. readseg ops pa count off (m, d) = Some (m', d') \<and> idle d' \<and>
    (\<forall>a. unat pa \<le> unat a \<and> unat a < unat pa + unat count \<longrightarrow> m' a = disk (512 + unat off + (unat a - unat pa))) \<and>
    (\<forall>a. unat a < sector_floor (unat pa) \<or> sector_ceil (unat pa + unat count) \<le> unat a \<longrightarrow> m' a = m a)"
  by (rule readseg_bytes [OF assms])

text \<open>C22: the loader ends. If the second sector of the disk starts a bootable kernel, it jumps to the entry
  point with every segment in memory, byte for byte; if there is no ELF image it spins.\<close>

theorem bootmain_loads:
  assumes "ide_disk ops idle serving disk" "idle d"
  shows "(bootable disk \<longrightarrow> (\<exists>m' d'. bootmain ops (m, d) = Some (Jump (image_word disk 24), m', d') \<and>
      (\<forall>i < image_phnum disk. loaded disk i m'))) \<and>
    (image_word disk 0 \<noteq> ELF_MAGIC \<longrightarrow> (\<exists>m' d'. bootmain ops (m, d) = Some (Spin, m', d')))"
proof -
  have z: "unat ELFHDR + unat (SECTSIZE * 8) + 511 < 2 ^ 32" "unat ELFHDR mod 512 = unat (0 :: u32) mod 512" by simp_all
  obtain m1 d1 where r: "readseg ops ELFHDR (SECTSIZE * 8) 0 (m, d) = Some (m1, d1)" "idle d1"
    "\<forall>a. unat ELFHDR \<le> unat a \<and> unat a < unat ELFHDR + unat (SECTSIZE * 8) \<longrightarrow> m1 a = disk (512 + unat (0 :: u32) + (unat a - unat ELFHDR))"
    using readseg_bytes [OF assms z, of m] by blast
  have ok: "scratch_ok disk m1" using r(3) by (simp add: scratch_ok_def)
  note w = scratch_word [where k = 0, simplified] scratch_word [where k = 24, simplified] scratch_word [where k = 28, simplified]
    scratch_word [where k = 44, simplified]
  have bad: "\<exists>m' d'. bootmain ops (m, d) = Some (Spin, m', d')" if "image_word disk 0 \<noteq> ELF_MAGIC"
    using that w(1) [OF ok] r(1) by (simp add: bootmain_def)
  have good: "\<exists>m' d'. bootmain ops (m, d) = Some (Jump (image_word disk 24), m', d') \<and> (\<forall>i < image_phnum disk. loaded disk i m')"
    if boot: "bootable disk"
  proof -
    obtain m2 d2 where l: "load_loop ops (ELFHDR + of_nat (image_phoff disk)) (ELFHDR + of_nat (image_phoff disk + 32 * image_phnum disk)) (m1, d1) =
        Some (m2, d2)" "scratch_ok disk m2" "\<forall>j < image_phnum disk. loaded disk j m2"
      using load_loop_loads [OF assms(1) boot r(2) ok, of 0] by auto
    have "of_nat (image_phoff disk) = image_word disk 28" "of_nat (image_phnum disk) = image_word disk 44 AND 0xFFFF"
      by (simp_all add: image_phoff_def image_phnum_def)
    with l w(1,3,4) [OF ok] w(2) [OF l(2)] r(1) boot show ?thesis
      by (simp add: bootmain_def Let_def bootable_def add.assoc)
  qed
  from bad good show ?thesis by blast
qed

section \<open>A controller\<close>

text \<open>A disk that is always ready: registers, and the sector being read with the words delivered.\<close>

record ide_sim =
  sim_regs :: "u32 \<Rightarrow> u8"
  sim_pos :: "nat \<times> nat"

definition sim_sector :: "(u32 \<Rightarrow> u8) \<Rightarrow> nat" where
  "sim_sector r = unat (r 0x1F3) + 2 ^ 8 * unat (r 0x1F4) + 2 ^ 16 * unat (r 0x1F5) + 2 ^ 24 * (unat (r 0x1F6) mod 16)"

definition sim_ops :: "(nat \<Rightarrow> u8) \<Rightarrow> ide_sim ide_ops" where
  "sim_ops disk = \<lparr>
     ide_inb = (\<lambda>p d. (if p = 0x1F7 then 0x40 else sim_regs d p, d)),
     ide_inl = (\<lambda>p d. (disk_word disk (512 * fst (sim_pos d) + 4 * snd (sim_pos d)), d\<lparr>sim_pos := (fst (sim_pos d), snd (sim_pos d) + 1)\<rparr>)),
     ide_outb = (\<lambda>p b d. if p = 0x1F7 then d\<lparr>sim_pos := (sim_sector (sim_regs d), 0)\<rparr> else d\<lparr>sim_regs := (sim_regs d)(p := b)\<rparr>),
     ide_outw = (\<lambda>p w d. d)\<rparr>"

lemma sim_ready: "P d \<Longrightarrow> gets_ready (sim_ops disk) P d"
  unfolding gets_ready_def by (rule exI [of _ 0]) (simp add: sim_ops_def)

lemma unat_byte: "unat (ucast (w :: u32) :: u8) = unat w mod 256"
  by (simp add: unsigned_ucast_eq unsigned_take_bit_eq take_bit_eq_mod)

lemma sector_digits:
  assumes "n < 2 ^ 28"
  shows "n mod 256 + 256 * (n div 256 mod 256) + 65536 * (n div 65536 mod 256) + 16777216 * (n div 16777216 mod 16) = (n :: nat)"
proof -
  have "n div 16777216 < 16" using assms by simp
  then have "n div 16777216 mod 16 = n div 16777216" by simp
  moreover have "n div 65536 = 256 * (n div 16777216) + n div 65536 mod 256" "n div 256 = 256 * (n div 65536) + n div 256 mod 256"
    using div_mult_mod_eq [of "n div 65536" 256] div_mult_mod_eq [of "n div 256" 256] by (simp_all add: div_mult2_eq [symmetric])
  ultimately show ?thesis using div_mult_mod_eq [of n 256] by linarith
qed

lemma sim_disk: "ide_disk (sim_ops disk) (\<lambda>d. True) (\<lambda>n j d. sim_pos d = (n, j)) disk"
proof -
  have "sim_pos (read_command (sim_ops disk) (of_nat n) d) = (n, 0)" if n: "n < 2 ^ 28" for n and d :: ide_sim
  proof -
    let ?w = "of_nat n :: u32"
    have w: "unat ?w = n" using n by (intro unat_of_nat_u32) simp
    have "unat (ucast (drop_bit 24 ?w OR 0xE0) :: u8) mod 16 = n div 2 ^ 24 mod 16"
    proof -
      have "take_bit 4 (drop_bit 24 ?w OR 0xE0) = take_bit 4 (drop_bit 24 ?w)" by (simp add: take_bit_or)
      then have "unat (drop_bit 24 ?w OR 0xE0) mod 16 = unat (drop_bit 24 ?w) mod 16"
        using unat_take_bit_u32 [of 4 "drop_bit 24 ?w OR 0xE0"] unat_take_bit_u32 [of 4 "drop_bit 24 ?w"] by simp
      then show ?thesis unfolding unat_byte by (simp add: mod_mod_cancel unat_drop_bit_u32 w del: of_nat_numeral drop_bit_of_nat)
    qed
    then show ?thesis
      using sector_digits [OF n]
      by (simp add: read_command_def Let_def sim_ops_def sim_sector_def unat_byte unat_drop_bit_u32 w mult.commute del: drop_bit_of_nat)
  qed
  then show ?thesis unfolding ide_disk_def by (auto simp: sim_ready) (auto simp: sim_ops_def)
qed

text \<open>A disk with an image of one segment: 32 bytes at \<open>0x1000\<close> of the file, to be loaded at \<open>0x100000\<close>; the
  entry point is \<open>0x10000C\<close>.\<close>

definition demo_disk :: "nat \<Rightarrow> u8" where
  "demo_disk = (\<lambda>i. if i < 4608 then 0 else of_nat i)(
     512 := 0x7F, 513 := 0x45, 514 := 0x4C, 515 := 0x46, 536 := 0x0C, 538 := 0x10, 540 := 52, 556 := 1,
     569 := 0x10, 578 := 0x10, 584 := 0x20)"

lemma demo_disk_words:
  "image_word demo_disk 0 = ELF_MAGIC" "image_word demo_disk 24 = 0x10000C" "image_phoff demo_disk = 52" "image_phnum demo_disk = 1"
  "seg_off demo_disk 0 = 0x1000" "seg_pa demo_disk 0 = 0x100000" "seg_memsz demo_disk 0 = 0x20"
proof -
  have w: "image_word demo_disk 28 = 52" "image_word demo_disk 44 = 1"
    by (simp_all add: image_word_def disk_word_def load32_def demo_disk_def)
  then show p: "image_phoff demo_disk = 52" "image_phnum demo_disk = 1" by (simp_all add: image_phoff_def image_phnum_def)
  show "image_word demo_disk 0 = ELF_MAGIC" "image_word demo_disk 24 = 0x10000C"
    "seg_off demo_disk 0 = 0x1000" "seg_pa demo_disk 0 = 0x100000" "seg_memsz demo_disk 0 = 0x20"
    unfolding seg_off_def seg_pa_def seg_memsz_def p by (simp_all add: image_word_def disk_word_def load32_def demo_disk_def)
qed

lemma demo_disk_bootable: "bootable demo_disk"
  unfolding bootable_def by (simp add: demo_disk_words seg_end_def seg_first_def sector_floor_def sector_ceil_def)

theorem bootmain_loads_witness:
  "\<exists>m' d'. bootmain (sim_ops demo_disk) (\<lambda>_. 0, \<lparr>sim_regs = \<lambda>_. 0, sim_pos = (0, 0)\<rparr>) = Some (Jump 0x10000C, m', d') \<and>
     m' 0x100005 = 5"
proof -
  obtain m' d' where "bootmain (sim_ops demo_disk) (\<lambda>_. 0, \<lparr>sim_regs = \<lambda>_. 0, sim_pos = (0, 0)\<rparr>) = Some (Jump 0x10000C, m', d')"
    "loaded demo_disk 0 m'"
    using bootmain_loads [OF sim_disk [of demo_disk], where m = "\<lambda>_. 0" and d = "\<lparr>sim_regs = \<lambda>_. 0, sim_pos = (0, 0)\<rparr>"] demo_disk_bootable
    by (auto simp: demo_disk_words)
  moreover have "m' 0x100005 = demo_disk 4613" using \<open>loaded demo_disk 0 m'\<close> by (simp add: loaded_def demo_disk_words)
  ultimately show ?thesis by (auto simp: demo_disk_def)
qed

theorem readseg_loads_witness:
  "\<exists>m' d'. readseg (sim_ops demo_disk) 0x100000 0x20 0x1000 (\<lambda>_. 0, \<lparr>sim_regs = \<lambda>_. 0, sim_pos = (0, 0)\<rparr>) = Some (m', d') \<and>
     m' 0x100005 = 5 \<and> m' 0x100200 = 0"
proof -
  obtain m' d' where r: "readseg (sim_ops demo_disk) 0x100000 0x20 0x1000 (\<lambda>_. 0, \<lparr>sim_regs = \<lambda>_. 0, sim_pos = (0, 0)\<rparr>) = Some (m', d')"
    "\<forall>a. unat (0x100000 :: u32) \<le> unat a \<and> unat a < unat (0x100000 :: u32) + unat (0x20 :: u32) \<longrightarrow>
      m' a = demo_disk (512 + unat (0x1000 :: u32) + (unat a - unat (0x100000 :: u32)))"
    "\<forall>a. unat a < sector_floor (unat (0x100000 :: u32)) \<or> sector_ceil (unat (0x100000 :: u32) + unat (0x20 :: u32)) \<le> unat a \<longrightarrow> m' a = 0"
    using readseg_loads [OF sim_disk [of demo_disk], where m = "\<lambda>_. 0" and d = "\<lparr>sim_regs = \<lambda>_. 0, sim_pos = (0, 0)\<rparr>" and pa = "0x100000" and count = "0x20" and off = "0x1000"] by auto
  have "m' 0x100005 = demo_disk 4613" using r(2) by simp
  moreover have "m' 0x100200 = 0" using r(3) by (simp add: sector_ceil_def)
  ultimately show ?thesis using r(1) by (auto simp: demo_disk_def)
qed

end
