(* ===== verification/Strings.thy ===== *)
theory Strings
  imports Memory
begin

text \<open>
  The string routines of \<open>lib/string.c\<close> over byte memory. A loop that only a zero byte ends is
  a partial function; a loop with a size is total. The block operations are in \<open>Memory\<close>,
  except \<open>memcmp\<close> and \<open>memfind\<close>, which are here.

  \<open>str_at m p cs\<close> is the string \<open>cs\<close> at \<open>p\<close>: the lemmas say what each routine does to it.
\<close>

section \<open>Routines\<close>

partial_function (option) strlen_loop :: "memory \<Rightarrow> u32 \<Rightarrow> u32 \<Rightarrow> u32 option" where
  "strlen_loop m s n = (if m s \<noteq> 0 then strlen_loop m (s + 1) (n + 1) else Some n)"

definition strlen :: "memory \<Rightarrow> u32 \<Rightarrow> u32 option" where
  "strlen m s = strlen_loop m s 0"

lemma unat_pred_less: "0 < (x :: u32) \<Longrightarrow> unat (x - 1) < unat x"
  by (metis measure_unat less_irrefl)

function strnlen_loop :: "memory \<Rightarrow> u32 \<Rightarrow> u32 \<Rightarrow> u32 \<Rightarrow> u32" where
  "strnlen_loop m s sz n = (if sz > 0 \<and> m s \<noteq> 0 then strnlen_loop m (s + 1) (sz - 1) (n + 1) else n)"
  by pat_completeness auto
termination by (relation "measure (\<lambda>(m, s, sz, n). unat sz)") (auto simp: unat_pred_less)

declare strnlen_loop.simps [simp del]

definition strnlen :: "memory \<Rightarrow> u32 \<Rightarrow> u32 \<Rightarrow> u32" where
  "strnlen m s sz = strnlen_loop m s sz 0"

partial_function (option) strcpy :: "memory \<Rightarrow> u32 \<Rightarrow> u32 \<Rightarrow> memory option" where
  "strcpy m dst src =
     (let m' = m(dst := m src) in if m src \<noteq> 0 then strcpy m' (dst + 1) (src + 1) else Some m')"

definition strcat :: "memory \<Rightarrow> u32 \<Rightarrow> u32 \<Rightarrow> memory option" where
  "strcat m dst src = Option.bind (strlen m dst) (\<lambda>len. strcpy m (dst + len) src)"

lemma unat_diff_Suc: "(i :: u32) < n \<Longrightarrow> unat (n - (i + 1)) < unat (n - i)"
proof -
  assume "i < n"
  then have "0 < n - i" by (metis right_minus_eq word_neq_0_conv less_irrefl)
  moreover have "n - (i + 1) = n - i - 1" by simp
  ultimately show ?thesis using unat_pred_less by metis
qed

function strncpy_loop :: "memory \<Rightarrow> u32 \<Rightarrow> u32 \<Rightarrow> u32 \<Rightarrow> u32 \<Rightarrow> memory" where
  "strncpy_loop m dst src i sz =
     (if i < sz then
        let m = m(dst := m src)
        in strncpy_loop m (dst + 1) (if m src \<noteq> 0 then src + 1 else src) (i + 1) sz
      else m)"
  by pat_completeness auto

termination by (relation "measure (\<lambda>(m, dst, src, i, sz). unat (sz - i))") (auto simp: unat_diff_Suc)

declare strncpy_loop.simps [simp del]

definition strncpy :: "memory \<Rightarrow> u32 \<Rightarrow> u32 \<Rightarrow> u32 \<Rightarrow> memory" where
  "strncpy m dst src sz = strncpy_loop m dst src 0 sz"

text \<open>The loop of \<open>strlcpy\<close>: it ends with \<open>dst\<close>, and the size is counted down before the test.\<close>

function strlcpy_loop :: "memory \<Rightarrow> u32 \<Rightarrow> u32 \<Rightarrow> u32 \<Rightarrow> memory \<times> u32" where
  "strlcpy_loop m dst src sz =
     (if sz > 0 then
        let sz = sz - 1 in
        if sz > 0 \<and> m src \<noteq> 0 then strlcpy_loop (m(dst := m src)) (dst + 1) (src + 1) sz else (m, dst)
      else (m, dst))"
  by pat_completeness auto
termination by (relation "measure (\<lambda>(m, dst, src, sz). unat sz)") (auto simp: unat_pred_less)

declare strlcpy_loop.simps [simp del]

definition strlcpy :: "memory \<Rightarrow> u32 \<Rightarrow> u32 \<Rightarrow> u32 \<Rightarrow> u32 \<times> memory" where
  "strlcpy m dst src sz =
     (if sz > 0 then let (m, d) = strlcpy_loop m dst src sz in (d - dst, m(d := 0)) else (0, m))"

definition byte_diff :: "u8 \<Rightarrow> u8 \<Rightarrow> u32" where
  "byte_diff a b = ucast a - ucast b"

partial_function (option) strcmp :: "memory \<Rightarrow> u32 \<Rightarrow> u32 \<Rightarrow> u32 option" where
  "strcmp m p q =
     (if m p \<noteq> 0 \<and> m p = m q then strcmp m (p + 1) (q + 1) else Some (byte_diff (m p) (m q)))"

function strncmp :: "memory \<Rightarrow> u32 \<Rightarrow> u32 \<Rightarrow> u32 \<Rightarrow> u32" where
  "strncmp m p q n =
     (if n > 0 \<and> m p \<noteq> 0 \<and> m p = m q then strncmp m (p + 1) (q + 1) (n - 1)
      else if n = 0 then 0 else byte_diff (m p) (m q))"
  by pat_completeness auto
termination by (relation "measure (\<lambda>(m, p, q, n). unat n)") (auto simp: unat_pred_less)

declare strncmp.simps [simp del]

text \<open>The results of \<open>strchr\<close> and \<open>strfind\<close> are addresses; 0 is \<open>NULL\<close>.\<close>

partial_function (option) strchr :: "memory \<Rightarrow> u32 \<Rightarrow> u8 \<Rightarrow> u32 option" where
  "strchr m s c = (if m s \<noteq> 0 then if m s = c then Some s else strchr m (s + 1) c else Some 0)"

partial_function (option) strfind :: "memory \<Rightarrow> u32 \<Rightarrow> u8 \<Rightarrow> u32 option" where
  "strfind m s c = (if m s \<noteq> 0 then if m s = c then Some s else strfind m (s + 1) c else Some s)"

function memcmp :: "memory \<Rightarrow> u32 \<Rightarrow> u32 \<Rightarrow> u32 \<Rightarrow> u32" where
  "memcmp m s1 s2 n =
     (if n > 0 then
        if m s1 \<noteq> m s2 then byte_diff (m s1) (m s2) else memcmp m (s1 + 1) (s2 + 1) (n - 1)
      else 0)"
  by pat_completeness auto
termination by (relation "measure (\<lambda>(m, p, q, n). unat n)") (auto simp: unat_pred_less)

declare memcmp.simps [simp del]

function memfind_loop :: "memory \<Rightarrow> u32 \<Rightarrow> u8 \<Rightarrow> u32 \<Rightarrow> u32" where
  "memfind_loop m s c ends =
     (if s < ends then if m s = c then s else memfind_loop m (s + 1) c ends else s)"
  by pat_completeness auto
termination by (relation "measure (\<lambda>(m, s, c, ends). unat (ends - s))") (auto simp: unat_diff_Suc)

declare memfind_loop.simps [simp del]

definition memfind :: "memory \<Rightarrow> u32 \<Rightarrow> u32 \<Rightarrow> u32 \<Rightarrow> u32" where
  "memfind m s c n = memfind_loop m s (ucast c) (s + n)"

section \<open>Reading a number\<close>

partial_function (option) skip_blanks :: "memory \<Rightarrow> u32 \<Rightarrow> u32 option" where
  "skip_blanks m s = (if m s = 0x20 \<or> m s = 0x09 then skip_blanks m (s + 1) else Some s)"

definition digit_of :: "u8 \<Rightarrow> u32 option" where
  "digit_of c =
     (if 0x30 \<le> c \<and> c \<le> 0x39 then Some (ucast c - 0x30)
      else if 0x61 \<le> c \<and> c \<le> 0x7A then Some (ucast c - 0x61 + 10)
      else if 0x41 \<le> c \<and> c \<le> 0x5A then Some (ucast c - 0x41 + 10)
      else None)"

partial_function (option) strtol_digits :: "memory \<Rightarrow> u32 \<Rightarrow> u32 \<Rightarrow> u32 \<Rightarrow> (u32 \<times> u32) option" where
  "strtol_digits m s base val =
     (case digit_of (m s) of
        None \<Rightarrow> Some (val, s)
      | Some dig \<Rightarrow>
          if base \<le>s dig then Some (val, s) else strtol_digits m (s + 1) base (val * base + dig))"

text \<open>The result of \<open>strtol\<close> and what it stores in \<open>*endptr\<close>.\<close>

definition strtol :: "memory \<Rightarrow> u32 \<Rightarrow> u32 \<Rightarrow> (u32 \<times> u32) option" where
  "strtol m s base =
     Option.bind (skip_blanks m s) (\<lambda>s.
       let (s, neg) = (if m s = 0x2B then (s + 1, False) else if m s = 0x2D then (s + 1, True) else (s, False));
           (s, base) = (if (base = 0 \<or> base = 16) \<and> m s = 0x30 \<and> m (s + 1) = 0x78 then (s + 2, 16)
             else if base = 0 \<and> m s = 0x30 then (s + 1, 8)
             else if base = 0 then (s, 10) else (s, base))
       in map_option (\<lambda>(val, e). (if neg then - val else val, e)) (strtol_digits m s base 0))"

section \<open>Strings in memory\<close>

fun str_at :: "memory \<Rightarrow> u32 \<Rightarrow> u8 list \<Rightarrow> bool" where
  "str_at m p [] \<longleftrightarrow> m p = 0"
| "str_at m p (c # cs) \<longleftrightarrow> c \<noteq> 0 \<and> m p = c \<and> str_at m (p + 1) cs"

lemma next_char: "(p :: u32) + of_nat (Suc i) = p + 1 + of_nat i"
  by simp

lemma str_at_cong: "(\<And>i. i \<le> length cs \<Longrightarrow> m (p + of_nat i) = m' (p' + of_nat i)) \<Longrightarrow> str_at m p cs = str_at m' p' cs"
proof (induction cs arbitrary: p p')
  case Nil
  from Nil [of 0] show ?case by simp
next
  case (Cons c cs)
  have "m (p + 1 + of_nat i) = m' (p' + 1 + of_nat i)" if "i \<le> length cs" for i
    using Cons.prems [of "Suc i"] that by (simp add: add.assoc)
  from Cons.IH [OF this] Cons.prems [of 0] show ?case by simp
qed

lemma str_at_upd: "(\<And>i. i \<le> length cs \<Longrightarrow> p + of_nat i \<noteq> a) \<Longrightarrow> str_at (m(a := b)) p cs = str_at m p cs"
  by (rule str_at_cong) auto

lemma str_at_nth: "str_at m p cs \<Longrightarrow> i < length cs \<Longrightarrow> m (p + of_nat i) = cs ! i \<and> cs ! i \<noteq> 0"
proof (induction cs arbitrary: p i)
  case (Cons c cs)
  show ?case
  proof (cases i)
    case (Suc j)
    then show ?thesis unfolding Suc next_char using Cons.IH [of "p + 1" j] Cons.prems Suc by simp
  qed (use Cons.prems in simp)
qed simp

lemma str_at_end: "str_at m p cs \<Longrightarrow> m (p + of_nat (length cs)) = 0"
proof (induction cs arbitrary: p)
  case (Cons c cs)
  then show ?case unfolding length_Cons next_char by simp
qed simp

lemma str_at_append:
  "\<forall>i < length as. m (p + of_nat i) = as ! i \<and> as ! i \<noteq> 0 \<Longrightarrow> str_at m (p + of_nat (length as)) bs \<Longrightarrow>
    str_at m p (as @ bs)"
proof (induction as arbitrary: p)
  case (Cons x xs)
  have "m (p + 1 + of_nat i) = xs ! i \<and> xs ! i \<noteq> 0" if "i < length xs" for i
    using Cons.prems(1) that by (metis Suc_mono length_Cons next_char nth_Cons_Suc)
  then have "str_at m (p + 1) (xs @ bs)"
    using Cons.IH [of "p + 1"] Cons.prems(2) by (metis length_Cons next_char)
  moreover have "m p = x \<and> x \<noteq> 0" using Cons.prems(1) by force
  ultimately show ?case by simp
qed simp

text \<open>A string is determined by its address.\<close>

lemma str_at_unique: "str_at m p cs \<Longrightarrow> str_at m p ds \<Longrightarrow> cs = ds"
proof (induction cs arbitrary: p ds)
  case Nil
  then show ?case by (cases ds) auto
next
  case (Cons c cs)
  then show ?case by (cases ds) auto
qed

lemma strlen_str: "str_at m p cs \<Longrightarrow> strlen m p = Some (of_nat (length cs))"
proof -
  have "str_at m p cs \<Longrightarrow> strlen_loop m p n = Some (n + of_nat (length cs))" for n
    by (induction cs arbitrary: p n) (subst strlen_loop.simps; simp add: add.assoc)+
  then show "str_at m p cs \<Longrightarrow> strlen m p = Some (of_nat (length cs))" by (simp add: strlen_def)
qed

section \<open>Copying\<close>

lemma str_at_tail:
  assumes "str_at m src (c # cs)" "unat src + length (c # cs) < 4294967296"
    "unat dst \<le> unat src \<or> unat src + length (c # cs) < unat dst"
  shows "str_at (m(dst := b)) (src + 1) cs"
proof -
  have s: "unat (src + 1) = unat src + 1" using assms(2) by (subst unat_add_no_wrap) simp_all
  have "src + 1 + of_nat i \<noteq> dst" if "i \<le> length cs" for i
  proof -
    have "unat (of_nat i :: u32) = i" using that assms(2) by (intro unat_of_nat_u32) simp
    then have "unat (src + 1 + of_nat i) = unat src + 1 + i"
      using that assms(2) s by (subst unat_add_no_wrap) simp_all
    then show ?thesis using assms(3) that by auto
  qed
  then show ?thesis using assms(1) by (simp add: str_at_upd)
qed

lemma strcpy_movsb:
  assumes "str_at m src cs" "unat src + length cs < 4294967296" "unat dst + length cs < 4294967296"
    "unat dst \<le> unat src \<or> unat src + length cs < unat dst"
  shows "strcpy m dst src = Some (movsb_up m dst src (Suc (length cs)))"
  using assms
proof (induction cs arbitrary: m dst src)
  case Nil
  then show ?case by (subst strcpy.simps) simp
next
  case (Cons c cs)
  let ?m = "m(dst := m src)"
  have b: "unat src + length cs + 1 < 4294967296" "unat dst + length cs + 1 < 4294967296"
    using Cons.prems by simp_all
  have s: "unat (src + 1) = unat src + 1" and d: "unat (dst + 1) = unat dst + 1"
    using b by (subst unat_add_no_wrap; simp)+
  have 1: "str_at ?m (src + 1) cs" using Cons.prems by (intro str_at_tail [of m src c cs]) simp_all
  have 2: "unat (dst + 1) \<le> unat (src + 1) \<or> unat (src + 1) + length cs < unat (dst + 1)"
    using Cons.prems(4) s d by auto
  have "strcpy ?m (dst + 1) (src + 1) = Some (movsb_up ?m (dst + 1) (src + 1) (Suc (length cs)))"
    using b s d by (intro Cons.IH [OF 1 _ _ 2]) simp_all
  moreover have "strcpy m dst src = strcpy ?m (dst + 1) (src + 1)"
    using Cons.prems(1) by (subst strcpy.simps) (simp add: Let_def)
  ultimately show ?case by simp
qed

lemma strcpy_copy:
  assumes "str_at m src cs" "unat src + length cs < 4294967296" "unat dst + length cs < 4294967296"
    "unat dst \<le> unat src \<or> unat src + length cs < unat dst"
  shows "strcpy m dst src = Some (block_copy m dst src (Suc (length cs)))"
proof -
  have "movsb_up m dst src (Suc (length cs)) = block_copy m dst src (Suc (length cs))"
    unfolding movsb_up_copies using copies_up_copy [of src 1 "Suc (length cs)" dst m] assms by auto
  then show ?thesis using strcpy_movsb [OF assms] by simp
qed

lemma str_at_copied:
  assumes "str_at m src cs" "length cs < n" "n \<le> 4294967296"
  shows "str_at (block_copy m dst src n) dst cs"
proof -
  have "block_copy m dst src n (dst + of_nat i) = m (src + of_nat i)" if "i \<le> length cs" for i
  proof -
    have "unat (of_nat i :: u32) = i" using that assms(2,3) by (intro unat_of_nat_u32) simp
    then show ?thesis using that assms(2) by (simp add: block_copy_def)
  qed
  with assms(1) show ?thesis using str_at_cong [of cs "block_copy m dst src n" dst m src] by blast
qed

text \<open>\<open>strcat\<close> appends: after it the destination holds the old destination string followed by
  the source string, and no byte outside the space of the appended string and its zero byte
  has changed, provided that space does not overlap the source from behind. The call returns.\<close>

theorem strcat_appends:
  assumes d: "str_at m dst as" and s: "str_at m src bs"
    and "unat dst + length as + length bs < 4294967296" "unat src + length bs < 4294967296"
    and apart: "unat dst + length as \<le> unat src \<or> unat src + length bs < unat dst"
  shows "\<exists>m'. strcat m dst src = Some m' \<and> str_at m' dst (as @ bs) \<and>
    (\<forall>a. unat (a - (dst + of_nat (length as))) > length bs \<longrightarrow> m' a = m a)"
proof -
  let ?e = "dst + of_nat (length as)" and ?m = "block_copy m (dst + of_nat (length as)) src (Suc (length bs))"
  have l: "unat (of_nat (length as) :: u32) = length as" using assms(3) by (intro unat_of_nat_u32) simp
  then have e: "unat ?e = unat dst + length as" using assms(3) by (subst unat_add_no_wrap) simp_all
  have "strcpy m ?e src = Some ?m"
    using assms e by (intro strcpy_copy) auto
  then have "strcat m dst src = Some ?m" by (simp add: strcat_def strlen_str [OF d])
  moreover have "str_at ?m ?e bs" using assms(3) by (intro str_at_copied s) simp_all
  moreover have "\<forall>i < length as. ?m (dst + of_nat i) = as ! i \<and> as ! i \<noteq> 0"
  proof (intro allI impI)
    fix i assume i: "i < length as"
    have ui: "unat (of_nat i :: u32) = i" using i assms(3) by (intro unat_of_nat_u32) simp
    then have "unat (dst + of_nat i) = unat dst + i" using i assms(3) by (subst unat_add_no_wrap) simp_all
    then have "unat (dst + of_nat i - ?e) = 4294967296 + (unat dst + i) - (unat dst + length as)"
      using unat_diff_wrap [of "dst + of_nat i" ?e] e i by simp
    then have "\<not> unat (dst + of_nat i - ?e) < Suc (length bs)" using i assms(3) by simp
    then show "?m (dst + of_nat i) = as ! i \<and> as ! i \<noteq> 0"
      using str_at_nth [OF d i] by (simp add: block_copy_def)
  qed
  ultimately show ?thesis using str_at_append [of as ?m dst bs] by (auto simp: block_copy_def)
qed

lemma strlcpy_movsb:
  assumes "str_at m src cs" "unat src + length cs < 4294967296" "unat dst + length cs < 4294967296"
    "unat dst \<le> unat src \<or> unat src + length cs < unat dst" "0 < sz"
  shows "strlcpy_loop m dst src sz = (movsb_up m dst src (min (length cs) (unat sz - 1)),
    dst + of_nat (min (length cs) (unat sz - 1)))"
  using assms
proof (induction cs arbitrary: m dst src sz)
  case Nil
  then show ?case by (subst strlcpy_loop.simps) (simp add: Let_def)
next
  case (Cons c cs)
  let ?m = "m(dst := m src)"
  have b: "unat src + length cs + 1 < 4294967296" "unat dst + length cs + 1 < 4294967296"
    using Cons.prems by simp_all
  have s: "unat (src + 1) = unat src + 1" and d: "unat (dst + 1) = unat dst + 1"
    using b by (subst unat_add_no_wrap; simp)+
  have n: "unat (sz - 1) = unat sz - 1" using Cons.prems(5) by (intro unat_minus_one) auto
  have 1: "str_at ?m (src + 1) cs" using Cons.prems by (intro str_at_tail [of m src c cs]) simp_all
  show ?case
  proof (cases "sz - 1 > 0")
    case True
    then have u: "unat sz - 1 = Suc (unat (sz - 1) - 1)" using n by (simp add: word_less_nat_alt)
    have "unat (dst + 1) \<le> unat (src + 1) \<or> unat (src + 1) + length cs < unat (dst + 1)"
      using Cons.prems(4) s d by auto
    then have "strlcpy_loop ?m (dst + 1) (src + 1) (sz - 1) = (movsb_up ?m (dst + 1) (src + 1)
        (min (length cs) (unat (sz - 1) - 1)), dst + 1 + of_nat (min (length cs) (unat (sz - 1) - 1)))"
      using b s d True by (intro Cons.IH [OF 1]) simp_all
    moreover have "strlcpy_loop m dst src sz = strlcpy_loop ?m (dst + 1) (src + 1) (sz - 1)"
      using Cons.prems(1,5) True by (subst strlcpy_loop.simps) (simp add: Let_def)
    ultimately show ?thesis unfolding u by simp
  next
    case False
    then have "unat sz - 1 = 0" using n by (simp add: word_less_nat_alt)
    moreover have "strlcpy_loop m dst src sz = (m, dst)"
      using False by (subst strlcpy_loop.simps) (simp add: Let_def)
    ultimately show ?thesis by simp
  qed
qed

text \<open>\<open>strlcpy\<close> never writes outside the \<open>size\<close> bytes of the destination and, if there is at
  least one, leaves a string there: the longest beginning of the source that fits with its
  zero byte. It returns the length of that string.\<close>

theorem strlcpy_truncates:
  assumes s: "str_at m src cs" and b: "unat src + length cs < 4294967296" "unat dst + length cs < 4294967296"
    and apart: "unat dst \<le> unat src \<or> unat src + length cs < unat dst" and sz: "0 < sz"
  shows "\<exists>m'. strlcpy m dst src sz = (of_nat (length (take (unat sz - 1) cs)), m') \<and>
    str_at m' dst (take (unat sz - 1) cs) \<and> (\<forall>a. unat (a - dst) \<ge> unat sz \<longrightarrow> m' a = m a)"
proof -
  let ?k = "min (length cs) (unat sz - 1)"
  let ?b = "block_copy m dst src ?k"
  have "copies_up 1 m dst src k = block_copy m dst src k" if "k \<le> length cs" for k
    using copies_up_copy [of src 1 k dst m] b apart that by auto
  then have "movsb_up m dst src ?k = ?b" unfolding movsb_up_copies by simp
  then have r: "strlcpy m dst src sz = (of_nat ?k, ?b(dst + of_nat ?k := 0))"
    using strlcpy_movsb [OF s b apart sz] sz by (simp add: strlcpy_def)
  have uk: "unat (of_nat i :: u32) = i" if "i \<le> ?k" for i
    using that b by (intro unat_of_nat_u32) simp
  have "(?b(dst + of_nat ?k := 0)) (dst + of_nat i) = take (unat sz - 1) cs ! i \<and> take (unat sz - 1) cs ! i \<noteq> 0"
    if "i < length (take (unat sz - 1) cs)" for i
  proof -
    have i: "i < ?k" "i < length cs" using that by simp_all
    have "of_nat i \<noteq> (of_nat ?k :: u32)"
    proof
      assume "of_nat i = (of_nat ?k :: u32)"
      then have "unat (of_nat i :: u32) = unat (of_nat ?k :: u32)" by (rule arg_cong)
      then have "i = ?k" using i(1) by (simp only: uk [of i] uk [of ?k] less_imp_le order.refl)
      with i(1) show False by simp
    qed
    then have "dst + of_nat i \<noteq> dst + of_nat ?k" by simp
    moreover have "?b (dst + of_nat i) = m (src + of_nat i)" using i uk [of i] by (simp add: block_copy_def)
    ultimately show ?thesis using str_at_nth [OF s i(2)] that by simp
  qed
  then have "str_at (?b(dst + of_nat ?k := 0)) dst (take (unat sz - 1) cs @ [])"
    by (intro str_at_append) (simp_all add: min.commute)
  moreover have "(?b(dst + of_nat ?k := 0)) a = m a" if "unat (a - dst) \<ge> unat sz" for a
  proof -
    have "0 < unat sz" using sz by (simp add: word_less_nat_alt)
    then have "?k < unat (a - dst)" using that by simp
    moreover from this have "a \<noteq> dst + of_nat ?k" using uk [of ?k] by auto
    ultimately show ?thesis by (auto simp: block_copy_def)
  qed
  ultimately show ?thesis using r by (auto simp: min.commute)
qed

section \<open>Comparing\<close>

lemma sint_byte_diff: "sint (byte_diff a b) = int (unat a) - int (unat b)"
proof -
  have a: "unat a < 256" "unat b < 256" using unsigned_less [of a, where 'a = nat] unsigned_less [of b, where 'a = nat] by simp_all
  then have u: "unat (ucast a :: u32) = unat a" "unat (ucast b :: u32) = unat b" by (simp_all add: unsigned_ucast_eq take_bit_nat_eq_self)
  show ?thesis
    using a unat_minus_mod_u32 [of "ucast a" "ucast b"]
    by (auto simp: byte_diff_def sint_u32 u mod_if)
qed

definition byte_less :: "(u8 \<times> u8) set" where
  "byte_less = {(a, b). a < b}"

lemma byte_diff_0: "byte_diff a b = 0 \<longleftrightarrow> a = b"
proof
  assume "byte_diff a b = 0"
  then have "int (unat a) - int (unat b) = 0" unfolding sint_byte_diff [symmetric] by simp
  then have "unat a = unat b" by linarith
  then show "a = b" by (rule word_unat_eq_iff [THEN iffD2])
qed (simp add: byte_diff_def)

lemma byte_diff_neg: "byte_diff a b <s 0 \<longleftrightarrow> a < b"
  by (simp add: word_sless_alt sint_byte_diff word_less_def)

lemma strcmp_stop: "m p = 0 \<or> m p \<noteq> m q \<Longrightarrow> strcmp m p q = Some (byte_diff (m p) (m q))"
  by (subst strcmp.simps) auto

lemma strcmp_step: "m p \<noteq> 0 \<Longrightarrow> m p = m q \<Longrightarrow> strcmp m p q = strcmp m (p + 1) (q + 1)"
  by (subst strcmp.simps) simp

lemma strcmp_str:
  assumes "str_at m p as" "str_at m q bs"
  shows "\<exists>r. strcmp m p q = Some r \<and> (r = 0 \<longleftrightarrow> as = bs) \<and> (r <s 0 \<longleftrightarrow> (as, bs) \<in> lexord byte_less)"
  using assms
proof (induction as arbitrary: p q bs)
  case Nil
  then have "strcmp m p q = Some (byte_diff (m p) (m q))" by (intro strcmp_stop) simp
  moreover have "m q = 0 \<longleftrightarrow> bs = []" using Nil by (cases bs) auto
  ultimately show ?case using Nil(1) by (cases bs) (auto simp: byte_diff_0 byte_diff_neg byte_less_def word_gt_0)
next
  case (Cons c cs)
  show ?case
  proof (cases "m p = m q")
    case True
    then obtain ds where ds: "bs = c # ds" "str_at m (q + 1) ds" using Cons.prems by (cases bs) auto
    have "strcmp m p q = strcmp m (p + 1) (q + 1)" using Cons.prems True by (intro strcmp_step) auto
    with Cons.IH [of "p + 1" "q + 1" ds] Cons.prems ds show ?thesis by (auto simp: byte_less_def)
  next
    case False
    then have "strcmp m p q = Some (byte_diff (m p) (m q))" by (intro strcmp_stop) simp
    moreover have "bs \<noteq> [] \<longrightarrow> hd bs = m q" "bs = [] \<longleftrightarrow> m q = 0" using Cons.prems(2) by (cases bs; auto)+
    ultimately show ?thesis using False Cons.prems(1)
      by (cases bs) (auto simp: byte_diff_0 byte_diff_neg byte_less_def)
  qed
qed

section \<open>A memory for the witnesses\<close>

text \<open>The strings \<open>"ab"\<close> at \<open>0x100\<close> and \<open>"cd"\<close> at \<open>0x200\<close>.\<close>

definition demo_text :: memory where
  "demo_text = (\<lambda>_. 0)(0x100 := 0x61, 0x101 := 0x62, 0x200 := 0x63, 0x201 := 0x64)"

lemma demo_text_str: "str_at demo_text 0x100 [0x61, 0x62]" "str_at demo_text 0x200 [0x63, 0x64]"
  by (simp_all add: demo_text_def)

lemma strcat_appends_witness:
  "\<exists>m'. strcat demo_text 0x100 0x200 = Some m' \<and> str_at m' 0x100 [0x61, 0x62, 0x63, 0x64]"
  using strcat_appends [OF demo_text_str] by auto

lemma strlcpy_truncates_witness:
  "\<exists>m'. strlcpy demo_text 0x100 0x200 2 = (1, m') \<and> str_at m' 0x100 [0x63] \<and> m' 0x102 = 0"
proof -
  obtain m' where "strlcpy demo_text 0x100 0x200 2 = (1, m')" "str_at m' 0x100 [0x63]"
    "\<forall>a. unat (a - 0x100) \<ge> 2 \<longrightarrow> m' a = demo_text a"
    using strlcpy_truncates [OF demo_text_str(2), of "0x100" 2] by auto
  then show ?thesis by (auto simp: demo_text_def)
qed

end
