(* ===== verification/Printfmt.thy ===== *)
theory Printfmt
  imports Strings
begin

text \<open>
  Formatted output (\<open>lib/printfmt.c\<close>). As in the code the characters go one by one to a
  function \<open>putch\<close> with a state of its own, and strings are read from memory, \<open>rd s\<close>, which
  \<open>putch\<close> may change. A format is the list of its characters without the final zero byte; the
  variable arguments are the 32-bit words on the stack, and reading past them is a fault. A
  string argument without a zero byte makes the result \<^const>\<open>None\<close>. Field widths and
  precisions are integers: their overflow is undefined in C.

  The nested calls \<open>printfmt(putch, putdat, "error %d", err)\<close> and \<open>"%s"\<close> of the conversion
  \<open>%e\<close> are written out.
\<close>

section \<open>Numbers\<close>

definition digit_char :: "nat \<Rightarrow> u32" where
  "digit_char d = (if d < 10 then 0x30 + of_nat d else 0x61 + of_nat (d - 10))"

definition put_times :: "(u32 \<Rightarrow> 's \<Rightarrow> fault + 's) \<Rightarrow> u32 \<Rightarrow> int \<Rightarrow> 's \<Rightarrow> fault + 's" where
  "put_times putch c n s = for_each putch (replicate (nat n) c) s"

text \<open>The base is 10 or 16 at every call. With base 0 the code divides by zero and with base 1
  it does not end, which the test \<open>2 \<le> base\<close> leaves out.\<close>

lemma div_base_less: "(base :: u64) \<le> num \<Longrightarrow> 2 \<le> base \<Longrightarrow> unat (num div base) < unat num"
proof -
  assume "base \<le> num" "2 \<le> base"
  then have "unat base \<le> unat num" "2 \<le> unat base" by (simp_all add: word_le_nat_alt)
  then show ?thesis by (simp add: unat_div)
qed

function printnum :: "(u32 \<Rightarrow> 's \<Rightarrow> fault + 's) \<Rightarrow> u64 \<Rightarrow> u64 \<Rightarrow> int \<Rightarrow> u32 \<Rightarrow> 's \<Rightarrow> fault + 's" where
  "printnum putch num base width padc s =
     bindr (if num \<ge> base \<and> 2 \<le> base then printnum putch (num div base) base (width - 1) padc s
            else put_times putch padc (width - 1) s)
       (putch (digit_char (unat (num mod base))))"
  by pat_completeness auto

termination
  by (relation "measure (\<lambda>(putch, num, base, width, padc, s). unat num)") (auto simp: div_base_less)

declare printnum.simps [simp del]

section \<open>Arguments\<close>

definition arg32 :: "u32 list \<Rightarrow> fault + u32 \<times> u32 list" where
  "arg32 ap = (case ap of [] \<Rightarrow> Inl Wild_Access | a # ap \<Rightarrow> Inr (a, ap))"

definition arg64 :: "u32 list \<Rightarrow> fault + u64 \<times> u32 list" where
  "arg64 ap = bindr (arg32 ap) (\<lambda>(lo, ap). bindr (arg32 ap) (\<lambda>(hi, ap).
     Inr (ucast lo OR push_bit 32 (ucast hi), ap)))"

definition getuint :: "u32 list \<Rightarrow> nat \<Rightarrow> fault + u64 \<times> u32 list" where
  "getuint ap lflag =
     (if lflag \<ge> 2 then arg64 ap else bindr (arg32 ap) (\<lambda>(a, ap). Inr (ucast a, ap)))"

definition getint :: "u32 list \<Rightarrow> nat \<Rightarrow> fault + u64 \<times> u32 list" where
  "getint ap lflag =
     (if lflag \<ge> 2 then arg64 ap else bindr (arg32 ap) (\<lambda>(a, ap). Inr (scast a, ap)))"

section \<open>Flags, width and precision\<close>

record fmt_state =
  padc :: u8
  width :: int
  precision :: int
  lflag :: nat
  altflag :: bool

definition fmt_start :: fmt_state where
  "fmt_start = \<lparr>padc = 0x20, width = - 1, precision = - 1, lflag = 0, altflag = False\<rparr>"

definition is_digit :: "u8 \<Rightarrow> bool" where
  "is_digit c \<longleftrightarrow> 0x30 \<le> c \<and> c \<le> 0x39"

fun scan_digits :: "int \<Rightarrow> u8 \<Rightarrow> u8 list \<Rightarrow> int \<times> u8 list" where
  "scan_digits n ch [] = (n * 10 + (uint ch - 0x30), [])"
| "scan_digits n ch (c # fmt) =
     (let n = n * 10 + (uint ch - 0x30)
      in if is_digit c then scan_digits n c fmt else (n, c # fmt))"

definition process_precision :: "int \<Rightarrow> fmt_state \<Rightarrow> fmt_state" where
  "process_precision v f =
     (let f = f\<lparr>precision := v\<rparr>
      in if width f < 0 then f\<lparr>width := precision f, precision := - 1\<rparr> else f)"

text \<open>The part of \<open>vprintfmt\<close> from \<open>reswitch\<close> up to the conversion character, which is 0 at the end
  of the format.\<close>

lemma scan_digits_length: "length (snd (scan_digits n ch fmt)) \<le> length fmt"
  by (induction n ch fmt rule: scan_digits.induct) (auto simp: Let_def)

function escape :: "fmt_state \<Rightarrow> u8 list \<Rightarrow> u32 list \<Rightarrow> fault + fmt_state \<times> u8 \<times> u8 list \<times> u32 list" where
  "escape f [] ap = Inr (f, 0, [], ap)"
| "escape f (ch # fmt) ap =
     (if ch = 0x2D then escape (f\<lparr>padc := 0x2D\<rparr>) fmt ap
      else if ch = 0x30 then escape (f\<lparr>padc := 0x30\<rparr>) fmt ap
      else if 0x31 \<le> ch \<and> ch \<le> 0x39 then
        escape (process_precision (fst (scan_digits 0 ch fmt)) f) (snd (scan_digits 0 ch fmt)) ap
      else if ch = 0x2A then
        bindr (arg32 ap) (\<lambda>(a, ap). escape (process_precision (sint a) f) fmt ap)
      else if ch = 0x2E then escape (if width f < 0 then f\<lparr>width := 0\<rparr> else f) fmt ap
      else if ch = 0x23 then escape (f\<lparr>altflag := True\<rparr>) fmt ap
      else if ch = 0x6C then escape (f\<lparr>lflag := lflag f + 1\<rparr>) fmt ap
      else Inr (f, ch, fmt, ap))"
  by pat_completeness auto

termination
  by (relation "measure (\<lambda>(f, fmt, ap). length fmt)") (auto simp: scan_digits_length le_imp_less_Suc)

lemma escape_length: "escape f fmt ap = Inr (f', ch, rest, ap') \<Longrightarrow> length rest \<le> length fmt"
proof (induction f fmt ap rule: escape.induct)
  case (2 f c fmt ap)
  show ?case using 2 scan_digits_length [of 0 c fmt]
    by (auto simp: bindr_eq_Inr split: if_splits) (fastforce intro: le_SucI)+
qed simp

section \<open>Strings\<close>

text \<open>Characters are signed: one above \<open>0x7F\<close> is negative.\<close>

partial_function (option) put_string ::
  "('s \<Rightarrow> memory) \<Rightarrow> (u32 \<Rightarrow> 's \<Rightarrow> fault + 's) \<Rightarrow> bool \<Rightarrow> int \<Rightarrow> int \<Rightarrow> u32 \<Rightarrow> 's \<Rightarrow> (fault + int \<times> 's) option" where
  "put_string rd putch alt prec wid p s =
     (let ch = scast (rd s p) :: u32 in
      if ch \<noteq> 0 \<and> (prec < 0 \<or> prec - 1 \<ge> 0) then
        bindo (Some (if alt \<and> (ch <s 0x20 \<or> 0x7E <s ch) then putch 0x3F s else putch ch s))
          (put_string rd putch alt (if prec < 0 then prec else prec - 1) (wid - 1) (p + 1))
      else Some (Inr (wid, s)))"

text \<open>The constant \<open>"(null)"\<close>, as a memory with the string at address 0.\<close>

definition null_text :: memory where
  "null_text a = (if unat a < 6 then [0x28, 0x6E, 0x75, 0x6C, 0x6C, 0x29] ! unat a else 0)"

definition convert_s ::
  "('s \<Rightarrow> memory) \<Rightarrow> (u32 \<Rightarrow> 's \<Rightarrow> fault + 's) \<Rightarrow> fmt_state \<Rightarrow> u32 \<Rightarrow> 's \<Rightarrow> (fault + 's) option" where
  "convert_s rd putch f p s =
     (let rd = (if p = 0 then (\<lambda>_. null_text) else rd);
          pad = (width f > 0 \<and> padc f \<noteq> 0x2D);
          w = (if pad then width f - sint (strnlen (rd s) p (word_of_int (precision f))) else width f) in
      bindo (Some (if pad then put_times putch (ucast (padc f)) w s else Inr s)) (\<lambda>s.
      bindo (put_string rd putch (altflag f) (precision f) (if pad then min w 0 else w) p s) (\<lambda>(w, s).
      Some (put_times putch 0x20 w s))))"

section \<open>Conversions\<close>

text \<open>\<open>error_string\<close>; entry 0 is \<open>NULL\<close>.\<close>

definition MAXERROR :: u32 where [simp]: "MAXERROR = 7"

definition error_string :: "string option list" where
  "error_string = [None, Some ''unspecified error'', Some ''bad environment'', Some ''invalid parameter'',
     Some ''out of memory'', Some ''out of environments'', Some ''segmentation fault'']"

definition put_chars :: "(u32 \<Rightarrow> 's \<Rightarrow> fault + 's) \<Rightarrow> string \<Rightarrow> 's \<Rightarrow> fault + 's" where
  "put_chars putch xs s = for_each putch (map of_char xs) s"

definition convert_e :: "(u32 \<Rightarrow> 's \<Rightarrow> fault + 's) \<Rightarrow> u32 \<Rightarrow> 's \<Rightarrow> fault + 's" where
  "convert_e putch err s =
     (let err = (if err <s 0 then - err else err) in
      if MAXERROR \<le>s err then bindr (put_chars putch ''error '' s) (printnum putch (ucast err) 10 (- 1) 0x20)
      else if err <s 0 then Inl Wild_Access
      else case error_string ! unat err of
        None \<Rightarrow> bindr (put_chars putch ''error '' s) (printnum putch (ucast err) 10 (- 1) 0x20)
      | Some p \<Rightarrow> put_chars putch p s)"

text \<open>One conversion; \<open>conv\<close> is its character. The outer \<^const>\<open>None\<close> is a character that is no
  conversion, the inner one a string that does not end.\<close>

definition convert ::
  "('s \<Rightarrow> memory) \<Rightarrow> (u32 \<Rightarrow> 's \<Rightarrow> fault + 's) \<Rightarrow> fmt_state \<Rightarrow> u8 \<Rightarrow> u32 list \<Rightarrow> 's \<Rightarrow>
     (fault + u32 list \<times> 's) option option" where
  "convert rd putch f conv ap s =
     (let number = (\<lambda>num base ap s. bindr (printnum putch num base (width f) (ucast (padc f)) s) (\<lambda>s. Inr (ap, s))) in
      if conv = 0x63 then
        Some (Some (bindr (arg32 ap) (\<lambda>(c, ap). bindr (putch c s) (\<lambda>s. Inr (ap, s)))))
      else if conv = 0x65 then
        Some (Some (bindr (arg32 ap) (\<lambda>(err, ap). bindr (convert_e putch err s) (\<lambda>s. Inr (ap, s)))))
      else if conv = 0x73 then
        Some (bindo (Some (arg32 ap)) (\<lambda>(p, ap). bindo (convert_s rd putch f p s) (\<lambda>s. Some (Inr (ap, s)))))
      else if conv = 0x64 then
        Some (Some (bindr (getint ap (lflag f)) (\<lambda>(num, ap).
          if num <s 0 then bindr (putch 0x2D s) (number (- num) 10 ap) else number num 10 ap s)))
      else if conv = 0x75 then
        Some (Some (bindr (getuint ap (lflag f)) (\<lambda>(num, ap). number num 10 ap s)))
      else if conv = 0x6F then
        Some (Some (bindr (put_chars putch ''XXX'' s) (\<lambda>s. Inr (ap, s))))
      else if conv = 0x70 then
        Some (Some (bindr (put_chars putch ''0x'' s) (\<lambda>s.
          bindr (arg32 ap) (\<lambda>(p, ap). number (ucast p) 16 ap s))))
      else if conv = 0x78 then
        Some (Some (bindr (getuint ap (lflag f)) (\<lambda>(num, ap). number num 16 ap s)))
      else if conv = 0x25 then Some (Some (bindr (putch 0x25 s) (\<lambda>s. Inr (ap, s))))
      else None)"

section \<open>The interpreter of formats\<close>

lemma bindo_cong [fundef_cong]:
  "r = r' \<Longrightarrow> (\<And>x. r' = Some (Inr x) \<Longrightarrow> f x = g x) \<Longrightarrow> bindo r f = bindo r' g"
  by (cases r'; simp; metis bindo_simps(2,3) obj_sumE)

text \<open>After a character that is no conversion the code goes back to the character behind the
  \<open>%\<close> and prints the rest as it is; arguments that \<open>*\<close> has taken stay taken.\<close>

function vprintfmt ::
  "('s \<Rightarrow> memory) \<Rightarrow> (u32 \<Rightarrow> 's \<Rightarrow> fault + 's) \<Rightarrow> u8 list \<Rightarrow> u32 list \<Rightarrow> 's \<Rightarrow> (fault + 's) option" where
  "vprintfmt rd putch [] ap s = Some (Inr s)"
| "vprintfmt rd putch (ch # fmt) ap s =
     (if ch \<noteq> 0x25 then
        if ch = 0 then Some (Inr s) else bindo (Some (putch (ucast ch) s)) (vprintfmt rd putch fmt ap)
      else
        bindo (Some (escape fmt_start fmt ap)) (\<lambda>(f, conv, rest, ap).
          case convert rd putch f conv ap s of
            None \<Rightarrow> bindo (Some (putch 0x25 s)) (vprintfmt rd putch fmt ap)
          | Some r \<Rightarrow> bindo r (\<lambda>(ap, s). vprintfmt rd putch rest ap s)))"
  by pat_completeness auto

termination
  by (relation "measure (\<lambda>(rd, putch, fmt, ap, s). length fmt)")
    (auto simp: le_imp_less_Suc dest!: escape_length)

end
