(* ===== verification/Print_Numbers.thy ===== *)
theory Print_Numbers
  imports Printfmt
begin

text \<open>
  What \<open>printnum\<close> prints, and that \<open>strtol\<close> reads it back.
\<close>

section \<open>What a number prints as\<close>

text \<open>The digits of a number, most significant first.\<close>

fun digits :: "nat \<Rightarrow> nat \<Rightarrow> nat list" where
  "digits base n = (if n \<ge> base \<and> 2 \<le> base then digits base (n div base) else []) @ [n mod base]"

declare digits.simps [simp del]

lemma digits_value: "2 \<le> base \<Longrightarrow> foldl (\<lambda>v d. v * base + d) 0 (digits base n) = n"
proof (induction base n rule: digits.induct)
  case (1 base n)
  then show ?case by (subst digits.simps) auto
qed

lemma digits_less: "2 \<le> base \<Longrightarrow> d \<in> set (digits base n) \<Longrightarrow> d < base"
proof (induction base n arbitrary: d rule: digits.induct)
  case (1 base n)
  from 1(3) show ?case using 1(1,2) by (subst (asm) digits.simps) (auto split: if_splits)
qed

lemma digits_nonempty: "digits base n \<noteq> []"
  by (subst digits.simps) simp

lemma digits_lead: "2 \<le> base \<Longrightarrow> n \<noteq> 0 \<Longrightarrow> hd (digits base n) \<noteq> 0"
proof (induction base n rule: digits.induct)
  case (1 base n)
  show ?case
  proof (cases "n \<ge> base")
    case True
    then have "n div base \<noteq> 0" using 1 by (simp add: div_eq_0_iff)
    then show ?thesis using 1 True digits_nonempty [of base "n div base"]
      by (subst digits.simps) (simp add: hd_append)
  qed (use 1 in \<open>subst digits.simps; simp\<close>)
qed

lemma printnum_digits:
  assumes "2 \<le> base"
  shows "printnum putch num base w pc s = for_each putch
    (replicate (nat (w - int (length (digits (unat base) (unat num))))) pc @
     map digit_char (digits (unat base) (unat num))) s"
  using assms
proof (induction putch num base w pc s rule: printnum.induct)
  case (1 putch num base w pc s)
  have b: "2 \<le> unat base" using 1(2) by (simp add: word_le_nat_alt)
  show ?case
  proof (cases "num \<ge> base")
    case True
    then have n: "unat num \<ge> unat base" by (simp add: word_le_nat_alt)
    have d: "digits (unat base) (unat num) = digits (unat base) (unat (num div base)) @ [unat (num mod base)]"
      using n b by (subst digits.simps) (simp add: unat_div unat_mod)
    have w: "w - 1 - int k = w - int (k + 1)" for k by simp
    show ?thesis
      using 1 True by (subst printnum.simps) (simp add: d w for_each_append bindr_def split: sum.split)
  next
    case False
    then have n: "\<not> unat num \<ge> unat base" by (simp add: word_le_nat_alt)
    have d: "digits (unat base) (unat num) = [unat (num mod base)]"
      using n by (subst digits.simps) (simp add: unat_mod)
    show ?thesis
      using False by (subst printnum.simps) (simp add: d put_times_def for_each_append bindr_def split: sum.split)
  qed
qed

section \<open>Reading it back\<close>

definition digit_byte :: "nat \<Rightarrow> u8" where
  "digit_byte d = ucast (digit_char d)"

lemma digit_bytes: "list_all (\<lambda>d. digit_of (digit_byte d) = Some (of_nat d) \<and> digit_byte d \<noteq> 0 \<and>
    digit_byte d \<noteq> 0x20 \<and> digit_byte d \<noteq> 0x09 \<and> digit_byte d \<noteq> 0x2B \<and> digit_byte d \<noteq> 0x2D) [0..<16]"
  by code_simp

lemma digit_byte: "d < 16 \<Longrightarrow> digit_of (digit_byte d) = Some (of_nat d) \<and> digit_byte d \<noteq> 0 \<and>
    digit_byte d \<noteq> 0x20 \<and> digit_byte d \<noteq> 0x09 \<and> digit_byte d \<noteq> 0x2B \<and> digit_byte d \<noteq> 0x2D"
  using digit_bytes by (simp add: list_all_length)

lemma strtol_digits_step: "digit_of (m s) = Some d \<Longrightarrow> \<not> base \<le>s d \<Longrightarrow>
    strtol_digits m s base val = strtol_digits m (s + 1) base (val * base + d)"
  by (subst strtol_digits.simps) simp

lemma small_sless: "d < base \<Longrightarrow> base \<le> 16 \<Longrightarrow> \<not> (of_nat base :: u32) \<le>s of_nat d"
proof -
  assume "d < base" "base \<le> 16"
  then have "unat (of_nat base :: u32) = base" "unat (of_nat d :: u32) = d"
    by (auto intro: unat_of_nat_u32)
  with \<open>d < base\<close> \<open>base \<le> 16\<close> show ?thesis by (simp add: word_sle_eq sint_u32)
qed

lemma strtol_digits_run:
  assumes "\<forall>d \<in> set ds. d < base" "base \<le> 16" "str_at m s (map digit_byte ds)"
  shows "strtol_digits m s (of_nat base) val =
    Some (foldl (\<lambda>v d. v * of_nat base + of_nat d) val ds, s + of_nat (length ds))"
  using assms
proof (induction ds arbitrary: s val)
  case Nil
  have "digit_of 0 = None" by (simp add: digit_of_def)
  with Nil show ?case by (subst strtol_digits.simps) simp
next
  case (Cons d ds)
  have d: "d < base" "d < 16" using Cons.prems by auto
  have "m s = digit_byte d" "str_at m (s + 1) (map digit_byte ds)" using Cons.prems(3) by auto
  then have "strtol_digits m s (of_nat base) val =
      strtol_digits m (s + 1) (of_nat base) (val * of_nat base + of_nat d)"
    using digit_byte [OF d(2)] small_sless [OF d(1) Cons.prems(2)] by (intro strtol_digits_step) simp_all
  moreover have "s + of_nat (length (d # ds)) = s + 1 + of_nat (length ds)"
    unfolding length_Cons by (rule next_char)
  ultimately show ?case
    using Cons.IH [of "s + 1"] Cons.prems \<open>str_at m (s + 1) _\<close> by simp
qed

lemma foldl_words: "foldl (\<lambda>v d. v * of_nat base + of_nat d) (of_nat n :: u32) ds =
    of_nat (foldl (\<lambda>v d. v * base + d) n ds)"
proof (induction ds arbitrary: n)
  case (Cons d ds)
  have "of_nat n * of_nat base + of_nat d = (of_nat (n * base + d) :: u32)" by simp
  then show ?case unfolding foldl_Cons by (simp only: Cons)
qed simp

lemma strtol_number:
  assumes b: "base = 10 \<or> base = 16" and s: "str_at m s (map digit_byte (digits base n))"
  shows "strtol m s (of_nat base) = Some (of_nat n, s + of_nat (length (digits base n)))"
proof -
  have b2: "2 \<le> base" "base \<le> 16" "(of_nat base :: u32) \<noteq> 0" using b by auto
  obtain d ds where ds: "digits base n = d # ds" using digits_nonempty [of base n] by (cases "digits base n") auto
  have "d < 16" using digits_less [OF b2(1), of d n] b2(2) by (simp add: ds)
  note d = digit_byte [OF this]
  have m: "m s = digit_byte d" using s by (simp add: ds)
  have sk: "skip_blanks m s = Some s" using d m by (subst skip_blanks.simps) simp
  have "m (s + 1) \<noteq> 0x78"
  proof (cases ds)
    case Nil
    then show ?thesis using s by (simp add: ds)
  next
    case (Cons e es)
    have "e < 16" using digits_less [OF b2(1), of e n] b2(2) by (simp add: ds Cons)
    have "digit_of 0x78 = Some 33" by (simp add: digit_of_def)
    moreover have "digit_of (digit_byte e) = Some (of_nat e)" using digit_byte [OF \<open>e < 16\<close>] by simp
    moreover have "(of_nat e :: u32) \<noteq> 33"
    proof -
      have "unat (of_nat e :: u32) = e" using \<open>e < 16\<close> by (intro unat_of_nat_u32) simp
      then show ?thesis using \<open>e < 16\<close> by auto
    qed
    ultimately have "digit_byte e \<noteq> 0x78" by auto
    then show ?thesis using s by (simp add: ds Cons)
  qed
  then have "strtol m s (of_nat base) = strtol_digits m s (of_nat base) 0"
    using d m b2(3) by (simp add: strtol_def sk Let_def) (simp add: option.map_id)
  moreover have "\<forall>d \<in> set (digits base n). d < base" using digits_less [OF b2(1)] by blast
  from strtol_digits_run [OF this b2(2) s, of 0] foldl_words [of base 0 "digits base n"]
  have "strtol_digits m s (of_nat base) 0 = Some (of_nat n, s + of_nat (length (digits base n)))"
    using digits_value [OF b2(1), of n] by simp
  ultimately show ?thesis by simp
qed

text \<open>Collecting what is printed.\<close>

definition collect :: "u32 \<Rightarrow> u32 list \<Rightarrow> fault + u32 list" where
  "collect c xs = Inr (xs @ [c])"

lemma for_each_collect: "for_each collect cs xs = Inr (xs @ cs)"
  by (induction cs arbitrary: xs) (simp_all add: collect_def)

lemma ucast_64: "unat (ucast (x :: u32) :: u64) = unat x"
  using unat_u32_lt [of x] by (simp add: unsigned_ucast_eq take_bit_nat_eq_self)

text \<open>\<open>printnum\<close> prints a number in base 10 or 16 as its digits, most significant first and
  without leading zeros, with padding characters in front up to the width.\<close>

theorem printnum_prints:
  assumes "base = 10 \<or> base = 16"
  shows "\<exists>ds. printnum collect num base w pc [] =
      Inr (replicate (nat (w - int (length ds))) pc @ map digit_char ds) \<and>
    ds \<noteq> [] \<and> foldl (\<lambda>v d. v * unat base + d) 0 ds = unat num \<and> (unat num \<noteq> 0 \<longrightarrow> hd ds \<noteq> 0) \<and>
    (\<forall>d \<in> set ds. d < unat base)"
proof -
  have b: "2 \<le> base" "2 \<le> unat base" using assms by auto
  show ?thesis
    unfolding printnum_digits [OF b(1)] for_each_collect
    using digits_value [OF b(2)] digits_nonempty digits_lead [OF b(2)] digits_less [OF b(2)]
    by (intro exI [of _ "digits (unat base) (unat num)"]) simp
qed

lemma digits_42: "digits 10 42 = [4, 2]" "digits 16 255 = [15, 15]"
  by (simp_all add: digits.simps)

lemma printnum_prints_witness:
  "\<exists>ds. printnum collect 42 10 5 0x20 [] = Inr (replicate (nat (5 - int (length ds))) 0x20 @ map digit_char ds) \<and>
    foldl (\<lambda>v d. v * 10 + d) 0 ds = 42"
  using printnum_prints [of 10 42 5 "0x20"] by auto

text \<open>C35: \<open>strtol\<close> reads back what \<open>printnum\<close> prints: if the characters \<open>printnum\<close> gives for a
  32-bit number in base 10 or 16 stand in memory as a string, \<open>strtol\<close> in the same base
  returns the number and stops at the end of the string.\<close>

theorem strtol_reads_printnum:
  assumes b: "base = 10 \<or> base = 16" and p: "printnum collect (ucast n) (of_nat base) (- 1) pc [] = Inr cs"
    and s: "str_at m s (map ucast cs)"
  shows "strtol m s (of_nat base) = Some (n, s + of_nat (length cs))"
proof -
  have ub: "unat (of_nat base :: u64) = base" "2 \<le> (of_nat base :: u64)" using b by auto
  have cs: "cs = map digit_char (digits base (unat n))"
    using p unfolding printnum_digits [OF ub(2)] for_each_collect ub(1) ucast_64 by simp
  have "str_at m s (map digit_byte (digits base (unat n)))"
    using s unfolding cs map_map by (simp add: digit_byte_def [abs_def] comp_def)
  from strtol_number [OF b this] show ?thesis by (simp add: cs)
qed

definition text_42 :: memory where
  "text_42 = (\<lambda>_. 0)(0x100 := 0x34, 0x101 := 0x32)"

lemma strtol_reads_printnum_witness: "strtol text_42 0x100 10 = Some (42, 0x102)"
proof -
  have "printnum collect (ucast (42 :: u32)) (of_nat 10) (- 1) 0x20 [] = Inr [0x34, 0x32]"
    by (subst printnum_digits) (simp_all add: collect_def digits_42 digit_char_def)
  moreover have "str_at text_42 0x100 (map ucast [0x34 :: u32, 0x32])" by (simp add: text_42_def)
  ultimately show ?thesis using strtol_reads_printnum [of 10 42 "0x20" "[0x34, 0x32]" text_42 "0x100"] by simp
qed

end
