(* ===== verification/Print_Spec.thy ===== *)
theory Print_Spec
  imports Print_Numbers
begin

text \<open>
  What \<open>vprintfmt\<close> does with a \<open>putch\<close>: over memory that \<open>putch\<close> does not change it hands it,
  one by one and in order, the characters of the formatted text, which is what it gives when
  \<open>putch\<close> collects them in a list. So the text does not depend on where it goes. Then
  \<open>vsnprintf\<close>, which writes it into a buffer of limited size.
\<close>

section \<open>Printing is collecting\<close>

lemma printnum_10: "printnum putch num 10 w pc s = for_each putch
    (replicate (nat (w - int (length (digits 10 (unat num))))) pc @ map digit_char (digits 10 (unat num))) s"
  and printnum_16: "printnum putch num 16 w pc s = for_each putch
    (replicate (nat (w - int (length (digits 16 (unat num))))) pc @ map digit_char (digits 16 (unat num))) s"
  by (subst printnum_digits; simp)+

lemma for_each_bind: "bindr (for_each f as s) (for_each f bs) = for_each f (as @ bs) s"
  by (simp add: for_each_append)

lemma for_each_one: "putch c s = for_each putch [c] s"
  by (cases "putch c s") simp_all

lemma bindr_assoc: "bindr (bindr r f) g = bindr r (\<lambda>x. bindr (f x) g)"
  by (cases r) simp_all

lemma convert_e_collect:
  assumes "convert_e collect err xs = Inr ys"
  shows "\<exists>zs. ys = xs @ zs \<and> (\<forall>s. convert_e putch err s = for_each putch zs s)"
proof -
  have b: "bindr (for_each putch as s) (\<lambda>s. for_each putch bs s) = for_each putch (as @ bs) s" for as bs s
    by (rule for_each_bind)
  show ?thesis
    using assms unfolding convert_e_def Let_def put_chars_def printnum_10 for_each_collect b
    by (auto split: if_splits option.splits)
qed

text \<open>What a run of \<open>put_string\<close> that collects says about the same run with any \<open>putch\<close>.\<close>

definition string_run ::
  "memory \<Rightarrow> (u32 \<Rightarrow> 's \<Rightarrow> fault + 's) \<Rightarrow> bool \<Rightarrow> int \<Rightarrow> int \<Rightarrow> u32 \<Rightarrow> u32 list \<Rightarrow> fault + int \<times> u32 list \<Rightarrow> bool" where
  "string_run m putch alt prec w p xs res \<longleftrightarrow> (\<forall>w' ys. res = Inr (w', ys) \<longrightarrow> (\<exists>zs. ys = xs @ zs \<and>
    (\<forall>s. put_string (\<lambda>_. m) putch alt prec w p s = Some (bindr (for_each putch zs s) (\<lambda>s. Inr (w', s))))))"

lemma put_string_collect:
  assumes "put_string (\<lambda>_. m) collect alt prec w p xs = Some res"
  shows "string_run m putch alt prec w p xs res"
proof -
  define Q where "Q rd pc alt prec w p xs res \<longleftrightarrow>
    (rd = (\<lambda>_ :: u32 list. m) \<longrightarrow> pc = collect \<longrightarrow> string_run m putch alt prec w p xs res)" for rd pc alt prec w p xs res
  have "Q (\<lambda>_. m) collect alt prec w p xs res"
  proof (rule put_string.raw_induct [OF _ assms, of Q])
    fix loop rd pc alt prec w p res and xs :: "u32 list"
    assume IH: "\<And>rd pc alt prec w p xs y. loop rd pc alt prec w p xs = Some y \<Longrightarrow> Q rd pc alt prec w p xs y"
      and body: "(let ch = scast (rd xs p) :: u32 in
        if ch \<noteq> 0 \<and> (prec < 0 \<or> prec - 1 \<ge> 0) then
          bindo (Some (if alt \<and> (ch <s 0x20 \<or> 0x7E <s ch) then pc 0x3F xs else pc ch xs))
            (loop rd pc alt (if prec < 0 then prec else prec - 1) (w - 1) (p + 1))
        else Some (Inr (w, xs))) = Some res"
    show "Q rd pc alt prec w p xs res"
      unfolding Q_def
    proof (intro impI)
      assume rd: "rd = (\<lambda>_. m)" and pc: "pc = collect"
      define ch where "ch = (scast (m p) :: u32)"
      define c where "c = (if alt \<and> (ch <s 0x20 \<or> 0x7E <s ch) then 0x3F else ch)"
      define prec' where "prec' = (if prec < 0 then prec else prec - 1)"
      show "string_run m putch alt prec w p xs res"
      proof (cases "ch \<noteq> 0 \<and> (prec < 0 \<or> prec - 1 \<ge> 0)")
        case True
        have "(if alt \<and> (ch <s 0x20 \<or> 0x7E <s ch) then f 0x3F x else f ch x) = f c x" for f :: "u32 \<Rightarrow> 'b \<Rightarrow> 'c" and x
          by (auto simp: c_def)
        note one = this
        have "loop (\<lambda>_. m) collect alt prec' (w - 1) (p + 1) (xs @ [c]) = Some res"
          using body True unfolding rd pc Let_def ch_def [symmetric] one prec'_def [symmetric]
          by (simp add: collect_def)
        from IH [OF this] rd have run: "string_run m putch alt prec' (w - 1) (p + 1) (xs @ [c]) res"
          by (simp add: Q_def)
        have step: "put_string (\<lambda>_. m) putch alt prec w p s =
            bindo (Some (putch c s)) (put_string (\<lambda>_. m) putch alt prec' (w - 1) (p + 1))" for s
          using True by (subst put_string.simps) (simp add: Let_def ch_def [symmetric] one prec'_def)
        show ?thesis
          unfolding string_run_def
        proof (intro allI impI)
          fix w' ys assume "res = Inr (w', ys)"
          with run obtain zs where zs: "ys = (xs @ [c]) @ zs"
            "\<And>s. put_string (\<lambda>_. m) putch alt prec' (w - 1) (p + 1) s = Some (bindr (for_each putch zs s) (\<lambda>s. Inr (w', s)))"
            unfolding string_run_def by blast
          have "put_string (\<lambda>_. m) putch alt prec w p s = Some (bindr (for_each putch (c # zs) s) (\<lambda>s. Inr (w', s)))" for s
            unfolding step by (cases "putch c s") (simp_all add: zs(2))
          with zs(1) show "\<exists>zs. ys = xs @ zs \<and> (\<forall>s. put_string (\<lambda>_. m) putch alt prec w p s =
              Some (bindr (for_each putch zs s) (\<lambda>s. Inr (w', s))))"
            by (intro exI [of _ "c # zs"]) simp
        qed
      next
        case False
        then have "res = Inr (w, xs)" using body unfolding rd Let_def ch_def [symmetric] if_not_P [OF False] by simp
        moreover have "put_string (\<lambda>_. m) putch alt prec w p s = Some (Inr (w, s))" for s
          by (subst put_string.simps) (simp only: Let_def ch_def [symmetric] if_not_P [OF False])
        ultimately show ?thesis by (auto simp: string_run_def)
      qed
    qed
  qed
  then show ?thesis by (simp add: Q_def)
qed

lemma convert_s_collect:
  assumes "convert_s (\<lambda>_. m) collect f p xs = Some (Inr ys)"
  shows "\<exists>zs. ys = xs @ zs \<and> (\<forall>s. convert_s (\<lambda>_. m) putch f p s = Some (for_each putch zs s))"
proof -
  define M where "M = (if p = 0 then null_text else m)"
  have M: "(if p = 0 then \<lambda>_. null_text else (\<lambda>_. m)) = (\<lambda>_. M)" by (simp add: M_def)
  define pad where "pad \<longleftrightarrow> width f > 0 \<and> padc f \<noteq> 0x2D"
  define w where "w = (if pad then width f - sint (strnlen M p (word_of_int (precision f))) else width f)"
  define as where "as = (if pad then replicate (nat w) (ucast (padc f)) else [] :: u32 list)"
  have pre: "(if pad then put_times pc (ucast (padc f)) w s else Inr s) = for_each pc as s" for pc s
    by (simp add: as_def put_times_def)
  have eq: "convert_s (\<lambda>_. m) pc f p s = bindo (Some (for_each pc as s)) (\<lambda>s.
      bindo (put_string (\<lambda>_. M) pc (altflag f) (precision f) (if pad then min w 0 else w) p s) (\<lambda>(w, s).
      Some (for_each pc (replicate (nat w) 0x20) s)))" for pc and s :: 'x
    unfolding convert_s_def Let_def M pad_def [symmetric] w_def [symmetric] pre [symmetric]
    by (simp add: put_times_def)
  from assms obtain w' us where u: "put_string (\<lambda>_. M) collect (altflag f) (precision f) (if pad then min w 0 else w) p (xs @ as) = Some (Inr (w', us))"
    "ys = us @ replicate (nat w') 0x20"
    unfolding eq for_each_collect by (auto simp: bindo_eq_Inr)
  from put_string_collect [OF u(1), of putch] obtain zs where zs: "us = (xs @ as) @ zs"
    "\<And>s. put_string (\<lambda>_. M) putch (altflag f) (precision f) (if pad then min w 0 else w) p s =
      Some (bindr (for_each putch zs s) (\<lambda>s. Inr (w', s)))"
    unfolding string_run_def by blast
  have "convert_s (\<lambda>_. m) putch f p s = Some (for_each putch (as @ zs @ replicate (nat w') 0x20) s)" for s
    unfolding eq zs(2) for_each_append
    by (cases "for_each putch as s") (simp_all add: bindr_def bindo_def split: sum.split)
  with u(2) zs(1) show ?thesis by (intro exI [of _ "as @ zs @ replicate (nat w') 0x20"]) simp
qed

text \<open>One conversion.\<close>

lemma convert_collect:
  assumes "convert (\<lambda>_. m) collect f conv ap xs = Some (Some (Inr (ap', ys)))"
  shows "\<exists>zs. ys = xs @ zs \<and> (\<forall>s. convert (\<lambda>_. m) putch f conv ap s =
    Some (Some (bindr (for_each putch zs s) (\<lambda>s. Inr (ap', s)))))"
proof -
  consider "conv = 0x65" | "conv = 0x73" | "conv = 0x64" | "conv \<notin> {0x65, 0x73, 0x64}" by blast
  then show ?thesis
  proof cases
    case 1
    with assms obtain err where err: "arg32 ap = Inr (err, ap')" "convert_e collect err xs = Inr ys"
      by (auto simp: convert_def bindr_eq_Inr)
    with convert_e_collect [OF err(2), of putch] 1 show ?thesis by (auto simp: convert_def)
  next
    case 2
    with assms obtain p where p: "arg32 ap = Inr (p, ap')" "convert_s (\<lambda>_. m) collect f p xs = Some (Inr ys)"
      by (auto simp: convert_def bindo_eq_Inr)
    from convert_s_collect [OF p(2), of putch] obtain zs where zs: "ys = xs @ zs"
      "\<And>s. convert_s (\<lambda>_. m) putch f p s = Some (for_each putch zs s)" by blast
    have "bindo (Some (for_each putch zs s)) (\<lambda>s. Some (Inr (ap', s))) = Some (bindr (for_each putch zs s) (\<lambda>s. Inr (ap', s)))" for s
      by (cases "for_each putch zs s") simp_all
    with 2 p(1) zs show ?thesis by (auto simp: convert_def)
  next
    case 3
    define L where "L num = (if num <s 0 then [0x2D] else []) @
      replicate (nat (width f - int (length (digits 10 (unat (if num <s 0 then - num else num)))))) (ucast (padc f)) @
      map digit_char (digits 10 (unat (if num <s 0 then - num else num)))" for num :: u64
    have eq: "convert (\<lambda>_. m) pc f conv ap s = Some (Some (bindr (getint ap (lflag f)) (\<lambda>(num, ap).
        bindr (for_each pc (L num) s) (\<lambda>s. Inr (ap, s)))))" for pc and s :: 'x
      by (cases "getint ap (lflag f)")
        (auto simp: 3 convert_def Let_def printnum_10 L_def bindr_assoc for_each_append)
    from assms obtain num where "getint ap (lflag f) = Inr (num, ap')" "ys = xs @ L num"
      unfolding eq for_each_collect by (auto simp: bindr_eq_Inr)
    then show ?thesis unfolding eq by auto
  next
    case 4
    then show ?thesis using assms
      unfolding convert_def Let_def put_chars_def printnum_10 printnum_16 for_each_collect
      by (auto simp: bindr_eq_Inr collect_def for_each_append bindr_assoc split: if_splits)
  qed
qed

lemma convert_None: "convert rd putch f conv ap s = None \<longleftrightarrow> conv \<notin> {0x63, 0x65, 0x73, 0x64, 0x75, 0x6F, 0x70, 0x78, 0x25}"
  by (simp add: convert_def Let_def)

lemma collect_eq: "collect c xs = Inr (xs @ [c])"
  by (simp add: collect_def)

lemma vprintfmt_collect:
  assumes "vprintfmt (\<lambda>_. m) collect fmt ap xs = Some (Inr ys)"
  shows "\<exists>zs. ys = xs @ zs \<and> (\<forall>s. vprintfmt (\<lambda>_. m) putch fmt ap s = Some (for_each putch zs s))"
  using assms
proof (induction fmt arbitrary: ap xs ys rule: length_induct)
  case (1 fmt)
  have IH: "\<exists>zs. ys = xs @ zs \<and> (\<forall>s. vprintfmt (\<lambda>_. m) putch fmt' ap s = Some (for_each putch zs s))"
    if "length fmt' < length fmt" "vprintfmt (\<lambda>_. m) collect fmt' ap xs = Some (Inr ys)" for fmt' ap xs ys
    using 1(1) that by blast
  show ?case
  proof (cases fmt)
    case Nil
    with 1(2) show ?thesis by simp
  next
    case (Cons ch rest)
    then have short: "length rest < length fmt" by simp
    consider "ch = 0" | "ch \<noteq> 0" "ch \<noteq> 0x25" | "ch = 0x25" by blast
    then show ?thesis
    proof cases
      case 1
      with \<open>vprintfmt _ _ fmt ap xs = _\<close> Cons show ?thesis by simp
    next
      case 2
      with 1(2) Cons have "vprintfmt (\<lambda>_. m) collect rest ap (xs @ [ucast ch]) = Some (Inr ys)"
        by (simp add: collect_eq [of "ucast ch" xs])
      then obtain zs where zs: "ys = (xs @ [ucast ch]) @ zs"
        "\<And>s. vprintfmt (\<lambda>_. m) putch rest ap s = Some (for_each putch zs s)"
        using IH [OF short] by blast
      have "vprintfmt (\<lambda>_. m) putch fmt ap s = Some (for_each putch (ucast ch # zs) s)" for s
        using 2 Cons zs(2) by (cases "putch (ucast ch) s") simp_all
      with zs(1) show ?thesis by (intro exI [of _ "ucast ch # zs"]) simp
    next
      case 3
      with 1(2) Cons obtain f conv tail ap1 where e: "escape fmt_start rest ap = Inr (f, conv, tail, ap1)"
        by (auto simp: bindo_eq_Inr)
      have len: "length tail < length fmt" using escape_length [OF e] Cons by simp
      show ?thesis
      proof (cases "convert (\<lambda>_. m) collect f conv ap1 xs")
        case None
        then have n: "convert (\<lambda>_. m) putch f conv ap1 s = None" for s by (simp add: convert_None)
        from None 1(2) Cons 3 e have "vprintfmt (\<lambda>_. m) collect rest ap1 (xs @ [0x25]) = Some (Inr ys)"
          by (simp add: collect_eq [of "0x25" xs])
        then obtain zs where zs: "ys = (xs @ [0x25]) @ zs"
          "\<And>s. vprintfmt (\<lambda>_. m) putch rest ap1 s = Some (for_each putch zs s)"
          using IH [OF short] by blast
        have "vprintfmt (\<lambda>_. m) putch fmt ap s = Some (for_each putch (0x25 # zs) s)" for s
          using 3 Cons e n zs(2) by (cases "putch 0x25 s") simp_all
        with zs(1) show ?thesis by (intro exI [of _ "0x25 # zs"]) simp
      next
        case (Some r)
        with 1(2) Cons 3 e obtain ap2 us where r: "r = Some (Inr (ap2, us))"
          "vprintfmt (\<lambda>_. m) collect tail ap2 us = Some (Inr ys)" by (auto simp: bindo_eq_Inr)
        from convert_collect [of m f conv ap1 xs ap2 us putch] Some r(1)
        obtain vs where vs: "us = xs @ vs" "\<And>s. convert (\<lambda>_. m) putch f conv ap1 s =
            Some (Some (bindr (for_each putch vs s) (\<lambda>s. Inr (ap2, s))))" by blast
        obtain zs where zs: "ys = us @ zs" "\<And>s. vprintfmt (\<lambda>_. m) putch tail ap2 s = Some (for_each putch zs s)"
          using IH [OF len r(2)] by blast
        have "vprintfmt (\<lambda>_. m) putch fmt ap s = Some (for_each putch (vs @ zs) s)" for s
          using 3 Cons e zs(2) vs(2) by (cases "for_each putch vs s") (simp_all add: for_each_append)
        with zs(1) vs(1) show ?thesis by (intro exI [of _ "vs @ zs"]) simp
      qed
    qed
  qed
qed

end
