(* ===== verification/Print_Targets.thy ===== *)
theory Print_Targets
  imports Print_Spec Console
begin

text \<open>
  Where formatted text goes: into a buffer (\<open>vsnprintf\<close> of \<open>lib/printfmt.c\<close>), to the
  kernel console (\<open>kern/printf.c\<close>) and, collected in pieces, to the system call of a user
  program (\<open>lib/printf.c\<close>). Each is \<open>vprintfmt\<close> with a \<open>putch\<close> of its own; the locale
  \<open>putch_contract\<close> carries an invariant of \<open>putch\<close> over to the whole of \<open>vprintfmt\<close>.
\<close>

section \<open>Invariants of putch\<close>

locale putch_contract =
  fixes P :: "'s \<Rightarrow> bool" and putch :: "u32 \<Rightarrow> 's \<Rightarrow> fault + 's"
  assumes keeps: "P s \<Longrightarrow> putch c s = Inr t \<Longrightarrow> P t"
begin

lemma for_each_keeps: "P s \<Longrightarrow> for_each putch cs s = Inr t \<Longrightarrow> P t"
  by (induction cs arbitrary: s) (auto simp: bindr_eq_Inr dest: keeps)

lemma printnum_keeps: "P s \<Longrightarrow> printnum putch num 10 w pc s = Inr t \<Longrightarrow> P t"
  "P s \<Longrightarrow> printnum putch num 16 w pc s = Inr t \<Longrightarrow> P t"
  unfolding printnum_10 printnum_16 by (rule for_each_keeps; assumption)+

lemma put_chars_keeps: "P s \<Longrightarrow> put_chars putch cs s = Inr t \<Longrightarrow> P t"
  unfolding put_chars_def by (rule for_each_keeps)

lemma put_times_keeps: "P s \<Longrightarrow> put_times putch c n s = Inr t \<Longrightarrow> P t"
  unfolding put_times_def by (rule for_each_keeps)

lemma convert_e_keeps: "P s \<Longrightarrow> convert_e putch err s = Inr t \<Longrightarrow> P t"
  by (auto simp: convert_e_def Let_def bindr_eq_Inr split: if_splits option.splits
      dest: put_chars_keeps printnum_keeps)

lemma put_string_keeps:
  assumes "put_string rd putch alt prec w p s = Some (Inr (w', t))" "P s"
  shows "P t"
proof -
  define Q where "Q rd pc alt prec w p s res \<longleftrightarrow> (pc = putch \<longrightarrow> P s \<longrightarrow> (\<forall>w' t. res = Inr (w', t) \<longrightarrow> P t))"
    for rd :: "'s \<Rightarrow> memory" and pc and alt :: bool and prec w :: int and p :: u32 and s and res :: "fault + int \<times> 's"
  have "Q rd putch alt prec w p s (Inr (w', t))"
  proof (rule put_string.raw_induct [OF _ assms(1), of Q])
    fix loop rd pc alt prec w p s res
    assume IH: "\<And>rd pc alt prec w p s y. loop rd pc alt prec w p s = Some y \<Longrightarrow> Q rd pc alt prec w p s y"
      and body: "(let ch = scast (rd s p) :: u32 in
        if ch \<noteq> 0 \<and> (prec < 0 \<or> prec - 1 \<ge> 0) then
          bindo (Some (if alt \<and> (ch <s 0x20 \<or> 0x7E <s ch) then pc 0x3F s else pc ch s))
            (loop rd pc alt (if prec < 0 then prec else prec - 1) (w - 1) (p + 1))
        else Some (Inr (w, s))) = Some res"
    show "Q rd pc alt prec w p s res"
      unfolding Q_def
    proof (intro impI allI)
      fix w' t assume pc: "pc = putch" and s: "P s" and res: "res = Inr (w', t)"
      from body res consider "t = s"
        | c u prec' where "pc c s = Inr u" "loop rd pc alt prec' (w - 1) (p + 1) u = Some res"
        by (force simp: Let_def bindo_eq_Inr split: if_splits)
      then show "P t"
      proof cases
        case 1
        with s show ?thesis by simp
      next
        case (2 c u prec')
        have "P u" using keeps [OF s] 2(1) pc by simp
        with IH [OF 2(2)] pc res show ?thesis by (simp add: Q_def)
      qed
    qed
  qed
  with assms(2) show ?thesis by (simp add: Q_def)
qed

lemma convert_s_keeps: "P s \<Longrightarrow> convert_s rd putch f p s = Some (Inr t) \<Longrightarrow> P t"
  unfolding convert_s_def Let_def
  by (auto simp: bindo_eq_Inr split: if_splits dest: put_times_keeps put_string_keeps)

lemma convert_keeps: "P s \<Longrightarrow> convert rd putch f conv ap s = Some (Some (Inr (ap', t))) \<Longrightarrow> P t"
  unfolding convert_def Let_def
  by (auto simp: bindo_eq_Inr bindr_eq_Inr split: if_splits
      dest: keeps put_chars_keeps printnum_keeps convert_e_keeps convert_s_keeps)

lemma vprintfmt_keeps: "P s \<Longrightarrow> vprintfmt rd putch fmt ap s = Some (Inr t) \<Longrightarrow> P t"
proof (induction fmt arbitrary: ap s rule: length_induct)
  case (1 fmt)
  have IH: "P t" if "length fmt' < length fmt" "P u" "vprintfmt rd putch fmt' ap u = Some (Inr t)" for fmt' ap u
    using 1(1) that by blast
  show ?case
  proof (cases fmt)
    case (Cons ch rest)
    then have short: "length rest < length fmt" by simp
    show ?thesis
    proof (cases "ch = 0x25")
      case False
      with 1(2,3) Cons show ?thesis
        by (auto simp: bindo_eq_Inr split: if_splits intro: IH [OF short] keeps)
    next
      case True
      with 1(3) Cons obtain f conv tail ap1 where e: "escape fmt_start rest ap = Inr (f, conv, tail, ap1)"
        by (auto simp: bindo_eq_Inr)
      have len: "length tail < length fmt" using escape_length [OF e] Cons by simp
      from 1(2,3) Cons True e show ?thesis
        by (auto simp: bindo_eq_Inr split: option.splits intro: IH [OF short] IH [OF len] keeps convert_keeps)
    qed
  qed (use 1 in simp)
qed

end

section \<open>Into a buffer\<close>

record sprintbuf =
  sp_mem :: memory
  sp_buf :: u32
  sp_ebuf :: u32
  sp_cnt :: u32

definition sprintputch :: "u32 \<Rightarrow> sprintbuf \<Rightarrow> fault + sprintbuf" where
  "sprintputch ch b =
     (let b = b\<lparr>sp_cnt := sp_cnt b + 1\<rparr> in
      Inr (if sp_buf b < sp_ebuf b
           then b\<lparr>sp_mem := (sp_mem b)(sp_buf b := ucast ch), sp_buf := sp_buf b + 1\<rparr> else b))"

text \<open>The strings the format refers to are read from the memory the buffer is in.\<close>

definition vsnprintf :: "memory \<Rightarrow> u32 \<Rightarrow> u32 \<Rightarrow> u8 list \<Rightarrow> u32 list \<Rightarrow> (fault + u32 \<times> memory) option" where
  "vsnprintf m buf n fmt ap =
     (if buf = 0 \<or> n <s 1 then Some (Inr (- E_INVAL, m))
      else
        bindo (vprintfmt sp_mem sprintputch fmt ap \<lparr>sp_mem = m, sp_buf = buf, sp_ebuf = buf + n - 1, sp_cnt = 0\<rparr>)
          (\<lambda>b. Some (Inr (sp_cnt b, (sp_mem b)(sp_buf b := 0)))))"

definition snprintf :: "memory \<Rightarrow> u32 \<Rightarrow> u32 \<Rightarrow> u8 list \<Rightarrow> u32 list \<Rightarrow> (fault + u32 \<times> memory) option" where
  "snprintf m buf n fmt ap = vsnprintf m buf n fmt ap"

definition sprint_ok :: "memory \<Rightarrow> u32 \<Rightarrow> u32 \<Rightarrow> sprintbuf \<Rightarrow> bool" where
  "sprint_ok m buf n b \<longleftrightarrow> unat (sp_ebuf b) = unat buf + unat n - 1 \<and> unat buf \<le> unat (sp_buf b) \<and>
     unat (sp_buf b) \<le> unat (sp_ebuf b) \<and> (\<forall>a. unat a < unat buf \<or> unat buf + unat n \<le> unat a \<longrightarrow> sp_mem b a = m a)"

interpretation sprint: putch_contract "sprint_ok m buf n" sprintputch for m buf n
proof unfold_locales
  fix s t c assume ok: "sprint_ok m buf n s" and p: "sprintputch c s = Inr t"
  show "sprint_ok m buf n t"
  proof (cases "sp_buf s < sp_ebuf s")
    case True
    then have lt: "unat (sp_buf s) < unat (sp_ebuf s)" by (simp add: word_less_nat_alt)
    have "unat (sp_buf s + 1) = unat (sp_buf s) + 1"
      using lt unat_u32_lt [of "sp_ebuf s"] by (subst unat_add_no_wrap) simp_all
    with ok p True lt show ?thesis by (auto simp: sprintputch_def sprint_ok_def Let_def)
  next
    case False
    with ok p show ?thesis by (auto simp: sprintputch_def sprint_ok_def Let_def)
  qed
qed

text \<open>C30: \<open>vsnprintf\<close> writes nothing outside the \<open>n\<close> bytes of the buffer, whatever the format,
  the arguments and the strings they point to, and leaves a zero byte in the buffer.\<close>

theorem vsnprintf_bounded:
  assumes n: "0 < unat n" "unat n < 2 ^ 31" and buf: "buf \<noteq> 0" "unat buf + unat n \<le> 2 ^ 32"
    and r: "vsnprintf m buf n fmt ap = Some (Inr (rc, m'))"
  shows "(\<forall>a. unat a < unat buf \<or> unat buf + unat n \<le> unat a \<longrightarrow> m' a = m a) \<and>
    (\<exists>a. unat buf \<le> unat a \<and> unat a < unat buf + unat n \<and> m' a = 0)"
proof -
  have "sint n = int (unat n)" using n by (simp add: sint_u32)
  moreover have "sint (1 :: u32) = 1" by simp
  ultimately have "\<not> n <s 1" using n(1) unfolding word_sless_alt by linarith
  then obtain b where b: "vprintfmt sp_mem sprintputch fmt ap \<lparr>sp_mem = m, sp_buf = buf, sp_ebuf = buf + n - 1, sp_cnt = 0\<rparr>
      = Some (Inr b)" "m' = (sp_mem b)(sp_buf b := 0)"
    using r buf(1) by (auto simp: vsnprintf_def bindo_eq_Inr)
  have "unat (n - 1) = unat n - 1" using n(1) by (intro unat_minus_one) auto
  then have "unat (buf + (n - 1)) = unat buf + unat n - 1"
    using n(1) buf(2) by (subst unat_add_no_wrap) simp_all
  then have "sprint_ok m buf n \<lparr>sp_mem = m, sp_buf = buf, sp_ebuf = buf + n - 1, sp_cnt = 0\<rparr>"
    using n(1) by (simp add: sprint_ok_def add_diff_eq)
  from sprint.vprintfmt_keeps [OF this b(1)] have ok: "sprint_ok m buf n b" .
  then show ?thesis using n(1) b(2) by (auto simp: sprint_ok_def intro!: exI [of _ "sp_buf b"])
qed

text \<open>A machine for the witnesses: the format \<open>"%d!"\<close> with the argument 42.\<close>

lemma print_42: "vprintfmt rd sprintputch [0x25, 0x64, 0x21] [42] b =
    Some (for_each sprintputch [0x34, 0x32, 0x21] b)"
proof -
  have e: "escape fmt_start [0x64, 0x21] [42] = Inr (fmt_start, 0x64, [0x21], [42])" by simp
  have d: "digits 10 42 = [4, 2]" by (rule digits_42)
  have g: "getint [42] 0 = Inr (42, [])" by (simp add: getint_def arg32_def)
  have c: "convert rd sprintputch fmt_start 0x64 [42] b =
      Some (Some (bindr (for_each sprintputch [0x34, 0x32] b) (\<lambda>s. Inr ([], s))))"
    by (simp add: convert_def Let_def fmt_start_def g printnum_10 d digit_char_def word_sless_alt)
  show ?thesis by (simp add: e c bindo_def bindr_def split: sum.split)
qed

lemma vsnprintf_bounded_witness:
  "\<exists>m'. vsnprintf (\<lambda>_. 7) 0x1000 3 [0x25, 0x64, 0x21] [42] = Some (Inr (3, m')) \<and> m' 0x1003 = 7 \<and> m' 0xFFF = 7"
proof -
  let ?b = "\<lparr>sp_mem = (\<lambda>_. 7), sp_buf = 0x1000, sp_ebuf = 0x1002, sp_cnt = 0\<rparr>"
  let ?m = "(\<lambda>_. 7)(0x1000 := 0x34, 0x1001 := 0x32, 0x1002 := 0) :: memory"
  have "for_each sprintputch [0x34, 0x32, 0x21] ?b =
      Inr \<lparr>sp_mem = (\<lambda>_. 7)(0x1000 := 0x34, 0x1001 := 0x32), sp_buf = 0x1002, sp_ebuf = 0x1002, sp_cnt = 3\<rparr>"
    by (simp add: sprintputch_def)
  then have r: "vsnprintf (\<lambda>_. 7) 0x1000 3 [0x25, 0x64, 0x21] [42] = Some (Inr (3, ?m))"
    unfolding vsnprintf_def print_42 by (simp add: word_sless_alt)
  have "\<forall>a. unat a < 0x1000 \<or> 0x1003 \<le> unat a \<longrightarrow> ?m a = 7"
    using vsnprintf_bounded [OF _ _ _ _ r] by simp
  then have "?m 0x1003 = 7" "?m 0xFFF = 7" by auto
  with r show ?thesis by blast
qed

section \<open>To the kernel console\<close>

text \<open>\<open>putch\<close> of \<open>kern/printf.c\<close> prints and then does \<open>*cnt++\<close>, which moves its copy of the pointer
  and counts nothing, so \<open>vcprintf\<close> returns the 0 it began with.\<close>

definition kputch :: "u32 \<Rightarrow> 'z console_state_scheme \<Rightarrow> fault + 'z console_state_scheme" where
  "kputch ch s = cputchar ch s"

definition vcprintf ::
  "memory \<Rightarrow> u8 list \<Rightarrow> u32 list \<Rightarrow> 'z console_state_scheme \<Rightarrow> (fault + u32 \<times> 'z console_state_scheme) option" where
  "vcprintf m fmt ap s =
     (let cnt = 0 in bindo (vprintfmt (\<lambda>_. m) kputch fmt ap s) (\<lambda>s. Some (Inr (cnt, s))))"

interpretation kprint: putch_contract display_ok kputch
proof unfold_locales
  fix s t c assume "display_ok s" "kputch c s = Inr t"
  then show "display_ok t" using cons_putc_ok [of s c] by (auto simp: kputch_def cputchar_def simp del: cons_putc.simps)
qed

lemma kputch_all:
  assumes "display_ok s"
  shows "\<exists>t. for_each kputch cs s = Inr t \<and> display_ok t"
  using assms
proof (induction cs arbitrary: s)
  case (Cons c cs)
  obtain t where t: "kputch c s = Inr t" "display_ok t"
    using cons_putc_ok [OF Cons.prems, of c] by (auto simp: kputch_def cputchar_def simp del: cons_putc.simps)
  from Cons.IH [OF t(2)] t(1) show ?case by simp
qed simp

text \<open>The kernel's \<open>cprintf\<close> puts the formatted text on the console, character by character and
  in order, without a fault and with the display kept sound; and it returns 0, not the
  number of characters.\<close>

theorem vcprintf_prints:
  fixes s :: "'z console_state_scheme"
  assumes "display_ok s" and "vprintfmt (\<lambda>_. m) collect fmt ap [] = Some (Inr out)"
  shows "\<exists>t. vcprintf m fmt ap s = Some (Inr (0, t)) \<and> for_each cputchar out s = Inr t \<and> display_ok t"
proof -
  obtain zs where zs: "out = [] @ zs"
    "\<forall>s :: 'z console_state_scheme. vprintfmt (\<lambda>_. m) kputch fmt ap s = Some (for_each kputch zs s)"
    using vprintfmt_collect [OF assms(2), of "kputch :: u32 \<Rightarrow> 'z console_state_scheme \<Rightarrow> _"] by blast
  have "(kputch :: u32 \<Rightarrow> 'z console_state_scheme \<Rightarrow> _) = cputchar" by (simp add: fun_eq_iff kputch_def)
  with kputch_all [OF assms(1), of zs] zs show ?thesis by (auto simp: vcprintf_def)
qed

lemma collect_42: "vprintfmt (\<lambda>_. m) collect [0x25, 0x64, 0x21] [42] [] = Some (Inr [0x34, 0x32, 0x21])"
proof -
  have e: "escape fmt_start [0x64, 0x21] [42] = Inr (fmt_start, 0x64, [0x21], [42])" by simp
  have g: "getint [42] 0 = Inr (42, [])" by (simp add: getint_def arg32_def)
  have c: "convert (\<lambda>_. m) collect fmt_start 0x64 [42] [] = Some (Some (Inr ([], [0x34, 0x32])))"
    by (simp add: convert_def Let_def fmt_start_def g printnum_10 digits_42 digit_char_def word_sless_alt collect_def)
  show ?thesis by (simp add: e c collect_def)
qed

lemma vcprintf_prints_witness:
  "\<exists>t. vcprintf (\<lambda>_. 0) [0x25, 0x64, 0x21] [42] (blank_screen 0) = Some (Inr (0, t)) \<and> display_ok t"
  using vcprintf_prints [OF _ collect_42, of "blank_screen 0"] by (auto simp: display_ok_def blank_screen_def)

section \<open>To the system call of a user program\<close>

text \<open>\<open>out\<close> are the blocks that \<open>sys_cputs\<close> is called with, oldest first.\<close>

record printbuf =
  pb_idx :: nat
  pb_cnt :: u32
  pb_buf :: "u8 list"
  pb_out :: "u8 list list"

definition uputch :: "u32 \<Rightarrow> printbuf \<Rightarrow> fault + printbuf" where
  "uputch ch b =
     (if \<not> pb_idx b < length (pb_buf b) then Inl Wild_Access
      else
        let b = b\<lparr>pb_buf := (pb_buf b)[pb_idx b := ucast ch], pb_idx := pb_idx b + 1\<rparr>;
            b = (if pb_idx b = 256 - 1
                 then b\<lparr>pb_out := pb_out b @ [take (pb_idx b) (pb_buf b)], pb_idx := 0\<rparr> else b)
        in Inr (b\<lparr>pb_cnt := pb_cnt b + 1\<rparr>))"

text \<open>The buffer is on the stack and not initialised: \<open>junk\<close> is what it holds.\<close>

definition uvcprintf :: "memory \<Rightarrow> u8 list \<Rightarrow> u8 list \<Rightarrow> u32 list \<Rightarrow> (fault + u32 \<times> u8 list list) option" where
  "uvcprintf m junk fmt ap =
     bindo (vprintfmt (\<lambda>_. m) uputch fmt ap \<lparr>pb_idx = 0, pb_cnt = 0, pb_buf = junk, pb_out = []\<rparr>)
       (\<lambda>b. Some (Inr (pb_cnt b, pb_out b @ [take (pb_idx b) (pb_buf b)])))"

definition pending :: "printbuf \<Rightarrow> u8 list" where
  "pending b = concat (pb_out b) @ take (pb_idx b) (pb_buf b)"

lemma take_snoc: "i < length xs \<Longrightarrow> take (Suc i) (xs[i := x]) = take i xs @ [x]"
  by (simp add: take_Suc_conv_app_nth)

lemma uputch_step:
  assumes "length (pb_buf b) = 256" "pb_idx b < 255"
  shows "\<exists>c. uputch ch b = Inr c \<and> length (pb_buf c) = 256 \<and> pb_idx c < 255 \<and> pb_cnt c = pb_cnt b + 1 \<and>
    pending c = pending b @ [ucast ch] \<and> (\<forall>l \<in> set (pb_out c) - set (pb_out b). length l = 255)"
  using assms take_snoc [of 254 "pb_buf b" "ucast ch"] take_snoc [of "pb_idx b" "pb_buf b" "ucast ch"]
  by (auto simp: uputch_def Let_def pending_def)

lemma uputch_run:
  assumes "length (pb_buf b) = 256" "pb_idx b < 255" "\<forall>l \<in> set (pb_out b). length l = 255"
  shows "\<exists>c. for_each uputch cs b = Inr c \<and> length (pb_buf c) = 256 \<and> pb_idx c < 255 \<and>
    pb_cnt c = pb_cnt b + of_nat (length cs) \<and> pending c = pending b @ map ucast cs \<and>
    (\<forall>l \<in> set (pb_out c). length l = 255)"
  using assms
proof (induction cs arbitrary: b)
  case (Cons x cs)
  obtain c where c: "uputch x b = Inr c" "length (pb_buf c) = 256" "pb_idx c < 255" "pb_cnt c = pb_cnt b + 1"
    "pending c = pending b @ [ucast x]" "\<forall>l \<in> set (pb_out c) - set (pb_out b). length l = 255"
    using uputch_step [OF Cons.prems(1,2)] by blast
  have "\<forall>l \<in> set (pb_out c). length l = 255" using c(6) Cons.prems(3) by blast
  from Cons.IH [OF c(2,3) this] c show ?case by (auto simp: add.assoc)
qed simp

lemma uvcprintf_blocks:
  assumes "vprintfmt (\<lambda>_. m) collect fmt ap [] = Some (Inr out)" and "length junk = 256"
  shows "\<exists>blocks. uvcprintf m junk fmt ap = Some (Inr (of_nat (length out), blocks)) \<and>
    concat blocks = map ucast out \<and> (\<forall>l \<in> set blocks. length l \<le> 255)"
proof -
  let ?b = "\<lparr>pb_idx = 0, pb_cnt = 0, pb_buf = junk, pb_out = []\<rparr>"
  obtain c where c: "for_each uputch out ?b = Inr c" "length (pb_buf c) = 256" "pb_idx c < 255"
    "pb_cnt c = of_nat (length out)" "pending c = map ucast out" "\<forall>l \<in> set (pb_out c). length l = 255"
    using uputch_run [of ?b out] assms(2) by (auto simp: pending_def)
  have "vprintfmt (\<lambda>_. m) uputch fmt ap ?b = Some (Inr c)"
    using vprintfmt_collect [OF assms(1), of uputch] c(1) by auto
  with c show ?thesis
    by (intro exI [of _ "pb_out c @ [take (pb_idx c) (pb_buf c)]"]) (auto simp: uvcprintf_def pending_def)
qed

text \<open>C19: The \<open>cprintf\<close> of user programs loses nothing: the blocks it passes to \<open>sys_cputs\<close>, put one
  behind the other, are the formatted text, none is longer than 255 characters, and the
  returned number is the number of characters.\<close>

theorem uvcprintf_complete:
  assumes "vprintfmt (\<lambda>_. m) collect fmt ap [] = Some (Inr out)" and "length junk = 256"
  shows "\<exists>blocks. uvcprintf m junk fmt ap = Some (Inr (of_nat (length out), blocks)) \<and>
    concat blocks = map ucast out \<and> (\<forall>l \<in> set blocks. length l \<le> 255)"
  using assms by (rule uvcprintf_blocks)

lemma uvcprintf_complete_witness:
  "\<exists>blocks. uvcprintf (\<lambda>_. 0) (replicate 256 0) [0x25, 0x64, 0x21] [42] = Some (Inr (3, blocks)) \<and>
    concat blocks = [0x34, 0x32, 0x21]"
  using uvcprintf_complete [OF collect_42, of "replicate 256 0"] by auto

end
