(* ===== verification/Kdebug.thy ===== *)
theory Kdebug
  imports Prelude
begin

text \<open>
  The search in the symbol table of \<open>kern/kdebug.c\<close>. Reading an entry can fault, so the
  table is a function \<open>st\<close> to results. The search is written as the code has it, and shown to end
  and to find the entry that contains an address if no two entries of the type are at
  neighbouring addresses; without that it can return the wrong entry, and before the first
  entry it does not say that there is none.

  Indices are unbounded integers: \<open>l + r\<close> of the code cannot overflow for a table that fits into
  memory, and it is never negative where it is halved. Reading outside the table is an error of \<open>st\<close>.
\<close>

section \<open>Entries\<close>

record Stab =
  n_strx :: u32
  n_type :: u8
  n_other :: u8
  n_desc :: u16
  n_value :: u32

definition N_FUN :: u8 where [simp]: "N_FUN = 0x24"
definition N_SLINE :: u8 where [simp]: "N_SLINE = 0x44"
definition N_SO :: u8 where [simp]: "N_SO = 0x64"
definition N_SOL :: u8 where [simp]: "N_SOL = 0x84"
definition N_PSYM :: u8 where [simp]: "N_PSYM = 0xa0"

section \<open>The search\<close>

text \<open>The inner loop: the last entry of the type at or before \<open>m\<close>, or \<open>l - 1\<close>.\<close>

function scan_left :: "(int \<Rightarrow> 'e + Stab) \<Rightarrow> u8 \<Rightarrow> int \<Rightarrow> int \<Rightarrow> 'e + int" where
  "scan_left st t l m =
     (if m \<ge> l then bindr (st m) (\<lambda>s. if n_type s \<noteq> t then scan_left st t l (m - 1) else Inr m)
      else Inr m)"
  by pat_completeness auto
termination by (relation "measure (\<lambda>(st, t, l, m). nat (m + 1 - l))") auto

declare scan_left.simps [simp del]

text \<open>The main loop; the result is \<open>*region_left\<close>, \<open>*region_right\<close> and \<open>any_matches\<close>.\<close>

partial_function (option) binsearch_loop ::
  "(int \<Rightarrow> 'e + Stab) \<Rightarrow> u8 \<Rightarrow> int \<Rightarrow> int \<Rightarrow> u32 \<Rightarrow> int \<Rightarrow> int \<Rightarrow> bool \<Rightarrow> ('e + int \<times> int \<times> bool) option" where
  "binsearch_loop st t l r addr left right any =
     (if l \<le> r then
        let true_m = (l + r) div 2 in
        bindo (Some (scan_left st t l true_m)) (\<lambda>m.
          if m < l then binsearch_loop st t (true_m + 1) r addr left right any
          else bindo (Some (st m)) (\<lambda>s.
            if n_value s < addr then binsearch_loop st t (true_m + 1) r addr m right True
            else if n_value s > addr then binsearch_loop st t l (m - 1) addr left (m - 1) True
            else binsearch_loop st t m r (addr + 1) m right True))
      else Some (Inr (left, right, any)))"

text \<open>The last loop, down to the entry of the type or to \<open>left\<close>.\<close>

function scan_back :: "(int \<Rightarrow> 'e + Stab) \<Rightarrow> u8 \<Rightarrow> int \<Rightarrow> int \<Rightarrow> 'e + int" where
  "scan_back st t left l =
     (if l > left then bindr (st l) (\<lambda>s. if n_type s \<noteq> t then scan_back st t left (l - 1) else Inr l)
      else Inr l)"
  by pat_completeness auto
termination by (relation "measure (\<lambda>(st, t, left, l). nat (l - left))") auto

declare scan_back.simps [simp del]

definition stab_binsearch ::
  "(int \<Rightarrow> 'e + Stab) \<Rightarrow> int \<Rightarrow> int \<Rightarrow> u8 \<Rightarrow> u32 \<Rightarrow> ('e + int \<times> int) option" where
  "stab_binsearch st left right t addr =
     bindo (binsearch_loop st t left right addr left right False) (\<lambda>(left, right, any).
       if \<not> any then Some (Inr (left, left - 1))
       else Some (bindr (scan_back st t left right) (\<lambda>l. Inr (l, right))))"

section \<open>What the loops find\<close>

definition readable :: "(int \<Rightarrow> 'e + Stab) \<Rightarrow> (int \<Rightarrow> Stab) \<Rightarrow> int \<Rightarrow> int \<Rightarrow> bool" where
  "readable st e L R \<longleftrightarrow> (\<forall>i. L \<le> i \<and> i \<le> R \<longrightarrow> st i = Inr (e i))"

text \<open>The entries of the type in the range.\<close>

definition typed :: "(int \<Rightarrow> Stab) \<Rightarrow> u8 \<Rightarrow> int \<Rightarrow> int \<Rightarrow> int set" where
  "typed e t L R = {i. L \<le> i \<and> i \<le> R \<and> n_type (e i) = t}"

lemma scan_left_eq:
  assumes "readable st e L R" "L \<le> l" "m \<le> R" "l \<le> m + 1"
  shows "\<exists>k. scan_left st t l m = Inr k \<and> l - 1 \<le> k \<and> k \<le> m \<and> (k < l \<or> n_type (e k) = t) \<and>
    (\<forall>i. k < i \<and> i \<le> m \<longrightarrow> n_type (e i) \<noteq> t)"
  using assms
proof (induction "nat (m + 1 - l)" arbitrary: m)
  case 0
  then show ?case by (subst scan_left.simps) (auto intro!: exI [of _ m])
next
  case (Suc n)
  then have m: "l \<le> m" "st m = Inr (e m)" by (auto simp: readable_def)
  show ?case
  proof (cases "n_type (e m) = t")
    case True
    with m show ?thesis by (subst scan_left.simps) (auto intro!: exI [of _ m])
  next
    case False
    have "n = nat (m - 1 + 1 - l)" "m - 1 \<le> R" "l \<le> m - 1 + 1" using Suc m by auto
    from Suc.hyps(1) [OF this(1) Suc.prems(1,2) this(2,3)] obtain k where
      k: "scan_left st t l (m - 1) = Inr k" "l - 1 \<le> k" "k \<le> m - 1" "k < l \<or> n_type (e k) = t"
        "\<forall>i. k < i \<and> i \<le> m - 1 \<longrightarrow> n_type (e i) \<noteq> t" by blast
    have "n_type (e i) \<noteq> t" if "k < i" "i \<le> m" for i using k(5) False that by (cases "i = m") auto
    with k m False show ?thesis by (subst scan_left.simps) (auto intro!: exI [of _ k])
  qed
qed

lemma scan_back_eq:
  assumes "readable st e L R" "L \<le> left" "l \<le> R" "left \<le> l" "\<forall>i. left < i \<and> i \<le> l \<longrightarrow> n_type (e i) \<noteq> t"
  shows "scan_back st t left l = Inr left"
  using assms
proof (induction "nat (l - left)" arbitrary: l)
  case 0
  then show ?case by (subst scan_back.simps) auto
next
  case (Suc n)
  then have l: "left < l" "st l = Inr (e l)" "n_type (e l) \<noteq> t" by (auto simp: readable_def)
  moreover have "scan_back st t left (l - 1) = Inr left" using Suc l by (intro Suc.hyps(1)) auto
  ultimately show ?case by (subst scan_back.simps) simp
qed

text \<open>A table whose entries of the type lie in increasing order of address, none just behind one at
  the address searched for.\<close>

definition searchable :: "(int \<Rightarrow> Stab) \<Rightarrow> u8 \<Rightarrow> int \<Rightarrow> int \<Rightarrow> u32 \<Rightarrow> bool" where
  "searchable e t L R a \<longleftrightarrow> 0 \<le> L \<and> L \<le> R + 1 \<and> a + 1 \<noteq> 0 \<and>
     (\<forall>i \<in> typed e t L R. \<forall>j \<in> typed e t L R. i < j \<longrightarrow> n_value (e i) < n_value (e j)) \<and>
     (\<forall>i \<in> typed e t L R. \<forall>j \<in> typed e t L R. n_value (e i) = a \<longrightarrow> n_value (e j) \<noteq> a + 1)"

text \<open>The invariant of the main loop: all that is left of \<open>l\<close> lies at or before \<open>a\<close> and \<open>left\<close> is the
  last of it, all that is right of \<open>r\<close> lies behind \<open>a\<close>.\<close>

definition bs_left :: "(int \<Rightarrow> Stab) \<Rightarrow> u8 \<Rightarrow> int \<Rightarrow> int \<Rightarrow> u32 \<Rightarrow> int \<Rightarrow> int \<Rightarrow> int \<Rightarrow> u32 \<Rightarrow> bool" where
  "bs_left e t L R a l r left addr \<longleftrightarrow>
     left \<in> typed e t L R \<and> n_value (e left) \<le> a \<and> left \<le> l \<and> left \<le> r \<and>
       (\<forall>i \<in> typed e t L R. i < l \<longrightarrow> n_value (e i) \<le> a \<and> i \<le> left) \<and>
       (addr = a \<or> addr = a + 1 \<and> n_value (e left) = a) \<or>
     left = L \<and> (\<forall>i \<in> typed e t L R. l \<le> i) \<and> addr = a"

definition bs_right :: "(int \<Rightarrow> Stab) \<Rightarrow> u8 \<Rightarrow> int \<Rightarrow> int \<Rightarrow> u32 \<Rightarrow> int \<Rightarrow> bool" where
  "bs_right e t L R a r \<longleftrightarrow> r \<le> R \<and> (r = R \<or> r + 1 \<in> typed e t L R) \<and>
     (\<forall>i \<in> typed e t L R. r < i \<longrightarrow> a < n_value (e i))"

definition bs_any :: "(int \<Rightarrow> Stab) \<Rightarrow> u8 \<Rightarrow> int \<Rightarrow> int \<Rightarrow> int \<Rightarrow> int \<Rightarrow> int \<Rightarrow> bool \<Rightarrow> bool" where
  "bs_any e t L R l r left any \<longleftrightarrow>
     (if any then typed e t L R \<noteq> {} else left = L \<and> r = R \<and> (\<forall>i \<in> typed e t L R. l \<le> i))"

lemma word_less_next: "(a :: u32) + 1 \<noteq> 0 \<Longrightarrow> v < a + 1 \<longleftrightarrow> v \<le> a"
proof -
  assume "a + 1 \<noteq> 0"
  then have "unat (a + 1) \<noteq> 0" by (simp add: unat_eq_0)
  moreover have "unat (a + 1) = (unat a + 1) mod 4294967296" by (simp add: unat_word_ariths)
  ultimately have "unat (a + 1) = unat a + 1" using unat_u32_lt [of a] by (cases "unat a + 1 = 4294967296") simp_all
  then show ?thesis by (simp add: word_less_nat_alt word_le_nat_alt less_Suc_eq_le)
qed

lemma binsearch_loop_finds:
  assumes tab: "readable st e L R" "searchable e t L R a"
    and inv: "L \<le> l" "l \<le> r + 1" "bs_left e t L R a l r left addr" "bs_right e t L R a r" "bs_any e t L R l r left any"
  shows "\<exists>left' r' any' l' addr'. binsearch_loop st t l r addr left r any = Some (Inr (left', r', any')) \<and> r' < l' \<and>
    bs_left e t L R a l' r' left' addr' \<and> bs_right e t L R a r' \<and> bs_any e t L R l' r' left' any'"
  using inv
proof (induction "2 * nat (r + 1 - l) + (if addr = a then 1 else 0)" arbitrary: l r left addr any rule: less_induct)
  case less
  let ?T = "typed e t L R" and ?v = "\<lambda>i. n_value (e i)"
  note inv = less.prems
  show ?case
  proof (cases "l \<le> r")
    case False
    then show ?thesis using inv by (subst binsearch_loop.simps) (simp, blast intro: not_le_imp_less)
  next
    case True
    define c where "c = (l + r) div 2"
    have c: "l \<le> c" "c \<le> r" using True by (auto simp: c_def)
    have b: "0 \<le> L" "r \<le> R" using tab(2) inv(4) by (auto simp: searchable_def bs_right_def)
    obtain m where m: "scan_left st t l c = Inr m" "l - 1 \<le> m" "m \<le> c" "m < l \<or> n_type (e m) = t"
      "\<forall>i. m < i \<and> i \<le> c \<longrightarrow> n_type (e i) \<noteq> t"
      using scan_left_eq [OF tab(1), of l c t] inv(1) c b by auto
    have none: "i \<notin> ?T" if "m < i" "i \<le> c" for i using m(5) that by (auto simp: typed_def)
    show ?thesis
    proof (cases "m < l")
      case True
      have e: "binsearch_loop st t l r addr left r any = binsearch_loop st t (c + 1) r addr left r any"
        using \<open>l \<le> r\<close> m(1) True by (subst binsearch_loop.simps) (simp add: Let_def c_def)
      have gap: "i \<notin> ?T" if "l \<le> i" "i < c + 1" for i using none [of i] True that by simp
      have low: "i < l" if "i \<in> ?T" "i < c + 1" for i using gap [of i] that by linarith
      have "bs_left e t L R a (c + 1) r left addr"
        using inv(3) low c unfolding bs_left_def by (elim disjE) force+
      moreover have "bs_any e t L R (c + 1) r left any"
        using inv(5) low unfolding bs_any_def by (auto split: if_splits) force
      ultimately show ?thesis
        unfolding e using c inv by (intro less.hyps) auto
    next
      case False
      then have mT: "m \<in> ?T" "st m = Inr (e m)" "l \<le> m"
        using m(3,4) c b inv(1) tab(1) by (auto simp: typed_def readable_def)
      have sorted: "?v i < ?v j" if "i \<in> ?T" "j \<in> ?T" "i < j" for i j
        using tab(2) that unfolding searchable_def by blast
      have next': "a + 1 \<noteq> 0" "?v j \<noteq> a + 1" if "i \<in> ?T" "?v i = a" "j \<in> ?T" for i j
        using tab(2) that unfolding searchable_def by blast+
      have ad: "addr = a \<or> addr = a + 1 \<and> left \<in> ?T \<and> ?v left = a" using inv(3) unfolding bs_left_def by blast
      have cmp: "?v m < addr \<longleftrightarrow> ?v m \<le> a" if "?v m \<noteq> addr"
        using ad that next' [of left m] mT(1) word_less_next [of a "?v m"] by auto
      consider "?v m < addr" | "?v m > addr" | "?v m = addr" by fastforce
      then show ?thesis
      proof cases
        case 1
        then have va: "?v m \<le> a" using cmp by auto
        have e: "binsearch_loop st t l r addr left r any = binsearch_loop st t (c + 1) r addr m r True"
          using \<open>l \<le> r\<close> m(1) False mT(2) 1 by (subst binsearch_loop.simps) (simp add: Let_def c_def)
        have below: "?v i \<le> a \<and> i \<le> m" if "i \<in> ?T" "i < c + 1" for i
        proof -
          have "i \<le> m" using none [of i] that by force
          then have "?v i \<le> ?v m" using sorted [of i m] that(1) mT(1) by (cases "i = m") auto
          with va \<open>i \<le> m\<close> show ?thesis by auto
        qed
        have eq: "?v m = a" if "addr = a + 1"
        proof -
          have l: "left \<in> ?T" "?v left = a" using ad that tab(2) by (auto simp: searchable_def)
          have "left \<le> l" using inv(3) that tab(2) unfolding bs_left_def searchable_def by auto
          then have "left \<le> m" using mT(3) by simp
          then have "?v left \<le> ?v m" using sorted [of left m] l(1) mT(1) by (cases "left = m") auto
          with l(2) va show ?thesis by auto
        qed
        have "bs_left e t L R a (c + 1) r m addr"
          unfolding bs_left_def using mT va below c m(3) ad eq by auto
        moreover have "bs_any e t L R (c + 1) r m True" using mT(1) by (auto simp: bs_any_def)
        ultimately show ?thesis unfolding e using c inv by (intro less.hyps) auto
      next
        case 2
        then have nl: "?v m \<noteq> addr" "\<not> ?v m < addr" by auto
        then have va: "a < ?v m" using cmp by (simp add: not_le)
        have e: "binsearch_loop st t l r addr left r any = binsearch_loop st t l (m - 1) addr left (m - 1) True"
          using \<open>l \<le> r\<close> m(1) False mT(2) 2 nl(2) by (subst binsearch_loop.simps) (simp add: Let_def c_def)
        have "a < ?v i" if "i \<in> ?T" "m - 1 < i" for i
          using sorted [of m i] that mT(1) va by (cases "i = m") auto
        then have "bs_right e t L R a (m - 1)" using mT b m(3) c by (auto simp: bs_right_def)
        moreover have "bs_left e t L R a l (m - 1) left addr"
          using inv(3) va mT(3) unfolding bs_left_def by (cases "left = m") auto
        moreover have "bs_any e t L R l (m - 1) left True" using mT(1) by (auto simp: bs_any_def)
        ultimately show ?thesis unfolding e using mT(3) c m(3) inv by (intro less.hyps) auto
      next
        case 3
        have a: "addr = a" using ad next' [of left m] mT(1) 3 by auto
        have e: "binsearch_loop st t l r addr left r any = binsearch_loop st t m r (addr + 1) m r True"
          using \<open>l \<le> r\<close> m(1) False mT(2) 3 by (subst binsearch_loop.simps) (simp add: Let_def c_def)
        have "?v i \<le> a \<and> i \<le> m" if "i \<in> ?T" "i < m" for i
          using sorted [of i m] that mT(1) 3 a by auto
        then have "bs_left e t L R a m r m (addr + 1)"
          unfolding bs_left_def using mT 3 a c m(3) by auto
        moreover have "bs_any e t L R m r m True" using mT(1) by (auto simp: bs_any_def)
        moreover have "addr + 1 \<noteq> a" using a by simp
        ultimately show ?thesis unfolding e using mT(3) c m(3) inv a by (intro less.hyps) auto
      qed
    qed
  qed
qed

lemma stab_binsearch_run:
  assumes tab: "readable st e L R" "searchable e t L R a"
  shows "\<exists>left right. stab_binsearch st L R t a = Some (Inr (left, right)) \<and>
    (if typed e t L R = {} then left = L \<and> right = L - 1
     else bs_right e t L R a right \<and>
       (left \<in> typed e t L R \<and> n_value (e left) \<le> a \<and> left \<le> right \<and> (\<forall>i \<in> typed e t L R. i \<le> right \<longrightarrow> i \<le> left) \<or>
        left = min L right \<and> (\<forall>i \<in> typed e t L R. right < i)))"
proof -
  let ?T = "typed e t L R"
  have "bs_left e t L R a L R L a" "bs_right e t L R a R" "bs_any e t L R L R L False" "L \<le> R + 1"
    using tab(2) by (auto simp: bs_left_def bs_right_def bs_any_def typed_def searchable_def)
  from binsearch_loop_finds [OF tab order.refl this(4,1-3)] obtain left r any l addr where
    run: "binsearch_loop st t L R a L R False = Some (Inr (left, r, any))" "r < l"
    and inv: "bs_left e t L R a l r left addr" "bs_right e t L R a r" "bs_any e t L R l r left any" by blast
  have lows: "i < l" if "i \<in> ?T" "i \<le> r" for i using that run(2) by simp
  show ?thesis
  proof (cases any)
    case False
    then have "?T = {}" "left = L" using inv(2,3) run(2) unfolding bs_any_def typed_def by force+
    then show ?thesis using run(1) False by (simp add: stab_binsearch_def)
  next
    case True
    then have T: "?T \<noteq> {}" using inv(3) by (simp add: bs_any_def)
    have fin: "left \<in> ?T \<and> n_value (e left) \<le> a \<and> left \<le> r \<and> (\<forall>i \<in> ?T. i \<le> r \<longrightarrow> i \<le> left) \<or>
        left = L \<and> (\<forall>i \<in> ?T. r < i)"
      using inv(1) run(2) unfolding bs_left_def by force
    have rR: "r \<le> R" and Lle: "L \<le> left" using inv(2) fin by (auto simp: bs_right_def typed_def)
    have last: "scan_back st t left r = Inr (min left r)"
    proof (cases "left \<le> r")
      case True
      have "n_type (e i) \<noteq> t" if "left < i" "i \<le> r" for i
      proof
        assume "n_type (e i) = t"
        then have "i \<in> ?T" using that rR Lle by (simp add: typed_def)
        with fin that show False by force
      qed
      then have "scan_back st t left r = Inr left" using True rR Lle by (intro scan_back_eq [OF tab(1)]) auto
      then show ?thesis using True by simp
    next
      case False
      then show ?thesis by (subst scan_back.simps) simp
    qed
    have "left \<in> ?T \<and> n_value (e left) \<le> a \<and> left \<le> r \<and> (\<forall>i \<in> ?T. i \<le> r \<longrightarrow> i \<le> left) \<and> min left r = left \<or>
        min left r = min L r \<and> (\<forall>i \<in> ?T. r < i)" using fin by auto
    then show ?thesis using run(1) True T inv(2) last by (auto simp: stab_binsearch_def)
  qed
qed

section \<open>What the search answers\<close>

lemma stab_binsearch_hit:
  assumes "readable st e L R" "searchable e t L R a" "j \<in> typed e t L R" "n_value (e j) \<le> a"
  shows "\<exists>left right. stab_binsearch st L R t a = Some (Inr (left, right)) \<and> left \<le> right \<and>
    left \<in> typed e t L R \<and> n_value (e left) \<le> a \<and>
    (\<forall>i \<in> typed e t L R. n_value (e i) \<le> a \<longrightarrow> i \<le> left) \<and>
    (right = R \<or> right + 1 \<in> typed e t L R) \<and> (\<forall>i \<in> typed e t L R. left < i \<longrightarrow> right < i)"
proof -
  let ?T = "typed e t L R"
  have ne: "?T \<noteq> {}" using assms(3) by blast
  obtain left right where run: "stab_binsearch st L R t a = Some (Inr (left, right))"
    and res: "bs_right e t L R a right"
      "left \<in> ?T \<and> n_value (e left) \<le> a \<and> left \<le> right \<and> (\<forall>i \<in> ?T. i \<le> right \<longrightarrow> i \<le> left) \<or>
       left = min L right \<and> (\<forall>i \<in> ?T. right < i)"
    using stab_binsearch_run [OF assms(1,2)] unfolding if_not_P [OF ne] by blast
  have behind: "a < n_value (e i)" if "i \<in> ?T" "right < i" for i
    using res(1) that by (auto simp: bs_right_def)
  then have "\<not> right < j" using assms(3,4) by (meson not_le)
  then have "left \<in> ?T" "n_value (e left) \<le> a" "left \<le> right" "\<And>i. i \<in> ?T \<Longrightarrow> i \<le> right \<Longrightarrow> i \<le> left"
    using res(2) assms(3) by auto
  moreover from this(4) behind have "i \<le> left" if "i \<in> ?T" "n_value (e i) \<le> a" for i
    using that by (meson not_le)
  ultimately show ?thesis
    using run res(1) by (auto simp: bs_right_def not_le [symmetric])
qed

text \<open>A table with a source file at \<open>0x100\<close> and functions at \<open>0x110\<close> and \<open>0x120\<close>, with lines between them.\<close>

definition demo_entry :: "int \<Rightarrow> Stab" where
  "demo_entry i = (let (t, v) = [(N_SO, 0x100), (N_FUN, 0x110), (N_SLINE, 0x114), (N_FUN, 0x120), (N_SLINE, 0x128)] ! nat i
     in \<lparr>n_strx = 0, n_type = t, n_other = 0, n_desc = 0, n_value = v\<rparr>)"

definition demo_table :: "int \<Rightarrow> unit + Stab" where
  "demo_table i = (if 0 \<le> i \<and> i \<le> 4 then Inr (demo_entry i) else Inl ())"

lemma demo_readable: "readable demo_table demo_entry 0 4"
  by (simp add: readable_def demo_table_def)

lemma demo_indices: "0 \<le> i \<and> i \<le> 4 \<longleftrightarrow> i \<in> {0, 1, 2, 3, 4 :: int}"
  by auto

lemma demo_typed [simp]: "typed demo_entry 0x24 0 4 = {1, 3}"
proof -
  have "typed demo_entry 0x24 0 4 = {i \<in> {0, 1, 2, 3, 4}. n_type (demo_entry i) = 0x24}"
    by (auto simp: typed_def demo_indices [symmetric])
  also have "\<dots> = {1, 3}" by (auto simp: demo_entry_def)
  finally show ?thesis .
qed

lemma demo_searchable: "a \<in> {0x10, 0x118} \<Longrightarrow> searchable demo_entry 0x24 0 4 a"
  by (auto simp: searchable_def demo_entry_def)

text \<open>C27: if some entry of the type lies at or before the address, the search of \<open>stab_binsearch\<close> ends,
  reads nothing outside the given range and gives the last such entry, and as right end the index
  just before the next entry of the type, or the end of the range.\<close>

theorem stab_binsearch_finds:
  assumes "readable st e L R" "searchable e t L R a" "j \<in> typed e t L R" "n_value (e j) \<le> a"
  shows "\<exists>left right. stab_binsearch st L R t a = Some (Inr (left, right)) \<and> left \<le> right \<and>
    left \<in> typed e t L R \<and> n_value (e left) \<le> a \<and>
    (\<forall>i \<in> typed e t L R. n_value (e i) \<le> a \<longrightarrow> i \<le> left) \<and>
    (right = R \<or> right + 1 \<in> typed e t L R) \<and> (\<forall>i \<in> typed e t L R. left < i \<longrightarrow> right < i)"
  using assms by (rule stab_binsearch_hit)

theorem stab_binsearch_finds_witness:
  "stab_binsearch demo_table 0 4 0x24 0x118 = Some (Inr (1, 2))"
proof -
  have "(1 :: int) \<in> typed demo_entry 0x24 0 4" "n_value (demo_entry 1) \<le> 0x118"
    by (simp_all add: demo_entry_def)
  from stab_binsearch_finds [OF demo_readable demo_searchable this]
  obtain left right where r: "stab_binsearch demo_table 0 4 0x24 0x118 = Some (Inr (left, right))"
    "left \<in> {1, 3}" "n_value (demo_entry left) \<le> 0x118" "right = 4 \<or> right + 1 \<in> {1, 3}"
    "\<forall>i \<in> {1, 3}. left < i \<longrightarrow> right < i" "left \<le> right" by auto
  then have "left = 1" by (auto simp: demo_entry_def)
  with r show ?thesis by auto
qed

text \<open>Before the first entry of the type the search does not report that the address is in no entry,
  as its comment says (a left end behind the right end): it gives the first index of the range, or
  the index before the range if the entry is there.\<close>

theorem stab_binsearch_before_first:
  assumes "readable st e L R" "searchable e t L R a" "j \<in> typed e t L R"
    and "\<forall>i \<in> typed e t L R. a < n_value (e i)"
  shows "\<exists>left right. stab_binsearch st L R t a = Some (Inr (left, right)) \<and> left \<le> right \<and>
    left = (if L \<in> typed e t L R then L - 1 else L) \<and> left \<notin> typed e t L R \<and>
    right + 1 \<in> typed e t L R \<and> (\<forall>i \<in> typed e t L R. right < i)"
proof -
  let ?T = "typed e t L R"
  have ne: "?T \<noteq> {}" using assms(3) by blast
  obtain left right where run: "stab_binsearch st L R t a = Some (Inr (left, right))"
    and r: "bs_right e t L R a right" "left = min L right" "\<forall>i \<in> ?T. right < i"
    using stab_binsearch_run [OF assms(1,2)] assms(4) unfolding if_not_P [OF ne]
    by (metis leD)
  have "right < R" using r(3) assms(3) by (force simp: typed_def)
  then have n: "right + 1 \<in> ?T" using r(1) by (auto simp: bs_right_def)
  then have "L \<le> right + 1" by (simp add: typed_def)
  have "left = (if L \<in> ?T then L - 1 else L) \<and> left \<notin> ?T"
  proof (cases "L \<le> right")
    case True
    then have "L \<notin> ?T" "left = L" using r(2,3) by auto
    then show ?thesis by simp
  next
    case False
    then have "L = right + 1" "left = right" using \<open>L \<le> right + 1\<close> r(2) by auto
    then show ?thesis using n by (simp add: typed_def)
  qed
  then show ?thesis using run r n by auto
qed

theorem stab_binsearch_before_first_witness:
  "stab_binsearch demo_table 0 4 0x24 0x10 = Some (Inr (0, 0))"
proof -
  have "(1 :: int) \<in> typed demo_entry 0x24 0 4" "\<forall>i \<in> typed demo_entry 0x24 0 4. 0x10 < n_value (demo_entry i)"
    by (auto simp: demo_entry_def)
  from stab_binsearch_before_first [OF demo_readable demo_searchable this]
  show ?thesis by auto
qed

end
