(* ===== verification/Debuginfo.thy ===== *)
theory Debuginfo
  imports Kdebug Syscall "HOL-Library.Signed_Division"
begin

text \<open>
  Finding the function and the source line of an instruction (\<open>debuginfo_eip\<close> of \<open>kern/kdebug.c\<close>) and
  the backtrace of \<open>kern/monitor.c\<close> that uses it. The symbol tables are read through the page tables,
  so a read can be a page fault. The kernel's tables are where the linker puts them: a parameter,
  like the address of the text \<open><unknown>\<close>. An entry of a table is read as a whole.
\<close>

section \<open>Data\<close>

record Eipdebuginfo =
  eip_file :: u32
  eip_line :: u32
  eip_fn_name :: u32
  eip_fn_namelen :: u32
  eip_fn_addr :: u32
  eip_fn_narg :: u32

text \<open>The four pointers of \<open>struct UserStabData\<close>.\<close>

record UserStabData =
  stabs :: u32
  stab_end :: u32
  stabstr :: u32
  stabstr_end :: u32

definition vload16 :: "'z pmap_state_scheme \<Rightarrow> u32 \<Rightarrow> fault + u16" where
  "vload16 s a = bindr (vload s a) (\<lambda>b0. bindr (vload s (a + 1)) (\<lambda>b1. Inr (ucast b0 OR push_bit 8 (ucast b1))))"

definition vload32 :: "'z pmap_state_scheme \<Rightarrow> u32 \<Rightarrow> fault + u32" where
  "vload32 s a = bindr (vload16 s a) (\<lambda>lo. bindr (vload16 s (a + 2)) (\<lambda>hi. Inr (ucast lo OR push_bit 16 (ucast hi))))"

text \<open>\<open>stabs[i]\<close>.\<close>

definition sizeof_Stab :: u32 where [simp]: "sizeof_Stab = 12"

definition read_stab :: "'z pmap_state_scheme \<Rightarrow> u32 \<Rightarrow> int \<Rightarrow> fault + Stab" where
  "read_stab s p i =
     (let a = p + sizeof_Stab * word_of_int i in
      bindr (vload32 s a) (\<lambda>strx.
      bindr (vload s (a + 4)) (\<lambda>type.
      bindr (vload s (a + 5)) (\<lambda>other.
      bindr (vload16 s (a + 6)) (\<lambda>desc.
      bindr (vload32 s (a + 8)) (\<lambda>value.
      Inr \<lparr>n_strx = strx, n_type = type, n_other = other, n_desc = desc, n_value = value\<rparr>))))))"

text \<open>\<open>strfind\<close>, reading through the page tables.\<close>

partial_function (option) vstrfind :: "(u32 \<Rightarrow> fault + u8) \<Rightarrow> u32 \<Rightarrow> u8 \<Rightarrow> (fault + u32) option" where
  "vstrfind ld p c =
     bindo (Some (ld p)) (\<lambda>b. if b = 0 \<or> b = c then Some (Inr p) else vstrfind ld (p + 1) c)"

section \<open>The search\<close>

text \<open>The loop back to the stab with the file name, and the one that counts the parameters.\<close>

function file_stab :: "(int \<Rightarrow> 'e + Stab) \<Rightarrow> int \<Rightarrow> int \<Rightarrow> 'e + int" where
  "file_stab st lfile lline =
     (if lline \<ge> lfile then bindr (st lline) (\<lambda>s.
        if n_type s \<noteq> N_SOL \<and> (n_type s \<noteq> N_SO \<or> n_value s = 0) then file_stab st lfile (lline - 1) else Inr lline)
      else Inr lline)"
  by pat_completeness auto
termination by (relation "measure (\<lambda>(st, lfile, lline). nat (lline + 1 - lfile))") auto

function count_params :: "(int \<Rightarrow> 'e + Stab) \<Rightarrow> int \<Rightarrow> int \<Rightarrow> u32 \<Rightarrow> 'e + u32" where
  "count_params st lline rfun narg =
     (if lline < rfun then bindr (st lline) (\<lambda>s.
        if n_type s = N_PSYM then count_params st (lline + 1) rfun (narg + 1) else Inr narg)
      else Inr narg)"
  by pat_completeness auto
termination by (relation "measure (\<lambda>(st, lline, rfun, narg). nat (rfun - lline))") auto

declare file_stab.simps [simp del] count_params.simps [simp del]

text \<open>\<open>debuginfo_eip\<close> from the string table checks on.\<close>

definition debug_search ::
  "'z pmap_state_scheme \<Rightarrow> UserStabData \<Rightarrow> u32 \<Rightarrow> Eipdebuginfo \<Rightarrow> (fault + u32 \<times> Eipdebuginfo) option" where
  "debug_search s tab addr info =
     (let st = read_stab s (stabs tab); strsize = stabstr_end tab - stabstr tab in
      if stabstr_end tab \<le> stabstr tab then Some (Inr (- 1, info))
      else bindo (Some (vload s (stabstr_end tab - 1))) (\<lambda>b.
      if b \<noteq> 0 then Some (Inr (- 1, info))
      else bindo (stab_binsearch st 0 (sint (stab_end tab - stabs tab) sdiv 12 - 1) N_SO addr) (\<lambda>(lfile, rfile).
      if lfile = 0 then Some (Inr (- 1, info))
      else bindo (stab_binsearch st lfile rfile N_FUN addr) (\<lambda>(lfun, rfun).
      bindo (Some (if lfun \<le> rfun
        then bindr (st lfun) (\<lambda>f.
          let info = (if n_strx f < strsize then info\<lparr>eip_fn_name := stabstr tab + n_strx f\<rparr> else info)
          in Inr (info\<lparr>eip_fn_addr := n_value f\<rparr>, addr - n_value f, lfun, rfun))
        else Inr (info\<lparr>eip_fn_addr := addr\<rparr>, addr, lfile, rfile))) (\<lambda>(info, addr, lline, rline).
      bindo (vstrfind (vload s) (eip_fn_name info) 0x3A) (\<lambda>p.
      let info = info\<lparr>eip_fn_namelen := p - eip_fn_name info\<rparr> in
      bindo (stab_binsearch st lline rline N_SLINE addr) (\<lambda>(lline, rline).
      if \<not> lline \<le> rline then Some (Inr (- 1, info))
      else bindo (Some (st lline)) (\<lambda>l.
      let info = info\<lparr>eip_line := ucast (n_desc l)\<rparr> in
      bindo (Some (file_stab st lfile lline)) (\<lambda>k.
      bindo (Some (if k \<ge> lfile
        then bindr (st k) (\<lambda>f. Inr (if n_strx f < strsize then info\<lparr>eip_file := stabstr tab + n_strx f\<rparr> else info))
        else Inr info)) (\<lambda>info.
      bindo (Some (if lfun < rfun then count_params st (lfun + 1) rfun (eip_fn_narg info) else Inr (eip_fn_narg info))) (\<lambda>n.
      Some (Inr (0, info\<lparr>eip_fn_narg := n\<rparr>)))))))))))))"

text \<open>The tables of a user program, if the environment may read them; only the first entry of its
  symbol table is checked.\<close>

definition sizeof_UserStabData :: u32 where [simp]: "sizeof_UserStabData = 16"

definition user_tables ::
  "'z env_state_scheme \<Rightarrow> (fault + UserStabData option \<times> 'z env_state_scheme) option" where
  "user_tables s =
     (case curenv s of
        None \<Rightarrow> Some (Inl Wild_Access)
      | Some c \<Rightarrow>
          if \<not> c < length (envs s) then Some (Inl Wild_Access)
          else bindo (user_mem_check s (env_pgdir (envs s ! c)) USTABDATA sizeof_UserStabData PTE_U) (\<lambda>(r, s).
          if r \<noteq> 0 then Some (Inr (None, s))
          else bindo (Some (vload32 s USTABDATA)) (\<lambda>p0.
          bindo (Some (vload32 s (USTABDATA + 4))) (\<lambda>p1.
          bindo (Some (vload32 s (USTABDATA + 8))) (\<lambda>p2.
          bindo (Some (vload32 s (USTABDATA + 12))) (\<lambda>p3.
          bindo (user_mem_check s (env_pgdir (envs s ! c)) p0 sizeof_Stab PTE_U) (\<lambda>(r, s).
          if r \<noteq> 0 then Some (Inr (None, s))
          else bindo (user_mem_check s (env_pgdir (envs s ! c)) p2 (p3 - p2) PTE_U) (\<lambda>(r, s).
          Some (Inr (if r \<noteq> 0 then None
            else Some \<lparr>stabs = p0, stab_end = p1, stabstr = p2, stabstr_end = p3\<rparr>, s))))))))))"

definition debuginfo_eip ::
  "u32 \<Rightarrow> UserStabData \<Rightarrow> u32 \<Rightarrow> 'z env_state_scheme \<Rightarrow> (fault + u32 \<times> Eipdebuginfo \<times> 'z env_state_scheme) option" where
  "debuginfo_eip unknown kern_tab addr s =
     (let info = \<lparr>eip_file = unknown, eip_line = 0, eip_fn_name = unknown, eip_fn_namelen = 9, eip_fn_addr = addr, eip_fn_narg = 0\<rparr> in
      bindo (if addr \<ge> ULIM then Some (Inr (Some kern_tab, s)) else user_tables s) (\<lambda>(tab, s).
      case tab of
        None \<Rightarrow> Some (Inr (- 1, info, s))
      | Some tab \<Rightarrow> bindo (debug_search s tab addr info) (\<lambda>(r, info). Some (Inr (r, info, s)))))"

section \<open>The backtrace\<close>

fun vwords :: "'z pmap_state_scheme \<Rightarrow> u32 \<Rightarrow> nat \<Rightarrow> fault + u32 list" where
  "vwords s a 0 = Inr []"
| "vwords s a (Suc n) = bindr (vload32 s a) (\<lambda>w. bindr (vwords s (a + 4) n) (\<lambda>ws. Inr (w # ws)))"

definition print_frame ::
  "u32 \<Rightarrow> UserStabData \<Rightarrow> u32 \<Rightarrow> 'z env_state_scheme \<Rightarrow> (fault + 'z env_state_scheme) option" where
  "print_frame unknown kern_tab ebp s =
     bindo (Some (vload32 s (ebp + 4))) (\<lambda>eip.
     bindo (Some (vwords s (ebp + 8) 5)) (\<lambda>args.
     let s = cprintf (''  ebp %08x  eip %08x  args %08x %08x %08x %08x %08x'' @ nl) (ebp # eip # args) s in
     bindo (debuginfo_eip unknown kern_tab eip s) (\<lambda>(r, info, s).
     bindo (text_arg s (- 1) (eip_file info)) (\<lambda>file.
     bindo (text_arg s (sint (eip_fn_namelen info)) (eip_fn_name info)) (\<lambda>fn.
     Some (Inr (cprintf_args (''         %s:%d: %.*s+%d'' @ nl)
       [Str file, Num (eip_line info), Num (eip_fn_namelen info), Str fn, Num (eip - eip_fn_addr info)] s)))))))"

partial_function (option) backtrace_loop ::
  "u32 \<Rightarrow> UserStabData \<Rightarrow> u32 \<Rightarrow> 'z env_state_scheme \<Rightarrow> (fault + 'z env_state_scheme) option" where
  "backtrace_loop unknown kern_tab ebp s =
     bindo (print_frame unknown kern_tab ebp s) (\<lambda>s.
     bindo (Some (vload32 s ebp)) (\<lambda>ebp.
     if ebp \<noteq> 0 then backtrace_loop unknown kern_tab ebp s else Some (Inr s)))"

text \<open>The register \<open>%ebp\<close> that \<open>read_ebp\<close> reads is an argument.\<close>

definition mon_backtrace ::
  "u32 \<Rightarrow> UserStabData \<Rightarrow> u32 \<Rightarrow> 'z env_state_scheme \<Rightarrow> (fault + u32 \<times> 'z env_state_scheme) option" where
  "mon_backtrace unknown kern_tab ebp s =
     bindo (backtrace_loop unknown kern_tab ebp (cprintf (''Stack backtrace:'' @ nl) [] s)) (\<lambda>s. Some (Inr (0, s)))"

section \<open>What the loops of the search find\<close>

definition names_file :: "Stab \<Rightarrow> bool" where
  "names_file s \<longleftrightarrow> n_type s = N_SOL \<or> n_type s = N_SO \<and> n_value s \<noteq> 0"

lemma file_stab_eq:
  assumes "readable st e L R" "L \<le> k" "lfile \<le> k" "k \<le> i" "i \<le> R" "names_file (e k)"
    and "\<forall>j. k < j \<and> j \<le> i \<longrightarrow> \<not> names_file (e j)"
  shows "file_stab st lfile i = Inr k"
  using assms(4,5,7)
proof (induction "nat (i - k)" arbitrary: i)
  case 0
  then have "i = k" "st k = Inr (e k)" using assms by (simp_all add: readable_def)
  with assms(3,6) show ?case by (subst file_stab.simps) (auto simp: names_file_def)
next
  case (Suc n)
  then have i: "k < i" "\<not> names_file (e i)" "st i = Inr (e i)" using assms(1,2) by (auto simp: readable_def)
  then have "file_stab st lfile (i - 1) = Inr k" using Suc by (intro Suc.hyps(1)) auto
  with i assms(3) show ?case by (subst file_stab.simps) (auto simp: names_file_def)
qed

definition params :: "(int \<Rightarrow> Stab) \<Rightarrow> int \<Rightarrow> int \<Rightarrow> int list" where
  "params e i j = takeWhile (\<lambda>k. n_type (e k) = N_PSYM) [i..j]"

lemma count_params_eq:
  assumes "readable st e L R" "L \<le> i" "j \<le> R"
  shows "count_params st i j n = Inr (n + of_nat (length (params e i (j - 1))))"
  using assms(2)
proof (induction "nat (j - i)" arbitrary: i n)
  case 0
  then show ?case by (subst count_params.simps) (simp add: params_def)
next
  case (Suc m)
  then have i: "i < j" "st i = Inr (e i)" using assms(1,3) by (auto simp: readable_def)
  have up: "[i..j - 1] = i # [i + 1..j - 1]" using i by (simp add: upto_rec1)
  have "count_params st (i + 1) j (n + 1) = Inr (n + 1 + of_nat (length (params e (i + 1) (j - 1))))"
    using Suc i by (intro Suc.hyps(1)) auto
  with i up show ?case by (subst count_params.simps) (simp add: params_def)
qed

lemma vstrfind_eq:
  assumes "\<forall>i < n. \<exists>b. ld (p + of_nat i) = Inr b \<and> b \<noteq> 0 \<and> b \<noteq> c"
    and "ld (p + of_nat n) = Inr b" "b = 0 \<or> b = c"
  shows "vstrfind ld p c = Some (Inr (p + of_nat n))"
  using assms(1,2)
proof (induction n arbitrary: p)
  case 0
  with assms(3) show ?case by (subst vstrfind.simps) simp
next
  case (Suc n)
  have "vstrfind ld (p + 1) c = Some (Inr (p + 1 + of_nat n))"
  proof (rule Suc.IH)
    show "\<forall>i < n. \<exists>b. ld (p + 1 + of_nat i) = Inr b \<and> b \<noteq> 0 \<and> b \<noteq> c"
      using Suc.prems(1) by (auto simp: add.assoc simp flip: of_nat_Suc)
  qed (use Suc.prems(2) in \<open>simp add: add.assoc\<close>)
  moreover obtain b0 where "ld p = Inr b0" "b0 \<noteq> 0" "b0 \<noteq> c" using Suc.prems(1) by force
  ultimately show ?case by (subst vstrfind.simps) (simp add: add.assoc)
qed

text \<open>The entry \<open>i\<close> of the type is the last at or before the address, and \<open>j\<close> the end of its part of the table.\<close>

definition found :: "(int \<Rightarrow> Stab) \<Rightarrow> u8 \<Rightarrow> int \<Rightarrow> int \<Rightarrow> u32 \<Rightarrow> int \<Rightarrow> int \<Rightarrow> bool" where
  "found e t L R a i j \<longleftrightarrow> i \<le> j \<and> i \<in> typed e t L R \<and> n_value (e i) \<le> a \<and>
     (\<forall>k \<in> typed e t L R. n_value (e k) \<le> a \<longrightarrow> k \<le> i) \<and>
     (j = R \<or> j + 1 \<in> typed e t L R) \<and> (\<forall>k \<in> typed e t L R. i < k \<longrightarrow> j < k)"

lemma found_unique: "found e t L R a i j \<Longrightarrow> found e t L R a i' j' \<Longrightarrow> i' = i \<and> j' = j"
proof -
  assume f: "found e t L R a i j" "found e t L R a i' j'"
  then have "i' = i" unfolding found_def by (meson order.antisym)
  moreover have "j \<le> R" "j' \<le> R" using f by (auto simp: found_def typed_def)
  ultimately show ?thesis using f unfolding found_def by (smt (verit))
qed

lemma search_found:
  assumes "readable st e L R" "searchable e t L R a" "found e t L R a i j"
  shows "stab_binsearch st L R t a = Some (Inr (i, j))"
proof -
  have "i \<in> typed e t L R" "n_value (e i) \<le> a" using assms(3) by (simp_all add: found_def)
  from stab_binsearch_hit [OF assms(1,2) this] obtain left right where
    "stab_binsearch st L R t a = Some (Inr (left, right))" "found e t L R a left right"
    unfolding found_def by blast
  with found_unique [OF assms(3)] show ?thesis by blast
qed

lemma found_range: "found e t L R a i j \<Longrightarrow> L \<le> i \<and> i \<le> j \<and> j \<le> R \<and> n_type (e i) = t"
  by (auto simp: found_def typed_def)

lemma readable_sub: "readable st e L R \<Longrightarrow> L \<le> L' \<Longrightarrow> R' \<le> R \<Longrightarrow> readable st e L' R'"
  by (auto simp: readable_def)

section \<open>The information about a kernel address\<close>

lemma debuginfo_eip_eq:
  assumes "ULIM \<le> addr" "readable (read_stab s (stabs tab)) e 0 R" "R = sint (stab_end tab - stabs tab) sdiv 12 - 1"
    and "stabstr tab < stabstr_end tab" "vload s (stabstr_end tab - 1) = Inr 0"
    and so: "searchable e N_SO 0 R addr" "found e N_SO 0 R addr F FR" "F \<noteq> 0"
    and func: "searchable e N_FUN F FR addr" "found e N_FUN F FR addr f fr"
    and line: "searchable e N_SLINE f fr (addr - n_value (e f))" "found e N_SLINE f fr (addr - n_value (e f)) l lr"
    and name: "n_strx (e f) < stabstr_end tab - stabstr tab"
      "\<forall>i < n. \<exists>b. vload s (stabstr tab + n_strx (e f) + of_nat i) = Inr b \<and> b \<noteq> 0 \<and> b \<noteq> 0x3A"
      "vload s (stabstr tab + n_strx (e f) + of_nat n) = Inr b" "b = 0 \<or> b = 0x3A"
    and src: "F \<le> k" "k \<le> l" "names_file (e k)" "\<forall>j. k < j \<and> j \<le> l \<longrightarrow> \<not> names_file (e j)"
      "n_strx (e k) < stabstr_end tab - stabstr tab"
  shows "debuginfo_eip unknown tab addr s = Some (Inr (0,
    \<lparr>eip_file = stabstr tab + n_strx (e k), eip_line = ucast (n_desc (e l)),
     eip_fn_name = stabstr tab + n_strx (e f), eip_fn_namelen = of_nat n, eip_fn_addr = n_value (e f),
     eip_fn_narg = of_nat (length (params e (f + 1) (fr - 1)))\<rparr>, s))"
proof -
  let ?st = "read_stab s (stabs tab)"
  have r: "0 \<le> F" "F \<le> f" "f \<le> l" "l \<le> lr" "lr \<le> fr" "fr \<le> FR" "FR \<le> R" "f \<le> fr"
    using found_range [OF so(2)] found_range [OF func(2)] found_range [OF line(2)] by simp_all
  have st: "?st f = Inr (e f)" "?st l = Inr (e l)" "?st k = Inr (e k)"
    using assms(2) r src by (simp_all add: readable_def)
  note search = search_found [OF assms(2) so(1,2)]
    search_found [OF readable_sub [OF assms(2)] func, OF r(1) r(7)]
    search_found [OF readable_sub [OF assms(2)] line, OF order.trans [OF r(1,2)] order.trans [OF r(6,7)]]
  have b: "file_stab ?st F l = Inr k" using r src by (intro file_stab_eq [OF assms(2)]) auto
  have c: "count_params ?st (f + 1) fr 0 = Inr (of_nat (length (params e (f + 1) (fr - 1))))"
    using r by (subst count_params_eq [OF assms(2)]) auto
  have d: "length (params e (f + 1) (fr - 1)) = 0" if "\<not> f < fr" using that by (simp add: params_def)
  have w: "\<not> stabstr_end tab \<le> stabstr tab" using assms(4) by simp
  show ?thesis
    using assms(1,5) w so(3) r st search [unfolded assms(3)] b c d vstrfind_eq [OF name(2-4)] name(1) src(1,2,5)
    unfolding debuginfo_eip_def debug_search_def Let_def
    by (cases "f < fr") (simp_all add: bindo_simps del: length_0_conv)
qed

text \<open>A machine with a symbol table at \<open>0xF0001000\<close>: a source file \<open>a.c\<close>, a function \<open>f\<close> with one parameter,
  lines 7 and 8. The string table is at \<open>0xF0002000\<close>, a chain of two stack frames at \<open>0xF0004000\<close>.\<close>

definition demo_stabs :: "u8 list" where
  "demo_stabs =
     [0,0,0,0, 0x00,0,0,0, 0,0,0,0,
      1,0,0,0, 0x64,0,0,0, 0,0,0x10,0xF0,
      5,0,0,0, 0x24,0,0,0, 0x10,0,0x10,0xF0,
      0,0,0,0, 0xA0,0,0,0, 0,0,0,0,
      0,0,0,0, 0x44,0,7,0, 0,0,0,0,
      0,0,0,0, 0x44,0,8,0, 6,0,0,0]"

definition demo_strings :: "u8 list" where
  "demo_strings = [0, 0x61, 0x2E, 0x63, 0, 0x66, 0x3A, 0x46, 0x31, 0]"

definition demo_stack :: "u8 list" where
  "demo_stack =
     [0x20,0x40,0,0xF0, 0x14,0,0x10,0xF0, 1,0,0,0, 2,0,0,0, 3,0,0,0, 4,0,0,0, 5,0,0,0, 0,0,0,0,
      0,0,0,0, 0x14,0,0x10,0xF0, 6,0,0,0, 7,0,0,0, 8,0,0,0, 9,0,0,0, 10,0,0,0]"

definition demo_syms :: env_state where
  "demo_syms = demo_envs\<lparr>mem := (\<lambda>a.
     if 0x1000 \<le> a \<and> a < 0x1048 then demo_stabs ! unat (a - 0x1000)
     else if 0x2000 \<le> a \<and> a < 0x200A then demo_strings ! unat (a - 0x2000)
     else if 0x4000 \<le> a \<and> a < 0x403C then demo_stack ! unat (a - 0x4000) else 0)\<rparr>"

definition demo_tab :: UserStabData where
  "demo_tab = \<lparr>stabs = 0xF0001000, stab_end = 0xF0001048, stabstr = 0xF0002000, stabstr_end = 0xF000200A\<rparr>"

definition demo_stab :: "int \<Rightarrow> Stab" where
  "demo_stab i = [
     \<lparr>n_strx = 0, n_type = 0, n_other = 0, n_desc = 0, n_value = 0\<rparr>,
     \<lparr>n_strx = 1, n_type = N_SO, n_other = 0, n_desc = 0, n_value = 0xF0100000\<rparr>,
     \<lparr>n_strx = 5, n_type = N_FUN, n_other = 0, n_desc = 0, n_value = 0xF0100010\<rparr>,
     \<lparr>n_strx = 0, n_type = N_PSYM, n_other = 0, n_desc = 0, n_value = 0\<rparr>,
     \<lparr>n_strx = 0, n_type = N_SLINE, n_other = 0, n_desc = 7, n_value = 0\<rparr>,
     \<lparr>n_strx = 0, n_type = N_SLINE, n_other = 0, n_desc = 8, n_value = 6\<rparr>] ! nat i"

lemma demo_syms_load: "KERNBASE \<le> a \<Longrightarrow> vload demo_syms a = Inr (mem demo_syms (a - KERNBASE))"
  by (simp add: vload_def translate_def)

lemma demo_stab_indices: "0 \<le> i \<and> i \<le> 5 \<longleftrightarrow> i \<in> {0, 1, 2, 3, 4, 5 :: int}"
  by auto

lemma demo_syms_readable: "readable (read_stab demo_syms 0xF0001000) demo_stab 0 5"
  unfolding readable_def demo_stab_indices
  by (simp add: read_stab_def vload32_def vload16_def demo_syms_load, simp add: demo_syms_def demo_stabs_def demo_stab_def)

lemma demo_stab_typed:
  "0 \<le> L \<Longrightarrow> R \<le> 5 \<Longrightarrow> typed demo_stab t L R = Set.filter (\<lambda>i. L \<le> i \<and> i \<le> R \<and> n_type (demo_stab i) = t) {0, 1, 2, 3, 4, 5}"
  by (auto simp: typed_def demo_stab_indices [symmetric])

lemma demo_stab_sets:
  "typed demo_stab N_SO 0 5 = {1}" "typed demo_stab N_FUN 1 5 = {2}" "typed demo_stab N_SLINE 2 5 = {4, 5}"
  by (auto simp: demo_stab_typed) (simp_all add: demo_stab_def)

lemma demo_so: "searchable demo_stab N_SO 0 5 0xF0100014" "found demo_stab N_SO 0 5 0xF0100014 1 5"
  unfolding searchable_def found_def demo_stab_sets by (simp_all add: demo_stab_def)

lemma demo_func: "searchable demo_stab N_FUN 1 5 0xF0100014" "found demo_stab N_FUN 1 5 0xF0100014 2 5"
  unfolding searchable_def found_def demo_stab_sets by (simp_all add: demo_stab_def)

lemma demo_line: "searchable demo_stab N_SLINE 2 5 (0xF0100014 - n_value (demo_stab 2))"
  "found demo_stab N_SLINE 2 5 (0xF0100014 - n_value (demo_stab 2)) 4 4"
  unfolding searchable_def found_def demo_stab_sets by (simp_all add: demo_stab_def)

lemma demo_src: "names_file (demo_stab 1)" "\<forall>j. 1 < j \<and> j \<le> 4 \<longrightarrow> \<not> names_file (demo_stab j)"
proof -
  have "1 < j \<and> j \<le> 4 \<longleftrightarrow> j \<in> {2, 3, 4 :: int}" for j by auto
  then show "\<forall>j. 1 < j \<and> j \<le> 4 \<longrightarrow> \<not> names_file (demo_stab j)"
    by (simp add: names_file_def demo_stab_def)
qed (simp add: names_file_def demo_stab_def)

lemma demo_tab_ok: "readable (read_stab demo_syms (stabs demo_tab)) demo_stab 0 5"
  "(5 :: int) = sint (stab_end demo_tab - stabs demo_tab) sdiv 12 - 1"
  "stabstr demo_tab < stabstr_end demo_tab" "vload demo_syms (stabstr_end demo_tab - 1) = Inr 0"
  using demo_syms_readable by (simp_all add: demo_tab_def signed_divide_int_def demo_syms_load)
    (simp add: demo_syms_def demo_strings_def)

lemma demo_name: "n_strx (demo_stab 2) < stabstr_end demo_tab - stabstr demo_tab"
  "\<forall>i < 1. \<exists>b. vload demo_syms (stabstr demo_tab + n_strx (demo_stab 2) + of_nat i) = Inr b \<and> b \<noteq> 0 \<and> b \<noteq> 0x3A"
  "vload demo_syms (stabstr demo_tab + n_strx (demo_stab 2) + of_nat 1) = Inr 0x3A"
  "n_strx (demo_stab 1) < stabstr_end demo_tab - stabstr demo_tab"
  by (simp_all add: demo_tab_def demo_stab_def demo_syms_load) (simp_all add: demo_syms_def demo_strings_def)

lemma demo_fields: "n_strx (demo_stab 1) = 1" "n_strx (demo_stab 2) = 5" "n_value (demo_stab 2) = 0xF0100010"
  "n_desc (demo_stab 4) = 7" "params demo_stab 3 4 = [3]"
  by (simp_all add: demo_stab_def params_def upto_rec1)

definition demo_info :: Eipdebuginfo where
  "demo_info = \<lparr>eip_file = 0xF0002001, eip_line = 7, eip_fn_name = 0xF0002005, eip_fn_namelen = 1,
     eip_fn_addr = 0xF0100010, eip_fn_narg = 1\<rparr>"

lemma demo_lookup: "debuginfo_eip 0xF0003000 demo_tab 0xF0100014 demo_syms = Some (Inr (0, demo_info, demo_syms))"
  using debuginfo_eip_eq [OF _ demo_tab_ok demo_so _ demo_func demo_line demo_name(1-3) _ _ _ demo_src demo_name(4), where unknown = "0xF0003000"]
  by (simp add: demo_tab_def demo_info_def demo_fields)

text \<open>C24: for an address in the kernel, with tables that can be read and are in order, \<open>debuginfo_eip\<close>
  returns 0 and gives the function that contains the address, with its name up to the colon and its
  number of parameters, the line whose code the address is in, and the last file named before that line.\<close>

theorem debuginfo_eip_finds:
  assumes "ULIM \<le> addr" "readable (read_stab s (stabs tab)) e 0 R" "R = sint (stab_end tab - stabs tab) sdiv 12 - 1"
    and "stabstr tab < stabstr_end tab" "vload s (stabstr_end tab - 1) = Inr 0"
    and so: "searchable e N_SO 0 R addr" "found e N_SO 0 R addr F FR" "F \<noteq> 0"
    and func: "searchable e N_FUN F FR addr" "found e N_FUN F FR addr f fr"
    and line: "searchable e N_SLINE f fr (addr - n_value (e f))" "found e N_SLINE f fr (addr - n_value (e f)) l lr"
    and name: "n_strx (e f) < stabstr_end tab - stabstr tab"
      "\<forall>i < n. \<exists>b. vload s (stabstr tab + n_strx (e f) + of_nat i) = Inr b \<and> b \<noteq> 0 \<and> b \<noteq> 0x3A"
      "vload s (stabstr tab + n_strx (e f) + of_nat n) = Inr b" "b = 0 \<or> b = 0x3A"
    and src: "F \<le> k" "k \<le> l" "names_file (e k)" "\<forall>j. k < j \<and> j \<le> l \<longrightarrow> \<not> names_file (e j)"
      "n_strx (e k) < stabstr_end tab - stabstr tab"
  shows "debuginfo_eip unknown tab addr s = Some (Inr (0,
    \<lparr>eip_file = stabstr tab + n_strx (e k), eip_line = ucast (n_desc (e l)),
     eip_fn_name = stabstr tab + n_strx (e f), eip_fn_namelen = of_nat n, eip_fn_addr = n_value (e f),
     eip_fn_narg = of_nat (length (params e (f + 1) (fr - 1)))\<rparr>, s))"
  using assms by (rule debuginfo_eip_eq)

theorem debuginfo_eip_finds_witness:
  "debuginfo_eip 0xF0003000 demo_tab 0xF0100014 demo_syms = Some (Inr (0, demo_info, demo_syms))"
  using debuginfo_eip_finds [OF _ demo_tab_ok demo_so _ demo_func demo_line demo_name(1-3) _ _ _ demo_src demo_name(4), where unknown = "0xF0003000"]
  by (simp add: demo_tab_def demo_info_def demo_fields)

section \<open>What the backtrace prints\<close>

text \<open>The loads do not look at the console.\<close>

lemma vload_console [simp]:
  fixes s :: "'z env_state_scheme"
  shows "vload (s\<lparr>console := c\<rparr>) = vload s" "vload32 (s\<lparr>console := c\<rparr>) = vload32 s"
    "read_stab (s\<lparr>console := c\<rparr>) = read_stab s" "vwords (s\<lparr>console := c\<rparr>) a n = vwords s a n"
    "debug_search (s\<lparr>console := c\<rparr>) = debug_search s"
proof -
  show l: "vload (s\<lparr>console := c\<rparr>) = vload s" by (rule ext) (simp add: vload_def translate_def Let_def)
  show l32: "vload32 (s\<lparr>console := c\<rparr>) = vload32 s" by (rule ext) (simp add: vload32_def vload16_def l)
  show r: "read_stab (s\<lparr>console := c\<rparr>) = read_stab s"
    by (intro ext) (simp add: read_stab_def vload16_def l l32)
  show "vwords (s\<lparr>console := c\<rparr>) a n = vwords s a n" by (induction n arbitrary: a) (simp_all add: l32)
  show "debug_search (s\<lparr>console := c\<rparr>) = debug_search s" by (intro ext) (simp only: debug_search_def l r)
qed

lemma text_at_loads:
  assumes "vload t = vload s" "text_at s n p = Some r"
  shows "text_at t n p = Some r"
proof -
  have "vload t = vload u \<longrightarrow> text_at t n p = Some r" if "text_at u n p = Some r" for u n p r
  proof (rule text_at.raw_induct [OF _ that, where P = "\<lambda>u n p r. vload t = vload u \<longrightarrow> text_at t n p = Some r"], rule impI)
    fix f u n p r
    assume ih: "\<And>u n p r. f u n p = Some r \<Longrightarrow> vload t = vload u \<longrightarrow> text_at t n p = Some r"
      and v: "vload t = vload u"
      and e: "bindo (Some (vload u p)) (\<lambda>ch. if ch = 0 then Some (Inr [])
        else if n < 0 then bindo (f u n (p + 1)) (\<lambda>r. Some (Inr (char_of (unat ch) # r)))
        else if n - 1 \<ge> 0 then bindo (f u (n - 1) (p + 1)) (\<lambda>r. Some (Inr (char_of (unat ch) # r)))
        else Some (Inr [])) = Some r"
    have rec: "f u m q = None \<or> f u m q = text_at t m q" for m q using ih [of u] v by (cases "f u m q") auto
    show "text_at t n p = Some r"
      using e v rec [of n "p + 1"] rec [of "n - 1" "p + 1"]
      by (subst text_at.simps) (cases "vload u p"; auto split: if_splits)
  qed
  with assms show ?thesis by blast
qed

lemma text_arg_console:
  fixes s :: "'z env_state_scheme"
  assumes "text_arg s n p = Some r"
  shows "text_arg (s\<lparr>console := c\<rparr>) n p = Some r"
  using assms text_at_loads [OF vload_console(1), of s n p r c]
  by (simp add: text_arg_def split: if_splits)

lemma debuginfo_eip_console:
  assumes "ULIM \<le> eip" "debuginfo_eip unknown tab eip s = Some (Inr (r, info, s))"
  shows "debuginfo_eip unknown tab eip (s\<lparr>console := c\<rparr>) = Some (Inr (r, info, s\<lparr>console := c\<rparr>))"
  using assms by (auto simp: debuginfo_eip_def Let_def bindo_eq_Inr)

text \<open>The chain of frames at \<open>ebp\<close>, each with its return address and the five words behind it.\<close>

fun frames_at :: "'z pmap_state_scheme \<Rightarrow> u32 \<Rightarrow> (u32 \<times> u32 \<times> u32 list) list \<Rightarrow> bool" where
  "frames_at s ebp [] = False"
| "frames_at s ebp ((b, eip, args) # fs) =
     (b = ebp \<and> vload32 s (ebp + 4) = Inr eip \<and> vwords s (ebp + 8) 5 = Inr args \<and>
      (\<exists>next. vload32 s ebp = Inr next \<and> (if fs = [] then next = 0 else next \<noteq> 0 \<and> frames_at s next fs)))"

text \<open>The two messages about a frame, if its return address is in the kernel and \<open>debuginfo_eip\<close> gives \<open>i\<close>.\<close>

definition frame_text :: "u32 \<times> u32 \<times> u32 list \<Rightarrow> Eipdebuginfo \<Rightarrow> string \<Rightarrow> string \<Rightarrow> message list" where
  "frame_text fr i file fn = (case fr of (ebp, eip, args) \<Rightarrow>
     [Message (''  ebp %08x  eip %08x  args %08x %08x %08x %08x %08x'' @ nl) (map Num (ebp # eip # args)),
      Message (''         %s:%d: %.*s+%d'' @ nl)
        [Str file, Num (eip_line i), Num (eip_fn_namelen i), Str fn, Num (eip - eip_fn_addr i)]])"

definition known_at ::
  "u32 \<Rightarrow> UserStabData \<Rightarrow> 'z env_state_scheme \<Rightarrow> u32 \<Rightarrow> Eipdebuginfo \<times> string \<times> string \<Rightarrow> bool" where
  "known_at unknown tab s eip = (\<lambda>(i, file, fn). ULIM \<le> eip \<and>
     (\<exists>r. debuginfo_eip unknown tab eip s = Some (Inr (r, i, s))) \<and>
     text_arg s (- 1) (eip_file i) = Some (Inr file) \<and>
     text_arg s (sint (eip_fn_namelen i)) (eip_fn_name i) = Some (Inr fn))"

lemma print_frame_eq:
  assumes "vload32 s (b + 4) = Inr eip" "vwords s (b + 8) 5 = Inr args" "known_at unknown tab s eip (i, file, fn)"
  shows "print_frame unknown tab b (s\<lparr>console := c\<rparr>) =
    Some (Inr (s\<lparr>console := rev (frame_text (b, eip, args) i file fn) @ c\<rparr>))"
proof -
  from assms(3) obtain r where k: "ULIM \<le> eip" "debuginfo_eip unknown tab eip s = Some (Inr (r, i, s))"
    "text_arg s (- 1) (eip_file i) = Some (Inr file)"
    "text_arg s (sint (eip_fn_namelen i)) (eip_fn_name i) = Some (Inr fn)" by (auto simp: known_at_def)
  show ?thesis
    by (simp add: print_frame_def Let_def cprintf_def cprintf_args_def frame_text_def assms(1,2)
      debuginfo_eip_console [OF k(1,2)] text_arg_console [OF k(3)] text_arg_console [OF k(4)] del: vwords.simps)
qed

lemma backtrace_loop_eq:
  assumes "frames_at s b fs" "list_all2 (\<lambda>(b, eip, args). known_at unknown tab s eip) fs infos"
  shows "backtrace_loop unknown tab b (s\<lparr>console := c\<rparr>) =
    Some (Inr (s\<lparr>console := rev (concat (map2 (\<lambda>fr (i, file, fn). frame_text fr i file fn) fs infos)) @ c\<rparr>))"
  using assms
proof (induction fs arbitrary: b infos c)
  case (Cons fr fs)
  obtain eip args "next" where f: "fr = (b, eip, args)" "vload32 s (b + 4) = Inr eip" "vwords s (b + 8) 5 = Inr args"
    "vload32 s b = Inr next" "if fs = [] then next = 0 else next \<noteq> 0 \<and> frames_at s next fs"
    using Cons.prems(1) by (cases fr) auto
  obtain i "file" fn rest where i: "infos = (i, file, fn) # rest" "known_at unknown tab s eip (i, file, fn)"
    "list_all2 (\<lambda>(b, eip, args). known_at unknown tab s eip) fs rest"
    using Cons.prems(2) f(1) by (auto simp: list_all2_Cons1)
  note p = print_frame_eq [OF f(2,3) i(2)]
  show ?case
  proof (cases "fs = []")
    case True
    then show ?thesis using p f(1,4,5) i by (subst backtrace_loop.simps) simp
  next
    case False
    with f(5) have n: "next \<noteq> 0" "frames_at s next fs" by simp_all
    show ?thesis using p f(1,4) n(1) Cons.IH [OF n(2) i(3)] i(1) by (subst backtrace_loop.simps) simp
  qed
qed simp

text \<open>C40: the backtrace ends and reports every frame of the chain, innermost first: its base pointer, return
  address and the five words behind it, and what \<open>debuginfo_eip\<close> finds about the return address.\<close>

theorem mon_backtrace_prints_chain:
  assumes "frames_at s ebp fs" "list_all2 (\<lambda>(b, eip, args). known_at unknown tab s eip) fs infos"
  shows "mon_backtrace unknown tab ebp s = Some (Inr (0, s\<lparr>console :=
    rev (Message (''Stack backtrace:'' @ nl) [] #
      concat (map2 (\<lambda>fr (i, file, fn). frame_text fr i file fn) fs infos)) @ console s\<rparr>))"
  using backtrace_loop_eq [OF assms] by (simp add: mon_backtrace_def cprintf_def)

lemma demo_known: "known_at 0xF0003000 demo_tab demo_syms 0xF0100014 (demo_info, ''a.c'', ''f'')"
proof -
  have b: "vload demo_syms 0xF0002001 = Inr 0x61" "vload demo_syms 0xF0002002 = Inr 0x2E" "vload demo_syms 0xF0002003 = Inr 0x63"
    "vload demo_syms 0xF0002004 = Inr 0" "vload demo_syms 0xF0002005 = Inr 0x66" "vload demo_syms 0xF0002006 = Inr 0x3A"
    by (simp_all add: demo_syms_load) (simp_all add: demo_syms_def demo_strings_def)
  have "text_at demo_syms (- 1) 0xF0002004 = Some (Inr [])" by (subst text_at.simps) (simp add: b char_of_def bit_iff_odd)
  then have "text_at demo_syms (- 1) 0xF0002003 = Some (Inr ''c'')" by (subst text_at.simps) (simp add: b char_of_def bit_iff_odd)
  then have "text_at demo_syms (- 1) 0xF0002002 = Some (Inr ''.c'')" by (subst text_at.simps) (simp add: b char_of_def bit_iff_odd)
  then have f: "text_at demo_syms (- 1) 0xF0002001 = Some (Inr ''a.c'')" by (subst text_at.simps) (simp add: b char_of_def bit_iff_odd)
  have "text_at demo_syms 0 0xF0002006 = Some (Inr [])" by (subst text_at.simps) (simp add: b char_of_def bit_iff_odd)
  then have g: "text_at demo_syms 1 0xF0002005 = Some (Inr ''f'')" by (subst text_at.simps) (simp add: b char_of_def bit_iff_odd)
  show ?thesis by (simp add: known_at_def demo_lookup) (simp add: demo_info_def text_arg_def f g)
qed

lemma vwords_5: "vwords s a 5 = bindr (vload32 s a) (\<lambda>v. bindr (vload32 s (a + 4)) (\<lambda>w. bindr (vload32 s (a + 8)) (\<lambda>x.
    bindr (vload32 s (a + 12)) (\<lambda>y. bindr (vload32 s (a + 16)) (\<lambda>z. Inr [v, w, x, y, z])))))"
proof -
  have "(5 :: nat) = Suc (Suc (Suc (Suc (Suc 0))))" by simp
  then show ?thesis by (simp only: vwords.simps) (simp add: add.assoc bindr_def split: sum.split)
qed

lemma demo_words:
  "vload32 demo_syms 0xF0004000 = Inr 0xF0004020" "vload32 demo_syms 0xF0004004 = Inr 0xF0100014"
  "vload32 demo_syms 0xF0004008 = Inr 1" "vload32 demo_syms 0xF000400C = Inr 2" "vload32 demo_syms 0xF0004010 = Inr 3"
  "vload32 demo_syms 0xF0004014 = Inr 4" "vload32 demo_syms 0xF0004018 = Inr 5" "vload32 demo_syms 0xF0004020 = Inr 0"
  "vload32 demo_syms 0xF0004024 = Inr 0xF0100014" "vload32 demo_syms 0xF0004028 = Inr 6"
  "vload32 demo_syms 0xF000402C = Inr 7" "vload32 demo_syms 0xF0004030 = Inr 8" "vload32 demo_syms 0xF0004034 = Inr 9"
  "vload32 demo_syms 0xF0004038 = Inr 10"
  by (simp_all add: vload32_def vload16_def demo_syms_load) (simp_all add: demo_syms_def demo_stack_def)

lemma demo_frames: "frames_at demo_syms 0xF0004000
    [(0xF0004000, 0xF0100014, [1, 2, 3, 4, 5]), (0xF0004020, 0xF0100014, [6, 7, 8, 9, 10])]"
  by (simp add: vwords_5 demo_words)

theorem mon_backtrace_prints_chain_witness:
  "\<exists>t. mon_backtrace 0xF0003000 demo_tab 0xF0004000 demo_syms = Some (Inr (0, t)) \<and> length (console t) = length (console demo_syms) + 5 \<and>
    hd (console t) = Message (''         %s:%d: %.*s+%d'' @ nl) [Str ''a.c'', Num 7, Num 1, Str ''f'', Num 4]"
proof -
  have "list_all2 (\<lambda>(b, eip, args). known_at 0xF0003000 demo_tab demo_syms eip)
    [(0xF0004000, 0xF0100014, [1, 2, 3, 4, 5]), (0xF0004020, 0xF0100014, [6, 7, 8, 9, 10])]
    [(demo_info, ''a.c'', ''f''), (demo_info, ''a.c'', ''f'')]" using demo_known by simp
  from mon_backtrace_prints_chain [OF demo_frames this] show ?thesis
    by (simp add: frame_text_def demo_info_def)
qed

end
