(* ===== verification/User_Lib.thy ===== *)
theory User_Lib
  imports User_Mode Print_Targets Readline
begin

text \<open>
  The library of user programs (\<open>lib/syscall.c\<close>, \<open>lib/printf.c\<close>, \<open>lib/console.c\<close>, \<open>lib/libmain.c\<close>,
  \<open>lib/exit.c\<close>, \<open>lib/panic.c\<close>) on top of \<open>User_Mode\<close>: what a program calls here goes through
  \<open>trap\<close>, \<open>syscall\<close> and the checks of the kernel. \<open>buf\<close> is where the buffer of \<open>vcprintf\<close> lies on the
  program's stack; strings the program passes by address are read from its memory.
\<close>

section \<open>System calls (lib/syscall.c)\<close>

text \<open>Calls without the check of the result.\<close>

definition user_sys_cputs ::
  "u32 \<Rightarrow> u32 \<Rightarrow> u32 \<Rightarrow> 'z kernel_state_scheme \<Rightarrow> ('z kernel_state_scheme stop + 'z kernel_state_scheme) option" where
  "user_sys_cputs ka p len s = bindo (int_syscall ka SYS_cputs p len 0 0 0 s) (\<lambda>(r, s). Some (Inr s))"

definition user_sys_cgetc ::
  "u32 \<Rightarrow> 'z kernel_state_scheme \<Rightarrow> ('z kernel_state_scheme stop + u32 \<times> 'z kernel_state_scheme) option" where
  "user_sys_cgetc ka s = int_syscall ka SYS_cgetc 0 0 0 0 0 s"

definition user_sys_getenvid ::
  "u32 \<Rightarrow> 'z kernel_state_scheme \<Rightarrow> ('z kernel_state_scheme stop + u32 \<times> 'z kernel_state_scheme) option" where
  "user_sys_getenvid ka s = int_syscall ka SYS_getenvid 0 0 0 0 0 s"

section \<open>Printing (lib/printf.c)\<close>

fun put_blocks ::
  "u32 \<Rightarrow> u32 \<Rightarrow> u8 list list \<Rightarrow> 'z kernel_state_scheme \<Rightarrow> ('z kernel_state_scheme stop + 'z kernel_state_scheme) option" where
  "put_blocks ka buf [] s = Some (Inr s)"
| "put_blocks ka buf (b # bs) s =
     bindo (fill_buffer ka buf b s) (\<lambda>s.
     bindo (user_sys_cputs ka buf (of_nat (length b)) s) (put_blocks ka buf bs))"

text \<open>The program's memory, for the strings a format refers to.\<close>

definition user_view :: "'z pmap_state_scheme \<Rightarrow> memory" where
  "user_view s = (\<lambda>a. case hw_translate (mem s) (cr3 s) True False a of None \<Rightarrow> 0 | Some pa \<Rightarrow> mem s pa)"

text \<open>\<open>vcprintf\<close>: \<^const>\<open>uvcprintf\<close> gives the blocks that are passed to \<open>sys_cputs\<close>, in order; each is in
  the buffer when the call is made.\<close>

definition user_vcprintf ::
  "u32 \<Rightarrow> u32 \<Rightarrow> u8 list \<Rightarrow> u32 list \<Rightarrow> 'z kernel_state_scheme \<Rightarrow> ('z kernel_state_scheme stop + u32 \<times> 'z kernel_state_scheme) option" where
  "user_vcprintf ka buf fmt ap s =
     (let junk = map (\<lambda>i. user_view s (buf + of_nat i)) [0..<256] in
      bindo (map_option run (uvcprintf (user_view s) junk fmt ap)) (\<lambda>(cnt, blocks).
      bindo (put_blocks ka buf blocks s) (\<lambda>s. Some (Inr (cnt, s)))))"

section \<open>Panic, exit and start (lib/panic.c, lib/exit.c, lib/libmain.c)\<close>

definition bytes :: "string \<Rightarrow> u8 list" where
  "bytes = map of_char"

text \<open>\<open>int3\<close> in a loop.\<close>

partial_function (option) break_loop ::
  "u32 \<Rightarrow> 'z kernel_state_scheme \<Rightarrow> ('z kernel_state_scheme stop + u32 \<times> 'z kernel_state_scheme) option" where
  "break_loop ka s = bindo (software_int ka T_BRKPT s) (break_loop ka)"

text \<open>\<open>binaryname\<close> and \<open>file\<close> are addresses of strings.\<close>

definition user_panic ::
  "u32 \<Rightarrow> u32 \<Rightarrow> u32 \<Rightarrow> u32 \<Rightarrow> u32 \<Rightarrow> u8 list \<Rightarrow> u32 list \<Rightarrow> 'z kernel_state_scheme \<Rightarrow>
     ('z kernel_state_scheme stop + u32 \<times> 'z kernel_state_scheme) option" where
  "user_panic ka buf binaryname file_name line fmt ap s =
     bindo (user_sys_getenvid ka s) (\<lambda>(id, s).
     bindo (user_vcprintf ka buf (bytes ''[%08x] user panic in %s at %s:%d: '') [id, binaryname, file_name, line] s) (\<lambda>(_, s).
     bindo (user_vcprintf ka buf fmt ap s) (\<lambda>(_, s).
     bindo (user_vcprintf ka buf (bytes nl) [] s) (\<lambda>(_, s). break_loop ka s))))"

text \<open>\<open>syscall\<close> with the check of the result; \<open>file_name\<close> is the address of \<open>"lib/syscall.c"\<close>.\<close>

definition user_syscall ::
  "u32 \<Rightarrow> u32 \<Rightarrow> u32 \<Rightarrow> u32 \<Rightarrow> u32 \<Rightarrow> bool \<Rightarrow> u32 \<Rightarrow> u32 \<Rightarrow> u32 \<Rightarrow> u32 \<Rightarrow> u32 \<Rightarrow> 'z kernel_state_scheme \<Rightarrow>
     ('z kernel_state_scheme stop + u32 \<times> 'z kernel_state_scheme) option" where
  "user_syscall ka buf binaryname file_name num check a1 a2 a3 a4 a5 s =
     bindo (int_syscall ka num a1 a2 a3 a4 a5 s) (\<lambda>(ret, s).
     if check \<and> 0 <s ret
     then user_panic ka buf binaryname file_name 33 (bytes ''syscall %d returned %d (> 0)'') [num, ret] s
     else Some (Inr (ret, s)))"

definition user_sys_env_destroy ::
  "u32 \<Rightarrow> u32 \<Rightarrow> u32 \<Rightarrow> u32 \<Rightarrow> u32 \<Rightarrow> 'z kernel_state_scheme \<Rightarrow>
     ('z kernel_state_scheme stop + u32 \<times> 'z kernel_state_scheme) option" where
  "user_sys_env_destroy ka buf binaryname file_name envid s =
     user_syscall ka buf binaryname file_name SYS_env_destroy True envid 0 0 0 0 s"

definition user_exit ::
  "u32 \<Rightarrow> u32 \<Rightarrow> u32 \<Rightarrow> u32 \<Rightarrow> 'z kernel_state_scheme \<Rightarrow> ('z kernel_state_scheme stop + 'z kernel_state_scheme) option" where
  "user_exit ka buf binaryname file_name s =
     bindo (user_sys_env_destroy ka buf binaryname file_name 0 s) (\<lambda>(_, s). Some (Inr s))"

text \<open>\<open>libmain\<close>; \<open>umain\<close> gets \<open>thisenv\<close>, an address in the array at \<open>UENVS\<close>. \<open>argv0\<close> is \<open>argv[0]\<close>, read if
  there is an argument, and \<open>unknown\<close> the address of \<open>"<unknown>"\<close>.\<close>

definition libmain ::
  "u32 \<Rightarrow> u32 \<Rightarrow> u32 \<Rightarrow> u32 \<Rightarrow> u32 \<Rightarrow>
     (u32 \<Rightarrow> u32 \<Rightarrow> 'z kernel_state_scheme \<Rightarrow> ('z kernel_state_scheme stop + 'z kernel_state_scheme) option) \<Rightarrow>
     u32 \<Rightarrow> 'z kernel_state_scheme \<Rightarrow> ('z kernel_state_scheme stop + 'z kernel_state_scheme) option" where
  "libmain ka buf unknown argv0 file_name umain argc s =
     bindo (user_sys_getenvid ka s) (\<lambda>(id, s).
     let thisenv = UENVS + sizeof_Env * ENVX id;
         binaryname = (if 0 <s argc then argv0 else unknown) in
     bindo (umain thisenv argc s) (user_exit ka buf binaryname file_name))"

section \<open>Console (lib/console.c)\<close>

text \<open>\<open>p\<close> is the address of the local variable \<open>c\<close>.\<close>

definition user_cputchar ::
  "u32 \<Rightarrow> u32 \<Rightarrow> u32 \<Rightarrow> 'z kernel_state_scheme \<Rightarrow> ('z kernel_state_scheme stop + 'z kernel_state_scheme) option" where
  "user_cputchar ka p ch s = bindo (user_store ka p (ucast ch) s) (user_sys_cputs ka p 1)"

partial_function (option) user_getchar ::
  "u32 \<Rightarrow> 'z kernel_state_scheme \<Rightarrow> ('z kernel_state_scheme stop + u32 \<times> 'z kernel_state_scheme) option" where
  "user_getchar ka s = bindo (user_sys_cgetc ka s) (\<lambda>(r, s). if r = 0 then user_getchar ka s else Some (Inr (r, s)))"

section \<open>Printing ends on the console\<close>

lemma byte_at_mem:
  assumes "mem t = mem s"
  shows "byte_at t D a = byte_at s D a"
  unfolding byte_at_def pt_entry_mem [OF assms] by (simp add: assms)

lemma user_buffer_mem: "mem t = mem s \<Longrightarrow> user_buffer t D buf n f = user_buffer s D buf n f"
proof -
  assume m: "mem t = mem s"
  have e: "entry t g i = entry s g i" for g i using m by (simp add: entry_def)
  show ?thesis
    unfolding user_buffer_def table_pages_def table_at_mem [OF m] pt_entry_mem [OF m] e ..
qed

lemma cputs_block:
  assumes u: "user_runs s c D" and b: "user_buffer s D buf n f" "k < n"
    and bs: "bs = map (\<lambda>i. byte_at s D (buf + of_nat i)) [0..<k]" "0 \<notin> set bs"
  shows "\<exists>t. user_sys_cputs ka buf (of_nat k) s = Some (Inr t) \<and> user_runs t c D \<and> mem t = mem s \<and>
    same_user c s t \<and> printed t = printed s @ map (\<lambda>b. char_of (unat b)) bs"
proof -
  let ?u = "calling ka SYS_cputs buf (of_nat k) 0 0 0 c s"
  have su: "same_user c s ?u" by (rule same_user_calling [OF u])
  note m = same_userD(1) [OF su]
  have "caller ?u c D" using user_runs_same [OF su u] by (simp add: user_runs_def)
  moreover have "user_buffer ?u D buf n f" using b(1) unfolding user_buffer_mem [OF m] .
  moreover have "bs = map (\<lambda>i. byte_at ?u D (buf + of_nat i)) [0..<k]" unfolding byte_at_mem [OF m] by (rule bs(1))
  ultimately have "sys_cputs ?u buf (of_nat k) = Some (Inr (?u\<lparr>console :=
      Message ''%.*s'' [Num (of_nat k), Str (map (\<lambda>b. char_of (unat b)) bs)] # console ?u\<rparr>))"
    by (intro sys_cputs_buffer [OF _ _ b(2) _ bs(2)])
  then have "syscall ?u SYS_cputs buf (of_nat k) 0 0 0 = Some (Inr (0, ?u\<lparr>console :=
      Message ''%.*s'' [Num (of_nat k), Str (map (\<lambda>b. char_of (unat b)) bs)] # console ?u\<rparr>))"
    by (simp add: syscall_def)
  from int_syscall_returns [OF u this] obtain t where t: "int_syscall ka SYS_cputs buf (of_nat k) 0 0 0 s = Some (Inr (0, t))"
    "same_user c s t" "user_runs t c D" "console t =
      Message ''%.*s'' [Num (of_nat k), Str (map (\<lambda>b. char_of (unat b)) bs)] # console ?u" by auto
  have "printed t = printed ?u @ map (\<lambda>b. char_of (unat b)) bs" by (simp add: printed_def t(4))
  with t printed_calling [of ka SYS_cputs buf "of_nat k" 0 0 0 c s] same_userD(1) [OF t(2)] show ?thesis
    by (auto simp: user_sys_cputs_def)
qed

text \<open>What a program that prints keeps: everything but its buffer page and what traps change.\<close>

definition printing :: "nat \<Rightarrow> nat \<Rightarrow> 'z kernel_state_scheme \<Rightarrow> 'z kernel_state_scheme \<Rightarrow> bool" where
  "printing c f s t \<longleftrightarrow> same_user c (s\<lparr>mem := mem t\<rparr>) t \<and> (\<forall>a. unat a div 4096 \<noteq> f \<longrightarrow> mem t a = mem s a)"

lemma same_user_mem:
  assumes "same_user c s t"
  shows "same_user c (s\<lparr>mem := m\<rparr>) (t\<lparr>mem := m\<rparr>)"
proof -
  obtain tf k d l f where t: "c < length (envs s)" "tf_cs f = tf_cs (stack_tf s)"
    "t = s\<lparr>envs := (envs s)[c := (envs s ! c)\<lparr>env_tf := tf\<rparr>], console := k, dev := d, last_tf := l, stack_tf := f\<rparr>"
    using assms unfolding same_user_def by blast
  let ?s = "s\<lparr>mem := m\<rparr>"
  have "t\<lparr>mem := m\<rparr> = ?s\<lparr>envs := (envs ?s)[c := (envs ?s ! c)\<lparr>env_tf := tf\<rparr>], console := k, dev := d, last_tf := l, stack_tf := f\<rparr>"
    by (simp add: t(3))
  moreover have "c < length (envs ?s)" "tf_cs f = tf_cs (stack_tf ?s)" using t by simp_all
  ultimately show ?thesis unfolding same_user_def by blast
qed

lemma printing_trans: "printing c f s t \<Longrightarrow> printing c f t u \<Longrightarrow> printing c f s u"
proof -
  assume a: "printing c f s t" "printing c f t u"
  then have "same_user c (s\<lparr>mem := mem u\<rparr>) (t\<lparr>mem := mem u\<rparr>)"
    using same_user_mem [of c "s\<lparr>mem := mem t\<rparr>" t "mem u"] by (simp add: printing_def)
  from same_user_trans [OF this] a show ?thesis by (simp add: printing_def)
qed

lemma printing_same: "same_user c s t \<Longrightarrow> printing c f s t"
  using same_userD(1) [of c s t] by (simp add: printing_def)

lemma printing_refl: "c < length (envs s) \<Longrightarrow> printing c f s s"
proof -
  have "s = s\<lparr>envs := (envs s)[c := (envs s ! c)\<lparr>env_tf := env_tf (envs s ! c)\<rparr>], console := console s, dev := dev s,
    last_tf := last_tf s, stack_tf := stack_tf s\<rparr>" by simp
  then have "c < length (envs s) \<Longrightarrow> same_user c s s" unfolding same_user_def by blast
  then show "c < length (envs s) \<Longrightarrow> printing c f s s" by (rule printing_same)
qed

lemma put_block:
  assumes u: "user_runs s c D" and b: "user_buffer s D buf 256 f" and l: "length bs \<le> 255" "0 \<notin> set bs"
  shows "\<exists>t. bindo (fill_buffer ka buf bs s) (\<lambda>s. user_sys_cputs ka buf (of_nat (length bs)) s) = Some (Inr t) \<and>
    user_runs t c D \<and> user_buffer t D buf 256 f \<and> printing c f s t \<and>
    printed t = printed s @ map (\<lambda>b. char_of (unat b)) bs"
proof -
  let ?s = "s\<lparr>mem := poke (mem s) (buf_pa f buf) bs\<rparr>"
  have le: "length bs \<le> 256" using l(1) by simp
  have D: "D < 0x100000" "c < length (envs s)" using u by (simp_all add: user_runs_def caller_def user_trap_def)
  note f = fill_buffer_eq(1) [OF u b le, of ka] fill_buffer_eq(2) [OF u b le]
  note pb = poke_buffer [OF b le D(1), where t = ?s]
  have buf: "user_buffer ?s D buf 256 f" by (rule pb(1)) simp
  have "bs = map (\<lambda>i. byte_at ?s D (buf + of_nat i)) [0..<length bs]"
    using pb(3) by (intro nth_equalityI) simp_all
  from cputs_block [OF f(2) buf _ this l(2), of ka] l(1) obtain t where
    t: "user_sys_cputs ka buf (of_nat (length bs)) ?s = Some (Inr t)" "user_runs t c D" "mem t = mem ?s"
      "same_user c ?s t" "printed t = printed ?s @ map (\<lambda>b. char_of (unat b)) bs" by auto
  have "printing c f s ?s" using printing_refl [of c ?s f] D(2) poke_outside [OF b le] by (simp add: printing_def)
  then have "printing c f s t" using printing_same [OF t(4)] by (rule printing_trans)
  moreover have "user_buffer t D buf 256 f" using buf unfolding user_buffer_mem [OF t(3)] .
  moreover have "printed ?s = printed s" by (simp add: printed_def)
  ultimately show ?thesis using f(1) t(1,2,5) by simp
qed

lemma put_blocks_run:
  assumes "user_runs s c D" "user_buffer s D buf 256 f" "\<forall>l \<in> set blocks. length l \<le> 255 \<and> 0 \<notin> set l"
  shows "\<exists>t. put_blocks ka buf blocks s = Some (Inr t) \<and> user_runs t c D \<and> user_buffer t D buf 256 f \<and>
    printing c f s t \<and> printed t = printed s @ map (\<lambda>b. char_of (unat b)) (concat blocks)"
  using assms
proof (induction blocks arbitrary: s)
  case Nil
  then show ?case using printing_refl [of c s f] by (simp add: user_runs_def user_trap_def)
next
  case (Cons l ls)
  have "length l \<le> 255" "0 \<notin> set l" using Cons.prems(3) by simp_all
  from put_block [OF Cons.prems(1,2) this, of ka] obtain t where
    t: "bindo (fill_buffer ka buf l s) (\<lambda>s. user_sys_cputs ka buf (of_nat (length l)) s) = Some (Inr t)"
      "user_runs t c D" "user_buffer t D buf 256 f" "printing c f s t"
      "printed t = printed s @ map (\<lambda>b. char_of (unat b)) l" by blast
  obtain v where v: "fill_buffer ka buf l s = Some (Inr v)" "user_sys_cputs ka buf (of_nat (length l)) v = Some (Inr t)"
    using t(1) by (auto simp: bindo_eq_Inr)
  from Cons.IH [OF t(2,3)] Cons.prems(3) obtain w where "put_blocks ka buf ls t = Some (Inr w)" "user_runs w c D"
    "user_buffer w D buf 256 f" "printing c f t w" "printed w = printed t @ map (\<lambda>b. char_of (unat b)) (concat ls)" by auto
  with v t(4,5) printing_trans [OF t(4)] show ?case by simp
qed

lemma user_vcprintf_run:
  assumes u: "user_runs s c D" and b: "user_buffer s D buf 256 f"
    and out: "vprintfmt (\<lambda>_. user_view s) collect fmt ap [] = Some (Inr out)" "0 \<notin> set (map ucast out :: u8 list)"
  shows "\<exists>t. user_vcprintf ka buf fmt ap s = Some (Inr (of_nat (length out), t)) \<and> user_runs t c D \<and>
    user_buffer t D buf 256 f \<and> printing c f s t \<and>
    printed t = printed s @ map (\<lambda>x. char_of (unat (ucast x :: u8))) out"
proof -
  obtain blocks where bl: "uvcprintf (user_view s) (map (\<lambda>i. user_view s (buf + of_nat i)) [0..<256]) fmt ap =
      Some (Inr (of_nat (length out), blocks))" "concat blocks = map ucast out" "\<forall>l \<in> set blocks. length l \<le> 255"
    using uvcprintf_blocks [OF out(1), of "map (\<lambda>i. user_view s (buf + of_nat i)) [0..<256]"] by auto
  have "0 \<notin> set (concat blocks)" using out(2) by (simp only: bl(2)) simp
  then have "\<forall>l \<in> set blocks. length l \<le> 255 \<and> 0 \<notin> set l" using bl(3) by auto
  from put_blocks_run [OF u b this, of ka] obtain t where "put_blocks ka buf blocks s = Some (Inr t)" "user_runs t c D"
    "user_buffer t D buf 256 f" "printing c f s t" "printed t = printed s @ map (\<lambda>b. char_of (unat b)) (concat blocks)"
    by blast
  then show ?thesis unfolding user_vcprintf_def Let_def bl(1) by (simp add: bl(2))
qed


section \<open>The environment of the program\<close>

lemma user_runs_id:
  assumes "user_runs s c D"
  shows "c < 1024" "ENVX (env_id (envs s ! c)) = of_nat c" "env_id (envs s ! c) \<noteq> 0"
proof -
  have i: "ids_wf s" "live s c" "c < length (envs s)" using assms by (simp_all add: user_runs_def caller_def live_def)
  then show c: "c < 1024" by (simp add: ids_wf_def)
  with i have "unat (ENVX (env_id (envs s ! c))) = c" "env_id (envs s ! c) \<noteq> 0" unfolding ids_wf_def by blast+
  moreover from c have "unat (of_nat c :: u32) = c" by (intro unat_of_nat_u32) simp
  ultimately show "ENVX (env_id (envs s ! c)) = of_nat c" "env_id (envs s ! c) \<noteq> 0" by (simp_all add: word_eq_unatI)
qed

lemma user_sys_getenvid_run:
  assumes u: "user_runs s c D"
  shows "\<exists>t. user_sys_getenvid ka s = Some (Inr (env_id (envs s ! c), t)) \<and> same_user c s t \<and> user_runs t c D \<and>
    printed t = printed s"
proof -
  let ?u = "calling ka SYS_getenvid 0 0 0 0 0 c s"
  note su = same_user_calling [OF u, of ka SYS_getenvid 0 0 0 0 0]
  have "curenv ?u = Some c" "c < length (envs ?u)" "env_id (envs ?u ! c) = env_id (envs s ! c)"
    using u by (simp_all only: same_userD [OF su]) (simp_all add: user_runs_def user_trap_def)
  then have "syscall ?u SYS_getenvid 0 0 0 0 0 = Some (Inr (env_id (envs s ! c), ?u))"
    by (simp add: syscall_def sys_getenvid_def)
  from int_syscall_returns [OF u this] show ?thesis
    using printed_calling [of ka SYS_getenvid 0 0 0 0 0 c s] by (auto simp: user_sys_getenvid_def printed_def)
qed

text \<open>A state whose address space is sound stays so while the program prints.\<close>

lemma owns_outside:
  assumes o: "owns s D xs" and m: "\<forall>a. unat a div 4096 \<noteq> f \<longrightarrow> mem t a = mem s a" "f \<notin> table_pages s D"
    and same: "pages t = pages s" "npages t = npages s" "page_free_list t = page_free_list s"
  shows "owns t D xs" "maps t D g = maps s D g" "refs t g = refs s g" "d < 1024 \<Longrightarrow> table_at t D d = table_at s D d"
proof -
  have wf: "pt_wf s D xs" using o by (rule ownsD)
  have D: "D < 0x100000" using pt_wf_bound [OF wf pt_wfD(4) [OF wf]] by simp
  note q = tables_outside [OF m D]
  show ta: "d < 1024 \<Longrightarrow> table_at t D d = table_at s D d" for d by (rule q(2))
  have sl: "table_at t D d = table_at s D d" if "d \<in> slots" for d using that by (intro ta) (simp add: slots_def)
  have us: "table_at t D d = table_at s D d" if "d < user_slots" for d using that user_slot by (intro ta) blast
  have tabs: "tables t D = tables s D" using sl by (auto simp: tables_def)
  have pt: "pte t D d i = pte s D d i" if "d < user_slots" "i < 1024" for d i
  proof (cases "table_at s D d")
    case (Some g)
    then have "g \<in> table_pages s D" using that user_slot by (auto simp: table_pages_def)
    with Some that us q(1) show ?thesis by (simp add: pte_def)
  qed (use that us in \<open>simp add: pte_def\<close>)
  then have "mappings t D g = mappings s D g" for g by (auto simp: mappings_def)
  then show maps: "maps t D g = maps s D g" for g by (simp add: maps_def)
  show refs: "refs t g = refs s g" for g by (simp add: refs_def same)
  have "page_link t = page_link s" using same(1) by (simp add: page_link_def fun_eq_iff)
  then have "pt_wf t D xs"
    using wf sl unfolding pt_wf_def pages_wf_def free_pages_def page_cap_def same by auto
  then show "owns t D xs" using o pt us unfolding owns_def Let_def tabs maps refs same by simp
qed

section \<open>Leaving\<close>

lemma stop_destroying_any:
  "(stop_destroying v c :: 'z env_state_scheme stop + 'a) = Inl x \<Longrightarrow> (stop_destroying v c :: 'z env_state_scheme stop + 'b) = Inl x"
  by (cases "env_destroy v c") (simp_all add: stop_destroying_def)

lemma sys_env_destroy_self:
  assumes "curenv s = Some c" "c < length (envs s)"
  shows "\<exists>v. sys_env_destroy s 0 = stop_destroying v c \<and> says s v"
  using assms by (auto simp: sys_env_destroy_def envid2env_def Let_def
    intro!: exI [of _ "cprintf (''[%08x] exiting gracefully'' @ nl) [curenv_id s] s"] says_cprintf says_refl)

lemma user_exit_run:
  assumes u: "user_runs s c D" and o: "owns s D xs" "KERNBASE \<le> kern_pgdir s"
  shows "\<exists>t ys. user_exit ka buf b f s = Some (Inl (In_monitor None t)) \<and> free_pages t ys \<and>
    env_status (envs t ! c) = ENV_FREE \<and> env_free_list t = Some c \<and>
    set ys = set xs \<union> {g. 0 < maps s D g \<and> refs s g = maps s D g} \<union>
      {f. \<exists>d < user_slots. table_at s D d = Some f} \<union> (if refs s D = 1 then {D} else {})"
proof -
  let ?u = "calling ka SYS_env_destroy 0 0 0 0 0 c s"
  note su = same_userD [OF same_user_calling [OF u, of ka SYS_env_destroy 0 0 0 0 0]]
  have c: "curenv ?u = Some c" "c < length (envs ?u)"
    using u by (simp_all only: su) (simp_all add: user_runs_def user_trap_def)
  obtain v where v: "sys_env_destroy ?u 0 = stop_destroying v c" "says ?u v"
    using sys_env_destroy_self [OF c] by blast
  note sv = saysD [OF v(2)]
  have same: "mem v = mem s" "pages v = pages s" "npages v = npages s" "page_free_list v = page_free_list s"
    by (simp_all only: sv su)
  note cong = owns_cong [OF same]
  have "owns v D xs" "env_pgdir (envs v ! c) = pgdir_kva D" "KERNBASE \<le> kern_pgdir v" "c < length (envs v)"
    using o u by (simp_all only: cong(1) sv su) (simp_all add: user_runs_def caller_def user_trap_def)
  from stop_destroying_owner [OF this] obtain t ys where t: "stop_destroying v c = Inl (In_monitor None t)"
    "free_pages t ys" "env_status (envs t ! c) = ENV_FREE" "env_free_list t = Some c"
    "set ys = set xs \<union> {g. 0 < maps s D g \<and> refs s g = maps s D g} \<union>
      {f. \<exists>d < user_slots. table_at s D d = Some f} \<union> (if refs s D = 1 then {D} else {})"
    unfolding cong by blast
  have "sys_env_destroy ?u 0 = Inl (In_monitor None t)" unfolding v(1) by (rule stop_destroying_any [OF t(1)])
  then have "syscall ?u SYS_env_destroy 0 0 0 0 0 = Some (Inl (In_monitor None t))" by (simp add: syscall_def)
  then have "int_syscall ka SYS_env_destroy 0 0 0 0 0 s = Some (Inl (In_monitor None t))"
    using int_syscall_eq [OF u, of ka SYS_env_destroy 0 0 0 0 0] by (simp only: option.case sum.case)
  then have "user_exit ka buf b f s = Some (Inl (In_monitor None t))"
    by (simp add: user_exit_def user_sys_env_destroy_def user_syscall_def)
  with t(2-5) show ?thesis by blast
qed

text \<open>\<open>libmain\<close> with a main program that only prints.\<close>

definition prints_only ::
  "nat \<Rightarrow> nat \<Rightarrow> (u32 \<Rightarrow> u32 \<Rightarrow> 'z kernel_state_scheme \<Rightarrow> ('z kernel_state_scheme stop + 'z kernel_state_scheme) option) \<Rightarrow>
     u32 \<Rightarrow> 'z kernel_state_scheme \<Rightarrow> bool" where
  "prints_only c f umain argc s \<longleftrightarrow> (\<forall>v. same_user c s v \<longrightarrow>
     (\<exists>w. umain (UENVS + sizeof_Env * of_nat c) argc v = Some (Inr w) \<and> printing c f v w))"

lemma printing_owns:
  assumes p: "printing c f s t" "f \<notin> table_pages s D" and o: "owns s D xs"
  shows "owns t D xs" "maps t D g = maps s D g" "refs t g = refs s g" "d < 1024 \<Longrightarrow> table_at t D d = table_at s D d"
    "kern_pgdir t = kern_pgdir s"
proof -
  have m: "\<forall>a. unat a div 4096 \<noteq> f \<longrightarrow> mem t a = mem s a" and sm: "same_user c (s\<lparr>mem := mem t\<rparr>) t"
    using p(1) by (simp_all add: printing_def)
  have same: "pages t = pages s" "npages t = npages s" "page_free_list t = page_free_list s" "kern_pgdir t = kern_pgdir s"
    using same_userD [OF sm] by simp_all
  note q = owns_outside [OF o m p(2) same(1-3)]
  show "owns t D xs" "maps t D g = maps s D g" "refs t g = refs s g" "d < 1024 \<Longrightarrow> table_at t D d = table_at s D d"
    "kern_pgdir t = kern_pgdir s"
    using q same(4) by blast+
qed

lemma printing_runs:
  assumes "printing c f s t" "f \<notin> table_pages s D" "user_runs s c D"
  shows "user_runs t c D"
proof -
  have m: "\<forall>a. unat a div 4096 \<noteq> f \<longrightarrow> mem (s\<lparr>mem := mem t\<rparr>) a = mem s a" and sm: "same_user c (s\<lparr>mem := mem t\<rparr>) t"
    using assms(1) by (simp_all add: printing_def)
  have D: "D < 0x100000" "tables_ok s D" using assms(3) by (simp_all add: user_runs_def caller_def)
  have "table_at (s\<lparr>mem := mem t\<rparr>) D d = table_at s D d" if "d < 1024" for d
    using tables_outside(2) [OF m assms(2) D(1) that] .
  with D(2) have "tables_ok (s\<lparr>mem := mem t\<rparr>) D" unfolding tables_ok_def pages_wf_def by auto
  from user_runs_same [OF sm user_runs_mem [OF assms(3) this]] show ?thesis .
qed

text \<open>A program that only prints gets its own entry of the array at \<open>UENVS\<close> as \<open>thisenv\<close>, and when its
  main function returns it is gone: its environment is free, the pages only it used are on the
  free list again, and the kernel stays in the monitor.\<close>

theorem libmain_exits:
  assumes u: "user_runs s c D" and m: "prints_only c f umain argc s"
    and f: "f \<notin> table_pages s D" and o: "owns s D xs" "KERNBASE \<le> kern_pgdir s"
  shows "\<exists>t ys. libmain ka buf unknown argv0 file_name umain argc s = Some (Inl (In_monitor None t)) \<and>
    free_pages t ys \<and> env_status (envs t ! c) = ENV_FREE \<and> env_free_list t = Some c \<and>
    set ys = set xs \<union> {g. 0 < maps s D g \<and> refs s g = maps s D g} \<union>
      {f. \<exists>d < user_slots. table_at s D d = Some f} \<union> (if refs s D = 1 then {D} else {})"
proof -
  obtain v where v: "user_sys_getenvid ka s = Some (Inr (env_id (envs s ! c), v))" "same_user c s v"
    using user_sys_getenvid_run [OF u] by blast
  obtain w where w: "umain (UENVS + sizeof_Env * of_nat c) argc v = Some (Inr w)" "printing c f v w"
    using m v(2) unfolding prints_only_def by blast
  have pr: "printing c f s w" using printing_trans [OF printing_same [OF v(2)] w(2)] .
  note q = printing_owns [OF pr f o(1)]
  have us: "table_at w D d = table_at s D d" if "d < user_slots" for d using that user_slot by (intro q(4)) blast
  have "KERNBASE \<le> kern_pgdir w" using o(2) unfolding q(5) .
  from user_exit_run [OF printing_runs [OF pr f u] q(1) this] obtain t ys where
    t: "user_exit ka buf (if 0 <s argc then argv0 else unknown) file_name w = Some (Inl (In_monitor None t))"
      "free_pages t ys" "env_status (envs t ! c) = ENV_FREE" "env_free_list t = Some c"
      "set ys = set xs \<union> {g. 0 < maps s D g \<and> refs s g = maps s D g} \<union>
        {f. \<exists>d < user_slots. table_at w D d = Some f} \<union> (if refs s D = 1 then {D} else {})"
    unfolding q(2,3) by blast
  have "{f. \<exists>d < user_slots. table_at w D d = Some f} = {f. \<exists>d < user_slots. table_at s D d = Some f}" using us by auto
  moreover have "libmain ka buf unknown argv0 file_name umain argc s = Some (Inl (In_monitor None t))"
    using w(1) t(1) unfolding libmain_def v(1) by (simp add: Let_def user_runs_id(2) [OF u] del: UENVS_def sizeof_Env_def)
  ultimately show ?thesis using t(2-5) by auto
qed

section \<open>Reading and writing characters\<close>

lemma cons_take_range: "cons_take s = Inr (c, t) \<Longrightarrow> 0 \<le> c \<and> c < 256"
  using uint_lt2p [where 'a = 8] by (auto simp: cons_take_def Let_def split: if_splits)

lemma user_sys_cgetc_run:
  assumes u: "user_runs s c D" and g: "cons_getc (dev s) = Some (Inr (ch, d))"
  shows "\<exists>t. user_sys_cgetc ka s = Some (Inr (word_of_int ch, t)) \<and> same_user c s t \<and> user_runs t c D \<and> dev t = d"
proof -
  let ?u = "calling ka SYS_cgetc 0 0 0 0 0 c s"
  have "dev ?u = dev s" by (simp add: calling_def entered_def)
  then have "syscall ?u SYS_cgetc 0 0 0 0 0 = Some (Inr (word_of_int ch, ?u\<lparr>dev := d\<rparr>))"
    using g by (simp add: syscall_def sys_cgetc_def)
  from int_syscall_returns [OF u this] show ?thesis by (auto simp: user_sys_cgetc_def)
qed

text \<open>A user program's \<open>getchar\<close> waits exactly as long as the kernel's own would and returns the same
  character, leaving the console as that leaves it, although each of its rounds is a system call of its own.\<close>

theorem user_getchar_waits:
  fixes s :: "'z kernel_state_scheme"
  assumes "user_runs s c D" "getchar (dev s) = Some (Inr (ch, d))"
  shows "\<exists>t. user_getchar ka s = Some (Inr (word_of_int ch, t)) \<and> dev t = d \<and> same_user c s t \<and> user_runs t c D"
proof -
  have "\<forall>s :: 'z kernel_state_scheme. user_runs s c D \<longrightarrow> dev s = e \<longrightarrow> r = Inr (ch, d) \<longrightarrow>
      (\<exists>t. user_getchar ka s = Some (Inr (word_of_int ch, t)) \<and> dev t = d \<and> same_user c s t \<and> user_runs t c D)"
    if "getchar e = Some r" for e r
  proof (rule getchar.raw_induct [OF _ that, where P = "\<lambda>e r. \<forall>s :: 'z kernel_state_scheme. user_runs s c D \<longrightarrow> dev s = e \<longrightarrow> r = Inr (ch, d) \<longrightarrow>
      (\<exists>t. user_getchar ka s = Some (Inr (word_of_int ch, t)) \<and> dev t = d \<and> same_user c s t \<and> user_runs t c D)"],
      intro allI impI)
    fix loop e r and s :: "'z kernel_state_scheme"
    assume IH: "\<And>e r. loop e = Some r \<Longrightarrow> \<forall>s :: 'z kernel_state_scheme. user_runs s c D \<longrightarrow> dev s = e \<longrightarrow> r = Inr (ch, d) \<longrightarrow>
        (\<exists>t. user_getchar ka s = Some (Inr (word_of_int ch, t)) \<and> dev t = d \<and> same_user c s t \<and> user_runs t c D)"
      and body: "bindo (cons_getc e) (\<lambda>(c, s). if c = 0 then loop s else Some (Inr (c, s))) = Some r"
      and s: "user_runs s c D" "dev s = e" "r = Inr (ch, d)"
    obtain x v where x: "cons_getc e = Some (Inr (x, v))" "(if x = 0 then loop v else Some (Inr (x, v))) = Some r"
      using body s(3) by (auto simp: bindo_eq_Inr)
    then have "0 \<le> x \<and> x < 256" by (auto simp: cons_getc_def bindo_eq_Inr dest: cons_take_range)
    then have z: "(word_of_int x :: u32) = 0 \<longleftrightarrow> x = 0" using zdvd_imp_le [of "2 ^ 32" x]
      by (force simp: word_of_int_eq_0_iff)
    obtain t where t: "user_sys_cgetc ka s = Some (Inr (word_of_int x, t))" "same_user c s t" "user_runs t c D" "dev t = v"
      using user_sys_cgetc_run [OF s(1)] x(1) s(2) by blast
    show "\<exists>t. user_getchar ka s = Some (Inr (word_of_int ch, t)) \<and> dev t = d \<and> same_user c s t \<and> user_runs t c D"
    proof (cases "x = 0")
      case True
      with x(2) IH [of v r] t(3,4) s(3) obtain w where w: "user_getchar ka t = Some (Inr (word_of_int ch, w))" "dev w = d"
        "same_user c t w" "user_runs w c D" by auto
      moreover have "user_getchar ka s = user_getchar ka t" using t(1) True by (subst user_getchar.simps) simp
      ultimately show ?thesis using same_user_trans [OF t(2)] by auto
    next
      case False
      then have "user_getchar ka s = Some (Inr (word_of_int x, t))" using t(1) z by (subst user_getchar.simps) simp
      with False x(2) s(3) t show ?thesis by auto
    qed
  qed
  with assms show ?thesis by blast
qed

lemma user_cputchar_run:
  assumes u: "user_runs s c D" and b: "user_buffer s D p 2 f" and ch: "(ucast ch :: u8) \<noteq> 0"
  shows "\<exists>t. user_cputchar ka p ch s = Some (Inr t) \<and> user_runs t c D \<and> user_buffer t D p 2 f \<and> printing c f s t \<and>
    printed t = printed s @ [char_of (unat (ucast ch :: u8))]"
proof -
  let ?s = "s\<lparr>mem := poke (mem s) (buf_pa f p) [ucast ch]\<rparr>"
  have D: "D < 0x100000" "c < length (envs s)" using u by (simp_all add: user_runs_def caller_def user_trap_def)
  have le: "length [ucast ch :: u8] \<le> 2" by simp
  have f: "fill_buffer ka p [ucast ch] s = Some (Inr ?s)" "user_runs ?s c D"
    by (rule fill_buffer_eq [OF u b le])+
  note pb = poke_buffer [OF b le D(1), where t = ?s]
  have buf: "user_buffer ?s D p 2 f" by (rule pb(1)) simp
  have "[ucast ch] = map (\<lambda>i. byte_at ?s D (p + of_nat i)) [0..<1]" using pb(3) [of 0] by simp
  from cputs_block [OF f(2) buf _ this, of ka] ch obtain t where
    t: "user_sys_cputs ka p 1 ?s = Some (Inr t)" "user_runs t c D" "mem t = mem ?s" "same_user c ?s t"
      "printed t = printed ?s @ [char_of (unat (ucast ch :: u8))]" by auto
  have "printing c f s ?s" using printing_refl [of c ?s f] D(2) poke_outside [OF b le] by (simp add: printing_def)
  then have "printing c f s t" using printing_same [OF t(4)] by (rule printing_trans)
  moreover have "user_buffer t D p 2 f" using buf unfolding user_buffer_mem [OF t(3)] .
  moreover have "user_store ka p (ucast ch) s = Some (Inr ?s)" using f(1) by (simp add: fill_buffer_def)
  ultimately show ?thesis using t(1,2,5) by (simp add: user_cputchar_def printed_def)
qed

section \<open>Witnesses\<close>

lemma bytes_hi: "bytes ''hi'' = [0x68, 0x69]" "bytes ''hi %c'' = [0x68, 0x69, 0x20, 0x25, 0x63]"
  by (simp_all add: bytes_def)

lemma print_hi: "vprintfmt rd collect (bytes ''hi'') [] [] = Some (Inr [0x68, 0x69 :: u32])"
  by (simp add: bytes_hi collect_def)


theorem libmain_exits_witness:
  "\<exists>t ys. libmain 0xEFFFFF00 0x800000 0x800100 0 0x800200
      (\<lambda>e n s. bindo (user_vcprintf 0xEFFFFF00 0x800000 (bytes ''hi'') [] s) (\<lambda>(_, s). Some (Inr s))) 0 (demo_user (blank_screen 0)) =
      Some (Inl (In_monitor None t)) \<and> env_status (envs t ! 3) = ENV_FREE \<and> set ys = {1, 2, 3} \<and> free_pages t ys"
proof -
  let ?m = "\<lambda>(e :: u32) (n :: u32) s. bindo (user_vcprintf 0xEFFFFF00 0x800000 (bytes ''hi'') [] (s :: kernel_state)) (\<lambda>(_, s). Some (Inr s))"
  have b: "user_buffer (demo_user (blank_screen 0)) 3 0x800000 256 1" by (rule demo_user_buffer) simp_all
  have "prints_only 3 1 ?m 0 (demo_user (blank_screen 0))"
    unfolding prints_only_def
  proof (intro allI impI)
    fix v assume v: "same_user 3 (demo_user (blank_screen 0)) v"
    have "user_runs v 3 3" by (rule user_runs_same [OF v demo_user_runs])
    moreover have "user_buffer v 3 0x800000 256 1" using b unfolding user_buffer_mem [OF same_userD(1) [OF v]] .
    ultimately obtain t where "user_vcprintf 0xEFFFFF00 0x800000 (bytes ''hi'') [] v = Some (Inr (of_nat (length [0x68, 0x69 :: u32]), t))"
      "printing 3 1 v t" using user_vcprintf_run [OF _ _ print_hi, of v 3 3 "0x800000" 1 "0xEFFFFF00"] by auto
    then show "\<exists>w. ?m (UENVS + sizeof_Env * of_nat 3) 0 v = Some (Inr w) \<and> printing 3 1 v w" by auto
  qed
  moreover have "1 \<notin> table_pages (demo_user (blank_screen 0)) 3" using b unfolding user_buffer_def by blast
  moreover have "KERNBASE \<le> kern_pgdir (demo_user (blank_screen 0))" by (simp add: demo_user_sel)
  ultimately obtain t ys where t: "libmain 0xEFFFFF00 0x800000 0x800100 0 0x800200 ?m 0 (demo_user (blank_screen 0)) = Some (Inl (In_monitor None t))"
    "free_pages t ys" "env_status (envs t ! 3) = ENV_FREE"
    "set ys = set [] \<union> {g. 0 < maps (demo_user (blank_screen 0)) 3 g \<and> refs (demo_user (blank_screen 0)) g = maps (demo_user (blank_screen 0)) 3 g} \<union>
      {f. \<exists>i < user_slots. table_at (demo_user (blank_screen 0)) 3 i = Some f} \<union> (if refs (demo_user (blank_screen 0)) 3 = 1 then {3} else {})"
    using libmain_exits [OF demo_user_runs _ _ demo_user_owns(1)] by blast
  have "{f. \<exists>i < user_slots. table_at (demo_user (blank_screen 0)) 3 i = Some f} = {2}"
    using user_slot by (auto simp: demo_user_table split: if_splits intro!: exI [of _ 2]) (simp add: user_slots_def)
  moreover have "{g. 0 < maps (demo_user (blank_screen 0)) 3 g \<and> refs (demo_user (blank_screen 0)) g = maps (demo_user (blank_screen 0)) 3 g} = {1}"
    using demo_user_owns(3) [of 1] by (auto simp: demo_user_owns(2))
  ultimately have "set ys = {1, 2, 3}" using t(4) demo_user_owns(3) [of 3] by auto
  with t(1-3) show ?thesis by blast
qed

theorem user_getchar_waits_witness:
  "\<exists>t. user_getchar 0xEFFFFF00 (demo_user (typed_console [0x68])) = Some (Inr (0x68, t)) \<and> queued (dev t) = []"
proof -
  have "length [0x68 :: u8] < 512" by simp
  from getchar_queued [OF typed_console_ok [OF this]] obtain u where
    "getchar (typed_console [0x68]) = Some (Inr (uint (0x68 :: u8), u))" "queued u = []" by auto
  with user_getchar_waits [OF demo_user_runs, of "typed_console [0x68]" "uint (0x68 :: u8)" u "0xEFFFFF00"]
  show ?thesis by (auto simp: demo_user_sel)
qed

end
