(* ===== verification/User_Programs.thy ===== *)
theory User_Programs
  imports User_Lib User_Steps "HOL-Library.Signed_Division"
begin

text \<open>
  The test programs of \<open>user/\<close>: their \<open>umain\<close>, run by \<open>libmain\<close> of \<open>User_Lib\<close>. \<open>hello\<close> prints its two lines
  and ends; the programs that do something forbidden are stopped by the kernel, each by its own way:
  a page fault, a general protection fault, or the check of a pointer passed to \<open>sys_cputs\<close>.
\<close>

section \<open>The programs\<close>

text \<open>\<open>thisenv->env_id\<close> is read from the kernel's array, mapped at \<open>UENVS\<close>.\<close>

definition hello_umain ::
  "u32 \<Rightarrow> u32 \<Rightarrow> u32 \<Rightarrow> u32 \<Rightarrow> 'z kernel_state_scheme \<Rightarrow> ('z kernel_state_scheme stop + 'z kernel_state_scheme) option" where
  "hello_umain ka buf thisenv argc s =
     bindo (user_vcprintf ka buf (bytes (''hello, world'' @ nl)) [] s) (\<lambda>(_, s).
     let e = unat ((thisenv - UENVS) div sizeof_Env) in
     if \<not> e < length (envs s) then Some (Inl (Faulted Wild_Access))
     else bindo (user_vcprintf ka buf (bytes (''i am environment %08x'' @ nl)) [env_id (envs s ! e)] s) (\<lambda>(_, s).
     Some (Inr s)))"

text \<open>A store of a word is the store of its bytes; if the first cannot be written the word cannot.\<close>

definition user_store32 ::
  "u32 \<Rightarrow> u32 \<Rightarrow> u32 \<Rightarrow> 'z kernel_state_scheme \<Rightarrow> ('z kernel_state_scheme stop + 'z kernel_state_scheme) option" where
  "user_store32 ka va v s =
     foldl (\<lambda>r i. bindo r (user_store ka (va + of_nat i) (ucast (drop_bit (8 * i) v)))) (Some (Inr s)) [0..<4]"

definition user_load32 ::
  "u32 \<Rightarrow> u32 \<Rightarrow> 'z kernel_state_scheme \<Rightarrow> ('z kernel_state_scheme stop + u32 \<times> 'z kernel_state_scheme) option" where
  "user_load32 ka va s =
     foldl (\<lambda>r i. bindo r (\<lambda>(v, s). bindo (user_load ka (va + of_nat i) s) (\<lambda>(b, s).
       Some (Inr (v OR push_bit (8 * i) (ucast b), s))))) (Some (Inr (0, s))) [0..<4]"

definition faultwrite_umain ::
  "u32 \<Rightarrow> 'z kernel_state_scheme \<Rightarrow> ('z kernel_state_scheme stop + 'z kernel_state_scheme) option" where
  "faultwrite_umain ka s = user_store32 ka 0 0 s"

definition faultwritekernel_umain ::
  "u32 \<Rightarrow> 'z kernel_state_scheme \<Rightarrow> ('z kernel_state_scheme stop + 'z kernel_state_scheme) option" where
  "faultwritekernel_umain ka s = user_store32 ka 0xF0100000 0 s"

definition faultread_umain ::
  "u32 \<Rightarrow> u32 \<Rightarrow> 'z kernel_state_scheme \<Rightarrow> ('z kernel_state_scheme stop + 'z kernel_state_scheme) option" where
  "faultread_umain ka buf s =
     bindo (user_load32 ka 0 s) (\<lambda>(v, s).
     bindo (user_vcprintf ka buf (bytes (''I read %08x from location 0!'' @ nl)) [v] s) (\<lambda>(_, s). Some (Inr s)))"

definition faultreadkernel_umain ::
  "u32 \<Rightarrow> u32 \<Rightarrow> 'z kernel_state_scheme \<Rightarrow> ('z kernel_state_scheme stop + 'z kernel_state_scheme) option" where
  "faultreadkernel_umain ka buf s =
     bindo (user_load32 ka 0xF0100000 s) (\<lambda>(v, s).
     bindo (user_vcprintf ka buf (bytes (''I read %08x from location 0xf0100000!'' @ nl)) [v] s) (\<lambda>(_, s). Some (Inr s)))"

definition softint_umain ::
  "u32 \<Rightarrow> 'z kernel_state_scheme \<Rightarrow> ('z kernel_state_scheme stop + 'z kernel_state_scheme) option" where
  "softint_umain ka s = software_int ka 14 s"

definition breakpoint_umain ::
  "u32 \<Rightarrow> 'z kernel_state_scheme \<Rightarrow> ('z kernel_state_scheme stop + 'z kernel_state_scheme) option" where
  "breakpoint_umain ka s = software_int ka 3 s"

definition buggyhello_umain ::
  "u32 \<Rightarrow> 'z kernel_state_scheme \<Rightarrow> ('z kernel_state_scheme stop + 'z kernel_state_scheme) option" where
  "buggyhello_umain ka s = user_sys_cputs ka 1 1 s"

text \<open>\<open>hello\<close> is the address of the text.\<close>

definition buggyhello2_umain ::
  "u32 \<Rightarrow> u32 \<Rightarrow> 'z kernel_state_scheme \<Rightarrow> ('z kernel_state_scheme stop + 'z kernel_state_scheme) option" where
  "buggyhello2_umain ka hello s = user_sys_cputs ka hello (1024 * 1024) s"

definition evilhello_umain ::
  "u32 \<Rightarrow> 'z kernel_state_scheme \<Rightarrow> ('z kernel_state_scheme stop + 'z kernel_state_scheme) option" where
  "evilhello_umain ka s = user_sys_cputs ka 0xF010000C 100 s"

text \<open>The \<open>idivl\<close> of \<open>1/zero\<close>: a zero divisor or a quotient that does not fit raises a divide error (vector 0), and the
  instruction runs again if the kernel comes back.\<close>

partial_function (option) idiv ::
  "u32 \<Rightarrow> u32 \<Rightarrow> u32 \<Rightarrow> 'z kernel_state_scheme \<Rightarrow> ('z kernel_state_scheme stop + u32 \<times> 'z kernel_state_scheme) option" where
  "idiv ka a b s =
     (if b = 0 \<or> (a = 0x80000000 \<and> b = 0xFFFFFFFF) then bindo (interrupt ka 0 0 s) (idiv ka a b)
      else Some (Inr (word_of_int (sint a sdiv sint b), s)))"

definition divzero_umain ::
  "u32 \<Rightarrow> u32 \<Rightarrow> u32 \<Rightarrow> 'z kernel_state_scheme \<Rightarrow> ('z kernel_state_scheme stop + 'z kernel_state_scheme) option" where
  "divzero_umain ka buf zero s =
     bindo (user_store32 ka zero 0 s) (\<lambda>s.
     bindo (user_load32 ka zero s) (\<lambda>(z, s).
     bindo (idiv ka 1 z s) (\<lambda>(q, s).
     bindo (user_vcprintf ka buf (bytes (''1/0 is %08x!'' @ nl)) [q] s) (\<lambda>(_, s). Some (Inr s)))))"

text \<open>\<open>movw %ax,%ds\<close> at privilege level 3: the null selectors are allowed; otherwise the selector must name a
  descriptor of the table that is a data segment or readable code, reachable from user code, and present.\<close>

definition load_ds ::
  "u32 \<Rightarrow> u16 \<Rightarrow> 'z kernel_state_scheme \<Rightarrow> ('z kernel_state_scheme stop + 'z kernel_state_scheme) option" where
  "load_ds ka sel s =
     (let i = unat sel div 8; d = gdt (cpu_tables s) ! i; err = ucast (sel AND 0xFFFC) in
      if unat sel < 4 then Some (Inr (s\<lparr>stack_tf := (stack_tf s)\<lparr>tf_ds := sel\<rparr>\<rparr>))
      else if bit sel 2 \<or> \<not> i < length (gdt (cpu_tables s)) \<or> sd_s d = 0 \<or> (bit (sd_type d) 3 \<and> \<not> bit (sd_type d) 1) \<or>
        (\<not> (bit (sd_type d) 3 \<and> bit (sd_type d) 2) \<and> sd_dpl d \<noteq> 3) then interrupt ka 13 err s
      else if sd_p d = 0 then interrupt ka 11 err s
      else Some (Inr (s\<lparr>stack_tf := (stack_tf s)\<lparr>tf_ds := sel\<rparr>\<rparr>)))"

definition badsegment_umain ::
  "u32 \<Rightarrow> 'z kernel_state_scheme \<Rightarrow> ('z kernel_state_scheme stop + 'z kernel_state_scheme) option" where
  "badsegment_umain ka s = load_ds ka 0x28 s"

text \<open>\<open>bigarray\<close> at \<open>ba\<close>; the three loops of \<open>testbss\<close> take the index from a list.\<close>

fun bss_check ::
  "u32 \<Rightarrow> u32 \<Rightarrow> u32 \<Rightarrow> (u32 \<Rightarrow> u32) \<Rightarrow> (u32 \<Rightarrow> 'z kernel_state_scheme \<Rightarrow> ('z kernel_state_scheme stop + u32 \<times> 'z kernel_state_scheme) option) \<Rightarrow>
     nat list \<Rightarrow> 'z kernel_state_scheme \<Rightarrow> ('z kernel_state_scheme stop + 'z kernel_state_scheme) option" where
  "bss_check ka buf ba want panic [] s = Some (Inr s)"
| "bss_check ka buf ba want panic (i # is) s =
     bindo (user_load32 ka (ba + 4 * of_nat i) s) (\<lambda>(v, s).
     bindo (if v \<noteq> want (of_nat i) then bindo (panic (of_nat i) s) (\<lambda>(_, s). Some (Inr s)) else Some (Inr s))
       (bss_check ka buf ba want panic is))"

fun bss_fill ::
  "u32 \<Rightarrow> u32 \<Rightarrow> nat list \<Rightarrow> 'z kernel_state_scheme \<Rightarrow> ('z kernel_state_scheme stop + 'z kernel_state_scheme) option" where
  "bss_fill ka ba [] s = Some (Inr s)"
| "bss_fill ka ba (i # is) s = bindo (user_store32 ka (ba + 4 * of_nat i) (of_nat i) s) (bss_fill ka ba is)"

definition testbss_umain ::
  "u32 \<Rightarrow> u32 \<Rightarrow> u32 \<Rightarrow> u32 \<Rightarrow> u32 \<Rightarrow> 'z kernel_state_scheme \<Rightarrow> ('z kernel_state_scheme stop + 'z kernel_state_scheme) option" where
  "testbss_umain ka buf ba binaryname file_name s =
     (let size = 1024 * 1024; panic = user_panic ka buf binaryname file_name in
      bindo (user_vcprintf ka buf (bytes (''Making sure bss works right...'' @ nl)) [] s) (\<lambda>(_, s).
      bindo (bss_check ka buf ba (\<lambda>_. 0) (\<lambda>i. panic 17 (bytes (''bigarray[%d] isn'' @ [CHR 0x27] @ ''t cleared!'' @ nl)) [i]) [0..<size] s) (\<lambda>s.
      bindo (bss_fill ka ba [0..<size] s) (\<lambda>s.
      bindo (bss_check ka buf ba (\<lambda>i. i) (\<lambda>i. panic 22 (bytes (''bigarray[%d] didn'' @ [CHR 0x27] @ ''t hold its value!'' @ nl)) [i]) [0..<size] s) (\<lambda>s.
      bindo (user_vcprintf ka buf (bytes (''Yes, good.  Now doing a wild write off the end...'' @ nl)) [] s) (\<lambda>(_, s).
      bindo (user_store32 ka (ba + 4 * (of_nat size + 1024)) 0 s) (\<lambda>s.
      bindo (panic 26 (bytes ''SHOULD HAVE TRAPPED!!!'') [] s) (\<lambda>(_, s). Some (Inr s)))))))))"

section \<open>What hello prints\<close>

lemma vprintfmt_plain:
  assumes "\<forall>c \<in> set cs. c \<noteq> 0x25 \<and> c \<noteq> 0"
  shows "vprintfmt rd collect (cs @ fmt) ap xs = vprintfmt rd collect fmt ap (xs @ map ucast cs)"
  using assms by (induction cs arbitrary: xs) (simp_all add: collect_def)

definition hex8 :: "u32 \<Rightarrow> u32 list" where
  "hex8 v = replicate (8 - length (digits 16 (unat v))) 0x30 @ map digit_char (digits 16 (unat v))"

lemma hello_bytes:
  "bytes (''hello, world'' @ nl) = [0x68, 0x65, 0x6C, 0x6C, 0x6F, 0x2C, 0x20, 0x77, 0x6F, 0x72, 0x6C, 0x64, 0x0A]"
  "bytes (''i am environment %08x'' @ nl) =
     [0x69, 0x20, 0x61, 0x6D, 0x20, 0x65, 0x6E, 0x76, 0x69, 0x72, 0x6F, 0x6E, 0x6D, 0x65, 0x6E, 0x74, 0x20] @
     [0x25, 0x30, 0x38, 0x78, 0x0A]"
  by (simp_all add: bytes_def nl_def)

lemma print_hello:
  "vprintfmt rd collect (bytes (''hello, world'' @ nl)) [] [] = Some (Inr (map ucast (bytes (''hello, world'' @ nl))))"
  using vprintfmt_plain [of "bytes (''hello, world'' @ nl)" rd "[]" "[]" "[]"] unfolding hello_bytes by simp

lemma print_hex8:
  "vprintfmt rd collect [0x25, 0x30, 0x38, 0x78, 0x0A] [v] xs = Some (Inr (xs @ hex8 v @ [0x0A]))"
proof -
  obtain f where f: "escape fmt_start [0x30, 0x38, 0x78, 0x0A] [v] = Inr (f, 0x78, [0x0A], [v])" "padc f = 0x30" "width f = 8" "lflag f = 0"
    by (simp add: fmt_start_def process_precision_def is_digit_def)
  have g: "getuint [v] 0 = Inr (ucast v, [])" by (simp add: getuint_def arg32_def)
  have "nat (8 - int (length ds)) = 8 - length ds" for ds :: "nat list" by simp
  then have "convert rd collect f 0x78 [v] xs = Some (Some (Inr ([], xs @ hex8 v)))"
    by (simp add: convert_def Let_def f(2-4) g printnum_16 for_each_collect ucast_64 hex8_def)
  with f(1) show ?thesis by (simp add: collect_def)
qed

lemma print_environment:
  "vprintfmt rd collect (bytes (''i am environment %08x'' @ nl)) [v] [] =
    Some (Inr (map ucast (bytes ''i am environment '') @ hex8 v @ [0x0A]))"
  unfolding hello_bytes
  by (subst vprintfmt_plain) (simp_all add: print_hex8 bytes_def del: vprintfmt.simps)

text \<open>The eight digits of a number.\<close>

definition hex_text :: "u32 \<Rightarrow> string" where
  "hex_text v = (let ds = digits 16 (unat v) in
     replicate (8 - length ds) (CHR ''0'') @ map (\<lambda>d. ''0123456789abcdef'' ! d) ds)"

definition shown :: "u32 \<Rightarrow> char" where
  "shown x = char_of (unat (ucast x :: u8))"

lemma shown_bytes: "map shown (map ucast (bytes xs)) = xs"
proof -
  have "shown (ucast (of_char c :: u8)) = c" for c
  proof -
    have "(of_nat (of_char c) :: u8) = of_char c" by (rule of_nat_of_char)
    moreover have "unat (of_nat n :: u8) = n" if "n < 256" for n
      using that by (simp add: unat_of_nat)
    then have "unat (of_nat (of_char c) :: u8) = of_char c" using nat_of_char_less_256 [of c] by blast
    ultimately have "unat (of_char c :: u8) = of_char c" by metis
    moreover have "ucast (ucast x :: u32) = x" for x :: u8
      by (intro bit_word_eqI) (auto simp: bit_unsigned_iff dest: bit_imp_le_length)
    ultimately show ?thesis by (simp only: shown_def char_of_nat) simp
  qed
  then show ?thesis by (simp add: bytes_def comp_def)
qed

lemma shown_digits: "list_all (\<lambda>d. shown (digit_char d) = ''0123456789abcdef'' ! d) [0..<16]"
  unfolding shown_def by code_simp

lemma shown_hex8: "map shown (hex8 v) = hex_text v"
proof -
  have "shown (digit_char d) = ''0123456789abcdef'' ! d" if "d \<in> set (digits 16 (unat v))" for d
    using shown_digits digits_less [of 16 d "unat v"] that by (simp add: list_all_length del: upt_rec_numeral)
  moreover have "shown 0x30 = CHR ''0''" by (simp add: shown_def char_of_def bit_iff_odd)
  ultimately show ?thesis by (simp add: hex8_def hex_text_def Let_def)
qed

lemma hex8_no_zero: "0 \<notin> set (map ucast (hex8 v) :: u8 list)"
proof -
  have "(ucast (digit_char d) :: u8) \<noteq> 0" if "d \<in> set (digits 16 (unat v))" for d
    using digit_byte [of d] digits_less [of 16 d "unat v"] that by (simp add: digit_byte_def)
  then show ?thesis by (auto simp: hex8_def)
qed

lemma thisenv_index:
  assumes "c < 1024"
  shows "unat ((UENVS + sizeof_Env * of_nat c - UENVS) div sizeof_Env) = c"
proof -
  have c: "unat (of_nat c :: u32) = c" using assms by (intro unat_of_nat_u32) simp
  have "unat (96 * of_nat c :: u32) = 96 * c"
    using assms c by (simp add: unat_word_ariths)
  then show ?thesis by (simp add: unat_div)
qed

lemma hello_runs:
  assumes u: "user_runs s c D" and b: "user_buffer s D buf 256 f"
  shows "\<exists>t. hello_umain ka buf (UENVS + sizeof_Env * of_nat c) argc s = Some (Inr t) \<and> user_runs t c D \<and>
    printing c f s t \<and>
    printed t = printed s @ ''hello, world'' @ nl @ ''i am environment '' @ hex_text (env_id (envs s ! c)) @ nl"
proof -
  let ?h = "bytes (''hello, world'' @ nl)" and ?e = "bytes ''i am environment ''"
  have nz: "0 \<notin> set (map ucast (map ucast ?h :: u32 list) :: u8 list)" by (simp only: hello_bytes) simp
  from user_vcprintf_run [OF u b print_hello this, of ka] obtain v where
    v: "user_vcprintf ka buf ?h [] s = Some (Inr (of_nat (length (map ucast ?h :: u32 list)), v))" "user_runs v c D"
      "user_buffer v D buf 256 f" "printing c f s v"
      "printed v = printed s @ map shown (map ucast ?h)" unfolding shown_def by blast
  have sm: "same_user c (s\<lparr>mem := mem v\<rparr>) v" using v(4) by (simp add: printing_def)
  have id: "env_id (envs v ! c) = env_id (envs s ! c)" "c < length (envs v)" "c < 1024"
    using same_userD(12) [OF sm] v(2) user_runs_id(1) [OF v(2)] by (simp_all add: user_runs_def user_trap_def)
  let ?out = "map ucast ?e @ hex8 (env_id (envs v ! c)) @ [0x0A]"
  have "0 \<notin> set (map ucast ?out :: u8 list)"
    using hex8_no_zero [of "env_id (envs v ! c)"] by (simp add: bytes_def)
  from user_vcprintf_run [OF v(2,3) print_environment this, of ka] obtain w where
    w: "user_vcprintf ka buf (bytes (''i am environment %08x'' @ nl)) [env_id (envs v ! c)] v = Some (Inr (of_nat (length ?out), w))"
      "user_runs w c D" "printing c f v w" "printed w = printed v @ map shown ?out" unfolding shown_def by blast
  have nl: "shown 0x0A = CHR 0x0A" by (simp add: shown_def char_of_def bit_iff_odd)
  have "hello_umain ka buf (UENVS + sizeof_Env * of_nat c) argc s = Some (Inr w)"
    using id(2) w(1) unfolding hello_umain_def v(1) by (simp only: bindo_simps prod.case Let_def thisenv_index [OF id(3)] not_not if_False simp_thms)
  moreover have "printed w = printed s @ ''hello, world'' @ nl @ ''i am environment '' @ hex_text (env_id (envs s ! c)) @ nl"
    unfolding w(4) v(5) map_append shown_bytes shown_hex8 id(1) by (simp add: nl)
  ultimately show ?thesis using w(2) printing_trans [OF v(4) w(3)] by blast
qed



section \<open>Programs that are stopped\<close>

lemma user_store_ends:
  assumes "user_runs s c D" "owns s D xs" "KERNBASE \<le> kern_pgdir s" "hw_translate (mem s) (cr3 s) True True va = None"
  shows "ended s c D (user_store32 ka va v s)"
proof -
  have "ended s c D (user_store ka va b s)" for b
    using user_fault_ends [OF assms(1-3)] assms(4) by (subst user_store.simps) (simp add: ended_bindo)
  then show ?thesis by (simp add: user_store32_def upt_rec ended_bindo)
qed

lemma user_load_ends:
  assumes "user_runs s c D" "owns s D xs" "KERNBASE \<le> kern_pgdir s" "hw_translate (mem s) (cr3 s) True False va = None"
  shows "ended s c D (user_load32 ka va s)"
proof -
  have "ended s c D (user_load ka va s)"
    using user_fault_ends [OF assms(1-3)] assms(4) by (subst user_load.simps) (simp add: ended_bindo)
  then show ?thesis by (simp add: user_load32_def upt_rec ended_bindo)
qed

lemma cputs_rejected:
  assumes u: "user_runs s c D" and o: "owns s D xs" "KERNBASE \<le> kern_pgdir s"
    and r: "unat va + unat len + 4095 < 2 ^ 32" "len \<noteq> 0" "unat len < 2 ^ 31" "va \<noteq> 0"
    and a: "va \<le> a" "unat a < unat va + unat len" "\<not> accessible s D PTE_U a"
  shows "ended s c D (user_sys_cputs ka va len s)"
proof -
  let ?u = "calling ka SYS_cputs va len 0 0 0 c s"
  note su = same_user_calling [OF u, of ka SYS_cputs va len 0 0 0]
  note sd = same_userD [OF su]
  have c: "caller ?u c D" using user_runs_same [OF su u] by (simp add: user_runs_def)
  have "accessible ?u D PTE_U x = accessible s D PTE_U x" for x
    by (simp only: accessible_def pt_entry_mem [OF sd(1)])
  with a have no: "\<not> (\<forall>a. va \<le> a \<and> unat a < unat va + unat len \<longrightarrow> accessible ?u D PTE_U a)" by blast
  obtain b where b: "sys_cputs ?u va len = Some (stop_destroying
      (cprintf (''[%08x] user_mem_check assertion failure for va %08x'' @ nl)
        [env_id (envs ?u ! c), b] (?u\<lparr>user_mem_check_addr := b\<rparr>)) c)"
    using sys_cputs_spec [OF c r] unfolding if_not_P [OF no] by blast
  define v where "v = cprintf (''[%08x] user_mem_check assertion failure for va %08x'' @ nl)
        [env_id (envs ?u ! c), b] (?u\<lparr>user_mem_check_addr := b\<rparr>)"
  have same: "mem v = mem s" "pages v = pages s" "npages v = npages s" "page_free_list v = page_free_list s"
    using sd by (simp_all add: v_def cprintf_def)
  note cong = owns_cong [OF same]
  have "kern_pgdir v = kern_pgdir s" "envs v = envs ?u" using sd by (simp_all add: v_def cprintf_def)
  then have "owns v D xs" "env_pgdir (envs v ! c) = pgdir_kva D" "KERNBASE \<le> kern_pgdir v" "c < length (envs v)"
    using o u by (simp_all only: cong(1) sd) (simp_all add: user_runs_def caller_def user_trap_def)
  from stop_destroying_owner [OF this] obtain t ys where t: "stop_destroying v c = Inl (In_monitor None t)"
    "free_pages t ys" "env_status (envs t ! c) = ENV_FREE" "{g. 0 < maps s D g \<and> refs s g = maps s D g} \<subseteq> set ys"
    unfolding cong by blast
  have "sys_cputs ?u va len = Some (Inl (In_monitor None t))"
    unfolding b v_def [symmetric] by (simp add: stop_destroying_any [OF t(1)])
  then have "syscall ?u SYS_cputs va len 0 0 0 = Some (Inl (In_monitor None t))" by (simp add: syscall_def)
  then have "int_syscall ka SYS_cputs va len 0 0 0 s = Some (Inl (In_monitor None t))"
    using int_syscall_eq [OF u, of ka SYS_cputs va len 0 0 0] by (simp only: option.case sum.case)
  with t(2-4) show ?thesis unfolding ended_def user_sys_cputs_def by auto
qed



end
