(* ===== verification/Spec2Isabelle.thy ===== *)
theory Spec2Isabelle
  imports Mem_Init Mem_Start Kern_Start Kern_Init Trap_Entry Check_Free Check_Page Entry_Map Boot_Loader Env_Load Load_Icode Env_Free Sys_Cputs Trap Print_Targets Monitor Debuginfo
    User_Programs
begin

text \<open>
  A model of the JOS teaching kernel as of its third lab: one processor, user environments with
  their own address spaces, traps and four system calls. The text below says which theory models
  which part of the sources, what is shown of it, and what is left out.

  \<^bold>\<open>Parts and how they interact.\<close> The boot code maps the kernel at \<open>KERNBASE\<close>; \<open>kern/init.c\<close>
  starts the console, the memory management (\<open>kern/pmap.c\<close>), the environments (\<open>kern/env.c\<close>) and
  the trap tables (\<open>kern/trap.c\<close>) and runs one environment. From then on the kernel is entered by
  traps only. \<open>trap\<close> copies the frame of the environment, dispatches to the page fault handler, the
  monitor or \<open>syscall\<close> (\<open>kern/syscall.c\<close>), and resumes the environment. System calls check user
  pointers with \<open>user_mem_check\<close>, print through \<open>lib/printfmt.c\<close> and \<open>kern/console.c\<close> and destroy
  environments, which gives their pages back to the allocator.

  \<^bold>\<open>Conventions.\<close> C structures are records, machine integers are words of their width, arrays are
  lists. A pointer into an array is an index (\<open>struct PageInfo *\<close>, \<open>struct Env *\<close>), a null pointer
  is \<open>None\<close>; pointers into memory are 32-bit words. Memory is a function from physical addresses to
  bytes (\<open>mem\<close>), which the kernel reads and writes at \<open>KERNBASE\<close> plus the physical address
  (\<open>kload\<close>, \<open>kstore\<close>) and through the page tables of \<open>cr3\<close> where it uses user addresses (\<open>vload\<close>,
  \<open>vstore\<close>). The state is a record that each layer extends: \<open>pmap_state\<close>, \<open>env_state\<close>,
  \<open>kernel_state\<close>. A call of \<open>panic\<close> and an access outside an array are values of \<open>fault\<close>; a
  function that can fault returns \<open>fault + 'a\<close> and is sequenced by \<open>bindr\<close>. A loop that is not
  bounded by its text is a \<open>partial_function (option)\<close>, sequenced by \<open>bindo\<close>, whose value \<open>None\<close> is
  a run without end: no fuel is used anywhere, and theorems about such loops conclude \<open>Some\<close>.

  \<^bold>\<open>Theories.\<close>
  \<^item> \<open>Prelude\<close>: names of the machine integers, faults, sequencing, loops over lists.
  \<^item> \<open>Mmu\<close>: linear addresses, page-table flags, rounding, the memory layout (\<open>inc/mmu.h\<close>,
    \<open>inc/memlayout.h\<close>, \<open>inc/types.h\<close>).
  \<^item> \<open>Memory\<close>, \<open>Strings\<close>: \<open>lib/string.c\<close>. Memory operations equal their block reference, overlaps
    included; \<open>strcat\<close> and \<open>strlcpy\<close> write exactly what they should.
  \<^item> \<open>Free_List\<close>: the interface of a free list threaded through an array, used for \<open>pages\<close> and \<open>envs\<close>.
  \<^item> \<open>Pages\<close>: memory detection, \<open>boot_alloc\<close>, \<open>page_init\<close>, \<open>page_alloc\<close>, \<open>page_free\<close>,
    \<open>page_decref\<close> (\<open>kern/pmap.c\<close>). Which pages start free, the allocator as a stack.
  \<^item> \<open>Page_Table\<close>, \<open>Boot_Map\<close>, \<open>Frame\<close>: \<open>pgdir_walk\<close> to \<open>page_insert\<close>, \<open>boot_map_region\<close>. The abstract
    address space is \<open>pt_entry\<close>; each operation is an update of it, with exact reference counts.
  \<^item> \<open>Kern_Map\<close>, \<open>Mem_Init\<close>: the two halves of \<open>mem_init\<close> that build the page arrays and map the kernel,
    and its check \<open>check_kern_pgdir\<close>. From the BIOS state they lead to the layout of
    \<open>inc/memlayout.h\<close>, and the check accepts exactly the page directories with that layout.
  \<^item> \<open>Entry_Map\<close>: \<open>kern/entrypgdir.c\<close> and the processor's translation: what is mapped before and after
    \<open>mem_init\<close>, for the kernel and for user code.
  \<^item> \<open>User_Mem\<close>: \<open>user_mem_check\<close> decides the access right of every page of a range.
  \<^item> \<open>Descriptors\<close>: segments, gates, \<open>trap_init\<close>.
  \<^item> \<open>Env\<close> (all operations of \<open>kern/env.c\<close> on the table), \<open>Env_Ids\<close> (ids, \<open>env_alloc\<close>, \<open>env_run\<close>),
    \<open>Env_Vm\<close> (\<open>env_setup_vm\<close>), \<open>Env_Load\<close> (\<open>region_alloc\<close>, \<open>load_icode\<close>, \<open>env_create\<close>),
    \<open>Env_Free\<close> (\<open>env_free\<close>, \<open>env_destroy\<close>).
  \<^item> \<open>Load_Icode\<close>: what \<open>load_icode\<close> leaves behind: the bytes of every segment at its address, zeros
    after them, the stack page and the entry point; the pages are the environment's alone.
  \<^item> \<open>Console\<close>: \<open>kern/console.c\<close>; what a port read answers is a parameter of the state.
  \<^item> \<open>Syscall\<close>, \<open>Sys_Cputs\<close>, \<open>Trap\<close>: \<open>kern/syscall.c\<close>, \<open>kern/trap.c\<close>. A trap returns to user code only
    after a system call and changes only \<open>%eax\<close>; an exception in user mode ends the environment.
  \<^item> \<open>Trap_Entry\<close>: \<open>kern/trapentry.S\<close> and \<open>env_pop_tf\<close>, instruction by instruction: the words on the kernel's stack
    are the \<open>struct Trapframe\<close> that \<open>trap\<close> reads, and a program gets its registers back.
  \<^item> \<open>Printfmt\<close>, \<open>Print_Numbers\<close>, \<open>Print_Spec\<close>, \<open>Print_Targets\<close>: \<open>lib/printfmt.c\<close>, \<open>kern/printf.c\<close>,
    \<open>lib/printf.c\<close>. The characters \<open>vprintfmt\<close> hands to its \<open>putch\<close> do not depend on it, so the three
    ways of printing are shown to print the same text.
  \<^item> \<open>Readline\<close>: \<open>lib/readline.c\<close> over any console that keeps the contract \<open>line_input\<close>, and over the
    kernel's: the line returned is what the line editor \<open>edit\<close> makes of the characters typed.
  \<^item> \<open>Monitor\<close>: \<open>kern/monitor.c\<close>. The interpreter cuts a line into its words and answers each line in
    order; it never returns.
  \<^item> \<open>Kdebug\<close>, \<open>Debuginfo\<close>: \<open>kern/kdebug.c\<close>, with the backtrace of \<open>kern/monitor.c\<close>. The search finds the
    entry that contains an address, \<open>debuginfo_eip\<close> the function, line and file.
  \<^item> \<open>Check_Free\<close>: the self tests of the free list and of the allocator in \<open>kern/pmap.c\<close>: which free lists
    pass, and that the tests leave the list as it was but for its order.
  \<^item> \<open>Check_Page\<close>: the self tests of the page tables, \<open>check_page\<close> and \<open>check_page_installed_pgdir\<close>, as lists
    of steps; the exact state each leaves.
  \<^item> \<open>Mem_Start\<close>: all of \<open>mem_init\<close>. With enough memory it runs to its end: the self tests neither panic nor
    change the address space or the set of free pages.
  \<^item> \<open>Kern_Start\<close>: the clock chip (\<open>kern/kclock.c\<close>) over any chip that keeps the contract \<open>rtc_chip\<close> of its
    documentation; \<open>panic\<close> and \<open>warn\<close> (\<open>kern/init.c\<close>): a panic reports once and ends in the monitor.
  \<^item> \<open>Kern_Init\<close>: \<open>i386_init\<close> (\<open>kern/init.c\<close>), the composition of all of the above. On a machine that is
    \<open>startable\<close> it enters the first environment without a panic, and from there on no step of the program
    changes the kernel's memory.
  \<^item> \<open>Boot_Loader\<close>: \<open>boot/main.c\<close> over any controller that keeps the contract \<open>ide_disk\<close> of its documentation:
    the segments of the kernel image are loaded and the entry point is called.
  \<^item> \<open>User_Mode\<close>: the processor in user mode: \<open>int\<close>, loads and stores through \<open>%cr3\<close>, page faults. A system
    call of a program goes through \<open>trap\<close> and comes back with the result in \<open>%eax\<close>.
  \<^item> \<open>User_Steps\<close>: any program at all, as sequences of steps of the processor: what the kernel relies on is kept,
    nothing outside the program's own pages changes, and a step that is not allowed ends the program.
  \<^item> \<open>User_Lib\<close>: \<open>lib/syscall.c\<close>, \<open>lib/printf.c\<close>, \<open>lib/console.c\<close>, \<open>lib/libmain.c\<close>, \<open>lib/exit.c\<close>,
    \<open>lib/panic.c\<close>, on top of it: the text a program prints reaches the console whole and in order.
  \<^item> \<open>User_Programs\<close>: the programs of \<open>user/\<close>: \<open>hello\<close> prints its lines and ends, the programs that do
    something forbidden are stopped.

  \<^bold>\<open>Abstractions.\<close> Messages of the kernel itself (\<open>cprintf\<close> in \<open>kern/env.c\<close>, \<open>kern/trap.c\<close>,
  \<open>kern/syscall.c\<close>) are recorded with format and arguments in \<open>console\<close>; how a format is printed is the
  subject of \<open>Print_Targets\<close>. The frame on the kernel's stack is the field \<open>stack_tf\<close>; \<open>Trap_Entry\<close> shows that
  the words there are that frame. Descriptor tables, control registers and the TLB are fields that the
  privileged instructions set. Whatever a device answers is a parameter.

  \<^bold>\<open>Not modelled.\<close> The assembler of \<open>boot/boot.S\<close>, \<open>kern/entry.S\<close> and \<open>lib/entry.S\<close>, which set up a stack and
  enable paging; \<open>user/sendpage.c\<close> and \<open>fs/test.c\<close>, which call functions that the sources do not have.
\<close>

end
